(* ===== verification/Prelude.thy ===== *)
theory Prelude
  imports Main "HOL-Library.Word"
begin

text \<open>
  Shared vocabulary of the development: the machine integers of the kernel, the
  outcome type of code that may panic, checked arithmetic, and the generic facts on
  words and lists that the component theories use.

  The kernel is built with the \<^verbatim>\<open>dev\<close> profile (the Makefile runs \<^verbatim>\<open>cargo build\<close> and
  boots \<^verbatim>\<open>target/.../debug\<close>), so integer overflow, \<^verbatim>\<open>assert!\<close> and \<^verbatim>\<open>debug_assert!\<close>
  all panic. \<^verbatim>\<open>panic!\<close> prints and then loops forever: no later state is observable,
  so a panic is an outcome that carries only its message.
\<close>

unbundle bit_operations_syntax

section \<open>Machine integers\<close>

type_synonym u8 = "8 word"
type_synonym u16 = "16 word"
type_synonym u32 = "32 word"
type_synonym u64 = "64 word"
type_synonym usize = "64 word"

section \<open>Outcomes of kernel code\<close>

datatype 'a kres = Done 'a | Panicked string

fun kbind :: "'a kres \<Rightarrow> ('a \<Rightarrow> 'b kres) \<Rightarrow> 'b kres" where
  "kbind (Done x) f = f x"
| "kbind (Panicked m) f = Panicked m"

definition kassert :: "bool \<Rightarrow> string \<Rightarrow> unit kres" where
  "kassert b m = (if b then Done () else Panicked m)"

fun panics :: "'a kres \<Rightarrow> bool" where
  "panics (Done x) = False"
| "panics (Panicked m) = True"

text \<open>Overflow-checked arithmetic on \<^verbatim>\<open>usize\<close>, as a debug build performs it.\<close>

definition usize_add :: "usize \<Rightarrow> usize \<Rightarrow> usize kres" where
  "usize_add a b =
     (if unat a + unat b < 2 ^ 64 then Done (a + b)
      else Panicked ''attempt to add with overflow'')"

definition usize_sub :: "usize \<Rightarrow> usize \<Rightarrow> usize kres" where
  "usize_sub a b =
     (if b \<le> a then Done (a - b) else Panicked ''attempt to subtract with overflow'')"

definition usize_mul :: "usize \<Rightarrow> usize \<Rightarrow> usize kres" where
  "usize_mul a b =
     (if unat a * unat b < 2 ^ 64 then Done (a * b)
      else Panicked ''attempt to multiply with overflow'')"

definition u32_add :: "u32 \<Rightarrow> u32 \<Rightarrow> u32 kres" where
  "u32_add a b =
     (if unat a + unat b < 2 ^ 32 then Done (a + b)
      else Panicked ''attempt to add with overflow'')"

definition u32_sub :: "u32 \<Rightarrow> u32 \<Rightarrow> u32 kres" where
  "u32_sub a b =
     (if b \<le> a then Done (a - b) else Panicked ''attempt to subtract with overflow'')"

text \<open>A \<^verbatim>\<open>for\<close> loop over a list whose body may panic.\<close>

fun kfold :: "('s \<Rightarrow> 'a \<Rightarrow> 's kres) \<Rightarrow> 's \<Rightarrow> 'a list \<Rightarrow> 's kres" where
  "kfold f s [] = Done s"
| "kfold f s (x # xs) = kbind (f s x) (\<lambda>s'. kfold f s' xs)"

text \<open>The collections of rewrite rules the component theories extend.\<close>

named_theorems kres_simps \<open>evaluation of outcomes and checked arithmetic\<close>
named_theorems page_simps \<open>page arithmetic on addresses\<close>

section \<open>Outcomes: algebra and case splits\<close>

lemma kbind_assoc [simp]: "kbind (kbind m f) g = kbind m (\<lambda>x. kbind (f x) g)"
  by (cases m) auto

lemma kbind_Done_right [simp]: "kbind m Done = m"
  by (cases m) auto

lemma kbind_eq_Done [kres_simps]:
  "kbind m f = Done y \<longleftrightarrow> (\<exists>x. m = Done x \<and> f x = Done y)"
  by (cases m) auto

lemma kbind_DoneE:
  assumes "kbind m f = Done y"
  obtains x where "m = Done x" and "f x = Done y"
  using assms by (cases m) auto

lemma kbind_cong [fundef_cong]:
  "m = m' \<Longrightarrow> (\<And>x. m' = Done x \<Longrightarrow> f x = f' x) \<Longrightarrow> kbind m f = kbind m' f'"
  by (cases m') auto

lemma kassert_True [simp]: "kassert True m = Done ()"
  and kassert_False [simp]: "kassert False m = Panicked m"
  by (simp_all add: kassert_def)

lemma kassert_eq_Done [kres_simps]: "kassert b m = Done u \<longleftrightarrow> b"
  by (simp add: kassert_def)

lemma panics_iff: "panics r \<longleftrightarrow> (\<exists>m. r = Panicked m)"
  by (cases r) auto

lemma usize_add_eq_Done [kres_simps]:
  "usize_add a b = Done c \<longleftrightarrow> unat a + unat b < 2 ^ 64 \<and> c = a + b"
  by (auto simp: usize_add_def)

lemma usize_mul_eq_Done [kres_simps]:
  "usize_mul a b = Done c \<longleftrightarrow> unat a * unat b < 2 ^ 64 \<and> c = a * b"
  by (auto simp: usize_mul_def)

lemma u32_add_eq_Done [kres_simps]:
  "u32_add a b = Done c \<longleftrightarrow> unat a + unat b < 2 ^ 32 \<and> c = a + b"
  by (auto simp: u32_add_def)

lemma u32_sub_eq_Done [kres_simps]:
  "u32_sub a b = Done c \<longleftrightarrow> b \<le> a \<and> c = a - b"
  by (auto simp: u32_sub_def)

lemma kfold_append: "kfold f s (xs @ ys) = kbind (kfold f s xs) (\<lambda>s'. kfold f s' ys)"
  by (induction xs arbitrary: s) auto

lemma usize_sub_eq_Done [kres_simps]:
  "usize_sub a b = Done c \<longleftrightarrow> b \<le> a \<and> c = a - b"
  by (auto simp: usize_sub_def)

lemma unat_plus_no_overflow:
  fixes a b :: "'a::len word"
  assumes "unat a + unat b < 2 ^ LENGTH('a)"
  shows "unat (a + b) = unat a + unat b"
  using assms by (simp add: unat_word_ariths)

section \<open>Masks, shifts and page arithmetic on words\<close>

lemma and_mask_mod [page_simps]:
  fixes x :: "'a::len word"
  assumes "n < LENGTH('a)"
  shows "unat (x AND mask n) = unat x mod 2 ^ n"
  by (simp only: take_bit_eq_mask [symmetric] unsigned_take_bit_eq) (simp add: take_bit_eq_mod)

lemma mask_12: "(4095 :: usize) = mask 12"
  and mask_9: "(511 :: usize) = mask 9"
  by (simp_all add: mask_eq_exp_minus_1)

lemma unat_and_4095 [page_simps]: "unat ((x :: usize) AND 4095) = unat x mod 4096"
  by (simp add: mask_12 and_mask_mod)

lemma unat_and_511 [page_simps]: "unat ((x :: usize) AND 511) = unat x mod 512"
  by (simp add: mask_9 and_mask_mod)

lemma and_not_mask_eq:
  fixes x :: "'a::len word"
  shows "x AND NOT (mask n) = push_bit n (drop_bit n x)"
  by (rule bit_word_eqI) (auto simp: bit_simps)

lemma unat_shift_right [page_simps]:
  fixes x :: "'a::len word"
  shows "unat (drop_bit n x) = unat x div 2 ^ n"
  by (subst unat_drop_bit_eq) (rule drop_bit_eq_div)

lemma unat_push_bit_eq:
  fixes x :: "'a::len word"
  shows "unat (push_bit n x) = (unat x * 2 ^ n) mod 2 ^ LENGTH('a)"
  by (simp only: unsigned_push_bit_eq) (simp add: take_bit_eq_mod push_bit_eq_mult)

lemma unat_and_not_4095 [page_simps]:
  "unat ((x :: usize) AND NOT 4095) = unat x div 4096 * 4096"
proof -
  have "unat x < 2 ^ 64" using unsigned_less [of x, where ?'a = nat] by simp
  then have "unat x div 4096 * 4096 < 2 ^ 64"
    by (meson div_times_less_eq_dividend le_less_trans)
  then show ?thesis
    by (simp add: mask_12 and_not_mask_eq unat_push_bit_eq unat_shift_right)
qed

lemma unat_and_minus_4096 [page_simps]:
  "unat ((x :: usize) AND - 4096) = unat x div 4096 * 4096"
  using unat_and_not_4095 [of x] by simp

lemma unat_inject: "unat (a :: 'a::len word) = unat b \<longleftrightarrow> a = b"
  by (auto intro: unsigned_word_eqI)

lemma unat_usize_bound: "unat (x :: usize) < 2 ^ 64"
  using unsigned_less [of x, where ?'a = nat] by simp

section \<open>Lists\<close>

text \<open>\<^verbatim>\<open>Vec\<close> grows and shrinks at its end: \<^verbatim>\<open>push\<close> appends, \<^verbatim>\<open>pop\<close> takes the last element.\<close>

definition vec_pop :: "'a list \<Rightarrow> ('a \<times> 'a list) option" where
  "vec_pop xs = (if xs = [] then None else Some (last xs, butlast xs))"

definition vec_push :: "'a \<Rightarrow> 'a list \<Rightarrow> 'a list" where
  "vec_push x xs = xs @ [x]"

lemma vec_pop_push [simp]: "vec_pop (vec_push x xs) = Some (x, xs)"
  by (simp add: vec_pop_def vec_push_def)

lemma vec_pop_None [simp]: "vec_pop xs = None \<longleftrightarrow> xs = []"
  by (simp add: vec_pop_def)

lemma vec_pop_Nil [simp]: "vec_pop [] = None"
  by simp

lemma vec_pop_Some: "vec_pop xs = Some (y, ys) \<longleftrightarrow> xs = vec_push y ys"
  by (auto simp: vec_pop_def vec_push_def)

lemma vec_push_not_Nil [simp]: "vec_push x xs \<noteq> []" "[] \<noteq> vec_push x xs"
  by (simp_all add: vec_push_def)

lemma set_vec_push [simp]: "set (vec_push x xs) = insert x (set xs)"
  by (simp add: vec_push_def)

lemma distinct_vec_push [simp]: "distinct (vec_push x xs) \<longleftrightarrow> x \<notin> set xs \<and> distinct xs"
  by (auto simp: vec_push_def)

lemma length_vec_push [simp]: "length (vec_push x xs) = Suc (length xs)"
  by (simp add: vec_push_def)

lemma list_update_append_left:
  "i < length xs \<Longrightarrow> (xs @ ys)[i := v] = xs[i := v] @ ys"
  by (simp add: list_update_append)

lemma nth_list_upd_if: "xs[i := v] ! j = (if i = j \<and> j < length xs then v else xs ! j)"
proof (cases "j < length xs")
  case False
  then show ?thesis by (metis linorder_not_le list_update_beyond nth_list_update_neq)
qed (auto simp: nth_list_update)

lemma map_upt_shift: "map f [Suc i..<Suc j] = map (f \<circ> Suc) [i..<j]"
  by (simp add: map_Suc_upt [symmetric] del: upt_Suc)

end
