(* ===== verification/Addr.thy ===== *)
theory Addr
  imports Prelude
begin

text \<open>
  Addresses and page numbers: \<^verbatim>\<open>kernel/src/mm/addr.rs\<close>, the page rounding of
  \<^verbatim>\<open>kernel/src/mm/mod.rs\<close> and the memory layout of \<^verbatim>\<open>kernel/src/consts\<close>. Addresses
  are 64-bit words; every \<open>+\<close> of the source that may overflow is checked. The lemmas
  give the rounding and the splitting of Sv39 addresses their arithmetic meaning.
\<close>

section \<open>Layout constants\<close>

definition PAGE_SIZE :: usize where "PAGE_SIZE = 0x1000"
definition PGSHIFT :: nat where "PGSHIFT = 12"
definition PGMASK :: usize where "PGMASK = 0x1FF"
definition PGMASKLEN :: nat where "PGMASKLEN = 9"
definition PAGE_SIZE_BITS :: nat where "PAGE_SIZE_BITS = 0xc"
definition KERNEL_STACK_SIZE :: usize where "KERNEL_STACK_SIZE = PAGE_SIZE * 4"
definition USER_STACK_SIZE :: usize where "USER_STACK_SIZE = PAGE_SIZE * 4"
definition NPROC :: nat where "NPROC = 512"
definition MAX_TASKS_PER_PROC :: nat where "MAX_TASKS_PER_PROC = 64"
definition SV39FLAGLEN :: nat where "SV39FLAGLEN = 10"
definition SATP_SV39 :: usize where "SATP_SV39 = push_bit 60 8"
definition MAXVA :: usize where "MAXVA = push_bit (9 + 9 + 9 + 12 - 1) 1"
definition KERNBASE :: usize where "KERNBASE = 0x80000000"
definition PHYSTOP :: usize where "PHYSTOP = KERNBASE + (128 + 64) * 1024 * 1024"
definition KERNEL_HEAP_END :: usize where "KERNEL_HEAP_END = KERNBASE + 128 * 1024 * 1024"
definition TRAMPOLINE :: usize where "TRAMPOLINE = MAXVA - PAGE_SIZE"
definition TRAPFRAME :: usize where "TRAPFRAME = TRAMPOLINE - PAGE_SIZE"
definition USERTEXT :: usize where "USERTEXT = 0"
definition USYSCALL :: usize where "USYSCALL = TRAPFRAME - PAGE_SIZE"

lemmas layout_defs =
  PAGE_SIZE_def PGSHIFT_def PGMASK_def PGMASKLEN_def PAGE_SIZE_BITS_def
  KERNEL_STACK_SIZE_def USER_STACK_SIZE_def SV39FLAGLEN_def MAXVA_def KERNBASE_def
  PHYSTOP_def KERNEL_HEAP_END_def TRAMPOLINE_def TRAPFRAME_def USERTEXT_def USYSCALL_def

section \<open>Physical and virtual addresses\<close>

datatype phys_addr = PhysAddr (pa_raw: usize)
datatype virt_addr = VirtAddr (va_raw: usize)
datatype phys_page_num = PhysPageNum (ppn_raw: usize)
datatype virt_page_num = VirtPageNum (vpn_raw: usize)

text \<open>
  The default methods of trait \<^verbatim>\<open>Addr\<close> act on the wrapped \<^verbatim>\<open>usize\<close>; \<^verbatim>\<open>a + PAGE_SIZE - 1\<close>
  is \<^verbatim>\<open>(a + PAGE_SIZE) - 1\<close>, and the addition is the step that can overflow.
\<close>

definition addr_pg_round_up :: "usize \<Rightarrow> usize kres" where
  "addr_pg_round_up a =
     kbind (usize_add a PAGE_SIZE) (\<lambda>s. Done ((s - 1) AND NOT (PAGE_SIZE - 1)))"

definition addr_pg_round_down :: "usize \<Rightarrow> usize" where
  "addr_pg_round_down a = a AND NOT (PAGE_SIZE - 1)"

definition addr_add_page :: "usize \<Rightarrow> usize kres" where
  "addr_add_page a = usize_add a PAGE_SIZE"

text \<open>The free functions of \<^verbatim>\<open>mm/mod.rs\<close>.\<close>

definition pg_round_up :: "usize \<Rightarrow> usize kres" where
  "pg_round_up address =
     kbind (usize_add address (PAGE_SIZE - 1)) (\<lambda>s. Done (s AND NOT (PAGE_SIZE - 1)))"

definition pg_round_down :: "usize \<Rightarrow> usize" where
  "pg_round_down address = address AND NOT (PAGE_SIZE - 1)"

definition trapframe_from_pid :: "nat \<Rightarrow> usize kres" where
  "trapframe_from_pid pid =
     (let d = pid * (2 * 4096) + 4096
      in if d \<le> unat TRAPFRAME then Done (TRAPFRAME - of_nat d)
         else Panicked ''attempt to subtract with overflow'')"

definition phys_floor :: "phys_addr \<Rightarrow> phys_page_num" where
  "phys_floor p = PhysPageNum (pa_raw p div PAGE_SIZE)"

definition phys_ceil :: "phys_addr \<Rightarrow> phys_page_num kres" where
  "phys_ceil p =
     (if pa_raw p = 0 then Done (PhysPageNum 0)
      else kbind (usize_add (pa_raw p - 1) PAGE_SIZE) (\<lambda>s. Done (PhysPageNum (s div PAGE_SIZE))))"

definition phys_page_offset :: "phys_addr \<Rightarrow> usize" where
  "phys_page_offset p = pa_raw p AND (PAGE_SIZE - 1)"

definition phys_aligned :: "phys_addr \<Rightarrow> bool" where
  "phys_aligned p = (phys_page_offset p = 0)"

definition phys_try_from :: "usize \<Rightarrow> string + phys_addr" where
  "phys_try_from addr =
     (if addr mod PAGE_SIZE \<noteq> 0 then Inl ''PhysAddr addr not aligned''
      else if addr > PHYSTOP then Inl ''PhysAddr addr bigger than HEAP_END''
      else Inr (PhysAddr addr))"

definition va_page_num :: "virt_addr \<Rightarrow> nat \<Rightarrow> usize" where
  "va_page_num v level = drop_bit (PGSHIFT + level * PGMASKLEN) (va_raw v) AND PGMASK"

definition virt_floor :: "virt_addr \<Rightarrow> virt_page_num" where
  "virt_floor v = VirtPageNum (va_raw v div PAGE_SIZE)"

definition virt_ceil :: "virt_addr \<Rightarrow> virt_page_num kres" where
  "virt_ceil v =
     (if va_raw v = 0 then Done (VirtPageNum 0)
      else kbind (usize_add (va_raw v - 1) PAGE_SIZE) (\<lambda>s. Done (VirtPageNum (s div PAGE_SIZE))))"

definition virt_page_offset :: "virt_addr \<Rightarrow> usize" where
  "virt_page_offset v = va_raw v AND (PAGE_SIZE - 1)"

definition virt_aligned :: "virt_addr \<Rightarrow> bool" where
  "virt_aligned v = (virt_page_offset v = 0)"

definition virt_try_from :: "usize \<Rightarrow> string + virt_addr" where
  "virt_try_from addr =
     (if addr > MAXVA then Inl ''value for VirtAddr should be smaller than 1<<38''
      else Inr (VirtAddr addr))"

definition virt_add :: "virt_addr \<Rightarrow> virt_addr \<Rightarrow> virt_addr kres" where
  "virt_add a b = kbind (usize_add (va_raw a) (va_raw b)) (\<lambda>s. Done (VirtAddr s))"

definition virt_sub :: "virt_addr \<Rightarrow> virt_addr \<Rightarrow> virt_addr kres" where
  "virt_sub a b = kbind (usize_sub (va_raw a) (va_raw b)) (\<lambda>s. Done (VirtAddr s))"

section \<open>Page numbers\<close>

definition PPN_WIDTH_SV39 :: nat where "PPN_WIDTH_SV39 = 56 - PAGE_SIZE_BITS"
definition VA_WIDTH_SV39 :: nat where "VA_WIDTH_SV39 = 39"
definition VPN_WIDTH_SV39 :: nat where "VPN_WIDTH_SV39 = VA_WIDTH_SV39 - PAGE_SIZE_BITS"

definition ppn_from_usize :: "usize \<Rightarrow> phys_page_num" where
  "ppn_from_usize v = PhysPageNum (v AND (push_bit PPN_WIDTH_SV39 1 - 1))"

definition vpn_from_usize :: "usize \<Rightarrow> virt_page_num" where
  "vpn_from_usize v = VirtPageNum (v AND (push_bit VPN_WIDTH_SV39 1 - 1))"

definition usize_from_virt :: "virt_addr \<Rightarrow> usize" where
  "usize_from_virt v =
     (if va_raw v \<ge> push_bit (VA_WIDTH_SV39 - 1) 1
      then va_raw v OR NOT (push_bit VA_WIDTH_SV39 1 - 1) else va_raw v)"

definition ppn_from_phys :: "phys_addr \<Rightarrow> phys_page_num kres" where
  "ppn_from_phys p =
     (if phys_page_offset p = 0 then Done (phys_floor p)
      else Panicked ''assertion failed: page_offset == 0'')"

definition phys_from_ppn :: "phys_page_num \<Rightarrow> phys_addr" where
  "phys_from_ppn n = PhysAddr (push_bit PAGE_SIZE_BITS (ppn_raw n))"

definition vpn_from_virt :: "virt_addr \<Rightarrow> virt_page_num kres" where
  "vpn_from_virt v =
     (if virt_page_offset v = 0 then Done (virt_floor v)
      else Panicked ''assertion failed: page_offset == 0'')"

definition virt_from_vpn :: "virt_page_num \<Rightarrow> virt_addr" where
  "virt_from_vpn n = VirtAddr (push_bit PAGE_SIZE_BITS (vpn_raw n))"

text \<open>
  \<^verbatim>\<open>VirtPageNum::indexes\<close> fills \<^verbatim>\<open>idx\<close> from the last position to the first, shifting
  the page number right by 9 each time.
\<close>

fun vpn_indexes_loop :: "nat \<Rightarrow> usize \<Rightarrow> usize list \<Rightarrow> usize list" where
  "vpn_indexes_loop 0 vpn idx = idx"
| "vpn_indexes_loop (Suc i) vpn idx = vpn_indexes_loop i (drop_bit 9 vpn) (idx[i := vpn AND 511])"

definition vpn_indexes :: "virt_page_num \<Rightarrow> usize list" where
  "vpn_indexes n = vpn_indexes_loop 3 (vpn_raw n) [0, 0, 0]"

section \<open>Ranges of page numbers\<close>

text \<open>
  \<^verbatim>\<open>SimpleRange\<close> and its iterator, at the raw page number; \<^verbatim>\<open>step\<close> is a checked
  increment, so collecting the iterator ends: either at \<^verbatim>\<open>end\<close> or by overflow.
\<close>

record simple_range = range_l :: usize  range_r :: usize

definition simple_range_new :: "usize \<Rightarrow> usize \<Rightarrow> simple_range kres" where
  "simple_range_new start end' =
     (if start \<le> end' then Done \<lparr>range_l = start, range_r = end'\<rparr>
      else Panicked ''start > end!'')"

definition range_next :: "simple_range \<Rightarrow> (usize option \<times> simple_range) kres" where
  "range_next it =
     (if range_l it = range_r it then Done (None, it)
      else kbind (usize_add (range_l it) 1) (\<lambda>n. Done (Some (range_l it), it\<lparr>range_l := n\<rparr>)))"

function range_collect :: "simple_range \<Rightarrow> usize list kres" where
  "range_collect it =
     (case range_next it of
        Panicked m \<Rightarrow> Panicked m
      | Done (None, it') \<Rightarrow> Done []
      | Done (Some v, it') \<Rightarrow> kbind (range_collect it') (\<lambda>vs. Done (v # vs)))"
  by pat_completeness auto
termination
proof (relation "measure (\<lambda>it. 2 ^ 64 - unat (range_l it))", goal_cases)
  case 1
  then show ?case by simp
next
  case (2 it x1 x it' v)
  then have "unat (range_l it) + 1 < 2 ^ 64" and "range_l it' = range_l it + 1"
    by (auto simp: range_next_def kres_simps split: if_splits)
  then show ?case
    using unat_plus_no_overflow [of "range_l it" 1] by simp
qed

declare range_collect.simps [simp del]

section \<open>Order on page numbers\<close>

text \<open>\<^verbatim>\<open>PhysPageNum\<close> and \<^verbatim>\<open>VirtPageNum\<close> derive \<^verbatim>\<open>Ord\<close>: they compare by their number.\<close>

instantiation phys_page_num :: linorder
begin
definition less_eq_phys_page_num_def: "a \<le> b \<longleftrightarrow> ppn_raw a \<le> ppn_raw b"
definition less_phys_page_num_def: "a < b \<longleftrightarrow> ppn_raw a < ppn_raw b"
instance
  by standard
    (auto simp: less_eq_phys_page_num_def less_phys_page_num_def phys_page_num.expand)
end

instantiation virt_page_num :: linorder
begin
definition less_eq_virt_page_num_def: "a \<le> b \<longleftrightarrow> vpn_raw a \<le> vpn_raw b"
definition less_virt_page_num_def: "a < b \<longleftrightarrow> vpn_raw a < vpn_raw b"
instance
  by standard
    (auto simp: less_eq_virt_page_num_def less_virt_page_num_def virt_page_num.expand)
end

section \<open>Rounding\<close>

lemma unat_PAGE_SIZE [simp]: "unat PAGE_SIZE = 4096"
  by (simp add: PAGE_SIZE_def)

lemma PAGE_SIZE_minus_1: "PAGE_SIZE - 1 = 4095"
  by (simp add: PAGE_SIZE_def)

lemma unat_pg_round_down [page_simps]:
  "unat (pg_round_down a) = unat a div 4096 * 4096"
  by (simp add: pg_round_down_def PAGE_SIZE_minus_1 page_simps)

lemma addr_pg_round_down_eq [simp]: "addr_pg_round_down a = pg_round_down a"
  by (simp add: addr_pg_round_down_def pg_round_down_def)

text \<open>Rounding up on naturals gives the least multiple of 4096 that is not below.\<close>

lemma round_up_nat:
  fixes x :: nat
  shows "x \<le> (x + 4095) div 4096 * 4096" and "(x + 4095) div 4096 * 4096 < x + 4096"
  using div_mult_mod_eq [of "x + 4095" 4096] mod_less_divisor [of 4096 "x + 4095"] by linarith+

lemma pg_round_up_Done:
  assumes "unat a + 4095 < 2 ^ 64"
  shows "\<exists>r. pg_round_up a = Done r \<and> unat r = (unat a + 4095) div 4096 * 4096"
proof -
  have u: "unat (4095 :: usize) = 4095" by simp
  have "unat (a + 4095) = unat a + 4095"
    using assms unat_plus_no_overflow [of a 4095] u by simp
  then show ?thesis
    using assms by (simp add: pg_round_up_def usize_add_def PAGE_SIZE_minus_1 page_simps)
qed

lemma addr_pg_round_up_Done:
  assumes "unat a + 4096 < 2 ^ 64"
  shows "addr_pg_round_up a = pg_round_up a"
proof -
  have "a + PAGE_SIZE - 1 = a + (PAGE_SIZE - 1)" by simp
  moreover have "unat (PAGE_SIZE - 1) = 4095" by (simp add: PAGE_SIZE_def)
  ultimately show ?thesis
    using assms by (simp add: addr_pg_round_up_def pg_round_up_def usize_add_def add_diff_eq)
qed

lemma pg_round_up_eq:
  assumes "pg_round_up a = Done r"
  shows "unat r = (unat a + 4095) div 4096 * 4096"
proof -
  have "unat a + 4095 < 2 ^ 64"
    using assms by (auto simp: pg_round_up_def kres_simps PAGE_SIZE_minus_1)
  with assms show ?thesis using pg_round_up_Done [of a] by auto
qed

lemma page_aligned_mod: "a mod PAGE_SIZE = 0 \<longleftrightarrow> unat a mod 4096 = 0"
  by (metis unat_PAGE_SIZE unat_mod unat_eq_zero)

section \<open>Page numbers and the Sv39 split\<close>

lemma unat_va_page_num:
  "unat (va_page_num v level) = unat (va_raw v) div 2 ^ (12 + 9 * level) mod 512"
  by (simp add: va_page_num_def PGSHIFT_def PGMASKLEN_def PGMASK_def unat_and_511
      unat_shift_right mult.commute)

lemma va_page_num_bound: "unat (va_page_num v level) < 512"
  by (simp add: unat_va_page_num)

lemma unat_virt_floor: "unat (vpn_raw (virt_floor v)) = unat (va_raw v) div 4096"
  by (simp add: virt_floor_def unat_div)

lemma unat_phys_floor: "unat (ppn_raw (phys_floor p)) = unat (pa_raw p) div 4096"
  by (simp add: phys_floor_def unat_div)

lemma vpn_indexes_eq:
  "vpn_indexes n = [drop_bit 18 (vpn_raw n) AND 511, drop_bit 9 (vpn_raw n) AND 511, vpn_raw n AND 511]"
  by (simp add: vpn_indexes_def numeral_3_eq_3)

lemma div_div_512: "(x :: nat) div 4096 div 512 div 512 = x div 1073741824"
  and div_div_512': "(x :: nat) div 4096 div 512 = x div 2097152"
  and div_div_18: "(x :: nat) div 4096 div 262144 = x div 1073741824"
  by (simp_all add: div_mult2_eq [symmetric])

section \<open>Ranges\<close>

lemma range_collect_upt:
  assumes "range_l it \<le> range_r it"
  shows "\<exists>vs. range_collect it = Done vs \<and>
           map unat vs = [unat (range_l it)..<unat (range_r it)]"
  using assms
proof (induction it rule: range_collect.induct)
  case (1 it)
  show ?case
  proof (cases "range_l it = range_r it")
    case True
    then show ?thesis by (simp add: range_collect.simps [of it] range_next_def)
  next
    case False
    let ?it = "it\<lparr>range_l := range_l it + 1\<rparr>"
    have lt: "unat (range_l it) < unat (range_r it)"
      using False "1.prems" by (metis word_le_nat_alt le_neq_implies_less unat_inject)
    then have ov: "unat (range_l it) + 1 < 2 ^ 64"
      using unat_usize_bound [of "range_r it"] by linarith
    have suc: "unat (range_l it + 1) = Suc (unat (range_l it))"
      using unat_plus_no_overflow [of "range_l it" 1] ov by simp
    have nx: "range_next it = Done (Some (range_l it), ?it)"
      using False ov by (simp add: range_next_def usize_add_def)
    moreover have "range_l ?it \<le> range_r ?it"
      using lt suc by (simp add: word_le_nat_alt)
    ultimately obtain vs where vs: "range_collect ?it = Done vs"
      "map unat vs = [unat (range_l it + 1)..<unat (range_r it)]"
      using "1.IH" by fastforce
    then show ?thesis
      using lt suc nx by (simp add: range_collect.simps [of it] upt_conv_Cons)
  qed
qed

section \<open>Properties\<close>

text \<open>
  Page rounding: \<^verbatim>\<open>pg_round_down\<close> gives the largest page boundary not above its
  argument, and \<^verbatim>\<open>pg_round_up\<close>, whenever it returns, the smallest one not below it; it
  panics exactly when the addition overflows.
\<close>

theorem page_rounding_correct:
  "unat (pg_round_down a) mod 4096 = 0 \<and>
   unat (pg_round_down a) \<le> unat a \<and> unat a < unat (pg_round_down a) + 4096 \<and>
   (panics (pg_round_up a) \<longleftrightarrow> 2 ^ 64 \<le> unat a + 4095) \<and>
   (case pg_round_up a of
      Panicked m \<Rightarrow> True
    | Done r \<Rightarrow> unat r mod 4096 = 0 \<and> unat a \<le> unat r \<and> unat r < unat a + 4096)"
proof -
  have p: "panics (pg_round_up a) \<longleftrightarrow> 2 ^ 64 \<le> unat a + 4095"
    by (auto simp: pg_round_up_def usize_add_def PAGE_SIZE_minus_1 panics_iff)
  have "unat r mod 4096 = 0 \<and> unat a \<le> unat r \<and> unat r < unat a + 4096"
    if "pg_round_up a = Done r" for r
    unfolding pg_round_up_eq [OF that] using round_up_nat by simp
  then show ?thesis
    using p by (auto simp: unat_pg_round_down split: kres.split)
qed

text \<open>
  Sv39 split: the two ways the kernel splits an address agree. For every virtual
  address, \<^verbatim>\<open>VirtPageNum::indexes\<close> of its page lists \<^verbatim>\<open>page_num\<close> at levels 2, 1 and 0,
  each index is below 512, and the indices with the page offset determine the low 39
  bits of the address.
\<close>

theorem sv39_split_correct:
  "vpn_indexes (virt_floor v) = [va_page_num v 2, va_page_num v 1, va_page_num v 0] \<and>
   (\<forall>l. unat (va_page_num v l) < 512) \<and>
   ((unat (va_page_num v 2) * 512 + unat (va_page_num v 1)) * 512 +
      unat (va_page_num v 0)) * 4096 + unat (virt_page_offset v) = unat (va_raw v) mod 2 ^ 39"
proof -
  let ?a = "unat (va_raw v)"
  have eq: "drop_bit 18 (vpn_raw (virt_floor v)) AND 511 = va_page_num v 2"
    "drop_bit 9 (vpn_raw (virt_floor v)) AND 511 = va_page_num v 1"
    "vpn_raw (virt_floor v) AND 511 = va_page_num v 0"
    by (rule unat_inject [THEN iffD1],
        simp add: unat_and_511 unat_shift_right unat_virt_floor unat_va_page_num
          div_div_18 div_div_512')+
  have off: "unat (virt_page_offset v) = ?a mod 4096"
    by (simp add: virt_page_offset_def PAGE_SIZE_minus_1 unat_and_4095)
  have m: "?a mod 2 ^ 39 = ?a div 4096 mod 2 ^ 27 * 4096 + ?a mod 4096"
    using mod_mult2_eq [of ?a 4096 "2 ^ 27"] by simp
  have m2: "?a div 4096 mod 2 ^ 27 = ?a div 2097152 mod 2 ^ 18 * 512 + ?a div 4096 mod 512"
    using mod_mult2_eq [of "?a div 4096" 512 "2 ^ 18"] by (simp add: div_div_512')
  have m3: "?a div 2097152 mod 2 ^ 18 = ?a div 1073741824 mod 512 * 512 + ?a div 2097152 mod 512"
    using mod_mult2_eq [of "?a div 2097152" 512 512] by (simp add: div_mult2_eq [symmetric])
  show ?thesis
    unfolding vpn_indexes_eq eq
    using m m2 m3 by (simp add: va_page_num_bound off unat_va_page_num)
qed

end
