(* ===== verification/IdAlloc.thy ===== *)
theory IdAlloc
  imports Addr
begin

text \<open>
  The recycling allocators: process ids (\<^verbatim>\<open>process/proc/pid.rs\<close>), task ids
  (\<^verbatim>\<open>process/task/tid.rs\<close>) and physical page frames (\<^verbatim>\<open>mm/page_allocator.rs\<close>). All
  three keep a high-water mark and a stack of released numbers. The locale
  \<open>id_allocator\<close> states what their clients rely on: an allocated number is not in use,
  and exactly the numbers in use can be released. Each of the three interprets it.
\<close>

section \<open>Process and task ids\<close>

record recycle_allocator =
  ra_current :: nat
  ra_recycled :: "nat list"

definition recycle_new :: recycle_allocator where
  "recycle_new = \<lparr>ra_current = 0, ra_recycled = []\<rparr>"

definition pid_alloc :: "recycle_allocator \<Rightarrow> (nat \<times> recycle_allocator) kres" where
  "pid_alloc ra =
     (case vec_pop (ra_recycled ra) of
        Some (pid, rest) \<Rightarrow> Done (pid, ra\<lparr>ra_recycled := rest\<rparr>)
      | None \<Rightarrow>
          if ra_current ra + 1 < 2 ^ 64
          then Done (ra_current ra, ra\<lparr>ra_current := ra_current ra + 1\<rparr>)
          else Panicked ''attempt to add with overflow'')"

definition pid_dealloc :: "recycle_allocator \<Rightarrow> nat \<Rightarrow> recycle_allocator kres" where
  "pid_dealloc ra pid =
     (if \<not> pid < ra_current ra then Panicked ''assertion failed: pid < self.current''
      else if pid \<in> set (ra_recycled ra) then Panicked ''pid has been deallocated!''
      else Done (ra\<lparr>ra_recycled := vec_push pid (ra_recycled ra)\<rparr>))"

definition tid_alloc :: "recycle_allocator \<Rightarrow> (nat \<times> recycle_allocator) kres" where
  "tid_alloc ra =
     (case vec_pop (ra_recycled ra) of
        Some (tid, rest) \<Rightarrow> Done (tid, ra\<lparr>ra_recycled := rest\<rparr>)
      | None \<Rightarrow>
          if ra_current ra + 1 < 2 ^ 64
          then Done (ra_current ra, ra\<lparr>ra_current := ra_current ra + 1\<rparr>)
          else Panicked ''attempt to add with overflow'')"

definition tid_dealloc :: "recycle_allocator \<Rightarrow> nat \<Rightarrow> recycle_allocator kres" where
  "tid_dealloc ra tid =
     (if \<not> tid < ra_current ra then Panicked ''assertion failed: tid < self.current''
      else if tid \<in> set (ra_recycled ra) then Panicked ''pid has been deallocated!''
      else Done (ra\<lparr>ra_recycled := vec_push tid (ra_recycled ra)\<rparr>))"

section \<open>Physical page frames\<close>

record stack_page_allocator =
  spa_current :: nat
  spa_end :: nat
  spa_recycled :: "nat list"

definition spa_new :: stack_page_allocator where
  "spa_new = \<lparr>spa_current = 0, spa_end = 0, spa_recycled = []\<rparr>"

definition spa_init :: "stack_page_allocator \<Rightarrow> phys_page_num \<Rightarrow> phys_page_num \<Rightarrow> stack_page_allocator" where
  "spa_init a start end' =
     a\<lparr>spa_current := unat (ppn_raw start), spa_end := unat (ppn_raw end')\<rparr>"

definition spa_alloc :: "stack_page_allocator \<Rightarrow> (phys_page_num option \<times> stack_page_allocator) kres" where
  "spa_alloc a =
     (case vec_pop (spa_recycled a) of
        Some (ppn, rest) \<Rightarrow> Done (Some (ppn_from_usize (of_nat ppn)), a\<lparr>spa_recycled := rest\<rparr>)
      | None \<Rightarrow>
          if spa_current a = spa_end a then Done (None, a)
          else if spa_current a + 1 < 2 ^ 64
          then Done (Some (ppn_from_usize (of_nat (spa_current a))),
                     a\<lparr>spa_current := spa_current a + 1\<rparr>)
          else Panicked ''attempt to add with overflow'')"

definition spa_dealloc :: "stack_page_allocator \<Rightarrow> phys_page_num \<Rightarrow> stack_page_allocator kres" where
  "spa_dealloc a n =
     (let ppn = unat (ppn_raw n)
      in if ppn \<ge> spa_current a \<or> ppn \<in> set (spa_recycled a)
         then Panicked ''Frame has not been allocated!''
         else Done (a\<lparr>spa_recycled := vec_push ppn (spa_recycled a)\<rparr>))"

text \<open>
  \<^verbatim>\<open>init_page_allocator\<close> hands the frames between the kernel heap and the top of memory
  to the allocator. The byte memory is a function from addresses to bytes; \<open>zero_frame\<close>
  is the loop over \<^verbatim>\<open>get_bytes_array\<close>.
\<close>

type_synonym byte_mem = "usize \<Rightarrow> u8"

definition zero_frame :: "byte_mem \<Rightarrow> phys_page_num \<Rightarrow> byte_mem" where
  "zero_frame m n =
     (\<lambda>a. if unat (pa_raw (phys_from_ppn n)) \<le> unat a \<and> unat a < unat (pa_raw (phys_from_ppn n)) + 4096
          then 0 else m a)"

definition init_page_allocator :: "stack_page_allocator \<Rightarrow> stack_page_allocator kres" where
  "init_page_allocator a =
     kbind (phys_ceil (PhysAddr KERNEL_HEAP_END)) (\<lambda>start.
       Done (spa_init a start (phys_floor (PhysAddr PHYSTOP))))"

definition page_alloc ::
    "stack_page_allocator \<Rightarrow> byte_mem \<Rightarrow> (phys_addr option \<times> stack_page_allocator \<times> byte_mem) kres" where
  "page_alloc a m =
     kbind (spa_alloc a) (\<lambda>(res, a').
       case res of
         None \<Rightarrow> Panicked ''[kernel] memory is not enough''
       | Some ppn \<Rightarrow> Done (Some (phys_from_ppn ppn), a', zero_frame m ppn))"

definition page_dealloc :: "stack_page_allocator \<Rightarrow> phys_addr \<Rightarrow> stack_page_allocator kres" where
  "page_dealloc a pa = kbind (ppn_from_phys pa) (\<lambda>ppn. spa_dealloc a ppn)"

section \<open>The allocator interface\<close>

text \<open>
  A client that owns what it allocated: it allocates, or releases one of the numbers it
  holds (named by its position; a position out of range is no operation). \<open>run_ids\<close>
  threads the allocator and the numbers held, newest first.
\<close>

datatype id_op = AllocId | FreeHeld nat

fun run_ids ::
    "('s \<Rightarrow> (nat \<times> 's) kres) \<Rightarrow> ('s \<Rightarrow> nat \<Rightarrow> 's kres) \<Rightarrow> 's \<Rightarrow> nat list \<Rightarrow> id_op list \<Rightarrow>
     ('s \<times> nat list) kres" where
  "run_ids al fr s held [] = Done (s, held)"
| "run_ids al fr s held (AllocId # ops) =
     kbind (al s) (\<lambda>(n, s'). run_ids al fr s' (n # held) ops)"
| "run_ids al fr s held (FreeHeld k # ops) =
     (if k < length held
      then kbind (fr s (held ! k)) (\<lambda>s'. run_ids al fr s' (remove1 (held ! k) held) ops)
      else run_ids al fr s held ops)"

locale id_allocator =
  fixes alloc :: "'s \<Rightarrow> (nat \<times> 's) kres"
    and dealloc :: "'s \<Rightarrow> nat \<Rightarrow> 's kres"
    and live :: "'s \<Rightarrow> nat set"
    and inv :: "'s \<Rightarrow> bool"
  assumes alloc_fresh: "inv s \<Longrightarrow> alloc s = Done (n, s') \<Longrightarrow> n \<notin> live s"
    and alloc_live: "inv s \<Longrightarrow> alloc s = Done (n, s') \<Longrightarrow> live s' = insert n (live s)"
    and alloc_inv: "inv s \<Longrightarrow> alloc s = Done (n, s') \<Longrightarrow> inv s'"
    and dealloc_ok: "inv s \<Longrightarrow> n \<in> live s \<Longrightarrow> \<exists>s'. dealloc s n = Done s' \<and> inv s' \<and> live s' = live s - {n}"
begin

lemma dealloc_Done:
  assumes "inv s" and "n \<in> live s" and "dealloc s n = Done s'"
  shows "inv s' \<and> live s' = live s - {n}"
  using dealloc_ok [OF assms(1,2)] assms(3) by auto

lemma run_keeps:
  assumes "run_ids alloc dealloc s held ops = Done (s', held')"
    and "inv s" and "distinct held" and "set held = live s"
  shows "inv s' \<and> distinct held' \<and> set held' = live s'"
  using assms
proof (induction ops arbitrary: s held)
  case Nil
  then show ?case by simp
next
  case (Cons op ops)
  show ?case
  proof (cases op)
    case AllocId
    with Cons.prems obtain n t where a: "alloc s = Done (n, t)"
      and r: "run_ids alloc dealloc t (n # held) ops = Done (s', held')"
      by (auto simp: kres_simps)
    show ?thesis
    proof (rule Cons.IH [OF r])
      show "inv t" using alloc_inv [OF Cons.prems(2) a] .
      show "distinct (n # held)" using alloc_fresh [OF Cons.prems(2) a] Cons.prems by simp
      show "set (n # held) = live t" using alloc_live [OF Cons.prems(2) a] Cons.prems by simp
    qed
  next
    case (FreeHeld k)
    show ?thesis
    proof (cases "k < length held")
      case False
      with Cons FreeHeld show ?thesis by simp
    next
      case True
      then have n: "held ! k \<in> live s" using Cons.prems(4) nth_mem by blast
      from True FreeHeld Cons.prems obtain t where d: "dealloc s (held ! k) = Done t"
        and r: "run_ids alloc dealloc t (remove1 (held ! k) held) ops = Done (s', held')"
        by (auto simp: kres_simps)
      show ?thesis
        using dealloc_Done [OF Cons.prems(2) n d] Cons.prems
        by (intro Cons.IH [OF r]) (auto simp: set_remove1_eq)
    qed
  qed
qed

lemma release_never_panics:
  assumes "run_ids alloc dealloc s held ops = Done (s', held')"
    and "inv s" and "distinct held" and "set held = live s" and "n \<in> set held'"
  shows "\<exists>s''. dealloc s' n = Done s'' \<and> live s'' = live s' - {n}"
  using run_keeps [OF assms(1-4)] assms(5) dealloc_ok by blast

end

text \<open>
  An allocator that also detects every bad release: of a number that was never handed
  out, and of one that was already released.
\<close>

locale strict_id_allocator = id_allocator +
  assumes dealloc_panics: "inv s \<Longrightarrow> n \<notin> live s \<Longrightarrow> panics (dealloc s n)"
begin

lemma dealloc_iff_live: "inv s \<Longrightarrow> (\<exists>s'. dealloc s n = Done s') \<longleftrightarrow> n \<in> live s"
  using dealloc_ok dealloc_panics by fastforce

lemma double_release_panics:
  assumes "inv s" and "dealloc s n = Done s'"
  shows "panics (dealloc s' n)"
proof -
  have n: "n \<in> live s" using assms dealloc_iff_live by blast
  have "inv s'" and "live s' = live s - {n}"
    using dealloc_Done [OF assms(1) n assms(2)] by auto
  then show ?thesis by (intro dealloc_panics) auto
qed

end

section \<open>Process and task ids implement the interface\<close>

definition recycle_live :: "recycle_allocator \<Rightarrow> nat set" where
  "recycle_live ra = {..<ra_current ra} - set (ra_recycled ra)"

definition recycle_inv :: "recycle_allocator \<Rightarrow> bool" where
  "recycle_inv ra \<longleftrightarrow> distinct (ra_recycled ra) \<and> (\<forall>n \<in> set (ra_recycled ra). n < ra_current ra)"

lemmas recycle_defs = recycle_live_def recycle_inv_def

lemma recycle_new_inv: "recycle_inv recycle_new" "recycle_live recycle_new = {}"
  by (simp_all add: recycle_new_def recycle_defs)

lemma pid_alloc_cases:
  assumes "pid_alloc ra = Done (n, ra')"
  obtains rest where "ra_recycled ra = vec_push n rest" "ra' = ra\<lparr>ra_recycled := rest\<rparr>"
  | "ra_recycled ra = []" "n = ra_current ra" "ra' = ra\<lparr>ra_current := Suc n\<rparr>"
  using assms by (auto simp: pid_alloc_def vec_pop_Some split: option.splits if_splits)

lemma tid_eq_pid: "tid_alloc = pid_alloc"
  by (intro ext) (simp add: tid_alloc_def pid_alloc_def)

lemma pid_dealloc_Done:
  "pid_dealloc ra n = Done ra' \<longleftrightarrow>
     n \<in> recycle_live ra \<and> ra' = ra\<lparr>ra_recycled := vec_push n (ra_recycled ra)\<rparr>"
  by (auto simp: pid_dealloc_def recycle_live_def)

lemma tid_dealloc_Done:
  "tid_dealloc ra n = Done ra' \<longleftrightarrow>
     n \<in> recycle_live ra \<and> ra' = ra\<lparr>ra_recycled := vec_push n (ra_recycled ra)\<rparr>"
  by (auto simp: tid_dealloc_def recycle_live_def)

lemma recycle_alloc_laws:
  assumes "recycle_inv ra" and "pid_alloc ra = Done (n, ra')"
  shows "n \<notin> recycle_live ra \<and> recycle_live ra' = insert n (recycle_live ra) \<and> recycle_inv ra'"
  using assms(2)
proof (cases rule: pid_alloc_cases)
  case (1 rest)
  with assms(1) show ?thesis by (auto simp: recycle_defs)
next
  case 2
  with assms(1) show ?thesis by (auto simp: recycle_defs less_Suc_eq)
qed

lemma recycle_push_laws:
  assumes "recycle_inv ra" and "n \<in> recycle_live ra"
  shows "recycle_inv (ra\<lparr>ra_recycled := vec_push n (ra_recycled ra)\<rparr>) \<and>
         recycle_live (ra\<lparr>ra_recycled := vec_push n (ra_recycled ra)\<rparr>) = recycle_live ra - {n}"
  using assms by (auto simp: recycle_defs)

interpretation pids: strict_id_allocator pid_alloc pid_dealloc recycle_live recycle_inv
proof
  fix s :: recycle_allocator and n
  assume "recycle_inv s" and "n \<notin> recycle_live s"
  then show "panics (pid_dealloc s n)"
    by (auto simp: pid_dealloc_def recycle_live_def)
qed (use recycle_alloc_laws recycle_push_laws pid_dealloc_Done in blast)+

interpretation tids: strict_id_allocator tid_alloc tid_dealloc recycle_live recycle_inv
proof
  fix s :: recycle_allocator and n
  assume "recycle_inv s" and "n \<notin> recycle_live s"
  then show "panics (tid_dealloc s n)"
    by (auto simp: tid_dealloc_def recycle_live_def)
qed (use recycle_alloc_laws recycle_push_laws tid_dealloc_Done tid_eq_pid in auto)

section \<open>Page frames implement the interface\<close>

definition frame_base :: nat where "frame_base = 0x88000"
definition frame_top :: nat where "frame_top = 0x8c000"

text \<open>\<^verbatim>\<open>page_alloc\<close> and \<^verbatim>\<open>page_dealloc\<close> seen through frame numbers.\<close>

definition frame_alloc :: "stack_page_allocator \<Rightarrow> (nat \<times> stack_page_allocator) kres" where
  "frame_alloc a =
     kbind (page_alloc a (\<lambda>_. 0)) (\<lambda>(pa, a', m).
       case pa of Some p \<Rightarrow> Done (unat (ppn_raw (phys_floor p)), a')
       | None \<Rightarrow> Panicked ''unreachable'')"

definition frame_dealloc :: "stack_page_allocator \<Rightarrow> nat \<Rightarrow> stack_page_allocator kres" where
  "frame_dealloc a n = page_dealloc a (phys_from_ppn (PhysPageNum (of_nat n)))"

definition frame_live :: "stack_page_allocator \<Rightarrow> nat set" where
  "frame_live a = {frame_base..<spa_current a} - set (spa_recycled a)"

definition frame_inv :: "stack_page_allocator \<Rightarrow> bool" where
  "frame_inv a \<longleftrightarrow>
     frame_base \<le> spa_current a \<and> spa_current a \<le> spa_end a \<and> spa_end a = frame_top \<and>
     distinct (spa_recycled a) \<and> set (spa_recycled a) \<subseteq> {frame_base..<spa_current a}"

lemmas frame_defs = frame_live_def frame_inv_def frame_base_def frame_top_def

lemma init_page_allocator_eq:
  "init_page_allocator spa_new =
     Done \<lparr>spa_current = frame_base, spa_end = frame_top, spa_recycled = []\<rparr>"
  by (simp add: init_page_allocator_def phys_ceil_def phys_floor_def usize_add_def spa_init_def
      spa_new_def frame_base_def frame_top_def layout_defs)

lemma unat_of_nat_usize [simp]: "n < 2 ^ 64 \<Longrightarrow> unat (of_nat n :: usize) = n"
  by (simp add: unat_of_nat take_bit_nat_eq_self)

lemma ppn_from_usize_mask: "ppn_raw (ppn_from_usize x) = x AND mask 44"
  by (simp add: ppn_from_usize_def PPN_WIDTH_SV39_def PAGE_SIZE_BITS_def mask_eq_exp_minus_1)

lemma ppn_small: "n < 2 ^ 44 \<Longrightarrow> unat (ppn_raw (ppn_from_usize (of_nat n))) = n"
  by (simp add: ppn_from_usize_mask and_mask_mod)

lemma unat_phys_from_ppn:
  assumes "unat (ppn_raw n) < 2 ^ 52"
  shows "unat (pa_raw (phys_from_ppn n)) = unat (ppn_raw n) * 4096"
  using assms by (simp add: phys_from_ppn_def PAGE_SIZE_BITS_def unat_push_bit_eq)

lemma ppn_phys_round_trip:
  assumes "unat (ppn_raw n) < 2 ^ 52"
  shows "ppn_from_phys (phys_from_ppn n) = Done n" and "phys_floor (phys_from_ppn n) = n"
proof -
  note u = unat_phys_from_ppn [OF assms]
  have "unat (phys_page_offset (phys_from_ppn n)) = 0"
    by (simp add: phys_page_offset_def PAGE_SIZE_minus_1 unat_and_4095 u)
  then have "phys_page_offset (phys_from_ppn n) = 0" by (simp add: unat_eq_zero)
  moreover have "unat (ppn_raw (phys_floor (phys_from_ppn n))) = unat (ppn_raw n)"
    by (simp add: unat_phys_floor u)
  then show "phys_floor (phys_from_ppn n) = n"
    by (metis phys_page_num.expand unat_inject)
  ultimately show "ppn_from_phys (phys_from_ppn n) = Done n" by (simp add: ppn_from_phys_def)
qed

lemma frame_alloc_eq:
  assumes "frame_inv a"
  shows "frame_alloc a =
     (case vec_pop (spa_recycled a) of
        Some (n, rest) \<Rightarrow> Done (n, a\<lparr>spa_recycled := rest\<rparr>)
      | None \<Rightarrow>
          if spa_current a = frame_top then Panicked ''[kernel] memory is not enough''
          else Done (spa_current a, a\<lparr>spa_current := spa_current a + 1\<rparr>))"
proof -
  have small: "unat (ppn_raw (phys_floor (phys_from_ppn (ppn_from_usize (of_nat n))))) = n"
    if "n < frame_top" for n
    using that by (subst ppn_phys_round_trip(2)) (simp_all add: ppn_small frame_top_def)
  show ?thesis
  proof (cases "vec_pop (spa_recycled a)")
    case None
    with assms show ?thesis
      by (auto simp: frame_alloc_def page_alloc_def spa_alloc_def small frame_inv_def frame_top_def)
  next
    case (Some p)
    then obtain n rest where "spa_recycled a = vec_push n rest" and p: "p = (n, rest)"
      by (cases p) (auto simp: vec_pop_Some)
    with assms have "n < frame_top" by (auto simp: frame_inv_def)
    with Some p show ?thesis
      by (simp add: frame_alloc_def page_alloc_def spa_alloc_def small)
  qed
qed

lemma frame_dealloc_eq:
  assumes "n < frame_top"
  shows "frame_dealloc a n =
     (if n \<ge> spa_current a \<or> n \<in> set (spa_recycled a)
      then Panicked ''Frame has not been allocated!''
      else Done (a\<lparr>spa_recycled := vec_push n (spa_recycled a)\<rparr>))"
proof -
  have u: "unat (of_nat n :: usize) = n" using assms by (simp add: frame_top_def)
  have "ppn_from_phys (phys_from_ppn (PhysPageNum (of_nat n))) = Done (PhysPageNum (of_nat n))"
    using assms by (intro ppn_phys_round_trip(1)) (simp add: frame_top_def)
  then show ?thesis by (simp add: frame_dealloc_def page_dealloc_def spa_dealloc_def u)
qed

lemma frame_alloc_laws:
  assumes "frame_inv a" and "frame_alloc a = Done (n, a')"
  shows "n \<notin> frame_live a \<and> frame_live a' = insert n (frame_live a) \<and> frame_inv a'"
  using assms unfolding frame_alloc_eq [OF assms(1)]
  by (auto simp: frame_defs vec_pop_Some less_Suc_eq split: option.splits if_splits)

lemma frame_dealloc_laws:
  assumes "frame_inv a" and "n \<in> frame_live a"
  shows "\<exists>a'. frame_dealloc a n = Done a' \<and> frame_inv a' \<and> frame_live a' = frame_live a - {n}"
proof -
  have "n < frame_top" using assms by (auto simp: frame_defs)
  then show ?thesis
    using assms by (auto simp: frame_dealloc_eq frame_defs)
qed

interpretation frames: id_allocator frame_alloc frame_dealloc frame_live frame_inv
  by unfold_locales (use frame_alloc_laws frame_dealloc_laws in blast)+

section \<open>Properties\<close>

text \<open>
  Process ids: starting from a new allocator, any sequence of allocations and
  releases of held ids leaves the client with distinct ids, exactly the ids the
  allocator considers in use; each of them can be released, and a second release of the
  same id panics.
\<close>

theorem pid_allocator_correct:
  assumes "run_ids pid_alloc pid_dealloc recycle_new [] ops = Done (ra, held)"
  shows "distinct held \<and> set held = recycle_live ra \<and>
         (\<forall>n. (\<exists>ra'. pid_dealloc ra n = Done ra') \<longleftrightarrow> n \<in> set held) \<and>
         (\<forall>n ra'. pid_dealloc ra n = Done ra' \<longrightarrow> panics (pid_dealloc ra' n))"
proof -
  have "recycle_inv ra \<and> distinct held \<and> set held = recycle_live ra"
    by (rule pids.run_keeps [OF assms]) (simp_all add: recycle_new_inv)
  then show ?thesis
    using pids.dealloc_iff_live pids.double_release_panics by blast
qed

theorem pid_allocator_correct_witness:
  "run_ids pid_alloc pid_dealloc recycle_new [] [AllocId, AllocId, FreeHeld 1, AllocId] =
     Done (\<lparr>ra_current = 2, ra_recycled = []\<rparr>, [0, 1]) \<and>
   set [0, 1] = recycle_live \<lparr>ra_current = 2, ra_recycled = []\<rparr>"
proof -
  have r: "run_ids pid_alloc pid_dealloc recycle_new [] [AllocId, AllocId, FreeHeld 1, AllocId] =
     Done (\<lparr>ra_current = 2, ra_recycled = []\<rparr>, [0, 1])"
    by (simp add: pid_alloc_def pid_dealloc_def recycle_new_def vec_pop_def vec_push_def)
  show ?thesis using r pid_allocator_correct [OF r] by simp
qed

text \<open>
  Page frames: from \<^verbatim>\<open>init_page_allocator\<close> on, a client that releases only frames it
  holds always holds distinct frames, all of them between the end of the kernel heap and
  the top of physical memory, and it runs out of memory only when it holds every frame of
  that area.
\<close>

theorem page_frames_correct:
  assumes "init_page_allocator spa_new = Done a"
    and "run_ids frame_alloc frame_dealloc a [] ops = Done (a', held)"
  shows "distinct held \<and> set held \<subseteq> {0x88000..<0x8c000} \<and>
         (panics (frame_alloc a') \<longleftrightarrow> set held = {0x88000..<0x8c000})"
proof -
  have i: "frame_inv a" "frame_live a = {}"
    using assms(1) by (auto simp: init_page_allocator_eq frame_defs)
  have k: "frame_inv a' \<and> distinct held \<and> set held = frame_live a'"
    by (rule frames.run_keeps [OF assms(2)]) (simp_all add: i)
  have "panics (frame_alloc a') \<longleftrightarrow> frame_live a' = {frame_base..<frame_top}"
    using k unfolding frame_alloc_eq [OF conjunct1 [OF k]] frame_live_def frame_inv_def
    by (auto simp: panics_iff vec_pop_Some frame_base_def frame_top_def split: option.splits)
  then show ?thesis using k by (auto simp: frame_defs)
qed

theorem page_frames_correct_witness:
  "\<exists>a a'. init_page_allocator spa_new = Done a \<and>
     run_ids frame_alloc frame_dealloc a [] [AllocId, AllocId] = Done (a', [0x88001, 0x88000]) \<and>
     \<not> panics (frame_alloc a')"
proof -
  let ?a = "\<lparr>spa_current = 0x88000, spa_end = 0x8c000, spa_recycled = []\<rparr>"
  have i: "init_page_allocator spa_new = Done ?a"
    by (simp add: init_page_allocator_eq frame_base_def frame_top_def)
  have r: "run_ids frame_alloc frame_dealloc ?a [] [AllocId, AllocId] =
      Done (?a\<lparr>spa_current := 0x88002\<rparr>, [0x88001, 0x88000])"
    by (simp add: frame_alloc_eq frame_defs vec_pop_def)
  have "0x88002 \<notin> set [0x88001, 0x88000 :: nat]" and "0x88002 \<in> {0x88000..<0x8c000 :: nat}"
    by simp_all
  then have "set [0x88001, 0x88000] \<noteq> {0x88000..<0x8c000 :: nat}" by blast
  then show ?thesis
    using i r page_frames_correct [OF i r] by blast
qed

text \<open>
  Release below the managed area: \<^verbatim>\<open>dealloc\<close> compares a frame with the high-water
  mark and the recycled frames only. Right after initialisation it accepts any frame
  below the managed area, and the next allocation hands that frame out, inside the
  kernel image or heap.
\<close>

theorem page_dealloc_accepts_foreign_frame:
  assumes "init_page_allocator spa_new = Done a" and "n < 0x88000"
  shows "\<exists>a'. frame_dealloc a n = Done a' \<and> spa_alloc a' = Done (Some (PhysPageNum (of_nat n)), a)"
proof -
  have a: "a = \<lparr>spa_current = 0x88000, spa_end = 0x8c000, spa_recycled = []\<rparr>"
    using assms(1) by (simp add: init_page_allocator_eq frame_base_def frame_top_def)
  have "unat (ppn_raw (ppn_from_usize (of_nat n))) = n"
    using assms(2) by (intro ppn_small) simp
  then have "ppn_from_usize (of_nat n) = PhysPageNum (of_nat n)"
    by (metis of_nat_unat phys_page_num.collapse ucast_id)
  moreover have "frame_dealloc a n = Done (a\<lparr>spa_recycled := vec_push n []\<rparr>)"
    using assms(2) a by (simp add: frame_dealloc_eq frame_top_def)
  ultimately show ?thesis
    using a by (simp add: spa_alloc_def)
qed

theorem page_dealloc_accepts_foreign_frame_witness:
  "\<exists>a a'. init_page_allocator spa_new = Done a \<and> frame_dealloc a 0x80000 = Done a' \<and>
     spa_alloc a' = Done (Some (PhysPageNum 0x80000), a)"
proof -
  obtain a where i: "init_page_allocator spa_new = Done a"
    using init_page_allocator_eq by blast
  show ?thesis using i page_dealloc_accepts_foreign_frame [OF i, of "0x80000"] by auto
qed

end
