(* ===== verification/Ring.thy ===== *)
theory Ring
  imports Prelude
begin

text \<open>
  Circular buffers with free-running counters. The pipe, the console and the UART all
  keep a byte array and wrapping counters, and find a slot as the counter modulo the
  array length. \<open>ring_contents\<close> reads the queue such a buffer stands for; the locale
  \<open>ring_window\<close> says when the slots of a window of counters are different, and proves
  the queue laws of storing and fetching once for all three.
\<close>

definition ring_contents ::
    "('l::len word \<Rightarrow> nat) \<Rightarrow> 'b list \<Rightarrow> 'l word \<Rightarrow> 'l word \<Rightarrow> 'b list" where
  "ring_contents slot buf r w = map (\<lambda>i. buf ! slot (r + of_nat i)) [0..<unat (w - r)]"

lemma length_ring_contents [simp]: "length (ring_contents slot buf r w) = unat (w - r)"
  by (simp add: ring_contents_def)

lemma ring_contents_empty [simp]: "ring_contents slot buf r r = []"
  by (simp add: ring_contents_def)

lemma ring_contents_Nil: "ring_contents slot buf r w = [] \<longleftrightarrow> r = w"
  by (auto simp: ring_contents_def unat_eq_zero)

lemma unat_succ_diff:
  fixes w r :: "'l::len word"
  assumes "Suc (unat (w - r)) < 2 ^ LENGTH('l)"
  shows "unat (w + 1 - r) = Suc (unat (w - r))"
proof -
  have e: "w + 1 - r = (w - r) + 1" by (simp add: algebra_simps)
  have "unat ((w - r) + 1) = unat (w - r) + 1"
  proof (cases "LENGTH('l) = 1")
    case True
    with assms have "unat (w - r) = 0" by simp
    then show ?thesis by (simp add: unat_eq_zero)
  next
    case False
    then have "unat (1 :: 'l word) = 1" by simp
    then show ?thesis using assms by (subst unat_plus_no_overflow) auto
  qed
  then show ?thesis unfolding e by simp
qed

lemma unat_pred_diff:
  fixes w r :: "'l::len word"
  assumes "r \<noteq> w"
  shows "unat (w - (r + 1)) = unat (w - r) - 1"
proof -
  have "w - r \<noteq> 0" using assms by simp
  then have "unat ((w - r) - 1) = unat (w - r) - 1"
    by (metis One_nat_def unat_minus_one)
  then show ?thesis by (simp add: algebra_simps)
qed

lemma ring_contents_snoc:
  fixes w r :: "'l::len word"
  assumes "r \<noteq> w"
  shows "ring_contents slot buf r w = ring_contents slot buf r (w - 1) @ [buf ! slot (w - 1)]"
proof -
  have "w - r \<noteq> 0" using assms by simp
  then have "unat (w - r - 1) = unat (w - r) - 1" by (metis One_nat_def unat_minus_one)
  moreover have "0 < unat (w - r)" using \<open>w - r \<noteq> 0\<close> by (simp add: unat_gt_0)
  ultimately have n: "unat (w - r) = Suc (unat (w - 1 - r))" by (simp add: algebra_simps)
  have "r + of_nat (unat (w - 1 - r)) = w - 1" by simp
  then show ?thesis unfolding ring_contents_def n by simp
qed

lemma ring_contents_append:
  fixes r v w :: "'l::len word"
  assumes "unat (v - r) + unat (w - v) < 2 ^ LENGTH('l)"
  shows "ring_contents slot buf r w = ring_contents slot buf r v @ ring_contents slot buf v w"
proof -
  have "w - r = (v - r) + (w - v)" by simp
  then have n: "unat (w - r) = unat (v - r) + unat (w - v)"
    using unat_plus_no_overflow [OF assms] by simp
  have s: "r + of_nat (unat (v - r) + i) = v + of_nat i" for i by simp
  have "map (\<lambda>i. buf ! slot (r + of_nat i)) [unat (v - r)..<unat (v - r) + unat (w - v)] =
        map (\<lambda>i. buf ! slot (v + of_nat i)) [0..<unat (w - v)]"
    by (rule nth_equalityI) (simp_all add: algebra_simps)
  then show ?thesis
    unfolding ring_contents_def n upt_add_eq_append [OF le0] by simp
qed

locale ring_window =
  fixes cap :: nat
    and slot :: "'l::len word \<Rightarrow> nat"
    and ok :: "'l word \<Rightarrow> bool"
  assumes cap_small: "cap < 2 ^ LENGTH('l)"
    and slot_bound: "slot c < cap"
    and slot_inj: "ok r \<Longrightarrow> i < cap \<Longrightarrow> j < cap \<Longrightarrow>
                   slot (r + of_nat i) = slot (r + of_nat j) \<Longrightarrow> i = j"
begin

lemma store_appends:
  assumes "ok r" and "unat (w - r) < cap" and "length buf = cap"
  shows "ring_contents slot (buf[slot w := x]) r (w + 1) = ring_contents slot buf r w @ [x]"
proof -
  let ?n = "unat (w - r)"
  have w: "r + of_nat ?n = w" by simp
  have n: "unat (w + 1 - r) = Suc ?n"
    using assms(2) cap_small by (intro unat_succ_diff) simp
  have "buf[slot w := x] ! slot (r + of_nat i) = buf ! slot (r + of_nat i)" if "i < ?n" for i
  proof -
    have "slot (r + of_nat i) \<noteq> slot w"
      using slot_inj [OF assms(1), of i ?n] that assms(2) w by auto
    then show ?thesis by simp
  qed
  then show ?thesis
    unfolding ring_contents_def n
    by (simp add: w slot_bound assms(3) del: of_nat_unat word_of_nat_eq_iff)
qed

lemma store_outside:
  assumes "ok r" and "unat (w - r) < cap" and "unat (v - r) \<le> unat (w - r)"
  shows "ring_contents slot (buf[slot w := x]) r v = ring_contents slot buf r v"
proof -
  have "slot (r + of_nat i) \<noteq> slot w" if "i < unat (v - r)" for i
    using slot_inj [OF assms(1), of i "unat (w - r)"] that assms(2,3) by auto
  then show ?thesis
    unfolding ring_contents_def by (intro map_cong refl) (metis atLeastLessThan_iff nth_list_update_neq set_upt)
qed

lemma fetch_head:
  assumes "r \<noteq> w"
  shows "ring_contents slot buf r w = buf ! slot r # ring_contents slot buf (r + 1) w"
proof -
  have n: "unat (w - r) = Suc (unat (w - (r + 1)))"
    using unat_pred_diff [OF assms] assms by (simp add: unat_gt_0)
  have s: "r + 1 + of_nat i = r + of_nat (Suc i)" for i by simp
  show ?thesis
    unfolding ring_contents_def n s
    by (simp add: upt_conv_Cons map_upt_shift comp_def del: upt_Suc of_nat_Suc)
qed

lemma store_full_window:
  fixes w r :: "'l word"
  assumes "unat (w - r) < cap"
  shows "unat (w + 1 - r) = Suc (unat (w - r)) \<and> unat (w + 1 - r) \<le> cap"
  using assms cap_small unat_succ_diff [of w r] by simp

end

text \<open>Slots modulo a number that divides the counter range: every window is fine.\<close>

lemma mod_add_left_inj:
  fixes a i j n :: nat
  assumes "(a + i) mod n = (a + j) mod n" and "i \<le> j" and "j < n"
  shows "i = j"
proof -
  have "n dvd (a + j) - (a + i)"
    using assms(1,2) by (subst mod_eq_dvd_iff_nat [symmetric]) simp_all
  then have "n dvd j - i" by simp
  then show ?thesis using assms(2,3) by (auto dest: dvd_imp_le)
qed

lemma mod_slot_inj:
  fixes r :: "'l::len word"
  assumes "cap dvd 2 ^ LENGTH('l)" and "i < cap" and "j < cap"
    and "unat (r + of_nat i) mod cap = unat (r + of_nat j) mod cap"
  shows "i = j"
proof -
  have u: "unat (r + of_nat k) mod cap = (unat r + k) mod cap" for k
    using assms(1)
    by (simp add: unat_word_ariths unat_of_nat take_bit_eq_mod mod_mod_cancel mod_add_right_eq)
  from assms(4) have "(unat r + i) mod cap = (unat r + j) mod cap" by (simp add: u)
  then show ?thesis
    using mod_add_left_inj assms(2,3) by (metis nat_le_linear)
qed

text \<open>The destination of a read when the user buffer is mapped: every byte arrives, and the log records where.\<close>

definition log_out :: "(usize \<times> u8) list \<Rightarrow> usize \<Rightarrow> u8 \<Rightarrow> (usize \<times> u8) list option kres" where
  "log_out m a b = Done (Some (m @ [(a, b)]))"

end
