(* ===== verification/Pipe.thy ===== *)
theory Pipe
  imports Ring
begin

text \<open>
  Pipes: \<^verbatim>\<open>kernel/src/fs/file/pipe.rs\<close>. Each definition is the code between taking the
  pipe's spin lock and either going to sleep on a channel or returning; a sleeping call
  starts its section again when it is woken, with its local variables kept. User memory
  is an argument: \<open>cout\<close> is \<^verbatim>\<open>copy_out\<close> of one byte, \<open>cin\<close> is \<^verbatim>\<open>copy_in\<close> of one byte
  (\<open>None\<close> is \<^verbatim>\<open>Err(())\<close>). The lemmas show that the byte array is a queue as long as the
  32-bit counters have not wrapped, and that it is not one across the wrap.
\<close>

section \<open>State and operations\<close>

definition PIPESIZE :: nat where "PIPESIZE = 454"

record pipe_inner =
  read_open :: bool
  write_open :: bool
  read_cnt :: u32
  write_cnt :: u32
  pipe_data :: "u8 list"

text \<open>The channels are the addresses of the two counters.\<close>

datatype pipe_chan = ReadChan | WriteChan

datatype pipe_outcome = PipeSleep pipe_chan | PipeReturn "u32 option"

definition pipe_slot :: "u32 \<Rightarrow> nat" where
  "pipe_slot c = unat c mod PIPESIZE"

definition pipe_create :: pipe_inner where
  "pipe_create =
     \<lparr>read_open = True, write_open = True, read_cnt = 0, write_cnt = 0,
      pipe_data = replicate PIPESIZE 0\<rparr>"

text \<open>
  The copying loop of \<^verbatim>\<open>read\<close>: the byte is consumed before it is copied out, so a byte
  whose copy fails is lost; the loop then stops with the count of copied bytes.
\<close>

fun pipe_read_loop ::
    "('m \<Rightarrow> usize \<Rightarrow> u8 \<Rightarrow> 'm option kres) \<Rightarrow> usize \<Rightarrow> nat \<Rightarrow> nat \<Rightarrow> pipe_inner \<Rightarrow> 'm \<Rightarrow>
     (nat \<times> pipe_inner \<times> 'm) kres" where
  "pipe_read_loop cout addr i 0 p m = Done (i, p, m)"
| "pipe_read_loop cout addr i (Suc n) p m =
     (let byte = pipe_data p ! pipe_slot (read_cnt p);
          p' = p\<lparr>read_cnt := read_cnt p + 1\<rparr>
      in kbind (usize_add addr (of_nat i)) (\<lambda>a.
         kbind (cout m a byte) (\<lambda>r.
           case r of None \<Rightarrow> Done (i, p', m)
           | Some m' \<Rightarrow> pipe_read_loop cout addr (Suc i) n p' m')))"

definition pipe_read ::
    "('m \<Rightarrow> usize \<Rightarrow> u8 \<Rightarrow> 'm option kres) \<Rightarrow> bool \<Rightarrow> usize \<Rightarrow> u32 \<Rightarrow> pipe_inner \<Rightarrow> 'm \<Rightarrow>
     (pipe_outcome \<times> pipe_chan list \<times> pipe_inner \<times> 'm) kres" where
  "pipe_read cout killed addr count p m =
     (if read_cnt p = write_cnt p \<and> write_open p
      then if killed then Done (PipeReturn None, [], p, m)
           else Done (PipeSleep ReadChan, [], p, m)
      else kbind (pipe_read_loop cout addr 0 (unat (min count (write_cnt p - read_cnt p))) p m)
             (\<lambda>(n, p', m'). Done (PipeReturn (Some (of_nat n)), [WriteChan], p', m')))"

text \<open>
  \<^verbatim>\<open>write\<close> stores bytes while there is room; its local \<^verbatim>\<open>write_count\<close> survives a sleep.
  The third component of the result lists the channels woken, the last one the value of
  \<^verbatim>\<open>write_count\<close>.
\<close>

function pipe_write ::
    "(usize \<Rightarrow> u8 option kres) \<Rightarrow> bool \<Rightarrow> usize \<Rightarrow> u32 \<Rightarrow> pipe_inner \<Rightarrow> nat \<Rightarrow>
     (pipe_outcome \<times> pipe_chan list \<times> pipe_inner \<times> nat) kres" where
  "pipe_write cin killed addr count p wc =
     (if wc < unat count
      then if \<not> read_open p \<or> killed then Done (PipeReturn None, [], p, wc)
           else if write_cnt p = read_cnt p + of_nat PIPESIZE
           then Done (PipeSleep WriteChan, [ReadChan], p, wc)
           else kbind (usize_add addr (of_nat wc)) (\<lambda>a.
                kbind (cin a) (\<lambda>b.
                  case b of
                    None \<Rightarrow> Done (PipeReturn (Some (of_nat wc)), [ReadChan], p, wc)
                  | Some byte \<Rightarrow>
                      pipe_write cin killed addr count
                        (p\<lparr>pipe_data := (pipe_data p)[pipe_slot (write_cnt p) := byte],
                           write_cnt := write_cnt p + 1\<rparr>) (Suc wc)))
      else Done (PipeReturn (Some (of_nat wc)), [ReadChan], p, wc))"
  by pat_completeness auto
termination
  by (relation "measure (\<lambda>(cin, killed, addr, count, p, wc). unat count - wc)") auto

declare pipe_write.simps [simp del]

definition pipe_close :: "bool \<Rightarrow> pipe_inner \<Rightarrow> pipe_inner \<times> pipe_chan list" where
  "pipe_close is_write p =
     (if is_write then (p\<lparr>write_open := False\<rparr>, [ReadChan])
      else (p\<lparr>read_open := False\<rparr>, [WriteChan]))"

section \<open>The queue a pipe stands for\<close>

definition pipe_contents :: "pipe_inner \<Rightarrow> u8 list" where
  "pipe_contents p = ring_contents pipe_slot (pipe_data p) (read_cnt p) (write_cnt p)"

definition pipe_inv :: "pipe_inner \<Rightarrow> bool" where
  "pipe_inv p \<longleftrightarrow>
     length (pipe_data p) = PIPESIZE \<and> unat (write_cnt p - read_cnt p) \<le> PIPESIZE"

text \<open>A window of 454 counters that does not cross the wrap of the 32-bit counter.\<close>

definition pipe_no_wrap :: "u32 \<Rightarrow> bool" where
  "pipe_no_wrap r \<longleftrightarrow> unat r + PIPESIZE \<le> 2 ^ 32"

lemma unat_add_no_wrap:
  assumes "pipe_no_wrap r" and "i < PIPESIZE"
  shows "unat (r + of_nat i) = unat r + i"
proof -
  have "i < 2 ^ 32" using assms(2) by (simp add: PIPESIZE_def)
  then have "unat (of_nat i :: u32) = i" by (simp add: unat_of_nat take_bit_nat_eq_self)
  then show ?thesis
    using assms by (subst unat_plus_no_overflow) (auto simp: pipe_no_wrap_def)
qed

interpretation pipe: ring_window PIPESIZE pipe_slot pipe_no_wrap
proof
  show "PIPESIZE < 2 ^ LENGTH(32)" by (simp add: PIPESIZE_def)
  show "pipe_slot c < PIPESIZE" for c by (simp add: pipe_slot_def PIPESIZE_def)
  show "i = j" if "pipe_no_wrap r" "i < PIPESIZE" "j < PIPESIZE"
    "pipe_slot (r + of_nat i) = pipe_slot (r + of_nat j)" for r i j
    using that mod_add_left_inj [of "unat r" i PIPESIZE j] mod_add_left_inj [of "unat r" j PIPESIZE i]
    by (cases "i \<le> j") (auto simp: pipe_slot_def unat_add_no_wrap)
qed

lemma pipe_full_iff:
  assumes "pipe_inv p"
  shows "write_cnt p = read_cnt p + of_nat PIPESIZE \<longleftrightarrow> unat (write_cnt p - read_cnt p) = PIPESIZE"
proof
  assume "write_cnt p = read_cnt p + of_nat PIPESIZE"
  then show "unat (write_cnt p - read_cnt p) = PIPESIZE" by (simp add: PIPESIZE_def)
next
  assume "unat (write_cnt p - read_cnt p) = PIPESIZE"
  then have "write_cnt p - read_cnt p = of_nat PIPESIZE" by (metis of_nat_unat ucast_id)
  then show "write_cnt p = read_cnt p + of_nat PIPESIZE" by (simp add: algebra_simps)
qed

lemma pipe_create_inv: "pipe_inv pipe_create" "pipe_contents pipe_create = []"
  by (simp_all add: pipe_create_def pipe_inv_def pipe_contents_def PIPESIZE_def)

lemma length_pipe_contents: "pipe_inv p \<Longrightarrow> length (pipe_contents p) \<le> PIPESIZE"
  by (simp add: pipe_inv_def pipe_contents_def)

section \<open>Reading consumes a prefix\<close>

lemma pipe_read_loop_log_Suc:
  "pipe_read_loop log_out addr i (Suc n) p m =
     kbind (usize_add addr (of_nat i)) (\<lambda>a.
       pipe_read_loop log_out addr (Suc i) n (p\<lparr>read_cnt := read_cnt p + 1\<rparr>)
         (m @ [(a, pipe_data p ! pipe_slot (read_cnt p))]))"
  by (simp add: Let_def log_out_def)

lemma pipe_fetch:
  assumes "read_cnt p \<noteq> write_cnt p" and "pipe_inv p"
  shows "pipe_contents p = pipe_data p ! pipe_slot (read_cnt p) #
           pipe_contents (p\<lparr>read_cnt := read_cnt p + 1\<rparr>)"
    and "pipe_inv (p\<lparr>read_cnt := read_cnt p + 1\<rparr>)"
    and "unat (write_cnt p - (read_cnt p + 1)) = unat (write_cnt p - read_cnt p) - 1"
  using assms pipe.fetch_head [of "read_cnt p" "write_cnt p" "pipe_data p"]
    unat_pred_diff [of "read_cnt p" "write_cnt p"]
  by (auto simp: pipe_contents_def pipe_inv_def)

lemma pipe_read_loop_log:
  assumes "pipe_inv p" and "n \<le> unat (write_cnt p - read_cnt p)"
    and "pipe_read_loop log_out addr i n p m = Done (k, p', m')"
  shows "k = i + n \<and> pipe_inv p' \<and> read_cnt p' = read_cnt p + of_nat n \<and>
         write_cnt p' = write_cnt p \<and> read_open p' = read_open p \<and> write_open p' = write_open p \<and>
         (\<exists>bs. map snd m' = map snd m @ bs \<and> length bs = n \<and> pipe_contents p = bs @ pipe_contents p')"
  using assms
proof (induction n arbitrary: i p m)
  case 0
  then show ?case by simp
next
  case (Suc n)
  have ne: "read_cnt p \<noteq> write_cnt p" using Suc.prems(2) by auto
  note f = pipe_fetch [OF ne Suc.prems(1)]
  let ?p = "p\<lparr>read_cnt := read_cnt p + 1\<rparr>" and ?b = "pipe_data p ! pipe_slot (read_cnt p)"
  from Suc.prems(3) obtain a where
    r: "pipe_read_loop log_out addr (Suc i) n ?p (m @ [(a, ?b)]) = Done (k, p', m')"
    by (auto simp: pipe_read_loop_log_Suc kres_simps simp del: pipe_read_loop.simps)
  have "n \<le> unat (write_cnt ?p - read_cnt ?p)" using Suc.prems(2) f(3) by simp
  from Suc.IH [OF f(2) this r] show ?case
    unfolding f(1) by (auto simp: algebra_simps)
qed

lemma pipe_read_log:
  assumes "pipe_inv p" and "pipe_read log_out killed addr count p [] = Done (res, wk, p', m')"
  shows "pipe_inv p' \<and> write_cnt p' = write_cnt p \<and>
         read_cnt p' = read_cnt p + of_nat (length m') \<and>
         pipe_contents p = map snd m' @ pipe_contents p'"
proof (cases "read_cnt p = write_cnt p \<and> write_open p")
  case True
  with assms show ?thesis by (auto simp: pipe_read_def split: if_splits)
next
  case False
  let ?n = "unat (min count (write_cnt p - read_cnt p))"
  from False assms(2) obtain k where
    r: "pipe_read_loop log_out addr 0 ?n p [] = Done (k, p', m')"
    by (auto simp: pipe_read_def kres_simps)
  have "?n \<le> unat (write_cnt p - read_cnt p)"
    by (simp add: min_def word_le_nat_alt)
  from pipe_read_loop_log [OF assms(1) this r] obtain bs where
    "map snd m' = bs" "length bs = ?n" "pipe_contents p = bs @ pipe_contents p'"
    "pipe_inv p'" "write_cnt p' = write_cnt p" "read_cnt p' = read_cnt p + of_nat ?n"
    by auto
  moreover from this have "length m' = ?n" by (metis length_map)
  ultimately show ?thesis by simp
qed

section \<open>Writing appends\<close>

text \<open>The bytes of a mapped source buffer.\<close>

definition src_in :: "(usize \<Rightarrow> u8) \<Rightarrow> usize \<Rightarrow> u8 option kres" where
  "src_in src a = Done (Some (src a))"

definition src_bytes :: "(usize \<Rightarrow> u8) \<Rightarrow> usize \<Rightarrow> nat \<Rightarrow> nat \<Rightarrow> u8 list" where
  "src_bytes src addr i j = map (\<lambda>k. src (addr + of_nat k)) [i..<j]"

lemma pipe_store:
  fixes p :: pipe_inner and b :: u8
  assumes "pipe_inv p" and "write_cnt p \<noteq> read_cnt p + of_nat PIPESIZE"
  defines "p1 \<equiv> p\<lparr>pipe_data := (pipe_data p)[pipe_slot (write_cnt p) := b], write_cnt := write_cnt p + 1\<rparr>"
  shows "pipe_inv p1"
    and "pipe_no_wrap (read_cnt p) \<Longrightarrow> pipe_contents p1 = pipe_contents p @ [b]"
proof -
  have lt: "unat (write_cnt p - read_cnt p) < PIPESIZE"
    using assms(1,2) pipe_full_iff [OF assms(1)] by (auto simp: pipe_inv_def)
  show "pipe_inv p1"
    using assms(1) pipe.store_full_window [OF lt] by (auto simp: pipe_inv_def p1_def)
  show "pipe_contents p1 = pipe_contents p @ [b]" if "pipe_no_wrap (read_cnt p)"
    using pipe.store_appends [OF that lt, of "pipe_data p" b] assms(1)
    by (simp add: pipe_contents_def p1_def pipe_inv_def)
qed

lemma pipe_write_src_step:
  assumes "wc < unat count \<and> read_open p \<and> \<not> killed \<and> write_cnt p \<noteq> read_cnt p + of_nat PIPESIZE"
  shows "pipe_write (src_in src) killed addr count p wc =
     kbind (usize_add addr (of_nat wc)) (\<lambda>a.
       pipe_write (src_in src) killed addr count
         (p\<lparr>pipe_data := (pipe_data p)[pipe_slot (write_cnt p) := src a],
            write_cnt := write_cnt p + 1\<rparr>) (Suc wc))"
  using assms by (subst pipe_write.simps) (simp add: src_in_def)

lemma pipe_write_src:
  assumes "pipe_inv p" and "wc \<le> unat count"
    and "pipe_write (src_in src) killed addr count p wc = Done (res, wk, p', wc')"
  shows "wc \<le> wc' \<and> wc' \<le> unat count \<and> pipe_inv p' \<and> read_cnt p' = read_cnt p \<and>
         write_cnt p' = write_cnt p + of_nat (wc' - wc) \<and>
         (pipe_no_wrap (read_cnt p) \<longrightarrow> pipe_contents p' = pipe_contents p @ src_bytes src addr wc wc')"
  using assms
proof (induction "src_in src" killed addr count p wc rule: pipe_write.induct)
  case (1 killed addr count p wc)
  show ?case
  proof (cases "wc < unat count \<and> read_open p \<and> \<not> killed \<and> write_cnt p \<noteq> read_cnt p + of_nat PIPESIZE")
    case False
    with "1.prems" show ?thesis
      by (subst (asm) pipe_write.simps) (auto simp: src_bytes_def split: if_splits)
  next
    case True
    let ?b = "src (addr + of_nat wc)"
    let ?p = "p\<lparr>pipe_data := (pipe_data p)[pipe_slot (write_cnt p) := ?b], write_cnt := write_cnt p + 1\<rparr>"
    have ad: "usize_add addr (of_nat wc) = Done (addr + of_nat wc)"
      and r: "pipe_write (src_in src) killed addr count ?p (Suc wc) = Done (res, wk, p', wc')"
      using "1.prems"(3) unfolding pipe_write_src_step [OF True] by (auto simp: kres_simps)
    note st = pipe_store [OF "1.prems"(1), of ?b]
    have IH: "Suc wc \<le> wc' \<and> wc' \<le> unat count \<and> pipe_inv p' \<and> read_cnt p' = read_cnt ?p \<and>
         write_cnt p' = write_cnt ?p + of_nat (wc' - Suc wc) \<and>
         (pipe_no_wrap (read_cnt ?p) \<longrightarrow>
            pipe_contents p' = pipe_contents ?p @ src_bytes src addr (Suc wc) wc')"
      by (rule "1.hyps" [OF _ _ _ ad _ _ _ _ r]) (use True st in \<open>auto simp: src_in_def\<close>)
    then have "wc' - wc = Suc (wc' - Suc wc)" by auto
    then show ?thesis
      using IH st True by (auto simp: src_bytes_def upt_conv_Cons algebra_simps)
  qed
qed

section \<open>Readers and writers interleaved\<close>

text \<open>
  A pipe shared by any number of readers and writers: each step is one critical section
  of \<^verbatim>\<open>read\<close>, \<^verbatim>\<open>write\<close> or \<^verbatim>\<open>close\<close>. The history records every byte taken from a source
  buffer and every byte put into a destination buffer.
\<close>

record pipe_sys =
  sys_pipe :: pipe_inner
  sent :: "u8 list"
  received :: "u8 list"

inductive pipe_step :: "pipe_sys \<Rightarrow> pipe_sys \<Rightarrow> bool" where
  reader: "pipe_read log_out killed addr count (sys_pipe s) [] = Done (res, wk, p', m') \<Longrightarrow>
     pipe_step s (s\<lparr>sys_pipe := p', received := received s @ map snd m'\<rparr>)"
| writer: "wc \<le> unat count \<Longrightarrow>
     pipe_write (src_in src) killed addr count (sys_pipe s) wc = Done (res, wk, p', wc') \<Longrightarrow>
     pipe_step s (s\<lparr>sys_pipe := p', sent := sent s @ src_bytes src addr wc wc'\<rparr>)"
| closer: "pipe_step s (s\<lparr>sys_pipe := fst (pipe_close is_write (sys_pipe s))\<rparr>)"

inductive pipe_reach :: "pipe_sys \<Rightarrow> bool" where
  start: "pipe_reach \<lparr>sys_pipe = pipe_create, sent = [], received = []\<rparr>"
| step: "pipe_reach s \<Longrightarrow> pipe_step s t \<Longrightarrow> pipe_reach t"

definition pipe_sys_inv :: "pipe_sys \<Rightarrow> bool" where
  "pipe_sys_inv s \<longleftrightarrow>
     pipe_inv (sys_pipe s) \<and>
     (length (sent s) + PIPESIZE \<le> 2 ^ 32 \<longrightarrow>
        sent s = received s @ pipe_contents (sys_pipe s) \<and>
        read_cnt (sys_pipe s) = of_nat (length (received s)))"

lemma pipe_close_frame [simp]:
  "pipe_contents (fst (pipe_close b p)) = pipe_contents p"
  "pipe_inv (fst (pipe_close b p)) = pipe_inv p"
  "read_cnt (fst (pipe_close b p)) = read_cnt p"
  by (auto simp: pipe_close_def pipe_contents_def pipe_inv_def)

lemma length_src_bytes [simp]: "length (src_bytes src addr i j) = j - i"
  by (simp add: src_bytes_def)

lemma pipe_step_inv: "pipe_step s t \<Longrightarrow> pipe_sys_inv s \<Longrightarrow> pipe_sys_inv t"
proof (induction rule: pipe_step.induct)
  case (reader killed addr count s res wk p' m')
  then have "pipe_inv (sys_pipe s)" by (simp add: pipe_sys_inv_def)
  from pipe_read_log [OF this reader.hyps] reader.prems show ?case
    by (auto simp: pipe_sys_inv_def)
next
  case (writer wc count src killed addr s res wk p' wc')
  then have i: "pipe_inv (sys_pipe s)" by (simp add: pipe_sys_inv_def)
  note w = pipe_write_src [OF i writer.hyps]
  have "sent s @ src_bytes src addr wc wc' = received s @ pipe_contents p' \<and>
        read_cnt p' = of_nat (length (received s))"
    if small: "length (sent s @ src_bytes src addr wc wc') + PIPESIZE \<le> 2 ^ 32"
  proof -
    have q: "sent s = received s @ pipe_contents (sys_pipe s)"
      "read_cnt (sys_pipe s) = of_nat (length (received s))"
      using small writer.prems by (auto simp: pipe_sys_inv_def)
    have "length (received s) \<le> length (sent s)" by (simp add: q(1))
    then have "length (received s) + PIPESIZE \<le> 2 ^ 32" using small by simp
    then have "pipe_no_wrap (read_cnt (sys_pipe s))"
      by (simp add: pipe_no_wrap_def q(2) unat_of_nat take_bit_nat_eq_self PIPESIZE_def)
    with w q show ?thesis by auto
  qed
  with w show ?case by (simp add: pipe_sys_inv_def)
next
  case (closer s is_write)
  then show ?case by (simp add: pipe_sys_inv_def)
qed

lemma pipe_reach_inv: "pipe_reach s \<Longrightarrow> pipe_sys_inv s"
proof (induction rule: pipe_reach.induct)
  case start
  then show ?case
    using pipe_create_inv by (simp add: pipe_sys_inv_def) (simp add: pipe_create_def)
next
  case (step s t)
  then show ?case by (blast intro: pipe_step_inv)
qed

lemma pipe_read_loop_total:
  assumes "pipe_inv p" and "n \<le> unat (write_cnt p - read_cnt p)"
    and "unat addr + i + n < 2 ^ 32"
  shows "\<exists>p'. pipe_read_loop log_out addr i n p m =
            Done (i + n, p', m @ zip (map (\<lambda>k. addr + of_nat k) [i..<i + n]) (pipe_contents p))"
  using assms
proof (induction n arbitrary: i p m)
  case 0
  then show ?case by (simp del: pipe_read_loop.simps(2))
next
  case (Suc n)
  have ne: "read_cnt p \<noteq> write_cnt p" using Suc.prems(2) by auto
  note f = pipe_fetch [OF ne Suc.prems(1)]
  let ?p = "p\<lparr>read_cnt := read_cnt p + 1\<rparr>" and ?b = "pipe_data p ! pipe_slot (read_cnt p)"
  have u: "unat (of_nat i :: usize) = i"
    using Suc.prems(3) by (simp add: unat_of_nat take_bit_nat_eq_self)
  have ad: "usize_add addr (of_nat i) = Done (addr + of_nat i)"
    using Suc.prems(3) by (simp add: usize_add_def u)
  have n: "n \<le> unat (write_cnt ?p - read_cnt ?p)" and lt: "unat addr + Suc i + n < 2 ^ 32"
    using Suc.prems(2,3) f(3) by simp_all
  obtain p' where "pipe_read_loop log_out addr (Suc i) n ?p (m @ [(addr + of_nat i, ?b)]) =
      Done (Suc i + n, p', (m @ [(addr + of_nat i, ?b)]) @
              zip (map (\<lambda>k. addr + of_nat k) [Suc i..<Suc i + n]) (pipe_contents ?p))"
    using Suc.IH [OF f(2) n lt, of "m @ [(addr + of_nat i, ?b)]"] by blast
  then show ?case
    unfolding pipe_read_loop_log_Suc f(1) by (simp add: ad upt_conv_Cons del: upt_Suc pipe_read_loop.simps)
qed

section \<open>Writes that fit, and the wrap of the counters\<close>

lemma pipe_write_fits:
  assumes "pipe_inv p" and "read_open p" and "wc \<le> unat count"
    and "unat (write_cnt p - read_cnt p) + (unat count - wc) \<le> PIPESIZE"
    and "unat addr + unat count < 2 ^ 32"
  shows "\<exists>p'. pipe_write (src_in src) False addr count p wc =
           Done (PipeReturn (Some count), [ReadChan], p', unat count) \<and>
         read_open p' \<and> write_open p' = write_open p \<and>
         (wc < unat count \<longrightarrow>
            pipe_data p' ! pipe_slot (write_cnt p' - 1) = src (addr + of_nat (unat count - 1)))"
  using assms
proof (induction "unat count - wc" arbitrary: p wc)
  case 0
  then show ?case by (subst pipe_write.simps) auto
next
  case (Suc n)
  have lt: "wc < unat count" using Suc.hyps(2) by simp
  have room: "unat (write_cnt p - read_cnt p) < PIPESIZE" using Suc.prems(4) lt by simp
  then have nf: "write_cnt p \<noteq> read_cnt p + of_nat PIPESIZE"
    using pipe_full_iff [OF Suc.prems(1)] by auto
  let ?b = "src (addr + of_nat wc)"
  let ?p = "p\<lparr>pipe_data := (pipe_data p)[pipe_slot (write_cnt p) := ?b], write_cnt := write_cnt p + 1\<rparr>"
  have ad: "usize_add addr (of_nat wc) = Done (addr + of_nat wc)"
    using Suc.prems(5) lt by (simp add: usize_add_def unat_of_nat take_bit_nat_eq_self)
  have eq: "pipe_write (src_in src) False addr count p wc =
      pipe_write (src_in src) False addr count ?p (Suc wc)"
    using lt Suc.prems(2) nf by (subst pipe_write_src_step) (simp_all add: ad)
  have inv: "pipe_inv ?p" by (rule pipe_store(1) [OF Suc.prems(1) nf])
  have "unat (write_cnt ?p - read_cnt ?p) = Suc (unat (write_cnt p - read_cnt p))"
    using pipe.store_full_window [OF room] by simp
  then have fits: "unat (write_cnt ?p - read_cnt ?p) + (unat count - Suc wc) \<le> PIPESIZE"
    using Suc.prems(4) lt by simp
  have n: "n = unat count - Suc wc" and le: "Suc wc \<le> unat count" using Suc.hyps(2) by simp_all
  obtain p' where p': "pipe_write (src_in src) False addr count ?p (Suc wc) =
        Done (PipeReturn (Some count), [ReadChan], p', unat count)"
      "read_open p'" "write_open p' = write_open p"
      "Suc wc < unat count \<longrightarrow>
         pipe_data p' ! pipe_slot (write_cnt p' - 1) = src (addr + of_nat (unat count - 1))"
    using Suc.hyps(1) [OF n inv _ le fits Suc.prems(5)] Suc.prems(2) by auto
  have "pipe_data p' ! pipe_slot (write_cnt p' - 1) = src (addr + of_nat (unat count - 1))"
  proof (cases "Suc wc = unat count")
    case True
    then have c: "unat count - 1 = wc" by simp
    have "p' = ?p" using p'(1) True by (subst (asm) pipe_write.simps) simp
    then show ?thesis
      unfolding c using Suc.prems(1) pipe.slot_bound by (simp add: pipe_inv_def)
  next
    case False
    then show ?thesis using p'(4) le by linarith
  qed
  then show ?case using eq p' by auto
qed

lemma pipe_read_one:
  assumes "read_cnt p \<noteq> write_cnt p"
  shows "pipe_read log_out False 0 1 p [] =
     Done (PipeReturn (Some 1), [WriteChan], p\<lparr>read_cnt := read_cnt p + 1\<rparr>,
           [(0, pipe_data p ! pipe_slot (read_cnt p))])"
proof -
  have "write_cnt p - read_cnt p \<noteq> 0" using assms by simp
  then have "1 \<le> write_cnt p - read_cnt p" by (simp add: word_less_1 not_less [symmetric])
  then have "min 1 (write_cnt p - read_cnt p) = 1" by (simp add: min_def)
  then show ?thesis
    using assms pipe_read_loop_log_Suc [of 0 0 0 p "[]"]
    by (simp add: pipe_read_def usize_add_def del: pipe_read_loop.simps(2))
qed

lemma pipe_reach_counter:
  "\<exists>s. pipe_reach s \<and> pipe_inv (sys_pipe s) \<and> read_open (sys_pipe s) \<and> write_open (sys_pipe s) \<and>
       read_cnt (sys_pipe s) = of_nat k \<and> write_cnt (sys_pipe s) = of_nat k"
proof (induction k)
  case 0
  then show ?case
    using pipe_reach.start pipe_create_inv(1) by (intro exI conjI) (auto simp: pipe_create_def)
next
  case (Suc k)
  then obtain s where s: "pipe_reach s" "pipe_inv (sys_pipe s)" "read_open (sys_pipe s)"
    "write_open (sys_pipe s)" "read_cnt (sys_pipe s) = of_nat k" "write_cnt (sys_pipe s) = of_nat k"
    by blast
  obtain p1 where w: "pipe_write (src_in (\<lambda>_. 0)) False 0 1 (sys_pipe s) 0 =
      Done (PipeReturn (Some 1), [ReadChan], p1, 1)" "read_open p1" "write_open p1"
    using pipe_write_fits [OF s(2,3), of 0 1 0 "\<lambda>_. 0"] s by (auto simp: PIPESIZE_def)
  have c1: "read_cnt p1 = of_nat k" "write_cnt p1 = of_nat k + 1" "pipe_inv p1"
    using pipe_write_src [OF s(2) _ w(1)] s by auto
  let ?t = "s\<lparr>sys_pipe := p1, sent := sent s @ src_bytes (\<lambda>_. 0) 0 0 1\<rparr>"
  have t: "pipe_reach ?t"
    using pipe_reach.step [OF s(1) pipe_step.writer [OF _ w(1)]] by simp
  have r: "pipe_read log_out False 0 1 (sys_pipe ?t) [] =
     Done (PipeReturn (Some 1), [WriteChan], p1\<lparr>read_cnt := read_cnt p1 + 1\<rparr>,
           [(0, pipe_data p1 ! pipe_slot (read_cnt p1))])"
    using pipe_read_one [of p1] c1 by simp
  note u = pipe_reach.step [OF t pipe_step.reader [OF r]]
  have i: "pipe_inv (p1\<lparr>read_cnt := read_cnt p1 + 1\<rparr>)"
    using pipe_fetch(2) [of p1] c1 by simp
  show ?case
    by (intro exI conjI, rule u) (use w c1 i in \<open>simp_all add: algebra_simps\<close>)
qed

section \<open>Properties\<close>

text \<open>
  C4 (pipes are FIFO): under every interleaving of reads, writes and closes, as long as
  at most \<open>2^32 - 454\<close> bytes have been written in all, the bytes written are the bytes
  read followed by the bytes the buffer holds, and the buffer holds at most 454.
\<close>

theorem pipe_fifo:
  assumes "pipe_reach s" and "length (sent s) + 454 \<le> 2 ^ 32"
  shows "sent s = received s @ pipe_contents (sys_pipe s) \<and>
         length (pipe_contents (sys_pipe s)) \<le> 454"
proof -
  have "pipe_sys_inv s" using assms(1) by (rule pipe_reach_inv)
  then show ?thesis
    using assms(2) length_pipe_contents [of "sys_pipe s"]
    by (simp add: pipe_sys_inv_def PIPESIZE_def)
qed

theorem pipe_fifo_witness:
  "\<exists>s. pipe_reach s \<and> length (sent s) = 1 \<and> sent s = received s @ pipe_contents (sys_pipe s)"
proof -
  obtain p1 where w: "pipe_write (src_in (\<lambda>_. 7)) False 0 1 pipe_create 0 =
      Done (PipeReturn (Some 1), [ReadChan], p1, 1)"
    using pipe_write_fits [OF pipe_create_inv(1), of 0 1 0 "\<lambda>_. 7"]
    by (auto simp: pipe_create_def PIPESIZE_def)
  have r: "pipe_reach \<lparr>sys_pipe = p1, sent = src_bytes (\<lambda>_. 7) 0 0 1, received = []\<rparr>"
    using pipe_reach.step [OF pipe_reach.start pipe_step.writer [of 0 1 "\<lambda>_. 7" False 0]] w by simp
  have e: "src_bytes (\<lambda>_. 7) 0 0 1 = pipe_contents p1" using pipe_fifo [OF r] by simp
  have "length (pipe_contents p1) = 1" unfolding e [symmetric] by simp
  with e show ?thesis by (intro exI [of _ "\<lparr>sys_pipe = p1, sent = src_bytes (\<lambda>_. 7) 0 0 1, received = []\<rparr>"])
      (use r in auto)
qed

text \<open>
  Reading a pipe: a read of a pipe that holds bytes (or has no writer left) returns
  at once with the smaller of the count and the bytes available, has stored exactly the
  oldest bytes at consecutive addresses from \<open>addr\<close>, wakes the writers, and leaves the
  rest in the pipe; a read of an empty pipe with a writer sleeps or, when the process is
  killed, fails, and neither changes the pipe.
\<close>

theorem pipe_read_correct:
  assumes "pipe_inv p" and "unat addr + unat count < 2 ^ 32"
  shows "if pipe_contents p = [] \<and> write_open p
         then pipe_read log_out killed addr count p [] =
                Done (if killed then PipeReturn None else PipeSleep ReadChan, [], p, [])
         else \<exists>p'. let n = min (unat count) (length (pipe_contents p)) in
                pipe_read log_out killed addr count p [] =
                  Done (PipeReturn (Some (of_nat n)), [WriteChan], p',
                        zip (map (\<lambda>k. addr + of_nat k) [0..<n]) (pipe_contents p)) \<and>
                pipe_inv p' \<and> pipe_contents p' = drop n (pipe_contents p)"
proof (cases "pipe_contents p = [] \<and> write_open p")
  case True
  then show ?thesis by (simp add: pipe_read_def pipe_contents_def ring_contents_Nil)
next
  case False
  let ?n = "unat (min count (write_cnt p - read_cnt p))"
  have n: "?n = min (unat count) (length (pipe_contents p))"
    by (simp add: pipe_contents_def min_def word_le_nat_alt)
  have le: "?n \<le> unat (write_cnt p - read_cnt p)" by (simp add: min_def word_le_nat_alt)
  have "unat addr + 0 + ?n < 2 ^ 32" using assms(2) by (simp add: min_def word_le_nat_alt)
  from pipe_read_loop_total [OF assms(1) le this, of "[]"] obtain p' where
    r: "pipe_read_loop log_out addr 0 ?n p [] =
          Done (?n, p', zip (map (\<lambda>k. addr + of_nat k) [0..<?n]) (pipe_contents p))"
    by auto
  from pipe_read_loop_log [OF assms(1) le r] obtain bs where
    p': "pipe_inv p'" "length bs = ?n" "pipe_contents p = bs @ pipe_contents p'" by blast
  have "\<not> (read_cnt p = write_cnt p \<and> write_open p)"
    using False by (simp add: pipe_contents_def ring_contents_Nil)
  then have "pipe_read log_out killed addr count p [] =
      Done (PipeReturn (Some (of_nat ?n)), [WriteChan], p',
            zip (map (\<lambda>k. addr + of_nat k) [0..<?n]) (pipe_contents p))"
    using r by (simp add: pipe_read_def del: pipe_read_loop.simps)
  moreover have "pipe_contents p' = drop ?n (pipe_contents p)" using p' by simp
  ultimately show ?thesis using False p'(1) unfolding n Let_def by auto
qed

theorem pipe_read_correct_witness:
  "pipe_inv (pipe_create\<lparr>write_cnt := 2\<rparr>) \<and>
   (\<exists>p'. pipe_read log_out False 0 5 (pipe_create\<lparr>write_cnt := 2\<rparr>) [] =
      Done (PipeReturn (Some 2), [WriteChan], p', [(0, 0), (1, 0)]) \<and> pipe_contents p' = [])"
proof -
  let ?p = "pipe_create\<lparr>write_cnt := 2\<rparr>"
  have i: "pipe_inv ?p" by (simp add: pipe_create_def pipe_inv_def PIPESIZE_def)
  have c: "pipe_contents ?p = [0, 0]"
    by (simp add: pipe_create_def pipe_contents_def ring_contents_def pipe_slot_def PIPESIZE_def
        upt_conv_Cons)
  have "unat (0 :: usize) + unat (5 :: u32) < 2 ^ 32" by simp
  from pipe_read_correct [OF i this, of False] c i show ?thesis
    by (auto simp: Let_def upt_conv_Cons)
qed

text \<open>
  C40 (pipes across the counter wrap): the counters wrap at \<open>2^32\<close>, which 454 does not
  divide, so the slots of a window that crosses the wrap coincide. There is a reachable
  pipe, with both ends open, in which the bytes written are not the bytes read followed by
  the bytes in the buffer: unread bytes have been overwritten.
\<close>

theorem pipe_counter_wrap_corrupts:
  "\<exists>s. pipe_reach s \<and> read_open (sys_pipe s) \<and> write_open (sys_pipe s) \<and>
       sent s \<noteq> received s @ pipe_contents (sys_pipe s)"
proof -
  obtain s where s: "pipe_reach s" "pipe_inv (sys_pipe s)" "read_open (sys_pipe s)"
    "write_open (sys_pipe s)" "read_cnt (sys_pipe s) = 4294967295" "write_cnt (sys_pipe s) = 4294967295"
    using pipe_reach_counter [of 4294967295] by auto
  let ?src = "\<lambda>a :: usize. if a = 0 then 1 else 2 :: u8"
  obtain p where p: "pipe_write (src_in ?src) False 0 177 (sys_pipe s) 0 =
      Done (PipeReturn (Some 177), [ReadChan], p, 177)" "read_open p" "write_open p"
      "pipe_data p ! pipe_slot (write_cnt p - 1) = 2"
    using pipe_write_fits [OF s(2,3), of 0 177 0 ?src] s by (auto simp: PIPESIZE_def)
  have c: "read_cnt p = 4294967295" "write_cnt p = 176"
    using pipe_write_src [OF s(2) _ p(1)] s by auto
  let ?t = "s\<lparr>sys_pipe := p, sent := sent s @ src_bytes ?src 0 0 177\<rparr>"
  have t: "pipe_reach ?t"
    using pipe_reach.step [OF s(1) pipe_step.writer [OF _ p(1)]] by simp
  have "hd (pipe_contents p) = 2"
    using pipe.fetch_head [of "read_cnt p" "write_cnt p" "pipe_data p"] c p(4)
    by (simp add: pipe_contents_def pipe_slot_def PIPESIZE_def)
  moreover have "hd (src_bytes ?src 0 0 177) = 1"
    by (simp add: src_bytes_def upt_conv_Cons)
  ultimately have ne: "pipe_contents p \<noteq> src_bytes ?src 0 0 177" by force
  have e: "pipe_contents (sys_pipe s) = []" using s by (simp add: pipe_contents_def)
  show ?thesis
  proof (cases "sent s = received s")
    case True
    then show ?thesis using t p ne by (intro exI [of _ ?t]) auto
  next
    case False
    then show ?thesis using s e by (intro exI [of _ s]) auto
  qed
qed

end
