(* ===== verification/Console.thy ===== *)
theory Console
  imports Ring
begin

text \<open>
  The console line discipline and the UART: \<^verbatim>\<open>kernel/src/driver/console.rs\<close> and
  \<^verbatim>\<open>uart.rs\<close>. As for pipes, each definition is the code between taking the lock and
  sleeping or returning. The device is an argument: the number of times the transmitter
  reports itself idle before it reports busy, and the bytes the receiver holds when an
  interrupt arrives. The lemmas relate the counters and the byte arrays to the queues
  they stand for: finished lines, the line being edited, and bytes to send.
\<close>

section \<open>Constants and state\<close>

definition CONSOLE_BUF :: nat where "CONSOLE_BUF = 128"
definition UART_BUF :: nat where "UART_BUF = 32"
definition CTRL_EOT :: u8 where "CTRL_EOT = 0x04"
definition CTRL_BS :: u8 where "CTRL_BS = 0x08"
definition CTRL_LF :: u8 where "CTRL_LF = 0x0A"
definition CTRL_CR :: u8 where "CTRL_CR = 0x0D"
definition CTRL_DEL :: u8 where "CTRL_DEL = 0x7f"
definition CTRL_PRINT_PROCESS :: u8 where "CTRL_PRINT_PROCESS = 0x10"
definition CTRL_BS_LINE :: u8 where "CTRL_BS_LINE = 0x15"

lemmas ctrl_defs = CTRL_EOT_def CTRL_BS_def CTRL_LF_def CTRL_CR_def CTRL_DEL_def
  CTRL_PRINT_PROCESS_def CTRL_BS_LINE_def

record console =
  con_buf :: "u8 list"
  con_ri :: usize
  con_wi :: usize
  con_ei :: usize

definition console_init :: console where
  "console_init = \<lparr>con_buf = replicate CONSOLE_BUF 0, con_ri = 0, con_wi = 0, con_ei = 0\<rparr>"

definition con_slot :: "usize \<Rightarrow> nat" where
  "con_slot c = unat c mod CONSOLE_BUF"

section \<open>Reading lines and editing them\<close>

datatype con_outcome = ConSleep | ConReturn "nat option"

text \<open>
  \<^verbatim>\<open>read\<close>: \<open>tot\<close> bytes were asked for, \<open>left\<close> are missing. The result carries the
  destination and \<open>left\<close>, with which a sleeping read resumes.
\<close>

fun console_read ::
    "('m \<Rightarrow> usize \<Rightarrow> u8 \<Rightarrow> 'm option kres) \<Rightarrow> bool \<Rightarrow> nat \<Rightarrow> usize \<Rightarrow> nat \<Rightarrow> console \<Rightarrow> 'm \<Rightarrow>
     (con_outcome \<times> usize \<times> nat \<times> console \<times> 'm) kres" where
  "console_read cout killed tot dst 0 con m = Done (ConReturn (Some tot), dst, 0, con, m)"
| "console_read cout killed tot dst (Suc left) con m =
     (if con_ri con = con_wi con
      then if killed then Done (ConReturn None, dst, Suc left, con, m)
           else Done (ConSleep, dst, Suc left, con, m)
      else let c = con_buf con ! con_slot (con_ri con);
               con1 = con\<lparr>con_ri := con_ri con + 1\<rparr>
           in if c = CTRL_EOT
              then let con2 = (if Suc left < tot then con1\<lparr>con_ri := con_ri con1 - 1\<rparr> else con1)
                   in Done (ConReturn (Some (tot - Suc left)), dst, Suc left, con2, m)
              else kbind (cout m dst c) (\<lambda>r.
                case r of
                  None \<Rightarrow> Done (ConReturn (Some (tot - Suc left)), dst, Suc left, con1, m)
                | Some m' \<Rightarrow>
                    kbind (usize_add dst 1) (\<lambda>dst'.
                      if c = CTRL_LF
                      then Done (ConReturn (Some (tot - left)), dst', left, con1, m')
                      else console_read cout killed tot dst' left con1 m')))"

text \<open>\<^verbatim>\<open>putc\<close>: the bytes sent to the terminal; a backspace also erases.\<close>

definition console_putc :: "u8 \<Rightarrow> u8 list" where
  "console_putc c = (if c = CTRL_BS then [CTRL_BS, 0x20, CTRL_BS] else [c])"

function kill_line :: "console \<Rightarrow> u8 list \<Rightarrow> console \<times> u8 list" where
  "kill_line con out =
     (if con_ei con \<noteq> con_wi con \<and> con_buf con ! con_slot (con_ei con - 1) \<noteq> CTRL_LF
      then kill_line (con\<lparr>con_ei := con_ei con - 1\<rparr>) (out @ console_putc CTRL_BS)
      else (con, out))"
  by pat_completeness auto
termination
proof (relation "measure (\<lambda>(con, out). unat (con_ei con - con_wi con))", goal_cases)
  case 1
  then show ?case by simp
next
  case (2 con out)
  then have "con_ei con - con_wi con \<noteq> 0" by simp
  then have "unat (con_ei con - con_wi con - 1) < unat (con_ei con - con_wi con)"
    by (simp add: unat_minus_one unat_gt_0)
  then show ?case by (simp add: algebra_simps)
qed

declare kill_line.simps [simp del]

text \<open>
  \<^verbatim>\<open>intr\<close>: one received character. The result is the console, the bytes echoed and
  whether readers are woken. Control-P reaches \<^verbatim>\<open>todo!()\<close>, which panics.
\<close>

definition console_intr :: "u8 \<Rightarrow> console \<Rightarrow> (console \<times> u8 list \<times> bool) kres" where
  "console_intr c con =
     (if c = CTRL_PRINT_PROCESS then Panicked ''not yet implemented: print process list to debug''
      else if c = CTRL_BS_LINE
      then (let (con', out) = kill_line con [] in Done (con', out, False))
      else if c = CTRL_BS \<or> c = CTRL_DEL
      then if con_ei con \<noteq> con_wi con
           then Done (con\<lparr>con_ei := con_ei con - 1\<rparr>, console_putc CTRL_BS, False)
           else Done (con, [], False)
      else if c \<noteq> 0 \<and> unat (con_ei con - con_ri con) < CONSOLE_BUF
      then let c' = (if c = CTRL_CR then CTRL_LF else c);
               con1 = con\<lparr>con_buf := (con_buf con)[con_slot (con_ei con) := c'],
                          con_ei := con_ei con + 1\<rparr>
           in if c' = CTRL_LF \<or> c' = CTRL_EOT \<or> unat (con_ei con1 - con_ri con1) = CONSOLE_BUF
              then Done (con1\<lparr>con_wi := con_ei con1\<rparr>, console_putc c', True)
              else Done (con1, console_putc c', False)
      else Done (con, [], False))"

section \<open>The UART\<close>

record uart =
  ua_buf :: "u8 list"
  ua_ri :: usize
  ua_wi :: usize

definition uart_init_state :: uart where
  "uart_init_state = \<lparr>ua_buf = replicate UART_BUF 0, ua_ri = 0, ua_wi = 0\<rparr>"

definition ua_slot :: "usize \<Rightarrow> nat" where
  "ua_slot c = unat c mod UART_BUF"

text \<open>
  \<^verbatim>\<open>transmit\<close>: one byte per idle report; the \<open>idle\<close> argument is how many times
  \<^verbatim>\<open>is_idle()\<close> will hold. The result lists the bytes written to the holding register.
\<close>

fun uart_transmit :: "nat \<Rightarrow> uart \<Rightarrow> uart \<times> u8 list" where
  "uart_transmit 0 u = (u, [])"
| "uart_transmit (Suc idle) u =
     (if ua_wi u \<noteq> ua_ri u
      then let c = ua_buf u ! ua_slot (ua_ri u);
               (u', out) = uart_transmit idle (u\<lparr>ua_ri := ua_ri u + 1\<rparr>)
           in (u', c # out)
      else (u, []))"

datatype uart_outcome = UartSleep | UartSpin | UartDone

definition uart_putc :: "bool \<Rightarrow> nat \<Rightarrow> u8 \<Rightarrow> uart \<Rightarrow> uart_outcome \<times> uart \<times> u8 list" where
  "uart_putc panicked idle c u =
     (if panicked then (UartSpin, u, [])
      else if ua_wi u = ua_ri u + of_nat UART_BUF then (UartSleep, u, [])
      else let u1 = u\<lparr>ua_buf := (ua_buf u)[ua_slot (ua_wi u) := c], ua_wi := ua_wi u + 1\<rparr>;
               (u2, out) = uart_transmit idle u1
           in (UartDone, u2, out))"

text \<open>
  \<^verbatim>\<open>console::write\<close>: \<open>i\<close> bytes are queued, the given number is left, \<open>c\<close> is a byte read from the
  source and not queued yet. \<open>idle\<close> gives the idle reports during each byte.
  A sleeping write resumes with the results.
\<close>

datatype write_outcome = WriteReturn nat | WriteSleep nat u8 | WriteSpin

fun console_write ::
    "(usize \<Rightarrow> u8 option kres) \<Rightarrow> bool \<Rightarrow> (nat \<Rightarrow> nat) \<Rightarrow> usize \<Rightarrow> nat \<Rightarrow> nat \<Rightarrow> u8 option \<Rightarrow> uart \<Rightarrow>
     (write_outcome \<times> uart \<times> u8 list) kres" where
  "console_write cin panicked idle src i 0 c u = Done (WriteReturn i, u, [])"
| "console_write cin panicked idle src i (Suc left) c u =
     kbind (case c of None \<Rightarrow> cin src | Some c0 \<Rightarrow> Done (Some c0)) (\<lambda>r.
       case r of
         None \<Rightarrow> Done (WriteReturn i, u, [])
       | Some c' \<Rightarrow>
           (case uart_putc panicked (idle i) c' u of
              (UartSpin, u', out) \<Rightarrow> Done (WriteSpin, u', out)
            | (UartSleep, u', out) \<Rightarrow> Done (WriteSleep i c', u', out)
            | (UartDone, u', out) \<Rightarrow>
                kbind (usize_add src 1) (\<lambda>src'.
                kbind (console_write cin panicked idle src' (Suc i) left None u') (\<lambda>(r, u2, out2).
                  Done (r, u2, out @ out2)))))"

text \<open>\<^verbatim>\<open>uart::init\<close>: the registers written, with their values.\<close>

definition UART_IER :: nat where "UART_IER = 1"
definition UART_FCR :: nat where "UART_FCR = 2"
definition UART_LCR :: nat where "UART_LCR = 3"

definition uart_init :: "(nat \<times> u8) list" where
  "uart_init = [(UART_IER, 0x00), (UART_LCR, 0x80), (0, 0x03), (1, 0x00), (UART_LCR, 0x03), (UART_FCR, 0x07), (UART_IER, 0x03)]"

text \<open>
  The UART interrupt: every byte the receiver holds goes to the console, then the
  transmitter is fed.
\<close>

fun feed_console :: "u8 list \<Rightarrow> console \<Rightarrow> (console \<times> u8 list) kres" where
  "feed_console [] con = Done (con, [])"
| "feed_console (c # cs) con =
     kbind (console_intr c con) (\<lambda>(con1, out, wake).
       kbind (feed_console cs con1) (\<lambda>(con2, out2). Done (con2, out @ out2)))"

definition uart_intr ::
    "u8 list \<Rightarrow> nat \<Rightarrow> console \<times> uart \<Rightarrow> (console \<times> uart \<times> u8 list \<times> u8 list) kres" where
  "uart_intr rx idle st =
     (case st of (con, u) \<Rightarrow>
        kbind (feed_console rx con) (\<lambda>(con', echo).
          let (u', out) = uart_transmit idle u in Done (con', u', echo, out)))"

section \<open>The queues behind the counters\<close>

lemma slot_window:
  assumes "cap dvd 2 ^ 64" and "0 < cap" and "cap < 2 ^ 64"
  shows "ring_window cap (\<lambda>c :: usize. unat c mod cap) (\<lambda>_. True)"
proof
  show "cap < 2 ^ LENGTH(64)" using assms by simp
  show "unat c mod cap < cap" for c :: usize using assms by simp
  show "i = j" if "True" "i < cap" "j < cap"
    "unat ((r :: usize) + of_nat i) mod cap = unat (r + of_nat j) mod cap" for r i j
    using mod_slot_inj [OF _ that(2,3,4)] assms by simp
qed

interpretation con: ring_window CONSOLE_BUF con_slot "\<lambda>_. True"
proof -
  have "con_slot = (\<lambda>c. unat c mod CONSOLE_BUF)" by (simp add: con_slot_def fun_eq_iff)
  then show "ring_window CONSOLE_BUF con_slot (\<lambda>_. True)"
    using slot_window [of CONSOLE_BUF] by (simp add: CONSOLE_BUF_def dvd_def)
qed

interpretation ua: ring_window UART_BUF ua_slot "\<lambda>_. True"
proof -
  have "ua_slot = (\<lambda>c. unat c mod UART_BUF)" by (simp add: ua_slot_def fun_eq_iff)
  then show "ring_window UART_BUF ua_slot (\<lambda>_. True)"
    using slot_window [of UART_BUF] by (simp add: UART_BUF_def dvd_def)
qed

definition committed :: "console \<Rightarrow> u8 list" where
  "committed con = ring_contents con_slot (con_buf con) (con_ri con) (con_wi con)"

definition editing :: "console \<Rightarrow> u8 list" where
  "editing con = ring_contents con_slot (con_buf con) (con_wi con) (con_ei con)"

definition con_inv :: "console \<Rightarrow> bool" where
  "con_inv con \<longleftrightarrow>
     length (con_buf con) = CONSOLE_BUF \<and>
     unat (con_wi con - con_ri con) + unat (con_ei con - con_wi con) \<le> CONSOLE_BUF \<and>
     CTRL_LF \<notin> set (editing con)"

definition uart_queue :: "uart \<Rightarrow> u8 list" where
  "uart_queue u = ring_contents ua_slot (ua_buf u) (ua_ri u) (ua_wi u)"

definition uart_inv :: "uart \<Rightarrow> bool" where
  "uart_inv u \<longleftrightarrow> length (ua_buf u) = UART_BUF \<and> unat (ua_wi u - ua_ri u) \<le> UART_BUF"

lemma con_pending:
  assumes "con_inv con"
  shows "unat (con_ei con - con_ri con) = length (committed con) + length (editing con)"
proof -
  have "con_ei con - con_ri con = (con_wi con - con_ri con) + (con_ei con - con_wi con)" by simp
  moreover have "unat (con_wi con - con_ri con) + unat (con_ei con - con_wi con) < 2 ^ 64"
    using assms by (simp add: con_inv_def CONSOLE_BUF_def)
  ultimately show ?thesis
    using unat_plus_no_overflow [of "con_wi con - con_ri con" "con_ei con - con_wi con"]
    by (simp add: committed_def editing_def)
qed

text \<open>Erasing the last character of the line being edited.\<close>

lemma con_erase:
  fixes con :: console
  assumes "con_inv con" and "con_ei con \<noteq> con_wi con"
  defines "con' \<equiv> con\<lparr>con_ei := con_ei con - 1\<rparr>"
  shows "editing con = editing con' @ [con_buf con ! con_slot (con_ei con - 1)]"
    and "committed con' = committed con" and "con_inv con'"
proof -
  show e: "editing con = editing con' @ [con_buf con ! con_slot (con_ei con - 1)]"
    using ring_contents_snoc [of "con_wi con" "con_ei con"] assms(2)
    by (auto simp: editing_def con'_def)
  show "committed con' = committed con" by (simp add: committed_def con'_def)
  have "length (editing con') < length (editing con)" by (simp add: e)
  then show "con_inv con'"
    using assms(1) e by (auto simp: con_inv_def editing_def con'_def)
qed

lemma kill_line_spec:
  assumes "con_inv con"
  shows "con_inv (fst (kill_line con out)) \<and> editing (fst (kill_line con out)) = [] \<and>
         committed (fst (kill_line con out)) = committed con"
  using assms
proof (induction con out rule: kill_line.induct)
  case (1 con out)
  show ?case
  proof (cases "con_ei con = con_wi con")
    case True
    then show ?thesis using 1 by (simp add: kill_line.simps [of con out] editing_def)
  next
    case False
    note e = con_erase [OF "1.prems" False]
    have "con_buf con ! con_slot (con_ei con - 1) \<noteq> CTRL_LF"
      using "1.prems" e(1) by (auto simp: con_inv_def)
    then show ?thesis
      using False "1.IH" e by (simp add: kill_line.simps [of con out])
  qed
qed

text \<open>Storing a character at the end of the line being edited.\<close>

lemma con_store:
  fixes con :: console and c :: u8
  assumes "con_inv con" and "unat (con_ei con - con_ri con) < CONSOLE_BUF"
  defines "con' \<equiv> con\<lparr>con_buf := (con_buf con)[con_slot (con_ei con) := c], con_ei := con_ei con + 1\<rparr>"
  shows "committed con' = committed con" and "editing con' = editing con @ [c]"
    and "length (con_buf con') = CONSOLE_BUF"
    and "unat (con_ei con' - con_ri con') = Suc (length (committed con) + length (editing con))"
    and "unat (con_wi con' - con_ri con') + unat (con_ei con' - con_wi con') \<le> CONSOLE_BUF"
proof -
  note p = con_pending [OF assms(1)]
  have l: "length (con_buf con) = CONSOLE_BUF" using assms(1) by (simp add: con_inv_def)
  have lt: "unat (con_ei con - con_wi con) < CONSOLE_BUF"
    using p assms(2) by (simp add: editing_def)
  have "unat (con_wi con - con_ri con) \<le> unat (con_ei con - con_ri con)"
    using p by (simp add: committed_def)
  then show "committed con' = committed con"
    using con.store_outside [OF TrueI assms(2)] by (simp add: committed_def con'_def)
  show "editing con' = editing con @ [c]"
    using con.store_appends [OF TrueI lt l] by (simp add: editing_def con'_def)
  show "length (con_buf con') = CONSOLE_BUF" using l by (simp add: con'_def)
  show "unat (con_ei con' - con_ri con') = Suc (length (committed con) + length (editing con))"
    using con.store_full_window [OF assms(2)] p by (simp add: con'_def)
  show "unat (con_wi con' - con_ri con') + unat (con_ei con' - con_wi con') \<le> CONSOLE_BUF"
    using con.store_full_window [OF lt] p assms(2)
    by (simp add: con'_def committed_def editing_def)
qed

text \<open>Publishing the edited line.\<close>

lemma con_commit:
  fixes con :: console
  assumes "unat (con_wi con - con_ri con) + unat (con_ei con - con_wi con) \<le> CONSOLE_BUF"
    and "length (con_buf con) = CONSOLE_BUF"
  defines "con' \<equiv> con\<lparr>con_wi := con_ei con\<rparr>"
  shows "committed con' = committed con @ editing con" and "editing con' = []" and "con_inv con'"
proof -
  have s: "unat (con_wi con - con_ri con) + unat (con_ei con - con_wi con) < 2 ^ LENGTH(64)"
    using assms(1) by (simp add: CONSOLE_BUF_def)
  show c: "committed con' = committed con @ editing con"
    using ring_contents_append [OF s] by (simp add: committed_def editing_def con'_def)
  show e: "editing con' = []" by (simp add: editing_def con'_def)
  have "length (committed con') = length (committed con) + length (editing con)" by (simp add: c)
  then show "con_inv con'"
    using assms(1,2) e by (simp add: con_inv_def committed_def editing_def con'_def)
qed

section \<open>What the line discipline promises\<close>

text \<open>
  The abstract line discipline on the pair of published text and edited line. \<open>None\<close> is
  a panic.
\<close>

definition line_discipline :: "u8 \<Rightarrow> u8 list \<times> u8 list \<Rightarrow> (u8 list \<times> u8 list) option" where
  "line_discipline c = (\<lambda>(com, ed).
     if c = CTRL_PRINT_PROCESS then None
     else if c = CTRL_BS_LINE then Some (com, [])
     else if c = CTRL_BS \<or> c = CTRL_DEL then Some (com, butlast ed)
     else if c = 0 \<or> length com + length ed \<ge> 128 then Some (com, ed)
     else let c' = (if c = CTRL_CR then CTRL_LF else c)
          in if c' = CTRL_LF \<or> c' = CTRL_EOT \<or> length com + length ed = 127
             then Some (com @ ed @ [c'], []) else Some (com, ed @ [c']))"

definition con_abs :: "console \<Rightarrow> u8 list \<times> u8 list" where
  "con_abs con = (committed con, editing con)"

lemma con_init_abs: "con_inv console_init" "con_abs console_init = ([], [])"
  by (simp_all add: con_inv_def con_abs_def committed_def editing_def console_init_def CONSOLE_BUF_def)

lemma console_intr_store:
  assumes "con_inv con" and "c \<noteq> 0" and "unat (con_ei con - con_ri con) < CONSOLE_BUF"
    and "c \<notin> {CTRL_PRINT_PROCESS, CTRL_BS_LINE, CTRL_BS, CTRL_DEL}"
  shows "\<exists>con' out wake. console_intr c con = Done (con', out, wake) \<and> con_inv con' \<and>
           line_discipline c (con_abs con) = Some (con_abs con')"
proof -
  let ?c = "if c = CTRL_CR then CTRL_LF else c"
  let ?con = "con\<lparr>con_buf := (con_buf con)[con_slot (con_ei con) := ?c], con_ei := con_ei con + 1\<rparr>"
  note st = con_store [OF assms(1,3), of ?c]
  have len: "length (committed con) + length (editing con) < 128"
    using con_pending [OF assms(1)] assms(3) by (simp add: CONSOLE_BUF_def)
  show ?thesis
  proof (cases "?c = CTRL_LF \<or> ?c = CTRL_EOT \<or> unat (con_ei ?con - con_ri ?con) = CONSOLE_BUF")
    case True
    note cm = con_commit [OF st(5,3)]
    have "console_intr c con = Done (?con\<lparr>con_wi := con_ei ?con\<rparr>, console_putc ?c, True)"
      using True assms by (auto simp: console_intr_def Let_def)
    moreover have "line_discipline c (con_abs con) = Some (con_abs (?con\<lparr>con_wi := con_ei ?con\<rparr>))"
      using True assms len st(4) cm(1,2) st(1,2)
      by (auto simp: line_discipline_def con_abs_def Let_def CONSOLE_BUF_def)
    ultimately show ?thesis using cm(3) by blast
  next
    case False
    have "console_intr c con = Done (?con, console_putc ?c, False)"
      using False assms by (auto simp: console_intr_def Let_def)
    moreover have "line_discipline c (con_abs con) = Some (con_abs ?con)"
      using False assms len st(1,2,4)
      by (auto simp: line_discipline_def con_abs_def Let_def CONSOLE_BUF_def)
    moreover have "con_inv ?con"
      using False assms(1) st(2,3,5) by (auto simp: con_inv_def)
    ultimately show ?thesis by blast
  qed
qed


lemma console_intr_step:
  assumes "con_inv con"
  shows "case console_intr c con of
           Done (con', out, wake) \<Rightarrow>
             con_inv con' \<and> line_discipline c (con_abs con) = Some (con_abs con')
         | Panicked _ \<Rightarrow> line_discipline c (con_abs con) = None"
proof -
  consider (ctl) "c \<in> {CTRL_PRINT_PROCESS, CTRL_BS_LINE}"
    | (erase) "c \<in> {CTRL_BS, CTRL_DEL}" "c \<notin> {CTRL_PRINT_PROCESS, CTRL_BS_LINE}"
    | (full) "c \<notin> {CTRL_PRINT_PROCESS, CTRL_BS_LINE, CTRL_BS, CTRL_DEL}"
        "c = 0 \<or> \<not> unat (con_ei con - con_ri con) < CONSOLE_BUF"
    | (store) "c \<notin> {CTRL_PRINT_PROCESS, CTRL_BS_LINE, CTRL_BS, CTRL_DEL}"
        "c \<noteq> 0" "unat (con_ei con - con_ri con) < CONSOLE_BUF"
    by blast
  then show ?thesis
  proof cases
    case ctl
    have "CTRL_BS_LINE \<noteq> CTRL_PRINT_PROCESS" by (simp add: ctrl_defs)
    then have "console_intr CTRL_BS_LINE con =
        (let (con', out) = kill_line con [] in Done (con', out, False))"
      "line_discipline CTRL_BS_LINE (con_abs con) = Some (committed con, [])"
      by (simp_all add: console_intr_def line_discipline_def con_abs_def)
    moreover have "console_intr CTRL_PRINT_PROCESS con =
        Panicked ''not yet implemented: print process list to debug''"
      "line_discipline CTRL_PRINT_PROCESS (con_abs con) = None"
      by (simp_all add: console_intr_def line_discipline_def con_abs_def)
    ultimately show ?thesis
      using ctl kill_line_spec [OF assms, of "[]"]
      by (cases "kill_line con []") (auto simp: con_abs_def)
  next
    case erase
    then have i: "console_intr c con =
        (if con_ei con \<noteq> con_wi con
         then Done (con\<lparr>con_ei := con_ei con - 1\<rparr>, console_putc CTRL_BS, False)
         else Done (con, [], False))"
      and l: "line_discipline c (con_abs con) = Some (committed con, butlast (editing con))"
      by (simp_all add: console_intr_def line_discipline_def con_abs_def)
    show ?thesis
    proof (cases "con_ei con = con_wi con")
      case True
      then show ?thesis unfolding i l using assms by (simp add: con_abs_def editing_def)
    next
      case False
      show ?thesis unfolding i l using False con_erase [OF assms False] by (simp add: con_abs_def)
    qed
  next
    case full
    have "\<not> (c \<noteq> 0 \<and> unat (con_ei con - con_ri con) < CONSOLE_BUF)" using full(2) by simp
    then have "console_intr c con = Done (con, [], False)"
      unfolding console_intr_def using full(1)
      by (simp only: if_not_P insert_iff empty_iff if_False de_Morgan_disj simp_thms)
    moreover have "c = 0 \<or> 128 \<le> length (committed con) + length (editing con)"
      using full(2) con_pending [OF assms] by (auto simp: CONSOLE_BUF_def)
    then have "line_discipline c (con_abs con) = Some (con_abs con)"
      using full(1) by (simp add: line_discipline_def con_abs_def)
    ultimately show ?thesis using assms by simp
  next
    case store
    then show ?thesis using console_intr_store [OF assms store(2,3,1)] by auto
  qed
qed

fun discipline_run :: "u8 list \<Rightarrow> u8 list \<times> u8 list \<Rightarrow> (u8 list \<times> u8 list) option" where
  "discipline_run [] s = Some s"
| "discipline_run (c # cs) s = Option.bind (line_discipline c s) (discipline_run cs)"

text \<open>
  C6 (console input): for every sequence of received bytes, the interrupt handler either
  ends in a console whose published text and edited line are those the abstract line
  discipline computes (end-of-line and end-of-file publish the line, backspace and
  kill-line edit only the unpublished part, a full buffer drops input), or both stop at a
  Control-P.
\<close>

theorem console_input_refines:
  assumes "con_inv con"
  shows "case feed_console cs con of
           Done (con', echo) \<Rightarrow>
             con_inv con' \<and> discipline_run cs (con_abs con) = Some (con_abs con')
         | Panicked _ \<Rightarrow> discipline_run cs (con_abs con) = None"
  using assms
proof (induction cs arbitrary: con)
  case Nil
  then show ?case by simp
next
  case (Cons c cs)
  show ?case
  proof (cases "console_intr c con")
    case (Panicked s)
    then show ?thesis using console_intr_step [OF Cons.prems, of c] by (simp add: kres_simps)
  next
    case (Done r)
    obtain con1 out wake where r: "r = (con1, out, wake)" by (cases r)
    have inv: "con_inv con1" and ld: "line_discipline c (con_abs con) = Some (con_abs con1)"
      using console_intr_step [OF Cons.prems, of c] by (simp_all add: Done r)
    show ?thesis
      using Cons.IH [OF inv] by (cases "feed_console cs con1") (auto simp: Done r ld kres_simps)
  qed
qed

theorem console_input_refines_witness:
  "con_inv console_init \<and>
   (case feed_console [0x61, 0x62, 0x08, 0x0D, 0x63] console_init of
      Done (con', echo) \<Rightarrow> con_inv con' \<and> con_abs con' = ([0x61, 0x0A], [0x63])
    | Panicked _ \<Rightarrow> False)"
  using console_input_refines [OF con_init_abs(1), of "[0x61, 0x62, 0x08, 0x0D, 0x63]"]
  by (auto simp: con_init_abs line_discipline_def ctrl_defs split: kres.splits)

section \<open>What readers get\<close>

text \<open>Reading from the published text alone: the outcome, the bytes delivered, the rest.\<close>

fun read_line :: "bool \<Rightarrow> nat \<Rightarrow> nat \<Rightarrow> u8 list \<Rightarrow> con_outcome \<times> u8 list \<times> u8 list" where
  "read_line killed tot 0 com = (ConReturn (Some tot), [], com)"
| "read_line killed tot (Suc n) [] = (if killed then ConReturn None else ConSleep, [], [])"
| "read_line killed tot (Suc n) (c # com) =
     (if c = CTRL_EOT
      then (ConReturn (Some (tot - Suc n)), [], if Suc n < tot then c # com else com)
      else if c = CTRL_LF then (ConReturn (Some (tot - n)), [c], com)
      else let (r, bs, com') = read_line killed tot n com in (r, c # bs, com'))"

lemma con_fetch:
  assumes "con_inv con" and "con_ri con \<noteq> con_wi con"
  shows "committed con = con_buf con ! con_slot (con_ri con) # committed (con\<lparr>con_ri := con_ri con + 1\<rparr>)"
    and "con_inv (con\<lparr>con_ri := con_ri con + 1\<rparr>)"
    and "editing (con\<lparr>con_ri := con_ri con + 1\<rparr>) = editing con"
  using assms con.fetch_head [OF assms(2), of "con_buf con"] unat_pred_diff [OF assms(2)]
  by (auto simp: committed_def editing_def con_inv_def)

lemma console_read_log_Suc:
  assumes "con_ri con \<noteq> con_wi con"
  shows "console_read log_out killed tot dst (Suc n) con m =
     (let c = con_buf con ! con_slot (con_ri con); con1 = con\<lparr>con_ri := con_ri con + 1\<rparr>
      in if c = CTRL_EOT
         then Done (ConReturn (Some (tot - Suc n)), dst, Suc n, if Suc n < tot then con else con1, m)
         else kbind (usize_add dst 1) (\<lambda>dst'.
           if c = CTRL_LF
           then Done (ConReturn (Some (tot - n)), dst', n, con1, m @ [(dst, c)])
           else console_read log_out killed tot dst' n con1 (m @ [(dst, c)])))"
  using assms by (simp add: Let_def log_out_def)

text \<open>
  C16 (console read): a read delivers exactly the published bytes up to and including the
  first end of line, or as many as asked for, to consecutive addresses; an end-of-file
  mark ends the read and is kept for the next one when bytes were delivered before it; a
  reader that finds no published text sleeps or, when killed, fails. The line being
  edited is never touched.
\<close>

theorem console_read_correct:
  assumes "con_inv con" and "unat dst + n < 2 ^ 64" and "read_line killed tot n (committed con) = (r, bs, rest)"
  shows "\<exists>con'. console_read log_out killed tot dst n con m =
           Done (r, dst + of_nat (length bs), n - length bs, con',
                 m @ zip (map (\<lambda>k. dst + of_nat k) [0..<length bs]) bs) \<and>
         con_inv con' \<and> committed con' = rest \<and> editing con' = editing con"
  using assms
proof (induction n arbitrary: con dst m r bs rest)
  case 0
  then show ?case by (cases "committed con") auto
next
  case (Suc n)
  show ?case
  proof (cases "con_ri con = con_wi con")
    case True
    then show ?thesis using Suc.prems by (auto simp: committed_def)
  next
    case False
    let ?c = "con_buf con ! con_slot (con_ri con)" and ?con = "con\<lparr>con_ri := con_ri con + 1\<rparr>"
    note f = con_fetch [OF Suc.prems(1) False]
    have dst: "usize_add dst 1 = Done (dst + 1)" "unat (dst + 1) = unat dst + 1"
      using Suc.prems(2) by (simp_all add: usize_add_def unat_plus_no_overflow)
    show ?thesis
    proof (cases "?c = CTRL_EOT \<or> ?c = CTRL_LF")
      case True
      then show ?thesis
        using False Suc.prems f dst
        by (auto simp: console_read_log_Suc kres_simps ctrl_defs simp del: console_read.simps
            split: if_splits)
    next
      case cont: False
      obtain bs' where bs: "bs = ?c # bs'" "read_line killed tot n (committed ?con) = (r, bs', rest)"
        using Suc.prems(3) cont unfolding f(1) by (auto split: prod.splits)
      have "unat (dst + 1) + n < 2 ^ 64" using Suc.prems(2) dst(2) by simp
      from Suc.IH [OF f(2) this bs(2), of "m @ [(dst, ?c)]"] obtain con' where
        ih: "console_read log_out killed tot (dst + 1) n ?con (m @ [(dst, ?c)]) =
               Done (r, dst + 1 + of_nat (length bs'), n - length bs', con',
                 (m @ [(dst, ?c)]) @ zip (map (\<lambda>k. dst + 1 + of_nat k) [0..<length bs']) bs')"
        "con_inv con'" "committed con' = rest" "editing con' = editing ?con" by blast
      have z: "zip (map (\<lambda>k. dst + of_nat k) [0..<length bs]) bs =
                 (dst, ?c) # zip (map (\<lambda>k. dst + 1 + of_nat k) [0..<length bs']) bs'"
        by (simp add: bs(1) upt_conv_Cons map_upt_shift comp_def algebra_simps del: upt_Suc)
      show ?thesis
        using ih False cont f(3)
        by (simp add: console_read_log_Suc z dst(1) kres_simps del: console_read.simps)
          (simp add: bs(1) algebra_simps)
    qed
  qed
qed

theorem console_read_correct_witness:
  "let con = console_init\<lparr>con_buf := [0x68, 0x0A, 0x69] @ replicate 125 0, con_wi := 3, con_ei := 3\<rparr>
   in con_inv con \<and>
      (\<exists>con'. console_read log_out False 10 0x1000 10 con [] =
         Done (ConReturn (Some 2), 0x1002, 8, con', [(0x1000, 0x68), (0x1001, 0x0A)]) \<and>
         committed con' = [0x69])"
proof -
  let ?con = "console_init\<lparr>con_buf := [0x68, 0x0A, 0x69] @ replicate 125 0, con_wi := 3, con_ei := 3\<rparr>"
  have "[0..<3] = [0, 1, 2 :: nat]" by (simp add: upt_rec)
  then have "committed ?con = [0x68, 0x0A, 0x69]"
    by (simp add: committed_def ring_contents_def console_init_def con_slot_def CONSOLE_BUF_def)
  moreover have "con_inv ?con"
    by (simp add: con_inv_def editing_def console_init_def CONSOLE_BUF_def)
  moreover have "read_line False 10 (Suc (Suc n)) [0x68, 0x0A, 0x69] =
      (ConReturn (Some (10 - n)), [0x68, 0x0A], [0x69])" for n
    by (simp add: ctrl_defs)
  from this [of 8] have "read_line False 10 10 [0x68, 0x0A, 0x69] =
      (ConReturn (Some 2), [0x68, 0x0A], [0x69])" by simp
  ultimately show ?thesis
    using console_read_correct
      [of ?con "0x1000" 10 False 10 "ConReturn (Some 2)" "[0x68, 0x0A]" "[0x69]" "[]"]
    by (simp add: Let_def del: read_line.simps console_read.simps) blast
qed

section \<open>The transmit queue\<close>

lemma uart_transmit_queue:
  assumes "uart_inv u"
  shows "uart_inv (fst (uart_transmit idle u)) \<and>
         snd (uart_transmit idle u) = take idle (uart_queue u) \<and>
         uart_queue (fst (uart_transmit idle u)) = drop idle (uart_queue u)"
  using assms
proof (induction idle arbitrary: u)
  case 0
  then show ?case by simp
next
  case (Suc idle)
  let ?u = "u\<lparr>ua_ri := ua_ri u + 1\<rparr>"
  show ?case
  proof (cases "ua_wi u = ua_ri u")
    case True
    then show ?thesis using Suc.prems by (simp add: uart_queue_def)
  next
    case False
    then have q: "uart_queue u = ua_buf u ! ua_slot (ua_ri u) # uart_queue ?u"
      using ua.fetch_head [of "ua_ri u" "ua_wi u" "ua_buf u"] by (auto simp: uart_queue_def)
    have "uart_inv ?u"
      using Suc.prems False unat_pred_diff [of "ua_ri u" "ua_wi u"] by (auto simp: uart_inv_def)
    from Suc.IH [OF this] show ?thesis
      using False by (cases "uart_transmit idle ?u") (simp add: q Let_def)
  qed
qed

text \<open>
  UART output: the transmit buffer is a queue of at most 32 bytes. A full queue
  makes the writer sleep and nothing is lost; otherwise the byte is queued last and the
  transmitter takes bytes from the front in order, as many as it reports itself idle for.
\<close>

lemma uart_putc_fifo:
  assumes "uart_inv u"
  shows "case uart_putc False idle c u of (res, u', out) \<Rightarrow>
           uart_inv u' \<and>
           (if length (uart_queue u) = UART_BUF then res = UartSleep \<and> u' = u \<and> out = []
            else res = UartDone \<and> out = take idle (uart_queue u @ [c]) \<and>
                 uart_queue u' = drop idle (uart_queue u @ [c]))"
proof (cases "ua_wi u = ua_ri u + of_nat UART_BUF")
  case True
  then show ?thesis using assms by (simp add: uart_putc_def uart_queue_def UART_BUF_def)
next
  case False
  have "unat (ua_wi u - ua_ri u) \<noteq> UART_BUF"
  proof
    assume "unat (ua_wi u - ua_ri u) = UART_BUF"
    then have "ua_wi u - ua_ri u = of_nat UART_BUF" by (metis of_nat_unat ucast_id)
    then show False using False by (simp add: algebra_simps)
  qed
  then have lt: "unat (ua_wi u - ua_ri u) < UART_BUF" using assms by (simp add: uart_inv_def)
  let ?u = "u\<lparr>ua_buf := (ua_buf u)[ua_slot (ua_wi u) := c], ua_wi := ua_wi u + 1\<rparr>"
  have l: "length (ua_buf u) = UART_BUF" using assms by (simp add: uart_inv_def)
  have q: "uart_queue ?u = uart_queue u @ [c]"
    using ua.store_appends [OF TrueI lt l] by (simp add: uart_queue_def)
  have "uart_inv ?u"
    using assms ua.store_full_window [OF lt] by (simp add: uart_inv_def)
  from uart_transmit_queue [OF this, of idle] show ?thesis
    using False lt
    by (cases "uart_transmit idle ?u") (simp add: uart_putc_def q uart_queue_def [of u])
qed

text \<open>
  C17 (console output): a write to the console queues the user's bytes in order: what was sent to the terminal during
  the call followed by what is still queued is the old queue followed by the bytes accepted. It
  sleeps only when the queue holds 32 bytes, and then goes on with the first byte that is not accepted; it returns the number of
  bytes that could be read from the user, all of which are accepted.
\<close>

theorem console_write_correct:
  assumes "uart_inv u" and "\<And>k. k < length data \<Longrightarrow> cin (src + of_nat k) = Done (Some (data ! k))"
    and "length data < left \<Longrightarrow> cin (src + of_nat (length data)) = Done None" and "length data \<le> left"
    and "unat src + length data < 2 ^ 64" and "c = None \<or> data \<noteq> [] \<and> c = Some (data ! 0)"
  shows "\<exists>r u' out n. console_write cin False idle src i left c u = Done (r, u', out) \<and> n \<le> length data \<and>
    uart_inv u' \<and> out @ uart_queue u' = uart_queue u @ take n data \<and>
    (r = WriteReturn (i + length data) \<and> n = length data \<or>
     n < length data \<and> r = WriteSleep (i + n) (data ! n) \<and> length (uart_queue u') = UART_BUF)"
  using assms
proof (induction left arbitrary: data src i c u)
  case 0
  then show ?case by simp
next
  case (Suc left)
  show ?case
  proof (cases data)
    case Nil
    then show ?thesis using Suc.prems by auto
  next
    case (Cons x xs)
    have x: "(case c of None \<Rightarrow> cin src | Some c0 \<Rightarrow> Done (Some c0)) = Done (Some x)"
      using Suc.prems(2) [of 0] Suc.prems(6) Cons by (cases c) auto
    obtain res u1 out1 where p: "uart_putc False (idle i) x u = (res, u1, out1)" by (metis prod_cases3)
    note f = uart_putc_fifo [OF Suc.prems(1), of "idle i" x, unfolded p split_conv]
    show ?thesis
    proof (cases "length (uart_queue u) = UART_BUF")
      case True
      then show ?thesis using f Suc.prems(1) Cons by (simp add: x p)
    next
      case False
      then have "res = UartDone" "uart_inv u1" "out1 = take (idle i) (uart_queue u @ [x])" "uart_queue u1 = drop (idle i) (uart_queue u @ [x])"
        using f by (simp_all only: if_False)
      then have r: "res = UartDone" "uart_inv u1" "out1 @ uart_queue u1 = uart_queue u @ [x]" by (simp_all only: append_take_drop_id)
      have a: "usize_add src 1 = Done (src + 1)" "unat (src + 1) = unat src + 1"
        using Suc.prems(5) Cons by (simp_all add: usize_add_def unat_word_ariths)
      have "cin (src + 1 + of_nat k) = Done (Some (xs ! k))" if "k < length xs" for k
        using Suc.prems(2) [of "Suc k"] that Cons by (simp add: add.assoc)
      moreover have "cin (src + 1 + of_nat (length xs)) = Done None" if "length xs < left"
        using Suc.prems(3) that Cons by (simp add: add.assoc)
      moreover have "length xs \<le> left" "unat (src + 1) + length xs < 2 ^ 64" using Suc.prems(4,5) Cons by (simp_all add: a(2))
      ultimately obtain r2 u2 out2 n where w: "console_write cin False idle (src + 1) (Suc i) left None u1 = Done (r2, u2, out2)"
        "n \<le> length xs" "uart_inv u2" "out2 @ uart_queue u2 = uart_queue u1 @ take n xs"
        "r2 = WriteReturn (Suc i + length xs) \<and> n = length xs \<or>
         n < length xs \<and> r2 = WriteSleep (Suc i + n) (xs ! n) \<and> length (uart_queue u2) = UART_BUF"
        using Suc.IH [of u1 xs "src + 1" None "Suc i"] r(2) by auto
      have "(out1 @ out2) @ uart_queue u2 = uart_queue u @ take (Suc n) data" using arg_cong [OF r(3), of "\<lambda>l. l @ take n xs"] w(4) Cons by simp
      then show ?thesis
        using w Cons by (intro exI [of _ r2] exI [of _ u2] exI [of _ "out1 @ out2"] exI [of _ "Suc n"]) (auto simp: x p r(1) a(1))
    qed
  qed
qed

theorem console_write_correct_witness:
  "\<exists>r u' out n. console_write (\<lambda>a. Done (if a < 40 then Some 65 else None)) False (\<lambda>_. 0) 0 0 50 None uart_init_state = Done (r, u', out) \<and>
     n \<le> 40 \<and> out @ uart_queue u' = replicate n 65 \<and>
     (r = WriteReturn 40 \<or> r = WriteSleep n 65 \<and> length (uart_queue u') = UART_BUF)"
proof -
  have "uart_inv uart_init_state" "uart_queue uart_init_state = []"
    by (simp_all add: uart_inv_def uart_queue_def uart_init_state_def)
  moreover have "(of_nat k :: usize) < 40" if "k < 40" for k using that by (simp add: word_less_nat_alt unat_of_nat)
  ultimately show ?thesis
    using console_write_correct [of uart_init_state "replicate 40 65" "\<lambda>a. Done (if a < 40 then Some 65 else None)" 0 50 None "\<lambda>_. 0" 0]
    by (auto simp: min_def)
qed

end
