(* ===== verification/Buddy.thy ===== *)
theory Buddy
  imports Prelude
begin

text \<open>
  The kernel heap: the buddy allocator of \<^verbatim>\<open>kernel/src/mm/kalloc.rs\<close>. Addresses and sizes
  are natural numbers (the heap lies far below \<open>2 ^ 64\<close>). A free list is the list of the
  block addresses it links, newest first; the theory \<open>FreeList\<close> shows that the linked
  nodes of \<^verbatim>\<open>list.rs\<close> implement these operations. The bitmaps are byte arrays as in the
  code. Reading and setting a bit of a byte is done by the crate \<^verbatim>\<open>bit_field\<close>, which is a
  parameter here, with its documented law \<open>bit_laws\<close>. The unchecked array accesses and
  the unlinking of a node are guarded in the model: leaving the array, or unlinking a
  block that is in no list, is the outcome \<open>Panicked ub\<close>, which the theorems exclude.
\<close>

section \<open>Sizes\<close>

definition LEAF_SIZE :: nat where "LEAF_SIZE = 16"

definition PAGE_BYTES :: nat where "PAGE_BYTES = 4096"

definition blk_size :: "nat \<Rightarrow> nat" where
  "blk_size k = 2 ^ k * LEAF_SIZE"

definition round_up :: "nat \<Rightarrow> nat \<Rightarrow> nat kres" where
  "round_up n sz = (if n = 0 then Panicked ''attempt to subtract with overflow''
                      else Done (((n - 1) div sz + 1) * sz))"

definition round_down :: "nat \<Rightarrow> nat \<Rightarrow> nat" where
  "round_down n sz = n div sz * sz"

fun log2 :: "nat \<Rightarrow> nat" where
  "log2 n = (if n > 1 then Suc (log2 (n div 2)) else 0)"

declare log2.simps [simp del]

text \<open>The library functions \<^verbatim>\<open>next_power_of_two\<close> and \<^verbatim>\<open>trailing_zeros\<close> of \<^verbatim>\<open>usize\<close>.\<close>

definition next_power_of_two :: "nat \<Rightarrow> nat" where
  "next_power_of_two n = (if n \<le> 1 then 1 else 2 ^ Suc (log2 (n - 1)))"

fun trailing_zeros :: "nat \<Rightarrow> nat" where
  "trailing_zeros n = (if n = 0 then 64 else if odd n then 0 else Suc (trailing_zeros (n div 2)))"

declare trailing_zeros.simps [simp del]

section \<open>State\<close>

record bit_field =
  get_bit :: "u8 \<Rightarrow> nat \<Rightarrow> bool"
  set_bit_to :: "u8 \<Rightarrow> nat \<Rightarrow> bool \<Rightarrow> u8"

record layout =
  lay_size :: nat
  lay_align :: nat

record buddy_info =
  bi_free :: "nat list"
  bi_alloc :: "u8 list"
  bi_split :: "u8 list"

record buddy_system =
  bs_base :: nat
  bs_actual_end :: nat
  bs_nsizes :: nat
  bs_initialized :: bool
  bs_infos :: "buddy_info list"

definition buddy_uninit :: buddy_system where
  "buddy_uninit = \<lparr>bs_base = 0, bs_actual_end = 0, bs_nsizes = 0, bs_initialized = False, bs_infos = []\<rparr>"

definition ub :: string where "ub = ''undefined behaviour''"

definition max_size :: "buddy_system \<Rightarrow> nat" where
  "max_size b = bs_nsizes b - 1"

definition n_blk :: "buddy_system \<Rightarrow> nat \<Rightarrow> nat" where
  "n_blk b k = 2 ^ (max_size b - k)"

definition blk_index :: "buddy_system \<Rightarrow> nat \<Rightarrow> nat \<Rightarrow> nat" where
  "blk_index b k addr = (addr - bs_base b) div blk_size k"

definition blk_index_next :: "buddy_system \<Rightarrow> nat \<Rightarrow> nat \<Rightarrow> nat" where
  "blk_index_next b k addr =
     (let i = (addr - bs_base b) div blk_size k
      in if (addr - bs_base b) mod blk_size k > 0 then i + 1 else i)"

definition blk_addr :: "buddy_system \<Rightarrow> nat \<Rightarrow> nat \<Rightarrow> nat" where
  "blk_addr b k bi = bs_base b + bi * blk_size k"

section \<open>Bitmaps and lists of one size\<close>

definition byte_get :: "bit_field \<Rightarrow> u8 list \<Rightarrow> nat \<Rightarrow> bool kres" where
  "byte_get bf bytes index =
     (let i1 = index div 8; i2 = index mod 8
      in if i1 < length bytes then Done (get_bit bf (bytes ! i1) i2) else Panicked ub)"

definition byte_set :: "bit_field \<Rightarrow> u8 list \<Rightarrow> nat \<Rightarrow> bool \<Rightarrow> u8 list kres" where
  "byte_set bf bytes index v =
     (let i1 = index div 8; i2 = index mod 8
      in if i1 < length bytes then Done (bytes[i1 := set_bit_to bf (bytes ! i1) i2 v]) else Panicked ub)"

definition alloc_set :: "bit_field \<Rightarrow> nat \<Rightarrow> bool \<Rightarrow> buddy_info \<Rightarrow> buddy_info kres" where
  "alloc_set bf index v info =
     kbind (byte_set bf (bi_alloc info) index v) (\<lambda>bs. Done (info\<lparr>bi_alloc := bs\<rparr>))"

definition split_set :: "bit_field \<Rightarrow> nat \<Rightarrow> bool \<Rightarrow> buddy_info \<Rightarrow> buddy_info kres" where
  "split_set bf index v info =
     kbind (byte_set bf (bi_split info) index v) (\<lambda>bs. Done (info\<lparr>bi_split := bs\<rparr>))"

definition is_alloc_set :: "bit_field \<Rightarrow> nat \<Rightarrow> buddy_info \<Rightarrow> bool kres" where
  "is_alloc_set bf index info = byte_get bf (bi_alloc info) index"

definition is_split_set :: "bit_field \<Rightarrow> nat \<Rightarrow> buddy_info \<Rightarrow> bool kres" where
  "is_split_set bf index info = byte_get bf (bi_split info) index"

definition free_push :: "nat \<Rightarrow> buddy_info \<Rightarrow> buddy_info kres" where
  "free_push addr info = Done (info\<lparr>bi_free := addr # bi_free info\<rparr>)"

definition free_unlink :: "nat \<Rightarrow> buddy_info \<Rightarrow> buddy_info kres" where
  "free_unlink addr info =
     (if addr \<in> set (bi_free info) then Done (info\<lparr>bi_free := remove1 addr (bi_free info)\<rparr>)
      else Panicked ub)"

text \<open>\<^verbatim>\<open>get_info_mut\<close>, to read a size's record and to change it in place.\<close>

definition get_info :: "buddy_system \<Rightarrow> nat \<Rightarrow> buddy_info kres" where
  "get_info b k = (if k < length (bs_infos b) then Done (bs_infos b ! k) else Panicked ub)"

definition at_info :: "buddy_system \<Rightarrow> nat \<Rightarrow> (buddy_info \<Rightarrow> buddy_info kres) \<Rightarrow> buddy_system kres" where
  "at_info b k f =
     kbind (get_info b k) (\<lambda>info. kbind (f info) (\<lambda>info'.
       Done (b\<lparr>bs_infos := (bs_infos b)[k := info']\<rparr>)))"

section \<open>Allocation\<close>

function find_size :: "buddy_system \<Rightarrow> nat \<Rightarrow> nat kres" where
  "find_size b sizei =
     (if sizei < bs_nsizes b
      then kbind (get_info b sizei) (\<lambda>info.
        if bi_free info \<noteq> [] then Done sizei else find_size b (sizei + 1))
      else Done sizei)"
  by pat_completeness auto
termination by (relation "measure (\<lambda>(b, sizei). bs_nsizes b - sizei)") auto

declare find_size.simps [simp del]

fun split_down :: "bit_field \<Rightarrow> nat \<Rightarrow> nat \<Rightarrow> nat \<Rightarrow> buddy_system \<Rightarrow> buddy_system kres" where
  "split_down bf smalli raw_addr sizei b =
     (if sizei > smalli
      then kbind (at_info b sizei (split_set bf (blk_index b sizei raw_addr) True)) (\<lambda>b1.
           kbind (at_info b1 (sizei - 1) (alloc_set bf (blk_index b1 (sizei - 1) raw_addr) True)) (\<lambda>b2.
           kbind (at_info b2 (sizei - 1) (free_push (raw_addr + blk_size (sizei - 1)))) (\<lambda>b3.
             split_down bf smalli raw_addr (sizei - 1) b3)))
      else Done b)"

declare split_down.simps [simp del]

definition small_size :: "nat \<Rightarrow> nat" where
  "small_size sz =
     (if sz \<le> LEAF_SIZE then 0 else trailing_zeros (next_power_of_two sz div LEAF_SIZE))"

text \<open>\<open>None\<close> is the null pointer.\<close>

definition buddy_alloc :: "bit_field \<Rightarrow> layout \<Rightarrow> buddy_system \<Rightarrow> (nat option \<times> buddy_system) kres" where
  "buddy_alloc bf lay b =
     (if lay_size lay = 0 then Done (None, b)
      else if lay_align lay > PAGE_BYTES
      then Panicked ''buddy system: request layout alignment bigger than PGSIZE''
      else let smalli = small_size (lay_size lay)
           in kbind (find_size b smalli) (\<lambda>sizei.
             if sizei \<ge> bs_nsizes b then Done (None, b)
             else kbind (get_info b sizei) (\<lambda>info.
               case bi_free info of
                 [] \<Rightarrow> Panicked ''empty pop''
               | raw_addr # rest \<Rightarrow>
                   kbind (at_info b sizei (\<lambda>i. Done (i\<lparr>bi_free := rest\<rparr>))) (\<lambda>b1.
                   kbind (at_info b1 sizei (alloc_set bf (blk_index b1 sizei raw_addr) True)) (\<lambda>b2.
                   kbind (split_down bf smalli raw_addr sizei b2) (\<lambda>b3.
                     Done (Some raw_addr, b3)))))))"

section \<open>Deallocation\<close>

text \<open>The search for the size of the block at an address: the loop over \<open>0..max_size\<close>.\<close>

function find_level :: "bit_field \<Rightarrow> buddy_system \<Rightarrow> nat \<Rightarrow> nat \<Rightarrow> nat kres" where
  "find_level bf b raw_addr i =
     (if i < max_size b
      then kbind (get_info b (i + 1)) (\<lambda>info.
           kbind (is_split_set bf (blk_index b (i + 1) raw_addr) info) (\<lambda>s.
             if s then Done i else find_level bf b raw_addr (i + 1)))
      else Done (bs_nsizes b))"
  by pat_completeness auto
termination by (relation "measure (\<lambda>(bf, b, raw_addr, i). max_size b - i)") auto

declare find_level.simps [simp del]

definition buddy_of :: "nat \<Rightarrow> nat" where
  "buddy_of bi = (if even bi then bi + 1 else bi - 1)"

function merge_up :: "bit_field \<Rightarrow> nat \<Rightarrow> nat \<Rightarrow> nat \<Rightarrow> buddy_system \<Rightarrow> (nat \<times> nat \<times> buddy_system) kres" where
  "merge_up bf mx sizei raw_addr b =
     (if sizei < mx
      then let bi = blk_index b sizei raw_addr; buddyi = buddy_of bi
           in kbind (at_info b sizei (alloc_set bf bi False)) (\<lambda>b1.
              kbind (get_info b1 sizei) (\<lambda>info.
              kbind (is_alloc_set bf buddyi info) (\<lambda>a.
                if a then Done (sizei, raw_addr, b1)
                else let buddy_addr = blk_addr b1 sizei buddyi
                     in kbind (at_info b1 sizei (free_unlink buddy_addr)) (\<lambda>b2.
                        let raw' = (if even buddyi then buddy_addr else raw_addr)
                        in kbind (at_info b2 (sizei + 1) (split_set bf (blk_index b2 (sizei + 1) raw') False)) (\<lambda>b3.
                             merge_up bf mx (sizei + 1) raw' b3)))))
      else Done (sizei, raw_addr, b))"
  by pat_completeness auto
termination by (relation "measure (\<lambda>(bf, mx, sizei, raw_addr, b). mx - sizei)") auto

declare merge_up.simps [simp del]

definition buddy_dealloc :: "bit_field \<Rightarrow> nat \<Rightarrow> layout \<Rightarrow> buddy_system \<Rightarrow> buddy_system kres" where
  "buddy_dealloc bf raw_addr lay b =
     (if raw_addr < bs_base b \<or> raw_addr \<ge> bs_actual_end b
      then Panicked ''buddy system: dealloc ptr out of range''
      else kbind (find_level bf b raw_addr 0) (\<lambda>sizei.
        if sizei = bs_nsizes b then Panicked ''buddy system: dealloc cannot recycle ptr''
        else if lay_size lay > blk_size sizei then Panicked ''buddy system: layout > blk size''
        else kbind (merge_up bf (max_size b) sizei raw_addr b) (\<lambda>(sizei', raw', b').
          at_info b' sizei' (free_push raw'))))"

section \<open>Initialisation\<close>

definition mark_block :: "bit_field \<Rightarrow> nat \<Rightarrow> buddy_system \<Rightarrow> nat \<Rightarrow> buddy_system kres" where
  "mark_block bf i b bi =
     kbind (at_info b i (alloc_set bf bi True)) (\<lambda>b1.
       if i > 0 then at_info b1 i (split_set bf bi True) else Done b1)"

definition mark :: "bit_field \<Rightarrow> nat \<Rightarrow> nat \<Rightarrow> buddy_system \<Rightarrow> buddy_system kres" where
  "mark bf left right b =
     kbind (kassert (left mod LEAF_SIZE = 0) ''assertion failed: left'') (\<lambda>_.
     kbind (kassert (right mod LEAF_SIZE = 0) ''assertion failed: right'') (\<lambda>_.
       kfold (\<lambda>b i. kfold (mark_block bf i) b [blk_index b i left..<blk_index_next b i right])
         b [0..<bs_nsizes b]))"

definition mark_meta :: "bit_field \<Rightarrow> nat \<Rightarrow> buddy_system \<Rightarrow> (nat \<times> buddy_system) kres" where
  "mark_meta bf cur b =
     kbind (mark bf (bs_base b) cur b) (\<lambda>b'. Done (cur - bs_base b, b'))"

definition mark_unavail :: "bit_field \<Rightarrow> buddy_system \<Rightarrow> (nat \<times> buddy_system) kres" where
  "mark_unavail bf b =
     (if blk_size (max_size b) < bs_actual_end b - bs_base b
      then Panicked ''attempt to subtract with overflow''
      else let unavail = blk_size (max_size b) - (bs_actual_end b - bs_base b)
           in kbind (mark bf (bs_actual_end b) (bs_actual_end b + unavail) b) (\<lambda>b'. Done (unavail, b')))"

definition init_free_pair :: "bit_field \<Rightarrow> nat \<Rightarrow> nat \<Rightarrow> buddy_system \<Rightarrow> (nat \<times> buddy_system) kres" where
  "init_free_pair bf sizei bi b =
     (let buddyi = buddy_of bi
      in kbind (get_info b sizei) (\<lambda>info.
         kbind (is_alloc_set bf bi info) (\<lambda>a.
         kbind (is_alloc_set bf buddyi info) (\<lambda>ab.
           if a \<noteq> ab
           then kbind (at_info b sizei (free_push (blk_addr b sizei (if a then buddyi else bi))))
                  (\<lambda>b'. Done (blk_size sizei, b'))
           else Done (0, b)))))"

definition init_free :: "bit_field \<Rightarrow> nat \<Rightarrow> buddy_system \<Rightarrow> (nat \<times> buddy_system) kres" where
  "init_free bf left b =
     (let right = bs_actual_end b
      in kfold (\<lambda>(free, b) i.
           let lbi = blk_index_next b i left; rbi = blk_index b i right
           in kbind (init_free_pair bf i lbi b) (\<lambda>(f1, b1).
              if left < right
              then kbind (init_free_pair bf i rbi b1) (\<lambda>(f2, b2). Done (free + f1 + f2, b2))
              else Done (free + f1, b1)))
           (0, b) [0..<max_size b])"

text \<open>
  The bitmaps are carved out of the start of the heap: \<open>cur\<close> moves past the array of
  size records (48 bytes each) and past one byte per eight blocks for each bitmap.
\<close>

definition BUDDY_INFO_BYTES :: nat where "BUDDY_INFO_BYTES = 48"

definition bitmap_bytes :: "buddy_system \<Rightarrow> nat \<Rightarrow> nat kres" where
  "bitmap_bytes b i = kbind (round_up (n_blk b i) 8) (\<lambda>r. Done (r div 8))"

definition init_alloc_field :: "nat \<times> buddy_system \<Rightarrow> nat \<Rightarrow> (nat \<times> buddy_system) kres" where
  "init_alloc_field st i =
     (case st of (cur, b) \<Rightarrow>
        kbind (bitmap_bytes b i) (\<lambda>n.
        kbind (at_info b i (\<lambda>info. Done (info\<lparr>bi_free := [], bi_alloc := replicate n 0\<rparr>)))
          (\<lambda>b'. Done (cur + n, b'))))"

definition init_split_field :: "nat \<times> buddy_system \<Rightarrow> nat \<Rightarrow> (nat \<times> buddy_system) kres" where
  "init_split_field st i =
     (case st of (cur, b) \<Rightarrow>
        kbind (bitmap_bytes b i) (\<lambda>n.
        kbind (at_info b i (\<lambda>info. Done (info\<lparr>bi_split := replicate n 0\<rparr>)))
          (\<lambda>b'. Done (cur + n, b'))))"

definition buddy_init :: "bit_field \<Rightarrow> nat \<Rightarrow> nat \<Rightarrow> buddy_system \<Rightarrow> buddy_system kres" where
  "buddy_init bf start end' b =
     (if bs_initialized b then Panicked ''buddy system: init twice''
      else kbind (round_up start (max LEAF_SIZE PAGE_BYTES)) (\<lambda>base.
        let actual_end = round_down end' (max LEAF_SIZE PAGE_BYTES)
        in if actual_end < base then Panicked ''attempt to subtract with overflow''
           else let n0 = log2 ((actual_end - base) div LEAF_SIZE) + 1;
                    nsizes = (if actual_end - base > blk_size (n0 - 1) then n0 + 1 else n0);
                    b0 = b\<lparr>bs_base := base, bs_actual_end := actual_end, bs_nsizes := nsizes,
                           bs_infos := replicate nsizes \<lparr>bi_free = [], bi_alloc = [], bi_split = []\<rparr>\<rparr>
                in kbind (kfold init_alloc_field (base + BUDDY_INFO_BYTES * nsizes, b0) [0..<nsizes]) (\<lambda>st1.
                   kbind (kfold init_split_field st1 [1..<nsizes]) (\<lambda>(cur0, b2).
                   kbind (round_up cur0 LEAF_SIZE) (\<lambda>cur.
                   kbind (mark_meta bf cur b2) (\<lambda>(meta, b3).
                   kbind (mark_unavail bf b3) (\<lambda>(unavail, b4).
                   kbind (init_free bf cur b4) (\<lambda>(free, b5).
                     if blk_size (max_size b5) < meta + unavail
                     then Panicked ''attempt to subtract with overflow''
                     else if free \<noteq> blk_size (max_size b5) - meta - unavail
                     then Panicked ''buddy system: meta, free, unavail''
                     else Done (b5\<lparr>bs_initialized := True\<rparr>)))))))))"

end
