(* ===== verification/BuddyTree.thy ===== *)
theory BuddyTree
  imports Prelude
begin

text \<open>
  The binary tree behind the buddy bitmaps, apart from their representation. A block of
  size \<open>k\<close> with index \<open>i\<close> covers the leaves from \<open>i * 2 ^ k\<close> on; its parent is block
  \<open>i div 2\<close> of size \<open>k + 1\<close>. \<open>A\<close> and \<open>S\<close> are the allocated and split bits, \<open>F\<close> says which
  blocks are on a free list. The invariant \<open>tree_ok\<close> relates them, and the lemmas show
  what each elementary step of the allocator does to the blocks handed out.
\<close>

type_synonym bits = "nat \<Rightarrow> nat \<Rightarrow> bool"

definition upd2 :: "(nat \<Rightarrow> nat \<Rightarrow> 'a) \<Rightarrow> nat \<Rightarrow> nat \<Rightarrow> 'a \<Rightarrow> nat \<Rightarrow> nat \<Rightarrow> 'a" where
  "upd2 f k i v = f(k := (f k)(i := v))"

lemma upd2_apply: "upd2 f k i v k' i' = (if k' = k \<and> i' = i then v else f k' i')"
  by (auto simp: upd2_def)

definition blk_ok :: "nat \<Rightarrow> nat \<Rightarrow> nat \<Rightarrow> bool" where
  "blk_ok mx k i \<longleftrightarrow> k \<le> mx \<and> i < 2 ^ (mx - k)"

definition tree_ok :: "nat \<Rightarrow> bits \<Rightarrow> bits \<Rightarrow> bits \<Rightarrow> bool" where
  "tree_ok mx A S F \<longleftrightarrow>
     A mx 0 \<and> S mx 0 \<and> 0 < mx \<and>
     (\<forall>k i. blk_ok mx k i \<longrightarrow> 0 < k \<longrightarrow> S k i \<longrightarrow> A k i) \<and>
     (\<forall>k i. blk_ok mx k i \<longrightarrow> k < mx \<longrightarrow> A k i \<longrightarrow> S (Suc k) (i div 2)) \<and>
     (\<forall>k j. blk_ok mx (Suc k) j \<longrightarrow> S (Suc k) j \<longrightarrow> A k (2 * j) \<or> A k (2 * j + 1)) \<and>
     (\<forall>k i. blk_ok mx k i \<longrightarrow> F k i \<longleftrightarrow> k < mx \<and> \<not> A k i \<and> S (Suc k) (i div 2))"

lemma tree_alloc_parent:
  "tree_ok mx A S F \<Longrightarrow> blk_ok mx k i \<Longrightarrow> k < mx \<Longrightarrow> A k i \<Longrightarrow> S (Suc k) (i div 2)"
  by (auto simp: tree_ok_def)

text \<open>The blocks handed out: allocated and not split.\<close>

definition live :: "nat \<Rightarrow> bits \<Rightarrow> bits \<Rightarrow> (nat \<times> nat) set" where
  "live mx A S = {(k, i). blk_ok mx k i \<and> A k i \<and> (k = 0 \<or> \<not> S k i)}"

definition leaves :: "nat \<times> nat \<Rightarrow> nat set" where
  "leaves = (\<lambda>(k, i). {i * 2 ^ k..<(i + 1) * 2 ^ k})"

lemma blk_ok_parent: "blk_ok mx k i \<Longrightarrow> k < mx \<Longrightarrow> blk_ok mx (Suc k) (i div 2)"
  by (auto simp: blk_ok_def less_mult_imp_div_less power_Suc2 [symmetric] Suc_diff_Suc simp del: power_Suc)

lemma blk_ok_child: "blk_ok mx (Suc k) j \<Longrightarrow> blk_ok mx k (2 * j) \<and> blk_ok mx k (2 * j + 1)"
proof -
  assume a: "blk_ok mx (Suc k) j"
  then have "(2 :: nat) ^ (mx - k) = 2 * 2 ^ (mx - Suc k)"
    by (simp add: blk_ok_def Suc_diff_Suc flip: power_Suc)
  then show ?thesis using a by (auto simp: blk_ok_def)
qed

lemma blk_ok_buddy:
  assumes "blk_ok mx k i" and "k < mx"
  shows "blk_ok mx k (if even i then i + 1 else i - 1)"
  using blk_ok_child [OF blk_ok_parent [OF assms]] by (cases "even i") (auto elim: oddE)

section \<open>Ancestors\<close>

lemma blk_ok_anc:
  assumes "blk_ok mx k i" and "k + d \<le> mx"
  shows "blk_ok mx (k + d) (i div 2 ^ d)"
  using assms(2)
proof (induction d)
  case 0
  then show ?case using assms(1) by simp
next
  case (Suc d)
  then have "blk_ok mx (Suc (k + d)) (i div 2 ^ d div 2)" by (intro blk_ok_parent) auto
  then show ?case by (simp add: div_mult2_eq [symmetric] mult.commute)
qed

text \<open>An allocated or free block has only split ancestors.\<close>

lemma tree_up:
  assumes t: "tree_ok mx A S F" and "blk_ok mx k i" and "A k i \<or> F k i" and "k + Suc d \<le> mx"
  shows "S (k + Suc d) (i div 2 ^ Suc d)"
  using assms(4)
proof (induction d)
  case 0
  then show ?case using t assms(2,3) by (auto simp: tree_ok_def)
next
  case (Suc d)
  have ok: "blk_ok mx (k + Suc d) (i div 2 ^ Suc d)"
    using blk_ok_anc [OF assms(2), of "Suc d"] Suc.prems by simp
  have "S (k + Suc d) (i div 2 ^ Suc d)" using Suc by simp
  then have "A (k + Suc d) (i div 2 ^ Suc d)" using t ok by (auto simp: tree_ok_def)
  then have "S (Suc (k + Suc d)) (i div 2 ^ Suc d div 2)"
    using t ok Suc.prems by (auto simp: tree_ok_def)
  then show ?case by (simp add: div_mult2_eq [symmetric] mult.commute)
qed

lemma leaves_anc:
  assumes "x \<in> leaves (k, i)" and "x \<in> leaves (k + d, j)"
  shows "j = i div 2 ^ d"
proof -
  have "x div 2 ^ k = i" "x div 2 ^ (k + d) = j"
    using assms by (auto simp: leaves_def div_nat_eqI algebra_simps)
  then show ?thesis by (simp add: power_add div_mult2_eq)
qed

text \<open>Blocks that are handed out or free do not overlap.\<close>

definition unsplit :: "bits \<Rightarrow> bits \<Rightarrow> bits \<Rightarrow> nat \<Rightarrow> nat \<Rightarrow> bool" where
  "unsplit A S F k i \<longleftrightarrow> (A k i \<and> (k = 0 \<or> \<not> S k i)) \<or> F k i"

lemma unsplit_not_split:
  assumes "tree_ok mx A S F" and "blk_ok mx k i" and "unsplit A S F k i" and "0 < k"
  shows "\<not> S k i"
  using assms by (auto simp: tree_ok_def unsplit_def)

lemma blocks_disjoint_le:
  assumes t: "tree_ok mx A S F" and "blk_ok mx k i" and "blk_ok mx (k + d) j"
    and "unsplit A S F k i" and "unsplit A S F (k + d) j" and "(k, i) \<noteq> (k + d, j)"
  shows "leaves (k, i) \<inter> leaves (k + d, j) = {}"
proof (rule ccontr)
  assume "leaves (k, i) \<inter> leaves (k + d, j) \<noteq> {}"
  then have j: "j = i div 2 ^ d" using leaves_anc by blast
  then obtain e where d: "d = Suc e" using assms(6) by (cases d) auto
  have "S (k + Suc e) (i div 2 ^ Suc e)"
    using tree_up [OF t assms(2)] assms(3,4) by (auto simp: d unsplit_def blk_ok_def)
  then show False using unsplit_not_split [OF t assms(3,5)] j by (simp add: d)
qed

lemma blocks_disjoint:
  assumes "tree_ok mx A S F" and "blk_ok mx k i" and "blk_ok mx k' i'"
    and "unsplit A S F k i" and "unsplit A S F k' i'" and "(k, i) \<noteq> (k', i')"
  shows "leaves (k, i) \<inter> leaves (k', i') = {}"
proof (cases "k \<le> k'")
  case True
  then show ?thesis using blocks_disjoint_le [of mx A S F k i "k' - k" i'] assms by simp
next
  case False
  then show ?thesis using blocks_disjoint_le [of mx A S F k' i' "k - k'" i] assms by auto
qed

section \<open>Elementary steps\<close>

text \<open>Taking a free block off its list and marking it allocated.\<close>

lemma tree_take:
  assumes t: "tree_ok mx A S F" and b: "blk_ok mx k i" and f: "F k i"
  shows "tree_ok mx (upd2 A k i True) S (upd2 F k i False)"
    and "live mx (upd2 A k i True) S = insert (k, i) (live mx A S)"
    and "(k, i) \<notin> live mx A S"
proof -
  have ns: "\<not> S k i" if "0 < k"
    using unsplit_not_split [OF t b _ that] f by (simp add: unsplit_def)
  show "tree_ok mx (upd2 A k i True) S (upd2 F k i False)"
    using t b f unfolding tree_ok_def by (auto simp: upd2_apply)
  show "live mx (upd2 A k i True) S = insert (k, i) (live mx A S)"
    using b ns by (auto simp: live_def upd2_apply)
  show "(k, i) \<notin> live mx A S" using t b f by (auto simp: live_def tree_ok_def)
qed

text \<open>Splitting a block in hand: the left half stays in hand, the right half is free.\<close>

lemma tree_split:
  assumes t: "tree_ok mx A S F" and l: "(Suc k, i) \<in> live mx A S"
  defines "A' \<equiv> upd2 A k (2 * i) True" and "S' \<equiv> upd2 S (Suc k) i True"
    and "F' \<equiv> upd2 F k (2 * i + 1) True"
  shows "tree_ok mx A' S' F'"
    and "live mx A' S' = insert (k, 2 * i) (live mx A S - {(Suc k, i)})"
    and "(k, 2 * i) \<notin> live mx A S"
proof -
  have b: "blk_ok mx (Suc k) i" and a: "A (Suc k) i" and s: "\<not> S (Suc k) i"
    using l by (auto simp: live_def)
  note c = blk_ok_child [OF b]
  have km: "k < mx" using b by (simp add: blk_ok_def)
  have na: "\<not> A k (2 * i)" "\<not> A k (2 * i + 1)"
    using tree_alloc_parent [OF t conjunct1 [OF c] km] tree_alloc_parent [OF t conjunct2 [OF c] km] s
    by auto
  have sk: "\<not> S k (2 * i)" "\<not> S k (2 * i + 1)" if "0 < k"
    using t c na that by (auto simp: tree_ok_def)
  have half: "j = 2 * i \<or> j = 2 * i + 1" if "j div 2 = i" for j using that by auto
  show "tree_ok mx A' S' F'" unfolding tree_ok_def
  proof (intro conjI allI impI)
    show "A' mx 0" "S' mx 0" "0 < mx" using t by (auto simp: tree_ok_def A'_def S'_def upd2_apply)
    show "A' k' j" if "blk_ok mx k' j" "0 < k'" "S' k' j" for k' j
      using t that a by (auto simp: tree_ok_def A'_def S'_def upd2_apply split: if_splits)
    show "S' (Suc k') (j div 2)" if "blk_ok mx k' j" "k' < mx" "A' k' j" for k' j
      using t that by (auto simp: tree_ok_def A'_def S'_def upd2_apply split: if_splits)
    show "A' k' (2 * j) \<or> A' k' (2 * j + 1)" if "blk_ok mx (Suc k') j" "S' (Suc k') j" for k' j
      using t that by (auto simp: tree_ok_def A'_def S'_def upd2_apply split: if_splits)
    show "F' k' j \<longleftrightarrow> k' < mx \<and> \<not> A' k' j \<and> S' (Suc k') (j div 2)" if "blk_ok mx k' j" for k' j
    proof (cases "k' = k \<and> j div 2 = i")
      case True
      then consider "j = 2 * i" | "j = 2 * i + 1" using half by blast
      then show ?thesis
        using True t that s km na by cases (auto simp: tree_ok_def A'_def S'_def F'_def upd2_apply)
    next
      case False
      then show ?thesis
        using t that by (auto simp: tree_ok_def A'_def S'_def F'_def upd2_apply)
    qed
  qed
  show "live mx A' S' = insert (k, 2 * i) (live mx A S - {(Suc k, i)})"
    using b c s sk by (auto simp: live_def A'_def S'_def upd2_apply)
  show "(k, 2 * i) \<notin> live mx A S" using na by (simp add: live_def)
qed

text \<open>Releasing a block whose buddy is allocated.\<close>

lemma tree_release:
  assumes t: "tree_ok mx A S F" and l: "(k, i) \<in> live mx A S" and "k < mx"
    and bud: "A k (if even i then i + 1 else i - 1)"
  shows "tree_ok mx (upd2 A k i False) S (upd2 F k i True)"
    and "live mx (upd2 A k i False) S = live mx A S - {(k, i)}"
proof -
  have b: "blk_ok mx k i" and a: "A k i" and s: "k = 0 \<or> \<not> S k i" using l by (auto simp: live_def)
  show "tree_ok mx (upd2 A k i False) S (upd2 F k i True)" unfolding tree_ok_def
  proof (intro conjI allI impI)
    show "upd2 A k i False mx 0" "S mx 0" "0 < mx"
      using t \<open>k < mx\<close> by (auto simp: tree_ok_def upd2_apply)
    show "upd2 A k i False k' j" if "blk_ok mx k' j" "0 < k'" "S k' j" for k' j
      using t that s by (auto simp: tree_ok_def upd2_apply)
    show "S (Suc k') (j div 2)" if "blk_ok mx k' j" "k' < mx" "upd2 A k i False k' j" for k' j
      using t that by (auto simp: tree_ok_def upd2_apply split: if_splits)
    show "upd2 A k i False k' (2 * j) \<or> upd2 A k i False k' (2 * j + 1)"
      if "blk_ok mx (Suc k') j" "S (Suc k') j" for k' j
    proof -
      have "A k' (2 * j) \<or> A k' (2 * j + 1)" using t that by (auto simp: tree_ok_def)
      then show ?thesis using bud by (auto simp: upd2_apply split: if_splits)
    qed
    show "upd2 F k i True k' j \<longleftrightarrow> k' < mx \<and> \<not> upd2 A k i False k' j \<and> S (Suc k') (j div 2)"
      if "blk_ok mx k' j" for k' j
      using t that a b \<open>k < mx\<close> by (auto simp: tree_ok_def upd2_apply)
  qed
  show "live mx (upd2 A k i False) S = live mx A S - {(k, i)}"
    by (auto simp: live_def upd2_apply)
qed

text \<open>Merging a block with its free buddy: the parent is then in hand.\<close>

lemma tree_merge:
  assumes t: "tree_ok mx A S F" and l: "(k, i) \<in> live mx A S" and km: "Suc k < mx"
    and bud: "\<not> A k (if even i then i + 1 else i - 1)"
  defines "A' \<equiv> upd2 A k i False" and "S' \<equiv> upd2 S (Suc k) (i div 2) False"
    and "F' \<equiv> upd2 F k (if even i then i + 1 else i - 1) False"
  shows "F k (if even i then i + 1 else i - 1)"
    and "tree_ok mx A' S' F'"
    and "live mx A' S' = insert (Suc k, i div 2) (live mx A S - {(k, i)})"
proof -
  let ?j = "if even i then i + 1 else i - 1"
  have b: "blk_ok mx k i" and a: "A k i" and s: "k = 0 \<or> \<not> S k i" using l by (auto simp: live_def)
  have bj: "blk_ok mx k ?j" using blk_ok_buddy [OF b] km by simp
  have p: "blk_ok mx (Suc k) (i div 2)" using blk_ok_parent [OF b] km by simp
  have sp: "S (Suc k) (i div 2)" using t a b km by (auto simp: tree_ok_def)
  have jp: "?j div 2 = i div 2" by (auto elim: oddE)
  then show f: "F k ?j" using t bj sp bud km by (auto simp: tree_ok_def)
  have ap: "A (Suc k) (i div 2)" using t p sp by (auto simp: tree_ok_def)
  have pair: "j = i \<or> j = ?j" if "j div 2 = i div 2" for j
    using that by (auto elim!: oddE evenE)
  show "tree_ok mx A' S' F'" unfolding tree_ok_def
  proof (intro conjI allI impI)
    show "A' mx 0" "S' mx 0" "0 < mx"
      using t km by (auto simp: tree_ok_def A'_def S'_def upd2_apply)
    show "A' k' j" if "blk_ok mx k' j" "0 < k'" "S' k' j" for k' j
      using t that s by (auto simp: tree_ok_def A'_def S'_def upd2_apply split: if_splits)
    show "S' (Suc k') (j div 2)" if "blk_ok mx k' j" "k' < mx" "A' k' j" for k' j
      using t that bud pair [of j] by (auto simp: tree_ok_def A'_def S'_def upd2_apply split: if_splits)
    show "A' k' (2 * j) \<or> A' k' (2 * j + 1)" if "blk_ok mx (Suc k') j" "S' (Suc k') j" for k' j
      using t that by (auto simp: tree_ok_def A'_def S'_def upd2_apply split: if_splits)
    show "F' k' j \<longleftrightarrow> k' < mx \<and> \<not> A' k' j \<and> S' (Suc k') (j div 2)" if "blk_ok mx k' j" for k' j
    proof (cases "k' = k \<and> j div 2 = i div 2")
      case True
      then have "j = i \<or> j = ?j" using pair by blast
      then have "F' k' j = False"
        using True t that a f by (auto simp: tree_ok_def F'_def upd2_apply)
      then show ?thesis using True by (simp add: S'_def upd2_apply)
    next
      case False
      then have "F' k' j = F k' j" using jp by (auto simp: F'_def upd2_apply)
      moreover have "A' k' j = A k' j" using False by (auto simp: A'_def upd2_apply)
      moreover have "S' (Suc k') (j div 2) = S (Suc k') (j div 2)"
        using False by (auto simp: S'_def upd2_apply)
      ultimately show ?thesis using t that by (simp add: tree_ok_def)
    qed
  qed
  show "live mx A' S' = insert (Suc k, i div 2) (live mx A S - {(k, i)})"
    using p ap b s by (auto simp: live_def A'_def S'_def upd2_apply)
qed

section \<open>The reserved first leaf\<close>

text \<open>
  The bitmaps themselves occupy the start of the heap, so the first leaf is never free.
  Hence merging never reaches the root.
\<close>

lemma first_leaf_up:
  assumes "tree_ok mx A S F" and "A 0 0" and "0 < k" and "k \<le> mx"
  shows "S k 0"
  using tree_up [OF assms(1), of 0 0 "k - 1"] assms by (simp add: blk_ok_def)

lemma live_not_first:
  assumes "tree_ok mx A S F" and "A 0 0" and "(k, i) \<in> live mx A S" and "(k, i) \<noteq> (0, 0)"
  shows "i \<noteq> 0 \<and> k < mx"
proof -
  have "i \<noteq> 0"
  proof
    assume "i = 0"
    then show False
      using first_leaf_up [OF assms(1,2), of k] assms(3,4) by (auto simp: live_def blk_ok_def)
  qed
  moreover have "k \<le> mx" "i < 2 ^ (mx - k)" using assms(3) by (auto simp: live_def blk_ok_def)
  ultimately show ?thesis by (cases "k = mx") auto
qed

lemma merge_below_root:
  assumes "tree_ok mx A S F" and "A 0 0" and "(k, i) \<in> live mx A S" and "(k, i) \<noteq> (0, 0)"
    and "\<not> A k (if even i then i + 1 else i - 1)"
  shows "Suc k < mx"
proof (rule ccontr)
  note nf = live_not_first [OF assms(1-4)]
  assume "\<not> Suc k < mx"
  then have mx: "mx = Suc k" using nf by simp
  then have i: "i = 1" using nf assms(3) by (auto simp: live_def blk_ok_def)
  have "A k 0"
  proof (cases k)
    case 0
    then show ?thesis using assms(2) by simp
  next
    case (Suc k')
    then show ?thesis
      using first_leaf_up [OF assms(1,2), of k] assms(1) mx by (auto simp: tree_ok_def blk_ok_def)
  qed
  then show False using assms(5) i by simp
qed

section \<open>The blocks handed out determine the tree\<close>

lemma alloc_iff_live_below:
  assumes t: "tree_ok mx A S F" and "blk_ok mx k i"
  shows "A k i \<longleftrightarrow> (\<exists>(k', i') \<in> live mx A S. k' \<le> k \<and> i' div 2 ^ (k - k') = i)"
proof
  show "A k i \<Longrightarrow> \<exists>(k', i') \<in> live mx A S. k' \<le> k \<and> i' div 2 ^ (k - k') = i"
    using assms(2)
  proof (induction k arbitrary: i)
    case 0
    then show ?case by (force simp: live_def)
  next
    case (Suc k)
    show ?case
    proof (cases "S (Suc k) i")
      case False
      then show ?thesis using Suc.prems by (force simp: live_def)
    next
      case True
      then obtain j where j: "A k j" "blk_ok mx k j" "j div 2 = i"
        using t Suc.prems(2) blk_ok_child [OF Suc.prems(2)] by (force simp: tree_ok_def)
      from Suc.IH [OF j(1,2)] obtain k' i' where
        l: "(k', i') \<in> live mx A S" "k' \<le> k" "i' div 2 ^ (k - k') = j" by blast
      have "i' div 2 ^ (Suc k - k') = i"
        unfolding Suc_diff_le [OF l(2)] power_Suc2 div_mult2_eq using l(3) j(3) by simp
      then show ?thesis using l by (auto intro!: bexI [of _ "(k', i')"])
    qed
  qed
next
  assume "\<exists>(k', i') \<in> live mx A S. k' \<le> k \<and> i' div 2 ^ (k - k') = i"
  then obtain k' i' where l: "blk_ok mx k' i'" "A k' i'" "k' \<le> k" "i' div 2 ^ (k - k') = i"
    by (auto simp: live_def)
  show "A k i"
  proof (cases "k = k'")
    case True
    then show ?thesis using l by simp
  next
    case False
    then obtain d where d: "k = k' + Suc d" using l(3) by (metis add_Suc_right le_neq_implies_less less_natE)
    then have "S k i"
      using tree_up [OF t l(1), of d] l assms(2) by (simp add: blk_ok_def d)
    then show ?thesis using t assms(2) False l(3) by (auto simp: tree_ok_def)
  qed
qed

lemma tree_canonical:
  assumes t: "tree_ok mx A S F" and t': "tree_ok mx A' S' F'" and l: "live mx A S = live mx A' S'"
    and b: "blk_ok mx k i"
  shows "A k i = A' k i" and "0 < k \<Longrightarrow> S k i = S' k i" and "F k i = F' k i"
proof -
  have a: "A k i = A' k i" if "blk_ok mx k i" for k i
    using alloc_iff_live_below [OF t that] alloc_iff_live_below [OF t' that] l by simp
  have s: "S k i = S' k i" if "blk_ok mx k i" "0 < k" for k i
  proof -
    have "S k i \<longleftrightarrow> A k i \<and> (k, i) \<notin> live mx A S" if "tree_ok mx A S F" for A S F
      using that \<open>blk_ok mx k i\<close> \<open>0 < k\<close> by (auto simp: tree_ok_def live_def)
    from this [OF t] this [OF t'] show ?thesis using a [OF that(1)] l by simp
  qed
  show "A k i = A' k i" using a b by simp
  show "0 < k \<Longrightarrow> S k i = S' k i" using s b by simp
  show "F k i = F' k i"
    using t t' b a [OF b] s [OF blk_ok_parent [OF b]] by (auto simp: tree_ok_def)
qed

end
