(* ===== verification/BuddyInv.thy ===== *)
theory BuddyInv
  imports Buddy BuddyTree
begin

text \<open>
  The invariant of the buddy allocator and the correctness of \<^verbatim>\<open>alloc\<close> and \<^verbatim>\<open>dealloc\<close>. The
  bitmaps and free lists of a state are read as the tree of \<open>BuddyTree\<close>; each access of
  the code is one elementary step on that tree.
\<close>

section \<open>Reading a state as a tree\<close>

definition abit :: "bit_field \<Rightarrow> buddy_system \<Rightarrow> bits" where
  "abit bf b k i = get_bit bf (bi_alloc (bs_infos b ! k) ! (i div 8)) (i mod 8)"

definition sbit :: "bit_field \<Rightarrow> buddy_system \<Rightarrow> bits" where
  "sbit bf b k i = get_bit bf (bi_split (bs_infos b ! k) ! (i div 8)) (i mod 8)"

definition frees :: "buddy_system \<Rightarrow> nat \<Rightarrow> nat list" where
  "frees b k = bi_free (bs_infos b ! k)"

definition ffree :: "nat \<Rightarrow> (nat \<Rightarrow> nat list) \<Rightarrow> bits" where
  "ffree base fr k i \<longleftrightarrow> base + i * blk_size k \<in> set (fr k)"

definition geom :: "buddy_system \<Rightarrow> nat \<times> nat \<times> nat \<times> bool" where
  "geom b = (bs_base b, bs_actual_end b, bs_nsizes b, bs_initialized b)"

definition shape :: "buddy_system \<Rightarrow> bool" where
  "shape b \<longleftrightarrow>
     length (bs_infos b) = bs_nsizes b \<and>
     (\<forall>k < bs_nsizes b. 2 ^ (max_size b - k) \<le> 8 * length (bi_alloc (bs_infos b ! k)) \<and>
        (0 < k \<longrightarrow> 2 ^ (max_size b - k) \<le> 8 * length (bi_split (bs_infos b ! k))))"

definition lists_ok :: "nat \<Rightarrow> nat \<Rightarrow> (nat \<Rightarrow> nat list) \<Rightarrow> bool" where
  "lists_ok mx base fr \<longleftrightarrow>
     (\<forall>k \<le> mx. distinct (fr k) \<and> (\<forall>a \<in> set (fr k). \<exists>i. blk_ok mx k i \<and> a = base + i * blk_size k))"

definition heap_inv :: "bit_field \<Rightarrow> buddy_system \<Rightarrow> bool" where
  "heap_inv bf b \<longleftrightarrow>
     shape b \<and> PAGE_BYTES dvd bs_base b \<and> lists_ok (max_size b) (bs_base b) (frees b) \<and>
     tree_ok (max_size b) (abit bf b) (sbit bf b) (ffree (bs_base b) (frees b)) \<and>
     abit bf b 0 0"

definition heap_live :: "bit_field \<Rightarrow> buddy_system \<Rightarrow> (nat \<times> nat) set" where
  "heap_live bf b = live (max_size b) (abit bf b) (sbit bf b)"

text \<open>The bytes of a block.\<close>

definition blk_bytes :: "buddy_system \<Rightarrow> nat \<times> nat \<Rightarrow> nat set" where
  "blk_bytes b = (\<lambda>(k, i). {blk_addr b k i..<blk_addr b k i + blk_size k})"

lemma blk_size_pos [simp]: "0 < blk_size k"
  by (simp add: blk_size_def LEAF_SIZE_def)

lemma blk_size_nonzero [simp]: "blk_size k \<noteq> 0"
  using blk_size_pos [of k] by simp

lemma blk_size_Suc: "blk_size (Suc k) = 2 * blk_size k"
  by (simp add: blk_size_def)

lemma blk_index_addr [simp]: "blk_index b k (bs_base b + i * blk_size k) = i"
  by (simp add: blk_index_def)

lemma ffree_inj: "base + i * blk_size k = base + j * blk_size k \<longleftrightarrow> i = j"
  using blk_size_pos [of k] by (metis add_left_imp_eq mult_right_cancel neq0_conv)

lemma blk_bytes_leaves:
  "x \<in> blk_bytes b (k, i) \<longleftrightarrow> bs_base b \<le> x \<and> (x - bs_base b) div LEAF_SIZE \<in> leaves (k, i)"
proof -
  have "x \<in> blk_bytes b (k, i) \<longleftrightarrow>
      bs_base b \<le> x \<and> i * 2 ^ k * LEAF_SIZE \<le> x - bs_base b \<and> x - bs_base b < (i + 1) * 2 ^ k * LEAF_SIZE"
    by (auto simp: blk_bytes_def blk_addr_def blk_size_def algebra_simps)
  also have "\<dots> \<longleftrightarrow> bs_base b \<le> x \<and> (x - bs_base b) div LEAF_SIZE \<in> leaves (k, i)"
    by (auto simp: leaves_def less_eq_div_iff_mult_less_eq div_less_iff_less_mult LEAF_SIZE_def)
  finally show ?thesis .
qed

lemma shape_upd:
  assumes "shape b" and "length (bi_alloc info) = length (bi_alloc (bs_infos b ! k))"
    and "length (bi_split info) = length (bi_split (bs_infos b ! k))"
  shows "shape (b\<lparr>bs_infos := (bs_infos b)[k := info]\<rparr>)"
proof -
  have "length (bi_alloc ((bs_infos b)[k := info] ! j)) = length (bi_alloc (bs_infos b ! j))"
    "length (bi_split ((bs_infos b)[k := info] ! j)) = length (bi_split (bs_infos b ! j))" for j
    using assms(2,3) by (simp_all add: nth_list_upd_if)
  then show ?thesis using assms(1) by (simp add: shape_def max_size_def)
qed

lemma heap_live_disjoint:
  assumes "heap_inv bf b" and "(k, i) \<in> heap_live bf b" and "(k', i') \<in> heap_live bf b"
    and "(k, i) \<noteq> (k', i')"
  shows "blk_bytes b (k, i) \<inter> blk_bytes b (k', i') = {}"
proof -
  have "leaves (k, i) \<inter> leaves (k', i') = {}"
    using assms by (intro blocks_disjoint [of "max_size b"]) (auto simp: heap_inv_def heap_live_def live_def unsplit_def)
  then show ?thesis using blk_bytes_leaves by blast
qed

section \<open>The bit crate and one access\<close>

text \<open>
  The documented behaviour of \<^verbatim>\<open>BitField\<close>: \<^verbatim>\<open>set_bit(i, v)\<close> changes bit \<open>i\<close> to \<open>v\<close> and no
  other, and a zero byte has no bit set.
\<close>

locale bit_crate =
  fixes bf :: bit_field
  assumes get_set: "i < 8 \<Longrightarrow> j < 8 \<Longrightarrow> get_bit bf (set_bit_to bf w i v) j = (if j = i then v else get_bit bf w j)"
    and get_zero: "j < 8 \<Longrightarrow> \<not> get_bit bf 0 j"
begin

lemma bytes_upd:
  assumes "i div 8 < length bytes"
  shows "get_bit bf (bytes[i div 8 := set_bit_to bf (bytes ! (i div 8)) (i mod 8) v] ! (j div 8)) (j mod 8) =
         (if j = i then v else get_bit bf (bytes ! (j div 8)) (j mod 8))"
proof (cases "j div 8 = i div 8")
  case True
  then have "j mod 8 = i mod 8 \<longleftrightarrow> j = i" by (metis div_mult_mod_eq)
  then show ?thesis using True assms by (auto simp: get_set)
qed auto

lemma alloc_step:
  assumes "shape b" and "blk_ok (max_size b) k i" and "k < bs_nsizes b"
  obtains b' where "at_info b k (alloc_set bf i v) = Done b'" and "geom b' = geom b" and "shape b'"
    and "abit bf b' = upd2 (abit bf b) k i v" and "sbit bf b' = sbit bf b" and "frees b' = frees b"
proof -
  let ?i = "bs_infos b ! k"
  let ?bs = "(bi_alloc ?i)[i div 8 := set_bit_to bf (bi_alloc ?i ! (i div 8)) (i mod 8) v]"
  let ?b = "b\<lparr>bs_infos := (bs_infos b)[k := ?i\<lparr>bi_alloc := ?bs\<rparr>]\<rparr>"
  have len: "k < length (bs_infos b)" "i div 8 < length (bi_alloc ?i)"
    using assms by (auto simp: shape_def blk_ok_def less_mult_imp_div_less dest!: spec [of _ k])
  show thesis
  proof (rule that [of ?b])
    show "at_info b k (alloc_set bf i v) = Done ?b"
      using len by (simp add: at_info_def get_info_def alloc_set_def byte_set_def Let_def kres_simps)
    show "geom ?b = geom b" by (simp add: geom_def)
    show "shape ?b" using assms(1) by (intro shape_upd) simp_all
    show "abit bf ?b = upd2 (abit bf b) k i v"
    proof (intro ext)
      fix k' j
      show "abit bf ?b k' j = upd2 (abit bf b) k i v k' j"
        using len bytes_upd [OF len(2), of v j]
        by (cases "k' = k") (simp_all add: abit_def upd2_apply)
    qed
    show "sbit bf ?b = sbit bf b" "frees ?b = frees b"
      by (auto simp: fun_eq_iff sbit_def frees_def nth_list_upd_if)
  qed
qed

lemma split_step:
  assumes "shape b" and "blk_ok (max_size b) k i" and "k < bs_nsizes b" and "0 < k"
  obtains b' where "at_info b k (split_set bf i v) = Done b'" and "geom b' = geom b" and "shape b'"
    and "sbit bf b' = upd2 (sbit bf b) k i v" and "abit bf b' = abit bf b" and "frees b' = frees b"
proof -
  let ?i = "bs_infos b ! k"
  let ?bs = "(bi_split ?i)[i div 8 := set_bit_to bf (bi_split ?i ! (i div 8)) (i mod 8) v]"
  let ?b = "b\<lparr>bs_infos := (bs_infos b)[k := ?i\<lparr>bi_split := ?bs\<rparr>]\<rparr>"
  have len: "k < length (bs_infos b)" "i div 8 < length (bi_split ?i)"
    using assms by (auto simp: shape_def blk_ok_def less_mult_imp_div_less dest!: spec [of _ k])
  show thesis
  proof (rule that [of ?b])
    show "at_info b k (split_set bf i v) = Done ?b"
      using len by (simp add: at_info_def get_info_def split_set_def byte_set_def Let_def kres_simps)
    show "geom ?b = geom b" by (simp add: geom_def)
    show "shape ?b" using assms(1) by (intro shape_upd) simp_all
    show "sbit bf ?b = upd2 (sbit bf b) k i v"
    proof (intro ext)
      fix k' j
      show "sbit bf ?b k' j = upd2 (sbit bf b) k i v k' j"
        using len bytes_upd [OF len(2), of v j]
        by (cases "k' = k") (simp_all add: sbit_def upd2_apply)
    qed
    show "abit bf ?b = abit bf b" "frees ?b = frees b"
      by (auto simp: fun_eq_iff abit_def frees_def nth_list_upd_if)
  qed
qed

lemma list_step:
  assumes "shape b" and "k < bs_nsizes b" and "\<And>info. bi_free info = frees b k \<Longrightarrow> f info = Done (info\<lparr>bi_free := xs\<rparr>)"
  obtains b' where "at_info b k f = Done b'" and "geom b' = geom b" and "shape b'"
    and "frees b' = (frees b)(k := xs)" and "abit bf b' = abit bf b" and "sbit bf b' = sbit bf b"
proof -
  let ?b = "b\<lparr>bs_infos := (bs_infos b)[k := (bs_infos b ! k)\<lparr>bi_free := xs\<rparr>]\<rparr>"
  have len: "k < length (bs_infos b)" using assms by (simp add: shape_def)
  show thesis
  proof (rule that [of ?b])
    show "at_info b k f = Done ?b"
      using len assms(3) [of "bs_infos b ! k"]
      by (simp add: at_info_def get_info_def frees_def kres_simps)
    show "geom ?b = geom b" by (simp add: geom_def)
    show "shape ?b" using assms(1) by (intro shape_upd) simp_all
    show "frees ?b = (frees b)(k := xs)" using len by (auto simp: fun_eq_iff frees_def)
    show "abit bf ?b = abit bf b" "sbit bf ?b = sbit bf b"
      by (auto simp: fun_eq_iff abit_def sbit_def nth_list_upd_if)
  qed
qed

lemma get_alloc:
  assumes "shape b" and "blk_ok (max_size b) k i" and "k < bs_nsizes b"
  shows "get_info b k = Done (bs_infos b ! k)"
    and "is_alloc_set bf i (bs_infos b ! k) = Done (abit bf b k i)"
    and "0 < k \<Longrightarrow> is_split_set bf i (bs_infos b ! k) = Done (sbit bf b k i)"
  using assms
  by (auto simp: shape_def blk_ok_def less_mult_imp_div_less get_info_def is_alloc_set_def
      is_split_set_def byte_get_def abit_def sbit_def Let_def dest!: spec [of _ k])

end

text \<open>How the lists change.\<close>

lemma ffree_push:
  "a = base + j * blk_size k \<Longrightarrow> ffree base (fr(k := a # fr k)) = upd2 (ffree base fr) k j True"
  by (auto simp: fun_eq_iff ffree_def upd2_apply)

lemma ffree_remove:
  "a = base + j * blk_size k \<Longrightarrow> distinct (fr k) \<Longrightarrow>
   ffree base (fr(k := remove1 a (fr k))) = upd2 (ffree base fr) k j False"
  by (auto simp: fun_eq_iff ffree_def upd2_apply)

lemma lists_ok_push:
  "lists_ok mx base fr \<Longrightarrow> a = base + j * blk_size k \<Longrightarrow> blk_ok mx k j \<Longrightarrow> \<not> ffree base fr k j \<Longrightarrow>
   lists_ok mx base (fr(k := a # fr k))"
  by (auto simp: lists_ok_def ffree_def)

lemma lists_ok_remove:
  "lists_ok mx base fr \<Longrightarrow> lists_ok mx base (fr(k := remove1 a (fr k)))"
  unfolding lists_ok_def by (auto dest: notin_set_remove1 set_mp [OF set_remove1_subset])

lemma geomD:
  assumes "geom b' = geom b"
  shows "bs_base b' = bs_base b" "bs_nsizes b' = bs_nsizes b" "max_size b' = max_size b"
    "blk_index b' = blk_index b" "blk_addr b' = blk_addr b" "blk_bytes b' = blk_bytes b"
    "bs_actual_end b' = bs_actual_end b"
  using assms
  by (auto simp: geom_def max_size_def blk_index_def blk_addr_def blk_bytes_def fun_eq_iff)

lemma heap_inv_nsizes: "heap_inv bf b \<Longrightarrow> bs_nsizes b = Suc (max_size b)"
  by (auto simp: heap_inv_def tree_ok_def max_size_def)

lemma find_size_spec:
  assumes "length (bs_infos b) = bs_nsizes b"
  shows "\<exists>n. find_size b s = Done n \<and> s \<le> n \<and> (\<forall>j. s \<le> j \<and> j < n \<longrightarrow> frees b j = []) \<and>
             (n < bs_nsizes b \<longrightarrow> frees b n \<noteq> [])"
  using assms
proof (induction b s rule: find_size.induct)
  case (1 b s)
  show ?case
  proof (cases "s < bs_nsizes b \<and> frees b s = []")
    case True
    then have g: "get_info b s = Done (bs_infos b ! s)" using 1 by (simp add: get_info_def)
    obtain n where n: "find_size b (s + 1) = Done n" "s + 1 \<le> n"
      "\<forall>j. s + 1 \<le> j \<and> j < n \<longrightarrow> frees b j = []" "n < bs_nsizes b \<longrightarrow> frees b n \<noteq> []"
      using 1 True g by (auto simp: frees_def)
    have "find_size b s = Done n"
      using True g n(1) by (simp add: find_size.simps [of b s] kres_simps frees_def)
    moreover have "\<forall>j. s \<le> j \<and> j < n \<longrightarrow> frees b j = []"
      using n(3) True by (metis Suc_eq_plus1 not_less_eq_eq order_antisym)
    ultimately show ?thesis using n by auto
  next
    case False
    then have "find_size b s = Done s"
      using 1 by (auto simp: find_size.simps [of b s] get_info_def kres_simps frees_def)
    then show ?thesis using False by auto
  qed
qed

section \<open>Allocation\<close>

context bit_crate
begin

lemma split_one:
  assumes inv: "heap_inv bf b" and l: "(Suc k, i) \<in> heap_live bf b"
  obtains b1 b2 b3 where "at_info b (Suc k) (split_set bf i True) = Done b1"
    and "at_info b1 k (alloc_set bf (2 * i) True) = Done b2"
    and "at_info b2 k (free_push (blk_addr b k (2 * i + 1))) = Done b3"
    and "geom b1 = geom b" "geom b3 = geom b" and "heap_inv bf b3"
    and "heap_live bf b3 = insert (k, 2 * i) (heap_live bf b - {(Suc k, i)})"
    and "(k, 2 * i) \<notin> heap_live bf b"
proof -
  note n = heap_inv_nsizes [OF inv]
  have sh: "shape b" and ls: "lists_ok (max_size b) (bs_base b) (frees b)"
    and t: "tree_ok (max_size b) (abit bf b) (sbit bf b) (ffree (bs_base b) (frees b))"
    and z: "abit bf b 0 0" and pg: "PAGE_BYTES dvd bs_base b" using inv by (auto simp: heap_inv_def)
  have lv: "(Suc k, i) \<in> live (max_size b) (abit bf b) (sbit bf b)" using l by (simp add: heap_live_def)
  then have ok: "blk_ok (max_size b) (Suc k) i" and ns: "\<not> sbit bf b (Suc k) i" by (auto simp: live_def)
  note c = blk_ok_child [OF ok]
  have kn: "Suc k < bs_nsizes b" using ok n by (simp add: blk_ok_def)
  obtain b1 where b1: "at_info b (Suc k) (split_set bf i True) = Done b1" "geom b1 = geom b" "shape b1"
    "sbit bf b1 = upd2 (sbit bf b) (Suc k) i True" "abit bf b1 = abit bf b" "frees b1 = frees b"
    using split_step [OF sh ok kn, of True] by auto
  note g1 = geomD [OF b1(2)]
  obtain b2 where b2: "at_info b1 k (alloc_set bf (2 * i) True) = Done b2" "geom b2 = geom b1" "shape b2"
    "abit bf b2 = upd2 (abit bf b1) k (2 * i) True" "sbit bf b2 = sbit bf b1" "frees b2 = frees b1"
    using alloc_step [OF b1(3), of k "2 * i" True] c kn by (auto simp: g1)
  note g2 = geomD [OF b2(2)]
  let ?a = "blk_addr b k (2 * i + 1)"
  obtain b3 where b3: "at_info b2 k (free_push ?a) = Done b3" "geom b3 = geom b2" "shape b3"
    "frees b3 = (frees b2)(k := ?a # frees b2 k)" "abit bf b3 = abit bf b2" "sbit bf b3 = sbit bf b2"
    using list_step [OF b2(3), of k "free_push ?a" "?a # frees b2 k"] kn
    by (auto simp: g1 g2 free_push_def)
  note g3 = geomD [OF b3(2)]
  have nf: "\<not> ffree (bs_base b) (frees b) k (2 * i + 1)"
    using t c ns by (auto simp: tree_ok_def)
  have fr: "ffree (bs_base b) (frees b3) = upd2 (ffree (bs_base b) (frees b)) k (2 * i + 1) True"
    unfolding b3(4) b2(6) b1(6) by (rule ffree_push) (simp add: blk_addr_def)
  note ts = tree_split [OF t lv]
  show thesis
  proof (rule that [OF b1(1) b2(1) b3(1) b1(2)])
    show "geom b3 = geom b" using b1 b2 b3 by simp
    have "lists_ok (max_size b) (bs_base b) (frees b3)"
      unfolding b3(4) b2(6) b1(6) using ls nf c by (intro lists_ok_push [of _ _ _ _ "2 * i + 1"]) (auto simp: blk_addr_def)
    then show "heap_inv bf b3"
      unfolding heap_inv_def g3 g2 g1 fr b3(5,6) b2(4,5) b1(4,5) using ts(1) b3(3) z pg
      by (simp add: upd2_apply)
    show "heap_live bf b3 = insert (k, 2 * i) (heap_live bf b - {(Suc k, i)})"
      using ts(2) by (simp add: heap_live_def g1 g2 g3 b1 b2 b3)
    show "(k, 2 * i) \<notin> heap_live bf b" using ts(3) by (simp add: heap_live_def)
  qed
qed

lemma split_down_spec:
  assumes "heap_inv bf b" and "(s + d, i) \<in> heap_live bf b"
  shows "\<exists>b'. split_down bf s (blk_addr b (s + d) i) (s + d) b = Done b' \<and> geom b' = geom b \<and>
           heap_inv bf b' \<and>
           heap_live bf b' = insert (s, i * 2 ^ d) (heap_live bf b - {(s + d, i)})"
  using assms
proof (induction d arbitrary: b i)
  case 0
  then show ?case by (auto simp: split_down.simps)
next
  case (Suc d)
  let ?a = "blk_addr b (s + Suc d) i"
  obtain b1 b2 b3 where b3: "at_info b (Suc (s + d)) (split_set bf i True) = Done b1"
    "at_info b1 (s + d) (alloc_set bf (2 * i) True) = Done b2"
    "at_info b2 (s + d) (free_push (blk_addr b (s + d) (2 * i + 1))) = Done b3"
    "geom b1 = geom b" "geom b3 = geom b" "heap_inv bf b3"
    "heap_live bf b3 = insert (s + d, 2 * i) (heap_live bf b - {(Suc (s + d), i)})"
    "(s + d, 2 * i) \<notin> heap_live bf b"
    using split_one [OF Suc.prems(1), of "s + d" i] Suc.prems(2) by auto
  note g1 = geomD [OF b3(4)] and g3 = geomD [OF b3(5)]
  have a: "?a = blk_addr b3 (s + d) (2 * i)" "blk_addr b (s + d) (2 * i + 1) = ?a + blk_size (s + d)"
    by (simp_all add: blk_addr_def blk_size_Suc g3)
  have ix: "blk_index b (Suc (s + d)) ?a = i" "blk_index b (s + d) ?a = 2 * i"
    by (simp_all add: blk_addr_def blk_index_def blk_size_Suc)
  obtain b' where ih: "split_down bf s (blk_addr b3 (s + d) (2 * i)) (s + d) b3 = Done b'"
    "geom b' = geom b3" "heap_inv bf b'"
    "heap_live bf b' = insert (s, 2 * i * 2 ^ d) (heap_live bf b3 - {(s + d, 2 * i)})"
    using Suc.IH [OF b3(6), of "2 * i"] b3(7) by auto
  have "split_down bf s ?a (s + Suc d) b = Done b'"
    using b3(1-3) ih(1) a(2)
    by (subst split_down.simps) (simp add: kres_simps ix [simplified] g1 a(1) [symmetric])
  then show ?case
    using ih b3(5,7,8) by (auto simp: algebra_simps insert_Diff_if)
qed

lemma take_one:
  assumes inv: "heap_inv bf b" and f: "frees b k = a # rest" and k: "k < bs_nsizes b"
  obtains i b1 b2 where "a = blk_addr b k i" and "blk_ok (max_size b) k i"
    and "at_info b k (\<lambda>i. Done (i\<lparr>bi_free := rest\<rparr>)) = Done b1"
    and "at_info b1 k (alloc_set bf (blk_index b1 k a) True) = Done b2"
    and "geom b2 = geom b" and "heap_inv bf b2"
    and "heap_live bf b2 = insert (k, i) (heap_live bf b)" and "(k, i) \<notin> heap_live bf b"
proof -
  note n = heap_inv_nsizes [OF inv]
  have sh: "shape b" and ls: "lists_ok (max_size b) (bs_base b) (frees b)"
    and t: "tree_ok (max_size b) (abit bf b) (sbit bf b) (ffree (bs_base b) (frees b))"
    and z: "abit bf b 0 0" and pg: "PAGE_BYTES dvd bs_base b" using inv by (auto simp: heap_inv_def)
  obtain i where i: "blk_ok (max_size b) k i" "a = bs_base b + i * blk_size k"
    using ls f k n unfolding lists_ok_def by (metis less_Suc_eq_le list.set_intros(1))
  have d: "distinct (frees b k)" using ls k n by (auto simp: lists_ok_def)
  have rm: "rest = remove1 a (frees b k)" by (simp add: f)
  obtain b1 where b1: "at_info b k (\<lambda>i. Done (i\<lparr>bi_free := rest\<rparr>)) = Done b1" "geom b1 = geom b" "shape b1"
    "frees b1 = (frees b)(k := rest)" "abit bf b1 = abit bf b" "sbit bf b1 = sbit bf b"
    using list_step [OF sh k, of "\<lambda>i. Done (i\<lparr>bi_free := rest\<rparr>)" rest] by auto
  note g1 = geomD [OF b1(2)]
  obtain b2 where b2: "at_info b1 k (alloc_set bf i True) = Done b2" "geom b2 = geom b1" "shape b2"
    "abit bf b2 = upd2 (abit bf b1) k i True" "sbit bf b2 = sbit bf b1" "frees b2 = frees b1"
    using alloc_step [OF b1(3), of k i True] i(1) k by (auto simp: g1)
  note g2 = geomD [OF b2(2)]
  have fr: "ffree (bs_base b) (frees b2) = upd2 (ffree (bs_base b) (frees b)) k i False"
    unfolding b2(6) b1(4) rm by (rule ffree_remove [OF i(2), of "frees b", OF d])
  have "ffree (bs_base b) (frees b) k i" using f i(2) by (simp add: ffree_def)
  note tk = tree_take [OF t i(1) this]
  show thesis
  proof (rule that [of i b1 b2])
    show "a = blk_addr b k i" using i by (simp add: blk_addr_def)
    show "blk_ok (max_size b) k i" by (rule i(1))
    show "at_info b k (\<lambda>i. Done (i\<lparr>bi_free := rest\<rparr>)) = Done b1" by (rule b1(1))
    show "at_info b1 k (alloc_set bf (blk_index b1 k a) True) = Done b2"
      using b2(1) by (simp add: g1 i(2))
    show "geom b2 = geom b" using b1 b2 by simp
    have "lists_ok (max_size b) (bs_base b) (frees b2)"
      unfolding b2(6) b1(4) rm by (rule lists_ok_remove [OF ls])
    then show "heap_inv bf b2"
      unfolding heap_inv_def g2 g1 fr b2(4,5) b1(5,6) using tk(1) b2(3) z pg by (simp add: upd2_apply)
    show "heap_live bf b2 = insert (k, i) (heap_live bf b)" "(k, i) \<notin> heap_live bf b"
      using tk(2,3) by (simp_all add: heap_live_def g1 g2 b2(4,5) b1(5,6))
  qed
qed

lemma alloc_spec:
  assumes inv: "heap_inv bf b" and sz: "0 < lay_size lay" and al: "lay_align lay \<le> PAGE_BYTES"
  defines "s \<equiv> small_size (lay_size lay)"
  shows "(buddy_alloc bf lay b = Done (None, b) \<and> (\<forall>k. s \<le> k \<and> k \<le> max_size b \<longrightarrow> frees b k = [])) \<or>
         (\<exists>i b'. buddy_alloc bf lay b = Done (Some (blk_addr b s i), b') \<and> geom b' = geom b \<and>
            heap_inv bf b' \<and> heap_live bf b' = insert (s, i) (heap_live bf b) \<and>
            (s, i) \<notin> heap_live bf b)"
proof -
  note n = heap_inv_nsizes [OF inv]
  have len: "length (bs_infos b) = bs_nsizes b" using inv by (simp add: heap_inv_def shape_def)
  obtain k where k: "find_size b s = Done k" "s \<le> k" "\<forall>j. s \<le> j \<and> j < k \<longrightarrow> frees b j = []"
    "k < bs_nsizes b \<longrightarrow> frees b k \<noteq> []"
    using find_size_spec [OF len, of s] by blast
  show ?thesis
  proof (cases "k < bs_nsizes b")
    case False
    then show ?thesis
      using k sz al n by (auto simp: buddy_alloc_def s_def [symmetric] kres_simps)
  next
    case True
    then obtain a rest where f: "frees b k = a # rest" using k(4) by (cases "frees b k") auto
    obtain j b1 b2 where b2: "a = blk_addr b k j" "blk_ok (max_size b) k j"
      "at_info b k (\<lambda>i. Done (i\<lparr>bi_free := rest\<rparr>)) = Done b1"
      "at_info b1 k (alloc_set bf (blk_index b1 k a) True) = Done b2" "geom b2 = geom b" "heap_inv bf b2"
      "heap_live bf b2 = insert (k, j) (heap_live bf b)" "(k, j) \<notin> heap_live bf b"
      using take_one [OF inv f True] by metis
    note g2 = geomD [OF b2(5)]
    obtain d where d: "k = s + d" using k(2) le_Suc_ex by blast
    obtain b' where b': "split_down bf s a k b2 = Done b'" "geom b' = geom b2" "heap_inv bf b'"
      "heap_live bf b' = insert (s, j * 2 ^ d) (heap_live bf b2 - {(k, j)})"
      using split_down_spec [OF b2(6), of s d j] b2(1,7) by (auto simp: d g2)
    have a: "a = blk_addr b s (j * 2 ^ d)" by (simp add: b2(1) blk_addr_def blk_size_def d power_add)
    have fresh: "(s, j * 2 ^ d) \<notin> heap_live bf b"
    proof
      assume m: "(s, j * 2 ^ d) \<in> heap_live bf b"
      have "(s, j * 2 ^ d) \<noteq> (k, j)" using m b2(8) by metis
      then have "blk_bytes b2 (s, j * 2 ^ d) \<inter> blk_bytes b2 (k, j) = {}"
        using m b2(7) by (intro heap_live_disjoint [OF b2(6)]) auto
      moreover have "a \<in> blk_bytes b2 (s, j * 2 ^ d)" "a \<in> blk_bytes b2 (k, j)"
        using a b2(1) by (auto simp: blk_bytes_def g2)
      ultimately show False by blast
    qed
    have "buddy_alloc bf lay b = Done (Some a, b')"
      using k(1) True sz al b2(3,4) b'(1) f len
      by (simp add: buddy_alloc_def s_def [symmetric] get_info_def frees_def kres_simps)
    then show ?thesis
      using a b' b2(5,7,8) fresh by (auto intro!: exI [of _ "j * 2 ^ d"])
  qed
qed

end

section \<open>Deallocation\<close>

lemma blk_ok_desc:
  assumes "blk_ok mx (j + d) i"
  shows "blk_ok mx j (i * 2 ^ d)"
proof -
  have "(2 :: nat) ^ (mx - j) = 2 ^ (mx - (j + d)) * 2 ^ d"
    using assms by (simp add: blk_ok_def power_add [symmetric])
  then show ?thesis using assms by (simp add: blk_ok_def)
qed

lemma buddy_of_eq: "buddy_of i = (if even i then i + 1 else i - 1)"
  by (simp add: buddy_of_def)

lemma blk_index_parent: "blk_index b (Suc k) (bs_base b + i * blk_size k) = i div 2"
  by (simp add: blk_index_def blk_size_Suc div_mult2_eq mult.commute)

lemma live_desc_not_split:
  assumes t: "tree_ok mx A S F" and l: "(j + d, i) \<in> live mx A S" and "0 < j"
  shows "\<not> S j (i * 2 ^ d)"
proof
  assume s: "S j (i * 2 ^ d)"
  have ok: "blk_ok mx (j + d) i" and ns: "\<not> S (j + d) i" using l \<open>0 < j\<close> by (auto simp: live_def)
  note ok' = blk_ok_desc [OF ok]
  have "A j (i * 2 ^ d)" using t ok' s \<open>0 < j\<close> by (auto simp: tree_ok_def)
  then have "S (j + d) i"
    using tree_up [OF t ok', of "d - 1"] s ok by (cases d) (auto simp: blk_ok_def)
  then show False using ns by simp
qed

context bit_crate
begin

lemma find_level_spec:
  assumes inv: "heap_inv bf b" and l: "(j + d, i) \<in> heap_live bf b" and nf: "(j + d, i) \<noteq> (0, 0)"
  shows "find_level bf b (blk_addr b (j + d) i) j = Done (j + d)"
  using l nf
proof (induction d arbitrary: j)
  case 0
  note n = heap_inv_nsizes [OF inv]
  have sh: "shape b"
    and t: "tree_ok (max_size b) (abit bf b) (sbit bf b) (ffree (bs_base b) (frees b))"
    and z: "abit bf b 0 0" using inv by (auto simp: heap_inv_def)
  have lv: "(j, i) \<in> live (max_size b) (abit bf b) (sbit bf b)" using 0 by (simp add: heap_live_def)
  then have ok: "blk_ok (max_size b) j i" and a: "abit bf b j i" by (auto simp: live_def)
  have lt: "j < max_size b" using live_not_first [OF t z lv] 0 by simp
  have "sbit bf b (Suc j) (i div 2)" using tree_alloc_parent [OF t ok lt a] .
  then show ?case
    using get_alloc [OF sh blk_ok_parent [OF ok lt]] lt n
    by (subst find_level.simps) (simp add: blk_addr_def blk_index_parent kres_simps)
next
  case (Suc d)
  note n = heap_inv_nsizes [OF inv]
  have sh: "shape b"
    and t: "tree_ok (max_size b) (abit bf b) (sbit bf b) (ffree (bs_base b) (frees b))"
    and z: "abit bf b 0 0" using inv by (auto simp: heap_inv_def)
  have lv: "(Suc j + d, i) \<in> live (max_size b) (abit bf b) (sbit bf b)" using Suc by (simp add: heap_live_def)
  have lt: "Suc j + d < max_size b" using live_not_first [OF t z lv] by simp
  have ok: "blk_ok (max_size b) (Suc j) (i * 2 ^ d)" using lv by (intro blk_ok_desc) (auto simp: live_def)
  have ns: "\<not> sbit bf b (Suc j) (i * 2 ^ d)" using live_desc_not_split [OF t lv] by simp
  have ix: "blk_index b (Suc j) (blk_addr b (Suc (j + d)) i) = i * 2 ^ d"
    by (simp add: blk_index_def blk_addr_def blk_size_def power_add LEAF_SIZE_def)
  have "find_level bf b (blk_addr b (Suc j + d) i) (Suc j) = Done (Suc j + d)"
    using Suc.IH [of "Suc j"] Suc.prems by simp
  then show ?case
    using get_alloc [OF sh ok] ns lt n by (subst find_level.simps) (simp add: ix kres_simps)
qed

lemma merge_one:
  assumes inv: "heap_inv bf b" and l: "(k, i) \<in> heap_live bf b" and nf: "(k, i) \<noteq> (0, 0)"
    and na: "\<not> abit bf b k (buddy_of i)"
    and b1: "at_info b k (alloc_set bf i False) = Done b1" "geom b1 = geom b" "shape b1"
      "abit bf b1 = upd2 (abit bf b) k i False" "sbit bf b1 = sbit bf b" "frees b1 = frees b"
  obtains b2 b3 where "at_info b1 k (free_unlink (blk_addr b k (buddy_of i))) = Done b2" "geom b2 = geom b"
    and "at_info b2 (Suc k) (split_set bf (i div 2) False) = Done b3"
    and "geom b3 = geom b" and "heap_inv bf b3"
    and "heap_live bf b3 = insert (Suc k, i div 2) (heap_live bf b - {(k, i)})"
    and "(Suc k, i div 2) \<notin> heap_live bf b"
proof -
  note n = heap_inv_nsizes [OF inv]
  have sh: "shape b" and ls: "lists_ok (max_size b) (bs_base b) (frees b)"
    and t: "tree_ok (max_size b) (abit bf b) (sbit bf b) (ffree (bs_base b) (frees b))"
    and z: "abit bf b 0 0" and pg: "PAGE_BYTES dvd bs_base b" using inv by (auto simp: heap_inv_def)
  have lv: "(k, i) \<in> live (max_size b) (abit bf b) (sbit bf b)" using l by (simp add: heap_live_def)
  then have ok: "blk_ok (max_size b) k i" and a: "abit bf b k i" by (auto simp: live_def)
  have km: "Suc k < max_size b" using merge_below_root [OF t z lv nf] na by (simp add: buddy_of_def)
  note okp = blk_ok_parent [OF ok]
  note tm = tree_merge [OF t lv km, folded buddy_of_eq, OF na]
  note g1 = geomD [OF b1(2)]
  let ?a = "blk_addr b k (buddy_of i)"
  have d: "distinct (frees b k)" using ls km by (auto simp: lists_ok_def)
  have mem: "?a \<in> set (frees b k)" using tm(1) by (simp add: ffree_def blk_addr_def)
  obtain b2 where b2: "at_info b1 k (free_unlink ?a) = Done b2" "geom b2 = geom b1" "shape b2"
    "frees b2 = (frees b1)(k := remove1 ?a (frees b k))" "abit bf b2 = abit bf b1" "sbit bf b2 = sbit bf b1"
    using list_step [OF b1(3), of k "free_unlink ?a" "remove1 ?a (frees b k)"] km n mem
    by (auto simp: g1 free_unlink_def b1(6))
  note g2 = geomD [OF b2(2)]
  obtain b3 where b3: "at_info b2 (Suc k) (split_set bf (i div 2) False) = Done b3" "geom b3 = geom b2" "shape b3"
    "sbit bf b3 = upd2 (sbit bf b2) (Suc k) (i div 2) False" "abit bf b3 = abit bf b2" "frees b3 = frees b2"
    using split_step [OF b2(3), of "Suc k" "i div 2" False] okp km n by (auto simp: g1 g2)
  note g3 = geomD [OF b3(2)]
  have fr: "ffree (bs_base b) (frees b3) = upd2 (ffree (bs_base b) (frees b)) k (buddy_of i) False"
    unfolding b3(6) b2(4) b1(6) using d by (intro ffree_remove) (simp_all add: blk_addr_def)
  show thesis
  proof (rule that [OF b2(1) _ b3(1)])
    show "geom b2 = geom b" "geom b3 = geom b" using b1 b2 b3 by simp_all
    have "lists_ok (max_size b) (bs_base b) (frees b3)"
      unfolding b3(6) b2(4) b1(6) by (rule lists_ok_remove [OF ls])
    then show "heap_inv bf b3"
      unfolding heap_inv_def g3 g2 g1 fr b3(4,5) b2(5,6) b1(4,5)
      using tm(2) b3(3) z pg nf by (simp add: upd2_apply)
    show "heap_live bf b3 = insert (Suc k, i div 2) (heap_live bf b - {(k, i)})"
      using tm(3) by (simp add: heap_live_def g1 g2 g3 b3(4,5) b2(5,6) b1(4,5))
    show "(Suc k, i div 2) \<notin> heap_live bf b"
      using tree_alloc_parent [OF t ok _ a] km by (simp add: heap_live_def live_def)
  qed
qed

lemma merge_up_spec:
  assumes "heap_inv bf b" and "(k, i) \<in> heap_live bf b" and "(k, i) \<noteq> (0, 0)"
  shows "\<exists>k' a' b' b''. merge_up bf (max_size b) k (blk_addr b k i) b = Done (k', a', b') \<and>
           at_info b' k' (free_push a') = Done b'' \<and> geom b'' = geom b \<and> heap_inv bf b'' \<and>
           heap_live bf b'' = heap_live bf b - {(k, i)}"
  using assms
proof (induction "max_size b - k" arbitrary: b k i rule: less_induct)
  case less
  note inv = less.prems(1)
  note n = heap_inv_nsizes [OF inv]
  have sh: "shape b" and ls: "lists_ok (max_size b) (bs_base b) (frees b)"
    and t: "tree_ok (max_size b) (abit bf b) (sbit bf b) (ffree (bs_base b) (frees b))"
    and z: "abit bf b 0 0" and pg: "PAGE_BYTES dvd bs_base b" using inv by (auto simp: heap_inv_def)
  have lv: "(k, i) \<in> live (max_size b) (abit bf b) (sbit bf b)" using less.prems(2) by (simp add: heap_live_def)
  then have ok: "blk_ok (max_size b) k i" and al: "abit bf b k i" by (auto simp: live_def)
  have km: "k < max_size b" using live_not_first [OF t z lv less.prems(3)] by simp
  let ?a = "blk_addr b k i" and ?j = "buddy_of i"
  have okj: "blk_ok (max_size b) k ?j" using blk_ok_buddy [OF ok km] by (simp add: buddy_of_def)
  have ji: "?j \<noteq> i" by (auto simp: buddy_of_def elim: oddE)
  obtain b1 where b1: "at_info b k (alloc_set bf i False) = Done b1" "geom b1 = geom b" "shape b1"
    "abit bf b1 = upd2 (abit bf b) k i False" "sbit bf b1 = sbit bf b" "frees b1 = frees b"
    using alloc_step [OF sh ok, of False] km n by auto
  note g1 = geomD [OF b1(2)]
  have ix: "blk_index b k ?a = i" by (simp add: blk_addr_def)
  have rd: "get_info b1 k = Done (bs_infos b1 ! k)"
    "is_alloc_set bf ?j (bs_infos b1 ! k) = Done (abit bf b k ?j)"
    using get_alloc [OF b1(3), of k ?j] okj km n ji by (simp_all add: g1 b1(4) upd2_apply)
  show ?case
  proof (cases "abit bf b k ?j")
    case True
    have m: "merge_up bf (max_size b) k ?a b = Done (k, ?a, b1)"
      using km b1(1) rd True by (subst merge_up.simps) (simp add: ix kres_simps Let_def)
    note tr = tree_release [OF t lv km, folded buddy_of_eq, OF True]
    have nfr: "\<not> ffree (bs_base b) (frees b) k i" using t ok al by (auto simp: tree_ok_def)
    obtain b2 where b2: "at_info b1 k (free_push ?a) = Done b2" "geom b2 = geom b1" "shape b2"
      "frees b2 = (frees b1)(k := ?a # frees b k)" "abit bf b2 = abit bf b1" "sbit bf b2 = sbit bf b1"
      using list_step [OF b1(3), of k "free_push ?a" "?a # frees b k"] km n
      by (auto simp: g1 free_push_def b1(6))
    note g2 = geomD [OF b2(2)]
    have fr: "ffree (bs_base b) (frees b2) = upd2 (ffree (bs_base b) (frees b)) k i True"
      unfolding b2(4) b1(6) by (rule ffree_push) (simp add: blk_addr_def)
    have "lists_ok (max_size b) (bs_base b) (frees b2)"
      unfolding b2(4) b1(6) using ls ok nfr by (intro lists_ok_push [of _ _ _ _ i]) (auto simp: blk_addr_def)
    then have "heap_inv bf b2"
      unfolding heap_inv_def g2 g1 fr b2(5,6) b1(4,5)
      using tr(1) b2(3) z pg less.prems(3) by (simp add: upd2_apply)
    moreover have "heap_live bf b2 = heap_live bf b - {(k, i)}"
      using tr(2) by (simp add: heap_live_def g1 g2 b2(5,6) b1(4,5))
    ultimately show ?thesis using m b2(1,2) b1(2) by auto
  next
    case False
    obtain b2 b3 where b3: "at_info b1 k (free_unlink (blk_addr b k ?j)) = Done b2" "geom b2 = geom b"
      "at_info b2 (Suc k) (split_set bf (i div 2) False) = Done b3" "geom b3 = geom b" "heap_inv bf b3"
      "heap_live bf b3 = insert (Suc k, i div 2) (heap_live bf b - {(k, i)})"
      "(Suc k, i div 2) \<notin> heap_live bf b"
      using merge_one [OF inv less.prems(2,3) False b1] by metis
    note g2 = geomD [OF b3(2)] and g3 = geomD [OF b3(4)]
    let ?r = "if even ?j then blk_addr b k ?j else ?a"
    have r: "?r = blk_addr b3 (Suc k) (i div 2)" "blk_index b (Suc k) ?r = i div 2"
      by (auto simp: buddy_of_def blk_addr_def blk_size_Suc g3 blk_index_parent elim!: evenE oddE)
    obtain k' a' b' b'' where ih: "merge_up bf (max_size b3) (Suc k) (blk_addr b3 (Suc k) (i div 2)) b3 = Done (k', a', b')"
      "at_info b' k' (free_push a') = Done b''" "geom b'' = geom b3" "heap_inv bf b''"
      "heap_live bf b'' = heap_live bf b3 - {(Suc k, i div 2)}"
    proof -
      have "max_size b3 - Suc k < max_size b - k" using km g3(3) by simp
      from less.hyps [OF this b3(5), of "i div 2"] show thesis using that b3(6) by auto
    qed
    have "merge_up bf (max_size b) k ?a b = Done (k', a', b')"
      using km b1(1) rd False b3(1,3) ih(1) r
      by (subst merge_up.simps) (simp add: ix kres_simps Let_def g1 g2 g3)
    then show ?thesis using ih b3 by auto
  qed
qed

lemma dealloc_spec:
  assumes inv: "heap_inv bf b" and l: "(k, i) \<in> heap_live bf b" and nf: "(k, i) \<noteq> (0, 0)"
    and rg: "blk_addr b k i < bs_actual_end b" and sz: "lay_size lay \<le> blk_size k"
  shows "\<exists>b'. buddy_dealloc bf (blk_addr b k i) lay b = Done b' \<and> geom b' = geom b \<and>
           heap_inv bf b' \<and> heap_live bf b' = heap_live bf b - {(k, i)}"
proof -
  have "find_level bf b (blk_addr b k i) 0 = Done k"
    using find_level_spec [OF inv, of 0 k i] l nf by simp
  moreover have "k < bs_nsizes b"
    using l heap_inv_nsizes [OF inv] by (auto simp: heap_live_def live_def blk_ok_def)
  ultimately show ?thesis
    using merge_up_spec [OF inv l nf] rg sz
    by (auto simp: buddy_dealloc_def blk_addr_def kres_simps)
qed

end

end
