(* ===== verification/KernelHeap.thy ===== *)
theory KernelHeap
  imports BuddyInv
begin

text \<open>
  What the kernel heap promises: blocks handed out are large enough, aligned and do not
  overlap, releasing a block gives it back, and free memory is always fully merged.
\<close>

section \<open>Choosing a size\<close>

lemma log2_bounds:
  "0 < n \<Longrightarrow> 2 ^ log2 n \<le> n \<and> n < 2 ^ Suc (log2 n)"
proof (induction n rule: log2.induct)
  case (1 n)
  show ?case
  proof (cases "n > 1")
    case True
    then have "2 ^ log2 (n div 2) \<le> n div 2 \<and> n div 2 < 2 ^ Suc (log2 (n div 2))"
      using 1 by simp
    then show ?thesis using True by (simp add: log2.simps [of n]) linarith
  next
    case False
    then show ?thesis using 1 by (simp add: log2.simps [of n])
  qed
qed

lemma trailing_zeros_pow2: "trailing_zeros (2 ^ n) = n"
  by (induction n) (simp_all add: trailing_zeros.simps)

lemma small_size_fits:
  assumes "0 < sz"
  shows "sz \<le> blk_size (small_size sz)" and "0 < small_size sz \<Longrightarrow> blk_size (small_size sz - 1) < sz"
proof -
  have "sz \<le> blk_size (small_size sz) \<and> (0 < small_size sz \<longrightarrow> blk_size (small_size sz - 1) < sz)"
  proof (cases "sz \<le> LEAF_SIZE")
    case True
    then show ?thesis by (simp add: small_size_def blk_size_def)
  next
    case False
    let ?l = "log2 (sz - 1)"
    have b: "2 ^ ?l \<le> sz - 1" "sz - 1 < 2 ^ Suc ?l"
      using log2_bounds [of "sz - 1"] False by (simp_all add: LEAF_SIZE_def)
    have "(2 :: nat) ^ 4 < 2 ^ Suc ?l" using b(2) False by (simp add: LEAF_SIZE_def)
    then have l: "4 \<le> ?l" using power_less_imp_less_exp [of "2 :: nat" 4 "Suc ?l"] by simp
    then have p: "(2 :: nat) ^ Suc ?l = 2 ^ (?l - 3) * 16" "(2 :: nat) ^ ?l = 2 ^ (?l - 4) * 16"
      using power_add [of "2 :: nat" "?l - 3" 4] power_add [of "2 :: nat" "?l - 4" 4] by simp_all
    have s: "small_size sz = ?l - 3"
      using False p(1) by (simp add: small_size_def next_power_of_two_def LEAF_SIZE_def trailing_zeros_pow2)
    have "small_size sz - 1 = ?l - 4" using s by simp
    moreover have "sz \<le> 2 ^ (?l - 3) * 16" "2 ^ (?l - 4) * 16 < sz"
      using b False unfolding p by (simp_all add: LEAF_SIZE_def)
    ultimately show ?thesis unfolding s by (simp add: blk_size_def LEAF_SIZE_def)
  qed
  then show "sz \<le> blk_size (small_size sz)" "0 < small_size sz \<Longrightarrow> blk_size (small_size sz - 1) < sz"
    by auto
qed

lemma blk_size_mono: "k \<le> k' \<Longrightarrow> blk_size k \<le> blk_size k'"
  by (simp add: blk_size_def)

lemma blk_addr_aligned:
  assumes "PAGE_BYTES dvd bs_base b" and "2 ^ p \<le> PAGE_BYTES" and "2 ^ p \<le> blk_size k"
  shows "2 ^ p dvd blk_addr b k i"
proof -
  have s: "PAGE_BYTES = 2 ^ 12" "blk_size k = 2 ^ (k + 4)"
    by (simp_all add: PAGE_BYTES_def blk_size_def LEAF_SIZE_def power_add)
  have "p \<le> 12" "p \<le> k + 4"
    using assms(2,3) unfolding s by (simp_all only: power_increasing_iff one_less_numeral_iff semiring_norm)
  then have "(2 :: nat) ^ p dvd PAGE_BYTES" "(2 :: nat) ^ p dvd blk_size k"
    unfolding s by (auto intro: le_imp_power_dvd simp del: power_numeral)
  then show ?thesis using assms(1) by (auto simp: blk_addr_def intro: dvd_trans)
qed

section \<open>The bits of a byte\<close>

text \<open>The law of the bit crate holds for the bits of an 8-bit word.\<close>

definition word_bits :: bit_field where
  "word_bits = \<lparr>get_bit = (\<lambda>w i. bit w i),
                set_bit_to = (\<lambda>w i v. if v then set_bit i w else unset_bit i w)\<rparr>"

interpretation word_bits: bit_crate word_bits
  by unfold_locales (auto simp: word_bits_def bit_set_bit_iff bit_unset_bit_iff)

text \<open>The leaves past the end of memory stay reserved.\<close>

definition tail_reserved :: "bit_field \<Rightarrow> buddy_system \<Rightarrow> bool" where
  "tail_reserved bf b \<longleftrightarrow>
     (\<forall>j < 2 ^ max_size b. bs_actual_end b \<le> blk_addr b 0 j \<longrightarrow> (0, j) \<in> heap_live bf b)"

text \<open>A heap of two leaves, the first one reserved, as an example.\<close>

definition two_leaves :: buddy_system where
  "two_leaves = \<lparr>bs_base = 4096, bs_actual_end = 4128, bs_nsizes = 2, bs_initialized = True,
     bs_infos = [\<lparr>bi_free = [4112], bi_alloc = [1], bi_split = []\<rparr>,
                 \<lparr>bi_free = [], bi_alloc = [1], bi_split = [1]\<rparr>]\<rparr>"

lemma blk_ok_1: "blk_ok (Suc 0) k i \<longleftrightarrow> k = 0 \<and> (i = 0 \<or> i = Suc 0) \<or> k = Suc 0 \<and> i = 0"
  by (cases k) (auto simp: blk_ok_def le_Suc_eq)

lemma two_leaves_bits:
  "abit word_bits two_leaves 0 0" "\<not> abit word_bits two_leaves 0 (Suc 0)"
  "abit word_bits two_leaves (Suc 0) 0" "sbit word_bits two_leaves (Suc 0) 0"
  "frees two_leaves 0 = [4112]" "frees two_leaves (Suc 0) = []" "max_size two_leaves = Suc 0"
  by (simp_all add: abit_def sbit_def frees_def two_leaves_def word_bits_def max_size_def bit_1_iff)

lemma two_leaves_inv: "heap_inv word_bits two_leaves"
proof -
  have "shape two_leaves"
    by (auto simp: shape_def two_leaves_def max_size_def less_Suc_eq numeral_2_eq_2)
  moreover have "lists_ok (Suc 0) 4096 (frees two_leaves)"
    by (auto simp: lists_ok_def two_leaves_bits blk_ok_1 blk_size_def LEAF_SIZE_def le_Suc_eq)
  moreover have "tree_ok (Suc 0) (abit word_bits two_leaves) (sbit word_bits two_leaves) (ffree 4096 (frees two_leaves))"
    using two_leaves_bits
    by (auto simp: tree_ok_def blk_ok_1 ffree_def blk_size_def LEAF_SIZE_def)
  ultimately show ?thesis
    using two_leaves_bits by (simp add: heap_inv_def two_leaves_bits) (simp add: two_leaves_def PAGE_BYTES_def)
qed

lemma two_leaves_live: "heap_live word_bits two_leaves = {(0, 0)}"
  using two_leaves_bits by (auto simp: heap_live_def live_def blk_ok_1)

lemma two_leaves_tail: "tail_reserved word_bits two_leaves"
  by (auto simp: tail_reserved_def two_leaves_bits two_leaves_live)
    (simp add: two_leaves_def blk_addr_def blk_size_def LEAF_SIZE_def)

lemma two_leaves_alloc:
  "\<exists>b1. buddy_alloc word_bits \<lparr>lay_size = 16, lay_align = 8\<rparr> two_leaves = Done (Some 4112, b1)"
proof -
  have "find_size two_leaves 0 = Done 0"
    by (simp add: find_size.simps [of _ 0] two_leaves_def get_info_def kres_simps)
  then show ?thesis
    by (simp add: buddy_alloc_def two_leaves_def small_size_def LEAF_SIZE_def PAGE_BYTES_def get_info_def
        at_info_def alloc_set_def byte_set_def blk_index_def blk_size_def split_down.simps kres_simps)
qed

section \<open>Properties\<close>

text \<open>
  C2 (heap allocation): for a request of positive size whose alignment is a power of two
  of at most a page and divides the size, the allocator never panics and never touches
  memory outside its tables. Either it returns null, changes nothing, and every free
  block is smaller than the request; or it returns an aligned block of the smallest
  sufficient size that overlaps no block handed out before, and exactly this block is
  added to the blocks handed out.
\<close>

theorem heap_alloc_correct:
  assumes "bit_crate bf" and inv: "heap_inv bf b" and "0 < lay_size lay"
    and al: "lay_align lay = 2 ^ p" "lay_align lay \<le> PAGE_BYTES" "lay_align lay dvd lay_size lay"
  shows "case buddy_alloc bf lay b of
           Done (None, b') \<Rightarrow> b' = b \<and> (\<forall>k \<le> max_size b. frees b k \<noteq> [] \<longrightarrow> blk_size k < lay_size lay)
         | Done (Some a, b') \<Rightarrow>
             heap_inv bf b' \<and> lay_align lay dvd a \<and>
             (\<exists>k i. a = blk_addr b k i \<and> lay_size lay \<le> blk_size k \<and>
                (0 < k \<longrightarrow> blk_size (k - 1) < lay_size lay) \<and>
                heap_live bf b' = insert (k, i) (heap_live bf b) \<and>
                (\<forall>blk \<in> heap_live bf b. blk_bytes b blk \<inter> {a..<a + blk_size k} = {}))
         | Panicked _ \<Rightarrow> False"
proof -
  let ?s = "small_size (lay_size lay)"
  note fit = small_size_fits [OF assms(3)]
  from bit_crate.alloc_spec [OF assms(1,2,3) al(2)] consider
    (none) "buddy_alloc bf lay b = Done (None, b)" "\<forall>k. ?s \<le> k \<and> k \<le> max_size b \<longrightarrow> frees b k = []"
    | (some) i b' where "buddy_alloc bf lay b = Done (Some (blk_addr b ?s i), b')" "geom b' = geom b"
      "heap_inv bf b'" "heap_live bf b' = insert (?s, i) (heap_live bf b)" "(?s, i) \<notin> heap_live bf b"
    by blast
  then show ?thesis
  proof cases
    case none
    have "blk_size k < lay_size lay" if "k \<le> max_size b" "frees b k \<noteq> []" for k
    proof -
      have "k < ?s" using none(2) that by (meson not_le)
      then have "blk_size k \<le> blk_size (?s - 1)" by (intro blk_size_mono) simp
      then show ?thesis using fit(2) \<open>k < ?s\<close> by simp
    qed
    then show ?thesis using none(1) by simp
  next
    case some
    have "lay_align lay \<le> blk_size ?s"
      using dvd_imp_le [OF al(3) assms(3)] fit(1) by simp
    then have ad: "lay_align lay dvd blk_addr b ?s i"
      using inv al(1,2) by (simp add: heap_inv_def blk_addr_aligned)
    have "blk_bytes b blk \<inter> {blk_addr b ?s i..<blk_addr b ?s i + blk_size ?s} = {}"
      if "blk \<in> heap_live bf b" for blk
    proof -
      have "blk_bytes b' blk \<inter> blk_bytes b' (?s, i) = {}"
        using heap_live_disjoint [OF some(3), of "fst blk" "snd blk" ?s i] some(4,5) that by auto
      then show ?thesis
        using geomD(5,6) [OF some(2)] by (simp add: blk_bytes_def [of b'])
    qed
    then have "\<exists>k j. blk_addr b ?s i = blk_addr b k j \<and> lay_size lay \<le> blk_size k \<and>
        (0 < k \<longrightarrow> blk_size (k - 1) < lay_size lay) \<and>
        heap_live bf b' = insert (k, j) (heap_live bf b) \<and>
        (\<forall>blk \<in> heap_live bf b. blk_bytes b blk \<inter> {blk_addr b ?s i..<blk_addr b ?s i + blk_size k} = {})"
      using some(4) fit by (intro exI [of _ ?s] exI [of _ i] conjI) auto
    then show ?thesis using some(1,3) ad by simp
  qed
qed

theorem heap_alloc_correct_witness:
  "heap_inv word_bits two_leaves \<and>
   (\<exists>b'. buddy_alloc word_bits \<lparr>lay_size = 16, lay_align = 8\<rparr> two_leaves = Done (Some 4112, b') \<and>
      heap_inv word_bits b' \<and> (\<exists>k i. heap_live word_bits b' = {(0, 0), (k, i)}))"
proof -
  obtain b1 where "buddy_alloc word_bits \<lparr>lay_size = 16, lay_align = 8\<rparr> two_leaves = Done (Some 4112, b1)"
    using two_leaves_alloc by blast
  then show ?thesis
    using heap_alloc_correct [OF word_bits.bit_crate_axioms two_leaves_inv,
        of "\<lparr>lay_size = 16, lay_align = 8\<rparr>" 3] two_leaves_inv
    by (auto simp: PAGE_BYTES_def two_leaves_live insert_commute)
qed

text \<open>
  C3 (heap release): releasing a block that was handed out, with a size that fits it,
  never panics: the search finds the block's size, every unlinked buddy is on its free
  list, and afterwards exactly this block is no longer handed out.
\<close>

theorem heap_dealloc_correct:
  assumes "bit_crate bf" and "heap_inv bf b" and "(k, i) \<in> heap_live bf b" and "(k, i) \<noteq> (0, 0)"
    and "blk_addr b k i < bs_actual_end b" and "lay_size lay \<le> blk_size k"
  shows "\<exists>b'. buddy_dealloc bf (blk_addr b k i) lay b = Done b' \<and> heap_inv bf b' \<and>
           bs_base b' = bs_base b \<and> max_size b' = max_size b \<and>
           heap_live bf b' = heap_live bf b - {(k, i)}"
proof -
  obtain b' where "buddy_dealloc bf (blk_addr b k i) lay b = Done b'" and g: "geom b' = geom b"
    and "heap_inv bf b'" and "heap_live bf b' = heap_live bf b - {(k, i)}"
    using bit_crate.dealloc_spec [OF assms] by metis
  then show ?thesis using geomD(1,3) [OF g] by metis
qed

theorem heap_dealloc_correct_witness:
  "\<exists>b1 b'. buddy_alloc word_bits \<lparr>lay_size = 16, lay_align = 8\<rparr> two_leaves = Done (Some 4112, b1) \<and>
      (0, 1) \<in> heap_live word_bits b1 \<and>
      buddy_dealloc word_bits 4112 \<lparr>lay_size = 16, lay_align = 8\<rparr> b1 = Done b' \<and>
      heap_live word_bits b' = {(0, 0)}"
proof -
  have "small_size 16 = 0" by (simp add: small_size_def LEAF_SIZE_def)
  then obtain i b1 where b1: "buddy_alloc word_bits \<lparr>lay_size = 16, lay_align = 8\<rparr> two_leaves = Done (Some 4112, b1)"
    "blk_addr two_leaves 0 i = 4112" "geom b1 = geom two_leaves" "heap_inv word_bits b1"
    "heap_live word_bits b1 = insert (0, i) {(0, 0)}"
    using word_bits.alloc_spec [OF two_leaves_inv, of "\<lparr>lay_size = 16, lay_align = 8\<rparr>"] two_leaves_alloc
    by (auto simp: PAGE_BYTES_def two_leaves_live)
  note g = geomD [OF b1(3)]
  have i: "i = 1" using b1(2) by (simp add: blk_addr_def two_leaves_def blk_size_def LEAF_SIZE_def)
  have "(4112 :: nat) < bs_actual_end b1" by (simp add: g) (simp add: two_leaves_def)
  then show ?thesis
    using heap_dealloc_correct [OF word_bits.bit_crate_axioms b1(4), of 0 1 "\<lparr>lay_size = 16, lay_align = 8\<rparr>"]
      b1 by (auto simp: i g blk_size_def LEAF_SIZE_def)
qed

section \<open>Round trip\<close>

lemma frees_canonical:
  assumes "heap_inv bf b" and "heap_inv bf b'" and "geom b' = geom b"
    and "heap_live bf b' = heap_live bf b" and "k \<le> max_size b"
  shows "set (frees b' k) = set (frees b k)"
proof -
  note g = geomD [OF assms(3)]
  have sub: "a \<in> set (frees c' k)"
    if "heap_inv bf c" "heap_inv bf c'" "geom c' = geom c" "heap_live bf c' = heap_live bf c"
      "k \<le> max_size c" and a: "a \<in> set (frees c k)" for c c' a
  proof -
    note gc = geomD [OF that(3)] and c = that(1,5)
    obtain i where i: "blk_ok (max_size c) k i" "a = bs_base c + i * blk_size k"
      using c a by (force simp: heap_inv_def lists_ok_def)
    have "ffree (bs_base c) (frees c) k i = ffree (bs_base c) (frees c') k i"
    proof (rule tree_canonical(3) [OF _ _ _ i(1)])
      show "tree_ok (max_size c) (abit bf c) (sbit bf c) (ffree (bs_base c) (frees c))"
        "tree_ok (max_size c) (abit bf c') (sbit bf c') (ffree (bs_base c) (frees c'))"
        using that(1,2) by (simp_all add: heap_inv_def gc)
      show "live (max_size c) (abit bf c) (sbit bf c) = live (max_size c) (abit bf c') (sbit bf c')"
        using that(4) by (simp add: heap_live_def gc)
    qed
    then show ?thesis using a i(2) by (simp add: ffree_def)
  qed
  show ?thesis
    using sub [OF assms(1,2,3,4,5)] sub [OF assms(2,1) assms(3) [symmetric] assms(4) [symmetric]] assms(5) g(3)
    by auto
qed

text \<open>
  C13 (heap round trip): releasing a block right after allocating it restores every free
  list, as a set: all splitting is undone by merging, so no fragmentation remains.
\<close>

theorem heap_alloc_dealloc_roundtrip:
  assumes bc: "bit_crate bf" and inv: "heap_inv bf b" and tl: "tail_reserved bf b"
    and "0 < lay_size lay" and "lay_align lay \<le> PAGE_BYTES"
    and r: "buddy_alloc bf lay b = Done (Some a, b1)"
  shows "\<exists>b2. buddy_dealloc bf a lay b1 = Done b2 \<and> heap_inv bf b2 \<and>
           heap_live bf b2 = heap_live bf b \<and>
           (\<forall>k \<le> max_size b. set (frees b2 k) = set (frees b k))"
proof -
  let ?s = "small_size (lay_size lay)"
  obtain i where a: "a = blk_addr b ?s i" "geom b1 = geom b" "heap_inv bf b1"
    "heap_live bf b1 = insert (?s, i) (heap_live bf b)" "(?s, i) \<notin> heap_live bf b"
    using bit_crate.alloc_spec [OF bc inv assms(4,5)] r by auto
  note g = geomD [OF a(2)]
  have l: "(?s, i) \<in> heap_live bf b1" using a(4) by simp
  have "(0, 0) \<in> heap_live bf b" using inv by (auto simp: heap_inv_def heap_live_def live_def blk_ok_def)
  then have nf: "(?s, i) \<noteq> (0, 0)" using a(5) by metis
  have rg: "a < bs_actual_end b"
  proof (rule ccontr)
    assume "\<not> a < bs_actual_end b"
    moreover have a0: "a = blk_addr b 0 (i * 2 ^ ?s)" by (simp add: a(1) blk_addr_def blk_size_def)
    moreover have "i * 2 ^ ?s < 2 ^ max_size b"
      using l blk_ok_desc [of "max_size b" 0 ?s i] by (auto simp: heap_live_def live_def g blk_ok_def)
    ultimately have m: "(0, i * 2 ^ ?s) \<in> heap_live bf b" using tl by (simp add: tail_reserved_def)
    then have "blk_bytes b1 (0, i * 2 ^ ?s) \<inter> blk_bytes b1 (?s, i) = {}"
      using a(4,5) by (intro heap_live_disjoint [OF a(3)]) auto
    moreover have "a \<in> blk_bytes b1 (0, i * 2 ^ ?s)" "a \<in> blk_bytes b1 (?s, i)"
      using a0 a(1) by (auto simp: blk_bytes_def g)
    ultimately show False by blast
  qed
  have sz: "lay_size lay \<le> blk_size ?s" by (rule small_size_fits(1) [OF assms(4)])
  obtain b2 where b2: "buddy_dealloc bf a lay b1 = Done b2" "geom b2 = geom b1" "heap_inv bf b2"
    "heap_live bf b2 = heap_live bf b1 - {(?s, i)}"
    using bit_crate.dealloc_spec [OF bc a(3) l nf] rg sz a(1) by (auto simp: g)
  moreover have lv: "heap_live bf b2 = heap_live bf b" using b2(4) a(4,5) by auto
  ultimately show ?thesis
    using frees_canonical [OF inv b2(3) _ lv] a(2) by auto
qed

theorem heap_alloc_dealloc_roundtrip_witness:
  "heap_inv word_bits two_leaves \<and> tail_reserved word_bits two_leaves \<and>
   (\<exists>b1 b2. buddy_alloc word_bits \<lparr>lay_size = 16, lay_align = 8\<rparr> two_leaves = Done (Some 4112, b1) \<and>
      buddy_dealloc word_bits 4112 \<lparr>lay_size = 16, lay_align = 8\<rparr> b1 = Done b2 \<and>
      set (frees b2 0) = {4112})"
proof -
  obtain b1 where b1: "buddy_alloc word_bits \<lparr>lay_size = 16, lay_align = 8\<rparr> two_leaves = Done (Some 4112, b1)"
    using two_leaves_alloc by blast
  show ?thesis
    using heap_alloc_dealloc_roundtrip [OF word_bits.bit_crate_axioms two_leaves_inv two_leaves_tail _ _ b1]
      b1 two_leaves_inv two_leaves_tail two_leaves_bits by (auto simp: PAGE_BYTES_def)
qed

end
