(* ===== verification/FreeList.thy ===== *)
theory FreeList
  imports Prelude
begin

text \<open>
  The intrusive doubly linked list of \<^verbatim>\<open>kernel/src/mm/list.rs\<close>, in which the buddy
  allocator keeps its free blocks: a node is stored in the free block itself. Memory is a
  function from addresses to nodes. A list with head node \<open>hd\<close> is circular; \<open>linked\<close> says
  which addresses it holds. The operations are the ones the buddy allocator uses on
  plain lists.
\<close>

section \<open>Nodes and operations\<close>

record list_node =
  nd_prev :: nat
  nd_next :: nat

type_synonym node_heap = "nat \<Rightarrow> list_node"

definition set_prev :: "nat \<Rightarrow> nat \<Rightarrow> node_heap \<Rightarrow> node_heap" where
  "set_prev a p h = h(a := (h a)\<lparr>nd_prev := p\<rparr>)"

definition set_next :: "nat \<Rightarrow> nat \<Rightarrow> node_heap \<Rightarrow> node_heap" where
  "set_next a n h = h(a := (h a)\<lparr>nd_next := n\<rparr>)"

definition list_init :: "nat \<Rightarrow> node_heap \<Rightarrow> node_heap" where
  "list_init self h = set_next self self (set_prev self self h)"

definition list_is_empty :: "nat \<Rightarrow> node_heap \<Rightarrow> bool" where
  "list_is_empty self h \<longleftrightarrow> nd_next (h self) = self"

text \<open>\<^verbatim>\<open>as_mut().unwrap()\<close> panics on a null pointer.\<close>

definition list_push :: "nat \<Rightarrow> nat \<Rightarrow> node_heap \<Rightarrow> node_heap kres" where
  "list_push self raw_addr h =
     (let h1 = h(raw_addr := \<lparr>nd_prev = self, nd_next = nd_next (h self)\<rparr>);
          n = nd_next (h1 self)
      in if n = 0 then Panicked ''called `Option::unwrap()` on a `None` value''
         else Done (set_next self raw_addr (set_prev n raw_addr h1)))"

definition list_remove :: "nat \<Rightarrow> node_heap \<Rightarrow> node_heap" where
  "list_remove self h =
     (let h1 = set_next (nd_prev (h self)) (nd_next (h self)) h
      in set_prev (nd_next (h1 self)) (nd_prev (h1 self)) h1)"

definition list_pop :: "nat \<Rightarrow> node_heap \<Rightarrow> (nat \<times> node_heap) kres" where
  "list_pop self h =
     (if list_is_empty self h then Panicked ''empty pop''
      else let raw_addr = nd_next (h self)
           in if raw_addr = 0 then Panicked ''called `Option::unwrap()` on a `None` value''
              else Done (raw_addr, list_remove raw_addr h))"

section \<open>What a list holds\<close>

fun seg :: "node_heap \<Rightarrow> nat \<Rightarrow> nat list \<Rightarrow> nat \<Rightarrow> bool" where
  "seg h a [] b \<longleftrightarrow> nd_next (h a) = b \<and> nd_prev (h b) = a"
| "seg h a (x # xs) b \<longleftrightarrow> nd_next (h a) = x \<and> nd_prev (h x) = a \<and> seg h x xs b"

definition linked :: "nat \<Rightarrow> nat list \<Rightarrow> node_heap \<Rightarrow> bool" where
  "linked self xs h \<longleftrightarrow> distinct (self # xs) \<and> 0 \<notin> set (self # xs) \<and> seg h self xs self"

lemma seg_append: "seg h a (ys @ x # zs) b \<longleftrightarrow> seg h a ys x \<and> seg h x zs b"
  by (induction ys arbitrary: a) auto

lemma seg_cong:
  assumes "seg h a xs b" and "\<forall>y \<in> set (a # xs). nd_next (h' y) = nd_next (h y)"
    and "\<forall>y \<in> set (xs @ [b]). nd_prev (h' y) = nd_prev (h y)"
  shows "seg h' a xs b"
  using assms by (induction xs arbitrary: a) auto

lemma set_prev_sel [simp]:
  "nd_next (set_prev a p h y) = nd_next (h y)"
  "nd_prev (set_prev a p h y) = (if y = a then p else nd_prev (h y))"
  by (auto simp: set_prev_def)

lemma set_next_sel [simp]:
  "nd_prev (set_next a n h y) = nd_prev (h y)"
  "nd_next (set_next a n h y) = (if y = a then n else nd_next (h y))"
  by (auto simp: set_next_def)

lemma seg_first: "seg h a xs b \<Longrightarrow> nd_next (h a) = hd (xs @ [b])"
  by (cases xs) auto

lemma seg_last: "seg h a xs b \<Longrightarrow> nd_prev (h b) = last (a # xs)"
  by (induction xs arbitrary: a) auto

lemma linked_init: "self \<noteq> 0 \<Longrightarrow> linked self [] (list_init self h)"
  by (simp add: linked_def list_init_def)

lemma linked_empty: "linked self xs h \<Longrightarrow> list_is_empty self h \<longleftrightarrow> xs = []"
  by (cases xs) (auto simp: linked_def list_is_empty_def)

lemma linked_push:
  assumes "linked self xs h" and "raw \<notin> set (self # xs)" and "raw \<noteq> 0"
  shows "\<exists>h'. list_push self raw h = Done h' \<and> linked self (raw # xs) h' \<and>
           (\<forall>a. a \<notin> set (self # raw # xs) \<longrightarrow> h' a = h a)"
proof -
  define n where "n = hd (xs @ [self])"
  let ?h = "set_next self raw (set_prev n raw (h(raw := \<lparr>nd_prev = self, nd_next = n\<rparr>)))"
  have s: "seg h self xs self" and d: "self \<notin> set xs" "distinct xs" using assms(1) by (simp_all add: linked_def)
  have n: "nd_next (h self) = n" unfolding n_def by (rule seg_first [OF s])
  have nm: "n \<in> set (self # xs)" by (cases xs) (simp_all add: n_def)
  then have n0: "n \<noteq> 0" "n \<noteq> raw" using assms unfolding linked_def by metis+
  have "list_push self raw h = Done ?h" using n0 n assms(2) by (simp add: list_push_def Let_def)
  moreover have "seg ?h raw xs self"
  proof (cases xs)
    case Nil
    then show ?thesis using assms(2) by (simp add: n_def)
  next
    case (Cons x ys)
    have "seg ?h x ys self"
    proof (rule seg_cong)
      show "seg h x ys self" using s Cons by simp
      show "\<forall>y \<in> set (x # ys). nd_next (?h y) = nd_next (h y)"
        using assms(2) d by (auto simp: Cons)
      show "\<forall>y \<in> set (ys @ [self]). nd_prev (?h y) = nd_prev (h y)"
        using assms(2) d by (auto simp: Cons n_def)
    qed
    then show ?thesis using assms(2) by (simp add: Cons n_def)
  qed
  then have "linked self (raw # xs) ?h"
    using assms n0 by (auto simp: linked_def)
  moreover have "?h a = h a" if "a \<notin> set (self # raw # xs)" for a
  proof -
    have "a \<noteq> n" "a \<noteq> self" "a \<noteq> raw" using that nm by auto
    then show ?thesis by (simp add: set_next_def set_prev_def)
  qed
  ultimately show ?thesis by blast
qed

text \<open>Redirecting the last pointer of a segment.\<close>

lemma seg_redirect:
  assumes "seg h a ys x" and "distinct (a # ys)"
    and "\<forall>y \<in> set (a # ys). nd_next (g y) = (if y = last (a # ys) then n else nd_next (h y))"
    and "\<forall>y \<in> set ys. nd_prev (g y) = nd_prev (h y)" and "nd_prev (g n) = last (a # ys)"
  shows "seg g a ys n"
  using assms
proof (induction ys arbitrary: a)
  case Nil
  then show ?case by simp
next
  case (Cons y ys)
  have "a \<noteq> last (y # ys)" using Cons.prems(2) last_in_set [of "y # ys"] by auto
  then have "nd_next (g a) = y" "nd_prev (g y) = a" using Cons.prems by auto
  moreover have "seg g y ys n"
    using Cons.prems by (intro Cons.IH) auto
  ultimately show ?case by simp
qed

lemma list_remove_eq:
  assumes "nd_prev (h x) \<noteq> x"
  shows "list_remove x h = set_prev (nd_next (h x)) (nd_prev (h x)) (set_next (nd_prev (h x)) (nd_next (h x)) h)"
  using assms by (simp add: list_remove_def Let_def)

lemma seg_unlink:
  assumes "seg h a (ys @ x # zs) b" and "distinct (a # ys @ x # zs)" and "b \<notin> set (ys @ x # zs)"
  shows "seg (list_remove x h) a (ys @ zs) b"
proof -
  have l: "seg h a ys x" and r: "seg h x zs b" using assms(1) by (simp_all add: seg_append)
  define p n where "p = last (a # ys)" and "n = hd (zs @ [b])"
  have pn: "nd_prev (h x) = p" "nd_next (h x) = n"
    using seg_last [OF l] seg_first [OF r] by (simp_all add: p_def n_def)
  have pin: "p \<in> set (a # ys)" unfolding p_def by (rule last_in_set) simp
  then have px: "p \<noteq> x" using assms(2) by auto
  let ?h = "set_prev n p (set_next p n h)"
  have h: "list_remove x h = ?h" using list_remove_eq [of h x] pn px by simp
  have nin: "n \<in> set (zs @ [b])" unfolding n_def by (rule hd_in_set) simp
  then have ny: "n \<notin> set ys" using assms(2,3) by auto
  have "seg ?h a ys n"
  proof (rule seg_redirect [OF l])
    show "distinct (a # ys)" using assms(2) by simp
    show "\<forall>y \<in> set (a # ys). nd_next (?h y) = (if y = last (a # ys) then n else nd_next (h y))"
      by (simp add: p_def)
    show "\<forall>y \<in> set ys. nd_prev (?h y) = nd_prev (h y)" using ny by auto
    show "nd_prev (?h n) = last (a # ys)" by (simp add: p_def)
  qed
  moreover have "seg ?h z zs' b" if "zs = z # zs'" for z zs'
  proof (rule seg_cong)
    show "seg h z zs' b" using r that by simp
    have "p \<notin> set zs" using pin assms(2) by auto
    then show "\<forall>y \<in> set (z # zs'). nd_next (?h y) = nd_next (h y)" using that by auto
    have "n = z" using that by (simp add: n_def)
    then show "\<forall>y \<in> set (zs' @ [b]). nd_prev (?h y) = nd_prev (h y)"
      using that assms(2,3) by auto
  qed
  ultimately show ?thesis unfolding h by (cases zs) (auto simp: n_def seg_append)
qed

lemma linked_remove:
  assumes "linked self xs h" and "x \<in> set xs"
  shows "linked self (remove1 x xs) (list_remove x h) \<and>
         (\<forall>a. a \<notin> set (self # xs) \<longrightarrow> list_remove x h a = h a)"
proof -
  obtain ys zs where xs: "xs = ys @ x # zs" using split_list [OF assms(2)] by blast
  have d: "distinct (self # ys @ x # zs)" and s: "seg h self (ys @ x # zs) self"
    using assms(1) by (simp_all add: linked_def xs)
  have r: "remove1 x xs = ys @ zs" using d by (simp add: xs remove1_append)
  have "seg (list_remove x h) self (ys @ zs) self" using d by (intro seg_unlink [OF s]) auto
  then have "linked self (ys @ zs) (list_remove x h)" using assms(1) by (auto simp: linked_def xs)
  moreover have "list_remove x h a = h a" if "a \<notin> set (self # xs)" for a
  proof -
    have "nd_prev (h x) = last (self # ys)" "nd_next (h x) = hd (zs @ [self])"
      using s seg_last seg_first by (auto simp: seg_append)
    then have m: "nd_prev (h x) \<in> set (self # xs)" "nd_next (h x) \<in> set (self # xs)"
      using last_in_set [of "self # ys"] hd_in_set [of "zs @ [self]"] by (auto simp: xs)
    have "nd_prev (h x) \<noteq> x"
      using \<open>nd_prev (h x) = last (self # ys)\<close> d last_in_set [of "self # ys"] by auto
    then have "list_remove x h = set_prev (nd_next (h x)) (nd_prev (h x))
        (set_next (nd_prev (h x)) (nd_next (h x)) h)" by (rule list_remove_eq)
    moreover have "a \<noteq> nd_prev (h x)" "a \<noteq> nd_next (h x)" using that m by metis+
    ultimately show ?thesis by (simp add: set_next_def set_prev_def)
  qed
  ultimately show ?thesis by (simp add: r)
qed

lemma linked_pop:
  assumes "linked self (x # xs) h"
  shows "list_pop self h = Done (x, list_remove x h)" and "linked self xs (list_remove x h)"
proof -
  show "list_pop self h = Done (x, list_remove x h)"
    using assms by (auto simp: list_pop_def list_is_empty_def linked_def)
  show "linked self xs (list_remove x h)" using linked_remove [OF assms, of x] by simp
qed

section \<open>The list interface\<close>

text \<open>
  A client of the list pushes an address that is not in it, pops, or unlinks an address
  that is in it. \<open>run_abs\<close> follows the contents as a plain list, \<open>run_list\<close> runs an
  implementation.
\<close>

datatype list_op = Push nat | Pop | Unlink nat

fun run_abs :: "(nat \<Rightarrow> bool) \<Rightarrow> list_op list \<Rightarrow> nat list \<Rightarrow> (nat list \<times> nat list) option" where
  "run_abs ok [] xs = Some ([], xs)"
| "run_abs ok (Push x # ops) xs = (if ok x \<and> x \<notin> set xs then run_abs ok ops (x # xs) else None)"
| "run_abs ok (Unlink x # ops) xs = (if x \<in> set xs then run_abs ok ops (remove1 x xs) else None)"
| "run_abs ok (Pop # ops) [] = None"
| "run_abs ok (Pop # ops) (x # xs) =
     map_option (\<lambda>(ys, zs). (x # ys, zs)) (run_abs ok ops xs)"

fun run_list ::
    "(nat \<Rightarrow> 'h \<Rightarrow> 'h kres) \<Rightarrow> ('h \<Rightarrow> (nat \<times> 'h) kres) \<Rightarrow> (nat \<Rightarrow> 'h \<Rightarrow> 'h) \<Rightarrow> list_op list \<Rightarrow> 'h \<Rightarrow>
     (nat list \<times> 'h) kres" where
  "run_list push pop unlink [] h = Done ([], h)"
| "run_list push pop unlink (Push x # ops) h =
     kbind (push x h) (\<lambda>h'. run_list push pop unlink ops h')"
| "run_list push pop unlink (Unlink x # ops) h = run_list push pop unlink ops (unlink x h)"
| "run_list push pop unlink (Pop # ops) h =
     kbind (pop h) (\<lambda>(x, h'). kbind (run_list push pop unlink ops h') (\<lambda>(ys, h''). Done (x # ys, h'')))"

locale address_list =
  fixes rel :: "nat list \<Rightarrow> 'h \<Rightarrow> bool"
    and ok :: "nat \<Rightarrow> bool"
    and push :: "nat \<Rightarrow> 'h \<Rightarrow> 'h kres"
    and pop :: "'h \<Rightarrow> (nat \<times> 'h) kres"
    and unlink :: "nat \<Rightarrow> 'h \<Rightarrow> 'h"
  assumes push_law: "rel xs h \<Longrightarrow> ok x \<Longrightarrow> x \<notin> set xs \<Longrightarrow> \<exists>h'. push x h = Done h' \<and> rel (x # xs) h'"
    and pop_law: "rel (x # xs) h \<Longrightarrow> \<exists>h'. pop h = Done (x, h') \<and> rel xs h'"
    and unlink_law: "rel xs h \<Longrightarrow> x \<in> set xs \<Longrightarrow> rel (remove1 x xs) (unlink x h)"
begin

lemma run_refines:
  assumes "rel xs h" and "run_abs ok ops xs = Some (ys, zs)"
  shows "\<exists>h'. run_list push pop unlink ops h = Done (ys, h') \<and> rel zs h'"
  using assms
proof (induction ops arbitrary: xs h ys)
  case Nil
  then show ?case by simp
next
  case (Cons op ops)
  show ?case
  proof (cases op)
    case (Push x)
    then have x: "ok x" "x \<notin> set xs" "run_abs ok ops (x # xs) = Some (ys, zs)"
      using Cons.prems(2) by (auto split: if_splits)
    obtain h' where h': "push x h = Done h'" "rel (x # xs) h'"
      using push_law [OF Cons.prems(1) x(1,2)] by blast
    show ?thesis using Cons.IH [OF h'(2) x(3)] h'(1) by (simp add: Push kres_simps)
  next
    case (Unlink x)
    then have x: "x \<in> set xs" "run_abs ok ops (remove1 x xs) = Some (ys, zs)"
      using Cons.prems(2) by (auto split: if_splits)
    show ?thesis using Cons.IH [OF unlink_law [OF Cons.prems(1) x(1)] x(2)] by (simp add: Unlink)
  next
    case Pop
    then obtain x xs' ys' where x: "xs = x # xs'" "ys = x # ys'" "run_abs ok ops xs' = Some (ys', zs)"
      using Cons.prems(2) by (cases xs) auto
    obtain h' where h': "pop h = Done (x, h')" "rel xs' h'"
      using pop_law Cons.prems(1) unfolding x(1) by blast
    show ?thesis using Cons.IH [OF h'(2) x(3)] h'(1) by (auto simp: Pop x(2) kres_simps)
  qed
qed

end

text \<open>The linked nodes implement the interface.\<close>

lemma linked_nodes_list:
  "address_list (linked self) (\<lambda>x. x \<noteq> 0 \<and> x \<noteq> self) (list_push self) (list_pop self) list_remove"
proof
  show "\<exists>h'. list_push self x h = Done h' \<and> linked self (x # xs) h'"
    if "linked self xs h" "x \<noteq> 0 \<and> x \<noteq> self" "x \<notin> set xs" for xs h x
    using linked_push [OF that(1)] that by fastforce
  show "\<exists>h'. list_pop self h = Done (x, h') \<and> linked self xs h'" if "linked self (x # xs) h" for x xs h
    using linked_pop [OF that] by blast
  show "linked self (remove1 x xs) (list_remove x h)" if "linked self xs h" "x \<in> set xs" for xs h x
    using linked_remove [OF that] by blast
qed

interpretation nodes: address_list "linked self" "\<lambda>x. x \<noteq> 0 \<and> x \<noteq> self" "list_push self" "list_pop self" list_remove
  for self
  by (rule linked_nodes_list)

text \<open>
  C14 (linked free lists): on a list head set up by \<^verbatim>\<open>init\<close>, any sequence of pushes of new
  non-null addresses, pops of non-empty lists and removals of listed nodes behaves as on
  a plain list: no operation panics, the pops return the same addresses, and the nodes
  stay linked both ways in the order of the plain list.
\<close>

theorem free_list_refines:
  assumes "self \<noteq> 0" and "run_abs (\<lambda>x. x \<noteq> 0 \<and> x \<noteq> self) ops [] = Some (popped, xs)"
  shows "\<exists>h'. run_list (list_push self) (list_pop self) list_remove ops (list_init self h) = Done (popped, h') \<and>
           linked self xs h'"
  using nodes.run_refines [OF linked_init [OF assms(1)] assms(2)] .

theorem free_list_refines_witness:
  "\<exists>h'. run_list (list_push 8) (list_pop 8) list_remove [Push 16, Push 32, Push 48, Unlink 32, Pop]
          (list_init 8 (\<lambda>_. \<lparr>nd_prev = 0, nd_next = 0\<rparr>)) = Done ([48], h') \<and> linked 8 [16] h'"
  using free_list_refines [of 8 "[Push 16, Push 32, Push 48, Unlink 32, Pop]" "[48]" "[16]"] by simp

end
