(* ===== verification/Bcache.thy ===== *)
theory Bcache
  imports Prelude
begin

text \<open>
  The buffer cache, \<^verbatim>\<open>kernel/src/fs/bio.rs\<close>: an LRU list of buffer controls threaded through
  an array, and the buffers themselves. A pointer into the array is an index, the null
  pointer \<open>None\<close>. \<open>DISK.rw\<close> is a transfer between a buffer and the block of the disk it
  names (the device number is not used by the driver); the history of blocks written is
  kept, so that a crash can be placed between any two writes. The definitions are what a
  process does while it holds the locks the code takes.
\<close>

section \<open>State\<close>

definition BSIZE :: nat where "BSIZE = 1024"
definition MAXOPBLOCKS :: nat where "MAXOPBLOCKS = 10"
definition NBUF :: nat where "NBUF = MAXOPBLOCKS * 3"

type_synonym block = "u8 list"

record buf_ctrl =
  bc_dev :: u32
  bc_blockno :: u32
  bc_prev :: "nat option"
  bc_next :: "nat option"
  bc_refcnt :: nat
  bc_index :: nat

record buf_lru =
  lru_inner :: "buf_ctrl list"
  lru_head :: "nat option"
  lru_tail :: "nat option"

record buf_inner =
  buf_valid :: bool
  buf_data :: block

record bcache =
  bca_ctrl :: buf_lru
  bca_bufs :: "buf_inner list"
  bca_disk :: "u32 \<Rightarrow> block"
  bca_writes :: "(u32 \<times> block) list"

record buf =
  b_index :: nat
  b_dev :: u32
  b_blockno :: u32
  b_rc :: nat

definition buf_ctrl_new :: buf_ctrl where
  "buf_ctrl_new = \<lparr>bc_dev = 0, bc_blockno = 0, bc_prev = None, bc_next = None, bc_refcnt = 0, bc_index = 0\<rparr>"

definition buf_inner_new :: buf_inner where
  "buf_inner_new = \<lparr>buf_valid = False, buf_data = replicate BSIZE 0\<rparr>"

definition bcache_new :: "(u32 \<Rightarrow> block) \<Rightarrow> bcache" where
  "bcache_new disk =
     \<lparr>bca_ctrl = \<lparr>lru_inner = replicate NBUF buf_ctrl_new, lru_head = None, lru_tail = None\<rparr>,
      bca_bufs = replicate NBUF buf_inner_new, bca_disk = disk, bca_writes = []\<rparr>"

section \<open>The LRU list\<close>

definition upd_ctrl :: "nat \<Rightarrow> (buf_ctrl \<Rightarrow> buf_ctrl) \<Rightarrow> buf_lru \<Rightarrow> buf_lru" where
  "upd_ctrl i f l = l\<lparr>lru_inner := (lru_inner l)[i := f (lru_inner l ! i)]\<rparr>"

text \<open>\<^verbatim>\<open>binit\<close>: the list in array order, and each control learns its index.\<close>

definition binit_lru :: "buf_lru \<Rightarrow> buf_lru" where
  "binit_lru l =
     (let n = length (lru_inner l)
      in \<lparr>lru_inner = map (\<lambda>i. (lru_inner l ! i)
              \<lparr>bc_prev := (if i = 0 then None else Some (i - 1)),
               bc_next := (if i = n - 1 then None else Some (i + 1)),
               bc_index := i\<rparr>) [0..<n],
          lru_head = Some 0, lru_tail = Some (n - 1)\<rparr>)"

definition binit :: "bcache \<Rightarrow> bcache" where
  "binit s = s\<lparr>bca_ctrl := binit_lru (bca_ctrl s)\<rparr>"

text \<open>
  The two searches follow pointers; \<open>fuel\<close> bounds the steps and running out of it is the
  outcome \<open>Panicked\<close>. The list has as many nodes as the array, so one step more than
  that is enough.
\<close>

fun find_walk :: "nat \<Rightarrow> buf_ctrl list \<Rightarrow> nat option \<Rightarrow> u32 \<Rightarrow> u32 \<Rightarrow> nat option kres" where
  "find_walk 0 inner b dev blockno = Panicked ''no fuel''"
| "find_walk (Suc fuel) inner None dev blockno = Done None"
| "find_walk (Suc fuel) inner (Some i) dev blockno =
     (if bc_dev (inner ! i) = dev \<and> bc_blockno (inner ! i) = blockno then Done (Some i)
      else find_walk fuel inner (bc_next (inner ! i)) dev blockno)"

fun recycle_walk :: "nat \<Rightarrow> buf_ctrl list \<Rightarrow> nat option \<Rightarrow> nat option kres" where
  "recycle_walk 0 inner b = Panicked ''no fuel''"
| "recycle_walk (Suc fuel) inner None = Done None"
| "recycle_walk (Suc fuel) inner (Some i) =
     (if bc_refcnt (inner ! i) = 0 then Done (Some i)
      else recycle_walk fuel inner (bc_prev (inner ! i)))"

definition find_cached :: "u32 \<Rightarrow> u32 \<Rightarrow> buf_lru \<Rightarrow> ((nat \<times> nat) option \<times> buf_lru) kres" where
  "find_cached dev blockno l =
     kbind (find_walk (Suc (length (lru_inner l))) (lru_inner l) (lru_head l) dev blockno) (\<lambda>r.
       case r of
         None \<Rightarrow> Done (None, l)
       | Some i \<Rightarrow> Done (Some (bc_index (lru_inner l ! i), i),
                        upd_ctrl i (\<lambda>c. c\<lparr>bc_refcnt := bc_refcnt c + 1\<rparr>) l))"

definition recycle :: "u32 \<Rightarrow> u32 \<Rightarrow> buf_lru \<Rightarrow> ((nat \<times> nat) option \<times> buf_lru) kres" where
  "recycle dev blockno l =
     kbind (recycle_walk (Suc (length (lru_inner l))) (lru_inner l) (lru_tail l)) (\<lambda>r.
       case r of
         None \<Rightarrow> Done (None, l)
       | Some i \<Rightarrow> Done (Some (bc_index (lru_inner l ! i), i),
                        upd_ctrl i (\<lambda>c. c\<lparr>bc_dev := dev, bc_blockno := blockno,
                                          bc_refcnt := bc_refcnt c + 1\<rparr>) l))"

definition upd_opt :: "nat option \<Rightarrow> (buf_ctrl \<Rightarrow> buf_ctrl) \<Rightarrow> buf_lru \<Rightarrow> buf_lru" where
  "upd_opt p f l = (case p of None \<Rightarrow> l | Some i \<Rightarrow> upd_ctrl i f l)"

definition move_front :: "nat \<Rightarrow> buf_lru \<Rightarrow> buf_lru" where
  "move_front b l =
     (let l1 = (if lru_tail l = Some b \<and> bc_prev (lru_inner l ! b) \<noteq> None
                then l\<lparr>lru_tail := bc_prev (lru_inner l ! b)\<rparr> else l);
          l2 = upd_opt (bc_next (lru_inner l1 ! b)) (\<lambda>c. c\<lparr>bc_prev := bc_prev (lru_inner l1 ! b)\<rparr>) l1;
          l3 = upd_opt (bc_prev (lru_inner l2 ! b)) (\<lambda>c. c\<lparr>bc_next := bc_next (lru_inner l2 ! b)\<rparr>) l2;
          l4 = upd_ctrl b (\<lambda>c. c\<lparr>bc_prev := None, bc_next := lru_head l3\<rparr>) l3;
          l5 = upd_opt (lru_head l4) (\<lambda>c. c\<lparr>bc_prev := Some b\<rparr>) l4
      in l5\<lparr>lru_head := Some b\<rparr>)"

definition move_if_no_ref :: "nat \<Rightarrow> buf_lru \<Rightarrow> buf_lru kres" where
  "move_if_no_ref index l =
     (if index \<ge> length (lru_inner l) then Panicked ''index out of bounds''
      else if bc_refcnt (lru_inner l ! index) = 0 then Panicked ''attempt to subtract with overflow''
      else let l1 = upd_ctrl index (\<lambda>c. c\<lparr>bc_refcnt := bc_refcnt c - 1\<rparr>) l
           in if bc_refcnt (lru_inner l1 ! index) = 0 \<and> lru_head l1 \<noteq> Some index
              then Done (move_front index l1) else Done l1)"

section \<open>Buffers\<close>

definition bget :: "u32 \<Rightarrow> u32 \<Rightarrow> bcache \<Rightarrow> (buf \<times> bcache) kres" where
  "bget dev blockno s =
     kbind (find_cached dev blockno (bca_ctrl s)) (\<lambda>(r, ctrl).
       case r of
         Some (index, rc) \<Rightarrow>
           Done (\<lparr>b_index = index, b_dev = dev, b_blockno = blockno, b_rc = rc\<rparr>, s\<lparr>bca_ctrl := ctrl\<rparr>)
       | None \<Rightarrow>
           kbind (recycle dev blockno ctrl) (\<lambda>(r2, ctrl2).
             case r2 of
               Some (index, rc) \<Rightarrow>
                 Done (\<lparr>b_index = index, b_dev = dev, b_blockno = blockno, b_rc = rc\<rparr>,
                       s\<lparr>bca_ctrl := ctrl2,
                         bca_bufs := (bca_bufs s)[index := (bca_bufs s ! index)\<lparr>buf_valid := False\<rparr>]\<rparr>)
             | None \<Rightarrow> Panicked ''no usable buffer''))"

definition disk_read :: "buf \<Rightarrow> bcache \<Rightarrow> bcache" where
  "disk_read b s =
     s\<lparr>bca_bufs := (bca_bufs s)[b_index b := (bca_bufs s ! b_index b)\<lparr>buf_data := bca_disk s (b_blockno b)\<rparr>]\<rparr>"

definition bread :: "u32 \<Rightarrow> u32 \<Rightarrow> bcache \<Rightarrow> (buf \<times> bcache) kres" where
  "bread dev blockno s =
     kbind (bget dev blockno s) (\<lambda>(b, s1).
       if \<not> buf_valid (bca_bufs s1 ! b_index b)
       then let s2 = disk_read b s1
            in Done (b, s2\<lparr>bca_bufs := (bca_bufs s2)[b_index b := (bca_bufs s2 ! b_index b)\<lparr>buf_valid := True\<rparr>]\<rparr>)
       else Done (b, s1))"

definition bwrite :: "buf \<Rightarrow> bcache \<Rightarrow> bcache" where
  "bwrite b s =
     s\<lparr>bca_disk := (bca_disk s)(b_blockno b := buf_data (bca_bufs s ! b_index b)),
       bca_writes := bca_writes s @ [(b_blockno b, buf_data (bca_bufs s ! b_index b))]\<rparr>"

definition raw_data :: "buf \<Rightarrow> bcache \<Rightarrow> block" where
  "raw_data b s = buf_data (bca_bufs s ! b_index b)"

definition raw_data_mut :: "buf \<Rightarrow> block \<Rightarrow> bcache \<Rightarrow> bcache" where
  "raw_data_mut b d s = s\<lparr>bca_bufs := (bca_bufs s)[b_index b := (bca_bufs s ! b_index b)\<lparr>buf_data := d\<rparr>]\<rparr>"

definition pin :: "buf \<Rightarrow> bcache \<Rightarrow> bcache" where
  "pin b s = s\<lparr>bca_ctrl := upd_ctrl (b_rc b) (\<lambda>c. c\<lparr>bc_refcnt := bc_refcnt c + 1\<rparr>) (bca_ctrl s)\<rparr>"

definition unpin :: "buf \<Rightarrow> bcache \<Rightarrow> bcache kres" where
  "unpin b s =
     (let rc = bc_refcnt (lru_inner (bca_ctrl s) ! b_rc b)
      in if rc \<le> 1 then Panicked ''buf unpin not match''
         else Done (s\<lparr>bca_ctrl := upd_ctrl (b_rc b) (\<lambda>c. c\<lparr>bc_refcnt := rc - 1\<rparr>) (bca_ctrl s)\<rparr>))"

definition brelse :: "nat \<Rightarrow> bcache \<Rightarrow> bcache kres" where
  "brelse index s = kbind (move_if_no_ref index (bca_ctrl s)) (\<lambda>ctrl. Done (s\<lparr>bca_ctrl := ctrl\<rparr>))"

definition buf_drop :: "buf \<Rightarrow> bcache \<Rightarrow> bcache kres" where
  "buf_drop b s = brelse (b_index b) s"

end
