(* ===== verification/BcacheLru.thy ===== *)
theory BcacheLru
  imports Bcache
begin

text \<open>
  The LRU list of the buffer cache: the pointers in the controls always link all buffers
  in one order, the searches see that order, and a release moves a buffer to the front.
\<close>

section \<open>Doubly linked order\<close>

definition first_or :: "nat list \<Rightarrow> nat option \<Rightarrow> nat option" where
  "first_or xs q = (case xs of [] \<Rightarrow> q | x # _ \<Rightarrow> Some x)"

definition last_or :: "nat option \<Rightarrow> nat list \<Rightarrow> nat option" where
  "last_or p xs = (if xs = [] then p else Some (last xs))"

fun chain :: "(nat \<Rightarrow> nat option) \<Rightarrow> (nat \<Rightarrow> nat option) \<Rightarrow> nat option \<Rightarrow> nat list \<Rightarrow> nat option \<Rightarrow> bool" where
  "chain pv nx p [] q \<longleftrightarrow> True"
| "chain pv nx p (x # xs) q \<longleftrightarrow> pv x = p \<and> nx x = first_or xs q \<and> chain pv nx (Some x) xs q"

lemma first_or_simps [simp]: "first_or [] q = q" "first_or (x # xs) q = Some x"
  by (simp_all add: first_or_def)

lemma first_or_append: "first_or (xs @ ys) q = first_or xs (first_or ys q)"
  by (cases xs) auto

lemma last_or_simps [simp]: "last_or p [] = p" "last_or p (x # xs) = last_or (Some x) xs"
  "last_or p (xs @ [y]) = Some y"
  by (simp_all add: last_or_def)

lemma chain_append:
  "chain pv nx p (ys @ zs) q \<longleftrightarrow> chain pv nx p ys (first_or zs q) \<and> chain pv nx (last_or p ys) zs q"
  by (induction ys arbitrary: p) (auto simp: first_or_append)

lemma chain_ends:
  assumes "chain pv nx p xs q" and "distinct xs"
    and "\<forall>x \<in> set xs. pv' x = (if x = hd xs then p' else pv x)"
    and "\<forall>x \<in> set xs. nx' x = (if x = last xs then q' else nx x)"
  shows "chain pv' nx' p' xs q'"
  using assms
proof (induction xs arbitrary: p p')
  case Nil
  then show ?case by simp
next
  case (Cons x xs)
  show ?case
  proof (cases xs)
    case Nil
    then show ?thesis using Cons.prems by simp
  next
    case (Cons y ys)
    have "chain pv' nx' (Some x) xs q'"
    proof (rule Cons.IH)
      show "chain pv nx (Some x) xs q" "distinct xs" using Cons.prems by simp_all
      show "\<forall>z \<in> set xs. pv' z = (if z = hd xs then Some x else pv z)"
        using Cons.prems Cons by (auto split: if_splits)
      show "\<forall>z \<in> set xs. nx' z = (if z = last xs then q' else nx z)"
        using Cons.prems(4) Cons by auto
    qed
    moreover have "x \<noteq> last xs" using Cons.prems(2) last_in_set [of xs] Cons by auto
    ultimately show ?thesis using Cons.prems Cons by auto
  qed
qed

lemma chain_cong:
  assumes "chain pv nx p xs q" and "\<forall>x \<in> set xs. pv' x = pv x" and "\<forall>x \<in> set xs. nx' x = nx x"
  shows "chain pv' nx' p xs q"
  using assms by (induction xs arbitrary: p) auto

section \<open>The order of the cache\<close>

definition prev_of :: "buf_lru \<Rightarrow> nat \<Rightarrow> nat option" where
  "prev_of l i = bc_prev (lru_inner l ! i)"

definition next_of :: "buf_lru \<Rightarrow> nat \<Rightarrow> nat option" where
  "next_of l i = bc_next (lru_inner l ! i)"

text \<open>\<open>lru_ok l xs\<close>: the list holds all buffers, in the order \<open>xs\<close>, most recent first.\<close>

definition lru_ok :: "buf_lru \<Rightarrow> nat list \<Rightarrow> bool" where
  "lru_ok l xs \<longleftrightarrow>
     xs \<noteq> [] \<and> distinct xs \<and> set xs = {..<length (lru_inner l)} \<and>
     lru_head l = Some (hd xs) \<and> lru_tail l = Some (last xs) \<and>
     chain (prev_of l) (next_of l) None xs None \<and>
     (\<forall>i < length (lru_inner l). bc_index (lru_inner l ! i) = i)"

lemma find_walk_chain:
  assumes "chain pv (\<lambda>i. bc_next (inner ! i)) p xs None" and "length xs < fuel"
  shows "find_walk fuel inner (first_or xs None) dev blockno =
         Done (find (\<lambda>i. bc_dev (inner ! i) = dev \<and> bc_blockno (inner ! i) = blockno) xs)"
  using assms
proof (induction xs arbitrary: p fuel)
  case Nil
  then show ?case by (cases fuel) auto
next
  case (Cons x xs)
  then obtain f where f: "fuel = Suc f" "length xs < f" by (cases fuel) auto
  show ?case using Cons.IH [OF _ f(2)] Cons.prems(1) by (auto simp: f(1))
qed

lemma recycle_walk_chain:
  assumes "chain (\<lambda>i. bc_prev (inner ! i)) nx None xs q" and "length xs < fuel"
  shows "recycle_walk fuel inner (last_or None xs) = Done (find (\<lambda>i. bc_refcnt (inner ! i) = 0) (rev xs))"
  using assms
proof (induction xs arbitrary: q fuel rule: rev_induct)
  case Nil
  then show ?case by (cases fuel) auto
next
  case (snoc x xs)
  then obtain f where f: "fuel = Suc f" "length xs < f" by (cases fuel) auto
  show ?case using snoc.IH [OF _ f(2)] snoc.prems(1) by (auto simp: f(1) chain_append)
qed

lemma lru_find:
  assumes "lru_ok l xs"
  shows "find_walk (Suc (length (lru_inner l))) (lru_inner l) (lru_head l) dev blockno =
         Done (find (\<lambda>i. bc_dev (lru_inner l ! i) = dev \<and> bc_blockno (lru_inner l ! i) = blockno) xs)"
proof -
  have len: "length xs < Suc (length (lru_inner l))"
    using assms distinct_card [of xs] by (auto simp: lru_ok_def)
  have hd: "lru_head l = first_or xs None" using assms by (cases xs) (simp_all add: lru_ok_def)
  have "chain (prev_of l) (\<lambda>i. bc_next (lru_inner l ! i)) None xs None"
    using assms by (simp add: lru_ok_def next_of_def [abs_def])
  from find_walk_chain [OF this len] show ?thesis unfolding hd .
qed

lemma lru_recycle:
  assumes "lru_ok l xs"
  shows "recycle_walk (Suc (length (lru_inner l))) (lru_inner l) (lru_tail l) =
         Done (find (\<lambda>i. bc_refcnt (lru_inner l ! i) = 0) (rev xs))"
proof -
  have len: "length xs < Suc (length (lru_inner l))"
    using assms distinct_card [of xs] by (auto simp: lru_ok_def)
  have tl: "lru_tail l = last_or None xs" using assms by (simp add: lru_ok_def last_or_def)
  have "chain (\<lambda>i. bc_prev (lru_inner l ! i)) (next_of l) None xs None"
    using assms by (simp add: lru_ok_def prev_of_def [abs_def])
  from recycle_walk_chain [OF this len] show ?thesis unfolding tl .
qed

text \<open>Changing a control without touching its pointers.\<close>

lemma upd_ctrl_length [simp]: "length (lru_inner (upd_ctrl i f l)) = length (lru_inner l)"
  by (simp add: upd_ctrl_def)

lemma upd_ctrl_nth:
  "lru_inner (upd_ctrl i f l) ! j =
     (if j = i \<and> j < length (lru_inner l) then f (lru_inner l ! j) else lru_inner l ! j)"
  by (auto simp: upd_ctrl_def nth_list_upd_if)

lemma upd_ctrl_ends [simp]:
  "lru_head (upd_ctrl i f l) = lru_head l" "lru_tail (upd_ctrl i f l) = lru_tail l"
  by (simp_all add: upd_ctrl_def)

lemma lru_ok_upd:
  assumes "lru_ok l xs" and "\<And>c. bc_prev (f c) = bc_prev c" and "\<And>c. bc_next (f c) = bc_next c"
    and "\<And>c. bc_index (f c) = bc_index c"
  shows "lru_ok (upd_ctrl i f l) xs"
proof -
  have "prev_of (upd_ctrl i f l) = prev_of l" "next_of (upd_ctrl i f l) = next_of l"
    using assms(2,3) by (auto simp: fun_eq_iff prev_of_def next_of_def upd_ctrl_nth)
  then show ?thesis using assms(1,4) by (auto simp: lru_ok_def upd_ctrl_nth)
qed

section \<open>Moving to the front\<close>

lemma upd_opt_sel [simp]:
  "length (lru_inner (upd_opt p f l)) = length (lru_inner l)"
  "lru_head (upd_opt p f l) = lru_head l" "lru_tail (upd_opt p f l) = lru_tail l"
  by (simp_all add: upd_opt_def split: option.split)

lemma upd_opt_nth:
  "lru_inner (upd_opt p f l) ! j =
     (if p = Some j \<and> j < length (lru_inner l) then f (lru_inner l ! j) else lru_inner l ! j)"
  by (auto simp: upd_opt_def upd_ctrl_nth split: option.split)

text \<open>The whole effect of \<open>move_front\<close> on one control.\<close>

lemma move_front_nth:
  assumes "j < length (lru_inner l)" and "lru_head l = Some h" and "h \<noteq> b"
    and "bc_next (lru_inner l ! b) \<noteq> Some b" and "bc_prev (lru_inner l ! b) \<noteq> Some b"
  shows "lru_inner (move_front b l) ! j =
    (lru_inner l ! j)
      \<lparr>bc_prev := (if j = b then None else if j = h then Some b
                   else if next_of l b = Some j then prev_of l b else prev_of l j),
       bc_next := (if j = b then Some h else if prev_of l b = Some j then next_of l b else next_of l j)\<rparr>"
  using assms unfolding move_front_def Let_def
  by (cases "lru_tail l = Some b \<and> bc_prev (lru_inner l ! b) \<noteq> None")
    (auto simp: upd_opt_nth upd_ctrl_nth prev_of_def next_of_def)

lemma move_front_ends:
  "lru_head (move_front b l) = Some b"
  "lru_tail (move_front b l) =
     (if lru_tail l = Some b \<and> prev_of l b \<noteq> None then prev_of l b else lru_tail l)"
  "length (lru_inner (move_front b l)) = length (lru_inner l)"
  by (auto simp: move_front_def Let_def prev_of_def)

lemma move_front_order:
  assumes ok: "lru_ok l xs" and b: "b < length (lru_inner l)" and nh: "lru_head l \<noteq> Some b"
  shows "lru_ok (move_front b l) (b # remove1 b xs)"
proof -
  have d: "distinct xs" and s: "set xs = {..<length (lru_inner l)}"
    and c: "chain (prev_of l) (next_of l) None xs None" and hd: "lru_head l = Some (hd xs)"
    and tl: "lru_tail l = Some (last xs)" using ok by (auto simp: lru_ok_def)
  obtain ys zs where xs: "xs = ys @ b # zs" using b s split_list [of b xs] by auto
  have ys: "ys \<noteq> []" using nh hd by (auto simp: xs)
  have r: "remove1 b xs = ys @ zs" using d by (simp add: xs remove1_append)
  have cy: "chain (prev_of l) (next_of l) None ys (Some b)" and pb: "prev_of l b = Some (last ys)"
    and nb: "next_of l b = first_or zs None" and cz: "chain (prev_of l) (next_of l) (Some b) zs None"
    using c ys by (auto simp: xs chain_append last_or_def)
  have hb: "lru_head l = Some (hd ys)" using hd ys by (simp add: xs)
  have dis: "distinct ys" "distinct zs" "set ys \<inter> set zs = {}" "b \<notin> set ys" "b \<notin> set zs"
    using d by (auto simp: xs)
  have hin: "hd ys \<in> set ys" "last ys \<in> set ys" using ys by simp_all
  have bn: "next_of l b \<noteq> Some b" "prev_of l b \<noteq> Some b" "hd ys \<noteq> b"
    using nb pb dis hin by (cases zs; auto)+
  note nth = move_front_nth [OF _ hb bn(3) bn(1,2) [unfolded next_of_def prev_of_def]]
  have pv: "prev_of (move_front b l) j = (if j = b then None else if j = hd ys then Some b
              else if next_of l b = Some j then prev_of l b else prev_of l j)"
    and nx: "next_of (move_front b l) j =
        (if j = b then Some (hd ys) else if prev_of l b = Some j then next_of l b else next_of l j)"
    and ix: "bc_index (lru_inner (move_front b l) ! j) = bc_index (lru_inner l ! j)"
    if "j < length (lru_inner l)" for j
    using nth [OF that] by (simp_all add: prev_of_def next_of_def)
  have lt: "j < length (lru_inner l)" if "j \<in> set ys \<union> set zs \<union> {b}" for j using that s by (auto simp: xs)
  have nz: "next_of l b \<noteq> Some j" if "j \<in> set ys" for j
    using nb that dis(3) by (cases zs) auto
  have "chain (prev_of (move_front b l)) (next_of (move_front b l)) (Some b) ys (first_or zs None)"
    using cy dis(1)
  proof (rule chain_ends)
    show "\<forall>x \<in> set ys. prev_of (move_front b l) x = (if x = hd ys then Some b else prev_of l x)"
      using pv lt dis(4) nz by auto
    show "\<forall>x \<in> set ys. next_of (move_front b l) x = (if x = last ys then first_or zs None else next_of l x)"
      using nx lt dis(4) pb nb by auto
  qed
  moreover have "chain (prev_of (move_front b l)) (next_of (move_front b l)) (Some (last ys)) zs None"
  proof (cases zs)
    case Nil
    then show ?thesis by simp
  next
    case (Cons z zs')
    show ?thesis using cz dis(2)
    proof (rule chain_ends)
      show "\<forall>x \<in> set zs. prev_of (move_front b l) x = (if x = hd zs then Some (last ys) else prev_of l x)"
        using pv lt dis(3,5) hin pb nb by (auto simp: Cons)
      have "next_of l (last zs) = None" using cz by (metis Cons append_butlast_last_id chain_append chain.simps(2) first_or_simps(1) list.distinct(1))
      then show "\<forall>x \<in> set zs. next_of (move_front b l) x = (if x = last zs then None else next_of l x)"
        using nx lt dis(3,5) hin pb by auto
    qed
  qed
  ultimately have "chain (prev_of (move_front b l)) (next_of (move_front b l)) None (b # ys @ zs) None"
    using pv [OF b] nx [OF b] ys by (auto simp: chain_append first_or_append last_or_def first_or_def [of ys] split: list.split)
  moreover have "lru_tail (move_front b l) = Some (last (b # ys @ zs))"
    using tl pb ys dis(5) by (auto simp: move_front_ends xs last_append)
  moreover have "distinct (b # ys @ zs)" "set (b # ys @ zs) = {..<length (lru_inner l)}"
    using dis s by (auto simp: xs)
  moreover have "\<forall>i < length (lru_inner l). bc_index (lru_inner (move_front b l) ! i) = i"
    using ix ok by (simp add: lru_ok_def)
  ultimately show ?thesis unfolding r lru_ok_def move_front_ends(1,3) by simp
qed

text \<open>Reference counts, keys: the move touches pointers only.\<close>

lemma move_front_keys:
  assumes "lru_ok l xs" and "b < length (lru_inner l)" and "lru_head l \<noteq> Some b" and "j < length (lru_inner l)"
  shows "bc_refcnt (lru_inner (move_front b l) ! j) = bc_refcnt (lru_inner l ! j)"
    and "bc_dev (lru_inner (move_front b l) ! j) = bc_dev (lru_inner l ! j)"
    and "bc_blockno (lru_inner (move_front b l) ! j) = bc_blockno (lru_inner l ! j)"
  unfolding move_front_def Let_def
  by (auto simp: upd_opt_nth upd_ctrl_nth)

end
