(* ===== verification/BcacheInv.thy ===== *)
theory BcacheInv
  imports BcacheLru
begin

text \<open>
  The buffer cache as its clients see it: for each block its current contents, the
  contents on disk and the number of references. \<open>block_store\<close> is the interface the log
  and the file system rely on; the cache implements it.
\<close>

section \<open>Clients' view\<close>

definition ctl :: "bcache \<Rightarrow> nat \<Rightarrow> buf_ctrl" where
  "ctl s i = lru_inner (bca_ctrl s) ! i"

definition nbufs :: "bcache \<Rightarrow> nat" where
  "nbufs s = length (lru_inner (bca_ctrl s))"

definition has_key :: "u32 \<Rightarrow> u32 \<Rightarrow> bcache \<Rightarrow> nat \<Rightarrow> bool" where
  "has_key d b s i \<longleftrightarrow> bc_dev (ctl s i) = d \<and> bc_blockno (ctl s i) = b"

definition slot :: "u32 \<Rightarrow> bcache \<Rightarrow> u32 \<Rightarrow> nat option" where
  "slot d s b = find (has_key d b s) [0..<nbufs s]"

definition cur :: "u32 \<Rightarrow> bcache \<Rightarrow> u32 \<Rightarrow> block" where
  "cur d s b =
     (case slot d s b of
        Some i \<Rightarrow> if buf_valid (bca_bufs s ! i) then buf_data (bca_bufs s ! i) else bca_disk s b
      | None \<Rightarrow> bca_disk s b)"

definition refs :: "u32 \<Rightarrow> bcache \<Rightarrow> u32 \<Rightarrow> nat" where
  "refs d s b = (case slot d s b of Some i \<Rightarrow> bc_refcnt (ctl s i) | None \<Rightarrow> 0)"

definition keys_ok :: "u32 \<Rightarrow> bcache \<Rightarrow> bool" where
  "keys_ok d s \<longleftrightarrow>
     length (bca_bufs s) = nbufs s \<and> d \<noteq> 0 \<and>
     (\<forall>i < nbufs s. bc_dev (ctl s i) = d \<or>
        bc_dev (ctl s i) = 0 \<and> bc_refcnt (ctl s i) = 0 \<and> \<not> buf_valid (bca_bufs s ! i)) \<and>
     (\<forall>i < nbufs s. \<forall>j < nbufs s. bc_dev (ctl s i) = d \<longrightarrow> bc_dev (ctl s j) = d \<longrightarrow>
        bc_blockno (ctl s i) = bc_blockno (ctl s j) \<longrightarrow> i = j) \<and>
     (\<forall>i < nbufs s. bc_refcnt (ctl s i) = 0 \<longrightarrow> buf_valid (bca_bufs s ! i) \<longrightarrow>
        buf_data (bca_bufs s ! i) = bca_disk s (bc_blockno (ctl s i)))"

definition cache_inv :: "u32 \<Rightarrow> bcache \<Rightarrow> bool" where
  "cache_inv d s \<longleftrightarrow> keys_ok d s \<and> (\<exists>xs. lru_ok (bca_ctrl s) xs)"

text \<open>A buffer handle for block \<open>b\<close> that is held.\<close>

definition holds :: "u32 \<Rightarrow> bcache \<Rightarrow> buf \<Rightarrow> u32 \<Rightarrow> bool" where
  "holds d s h b \<longleftrightarrow>
     b_blockno h = b \<and> b_rc h = b_index h \<and> slot d s b = Some (b_index h) \<and>
     buf_valid (bca_bufs s ! b_index h) \<and> 0 < bc_refcnt (ctl s (b_index h))"

lemma find_SomeD: "find P xs = Some x \<Longrightarrow> x \<in> set xs \<and> P x"
  by (induction xs) (auto split: if_splits)

lemma find_unique:
  assumes "i < n" and "P i" and "\<And>j. j < n \<Longrightarrow> P j \<Longrightarrow> j = i"
  shows "find P [0..<n] = Some i"
proof -
  have "find P [0..<n] \<noteq> None" using assms(1,2) by (auto simp: find_None_iff)
  then obtain j where "find P [0..<n] = Some j" by blast
  moreover from this have "j < n" "P j" by (auto simp: find_Some_iff)
  ultimately show ?thesis using assms(3) by simp
qed

lemma slot_Some:
  assumes "keys_ok d s"
  shows "slot d s b = Some i \<longleftrightarrow> i < nbufs s \<and> has_key d b s i"
proof
  assume "slot d s b = Some i"
  then show "i < nbufs s \<and> has_key d b s i" by (auto simp: slot_def find_Some_iff)
next
  assume i: "i < nbufs s \<and> has_key d b s i"
  have "j = i" if "j < nbufs s" "has_key d b s j" for j
    using assms i that unfolding keys_ok_def has_key_def by metis
  then show "slot d s b = Some i" using i unfolding slot_def by (intro find_unique) auto
qed

lemma slot_None: "slot d s b = None \<longleftrightarrow> (\<forall>i < nbufs s. \<not> has_key d b s i)"
  by (auto simp: slot_def find_None_iff)

lemma slot_eqI:
  assumes "nbufs s' = nbufs s" and "\<And>i. i < nbufs s \<Longrightarrow> has_key d b s' i = has_key d b s i"
  shows "slot d s' b = slot d s b"
  unfolding slot_def assms(1) by (intro find_cong refl) (simp add: assms(2))

text \<open>Some buffer is free when fewer blocks than buffers are referenced.\<close>

lemma refs_blocks:
  assumes "keys_ok d s"
  shows "{b. 0 < refs d s b} = (\<lambda>i. bc_blockno (ctl s i)) ` {i. i < nbufs s \<and> 0 < bc_refcnt (ctl s i)}"
proof (rule set_eqI)
  fix b
  have "0 < refs d s b \<longleftrightarrow> (\<exists>i. slot d s b = Some i \<and> 0 < bc_refcnt (ctl s i))"
    by (auto simp: refs_def split: option.split)
  also have "\<dots> \<longleftrightarrow> b \<in> (\<lambda>i. bc_blockno (ctl s i)) ` {i. i < nbufs s \<and> 0 < bc_refcnt (ctl s i)}"
    using assms by (auto simp: slot_Some [OF assms] has_key_def image_iff keys_ok_def)
  finally show "b \<in> {b. 0 < refs d s b} \<longleftrightarrow>
      b \<in> (\<lambda>i. bc_blockno (ctl s i)) ` {i. i < nbufs s \<and> 0 < bc_refcnt (ctl s i)}" by simp
qed

lemma free_buffer:
  assumes k: "keys_ok d s" and "card {b. 0 < refs d s b} < nbufs s"
  shows "\<exists>i < nbufs s. bc_refcnt (ctl s i) = 0"
proof (rule ccontr)
  assume "\<not> (\<exists>i < nbufs s. bc_refcnt (ctl s i) = 0)"
  then have a: "{i. i < nbufs s \<and> 0 < bc_refcnt (ctl s i)} = {..<nbufs s}" by auto
  have "inj_on (\<lambda>i. bc_blockno (ctl s i)) {..<nbufs s}"
  proof (rule inj_onI)
    fix i j
    assume "i \<in> {..<nbufs s}" "j \<in> {..<nbufs s}" "bc_blockno (ctl s i) = bc_blockno (ctl s j)"
    moreover from this a have "0 < bc_refcnt (ctl s i)" "0 < bc_refcnt (ctl s j)" by auto
    ultimately show "i = j" using k unfolding keys_ok_def by (metis lessThan_iff less_irrefl)
  qed
  then have "card {b. 0 < refs d s b} = nbufs s" unfolding refs_blocks [OF k] a by (simp add: card_image)
  then show False using assms(2) by simp
qed

section \<open>Getting a buffer\<close>

text \<open>The result of \<open>bget\<close> when the block is cached, and when a buffer is recycled.\<close>

lemma find_order:
  assumes "lru_ok l xs" and "i < length (lru_inner l)" and "P i" and "\<And>j. j < length (lru_inner l) \<Longrightarrow> P j \<Longrightarrow> j = i"
  shows "find P xs = Some i"
proof -
  have m: "j \<in> set xs \<longleftrightarrow> j < length (lru_inner l)" for j using assms(1) by (auto simp: lru_ok_def)
  then have "find P xs \<noteq> None" using assms(2,3) by (auto simp: find_None_iff)
  then obtain j where j: "find P xs = Some j" by blast
  then have "j \<in> set xs" "P j" by (auto simp: find_Some_iff)
  then show ?thesis using j assms(4) m by simp
qed

lemma bget_cached:
  assumes k: "keys_ok d s" and l: "lru_ok (bca_ctrl s) xs" and sl: "slot d s b = Some i"
  shows "bget d b s =
     Done (\<lparr>b_index = i, b_dev = d, b_blockno = b, b_rc = i\<rparr>,
           s\<lparr>bca_ctrl := upd_ctrl i (\<lambda>c. c\<lparr>bc_refcnt := bc_refcnt c + 1\<rparr>) (bca_ctrl s)\<rparr>)"
proof -
  have i: "i < nbufs s" "has_key d b s i" using sl by (simp_all add: slot_Some [OF k])
  have "find (\<lambda>j. bc_dev (lru_inner (bca_ctrl s) ! j) = d \<and> bc_blockno (lru_inner (bca_ctrl s) ! j) = b) xs = Some i"
  proof (rule find_order [OF l])
    show "i < length (lru_inner (bca_ctrl s))" using i by (simp add: nbufs_def)
    show "bc_dev (lru_inner (bca_ctrl s) ! i) = d \<and> bc_blockno (lru_inner (bca_ctrl s) ! i) = b"
      using i by (simp add: has_key_def ctl_def)
    show "j = i" if "j < length (lru_inner (bca_ctrl s))"
      "bc_dev (lru_inner (bca_ctrl s) ! j) = d \<and> bc_blockno (lru_inner (bca_ctrl s) ! j) = b" for j
      using slot_Some [OF k, of b j] sl that by (simp add: nbufs_def has_key_def ctl_def)
  qed
  moreover have "bc_index (lru_inner (bca_ctrl s) ! i) = i" using l i by (simp add: lru_ok_def nbufs_def)
  ultimately show ?thesis
    using lru_find [OF l] by (simp add: bget_def find_cached_def kres_simps)
qed

lemma bget_recycle:
  assumes l: "lru_ok (bca_ctrl s) xs" and sl: "slot d s b = None"
    and f: "find (\<lambda>i. bc_refcnt (ctl s i) = 0) (rev xs) = Some i"
  shows "bget d b s =
     Done (\<lparr>b_index = i, b_dev = d, b_blockno = b, b_rc = i\<rparr>,
           s\<lparr>bca_ctrl := upd_ctrl i (\<lambda>c. c\<lparr>bc_dev := d, bc_blockno := b, bc_refcnt := bc_refcnt c + 1\<rparr>) (bca_ctrl s),
             bca_bufs := (bca_bufs s)[i := (bca_bufs s ! i)\<lparr>buf_valid := False\<rparr>]\<rparr>)"
proof -
  have "find (\<lambda>j. bc_dev (lru_inner (bca_ctrl s) ! j) = d \<and> bc_blockno (lru_inner (bca_ctrl s) ! j) = b) xs = None"
    using sl l by (auto simp: slot_None find_None_iff lru_ok_def has_key_def ctl_def nbufs_def)
  moreover have "i \<in> set xs" using find_SomeD [OF f] by simp
  then have "bc_index (lru_inner (bca_ctrl s) ! i) = i" using l by (auto simp: lru_ok_def)
  ultimately show ?thesis
    using lru_find [OF l] lru_recycle [OF l] f
    by (simp add: bget_def find_cached_def recycle_def kres_simps ctl_def)
qed

section \<open>Changing one buffer\<close>

definition upd_buf :: "nat \<Rightarrow> buf_ctrl \<Rightarrow> buf_inner \<Rightarrow> bcache \<Rightarrow> bcache" where
  "upd_buf i c bi s = s\<lparr>bca_ctrl := upd_ctrl i (\<lambda>_. c) (bca_ctrl s), bca_bufs := (bca_bufs s)[i := bi]\<rparr>"

text \<open>Buffer \<open>i\<close> comes to hold block \<open>b\<close>, referenced, with contents \<open>bi\<close>.\<close>

definition takes :: "u32 \<Rightarrow> u32 \<Rightarrow> nat \<Rightarrow> buf_ctrl \<Rightarrow> buf_inner \<Rightarrow> bcache \<Rightarrow> bool" where
  "takes d b i c bi s \<longleftrightarrow>
     i < nbufs s \<and> bc_dev c = d \<and> bc_blockno c = b \<and> 0 < bc_refcnt c \<and> buf_valid bi \<and>
     bc_prev c = bc_prev (ctl s i) \<and> bc_next c = bc_next (ctl s i) \<and> bc_index c = bc_index (ctl s i) \<and>
     (slot d s b = Some i \<or> slot d s b = None \<and> bc_refcnt (ctl s i) = 0)"

lemma upd_buf_simps:
  assumes "i < nbufs s"
  shows "nbufs (upd_buf i c bi s) = nbufs s"
    and "ctl (upd_buf i c bi s) j = (if j = i then c else ctl s j)"
    and "length (bca_bufs (upd_buf i c bi s)) = length (bca_bufs s)"
    and "bca_disk (upd_buf i c bi s) = bca_disk s"
    and "bca_writes (upd_buf i c bi s) = bca_writes s"
  using assms by (auto simp: upd_buf_def nbufs_def ctl_def upd_ctrl_nth)

lemma upd_buf_nth:
  "i < length (bca_bufs s) \<Longrightarrow> bca_bufs (upd_buf i c bi s) ! j = (if j = i then bi else bca_bufs s ! j)"
  by (auto simp: upd_buf_def nth_list_upd_if)

lemma takes_not_other:
  assumes "keys_ok d s" and "takes d b i c bi s" and "j < nbufs s" and "j \<noteq> i"
  shows "\<not> has_key d b s j"
  using assms slot_Some [OF assms(1), of b j] by (auto simp: takes_def slot_None)

lemma upd_buf_keys:
  assumes k: "keys_ok d s" and t: "takes d b i c bi s"
  shows "keys_ok d (upd_buf i c bi s)"
proof -
  have i: "i < nbufs s" "bc_dev c = d" "bc_blockno c = b" "0 < bc_refcnt c" using t by (auto simp: takes_def)
  note us = upd_buf_simps [OF i(1)]
  have un: "bca_bufs (upd_buf i c bi s) ! j = (if j = i then bi else bca_bufs s ! j)" for j
    using k i(1) by (simp add: upd_buf_nth keys_ok_def)
  have o: "bc_dev (ctl s j) = d \<Longrightarrow> j < nbufs s \<Longrightarrow> j \<noteq> i \<Longrightarrow> bc_blockno (ctl s j) \<noteq> b" for j
    using takes_not_other [OF k t] by (auto simp: has_key_def)
  have kd: "bc_dev (ctl s j) = d \<or> bc_dev (ctl s j) = 0 \<and> bc_refcnt (ctl s j) = 0 \<and> \<not> buf_valid (bca_bufs s ! j)"
    and kc: "bc_refcnt (ctl s j) = 0 \<Longrightarrow> buf_valid (bca_bufs s ! j) \<Longrightarrow>
        buf_data (bca_bufs s ! j) = bca_disk s (bc_blockno (ctl s j))" if "j < nbufs s" for j
    using k that by (simp_all add: keys_ok_def)
  have ku: "j = j'" if "j < nbufs s" "j' < nbufs s" "bc_dev (ctl s j) = d" "bc_dev (ctl s j') = d"
    "bc_blockno (ctl s j) = bc_blockno (ctl s j')" for j j'
    using k that by (simp add: keys_ok_def)
  show ?thesis unfolding keys_ok_def us un
  proof (intro conjI allI impI)
    show "length (bca_bufs s) = nbufs s" "d \<noteq> 0" using k by (simp_all add: keys_ok_def)
  next
    fix j
    assume j: "j < nbufs s"
    show "bc_dev (if j = i then c else ctl s j) = d \<or>
        bc_dev (if j = i then c else ctl s j) = 0 \<and> bc_refcnt (if j = i then c else ctl s j) = 0 \<and>
        \<not> buf_valid (if j = i then bi else bca_bufs s ! j)"
      using kd [OF j] i(2) by simp
  next
    fix j
    assume "j < nbufs s" "bc_refcnt (if j = i then c else ctl s j) = 0" "buf_valid (if j = i then bi else bca_bufs s ! j)"
    then show "buf_data (if j = i then bi else bca_bufs s ! j) = bca_disk s (bc_blockno (if j = i then c else ctl s j))"
      using kc i(4) by (cases "j = i") auto
  next
    fix j j'
    assume a: "j < nbufs s" "j' < nbufs s" "bc_dev (if j = i then c else ctl s j) = d"
      "bc_dev (if j' = i then c else ctl s j') = d"
      "bc_blockno (if j = i then c else ctl s j) = bc_blockno (if j' = i then c else ctl s j')"
    show "j = j'"
      using a ku [of j j'] o [of j] o [of j'] i(3) by (cases "j = i"; cases "j' = i") simp_all
  qed
qed

lemma upd_buf_lru:
  assumes "lru_ok (bca_ctrl s) xs" and "takes d b i c bi s"
  shows "lru_ok (bca_ctrl (upd_buf i c bi s)) xs"
proof -
  have "upd_ctrl i (\<lambda>_. c) (bca_ctrl s) =
      upd_ctrl i (\<lambda>x. c\<lparr>bc_prev := bc_prev x, bc_next := bc_next x, bc_index := bc_index x\<rparr>) (bca_ctrl s)"
    using assms(2) by (cases c) (simp add: upd_ctrl_def takes_def ctl_def)
  then show ?thesis using assms(1) by (simp add: upd_buf_def lru_ok_upd)
qed

lemma upd_buf_view:
  assumes k: "keys_ok d s" and t: "takes d b i c bi s"
  defines "s' \<equiv> upd_buf i c bi s"
  shows "slot d s' b = Some i"
    and "x \<noteq> b \<Longrightarrow> slot d s' x = (if slot d s x = Some i then None else slot d s x)"
    and "cur d s' = (cur d s)(b := buf_data bi)"
    and "refs d s' = (refs d s)(b := bc_refcnt c)"
proof -
  have i: "i < nbufs s" "bc_dev c = d" "bc_blockno c = b" "buf_valid bi" using t by (auto simp: takes_def)
  have lb: "i < length (bca_bufs s)" using k i(1) by (simp add: keys_ok_def)
  note us = upd_buf_simps [OF i(1), where c = c and bi = bi, folded s'_def]
  note k' = upd_buf_keys [OF k t, folded s'_def]
  have hk: "has_key d x s' j = (if j = i then x = b else has_key d x s j)" for x j
    using i by (auto simp: has_key_def us)
  have sb: "slot d s' b = Some i" using i hk by (simp add: slot_Some [OF k'] us)
  have so: "slot d s' x = (if slot d s x = Some i then None else slot d s x)" if "x \<noteq> b" for x
  proof (cases "slot d s x")
    case None
    then have "slot d s' x = None" using that by (simp add: slot_None us hk)
    then show ?thesis using None by simp
  next
    case (Some j)
    show ?thesis
    proof (cases "j = i")
      case True
      have "j' = i" if "j' < nbufs s" "has_key d x s j'" for j'
        using slot_Some [OF k, of x j'] that Some True by simp
      then have "\<forall>j < nbufs s'. \<not> has_key d x s' j"
        unfolding us hk using that by metis
      then show ?thesis using Some True by (simp add: slot_None)
    next
      case False
      then have "slot d s' x = Some j" using Some slot_Some [OF k, of x j] by (simp add: slot_Some [OF k'] us hk)
      then show ?thesis using Some False by simp
    qed
  qed
  have ri: "bc_refcnt (ctl s i) = 0" if "slot d s x = Some i" "x \<noteq> b" for x
    using t that slot_Some [OF k, of x i] slot_Some [OF k, of b i] by (auto simp: takes_def has_key_def)
  show "slot d s' b = Some i" by (rule sb)
  show "x \<noteq> b \<Longrightarrow> slot d s' x = (if slot d s x = Some i then None else slot d s x)" by (rule so)
  show "cur d s' = (cur d s)(b := buf_data bi)"
  proof
    fix x
    have bn: "bca_bufs s' ! j = (if j = i then bi else bca_bufs s ! j)" for j
      unfolding s'_def by (rule upd_buf_nth [OF lb])
    show "cur d s' x = ((cur d s)(b := buf_data bi)) x"
    proof (cases "x = b")
      case True
      then show ?thesis using sb i(4) by (simp add: cur_def bn)
    next
      case xb: False
      show ?thesis
      proof (cases "slot d s x = Some i")
        case True
        have "buf_data (bca_bufs s ! i) = bca_disk s x" if "buf_valid (bca_bufs s ! i)"
          using k i(1) that ri [OF True xb] slot_Some [OF k, of x i] True by (simp add: keys_ok_def has_key_def)
        then show ?thesis using xb so [OF xb] True us(4) by (simp add: cur_def)
      next
        case False
        then show ?thesis
          using xb so [OF xb] us(4) by (cases "slot d s x") (simp_all add: cur_def bn)
      qed
    qed
  qed
  show "refs d s' = (refs d s)(b := bc_refcnt c)"
  proof
    fix x
    show "refs d s' x = ((refs d s)(b := bc_refcnt c)) x"
      using sb so [of x] ri [of x]
      by (cases "x = b"; cases "slot d s x") (simp_all add: refs_def us(2))
  qed
qed

section \<open>Laws\<close>

lemma holdsD:
  assumes "keys_ok d s" and "holds d s h b"
  shows "b_index h < nbufs s" "has_key d b s (b_index h)" "b_rc h = b_index h" "b_blockno h = b"
    "refs d s b = bc_refcnt (ctl s (b_index h))" "cur d s b = buf_data (bca_bufs s ! b_index h)"
    "0 < refs d s b"
  using assms slot_Some [OF assms(1), of b "b_index h"] by (auto simp: holds_def refs_def cur_def)

lemma holds_stable:
  assumes k: "keys_ok d s" and t: "takes d b i c bi s" and h: "holds d s h' b'"
  shows "holds d (upd_buf i c bi s) h' b'"
proof -
  have i: "i < nbufs s" "0 < bc_refcnt c" "buf_valid bi" using t by (auto simp: takes_def)
  have lb: "i < length (bca_bufs s)" using k i(1) by (simp add: keys_ok_def)
  have s': "slot d s b' = Some (b_index h')" and r: "0 < bc_refcnt (ctl s (b_index h'))"
    using h by (auto simp: holds_def)
  have "slot d (upd_buf i c bi s) b' = Some (b_index h')"
  proof (cases "b' = b")
    case True
    then have "b_index h' = i" using t s' by (auto simp: takes_def)
    then show ?thesis using upd_buf_view(1) [OF k t] True by simp
  next
    case False
    have "b_index h' \<noteq> i"
    proof
      assume e: "b_index h' = i"
      then have "slot d s b = Some i" using t r by (auto simp: takes_def)
      then show False using False s' e slot_Some [OF k] by (auto simp: has_key_def)
    qed
    then show ?thesis using upd_buf_view(2) [OF k t False] s' by simp
  qed
  then show ?thesis
    using h i lb by (auto simp: holds_def upd_buf_nth upd_buf_simps [OF i(1)])
qed

lemma cache_inv_upd:
  "cache_inv d s \<Longrightarrow> takes d b i c bi s \<Longrightarrow> cache_inv d (upd_buf i c bi s)"
  using upd_buf_keys upd_buf_lru unfolding cache_inv_def by blast

lemma bread_law:
  assumes inv: "cache_inv d s" and room: "0 < refs d s b \<or> card {x. 0 < refs d s x} < nbufs s"
  shows "\<exists>h s'. bread d b s = Done (h, s') \<and> cache_inv d s' \<and> nbufs s' = nbufs s \<and> holds d s' h b \<and>
           cur d s' = cur d s \<and> bca_disk s' = bca_disk s \<and> bca_writes s' = bca_writes s \<and>
           refs d s' = (refs d s)(b := Suc (refs d s b)) \<and>
           (\<forall>h' b'. holds d s h' b' \<longrightarrow> holds d s' h' b')"
proof -
  obtain xs where k: "keys_ok d s" and l: "lru_ok (bca_ctrl s) xs" using inv by (auto simp: cache_inv_def)
  have "\<exists>h i c bi. bread d b s = Done (h, upd_buf i c bi s) \<and> takes d b i c bi s \<and>
          b_index h = i \<and> b_rc h = i \<and> b_blockno h = b \<and> buf_data bi = cur d s b \<and>
          bc_refcnt c = Suc (refs d s b)"
  proof (cases "slot d s b")
    case (Some i)
    let ?h = "\<lparr>b_index = i, b_dev = d, b_blockno = b, b_rc = i\<rparr>"
    let ?c = "(ctl s i)\<lparr>bc_refcnt := bc_refcnt (ctl s i) + 1\<rparr>"
    let ?b = "if buf_valid (bca_bufs s ! i) then bca_bufs s ! i
              else (bca_bufs s ! i)\<lparr>buf_data := bca_disk s b, buf_valid := True\<rparr>"
    have i: "i < nbufs s" "has_key d b s i" using slot_Some [OF k] Some by simp_all
    have lb: "i < length (bca_bufs s)" using k i(1) by (simp add: keys_ok_def)
    have "bread d b s = Done (?h, upd_buf i ?c ?b s)"
      using bget_cached [OF k l Some] lb
      by (simp add: bread_def kres_simps upd_buf_def upd_ctrl_def disk_read_def ctl_def)
    moreover have "takes d b i ?c ?b s" using i Some by (simp add: takes_def has_key_def)
    ultimately show ?thesis
      using Some by (intro exI [of _ ?h] exI [of _ i] exI [of _ ?c] exI [of _ ?b]) (simp add: cur_def refs_def)
  next
    case None
    then have "card {x. 0 < refs d s x} < nbufs s" using room by (simp add: refs_def)
    from free_buffer [OF k this] obtain j where "j < nbufs s" "bc_refcnt (ctl s j) = 0" by blast
    then have "find (\<lambda>i. bc_refcnt (ctl s i) = 0) (rev xs) \<noteq> None"
      using l by (auto simp: find_None_iff lru_ok_def nbufs_def)
    then obtain i where f: "find (\<lambda>i. bc_refcnt (ctl s i) = 0) (rev xs) = Some i" by blast
    let ?h = "\<lparr>b_index = i, b_dev = d, b_blockno = b, b_rc = i\<rparr>"
    let ?c = "(ctl s i)\<lparr>bc_dev := d, bc_blockno := b, bc_refcnt := bc_refcnt (ctl s i) + 1\<rparr>"
    let ?b = "(bca_bufs s ! i)\<lparr>buf_data := bca_disk s b, buf_valid := True\<rparr>"
    have i: "i < nbufs s" "bc_refcnt (ctl s i) = 0"
      using find_SomeD [OF f] l by (auto simp: lru_ok_def nbufs_def)
    have lb: "i < length (bca_bufs s)" using k i(1) by (simp add: keys_ok_def)
    have "bread d b s = Done (?h, upd_buf i ?c ?b s)"
      using bget_recycle [OF l None f] lb
      by (simp add: bread_def kres_simps upd_buf_def upd_ctrl_def disk_read_def ctl_def)
    moreover have "takes d b i ?c ?b s" using i None by (simp add: takes_def)
    ultimately show ?thesis
      using None i by (intro exI [of _ ?h] exI [of _ i] exI [of _ ?c] exI [of _ ?b]) (simp add: cur_def refs_def)
  qed
  then obtain h i c bi where r: "bread d b s = Done (h, upd_buf i c bi s)" and t: "takes d b i c bi s"
    and h: "b_index h = i" "b_rc h = i" "b_blockno h = b" "buf_data bi = cur d s b" "bc_refcnt c = Suc (refs d s b)"
    by blast
  have i: "i < nbufs s" "buf_valid bi" using t by (auto simp: takes_def)
  have lb: "i < length (bca_bufs s)" using k i(1) by (simp add: keys_ok_def)
  note us = upd_buf_simps [OF i(1)] and v = upd_buf_view [OF k t]
  have "holds d (upd_buf i c bi s) h b"
    using h i v(1) lb by (simp add: holds_def us upd_buf_nth)
  then show ?thesis
    using r cache_inv_upd [OF inv t] us v(3,4) h holds_stable [OF k t] by auto
qed

lemma raw_data_law: "keys_ok d s \<Longrightarrow> holds d s h b \<Longrightarrow> raw_data h s = cur d s b"
  using holdsD(6) by (simp add: raw_data_def)

lemma takes_held:
  assumes k: "keys_ok d s" and h: "holds d s h b" and r: "0 < r" and v: "buf_valid bi"
  shows "takes d b (b_index h) ((ctl s (b_index h))\<lparr>bc_refcnt := r\<rparr>) bi s"
  using holdsD(1,2) [OF k h] h r v by (simp add: takes_def has_key_def holds_def)

lemma upd_buf_refcnt:
  assumes "keys_ok d s" and "holds d s h b"
  shows "upd_buf (b_index h) ((ctl s (b_index h))\<lparr>bc_refcnt := bc_refcnt (ctl s (b_index h))\<rparr>) bi s =
         s\<lparr>bca_bufs := (bca_bufs s)[b_index h := bi]\<rparr>"
    and "upd_buf (b_index h) ((ctl s (b_index h))\<lparr>bc_refcnt := r\<rparr>) (bca_bufs s ! b_index h) s =
         s\<lparr>bca_ctrl := upd_ctrl (b_index h) (\<lambda>c. c\<lparr>bc_refcnt := r\<rparr>) (bca_ctrl s)\<rparr>"
  by (simp_all add: upd_buf_def upd_ctrl_def ctl_def)

text \<open>What an operation leaves alone.\<close>

definition same_handles :: "u32 \<Rightarrow> bcache \<Rightarrow> bcache \<Rightarrow> bool" where
  "same_handles d s s' \<longleftrightarrow> (\<forall>h b. holds d s h b \<longrightarrow> holds d s' h b)"

lemma raw_data_mut_law:
  fixes v :: block
  assumes inv: "cache_inv d s" and h: "holds d s h b"
  defines "s' \<equiv> raw_data_mut h v s"
  shows "cache_inv d s'" "nbufs s' = nbufs s" "cur d s' = (cur d s)(b := v)" "bca_disk s' = bca_disk s"
    "bca_writes s' = bca_writes s" "refs d s' = refs d s" "same_handles d s s'"
proof -
  have k: "keys_ok d s" using inv by (simp add: cache_inv_def)
  let ?bi = "(bca_bufs s ! b_index h)\<lparr>buf_data := v\<rparr>"
  let ?c = "(ctl s (b_index h))\<lparr>bc_refcnt := bc_refcnt (ctl s (b_index h))\<rparr>"
  have t: "takes d b (b_index h) ?c ?bi s"
    using h by (intro takes_held [OF k h]) (auto simp: holds_def)
  have e: "s' = upd_buf (b_index h) ?c ?bi s"
    using upd_buf_refcnt(1) [OF k h] by (simp add: s'_def raw_data_mut_def)
  note us = upd_buf_simps [OF holdsD(1) [OF k h]] and vw = upd_buf_view [OF k t]
  show "cache_inv d s'" "nbufs s' = nbufs s" "cur d s' = (cur d s)(b := v)" "bca_disk s' = bca_disk s"
    "bca_writes s' = bca_writes s" "same_handles d s s'"
    unfolding e using cache_inv_upd [OF inv t] us vw(3) holds_stable [OF k t]
    by (simp_all add: same_handles_def)
  show "refs d s' = refs d s"
    unfolding e vw(4) using holdsD(5) [OF k h] by (simp add: fun_upd_idem)
qed

lemma set_refcnt_law:
  assumes inv: "cache_inv d s" and h: "holds d s h b" and r: "0 < r"
  defines "s' \<equiv> s\<lparr>bca_ctrl := upd_ctrl (b_index h) (\<lambda>c. c\<lparr>bc_refcnt := r\<rparr>) (bca_ctrl s)\<rparr>"
  shows "cache_inv d s'" "nbufs s' = nbufs s" "cur d s' = cur d s" "bca_disk s' = bca_disk s"
    "bca_writes s' = bca_writes s" "refs d s' = (refs d s)(b := r)" "same_handles d s s'"
proof -
  have k: "keys_ok d s" using inv by (simp add: cache_inv_def)
  let ?bi = "bca_bufs s ! b_index h" and ?c = "(ctl s (b_index h))\<lparr>bc_refcnt := r\<rparr>"
  have t: "takes d b (b_index h) ?c ?bi s" using h r by (intro takes_held [OF k h]) (auto simp: holds_def)
  have e: "s' = upd_buf (b_index h) ?c ?bi s" using upd_buf_refcnt(2) [OF k h] by (simp add: s'_def)
  note us = upd_buf_simps [OF holdsD(1) [OF k h]] and vw = upd_buf_view [OF k t]
  show "cache_inv d s'" "nbufs s' = nbufs s" "bca_disk s' = bca_disk s"
    "bca_writes s' = bca_writes s" "refs d s' = (refs d s)(b := r)" "same_handles d s s'"
    unfolding e using cache_inv_upd [OF inv t] us vw(4) holds_stable [OF k t]
    by (simp_all add: same_handles_def)
  show "cur d s' = cur d s" unfolding e vw(3) using holdsD(6) [OF k h] by (simp add: fun_upd_idem)
qed

lemma pin_eq:
  assumes "keys_ok d s" and "holds d s h b"
  shows "pin h s = s\<lparr>bca_ctrl := upd_ctrl (b_index h) (\<lambda>c. c\<lparr>bc_refcnt := Suc (refs d s b)\<rparr>) (bca_ctrl s)\<rparr>"
  using holdsD(3,5) [OF assms] by (simp add: pin_def upd_ctrl_def ctl_def)

lemma unpin_eq:
  assumes "keys_ok d s" and "holds d s h b" and "1 < refs d s b"
  shows "unpin h s =
    Done (s\<lparr>bca_ctrl := upd_ctrl (b_index h) (\<lambda>c. c\<lparr>bc_refcnt := refs d s b - 1\<rparr>) (bca_ctrl s)\<rparr>)"
  using holdsD(3,5) [OF assms(1,2)] assms(3) by (simp add: unpin_def ctl_def Let_def)

lemma bwrite_law:
  assumes inv: "cache_inv d s" and h: "holds d s h b"
  defines "s' \<equiv> bwrite h s"
  shows "cache_inv d s'" "nbufs s' = nbufs s" "cur d s' = cur d s"
    "bca_disk s' = (bca_disk s)(b := cur d s b)" "bca_writes s' = bca_writes s @ [(b, cur d s b)]"
    "refs d s' = refs d s" "same_handles d s s'"
proof -
  have k: "keys_ok d s" using inv by (simp add: cache_inv_def)
  note hd = holdsD [OF k h]
  have same: "ctl s' = ctl s" "nbufs s' = nbufs s" "bca_bufs s' = bca_bufs s" "bca_ctrl s' = bca_ctrl s"
    by (simp_all add: s'_def bwrite_def ctl_def nbufs_def fun_eq_iff)
  have sl: "slot d s' = slot d s" by (rule ext, rule slot_eqI) (simp_all add: has_key_def same)
  show "nbufs s' = nbufs s" by (rule same)
  show dk: "bca_disk s' = (bca_disk s)(b := cur d s b)" and "bca_writes s' = bca_writes s @ [(b, cur d s b)]"
    using hd(4,6) by (simp_all add: s'_def bwrite_def)
  show "refs d s' = refs d s" by (rule ext) (simp add: refs_def sl same split: option.split)
  show "same_handles d s s'" by (simp add: same_handles_def holds_def sl same)
  have vb: "slot d s b = Some (b_index h)" "buf_valid (bca_bufs s ! b_index h)" using h by (auto simp: holds_def)
  show "cur d s' = cur d s"
  proof
    fix x
    show "cur d s' x = cur d s x"
      using vb by (cases "x = b") (simp_all add: cur_def sl same dk split: option.split)
  qed
  have "buf_data (bca_bufs s ! j) = bca_disk s' (bc_blockno (ctl s j))"
    if "j < nbufs s" "bc_refcnt (ctl s j) = 0" "buf_valid (bca_bufs s ! j)" for j
  proof -
    have kd: "bc_dev (ctl s j) = d" using k that by (auto simp: keys_ok_def)
    have "j \<noteq> b_index h" using that hd(5,7) by auto
    moreover have "slot d s (bc_blockno (ctl s j)) = Some j"
      using slot_Some [OF k] that kd by (simp add: has_key_def)
    ultimately have "bc_blockno (ctl s j) \<noteq> b" using vb by auto
    then show ?thesis using k that by (simp add: dk keys_ok_def)
  qed
  then have "keys_ok d s'" using k unfolding keys_ok_def same by simp
  then show "cache_inv d s'" using inv by (simp add: cache_inv_def same)
qed

lemma unreferenced_clean:
  assumes "keys_ok d s" and "refs d s b = 0"
  shows "cur d s b = bca_disk s b"
proof (cases "slot d s b")
  case None
  then show ?thesis by (simp add: cur_def)
next
  case (Some i)
  then have "i < nbufs s" "bc_blockno (ctl s i) = b" "bc_refcnt (ctl s i) = 0"
    using slot_Some [OF assms(1), of b i] assms(2) by (simp_all add: has_key_def refs_def Some)
  then show ?thesis using assms(1) Some by (auto simp: cur_def keys_ok_def)
qed

section \<open>Releasing a buffer\<close>

text \<open>
  The list after a release: a buffer whose last reference goes moves to the front.
\<close>

lemma move_if_no_ref_spec:
  assumes l: "lru_ok l xs" and i: "i < length (lru_inner l)" and r: "0 < bc_refcnt (lru_inner l ! i)"
  shows "\<exists>l'. move_if_no_ref i l = Done l' \<and>
           lru_ok l' (if bc_refcnt (lru_inner l ! i) = 1 then i # remove1 i xs else xs) \<and>
           length (lru_inner l') = length (lru_inner l) \<and>
           (\<forall>j < length (lru_inner l). bc_dev (lru_inner l' ! j) = bc_dev (lru_inner l ! j) \<and>
              bc_blockno (lru_inner l' ! j) = bc_blockno (lru_inner l ! j) \<and>
              bc_refcnt (lru_inner l' ! j) = bc_refcnt (lru_inner l ! j) - (if j = i then 1 else 0))"
proof -
  let ?l = "upd_ctrl i (\<lambda>c. c\<lparr>bc_refcnt := bc_refcnt c - 1\<rparr>) l"
  have ok: "lru_ok ?l xs" using l by (rule lru_ok_upd) simp_all
  have n: "bc_refcnt (lru_inner ?l ! i) = bc_refcnt (lru_inner l ! i) - 1" using i by (simp add: upd_ctrl_nth)
  show ?thesis
  proof (cases "bc_refcnt (lru_inner l ! i) = 1 \<and> lru_head ?l \<noteq> Some i")
    case True
    then have "move_if_no_ref i l = Done (move_front i ?l)"
      using i r n by (simp add: move_if_no_ref_def)
    moreover have "lru_ok (move_front i ?l) (i # remove1 i xs)"
      using True i by (intro move_front_order [OF ok]) simp_all
    ultimately show ?thesis
      using True i move_front_keys [OF ok, of i] by (simp add: move_front_ends upd_ctrl_nth)
  next
    case False
    then have m: "move_if_no_ref i l = Done ?l"
      using i r n by (auto simp: move_if_no_ref_def)
    have "i # remove1 i xs = xs" if "bc_refcnt (lru_inner l ! i) = 1"
      using False that l by (cases xs) (auto simp: lru_ok_def)
    then show ?thesis using m ok by (simp add: upd_ctrl_nth)
  qed
qed

lemma buf_drop_law:
  assumes inv: "cache_inv d s" and h: "holds d s h b"
    and clean: "refs d s b = 1 \<longrightarrow> cur d s b = bca_disk s b"
  shows "\<exists>s'. buf_drop h s = Done s' \<and> cache_inv d s' \<and> nbufs s' = nbufs s \<and> cur d s' = cur d s \<and>
           bca_disk s' = bca_disk s \<and> bca_writes s' = bca_writes s \<and>
           refs d s' = (refs d s)(b := refs d s b - 1) \<and>
           (\<forall>h' b'. holds d s h' b' \<and> (b' \<noteq> b \<or> 1 < refs d s b) \<longrightarrow> holds d s' h' b')"
proof -
  obtain xs where k: "keys_ok d s" and l: "lru_ok (bca_ctrl s) xs" using inv by (auto simp: cache_inv_def)
  note hd = holdsD [OF k h]
  let ?i = "b_index h"
  have vb: "slot d s b = Some ?i" "buf_valid (bca_bufs s ! ?i)" using h by (auto simp: holds_def)
  obtain l' xs' where m: "move_if_no_ref ?i (bca_ctrl s) = Done l'" and l': "lru_ok l' xs'"
    and len: "length (lru_inner l') = nbufs s"
    and keys: "\<And>j. j < nbufs s \<Longrightarrow> bc_dev (lru_inner l' ! j) = bc_dev (ctl s j) \<and>
        bc_blockno (lru_inner l' ! j) = bc_blockno (ctl s j) \<and>
        bc_refcnt (lru_inner l' ! j) = bc_refcnt (ctl s j) - (if j = ?i then 1 else 0)"
    using move_if_no_ref_spec [OF l, of ?i] hd by (auto simp: ctl_def nbufs_def)
  let ?s = "s\<lparr>bca_ctrl := l'\<rparr>"
  have nb: "nbufs ?s = nbufs s" using len by (simp add: nbufs_def)
  have c: "ctl ?s j = lru_inner l' ! j" for j by (simp add: ctl_def)
  have sl: "slot d ?s x = slot d s x" for x
    by (rule slot_eqI [OF nb]) (simp add: has_key_def c keys)
  have sn: "j < nbufs s" if "slot d s x = Some j" for x j using slot_Some [OF k] that by simp
  have cu: "cur d ?s = cur d s" by (rule ext) (simp add: cur_def sl split: option.split)
  have rf: "refs d ?s = (refs d s)(b := refs d s b - 1)"
  proof
    fix x
    have "slot d s x = Some ?i \<longleftrightarrow> x = b" using slot_Some [OF k] hd(1,2) by (auto simp: has_key_def)
    then show "refs d ?s x = ((refs d s)(b := refs d s b - 1)) x"
      using sn [of x] by (cases "slot d s x") (auto simp: refs_def sl c keys)
  qed
  have "keys_ok d ?s"
  proof -
    have "buf_data (bca_bufs s ! j) = bca_disk s (bc_blockno (ctl s j))"
      if "j < nbufs s" "bc_refcnt (lru_inner l' ! j) = 0" "buf_valid (bca_bufs s ! j)" for j
      using that keys [of j] k clean hd vb by (cases "j = ?i") (auto simp: keys_ok_def has_key_def)
    moreover have "bc_dev (ctl s ?i) = d" using hd(2) by (simp add: has_key_def)
    ultimately show ?thesis using k keys unfolding keys_ok_def nb c by auto
  qed
  then have "cache_inv d ?s" using l' by (auto simp: cache_inv_def)
  moreover have "holds d ?s h' b'" if "holds d s h' b'" "b' \<noteq> b \<or> 1 < refs d s b" for h' b'
  proof -
    note hd' = holdsD [OF k that(1)]
    have "0 < refs d ?s b'" using rf that(2) hd'(7) by auto
    moreover have "refs d ?s b' = bc_refcnt (ctl ?s (b_index h'))"
      using that(1) by (simp add: refs_def sl holds_def)
    ultimately show ?thesis using that(1) by (simp add: holds_def sl)
  qed
  ultimately show ?thesis
    using m nb cu rf by (auto simp: buf_drop_def brelse_def kres_simps)
qed

end
