(* ===== verification/BlockStore.thy ===== *)
theory BlockStore
  imports BcacheInv
begin

text \<open>
  The interface of the buffer cache, as the log relies on it. A block has contents
  (\<open>cur\<close>), contents on disk (\<open>disk\<close>) and a number of references (\<open>refs\<close>). The lemmas in
  the locale are about the two ways the log copies a block; the cache is the
  interpretation.
\<close>

locale block_store =
  fixes inv :: "'s \<Rightarrow> bool"
    and contents :: "'s \<Rightarrow> u32 \<Rightarrow> block"
    and disk :: "'s \<Rightarrow> u32 \<Rightarrow> block"
    and writes :: "'s \<Rightarrow> (u32 \<times> block) list"
    and nref :: "'s \<Rightarrow> u32 \<Rightarrow> nat"
    and cap :: nat
    and held :: "'s \<Rightarrow> 'h \<Rightarrow> u32 \<Rightarrow> bool"
    and rd :: "u32 \<Rightarrow> 's \<Rightarrow> ('h \<times> 's) kres"
    and get :: "'h \<Rightarrow> 's \<Rightarrow> block"
    and put :: "'h \<Rightarrow> block \<Rightarrow> 's \<Rightarrow> 's"
    and wr :: "'h \<Rightarrow> 's \<Rightarrow> 's"
    and pinb :: "'h \<Rightarrow> 's \<Rightarrow> 's"
    and unpinb :: "'h \<Rightarrow> 's \<Rightarrow> 's kres"
    and rel :: "'h \<Rightarrow> 's \<Rightarrow> 's kres"
  assumes rd_law: "inv s \<Longrightarrow> 0 < nref s b \<or> card {x. 0 < nref s x} < cap \<Longrightarrow>
      \<exists>h s'. rd b s = Done (h, s') \<and> inv s' \<and> held s' h b \<and> contents s' = contents s \<and>
        disk s' = disk s \<and> writes s' = writes s \<and> nref s' = (nref s)(b := Suc (nref s b)) \<and>
        (\<forall>h' b'. held s h' b' \<longrightarrow> held s' h' b')"
    and get_law: "inv s \<Longrightarrow> held s h b \<Longrightarrow> get h s = contents s b"
    and put_law: "inv s \<Longrightarrow> held s h b \<Longrightarrow>
      inv (put h v s) \<and> contents (put h v s) = (contents s)(b := v) \<and> disk (put h v s) = disk s \<and>
      writes (put h v s) = writes s \<and> nref (put h v s) = nref s \<and>
      (\<forall>h' b'. held s h' b' \<longrightarrow> held (put h v s) h' b')"
    and wr_law: "inv s \<Longrightarrow> held s h b \<Longrightarrow>
      inv (wr h s) \<and> contents (wr h s) = contents s \<and> disk (wr h s) = (disk s)(b := contents s b) \<and>
      writes (wr h s) = writes s @ [(b, contents s b)] \<and> nref (wr h s) = nref s \<and>
      (\<forall>h' b'. held s h' b' \<longrightarrow> held (wr h s) h' b')"
    and pin_law: "inv s \<Longrightarrow> held s h b \<Longrightarrow>
      inv (pinb h s) \<and> contents (pinb h s) = contents s \<and> disk (pinb h s) = disk s \<and>
      writes (pinb h s) = writes s \<and> nref (pinb h s) = (nref s)(b := Suc (nref s b)) \<and>
      (\<forall>h' b'. held s h' b' \<longrightarrow> held (pinb h s) h' b')"
    and unpin_law: "inv s \<Longrightarrow> held s h b \<Longrightarrow> 1 < nref s b \<Longrightarrow>
      \<exists>s'. unpinb h s = Done s' \<and> inv s' \<and> contents s' = contents s \<and> disk s' = disk s \<and>
        writes s' = writes s \<and> nref s' = (nref s)(b := nref s b - 1) \<and>
        (\<forall>h' b'. held s h' b' \<longrightarrow> held s' h' b')"
    and rel_law: "inv s \<Longrightarrow> held s h b \<Longrightarrow> nref s b = 1 \<longrightarrow> contents s b = disk s b \<Longrightarrow>
      \<exists>s'. rel h s = Done s' \<and> inv s' \<and> contents s' = contents s \<and> disk s' = disk s \<and>
        writes s' = writes s \<and> nref s' = (nref s)(b := nref s b - 1) \<and>
        (\<forall>h' b'. held s h' b' \<and> (b' \<noteq> b \<or> 1 < nref s b) \<longrightarrow> held s' h' b')"
    and held_ref: "inv s \<Longrightarrow> held s h b \<Longrightarrow> 0 < nref s b"
    and clean: "inv s \<Longrightarrow> nref s b = 0 \<Longrightarrow> contents s b = disk s b"
    and finite_refs: "inv s \<Longrightarrow> finite {x. 0 < nref s x}"
begin

lemma room_two:
  assumes "inv s" and "card ({x. 0 < nref s x} \<union> {a, b}) \<le> cap"
  shows "0 < nref s a \<or> card {x. 0 < nref s x} < cap"
    and "a \<noteq> b \<Longrightarrow> nref s' = (nref s)(a := Suc (nref s a)) \<Longrightarrow> 0 < nref s' b \<or> card {x. 0 < nref s' x} < cap"
proof -
  let ?R = "{x. 0 < nref s x}"
  note fin = finite_refs [OF assms(1)]
  have lt: "card R < card (?R \<union> {a, b})" if "R \<subset> ?R \<union> {a, b}" for R
    using that fin by (intro psubset_card_mono) auto
  show "0 < nref s a \<or> card ?R < cap"
  proof (cases "nref s a = 0")
    case True
    then have "a \<notin> ?R" by simp
    then have "?R \<subset> ?R \<union> {a, b}" by blast
    from lt [OF this] assms(2) show ?thesis by (meson less_le_trans)
  qed simp
  show "0 < nref s' b \<or> card {x. 0 < nref s' x} < cap"
    if "a \<noteq> b" "nref s' = (nref s)(a := Suc (nref s a))"
  proof (cases "nref s b = 0")
    case True
    then have "b \<notin> {x. 0 < nref s' x}" "{x. 0 < nref s' x} \<subseteq> ?R \<union> {a, b}" using that by auto
    then have "{x. 0 < nref s' x} \<subset> ?R \<union> {a, b}" by blast
    from lt [OF this] assms(2) show ?thesis by (meson less_le_trans)
  next
    case False
    then show ?thesis using that by simp
  qed
qed

text \<open>Both blocks are read; \<open>a\<close> is the source, \<open>b\<close> the destination, written through.\<close>

lemma two_reads:
  assumes "inv s" and "a \<noteq> b" and "card ({x. 0 < nref s x} \<union> {a, b}) \<le> cap"
  obtains ha hb s1 s2 where "rd a s = Done (ha, s1)" and "rd b s1 = Done (hb, s2)" and "inv s2"
    and "held s2 ha a" and "held s2 hb b" and "contents s2 = contents s" and "disk s2 = disk s"
    and "writes s2 = writes s" and "nref s2 = (nref s)(a := Suc (nref s a), b := Suc (nref s b))"
proof -
  note room = room_two [OF assms(1,3)]
  obtain ha s1 where s1: "rd a s = Done (ha, s1)" "inv s1" "held s1 ha a" "contents s1 = contents s"
    "disk s1 = disk s" "writes s1 = writes s" "nref s1 = (nref s)(a := Suc (nref s a))"
    using rd_law [OF assms(1) room(1)] by metis
  obtain hb s2 where s2: "rd b s1 = Done (hb, s2)" "inv s2" "held s2 hb b" "contents s2 = contents s1"
    "disk s2 = disk s1" "writes s2 = writes s1" "nref s2 = (nref s1)(b := Suc (nref s1 b))"
    "\<forall>h' b'. held s1 h' b' \<longrightarrow> held s2 h' b'"
    using rd_law [OF s1(2) room(2) [OF assms(2) s1(7)]] by metis
  show thesis
    by (rule that [OF s1(1) s2(1,2)]) (use s1 s2 assms(2) in auto)
qed

text \<open>Copying, writing and releasing: \<open>a\<close> released first, then \<open>b\<close>.\<close>

lemma write_and_release:
  assumes "inv s" and "a \<noteq> b" and "held s ha a" and "held s hb b"
    and "nref s a = 1 \<longrightarrow> contents s a = disk s a" and "contents s b = disk s b"
  shows "\<exists>s'. kbind (rel ha s) (rel hb) = Done s' \<and> inv s' \<and> contents s' = contents s \<and>
           disk s' = disk s \<and> writes s' = writes s \<and>
           nref s' = (nref s)(a := nref s a - 1, b := nref s b - 1)"
proof -
  obtain s1 where s1: "rel ha s = Done s1" "inv s1" "contents s1 = contents s" "disk s1 = disk s"
    "writes s1 = writes s" "nref s1 = (nref s)(a := nref s a - 1)" "held s1 hb b"
    using rel_law [OF assms(1,3,5)] assms(2,4) by metis
  then obtain s2 where "rel hb s1 = Done s2" "inv s2" "contents s2 = contents s1" "disk s2 = disk s1"
    "writes s2 = writes s1" "nref s2 = (nref s1)(b := nref s1 b - 1)"
    using rel_law [OF s1(2,7)] assms(6) by metis
  then show ?thesis using s1 assms(2) by (auto simp: kres_simps)
qed

text \<open>The copy of \<open>write_log\<close>: the destination is read first.\<close>

lemma copy_into_first:
  assumes i: "inv s" and n: "a \<noteq> b" and room: "card ({x. 0 < nref s x} \<union> {b, a}) \<le> cap"
  shows "\<exists>s'. kbind (rd b s) (\<lambda>(hb, s1). kbind (rd a s1) (\<lambda>(ha, s2).
              let s3 = wr hb (put hb (get ha s2) s2) in kbind (rel ha s3) (rel hb))) = Done s' \<and>
           inv s' \<and> contents s' = (contents s)(b := contents s a) \<and> disk s' = (disk s)(b := contents s a) \<and>
           writes s' = writes s @ [(b, contents s a)] \<and> nref s' = nref s"
proof -
  obtain hb ha s1 s2 where r: "rd b s = Done (hb, s1)" "rd a s1 = Done (ha, s2)" and i2: "inv s2"
    and h: "held s2 hb b" "held s2 ha a" and v: "contents s2 = contents s" "disk s2 = disk s"
    "writes s2 = writes s" "nref s2 = (nref s)(b := Suc (nref s b), a := Suc (nref s a))"
    using two_reads [OF i n [symmetric] room] by metis
  let ?p = "put hb (get ha s2) s2"
  have g: "get ha s2 = contents s a" using get_law [OF i2 h(2)] v(1) by simp
  note pl = put_law [OF i2 h(1), of "get ha s2"]
  have hp: "inv ?p" "held ?p hb b" "held ?p ha a" using pl h by auto
  note wl = wr_law [OF hp(1,2)]
  let ?w = "wr hb ?p"
  have w: "inv ?w" "held ?w hb b" "held ?w ha a" "contents ?w = (contents s)(b := contents s a)"
    "disk ?w = (disk s)(b := contents s a)" "writes ?w = writes s @ [(b, contents s a)]" "nref ?w = nref s2"
    using wl pl hp g v by auto
  have "nref ?w a = 1 \<longrightarrow> contents ?w a = disk ?w a"
    using w(4,5,7) v(4) n clean [OF i, of a] by simp
  from write_and_release [OF w(1) n w(3,2) this] obtain s' where s': "kbind (rel ha ?w) (rel hb) = Done s'"
    "inv s'" "contents s' = contents ?w" "disk s' = disk ?w" "writes s' = writes ?w"
    "nref s' = (nref ?w)(a := nref ?w a - 1, b := nref ?w b - 1)" using w(4,5) by auto
  then have nr: "nref s' = nref s" using w(7) v(4) n by auto
  have "kbind (rd b s) (\<lambda>(hb, s1). kbind (rd a s1) (\<lambda>(ha, s2).
      let s3 = wr hb (put hb (get ha s2) s2) in kbind (rel ha s3) (rel hb))) = Done s'"
    using s'(1) by (simp add: r Let_def)
  then show ?thesis using s' w(4-6) nr by (intro exI [of _ s']) (simp only: simp_thms)
qed

text \<open>The copy of \<open>install_trans\<close>: the source is read first; the destination may be unpinned.\<close>

lemma copy_into_second:
  assumes i: "inv s" and n: "a \<noteq> b" and room: "card ({x. 0 < nref s x} \<union> {a, b}) \<le> cap"
    and pinned: "u \<longrightarrow> 0 < nref s b"
  shows "\<exists>s'. kbind (rd a s) (\<lambda>(ha, s1). kbind (rd b s1) (\<lambda>(hb, s2).
              let s3 = wr hb (put hb (get ha s2) s2)
              in kbind (if u then unpinb hb s3 else Done s3) (\<lambda>s4. kbind (rel ha s4) (rel hb)))) = Done s' \<and>
           inv s' \<and> contents s' = (contents s)(b := contents s a) \<and> disk s' = (disk s)(b := contents s a) \<and>
           writes s' = writes s @ [(b, contents s a)] \<and>
           nref s' = (if u then (nref s)(b := nref s b - 1) else nref s)"
proof -
  obtain ha hb s1 s2 where r: "rd a s = Done (ha, s1)" "rd b s1 = Done (hb, s2)" and i2: "inv s2"
    and h: "held s2 ha a" "held s2 hb b" and v: "contents s2 = contents s" "disk s2 = disk s"
    "writes s2 = writes s" "nref s2 = (nref s)(a := Suc (nref s a), b := Suc (nref s b))"
    using two_reads [OF i n room] by metis
  let ?p = "put hb (get ha s2) s2"
  have g: "get ha s2 = contents s a" using get_law [OF i2 h(1)] v(1) by simp
  note pl = put_law [OF i2 h(2), of "get ha s2"]
  have hp: "inv ?p" "held ?p hb b" "held ?p ha a" using pl h by auto
  note wl = wr_law [OF hp(1,2)]
  let ?w = "wr hb ?p"
  have w: "inv ?w" "held ?w hb b" "held ?w ha a" "contents ?w = (contents s)(b := contents s a)"
    "disk ?w = (disk s)(b := contents s a)" "writes ?w = writes s @ [(b, contents s a)]" "nref ?w = nref s2"
    using wl pl hp g v by auto
  obtain s4 where s4: "(if u then unpinb hb ?w else Done ?w) = Done s4" "inv s4" "held s4 hb b" "held s4 ha a"
    "contents s4 = contents ?w" "disk s4 = disk ?w" "writes s4 = writes ?w"
    "nref s4 = (if u then (nref ?w)(b := nref ?w b - 1) else nref ?w)"
  proof (cases u)
    case True
    have "1 < nref ?w b" using w(7) v(4) n pinned True by simp
    then show thesis using that unpin_law [OF w(1,2)] w(2,3) True by metis
  next
    case False
    then show thesis using that w by simp
  qed
  have "nref s4 a = 1 \<longrightarrow> contents s4 a = disk s4 a"
    using w(4,5,7) v(4) n clean [OF i, of a] s4 by simp
  from write_and_release [OF s4(2) n s4(4,3) this] obtain s' where s': "kbind (rel ha s4) (rel hb) = Done s'"
    "inv s'" "contents s' = contents s4" "disk s' = disk s4" "writes s' = writes s4"
    "nref s' = (nref s4)(a := nref s4 a - 1, b := nref s4 b - 1)" using w(4,5) s4 by auto
  moreover have "nref s' = (if u then (nref s)(b := nref s b - 1) else nref s)"
    using s'(6) s4(8) w(7) v(4) n by auto
  moreover have "kbind (rd a s) (\<lambda>(ha, s1). kbind (rd b s1) (\<lambda>(hb, s2).
      let s3 = wr hb (put hb (get ha s2) s2)
      in kbind (if u then unpinb hb s3 else Done s3) (\<lambda>s4. kbind (rel ha s4) (rel hb)))) = Done s'"
    using s'(1) s4(1) by (simp add: r Let_def)
  ultimately show ?thesis using s4(5-7) w(4-6) by (intro exI [of _ s']) (simp only: simp_thms)
qed

text \<open>Reading a block, changing it and writing it: the updates of the log header.\<close>

lemma rewrite_block:
  assumes i: "inv s" and room: "card ({x. 0 < nref s x} \<union> {b, b}) \<le> cap"
  shows "\<exists>s'. kbind (rd b s) (\<lambda>(h, s1). rel h (wr h (put h (f (get h s1)) s1))) = Done s' \<and>
           inv s' \<and> contents s' = (contents s)(b := f (contents s b)) \<and>
           disk s' = (disk s)(b := f (contents s b)) \<and>
           writes s' = writes s @ [(b, f (contents s b))] \<and> nref s' = nref s"
proof -
  obtain h s1 where s1: "rd b s = Done (h, s1)" "inv s1" "held s1 h b" "contents s1 = contents s"
    "disk s1 = disk s" "writes s1 = writes s" "nref s1 = (nref s)(b := Suc (nref s b))"
    using rd_law [OF i room_two(1) [OF i room]] by metis
  let ?v = "f (get h s1)"
  have g: "get h s1 = contents s b" using get_law [OF s1(2,3)] s1(4) by simp
  note pl = put_law [OF s1(2,3), of ?v]
  then have hp: "inv (put h ?v s1)" "held (put h ?v s1) h b" using s1(3) by auto
  note wl = wr_law [OF hp]
  then have hw: "inv (wr h (put h ?v s1))" "held (wr h (put h ?v s1)) h b" using hp by auto
  have "contents (wr h (put h ?v s1)) b = disk (wr h (put h ?v s1)) b" using wl pl by simp
  with rel_law [OF hw] obtain s' where "rel h (wr h (put h ?v s1)) = Done s'" "inv s'"
    "contents s' = contents (wr h (put h ?v s1))" "disk s' = disk (wr h (put h ?v s1))"
    "writes s' = writes (wr h (put h ?v s1))"
    "nref s' = (nref (wr h (put h ?v s1)))(b := nref (wr h (put h ?v s1)) b - 1)" by metis
  then show ?thesis using s1 wl pl g by (auto simp: kres_simps)
qed

text \<open>Reading a block only.\<close>

lemma read_block:
  assumes i: "inv s" and room: "card ({x. 0 < nref s x} \<union> {b, b}) \<le> cap"
  shows "\<exists>s'. kbind (rd b s) (\<lambda>(h, s1). kbind (rel h s1) (\<lambda>s2. Done (get h s1, s2))) = Done (contents s b, s') \<and>
           inv s' \<and> contents s' = contents s \<and> disk s' = disk s \<and> writes s' = writes s \<and> nref s' = nref s"
proof -
  obtain h s1 where s1: "rd b s = Done (h, s1)" "inv s1" "held s1 h b" "contents s1 = contents s"
    "disk s1 = disk s" "writes s1 = writes s" "nref s1 = (nref s)(b := Suc (nref s b))"
    using rd_law [OF i room_two(1) [OF i room]] by metis
  have g: "get h s1 = contents s b" using get_law [OF s1(2,3)] s1(4) by simp
  have "nref s1 b = 1 \<longrightarrow> contents s1 b = disk s1 b" using s1 clean [OF i, of b] by simp
  with rel_law [OF s1(2,3)] obtain s' where "rel h s1 = Done s'" "inv s'" "contents s' = contents s1"
    "disk s' = disk s1" "writes s' = writes s1" "nref s' = (nref s1)(b := nref s1 b - 1)" by metis
  then show ?thesis using s1 g by (auto simp: kres_simps)
qed

end

section \<open>The cache implements the interface\<close>

definition bstore_inv :: "u32 \<Rightarrow> bcache \<Rightarrow> bool" where
  "bstore_inv d s \<longleftrightarrow> cache_inv d s \<and> nbufs s = NBUF"

lemma bcache_block_store:
  "block_store (bstore_inv d) (cur d) bca_disk bca_writes (refs d) NBUF (holds d)
     (bread d) raw_data raw_data_mut bwrite pin unpin buf_drop"
proof
  fix s b
  assume i: "bstore_inv d s" and "0 < refs d s b \<or> card {x. 0 < refs d s x} < NBUF"
  then show "\<exists>h s'. bread d b s = Done (h, s') \<and> bstore_inv d s' \<and> holds d s' h b \<and> cur d s' = cur d s \<and>
      bca_disk s' = bca_disk s \<and> bca_writes s' = bca_writes s \<and> refs d s' = (refs d s)(b := Suc (refs d s b)) \<and>
      (\<forall>h' b'. holds d s h' b' \<longrightarrow> holds d s' h' b')"
    using bread_law [of d s b] unfolding bstore_inv_def by metis
next
  fix s h b
  assume i: "bstore_inv d s" and h: "holds d s h b"
  then have c: "cache_inv d s" "keys_ok d s" "nbufs s = NBUF" by (auto simp: bstore_inv_def cache_inv_def)
  show "raw_data h s = cur d s b" by (rule raw_data_law [OF c(2) h])
  show "bstore_inv d (raw_data_mut h v s) \<and> cur d (raw_data_mut h v s) = (cur d s)(b := v) \<and>
      bca_disk (raw_data_mut h v s) = bca_disk s \<and> bca_writes (raw_data_mut h v s) = bca_writes s \<and>
      refs d (raw_data_mut h v s) = refs d s \<and> (\<forall>h' b'. holds d s h' b' \<longrightarrow> holds d (raw_data_mut h v s) h' b')" for v
    using raw_data_mut_law [OF c(1) h, of v] c(3) by (simp add: bstore_inv_def same_handles_def)
  show "bstore_inv d (bwrite h s) \<and> cur d (bwrite h s) = cur d s \<and>
      bca_disk (bwrite h s) = (bca_disk s)(b := cur d s b) \<and>
      bca_writes (bwrite h s) = bca_writes s @ [(b, cur d s b)] \<and> refs d (bwrite h s) = refs d s \<and>
      (\<forall>h' b'. holds d s h' b' \<longrightarrow> holds d (bwrite h s) h' b')"
    using bwrite_law [OF c(1) h] c(3) by (simp add: bstore_inv_def same_handles_def)
  show "bstore_inv d (pin h s) \<and> cur d (pin h s) = cur d s \<and> bca_disk (pin h s) = bca_disk s \<and>
      bca_writes (pin h s) = bca_writes s \<and> refs d (pin h s) = (refs d s)(b := Suc (refs d s b)) \<and>
      (\<forall>h' b'. holds d s h' b' \<longrightarrow> holds d (pin h s) h' b')"
    using set_refcnt_law [OF c(1) h, of "Suc (refs d s b)"] c(3)
    unfolding pin_eq [OF c(2) h] by (simp add: bstore_inv_def same_handles_def)
  show "\<exists>s'. unpin h s = Done s' \<and> bstore_inv d s' \<and> cur d s' = cur d s \<and> bca_disk s' = bca_disk s \<and>
      bca_writes s' = bca_writes s \<and> refs d s' = (refs d s)(b := refs d s b - 1) \<and>
      (\<forall>h' b'. holds d s h' b' \<longrightarrow> holds d s' h' b')" if "1 < refs d s b"
    using set_refcnt_law [OF c(1) h, of "refs d s b - 1"] c(3) that
    unfolding unpin_eq [OF c(2) h that] by (simp add: bstore_inv_def same_handles_def)
  show "\<exists>s'. buf_drop h s = Done s' \<and> bstore_inv d s' \<and> cur d s' = cur d s \<and> bca_disk s' = bca_disk s \<and>
      bca_writes s' = bca_writes s \<and> refs d s' = (refs d s)(b := refs d s b - 1) \<and>
      (\<forall>h' b'. holds d s h' b' \<and> (b' \<noteq> b \<or> 1 < refs d s b) \<longrightarrow> holds d s' h' b')"
    if "refs d s b = 1 \<longrightarrow> cur d s b = bca_disk s b"
    using buf_drop_law [OF c(1) h that] c(3) unfolding bstore_inv_def by metis
  show "0 < refs d s b" by (rule holdsD(7) [OF c(2) h])
next
  fix s b
  assume "bstore_inv d s"
  then have k: "keys_ok d s" by (simp add: bstore_inv_def cache_inv_def)
  show "cur d s b = bca_disk s b" if "refs d s b = 0" by (rule unreferenced_clean [OF k that])
  show "finite {x. 0 < refs d s x}" unfolding refs_blocks [OF k] by simp
qed

interpretation bc: block_store "bstore_inv d" "cur d" bca_disk bca_writes "refs d" NBUF "holds d"
  "bread d" raw_data raw_data_mut bwrite pin unpin buf_drop for d
  by (rule bcache_block_store)

section \<open>The cache after boot\<close>

lemma chain_upt:
  assumes "a < n" and "\<forall>i \<in> {a..<n}. pv i = (if i = a then p else Some (i - 1))"
    and "\<forall>i \<in> {a..<n}. nx i = (if i = n - 1 then None else Some (i + 1))"
  shows "chain pv nx p [a..<n] None"
  using assms
proof (induction "n - a" arbitrary: a p)
  case 0
  then show ?case by simp
next
  case (Suc m)
  show ?case
  proof (cases "Suc a = n")
    case True
    then show ?thesis using Suc.prems by (auto simp: upt_conv_Cons)
  next
    case False
    then have lt: "Suc a < n" using Suc.prems(1) by simp
    have "chain pv nx (Some a) [Suc a..<n] None"
      using Suc.hyps(2) Suc.prems lt by (intro Suc.hyps(1)) auto
    moreover have "first_or [Suc a..<n] None = Some (Suc a)" using lt by (simp add: upt_conv_Cons)
    ultimately show ?thesis using Suc.prems lt by (auto simp: upt_conv_Cons)
  qed
qed

lemma binit_lru_ok:
  assumes "2 \<le> length (lru_inner l)"
  shows "lru_ok (binit_lru l) [0..<length (lru_inner l)]"
proof -
  let ?n = "length (lru_inner l)"
  have n: "0 < ?n" using assms by linarith
  have "chain (prev_of (binit_lru l)) (next_of (binit_lru l)) None [0..<?n] None"
    by (rule chain_upt [OF n]) (auto simp: prev_of_def next_of_def binit_lru_def Let_def)
  moreover have "hd [0..<?n] = 0" using n by (simp add: upt_conv_Cons)
  ultimately show ?thesis
    using n by (auto simp: lru_ok_def binit_lru_def Let_def)
qed

lemma boot_cache:
  assumes "d \<noteq> 0"
  shows "bstore_inv d (binit (bcache_new dsk))" and "cur d (binit (bcache_new dsk)) = dsk"
    and "refs d (binit (bcache_new dsk)) = (\<lambda>_. 0)" and "slot d (binit (bcache_new dsk)) b = None"
    and "bca_disk (binit (bcache_new dsk)) = dsk" and "bca_writes (binit (bcache_new dsk)) = []"
    and "lru_ok (bca_ctrl (binit (bcache_new dsk))) [0..<NBUF]"
proof -
  let ?s = "binit (bcache_new dsk)"
  have n: "nbufs ?s = NBUF" by (simp add: nbufs_def binit_def binit_lru_def bcache_new_def Let_def)
  have c: "bc_dev (ctl ?s i) = 0" "bc_refcnt (ctl ?s i) = 0" "\<not> buf_valid (bca_bufs ?s ! i)" if "i < NBUF" for i
    using that by (simp_all add: ctl_def binit_def binit_lru_def bcache_new_def buf_ctrl_new_def buf_inner_new_def Let_def)
  show l: "lru_ok (bca_ctrl ?s) [0..<NBUF]"
    using binit_lru_ok [of "bca_ctrl (bcache_new dsk)"]
    by (simp add: binit_def bcache_new_def NBUF_def MAXOPBLOCKS_def)
  have "length (bca_bufs ?s) = NBUF" by (simp add: binit_def bcache_new_def)
  then have "keys_ok d ?s" using c assms by (auto simp: keys_ok_def n)
  then show "bstore_inv d ?s" using l n by (auto simp: bstore_inv_def cache_inv_def)
  show sl: "slot d ?s b = None" for b using c assms by (auto simp: slot_None n has_key_def)
  show dk: "bca_disk ?s = dsk" "bca_writes ?s = []" by (simp_all add: binit_def bcache_new_def)
  show "cur d ?s = dsk" by (rule ext) (simp add: cur_def sl dk)
  show "refs d ?s = (\<lambda>_. 0)" by (rule ext) (simp add: refs_def sl)
qed

section \<open>Replacement order\<close>

lemma find_split:
  "find P xs = Some x \<Longrightarrow> \<exists>ys zs. xs = ys @ x # zs \<and> P x \<and> (\<forall>y \<in> set ys. \<not> P y)"
proof (induction xs)
  case (Cons a xs)
  show ?case
  proof (cases "P a")
    case True
    then show ?thesis using Cons.prems by (intro exI [of _ "[]"] exI [of _ xs]) auto
  next
    case False
    then obtain ys zs where "xs = ys @ x # zs" "P x" "\<forall>y \<in> set ys. \<not> P y" using Cons by auto
    then show ?thesis using False by (intro exI [of _ "a # ys"] exI [of _ zs]) auto
  qed
qed simp

lemma miss_takes_oldest:
  assumes l: "lru_ok (bca_ctrl s) xs" and m: "slot d s b = None" "bget d b s = Done (h, s')"
  shows "(\<exists>ys zs. xs = ys @ b_index h # zs \<and> bc_refcnt (ctl s (b_index h)) = 0 \<and>
           (\<forall>j \<in> set zs. 0 < bc_refcnt (ctl s j))) \<and> lru_ok (bca_ctrl s') xs"
proof (cases "find (\<lambda>i. bc_refcnt (ctl s i) = 0) (rev xs)")
  case None
  have "find (\<lambda>j. bc_dev (lru_inner (bca_ctrl s) ! j) = d \<and> bc_blockno (lru_inner (bca_ctrl s) ! j) = b) xs = None"
    using m(1) l by (auto simp: slot_None find_None_iff lru_ok_def has_key_def ctl_def nbufs_def)
  then have "bget d b s = Panicked ''no usable buffer''"
    using lru_find [OF l] lru_recycle [OF l] None
    by (simp add: bget_def find_cached_def recycle_def ctl_def)
  then show ?thesis using m by simp
next
  case (Some i)
  note r = bget_recycle [OF l m(1) Some]
  have "b_index h = i" using r m(2) by auto
  moreover obtain ys zs where z: "rev xs = zs @ i # ys" "bc_refcnt (ctl s i) = 0"
    "\<forall>j \<in> set zs. bc_refcnt (ctl s j) \<noteq> 0"
    using find_split [OF Some] by blast
  moreover have "xs = rev ys @ i # rev zs" using arg_cong [OF z(1), of rev] by simp
  moreover have "lru_ok (upd_ctrl i (\<lambda>c. c\<lparr>bc_dev := d, bc_blockno := b, bc_refcnt := bc_refcnt c + 1\<rparr>) (bca_ctrl s)) xs"
    using l by (rule lru_ok_upd) simp_all
  then have "lru_ok (bca_ctrl s') xs" using r m(2) by auto
  ultimately show ?thesis by (metis neq0_conv set_rev)
qed

section \<open>Properties\<close>

text \<open>
  C5 (buffer cache coherence): reading a block, cached or not, gives its current
  contents; when fewer than all buffers are referenced it never fails. Replacing a
  buffer loses nothing: the contents of every block stay the same, nothing is written,
  and every buffer in use keeps its block.
\<close>

theorem bread_coherent:
  assumes "bstore_inv d s" and "0 < refs d s b \<or> card {x. 0 < refs d s x} < NBUF"
  shows "\<exists>h s'. bread d b s = Done (h, s') \<and> bstore_inv d s' \<and> holds d s' h b \<and>
           raw_data h s' = cur d s b \<and> cur d s' = cur d s \<and> bca_disk s' = bca_disk s \<and>
           refs d s' = (refs d s)(b := Suc (refs d s b)) \<and>
           (\<forall>h' b'. holds d s h' b' \<longrightarrow> holds d s' h' b' \<and> raw_data h' s' = raw_data h' s)"
proof -
  obtain h s' where r: "bread d b s = Done (h, s')" "bstore_inv d s'" "holds d s' h b" "cur d s' = cur d s"
    "bca_disk s' = bca_disk s" "refs d s' = (refs d s)(b := Suc (refs d s b))"
    "\<forall>h' b'. holds d s h' b' \<longrightarrow> holds d s' h' b'"
    using bc.rd_law [OF assms] by metis
  have "raw_data h s' = cur d s b" using bc.get_law [OF r(2,3)] r(4) by simp
  moreover have "raw_data h' s' = raw_data h' s" if "holds d s h' b'" for h' b'
    using bc.get_law [OF r(2)] bc.get_law [OF assms(1) that] r(4,7) that by metis
  ultimately show ?thesis using r by blast
qed

theorem bread_coherent_witness:
  "bstore_inv 1 (binit (bcache_new (\<lambda>b. [ucast b]))) \<and>
   (\<exists>h s'. bread 1 7 (binit (bcache_new (\<lambda>b. [ucast b]))) = Done (h, s') \<and> raw_data h s' = [7])"
  using bread_coherent [OF boot_cache(1), of 1 "\<lambda>b. [ucast b]" 7] boot_cache [of 1 "\<lambda>b. [ucast b]"]
  by (auto simp: NBUF_def MAXOPBLOCKS_def)



end
