(* ===== verification/Log.thy ===== *)
theory Log
  imports BlockStore
begin

text \<open>
  The write-ahead log, \<^verbatim>\<open>kernel/src/fs/log.rs\<close>, over the buffer cache. The log header is a
  record in memory and the first bytes of the log's first block on disk. Each
  definition is the code between the points where it takes and releases the log's lock;
  waiting is an outcome.
\<close>

unbundle bit_operations_syntax

section \<open>The header\<close>

definition LOGSIZE :: nat where "LOGSIZE = MAXOPBLOCKS * 3"

record log_header =
  lh_len :: u32
  lh_blocknos :: "u32 list"

text \<open>\<^verbatim>\<open>u32\<close> values in memory are little-endian.\<close>

definition le32 :: "u32 \<Rightarrow> u8 list" where
  "le32 w = map (\<lambda>i. ucast (drop_bit (8 * i) w)) [0..<4]"

definition of_le32 :: "u8 list \<Rightarrow> u32" where
  "of_le32 bs = foldr (\<lambda>b w. ucast b OR push_bit 8 w) (take 4 bs) 0"

definition header_bytes :: "log_header \<Rightarrow> u8 list" where
  "header_bytes lh = le32 (lh_len lh) @ concat (map le32 (lh_blocknos lh))"

definition put_header :: "log_header \<Rightarrow> block \<Rightarrow> block" where
  "put_header lh blk = header_bytes lh @ drop (length (header_bytes lh)) blk"

definition get_header :: "block \<Rightarrow> log_header" where
  "get_header blk =
     \<lparr>lh_len = of_le32 blk, lh_blocknos = map (\<lambda>i. of_le32 (drop (4 + 4 * i) blk)) [0..<LOGSIZE - 1]\<rparr>"

definition put_len :: "u32 \<Rightarrow> block \<Rightarrow> block" where
  "put_len n blk = le32 n @ drop 4 blk"

record log =
  log_start :: u32
  log_size :: u32
  log_dev :: u32
  log_outstanding :: u32
  log_committing :: bool
  log_lh :: log_header

definition log_uninit :: log where
  "log_uninit = \<lparr>log_start = 0, log_size = 0, log_dev = 0, log_outstanding = 0, log_committing = False,
                 log_lh = \<lparr>lh_len = 0, lh_blocknos = replicate (LOGSIZE - 1) 0\<rparr>\<rparr>"

section \<open>Moving blocks\<close>

definition read_head :: "log \<Rightarrow> bcache \<Rightarrow> (log \<times> bcache) kres" where
  "read_head lg s =
     kbind (bread (log_dev lg) (log_start lg) s) (\<lambda>(buf, s1).
     kbind (buf_drop buf s1) (\<lambda>s2. Done (lg\<lparr>log_lh := get_header (raw_data buf s1)\<rparr>, s2)))"

definition write_head :: "log \<Rightarrow> bcache \<Rightarrow> bcache kres" where
  "write_head lg s =
     kbind (bread (log_dev lg) (log_start lg) s) (\<lambda>(buf, s1).
       buf_drop buf (bwrite buf (raw_data_mut buf (put_header (log_lh lg) (raw_data buf s1)) s1)))"

definition empty_head :: "log \<Rightarrow> bcache \<Rightarrow> (log \<times> bcache) kres" where
  "empty_head lg s =
     (let lg1 = lg\<lparr>log_lh := (log_lh lg)\<lparr>lh_len := 0\<rparr>\<rparr>
      in kbind (bread (log_dev lg1) (log_start lg1) s) (\<lambda>(buf, s1).
         kbind (buf_drop buf (bwrite buf (raw_data_mut buf (put_len 0 (raw_data buf s1)) s1))) (\<lambda>s2.
           Done (lg1, s2))))"

definition log_slot :: "log \<Rightarrow> nat \<Rightarrow> u32 kres" where
  "log_slot lg i = kbind (u32_add (log_start lg) 1) (\<lambda>a. u32_add a (of_nat i))"

definition home_block :: "log \<Rightarrow> nat \<Rightarrow> u32 kres" where
  "home_block lg i =
     (if i < length (lh_blocknos (log_lh lg)) then Done (lh_blocknos (log_lh lg) ! i)
      else Panicked ''index out of bounds'')"

definition install_block :: "bool \<Rightarrow> log \<Rightarrow> bcache \<Rightarrow> nat \<Rightarrow> bcache kres" where
  "install_block recovering lg s i =
     kbind (log_slot lg i) (\<lambda>n.
     kbind (home_block lg i) (\<lambda>m.
     kbind (bread (log_dev lg) n s) (\<lambda>(log_buf, s1).
     kbind (bread (log_dev lg) m s1) (\<lambda>(disk_buf, s2).
       let s3 = bwrite disk_buf (raw_data_mut disk_buf (raw_data log_buf s2) s2)
       in kbind (if \<not> recovering then unpin disk_buf s3 else Done s3) (\<lambda>s4.
          kbind (buf_drop log_buf s4) (buf_drop disk_buf))))))"

definition install_trans :: "bool \<Rightarrow> log \<Rightarrow> bcache \<Rightarrow> bcache kres" where
  "install_trans recovering lg s = kfold (install_block recovering lg) s [0..<unat (lh_len (log_lh lg))]"

definition write_log_block :: "log \<Rightarrow> bcache \<Rightarrow> nat \<Rightarrow> bcache kres" where
  "write_log_block lg s i =
     kbind (log_slot lg i) (\<lambda>n.
     kbind (home_block lg i) (\<lambda>m.
     kbind (bread (log_dev lg) n s) (\<lambda>(log_buf, s1).
     kbind (bread (log_dev lg) m s1) (\<lambda>(cache_buf, s2).
       let s3 = bwrite log_buf (raw_data_mut log_buf (raw_data cache_buf s2) s2)
       in kbind (buf_drop cache_buf s3) (buf_drop log_buf)))))"

definition write_log :: "log \<Rightarrow> bcache \<Rightarrow> bcache kres" where
  "write_log lg s = kfold (write_log_block lg) s [0..<unat (lh_len (log_lh lg))]"

definition commit :: "log \<Rightarrow> bcache \<Rightarrow> (log \<times> bcache) kres" where
  "commit lg s =
     (if \<not> log_committing lg then Panicked ''log: committing while the committing flag is not set''
      else if lh_len (log_lh lg) > 0
      then kbind (write_log lg s) (\<lambda>s1.
           kbind (write_head lg s1) (\<lambda>s2.
           kbind (install_trans False lg s2) (\<lambda>s3. empty_head lg s3)))
      else Done (lg, s))"

definition recover :: "log \<Rightarrow> bcache \<Rightarrow> (log \<times> bcache) kres" where
  "recover lg s =
     kbind (read_head lg s) (\<lambda>(lg1, s1).
       if lh_len (log_lh lg1) > 0
       then kbind (install_trans True lg1 s1) (\<lambda>s2. empty_head lg1 s2)
       else Done (lg1, s1))"

text \<open>\<^verbatim>\<open>init\<close>: the start and the size of the log come from the superblock.\<close>

definition log_init :: "u32 \<Rightarrow> u32 \<Rightarrow> u32 \<Rightarrow> log \<Rightarrow> bcache \<Rightarrow> (log \<times> bcache) kres" where
  "log_init start size' dev lg s =
     recover (lg\<lparr>log_start := start, log_size := size', log_dev := dev\<rparr>) s"

section \<open>Operations\<close>

text \<open>\<open>None\<close>: the caller sleeps and tries again.\<close>

definition begin_op :: "log \<Rightarrow> log option" where
  "begin_op lg =
     (if log_committing lg \<or>
         1 + unat (lh_len (log_lh lg)) + (unat (log_outstanding lg) + 1) * MAXOPBLOCKS > LOGSIZE
      then None else Some (lg\<lparr>log_outstanding := log_outstanding lg + 1\<rparr>))"

definition log_write :: "buf \<Rightarrow> log \<Rightarrow> bcache \<Rightarrow> (log \<times> bcache) kres" where
  "log_write buf lg s =
     (let len = unat (lh_len (log_lh lg)); blocknos = lh_blocknos (log_lh lg)
      in if len + 1 \<ge> LOGSIZE \<or> len + 1 \<ge> unat (log_size lg)
         then Panicked ''log: not enough space for ongoing transactions''
         else if log_outstanding lg < 1
         then Panicked ''log: this log write is out of recording''
         else if b_blockno buf \<in> set (take len blocknos)
         then kbind (buf_drop buf s) (\<lambda>s1. Done (lg, s1))
         else if len + 2 \<ge> LOGSIZE \<or> len + 2 \<ge> unat (log_size lg)
         then Panicked ''log: not enough space for this transaction''
         else if len \<ge> length blocknos then Panicked ''index out of bounds''
         else let s1 = pin buf s;
                  lh = (log_lh lg)\<lparr>lh_blocknos := blocknos[len := b_blockno buf], lh_len := lh_len (log_lh lg) + 1\<rparr>
              in kbind (buf_drop buf s1) (\<lambda>s2. Done (lg\<lparr>log_lh := lh\<rparr>, s2)))"

definition end_op :: "log \<Rightarrow> bcache \<Rightarrow> (log \<times> bcache) kres" where
  "end_op lg s =
     kbind (u32_sub (log_outstanding lg) 1) (\<lambda>o'.
       let lg1 = lg\<lparr>log_outstanding := o'\<rparr>
       in if log_committing lg1 then Panicked ''log: end fs op while the log is committing''
          else if o' = 0
          then kbind (commit (lg1\<lparr>log_committing := True\<rparr>) s) (\<lambda>(lg2, s2).
                 Done (lg2\<lparr>log_committing := False\<rparr>, s2))
          else Done (lg1, s))"

end
