(* ===== verification/LogCommit.thy ===== *)
theory LogCommit
  imports Log
begin

text \<open>
  What a commit and a recovery do, in terms of block contents and the sequence of disk
  writes.
\<close>

unbundle bit_operations_syntax

section \<open>Header encoding\<close>

lemma le32_explicit: "le32 w = [ucast w, ucast (drop_bit 8 w), ucast (drop_bit 16 w), ucast (drop_bit 24 w)]"
  by (simp add: le32_def upt_rec)

lemma length_le32 [simp]: "length (le32 w) = 4"
  by (simp add: le32_def)

lemma of_le32_le32 [simp]: "of_le32 (le32 w @ bs) = w"
proof (rule bit_word_eqI)
  fix n
  assume "n < LENGTH(32)"
  then consider "n < 8" | "8 \<le> n \<and> n < 16" | "16 \<le> n \<and> n < 24" | "24 \<le> n \<and> n < 32" by fastforce
  then show "bit (of_le32 (le32 w @ bs)) n = bit w n"
    by cases (auto simp: of_le32_def le32_explicit bit_or_iff bit_push_bit_iff bit_ucast_iff bit_drop_bit_eq)
qed

lemma drop_concat_le32:
  "i \<le> length xs \<Longrightarrow> drop (4 * i) (concat (map le32 xs) @ bs) = concat (map le32 (drop i xs)) @ bs"
proof (induction xs arbitrary: i)
  case (Cons x xs)
  then show ?case by (cases i) auto
qed simp

lemma get_put_header:
  assumes "length (lh_blocknos lh) = LOGSIZE - 1"
  shows "get_header (put_header lh blk) = lh"
proof -
  let ?bs = "drop (length (header_bytes lh)) blk"
  have d: "drop (4 + 4 * i) (put_header lh blk) = concat (map le32 (drop i (lh_blocknos lh))) @ ?bs"
    if "i < LOGSIZE - 1" for i
    using drop_concat_le32 [of i "lh_blocknos lh" ?bs] that assms
    by (simp add: put_header_def header_bytes_def)
  have "of_le32 (drop (4 + 4 * i) (put_header lh blk)) = lh_blocknos lh ! i" if "i < LOGSIZE - 1" for i
    unfolding d [OF that] using that assms by (simp add: Cons_nth_drop_Suc [symmetric])
  then have "map (\<lambda>i. of_le32 (drop (4 + 4 * i) (put_header lh blk))) [0..<LOGSIZE - 1] = lh_blocknos lh"
    using assms by (intro nth_equalityI) auto
  moreover have "of_le32 (put_header lh blk) = lh_len lh" by (simp add: put_header_def header_bytes_def)
  ultimately show ?thesis by (simp add: get_header_def)
qed

lemma get_put_len: "get_header (put_len n blk) = (get_header blk)\<lparr>lh_len := n\<rparr>"
  by (simp add: get_header_def put_len_def add.commute)

section \<open>Disks\<close>

text \<open>A disk is what its blocks hold; a crash keeps a prefix of the writes.\<close>

definition replay :: "(u32 \<Rightarrow> block) \<Rightarrow> (u32 \<times> block) list \<Rightarrow> u32 \<Rightarrow> block" where
  "replay D ws = foldl (\<lambda>f (b, v). f(b := v)) D ws"

lemma replay_simps [simp]:
  "replay D [] = D" "replay D ((b, v) # ws) = replay (D(b := v)) ws"
  "replay D (xs @ ys) = replay (replay D xs) ys"
  by (simp_all add: replay_def)

lemma replay_other: "b \<notin> fst ` set ws \<Longrightarrow> replay D ws b = D b"
  by (induction ws arbitrary: D) auto

text \<open>Writing \<open>n\<close> blocks with different numbers.\<close>

lemma replay_map:
  assumes "inj_on h {..<n}"
  shows "i < n \<Longrightarrow> replay D (map (\<lambda>i. (h i, v i)) [0..<n]) (h i) = v i"
    and "b \<notin> h ` {..<n} \<Longrightarrow> replay D (map (\<lambda>i. (h i, v i)) [0..<n]) b = D b"
proof -
  show "b \<notin> h ` {..<n} \<Longrightarrow> replay D (map (\<lambda>i. (h i, v i)) [0..<n]) b = D b"
    by (rule replay_other) auto
  show "i < n \<Longrightarrow> replay D (map (\<lambda>i. (h i, v i)) [0..<n]) (h i) = v i"
    using assms
  proof (induction n)
    case (Suc n)
    have "inj_on h {..<n}" using Suc.prems(2) by (auto simp: inj_on_def)
    moreover have "h i = h n \<longleftrightarrow> i = n" using Suc.prems by (auto simp: inj_on_def)
    ultimately show ?case using Suc by (auto simp: less_Suc_eq)
  qed simp
qed

section \<open>The log area\<close>

definition slotn :: "u32 \<Rightarrow> nat \<Rightarrow> u32" where
  "slotn start i = start + 1 + of_nat i"

definition log_area :: "u32 \<Rightarrow> u32 set" where
  "log_area start = insert start (slotn start ` {..<LOGSIZE - 1})"

definition area_ok :: "u32 \<Rightarrow> bool" where
  "area_ok start \<longleftrightarrow> unat start + LOGSIZE < 2 ^ 32"

definition homes :: "log_header \<Rightarrow> u32 list" where
  "homes lh = take (unat (lh_len lh)) (lh_blocknos lh)"

text \<open>A header that names different blocks outside the log area.\<close>

definition header_ok :: "u32 \<Rightarrow> log_header \<Rightarrow> bool" where
  "header_ok start lh \<longleftrightarrow>
     length (lh_blocknos lh) = LOGSIZE - 1 \<and> unat (lh_len lh) \<le> LOGSIZE - 1 \<and>
     distinct (homes lh) \<and> set (homes lh) \<inter> log_area start = {}"

lemma unat_slotn:
  assumes "area_ok start" and "i < LOGSIZE - 1"
  shows "unat (slotn start i) = unat start + 1 + i"
proof -
  have "unat (start + 1) = unat start + 1"
    using assms by (subst unat_plus_no_overflow) (auto simp: area_ok_def)
  moreover have "unat (of_nat i :: u32) = i"
    using assms by (simp add: unat_of_nat area_ok_def)
  ultimately show ?thesis
    using assms unfolding slotn_def by (subst unat_plus_no_overflow) (auto simp: area_ok_def)
qed

lemma slotn_inj:
  assumes "area_ok start" and "i < LOGSIZE - 1" and "j < LOGSIZE - 1" and "slotn start i = slotn start j"
  shows "i = j"
proof -
  have "unat start + 1 + i = unat start + 1 + j"
    unfolding unat_slotn [OF assms(1,2), symmetric] unat_slotn [OF assms(1,3), symmetric] by (simp only: assms(4))
  then show ?thesis by simp
qed

lemma slotn_not_start:
  assumes "area_ok start" and "i < LOGSIZE - 1"
  shows "slotn start i \<noteq> start"
proof
  assume "slotn start i = start"
  then show False using unat_slotn [OF assms] by simp
qed

lemma log_slot_eq:
  assumes "area_ok (log_start lg)" and "i < LOGSIZE - 1"
  shows "log_slot lg i = Done (slotn (log_start lg) i)"
proof -
  have "unat (log_start lg + 1) = unat (log_start lg) + 1"
    using assms by (subst unat_plus_no_overflow) (auto simp: area_ok_def)
  moreover have "unat (of_nat i :: u32) = i" using assms by (simp add: unat_of_nat area_ok_def)
  ultimately show ?thesis
    using assms by (simp add: log_slot_def u32_add_def slotn_def area_ok_def)
qed

lemma home_block_eq:
  assumes "header_ok start (log_lh lg)" and "i < unat (lh_len (log_lh lg))"
  shows "home_block lg i = Done (homes (log_lh lg) ! i)" and "i < length (homes (log_lh lg))"
    and "i < LOGSIZE - 1"
  using assms by (auto simp: home_block_def homes_def header_ok_def)

lemma length_homes: "header_ok start lh \<Longrightarrow> length (homes lh) = unat (lh_len lh)"
  by (simp add: header_ok_def homes_def)

lemma home_not_area:
  assumes "header_ok start lh" and "i < unat (lh_len lh)"
  shows "homes lh ! i \<notin> log_area start"
  using assms length_homes [OF assms(1)] nth_mem [of i "homes lh"]
  by (simp add: header_ok_def disjoint_iff)

lemma slotn_in_area: "i < LOGSIZE - 1 \<Longrightarrow> slotn start i \<in> log_area start"
  by (simp add: log_area_def)

section \<open>The loops\<close>

lemma log_room:
  assumes "header_ok start lh" and "{x. 0 < r x} \<subseteq> set (homes lh)" and "m \<in> set (homes lh) \<or> m = n"
  shows "card ({x. 0 < r x} \<union> {n, m}) \<le> NBUF"
proof -
  have "card ({x. 0 < r x} \<union> {n, m}) \<le> card (insert n (set (homes lh)))"
    using assms(2,3) by (intro card_mono) auto
  also have "\<dots> \<le> Suc (length (homes lh))" by (simp add: card_insert_if card_length le_SucI)
  also have "\<dots> \<le> NBUF"
    using assms(1) length_homes [OF assms(1)] by (simp add: header_ok_def LOGSIZE_def NBUF_def MAXOPBLOCKS_def)
  finally show ?thesis .
qed

lemma pair_commute_room: "card (A \<union> {n, m}) \<le> k \<Longrightarrow> card (A \<union> {m, n}) \<le> k"
  by (simp add: insert_commute)

lemma write_log_loop:
  assumes inv: "bstore_inv (log_dev lg) s" and area: "area_ok (log_start lg)"
    and hd: "header_ok (log_start lg) (log_lh lg)" and rf: "{x. 0 < refs (log_dev lg) s x} \<subseteq> set (homes (log_lh lg))"
    and i: "i \<le> unat (lh_len (log_lh lg))"
  defines "w \<equiv> \<lambda>j. (slotn (log_start lg) j, cur (log_dev lg) s (homes (log_lh lg) ! j))"
  shows "\<exists>s'. kfold (write_log_block lg) s [0..<i] = Done s' \<and> bstore_inv (log_dev lg) s' \<and>
           refs (log_dev lg) s' = refs (log_dev lg) s \<and>
           cur (log_dev lg) s' = replay (cur (log_dev lg) s) (map w [0..<i]) \<and>
           bca_disk s' = replay (bca_disk s) (map w [0..<i]) \<and>
           bca_writes s' = bca_writes s @ map w [0..<i]"
  using i
proof (induction i)
  case 0
  then show ?case using inv by simp
next
  case (Suc i)
  let ?d = "log_dev lg" and ?h = "homes (log_lh lg)"
  obtain s1 where s1: "kfold (write_log_block lg) s [0..<i] = Done s1" "bstore_inv ?d s1"
    "refs ?d s1 = refs ?d s" "cur ?d s1 = replay (cur ?d s) (map w [0..<i])"
    "bca_disk s1 = replay (bca_disk s) (map w [0..<i])" "bca_writes s1 = bca_writes s @ map w [0..<i]"
    using Suc by auto
  have lt: "i < unat (lh_len (log_lh lg))" using Suc.prems by simp
  note hb = home_block_eq [OF hd lt]
  let ?n = "slotn (log_start lg) i" and ?m = "?h ! i"
  have mh: "?m \<in> set ?h" using hb(2) by simp
  have ne: "?m \<noteq> ?n" using home_not_area [OF hd lt] slotn_in_area [OF hb(3)] by metis
  have "card ({x. 0 < refs ?d s1 x} \<union> {?n, ?m}) \<le> NBUF"
    unfolding s1(3) using mh by (intro log_room [OF hd rf]) simp
  from bc.copy_into_first [OF s1(2) ne this] obtain s2 where
    s2: "kbind (bread ?d ?n s1) (\<lambda>(hb, s2). kbind (bread ?d ?m s2) (\<lambda>(ha, s3).
           let s4 = bwrite hb (raw_data_mut hb (raw_data ha s3) s3) in kbind (buf_drop ha s4) (buf_drop hb))) = Done s2"
      "bstore_inv ?d s2" "cur ?d s2 = (cur ?d s1)(?n := cur ?d s1 ?m)" "bca_disk s2 = (bca_disk s1)(?n := cur ?d s1 ?m)"
      "bca_writes s2 = bca_writes s1 @ [(?n, cur ?d s1 ?m)]" "refs ?d s2 = refs ?d s1"
    by blast
  have step: "write_log_block lg s1 i = Done s2"
    using s2(1) by (simp add: write_log_block_def log_slot_eq [OF area hb(3)] hb(1))
  have "cur ?d s1 ?m = cur ?d s ?m"
    unfolding s1(4)
  proof (rule replay_other)
    have "fst ` set (map w [0..<i]) \<subseteq> log_area (log_start lg)"
      using hb(3) by (auto simp: w_def intro!: slotn_in_area)
    then show "?m \<notin> fst ` set (map w [0..<i])" using home_not_area [OF hd lt] by blast
  qed
  then have c: "(?n, cur ?d s1 ?m) = w i" by (simp add: w_def)
  have "kfold (write_log_block lg) s [0..<Suc i] = Done s2"
    using s1(1) step by (simp add: kfold_append)
  then show ?case
    using s1 s2 c by (intro exI [of _ s2]) (auto simp: w_def)
qed

lemma install_loop:
  assumes inv: "bstore_inv (log_dev lg) s" and area: "area_ok (log_start lg)"
    and hd: "header_ok (log_start lg) (log_lh lg)" and rf: "{x. 0 < refs (log_dev lg) s x} \<subseteq> set (homes (log_lh lg))"
    and pins: "\<not> rec \<longrightarrow> (\<forall>x \<in> set (homes (log_lh lg)). refs (log_dev lg) s x = 1)"
    and i: "i \<le> unat (lh_len (log_lh lg))"
  defines "w \<equiv> \<lambda>j. (homes (log_lh lg) ! j, cur (log_dev lg) s (slotn (log_start lg) j))"
  shows "\<exists>s'. kfold (install_block rec lg) s [0..<i] = Done s' \<and> bstore_inv (log_dev lg) s' \<and>
           refs (log_dev lg) s' =
             (\<lambda>x. if \<not> rec \<and> x \<in> set (take i (homes (log_lh lg))) then 0 else refs (log_dev lg) s x) \<and>
           cur (log_dev lg) s' = replay (cur (log_dev lg) s) (map w [0..<i]) \<and>
           bca_disk s' = replay (bca_disk s) (map w [0..<i]) \<and>
           bca_writes s' = bca_writes s @ map w [0..<i]"
  using i
proof (induction i)
  case 0
  then show ?case using inv by simp
next
  case (Suc i)
  let ?d = "log_dev lg" and ?h = "homes (log_lh lg)"
  obtain s1 where s1: "kfold (install_block rec lg) s [0..<i] = Done s1" "bstore_inv ?d s1"
    "refs ?d s1 = (\<lambda>x. if \<not> rec \<and> x \<in> set (take i ?h) then 0 else refs ?d s x)"
    "cur ?d s1 = replay (cur ?d s) (map w [0..<i])"
    "bca_disk s1 = replay (bca_disk s) (map w [0..<i])" "bca_writes s1 = bca_writes s @ map w [0..<i]"
    using Suc by auto
  have lt: "i < unat (lh_len (log_lh lg))" using Suc.prems by simp
  note hb = home_block_eq [OF hd lt]
  let ?n = "slotn (log_start lg) i" and ?m = "?h ! i"
  have mh: "?m \<in> set ?h" using hb(2) by simp
  have mt: "?m \<notin> set (take i ?h)"
    using hd hb(2) by (auto simp: header_ok_def in_set_conv_nth nth_eq_iff_index_eq)
  have ne: "?n \<noteq> ?m" using home_not_area [OF hd lt] slotn_in_area [OF hb(3)] by metis
  have "{x. 0 < refs ?d s1 x} \<subseteq> set ?h" using rf by (auto simp: s1(3) split: if_splits)
  then have room: "card ({x. 0 < refs ?d s1 x} \<union> {?n, ?m}) \<le> NBUF"
    using mh by (intro log_room [OF hd]) simp_all
  have "\<not> rec \<longrightarrow> 0 < refs ?d s1 ?m" using pins mh mt by (simp add: s1(3))
  from bc.copy_into_second [OF s1(2) ne room this] obtain s2 where
    s2: "kbind (bread ?d ?n s1) (\<lambda>(ha, s2). kbind (bread ?d ?m s2) (\<lambda>(hb, s3).
           let s4 = bwrite hb (raw_data_mut hb (raw_data ha s3) s3)
           in kbind (if \<not> rec then unpin hb s4 else Done s4) (\<lambda>s5. kbind (buf_drop ha s5) (buf_drop hb)))) = Done s2"
      "bstore_inv ?d s2" "cur ?d s2 = (cur ?d s1)(?m := cur ?d s1 ?n)" "bca_disk s2 = (bca_disk s1)(?m := cur ?d s1 ?n)"
      "bca_writes s2 = bca_writes s1 @ [(?m, cur ?d s1 ?n)]"
      "refs ?d s2 = (if \<not> rec then (refs ?d s1)(?m := refs ?d s1 ?m - 1) else refs ?d s1)"
    by blast
  have step: "install_block rec lg s1 i = Done s2"
    using s2(1) by (simp add: install_block_def log_slot_eq [OF area hb(3)] hb(1))
  have "cur ?d s1 ?n = cur ?d s ?n"
    unfolding s1(4)
  proof (rule replay_other)
    show "?n \<notin> fst ` set (map w [0..<i])"
    proof
      assume "?n \<in> fst ` set (map w [0..<i])"
      then obtain j where "j < i" "?n = ?h ! j" by (auto simp: w_def)
      then show False
        using home_not_area [OF hd, of j] slotn_in_area [OF hb(3), of "log_start lg"] lt by simp
    qed
  qed
  then have c: "(?m, cur ?d s1 ?n) = w i" by (simp add: w_def)
  have "kfold (install_block rec lg) s [0..<Suc i] = Done s2"
    using s1(1) step by (simp add: kfold_append)
  moreover have "refs ?d s2 = (\<lambda>x. if \<not> rec \<and> x \<in> set (take (Suc i) ?h) then 0 else refs ?d s x)"
    using s2(6) s1(3) pins mh mt hb(2) by (auto simp: take_Suc_conv_app_nth fun_eq_iff)
  ultimately show ?case
    using s1 s2 c by (intro exI [of _ s2]) (auto simp: w_def)
qed

end
