(* ===== verification/CrashSafety.thy ===== *)
theory CrashSafety
  imports LogCommit
begin

text \<open>
  Commits are atomic across crashes: whatever prefix of a commit's disk writes reaches
  the disk, recovery yields the file system before the commit or after it, and recovery
  itself may be interrupted and repeated.
\<close>

unbundle bit_operations_syntax

section \<open>The writes of a commit\<close>

definition commit_data :: "log \<Rightarrow> bcache \<Rightarrow> nat \<Rightarrow> block" where
  "commit_data lg s j = cur (log_dev lg) s (homes (log_lh lg) ! j)"

definition commit_head :: "log \<Rightarrow> bcache \<Rightarrow> block" where
  "commit_head lg s = put_header (log_lh lg) (cur (log_dev lg) s (log_start lg))"

definition commit_writes :: "log \<Rightarrow> bcache \<Rightarrow> (u32 \<times> block) list" where
  "commit_writes lg s =
     (let n = unat (lh_len (log_lh lg))
      in map (\<lambda>j. (slotn (log_start lg) j, commit_data lg s j)) [0..<n] @
         [(log_start lg, commit_head lg s)] @
         map (\<lambda>j. (homes (log_lh lg) ! j, commit_data lg s j)) [0..<n] @
         [(log_start lg, put_len 0 (commit_head lg s))])"

text \<open>
  The log is ready to commit: its header names different blocks outside the log area,
  each of them pinned once, and no other block is referenced.
\<close>

definition commit_ready :: "log \<Rightarrow> bcache \<Rightarrow> bool" where
  "commit_ready lg s \<longleftrightarrow>
     bstore_inv (log_dev lg) s \<and> area_ok (log_start lg) \<and> header_ok (log_start lg) (log_lh lg) \<and>
     (\<forall>x. refs (log_dev lg) s x = (if x \<in> set (homes (log_lh lg)) then 1 else 0))"

lemma slotn_inj_on:
  assumes "area_ok start" and "n \<le> LOGSIZE - 1"
  shows "inj_on (slotn start) {..<n}"
  using slotn_inj [OF assms(1)] assms(2) by (auto simp: inj_on_def)

lemma homes_inj_on: "header_ok start lh \<Longrightarrow> inj_on (\<lambda>j. homes lh ! j) {..<unat (lh_len lh)}"
  using length_homes by (auto simp: inj_on_def header_ok_def nth_eq_iff_index_eq)

lemma write_head_spec:
  assumes inv: "bstore_inv (log_dev lg) s" and hd: "header_ok (log_start lg) (log_lh lg)"
    and rf: "{x. 0 < refs (log_dev lg) s x} \<subseteq> set (homes (log_lh lg))"
  shows "\<exists>s'. write_head lg s = Done s' \<and> bstore_inv (log_dev lg) s' \<and>
           cur (log_dev lg) s' = (cur (log_dev lg) s)(log_start lg := commit_head lg s) \<and>
           bca_disk s' = (bca_disk s)(log_start lg := commit_head lg s) \<and>
           bca_writes s' = bca_writes s @ [(log_start lg, commit_head lg s)] \<and>
           refs (log_dev lg) s' = refs (log_dev lg) s"
  using bc.rewrite_block [OF inv log_room [OF hd rf disjI2 [OF refl]], of "log_start lg" "put_header (log_lh lg)"]
  by (simp add: write_head_def commit_head_def)

lemma empty_head_spec:
  assumes inv: "bstore_inv (log_dev lg) s" and hd: "header_ok (log_start lg) (log_lh lg)"
    and rf: "{x. 0 < refs (log_dev lg) s x} \<subseteq> set (homes (log_lh lg))"
  defines "v \<equiv> put_len 0 (cur (log_dev lg) s (log_start lg))"
  shows "\<exists>s'. empty_head lg s = Done (lg\<lparr>log_lh := (log_lh lg)\<lparr>lh_len := 0\<rparr>\<rparr>, s') \<and> bstore_inv (log_dev lg) s' \<and>
           cur (log_dev lg) s' = (cur (log_dev lg) s)(log_start lg := v) \<and>
           bca_disk s' = (bca_disk s)(log_start lg := v) \<and>
           bca_writes s' = bca_writes s @ [(log_start lg, v)] \<and>
           refs (log_dev lg) s' = refs (log_dev lg) s"
proof -
  obtain s' where s': "kbind (bread (log_dev lg) (log_start lg) s)
      (\<lambda>(h, s1). buf_drop h (bwrite h (raw_data_mut h (put_len 0 (raw_data h s1)) s1))) = Done s'"
    "bstore_inv (log_dev lg) s'" "cur (log_dev lg) s' = (cur (log_dev lg) s)(log_start lg := v)"
    "bca_disk s' = (bca_disk s)(log_start lg := v)" "bca_writes s' = bca_writes s @ [(log_start lg, v)]"
    "refs (log_dev lg) s' = refs (log_dev lg) s"
    using bc.rewrite_block [OF inv log_room [OF hd rf disjI2 [OF refl]], of "log_start lg" "put_len 0"]
    unfolding v_def by blast
  have "empty_head lg s = Done (lg\<lparr>log_lh := (log_lh lg)\<lparr>lh_len := 0\<rparr>\<rparr>, s')"
    using s'(1) by (auto simp: empty_head_def kres_simps Let_def split: prod.splits)
  then show ?thesis using s' by blast
qed

lemma commit_spec:
  assumes rdy: "commit_ready lg s" and cm: "log_committing lg" and len: "0 < lh_len (log_lh lg)"
  shows "\<exists>s'. commit lg s = Done (lg\<lparr>log_lh := (log_lh lg)\<lparr>lh_len := 0\<rparr>\<rparr>, s') \<and>
           bstore_inv (log_dev lg) s' \<and> refs (log_dev lg) s' = (\<lambda>_. 0) \<and>
           bca_disk s' = replay (bca_disk s) (commit_writes lg s) \<and>
           bca_writes s' = bca_writes s @ commit_writes lg s"
proof -
  let ?d = "log_dev lg" and ?h = "homes (log_lh lg)" and ?n = "unat (lh_len (log_lh lg))" and ?st = "log_start lg"
  have inv: "bstore_inv ?d s" and area: "area_ok ?st" and hd: "header_ok ?st (log_lh lg)"
    and rf: "\<And>x. refs ?d s x = (if x \<in> set ?h then 1 else 0)" using rdy by (auto simp: commit_ready_def)
  have sub: "{x. 0 < refs ?d s x} \<subseteq> set ?h" using rf by auto
  have nle: "?n \<le> LOGSIZE - 1" using hd by (simp add: header_ok_def)
  define w1 where "w1 = map (\<lambda>j. (slotn ?st j, commit_data lg s j)) [0..<?n]"
  define w2 where "w2 = map (\<lambda>j. (?h ! j, commit_data lg s j)) [0..<?n]"
  obtain s1 where s1: "write_log lg s = Done s1" "bstore_inv ?d s1" "refs ?d s1 = refs ?d s"
    "cur ?d s1 = replay (cur ?d s) w1" "bca_disk s1 = replay (bca_disk s) w1" "bca_writes s1 = bca_writes s @ w1"
    using write_log_loop [OF inv area hd sub order.refl] unfolding write_log_def w1_def commit_data_def by blast
  have inj: "inj_on (slotn ?st) {..<?n}" by (rule slotn_inj_on [OF area nle])
  have st: "cur ?d s1 ?st = cur ?d s ?st"
    unfolding s1(4) w1_def
  proof (rule replay_map(2) [OF inj])
    have "slotn ?st j \<noteq> ?st" if "j < ?n" for j using slotn_not_start [OF area, of j] that nle by linarith
    then show "?st \<notin> slotn ?st ` {..<?n}" by (metis imageE lessThan_iff)
  qed
  then have ch: "commit_head lg s1 = commit_head lg s" by (simp add: commit_head_def)
  obtain s2 where s2: "write_head lg s1 = Done s2" "bstore_inv ?d s2"
    "cur ?d s2 = (cur ?d s1)(?st := commit_head lg s)" "bca_disk s2 = (bca_disk s1)(?st := commit_head lg s)"
    "bca_writes s2 = bca_writes s1 @ [(?st, commit_head lg s)]" "refs ?d s2 = refs ?d s1"
    using write_head_spec [OF s1(2) hd] sub s1(3) ch by auto
  have sl: "cur ?d s2 (slotn ?st j) = commit_data lg s j" if "j < ?n" for j
    using replay_map(1) [OF inj that, of "cur ?d s"] slotn_not_start [OF area, of j] that nle
    by (simp add: s2(3) s1(4) w1_def)
  have w2: "map (\<lambda>j. (?h ! j, cur ?d s2 (slotn ?st j))) [0..<?n] = w2"
    unfolding w2_def using sl by auto
  obtain s3 where s3: "install_trans False lg s2 = Done s3" "bstore_inv ?d s3"
    "refs ?d s3 = (\<lambda>x. if \<not> False \<and> x \<in> set (take ?n ?h) then 0 else refs ?d s2 x)"
    "cur ?d s3 = replay (cur ?d s2) w2" "bca_disk s3 = replay (bca_disk s2) w2" "bca_writes s3 = bca_writes s2 @ w2"
    using install_loop [OF s2(2) area hd _ _ order.refl, of False] sub rf s2(6) s1(3)
    unfolding install_trans_def w2 [symmetric] by auto
  have r3: "refs ?d s3 = (\<lambda>_. 0)"
    using length_homes [OF hd] by (auto simp: s3(3) s2(6) s1(3) rf)
  have "?st \<notin> fst ` set w2"
  proof
    assume "?st \<in> fst ` set w2"
    then obtain j where "j < ?n" "?st = ?h ! j" by (auto simp: w2_def)
    then show False using home_not_area [OF hd, of j] by (simp add: log_area_def)
  qed
  then have st3: "cur ?d s3 ?st = commit_head lg s" by (simp add: s3(4) replay_other s2(3))
  obtain s4 where s4: "empty_head lg s3 = Done (lg\<lparr>log_lh := (log_lh lg)\<lparr>lh_len := 0\<rparr>\<rparr>, s4)" "bstore_inv ?d s4"
    "bca_disk s4 = (bca_disk s3)(?st := put_len 0 (commit_head lg s))"
    "bca_writes s4 = bca_writes s3 @ [(?st, put_len 0 (commit_head lg s))]" "refs ?d s4 = refs ?d s3"
    using empty_head_spec [OF s3(2) hd] r3 unfolding st3 by auto
  have "commit lg s = Done (lg\<lparr>log_lh := (log_lh lg)\<lparr>lh_len := 0\<rparr>\<rparr>, s4)"
    using cm len s1(1) s2(1) s3(1) s4(1) by (simp add: commit_def)
  moreover have "commit_writes lg s = w1 @ [(?st, commit_head lg s)] @ w2 @ [(?st, put_len 0 (commit_head lg s))]"
    by (simp add: commit_writes_def w1_def w2_def Let_def)
  ultimately show ?thesis using s1 s2 s3 s4 r3 by simp
qed

section \<open>Recovery\<close>

definition recover_writes :: "u32 \<Rightarrow> (u32 \<Rightarrow> block) \<Rightarrow> (u32 \<times> block) list" where
  "recover_writes start D =
     (let lh = get_header (D start); n = unat (lh_len lh)
      in if n = 0 then []
         else map (\<lambda>j. (homes lh ! j, D (slotn start j))) [0..<n] @ [(start, put_len 0 (D start))])"

lemma recover_spec:
  assumes dev: "log_dev lg \<noteq> 0" and area: "area_ok (log_start lg)" and hd: "header_ok (log_start lg) (get_header (D (log_start lg)))"
  shows "\<exists>lg' s'. recover lg (binit (bcache_new D)) = Done (lg', s') \<and> bstore_inv (log_dev lg) s' \<and>
           refs (log_dev lg) s' = (\<lambda>_. 0) \<and> lh_len (log_lh lg') = 0 \<and>
           bca_disk s' = replay D (recover_writes (log_start lg) D) \<and>
           bca_writes s' = recover_writes (log_start lg) D"
proof -
  let ?d = "log_dev lg" and ?st = "log_start lg" and ?s = "binit (bcache_new D)"
  let ?lg = "lg\<lparr>log_lh := get_header (D ?st)\<rparr>" and ?n = "unat (lh_len (get_header (D ?st)))"
  note b = boot_cache [OF dev, of D]
  have "card ({x. 0 < refs ?d ?s x} \<union> {?st, ?st}) \<le> NBUF" by (simp add: b(3) NBUF_def MAXOPBLOCKS_def)
  from bc.read_block [OF b(1) this] obtain s1 where s1:
    "kbind (bread ?d ?st ?s) (\<lambda>(h, s1). kbind (buf_drop h s1) (\<lambda>s2. Done (raw_data h s1, s2))) = Done (D ?st, s1)"
    "bstore_inv ?d s1" "cur ?d s1 = D" "bca_disk s1 = D" "bca_writes s1 = []" "refs ?d s1 = (\<lambda>_. 0)"
    by (auto simp: b)
  have rh: "read_head lg ?s = Done (?lg, s1)"
    using s1(1) by (auto simp: read_head_def kres_simps split: prod.splits)
  show ?thesis
  proof (cases "?n = 0")
    case True
    then have l0: "lh_len (get_header (D ?st)) = 0" by (simp add: unat_eq_zero)
    then have "recover lg ?s = Done (?lg, s1)" using rh by (simp add: recover_def)
    then show ?thesis using s1 l0 by (simp add: recover_writes_def)
  next
    case False
    then have pos: "0 < lh_len (get_header (D ?st))" by (simp add: word_gt_0 unat_eq_zero)
    have lgs: "log_dev ?lg = ?d" "log_start ?lg = ?st" "log_lh ?lg = get_header (D ?st)" by simp_all
    let ?w = "map (\<lambda>j. (homes (get_header (D ?st)) ! j, D (slotn ?st j))) [0..<?n]"
    obtain s2 where s2: "install_trans True ?lg s1 = Done s2" "bstore_inv ?d s2" "refs ?d s2 = (\<lambda>_. 0)"
      "cur ?d s2 = replay D ?w" "bca_disk s2 = replay D ?w" "bca_writes s2 = ?w"
      using install_loop [of ?lg s1 True ?n] s1(2-6) area hd unfolding install_trans_def lgs by auto
    have "?st \<notin> fst ` set ?w"
    proof
      assume "?st \<in> fst ` set ?w"
      then obtain j where "j < ?n" "?st = homes (get_header (D ?st)) ! j" by auto
      then show False using home_not_area [OF hd, of j] by (simp add: log_area_def)
    qed
    then have st: "cur ?d s2 ?st = D ?st" by (simp add: s2(4) replay_other)
    obtain s3 where s3: "empty_head ?lg s2 = Done (?lg\<lparr>log_lh := (log_lh ?lg)\<lparr>lh_len := 0\<rparr>\<rparr>, s3)" "bstore_inv ?d s3"
      "bca_disk s3 = (bca_disk s2)(?st := put_len 0 (D ?st))"
      "bca_writes s3 = bca_writes s2 @ [(?st, put_len 0 (D ?st))]" "refs ?d s3 = refs ?d s2"
      using empty_head_spec [of ?lg s2] s2(2,3) hd unfolding lgs st by auto
    have "recover lg ?s = Done (?lg\<lparr>log_lh := (log_lh ?lg)\<lparr>lh_len := 0\<rparr>\<rparr>, s3)"
      using rh pos s2(1) s3(1) by (simp add: recover_def)
    then show ?thesis using s2 s3 False by (simp add: recover_writes_def Let_def)
  qed
qed

section \<open>Interrupted writes\<close>

lemma not_in_take: "b \<notin> fst ` set ws \<Longrightarrow> b \<notin> fst ` set (take m ws)"
  using image_mono [OF set_take_subset, of fst m ws] by blast

lemma replay_prefix_idem:
  assumes "inj_on h {..<n}"
  shows "replay (replay D (take m (map (\<lambda>j. (h j, v j)) [0..<n]))) (map (\<lambda>j. (h j, v j)) [0..<n]) =
         replay D (map (\<lambda>j. (h j, v j)) [0..<n])"
proof
  fix b
  let ?w = "map (\<lambda>j. (h j, v j)) [0..<n]"
  show "replay (replay D (take m ?w)) ?w b = replay D ?w b"
  proof (cases "b \<in> h ` {..<n}")
    case True
    then show ?thesis using replay_map(1) [OF assms] by auto
  next
    case False
    have "b \<notin> fst ` set ?w" using False by auto
    then have "b \<notin> fst ` set (take m ?w)" by (rule not_in_take)
    then show ?thesis using replay_map(2) [OF assms False] by (simp add: replay_other)
  qed
qed

lemma empty_header_ok: "lh_len (get_header blk) = 0 \<Longrightarrow> header_ok start (get_header blk)"
  by (simp add: header_ok_def homes_def) (simp add: get_header_def)

text \<open>A disk whose log holds a complete transaction.\<close>

definition full_log :: "u32 \<Rightarrow> log_header \<Rightarrow> (nat \<Rightarrow> block) \<Rightarrow> (u32 \<Rightarrow> block) \<Rightarrow> bool" where
  "full_log start lh v D \<longleftrightarrow>
     header_ok start lh \<and> get_header (D start) = lh \<and> (\<forall>j < unat (lh_len lh). D (slotn start j) = v j)"

definition redo_writes :: "log_header \<Rightarrow> (nat \<Rightarrow> block) \<Rightarrow> (u32 \<times> block) list" where
  "redo_writes lh v = map (\<lambda>j. (homes lh ! j, v j)) [0..<unat (lh_len lh)]"

lemma redo_outside_area:
  assumes "header_ok start lh" and "b \<in> log_area start"
  shows "b \<notin> fst ` set (redo_writes lh v)"
proof
  assume "b \<in> fst ` set (redo_writes lh v)"
  then obtain j where "j < unat (lh_len lh)" "b = homes lh ! j" by (auto simp: redo_writes_def)
  then show False using home_not_area [OF assms(1), of j] assms(2) by simp
qed

lemma redo_take_outside: "header_ok start lh \<Longrightarrow> b \<in> log_area start \<Longrightarrow> replay D (take m (redo_writes lh v)) b = D b"
  by (intro replay_other not_in_take redo_outside_area)

lemma full_log_redo:
  assumes "area_ok start" and "full_log start lh v D"
  shows "full_log start lh v (replay D (take m (redo_writes lh v)))"
proof -
  have hd: "header_ok start lh" using assms(2) by (simp add: full_log_def)
  have "replay D (take m (redo_writes lh v)) start = D start"
    by (rule redo_take_outside [OF hd]) (simp add: log_area_def)
  moreover have "replay D (take m (redo_writes lh v)) (slotn start j) = D (slotn start j)"
    if "j < unat (lh_len lh)" for j
    using that hd by (intro redo_take_outside [OF hd] slotn_in_area) (simp add: header_ok_def)
  ultimately show ?thesis using assms(2) by (simp add: full_log_def)
qed

lemma full_log_recover_writes:
  assumes "full_log start lh v D" and "0 < unat (lh_len lh)"
  shows "recover_writes start D = redo_writes lh v @ [(start, put_len 0 (D start))]"
  using assms by (simp add: recover_writes_def redo_writes_def full_log_def Let_def)

text \<open>
  The outcome of recovery on a block outside the log area, for a disk reached by
  interrupting a recovery of a full log.
\<close>

lemma recover_full:
  fixes m :: nat
  assumes area: "area_ok start" and fl: "full_log start lh v D" and n: "0 < unat (lh_len lh)"
    and b: "b \<notin> log_area start"
  defines "D' \<equiv> replay D (take m (recover_writes start D))"
  shows "header_ok start (get_header (D' start))"
    and "replay D' (recover_writes start D') b = replay D (redo_writes lh v) b"
proof -
  have hd: "header_ok start lh" using fl by (simp add: full_log_def)
  have bs: "b \<noteq> start" using b by (auto simp: log_area_def)
  note rw = full_log_recover_writes [OF fl n]
  have "header_ok start (get_header (D' start)) \<and>
      replay D' (recover_writes start D') b = replay D (redo_writes lh v) b"
  proof (cases "m \<le> length (redo_writes lh v)")
    case True
    then have D': "D' = replay D (take m (redo_writes lh v))" by (simp add: D'_def rw)
    have fl': "full_log start lh v D'" unfolding D' by (rule full_log_redo [OF area fl])
    have "replay D' (redo_writes lh v) = replay D (redo_writes lh v)"
      unfolding D' redo_writes_def by (rule replay_prefix_idem [OF homes_inj_on [OF hd]])
    then show ?thesis
      using fl' hd bs by (simp add: full_log_recover_writes [OF fl' n] full_log_def)
  next
    case False
    then have D': "D' = (replay D (redo_writes lh v))(start := put_len 0 (D start))"
      by (simp add: D'_def rw)
    have l0: "lh_len (get_header (D' start)) = 0" by (simp add: D' get_put_len)
    then have "recover_writes start D' = []" by (simp add: recover_writes_def)
    then show ?thesis using empty_header_ok [OF l0] bs by (simp add: D')
  qed
  then show "header_ok start (get_header (D' start))"
    and "replay D' (recover_writes start D') b = replay D (redo_writes lh v) b" by auto
qed

section \<open>Interrupted commits\<close>

definition new_contents :: "log \<Rightarrow> bcache \<Rightarrow> u32 \<Rightarrow> block" where
  "new_contents lg s b = (if b \<in> set (homes (log_lh lg)) then cur (log_dev lg) s b else bca_disk s b)"

lemma redo_commit:
  assumes "header_ok (log_start lg) (log_lh lg)" and "D b = bca_disk s b"
  shows "replay D (redo_writes (log_lh lg) (commit_data lg s)) b = new_contents lg s b"
proof (cases "b \<in> set (homes (log_lh lg))")
  case True
  then obtain j where j: "j < unat (lh_len (log_lh lg))" "b = homes (log_lh lg) ! j"
    using length_homes [OF assms(1)] by (auto simp: in_set_conv_nth)
  then show ?thesis
    using replay_map(1) [OF homes_inj_on [OF assms(1)] j(1), of D "commit_data lg s"] True
    by (simp add: redo_writes_def new_contents_def commit_data_def)
next
  case False
  then have "b \<notin> (\<lambda>j. homes (log_lh lg) ! j) ` {..<unat (lh_len (log_lh lg))}"
    using length_homes [OF assms(1)] by (auto simp: in_set_conv_nth)
  then show ?thesis
    using replay_map(2) [OF homes_inj_on [OF assms(1)], of b D "commit_data lg s"] False assms(2)
    by (simp add: redo_writes_def new_contents_def)
qed

text \<open>
  A disk reached by \<open>k\<close> writes of a commit either has an empty log and the old contents,
  or a full log, or an empty log and the new contents.
\<close>

lemma commit_prefix:
  fixes k :: nat
  assumes rdy: "commit_ready lg s" and n: "0 < unat (lh_len (log_lh lg))"
    and old: "lh_len (get_header (bca_disk s (log_start lg))) = 0"
  defines "D \<equiv> replay (bca_disk s) (take k (commit_writes lg s))"
  shows "if k \<le> unat (lh_len (log_lh lg))
         then lh_len (get_header (D (log_start lg))) = 0 \<and> (\<forall>b. b \<notin> log_area (log_start lg) \<longrightarrow> D b = bca_disk s b)
         else full_log (log_start lg) (log_lh lg) (commit_data lg s) D \<and>
                (\<forall>b. b \<notin> log_area (log_start lg) \<longrightarrow>
                   replay D (redo_writes (log_lh lg) (commit_data lg s)) b = new_contents lg s b) \<or>
              lh_len (get_header (D (log_start lg))) = 0 \<and>
                (\<forall>b. b \<notin> log_area (log_start lg) \<longrightarrow> D b = new_contents lg s b)"
proof -
  let ?st = "log_start lg" and ?lh = "log_lh lg" and ?D0 = "bca_disk s" and ?n = "unat (lh_len (log_lh lg))"
  let ?w1 = "map (\<lambda>j. (slotn ?st j, commit_data lg s j)) [0..<?n]" and ?H = "commit_head lg s"
  let ?w2 = "redo_writes ?lh (commit_data lg s)"
  have area: "area_ok ?st" and hd: "header_ok ?st ?lh" using rdy by (auto simp: commit_ready_def)
  have nle: "?n \<le> LOGSIZE - 1" using hd by (simp add: header_ok_def)
  have cw: "commit_writes lg s = ?w1 @ (?st, ?H) # ?w2 @ [(?st, put_len 0 ?H)]"
    by (simp add: commit_writes_def redo_writes_def Let_def)
  have w1a: "fst ` set ?w1 \<subseteq> log_area ?st" using nle by (auto intro!: slotn_in_area)
  have stw: "?st \<notin> fst ` set ?w1"
  proof
    assume "?st \<in> fst ` set ?w1"
    then obtain j where "j < ?n" "slotn ?st j = ?st" by auto
    then show False using slotn_not_start [OF area, of j] nle by simp
  qed
  show ?thesis
  proof (cases "k \<le> ?n")
    case True
    then have D: "D = replay ?D0 (take k ?w1)" by (simp add: D_def cw)
    have "D ?st = ?D0 ?st" unfolding D by (intro replay_other not_in_take stw)
    moreover have "D b = ?D0 b" if "b \<notin> log_area ?st" for b
      unfolding D using w1a that by (intro replay_other not_in_take) blast
    ultimately show ?thesis using True old by simp
  next
    case False
    define D1 where "D1 = (replay ?D0 ?w1)(?st := ?H)"
    have D1: "D1 b = ?D0 b" if "b \<notin> log_area ?st" for b
    proof -
      have "b \<noteq> ?st" "b \<notin> fst ` set ?w1" using that w1a by (auto simp: log_area_def)
      then show ?thesis by (simp add: D1_def replay_other)
    qed
    have fl1: "full_log ?st ?lh (commit_data lg s) D1"
    proof -
      have "get_header ?H = ?lh" using hd by (simp add: commit_head_def get_put_header header_ok_def)
      moreover have "D1 (slotn ?st j) = commit_data lg s j" if "j < ?n" for j
        using replay_map(1) [OF slotn_inj_on [OF area nle] that, of ?D0 "commit_data lg s"]
          slotn_not_start [OF area, of j] that nle by (simp add: D1_def)
      ultimately show ?thesis using hd by (simp add: full_log_def D1_def)
    qed
    have new: "replay D1 ?w2 b = new_contents lg s b" if "b \<notin> log_area ?st" for b
      by (rule redo_commit [OF hd, of D1, OF D1 [OF that]])
    obtain m where m: "k = Suc ?n + m" using False by (metis add_Suc less_natE not_le)
    show ?thesis
    proof (cases "m \<le> length ?w2")
      case True
      then have D: "D = replay D1 (take m ?w2)" by (simp add: D_def cw D1_def m)
      have "full_log ?st ?lh (commit_data lg s) D" unfolding D by (rule full_log_redo [OF area fl1])
      moreover have "replay D ?w2 = replay D1 ?w2"
        unfolding D redo_writes_def by (rule replay_prefix_idem [OF homes_inj_on [OF hd]])
      ultimately show ?thesis using False new by simp
    next
      case big: False
      then have D: "D = (replay D1 ?w2)(?st := put_len 0 ?H)" by (simp add: D_def cw D1_def m)
      have "D b = new_contents lg s b" if "b \<notin> log_area ?st" for b
        using new [OF that] that by (auto simp: D log_area_def)
      moreover have "lh_len (get_header (D ?st)) = 0" by (simp add: D get_put_len)
      ultimately show ?thesis using False by simp
    qed
  qed
qed

section \<open>Properties\<close>

text \<open>The disk a boot finds, and what the log's initialisation makes of it.\<close>

definition boot_log :: "u32 \<Rightarrow> u32 \<Rightarrow> u32 \<Rightarrow> (u32 \<Rightarrow> block) \<Rightarrow> (log \<times> bcache) kres" where
  "boot_log start size' dev D = log_init start size' dev log_uninit (binit (bcache_new D))"

lemma boot_log_spec:
  assumes "dev \<noteq> 0" and "area_ok start" and "header_ok start (get_header (D start))"
  shows "\<exists>lg' s'. boot_log start size' dev D = Done (lg', s') \<and> lh_len (log_lh lg') = 0 \<and>
           bca_disk s' = replay D (recover_writes start D) \<and> bca_writes s' = recover_writes start D"
  using recover_spec [of "log_uninit\<lparr>log_start := start, log_size := size', log_dev := dev\<rparr>" D] assms
  by (auto simp: boot_log_def log_init_def)

lemma boot_log_after:
  assumes dev: "dev \<noteq> 0" and area: "area_ok start"
    and D: "full_log start lh v D \<and> 0 < unat (lh_len lh) \<and> (\<forall>b. b \<notin> log_area start \<longrightarrow> replay D (redo_writes lh v) b = f b) \<or>
            lh_len (get_header (D start)) = 0 \<and> (\<forall>b. b \<notin> log_area start \<longrightarrow> D b = f b)"
  shows "\<exists>lg1 s1. boot_log start size' dev D = Done (lg1, s1) \<and>
           (\<forall>m. \<exists>lg2 s2. boot_log start size' dev (replay D (take m (bca_writes s1))) = Done (lg2, s2) \<and>
              (\<forall>b. b \<notin> log_area start \<longrightarrow> bca_disk s2 b = f b))"
  using D
proof (elim disjE conjE)
  assume fl: "full_log start lh v D" and n: "0 < unat (lh_len lh)"
    and f: "\<forall>b. b \<notin> log_area start \<longrightarrow> replay D (redo_writes lh v) b = f b"
  have "header_ok start (get_header (D start))" using fl by (simp add: full_log_def)
  from boot_log_spec [OF dev area, of D, OF this] obtain lg1 s1 where
    s1: "boot_log start size' dev D = Done (lg1, s1)" "bca_writes s1 = recover_writes start D" by blast
  have "\<exists>lg2 s2. boot_log start size' dev (replay D (take m (bca_writes s1))) = Done (lg2, s2) \<and>
      (\<forall>b. b \<notin> log_area start \<longrightarrow> bca_disk s2 b = f b)" for m
  proof -
    let ?D = "replay D (take m (recover_writes start D))"
    have ex: "\<exists>b. b \<notin> log_area start"
      using fl n home_not_area [of start lh 0] by (auto simp: full_log_def)
    then have "header_ok start (get_header (?D start))" using recover_full(1) [OF area fl n] by blast
    from boot_log_spec [OF dev area, of ?D, OF this] obtain lg2 s2 where
      "boot_log start size' dev ?D = Done (lg2, s2)" "bca_disk s2 = replay ?D (recover_writes start ?D)" by blast
    then show ?thesis using recover_full(2) [OF area fl n] f s1(2) by auto
  qed
  then show ?thesis using s1(1) by blast
next
  assume l0: "lh_len (get_header (D start)) = 0" and f: "\<forall>b. b \<notin> log_area start \<longrightarrow> D b = f b"
  have rw: "recover_writes start D = []" using l0 by (simp add: recover_writes_def)
  from boot_log_spec [OF dev area, of D, OF empty_header_ok [OF l0]] obtain lg1 s1 where
    s1: "boot_log start size' dev D = Done (lg1, s1)" "bca_disk s1 = D" "bca_writes s1 = []"
    unfolding rw replay_simps by metis
  then show ?thesis using f by (intro exI [of _ lg1] exI [of _ s1]) auto
qed

text \<open>
  C1 (commits are atomic): a commit of a ready log returns and releases every pinned
  buffer. If the machine stops after any number \<open>k\<close> of the disk writes the commit makes,
  and the recovery at the next boot is itself stopped after any number \<open>m\<close> of its writes,
  then the boot after that succeeds, and every block outside the log area holds what it
  held before the commit (when \<open>k\<close> stops before the header is written) or what the
  commit was to write (afterwards).
\<close>

theorem commit_crash_safe:
  assumes rdy: "commit_ready lg s" and cm: "log_committing lg" and len: "0 < lh_len (log_lh lg)"
    and old: "lh_len (get_header (bca_disk s (log_start lg))) = 0" and dev: "log_dev lg \<noteq> 0"
  shows "\<exists>lg' s'. commit lg s = Done (lg', s') \<and> refs (log_dev lg) s' = (\<lambda>_. 0) \<and> lh_len (log_lh lg') = 0 \<and>
     (\<forall>k. let D = replay (bca_disk s) (take k (drop (length (bca_writes s)) (bca_writes s'))) in
        \<exists>lg1 s1. boot_log (log_start lg) (log_size lg) (log_dev lg) D = Done (lg1, s1) \<and>
          (\<forall>m. \<exists>lg2 s2.
             boot_log (log_start lg) (log_size lg) (log_dev lg) (replay D (take m (bca_writes s1))) = Done (lg2, s2) \<and>
             (\<forall>b. b \<notin> log_area (log_start lg) \<longrightarrow>
                bca_disk s2 b = (if k \<le> unat (lh_len (log_lh lg)) then bca_disk s b else new_contents lg s b))))"
proof -
  obtain s' where s': "commit lg s = Done (lg\<lparr>log_lh := (log_lh lg)\<lparr>lh_len := 0\<rparr>\<rparr>, s')"
    "refs (log_dev lg) s' = (\<lambda>_. 0)" "bca_writes s' = bca_writes s @ commit_writes lg s"
    using commit_spec [OF rdy cm len] by blast
  have n: "0 < unat (lh_len (log_lh lg))" using len by (simp add: word_less_nat_alt)
  have area: "area_ok (log_start lg)" using rdy by (simp add: commit_ready_def)
  let ?boot = "boot_log (log_start lg) (log_size lg) (log_dev lg)"
  let ?f = "\<lambda>k b. if k \<le> unat (lh_len (log_lh lg)) then bca_disk s b else new_contents lg s b"
  have "\<exists>lg1 s1. ?boot (replay (bca_disk s) (take k (commit_writes lg s))) = Done (lg1, s1) \<and>
      (\<forall>m. \<exists>lg2 s2. ?boot (replay (replay (bca_disk s) (take k (commit_writes lg s))) (take m (bca_writes s1))) = Done (lg2, s2) \<and>
         (\<forall>b. b \<notin> log_area (log_start lg) \<longrightarrow> bca_disk s2 b = ?f k b))" for k
    using commit_prefix [OF rdy n old, of k] n
    by (intro boot_log_after [OF dev area, of "log_lh lg" "commit_data lg s"])
      (auto split: if_splits)
  moreover have "drop (length (bca_writes s)) (bca_writes s') = commit_writes lg s" by (simp add: s'(3))
  moreover have "lh_len (log_lh (lg\<lparr>log_lh := (log_lh lg)\<lparr>lh_len := 0\<rparr>\<rparr>)) = 0" by simp
  ultimately show ?thesis
    unfolding Let_def using s'(1,2) by metis
qed

text \<open>An example: one block, changed and pinned, is ready to commit.\<close>

definition log_one :: log where
  "log_one = \<lparr>log_start = 2, log_size = 30, log_dev = 1, log_outstanding = 0, log_committing = True,
              log_lh = \<lparr>lh_len = 1, lh_blocknos = 100 # replicate (LOGSIZE - 2) 0\<rparr>\<rparr>"

lemma log_one_area: "area_ok 2" "100 \<notin> log_area 2"
proof -
  show a: "area_ok 2" by (simp add: area_ok_def LOGSIZE_def MAXOPBLOCKS_def)
  have "unat (100 :: u32) \<noteq> unat (slotn 2 i)" if "i < LOGSIZE - 1" for i
    unfolding unat_slotn [OF a that] using that by (simp add: LOGSIZE_def MAXOPBLOCKS_def)
  then show "100 \<notin> log_area 2" unfolding log_area_def by force
qed

lemma of_le32_zero: "of_le32 (replicate n 0) = 0"
proof -
  have "foldr (\<lambda>b w. ucast b OR push_bit 8 w) (replicate m (0 :: u8)) (0 :: u32) = 0" for m
    by (induction m) simp_all
  then show ?thesis by (simp add: of_le32_def)
qed

lemma log_one_ready:
  "\<exists>s. commit_ready log_one s \<and> lh_len (get_header (bca_disk s 2)) = 0 \<and> cur 1 s 100 = [42]"
proof -
  let ?D = "\<lambda>_. replicate BSIZE 0" and ?b = "binit (bcache_new (\<lambda>_. replicate BSIZE 0))"
  note b = boot_cache [of 1 ?D]
  have "card {x. 0 < refs 1 ?b x} < NBUF" using b(3) by (simp add: NBUF_def MAXOPBLOCKS_def)
  with b(1) obtain h s1 where s1: "bstore_inv 1 s1" "holds 1 s1 h 100" "bca_disk s1 = bca_disk ?b"
    "refs 1 s1 = (refs 1 ?b)(100 := Suc (refs 1 ?b 100))"
    using bc.rd_law [of 1 ?b 100] by auto
  let ?s = "raw_data_mut h [42] s1"
  have p: "bstore_inv 1 ?s" "cur 1 ?s = (cur 1 s1)(100 := [42])" "bca_disk ?s = ?D" "refs 1 ?s = (\<lambda>_. 0)(100 := 1)"
    using bc.put_law [OF s1(1,2), of "[42]"] s1(3,4) b(3,5) by auto
  have h: "homes (log_lh log_one) = [100]" by (simp add: homes_def log_one_def)
  have "header_ok 2 (log_lh log_one)"
    using log_one_area(2) h by (simp add: header_ok_def) (simp add: log_one_def LOGSIZE_def MAXOPBLOCKS_def)
  then have "commit_ready log_one ?s"
    using p log_one_area(1) by (simp add: commit_ready_def h) (simp add: log_one_def)
  moreover have "lh_len (get_header (bca_disk ?s 2)) = 0"
    by (simp add: p(3) get_header_def of_le32_zero)
  ultimately show ?thesis using p(2) by (intro exI [of _ ?s]) simp
qed

theorem commit_crash_safe_witness:
  "\<exists>s lg' s'. commit_ready log_one s \<and> commit log_one s = Done (lg', s') \<and> refs 1 s' = (\<lambda>_. 0) \<and>
     (\<exists>lg1 s1. boot_log 2 30 1 (replay (bca_disk s) (take 2 (drop (length (bca_writes s)) (bca_writes s')))) = Done (lg1, s1) \<and>
        (\<exists>lg2 s2. boot_log 2 30 1 (replay (replay (bca_disk s) (take 2 (drop (length (bca_writes s)) (bca_writes s'))))
                      (take 0 (bca_writes s1))) = Done (lg2, s2) \<and> bca_disk s2 100 = [42]))"
proof -
  obtain s where s: "commit_ready log_one s" "lh_len (get_header (bca_disk s 2)) = 0" "cur 1 s 100 = [42]"
    using log_one_ready by blast
  have lo: "log_start log_one = 2" "log_size log_one = 30" "log_dev log_one = 1" "log_committing log_one"
    "lh_len (log_lh log_one) = 1" "homes (log_lh log_one) = [100]"
    by (simp_all add: log_one_def homes_def)
  have "new_contents log_one s 100 = [42]" by (simp add: new_contents_def lo s(3))
  moreover obtain lg' s' where c: "commit log_one s = Done (lg', s')" "refs 1 s' = (\<lambda>_. 0)"
    and all: "\<forall>k. \<exists>lg1 s1. boot_log 2 30 1 (replay (bca_disk s) (take k (drop (length (bca_writes s)) (bca_writes s')))) = Done (lg1, s1) \<and>
       (\<forall>m. \<exists>lg2 s2. boot_log 2 30 1 (replay (replay (bca_disk s) (take k (drop (length (bca_writes s)) (bca_writes s'))))
            (take m (bca_writes s1))) = Done (lg2, s2) \<and>
          (\<forall>b. b \<notin> log_area 2 \<longrightarrow> bca_disk s2 b = (if k \<le> unat (1 :: u32) then bca_disk s b else new_contents log_one s b)))"
    using commit_crash_safe [OF s(1) lo(4), unfolded lo Let_def, OF _ s(2)] by (metis word_less_1 zero_neq_one)
  moreover have "\<not> (2 :: nat) \<le> unat (1 :: u32)" by simp
  ultimately show ?thesis using s(1) log_one_area(2) spec [OF all, of 2] by metis
qed

end
