(* ===== verification/LogOps.thy ===== *)
theory LogOps
  imports CrashSafety
begin

text \<open>
  Recording writes and admitting operations: \<^verbatim>\<open>begin_op\<close>, \<^verbatim>\<open>write\<close> and \<^verbatim>\<open>end_op\<close>. The step
  relation \<open>adm_step\<close> follows the log and, for every operation under way, how many new
  blocks it may still write (\<^verbatim>\<open>MAXOPBLOCKS\<close> at first).
\<close>

section \<open>Recording a block\<close>

lemma homes_snoc:
  assumes "header_ok start lh" and "unat (lh_len lh) < LOGSIZE - 1"
  shows "homes (lh\<lparr>lh_blocknos := (lh_blocknos lh)[unat (lh_len lh) := b], lh_len := lh_len lh + 1\<rparr>) = homes lh @ [b]"
    and "unat (lh_len lh + 1) = unat (lh_len lh) + 1"
proof -
  show u: "unat (lh_len lh + 1) = unat (lh_len lh) + 1"
    using assms(2) by (subst unat_plus_no_overflow) (auto simp: LOGSIZE_def MAXOPBLOCKS_def)
  have "unat (lh_len lh) < length (lh_blocknos lh)" using assms by (simp add: header_ok_def)
  then show "homes (lh\<lparr>lh_blocknos := (lh_blocknos lh)[unat (lh_len lh) := b], lh_len := lh_len lh + 1\<rparr>) = homes lh @ [b]"
    by (simp add: homes_def u take_Suc_conv_app_nth)
qed

lemma log_write_records:
  assumes inv: "bstore_inv d s" and hd: "header_ok (log_start lg) (log_lh lg)" and h: "holds d s buf b"
    and b: "b \<notin> log_area (log_start lg)" and pinned: "b \<in> set (homes (log_lh lg)) \<longrightarrow> 2 \<le> refs d s b"
    and out: "log_outstanding lg \<noteq> 0"
    and room: "unat (lh_len (log_lh lg)) + (if b \<in> set (homes (log_lh lg)) then 1 else 2) < LOGSIZE"
      "unat (lh_len (log_lh lg)) + (if b \<in> set (homes (log_lh lg)) then 1 else 2) < unat (log_size lg)"
  shows "\<exists>lg' s'. log_write buf lg s = Done (lg', s') \<and> bstore_inv d s' \<and> header_ok (log_start lg') (log_lh lg') \<and>
           homes (log_lh lg') = (if b \<in> set (homes (log_lh lg)) then homes (log_lh lg) else homes (log_lh lg) @ [b]) \<and>
           cur d s' = cur d s \<and> bca_disk s' = bca_disk s \<and>
           refs d s' = (if b \<in> set (homes (log_lh lg)) then (refs d s)(b := refs d s b - 1) else refs d s) \<and>
           (\<forall>h' b'. holds d s h' b' \<and> b' \<noteq> b \<longrightarrow> holds d s' h' b')"
proof -
  have bn: "b_blockno buf = b" using h by (simp add: holds_def)
  have o: "\<not> log_outstanding lg < 1" using out by (simp add: word_less_1)
  show ?thesis
  proof (cases "b \<in> set (homes (log_lh lg))")
    case True
    then have "refs d s b = 1 \<longrightarrow> cur d s b = bca_disk s b" using pinned by auto
    from bc.rel_law [OF inv h this] obtain s' where s': "buf_drop buf s = Done s'" "bstore_inv d s'"
      "cur d s' = cur d s" "bca_disk s' = bca_disk s" "refs d s' = (refs d s)(b := refs d s b - 1)"
      "\<forall>h' b'. holds d s h' b' \<and> b' \<noteq> b \<longrightarrow> holds d s' h' b'" by blast
    have "log_write buf lg s = Done (lg, s')"
      using True room o s'(1) by (simp add: log_write_def Let_def bn homes_def [symmetric])
    then show ?thesis using s' hd True by auto
  next
    case False
    let ?lh = "(log_lh lg)\<lparr>lh_blocknos := (lh_blocknos (log_lh lg))[unat (lh_len (log_lh lg)) := b],
                 lh_len := lh_len (log_lh lg) + 1\<rparr>"
    have lt: "unat (lh_len (log_lh lg)) < LOGSIZE - 1" using room(1) False by simp
    note hs = homes_snoc [OF hd lt]
    have "header_ok (log_start lg) ?lh"
      using hd False b lt by (simp add: header_ok_def hs)
    have p: "bstore_inv d (pin buf s)" "cur d (pin buf s) = cur d s" "bca_disk (pin buf s) = bca_disk s"
      "refs d (pin buf s) = (refs d s)(b := Suc (refs d s b))" "holds d (pin buf s) buf b"
      "\<forall>h' b'. holds d s h' b' \<longrightarrow> holds d (pin buf s) h' b'"
      using bc.pin_law [OF inv h] h by auto
    have "0 < refs d s b" by (rule bc.held_ref [OF inv h])
    then have "refs d (pin buf s) b = 1 \<longrightarrow> cur d (pin buf s) b = bca_disk (pin buf s) b" using p(4) by simp
    from bc.rel_law [OF p(1,5) this] obtain s' where s': "buf_drop buf (pin buf s) = Done s'" "bstore_inv d s'"
      "cur d s' = cur d s" "bca_disk s' = bca_disk s" "refs d s' = refs d s"
      "\<forall>h' b'. holds d s h' b' \<and> b' \<noteq> b \<longrightarrow> holds d s' h' b'" using p by auto
    have "log_write buf lg s = Done (lg\<lparr>log_lh := ?lh\<rparr>, s')"
      using False room o s'(1) hd by (simp add: log_write_def Let_def bn homes_def [symmetric] header_ok_def)
    then show ?thesis using s' \<open>header_ok (log_start lg) ?lh\<close> False hs(1) by auto
  qed
qed

text \<open>
  Recording a write: while there is room, \<^verbatim>\<open>write\<close> never panics. A block already
  recorded is absorbed and the caller's reference goes; a new one is appended to the
  header and the caller's reference becomes the pin that keeps the changed buffer in
  the cache until the commit. Contents and disk do not change.
\<close>

theorem log_write_correct:
  assumes inv: "bstore_inv d s" and hd: "header_ok (log_start lg) (log_lh lg)" and h: "holds d s buf b"
    and b: "b \<notin> log_area (log_start lg)" and pinned: "b \<in> set (homes (log_lh lg)) \<longrightarrow> 2 \<le> refs d s b"
    and out: "log_outstanding lg \<noteq> 0"
    and room: "unat (lh_len (log_lh lg)) + 2 < LOGSIZE" "unat (lh_len (log_lh lg)) + 2 < unat (log_size lg)"
  shows "\<exists>lg' s'. log_write buf lg s = Done (lg', s') \<and> bstore_inv d s' \<and> header_ok (log_start lg') (log_lh lg') \<and>
           homes (log_lh lg') = (if b \<in> set (homes (log_lh lg)) then homes (log_lh lg) else homes (log_lh lg) @ [b]) \<and>
           cur d s' = cur d s \<and> bca_disk s' = bca_disk s \<and>
           refs d s' = (if b \<in> set (homes (log_lh lg)) then (refs d s)(b := refs d s b - 1) else refs d s)"
proof -
  let ?k = "if b \<in> set (homes (log_lh lg)) then 1 else 2 :: nat"
  have "unat (lh_len (log_lh lg)) + ?k < LOGSIZE" "unat (lh_len (log_lh lg)) + ?k < unat (log_size lg)" using room by auto
  from log_write_records [OF inv hd h b pinned out this] show ?thesis by blast
qed

section \<open>Admission\<close>

inductive adm_step :: "log \<times> nat list \<Rightarrow> log \<times> nat list \<Rightarrow> bool" where
  admit: "begin_op lg = Some lg' \<Longrightarrow> adm_step (lg, left) (lg', MAXOPBLOCKS # left)"
| write_new: "log_write buf lg s = Done (lg', s') \<Longrightarrow> lh_len (log_lh lg') \<noteq> lh_len (log_lh lg) \<Longrightarrow>
    i < length left \<Longrightarrow> 0 < left ! i \<Longrightarrow> adm_step (lg, left) (lg', left[i := left ! i - 1])"
| write_again: "log_write buf lg s = Done (lg', s') \<Longrightarrow> lh_len (log_lh lg') = lh_len (log_lh lg) \<Longrightarrow>
    adm_step (lg, left) (lg', left)"
| finish: "end_op lg s = Done (lg', s') \<Longrightarrow> i < length left \<Longrightarrow>
    adm_step (lg, left) (lg', take i left @ drop (Suc i) left)"

inductive adm_reach :: "log \<Rightarrow> log \<times> nat list \<Rightarrow> bool" for lg0 where
  start: "adm_reach lg0 (lg0, [])"
| step: "adm_reach lg0 st \<Longrightarrow> adm_step st st' \<Longrightarrow> adm_reach lg0 st'"

inductive_cases adm_stepE: "adm_step (lg, left) st"

definition adm_inv :: "log \<times> nat list \<Rightarrow> bool" where
  "adm_inv = (\<lambda>(lg, left).
     \<not> log_committing lg \<and> length left = unat (log_outstanding lg) \<and>
     unat (lh_len (log_lh lg)) + sum_list left \<le> LOGSIZE - 1 \<and>
     unat (log_outstanding lg) * MAXOPBLOCKS < LOGSIZE \<and> (\<forall>n \<in> set left. n \<le> MAXOPBLOCKS))"

lemma log_write_outcome:
  assumes "log_write buf lg s = Done (lg', s')"
  shows "log_outstanding lg' = log_outstanding lg" "log_committing lg' = log_committing lg"
    and "log_start lg' = log_start lg" "log_size lg' = log_size lg"
    and "lh_len (log_lh lg') \<noteq> lh_len (log_lh lg) \<Longrightarrow> unat (lh_len (log_lh lg')) = unat (lh_len (log_lh lg)) + 1"
proof -
  have "log_outstanding lg' = log_outstanding lg \<and> log_committing lg' = log_committing lg \<and>
      log_start lg' = log_start lg \<and> log_size lg' = log_size lg \<and>
      (lh_len (log_lh lg') \<noteq> lh_len (log_lh lg) \<longrightarrow> lh_len (log_lh lg') = lh_len (log_lh lg) + 1 \<and>
         unat (lh_len (log_lh lg)) + 2 < LOGSIZE)"
    using assms by (auto simp: log_write_def Let_def kres_simps split: if_splits)
  moreover have "unat (lh_len (log_lh lg) + 1) = unat (lh_len (log_lh lg)) + 1" if "unat (lh_len (log_lh lg)) + 2 < LOGSIZE"
    using that by (subst unat_plus_no_overflow) (auto simp: LOGSIZE_def MAXOPBLOCKS_def)
  ultimately show "log_outstanding lg' = log_outstanding lg" "log_committing lg' = log_committing lg"
    "log_start lg' = log_start lg" "log_size lg' = log_size lg"
    "lh_len (log_lh lg') \<noteq> lh_len (log_lh lg) \<Longrightarrow> unat (lh_len (log_lh lg')) = unat (lh_len (log_lh lg)) + 1"
    by auto
qed

lemma commit_len:
  "commit lg s = Done (lg', s') \<Longrightarrow> lh_len (log_lh lg') = 0 \<and> log_outstanding lg' = log_outstanding lg"
  by (auto simp: commit_def empty_head_def Let_def kres_simps word_gt_0 split: if_splits prod.splits)

lemma adm_inv_step:
  assumes "adm_inv st" and "adm_step st st'"
  shows "adm_inv st'"
  using assms(2,1)
proof (cases rule: adm_step.cases)
  case (admit lg lg' left)
  have g: "1 + unat (lh_len (log_lh lg)) + (unat (log_outstanding lg) + 1) * MAXOPBLOCKS \<le> LOGSIZE"
    "lg' = lg\<lparr>log_outstanding := log_outstanding lg + 1\<rparr>"
    using admit(3) by (auto simp: begin_op_def split: if_splits)
  have "unat (log_outstanding lg + 1) = unat (log_outstanding lg) + 1"
    using g(1) by (subst unat_plus_no_overflow) (auto simp: LOGSIZE_def MAXOPBLOCKS_def)
  moreover have "sum_list left \<le> length left * MAXOPBLOCKS"
    using assms(1) admit(1) sum_list_mono [of left "\<lambda>x. x" "\<lambda>_. MAXOPBLOCKS"]
    by (simp add: adm_inv_def sum_list_triv)
  ultimately show ?thesis
    using assms(1) admit(1,2) g by (auto simp: adm_inv_def)
next
  case (write_new buf lg s lg' s' i left)
  have "sum_list (left[i := left ! i - 1]) = sum_list left - 1"
    using write_new(5,6) sum_list_update [of i left "left ! i - 1"] elem_le_sum_list [of i left] by simp
  moreover have "left ! i \<le> sum_list left" using write_new(5) by (rule elem_le_sum_list)
  moreover have "\<forall>n \<in> set (left[i := left ! i - 1]). n \<le> MAXOPBLOCKS"
  proof -
    have all: "\<forall>n \<in> set left. n \<le> MAXOPBLOCKS" using assms(1) write_new(1) by (simp add: adm_inv_def)
    moreover have "left ! i \<le> MAXOPBLOCKS" using all nth_mem [OF write_new(5)] by blast
    ultimately show ?thesis using set_update_subset_insert [of left i "left ! i - 1"] by auto
  qed
  ultimately show ?thesis
    using assms(1) write_new log_write_outcome [OF write_new(3)] by (auto simp: adm_inv_def)
next
  case (write_again buf lg s lg' s' left)
  then show ?thesis
    using assms(1) log_write_outcome [OF write_again(3)] by (auto simp: adm_inv_def)
next
  case (finish lg s lg' s' i left)
  let ?l = "take i left @ drop (Suc i) left"
  have e: "left = take i left @ left ! i # drop (Suc i) left" using finish(4) by (simp add: id_take_nth_drop)
  then have "sum_list left = sum_list (take i left @ left ! i # drop (Suc i) left)" by (rule arg_cong)
  then have sm: "sum_list ?l \<le> sum_list left" by simp
  have st: "set ?l \<subseteq> set left" using e by (auto dest: in_set_takeD in_set_dropD)
  have o: "log_outstanding lg \<noteq> 0" using finish(4) assms(1) finish(1) by (auto simp: adm_inv_def)
  then have ou: "unat (log_outstanding lg - 1) = unat (log_outstanding lg) - 1" by (simp add: unat_minus_one)
  have len: "length ?l = length left - 1" using finish(4) by simp
  have "unat (log_outstanding lg) * MAXOPBLOCKS < LOGSIZE" using assms(1) finish(1) by (simp add: adm_inv_def)
  then have ob: "(unat (log_outstanding lg) - 1) * MAXOPBLOCKS < LOGSIZE"
    by (rule le_less_trans [rotated]) simp
  show ?thesis
  proof (cases "log_outstanding lg - 1 = 0")
    case True
    then have "log_outstanding lg' = 0 \<and> \<not> log_committing lg' \<and> lh_len (log_lh lg') = 0"
      using finish(3) by (auto simp: end_op_def kres_simps Let_def dest!: commit_len split: if_splits)
    then show ?thesis
      using assms(1) finish(1,2) len True ou sm st by (auto simp: adm_inv_def)
  next
    case False
    then have "lg' = lg\<lparr>log_outstanding := log_outstanding lg - 1\<rparr>"
      using finish(3) by (auto simp: end_op_def kres_simps Let_def split: if_splits)
    then show ?thesis
      using assms(1) finish(1,2) len ou ob sm st by (auto simp: adm_inv_def)
  qed
qed

text \<open>
  C8 (log space): whatever operations begin, write and end, in any interleaving, at
  most two are under way, and the blocks recorded plus those the operations may still
  record fit the header; so the index at which \<^verbatim>\<open>write\<close> stores a block number is in range.
\<close>

theorem log_space_suffices:
  assumes "adm_reach lg0 (lg, left)" and "log_outstanding lg0 = 0" and "\<not> log_committing lg0"
    and "lh_len (log_lh lg0) = 0"
  shows "unat (lh_len (log_lh lg)) + sum_list left \<le> LOGSIZE - 1 \<and> unat (log_outstanding lg) \<le> 2 \<and>
         \<not> log_committing lg"
proof -
  have "adm_inv st" if "adm_reach lg0 st" for st
    using that
  proof (induction rule: adm_reach.induct)
    case start
    then show ?case using assms(2-4) by (simp add: adm_inv_def LOGSIZE_def MAXOPBLOCKS_def)
  next
    case (step st st')
    then show ?case using adm_inv_step by blast
  qed
  from this [OF assms(1)] show ?thesis by (auto simp: adm_inv_def LOGSIZE_def MAXOPBLOCKS_def)
qed

section \<open>A run that fills the log\<close>

definition log_fresh :: log where
  "log_fresh = log_uninit\<lparr>log_start := 2, log_size := 30, log_dev := 1\<rparr>"

definition blk_no :: "nat \<Rightarrow> u32" where "blk_no i = 100 + of_nat i"

lemma unat_blk_no: "i < 100 \<Longrightarrow> unat (blk_no i) = 100 + i"
  unfolding blk_no_def by (subst unat_plus_no_overflow) (auto simp: unat_of_nat)

lemma blk_no_eq: "i < 100 \<Longrightarrow> j < 100 \<Longrightarrow> blk_no i = blk_no j \<longleftrightarrow> i = j"
  by (metis unat_blk_no add_left_cancel)

lemma blk_no_home: "i < 100 \<Longrightarrow> blk_no i \<notin> log_area 2"
proof -
  assume i: "i < 100"
  have "unat (blk_no i) \<noteq> unat (slotn 2 k)" if "k < LOGSIZE - 1" for k
    unfolding unat_slotn [OF log_one_area(1) that] unat_blk_no [OF i]
    using that by (simp add: LOGSIZE_def MAXOPBLOCKS_def)
  moreover have "unat (blk_no i) \<noteq> unat (2 :: u32)" unfolding unat_blk_no [OF i] by simp
  ultimately show ?thesis unfolding log_area_def by force
qed

text \<open>The log holds the first \<open>n\<close> of these blocks, each pinned once in the cache.\<close>

definition filled :: "nat \<Rightarrow> log \<Rightarrow> bcache \<Rightarrow> bool" where
  "filled n lg s \<longleftrightarrow> log_start lg = 2 \<and> log_size lg = 30 \<and> \<not> log_committing lg \<and> header_ok 2 (log_lh lg) \<and>
     homes (log_lh lg) = map blk_no [0..<n] \<and> bstore_inv 1 s \<and> refs 1 s = (\<lambda>b. if b \<in> blk_no ` {..<n} then 1 else 0)"

lemma filled_len: "filled n lg s \<Longrightarrow> unat (lh_len (log_lh lg)) = n"
proof -
  assume f: "filled n lg s"
  then have "length (homes (log_lh lg)) = n" by (simp add: filled_def)
  moreover have "unat (lh_len (log_lh lg)) \<le> length (lh_blocknos (log_lh lg))"
    using f by (simp add: filled_def header_ok_def)
  ultimately show ?thesis by (simp add: homes_def)
qed

lemma filled_bread:
  assumes f: "filled n lg s" and n: "n < NBUF"
  obtains buf s1 where "bread 1 (blk_no n) s = Done (buf, s1)" "bstore_inv 1 s1" "holds 1 s1 buf (blk_no n)"
    "refs 1 s1 = (refs 1 s)(blk_no n := 1)"
proof -
  have "{b. 0 < refs 1 s b} = blk_no ` {..<n}" using f by (auto simp: filled_def)
  then have c: "card {b. 0 < refs 1 s b} < NBUF" using card_image_le [of "{..<n}" blk_no] n by simp
  have "blk_no n \<notin> blk_no ` {..<n}" using blk_no_eq n by (auto simp: NBUF_def MAXOPBLOCKS_def)
  then have z: "refs 1 s (blk_no n) = 0" using f by (simp add: filled_def)
  have "bstore_inv 1 s" using f by (simp add: filled_def)
  from bc.rd_law [OF this, of "blk_no n"] c z show thesis using that by auto
qed

lemma filled_write:
  assumes f: "filled n lg s" and n: "n < 28" and o: "log_outstanding lg \<noteq> 0"
    and i: "i < length left" and l: "0 < left ! i"
  obtains lg' s' where "filled (Suc n) lg' s'" "log_outstanding lg' = log_outstanding lg"
    "adm_step (lg, left) (lg', left[i := left ! i - 1])"
proof -
  obtain buf s1 where b: "bread 1 (blk_no n) s = Done (buf, s1)" "bstore_inv 1 s1" "holds 1 s1 buf (blk_no n)"
    "refs 1 s1 = (refs 1 s)(blk_no n := 1)"
    using filled_bread [OF f] n by (auto simp: NBUF_def MAXOPBLOCKS_def)
  have lg: "log_start lg = 2" "log_size lg = 30" "\<not> log_committing lg" "header_ok (log_start lg) (log_lh lg)"
    "homes (log_lh lg) = map blk_no [0..<n]" using f by (simp_all add: filled_def)
  have new: "blk_no n \<notin> set (homes (log_lh lg))" using blk_no_eq n by (auto simp: lg(5))
  have r: "unat (lh_len (log_lh lg)) + (if blk_no n \<in> set (homes (log_lh lg)) then 1 else 2) < LOGSIZE"
    "unat (lh_len (log_lh lg)) + (if blk_no n \<in> set (homes (log_lh lg)) then 1 else 2) < unat (log_size lg)"
    using n by (simp_all add: filled_len [OF f] lg(2) LOGSIZE_def MAXOPBLOCKS_def)
  have "blk_no n \<notin> log_area (log_start lg)" using blk_no_home n by (simp add: lg(1))
  from log_write_records [OF b(2) lg(4) b(3) this _ o r] new obtain lg' s' where
    w: "log_write buf lg s1 = Done (lg', s')" "bstore_inv 1 s'" "header_ok (log_start lg') (log_lh lg')"
    "homes (log_lh lg') = homes (log_lh lg) @ [blk_no n]" "refs 1 s' = refs 1 s1" by auto
  note out = log_write_outcome [OF w(1)]
  have fl: "filled (Suc n) lg' s'"
    using w out lg b(4) f by (simp add: filled_def lessThan_Suc fun_eq_iff)
  have "lh_len (log_lh lg') \<noteq> lh_len (log_lh lg)" using filled_len [OF f] filled_len [OF fl] by auto
  from that [OF fl out(1) adm_step.write_new [OF w(1) this i l]] show thesis .
qed

lemma filled_writes:
  assumes "filled n lg s" and "n + k \<le> 28" and "log_outstanding lg \<noteq> 0"
    and "i < length left" and "k \<le> left ! i" and "adm_reach lg0 (lg, left)"
  shows "\<exists>lg' s'. filled (n + k) lg' s' \<and> log_outstanding lg' = log_outstanding lg \<and>
    adm_reach lg0 (lg', left[i := left ! i - k])"
  using assms
proof (induction k arbitrary: n lg s left)
  case 0
  then show ?case by auto
next
  case (Suc k)
  obtain lg1 s1 where s1: "filled (Suc n) lg1 s1" "log_outstanding lg1 = log_outstanding lg"
    "adm_step (lg, left) (lg1, left[i := left ! i - 1])"
    by (rule filled_write [OF Suc.prems(1) _ Suc.prems(3,4)]) (use Suc.prems in auto)
  have "\<exists>lg' s'. filled (Suc n + k) lg' s' \<and> log_outstanding lg' = log_outstanding lg1 \<and>
    adm_reach lg0 (lg', (left[i := left ! i - 1])[i := (left[i := left ! i - 1]) ! i - k])"
    using Suc.prems s1 adm_reach.step [OF Suc.prems(6) s1(3)] by (intro Suc.IH [OF s1(1)]) auto
  then show ?case using Suc.prems(4) s1(2) by simp
qed

text \<open>Beginning and ending an operation leave the cache and the header as they are.\<close>

lemma filled_begin:
  assumes "filled n lg s" and "1 + n + (unat (log_outstanding lg) + 1) * MAXOPBLOCKS \<le> LOGSIZE"
    and "adm_reach lg0 (lg, left)"
  shows "filled n (lg\<lparr>log_outstanding := log_outstanding lg + 1\<rparr>) s \<and>
    adm_reach lg0 (lg\<lparr>log_outstanding := log_outstanding lg + 1\<rparr>, MAXOPBLOCKS # left)"
proof -
  have "begin_op lg = Some (lg\<lparr>log_outstanding := log_outstanding lg + 1\<rparr>)"
    using assms(2) filled_len [OF assms(1)] assms(1) by (simp add: begin_op_def filled_def)
  from adm_reach.step [OF assms(3) adm_step.admit [OF this]] show ?thesis
    using assms(1) by (simp add: filled_def)
qed

lemma filled_end:
  assumes "filled n lg s" and "1 < unat (log_outstanding lg)" and "i < length left" and "adm_reach lg0 (lg, left)"
  shows "filled n (lg\<lparr>log_outstanding := log_outstanding lg - 1\<rparr>) s \<and>
    adm_reach lg0 (lg\<lparr>log_outstanding := log_outstanding lg - 1\<rparr>, take i left @ drop (Suc i) left)"
proof -
  have "log_outstanding lg \<noteq> 1" using assms(2) by auto
  then have "log_outstanding lg - 1 \<noteq> 0" by simp
  moreover have "u32_sub (log_outstanding lg) 1 = Done (log_outstanding lg - 1)"
    using assms(2) by (simp add: u32_sub_def word_le_nat_alt)
  ultimately have "end_op lg s = Done (lg\<lparr>log_outstanding := log_outstanding lg - 1\<rparr>, s)"
    using assms(1) by (simp add: end_op_def filled_def)
  from adm_reach.step [OF assms(4) adm_step.finish [OF this assms(3)]] show ?thesis
    using assms(1) by (simp add: filled_def)
qed

lemma filled_fresh: "\<exists>s. filled 0 log_fresh s"
proof -
  have "header_ok 2 (log_lh log_fresh)"
    by (simp add: header_ok_def homes_def log_fresh_def log_uninit_def LOGSIZE_def)
  then have "filled 0 log_fresh (binit (bcache_new (\<lambda>_. replicate BSIZE 0)))"
    using boot_cache [of 1 "\<lambda>_. replicate BSIZE 0"] by (simp add: filled_def) (simp add: log_fresh_def log_uninit_def homes_def)
  then show ?thesis by blast
qed

text \<open>
  Two operations begin, the first records nine blocks and ends, a third is admitted, and
  the two record ten and nine blocks: twenty-eight recorded, one write left to the third.
\<close>

lemma full_run:
  "\<exists>lg s. filled 28 lg s \<and> log_outstanding lg = 2 \<and> adm_reach log_fresh (lg, [1, 0])"
proof -
  obtain s0 where f0: "filled 0 log_fresh s0" using filled_fresh by blast
  have o0: "log_outstanding log_fresh = 0" by (simp add: log_fresh_def log_uninit_def)
  define l1 where "l1 = log_fresh\<lparr>log_outstanding := 1\<rparr>"
  have f1: "filled 0 l1 s0" "adm_reach log_fresh (l1, [10])"
    using filled_begin [OF f0 _ adm_reach.start] by (simp_all add: o0 l1_def LOGSIZE_def MAXOPBLOCKS_def)
  define l2 where "l2 = l1\<lparr>log_outstanding := 2\<rparr>"
  have f2: "filled 0 l2 s0" "adm_reach log_fresh (l2, [10, 10])"
    using filled_begin [OF f1(1) _ f1(2)] by (simp_all add: l2_def l1_def LOGSIZE_def MAXOPBLOCKS_def)
  obtain l3 s3 where f3: "filled 9 l3 s3" "log_outstanding l3 = 2" "adm_reach log_fresh (l3, [10, 1])"
    using filled_writes [OF f2(1) _ _ _ _ f2(2), of 9 1] by (auto simp: l2_def)
  define l4 where "l4 = l3\<lparr>log_outstanding := 1\<rparr>"
  have f4: "filled 9 l4 s3" "adm_reach log_fresh (l4, [10])"
    using filled_end [OF f3(1) _ _ f3(3), of 1] by (simp_all add: l4_def f3(2))
  define l5 where "l5 = l4\<lparr>log_outstanding := 2\<rparr>"
  have f5: "filled 9 l5 s3" "adm_reach log_fresh (l5, [10, 10])"
    using filled_begin [OF f4(1) _ f4(2)] by (simp_all add: l5_def l4_def LOGSIZE_def MAXOPBLOCKS_def)
  obtain l6 s6 where f6: "filled 19 l6 s6" "log_outstanding l6 = 2" "adm_reach log_fresh (l6, [10, 0])"
    using filled_writes [OF f5(1) _ _ _ _ f5(2), of 10 1] by (auto simp: l5_def)
  then show ?thesis using filled_writes [OF f6(1) _ _ _ _ f6(3), of 9 0] by (auto simp: f6(2))
qed

theorem log_write_correct_witness:
  "\<exists>lg s buf. filled 0 lg s \<and> (\<exists>s1 lg' s'. bread 1 (blk_no 0) s = Done (buf, s1) \<and>
     log_write buf lg s1 = Done (lg', s') \<and> homes (log_lh lg') = [100] \<and> refs 1 s' (blk_no 0) = 1)"
proof -
  obtain s0 where f0: "filled 0 log_fresh s0" using filled_fresh by blast
  define lg where "lg = log_fresh\<lparr>log_outstanding := 1\<rparr>"
  have f: "filled 0 lg s0" using f0 by (simp add: lg_def filled_def)
  obtain buf s1 where b: "bread 1 (blk_no 0) s0 = Done (buf, s1)" "bstore_inv 1 s1" "holds 1 s1 buf (blk_no 0)"
    "refs 1 s1 = (refs 1 s0)(blk_no 0 := 1)" using filled_bread [OF f] by (auto simp: NBUF_def MAXOPBLOCKS_def)
  have lg: "log_start lg = 2" "log_size lg = 30" "header_ok (log_start lg) (log_lh lg)" "homes (log_lh lg) = []"
    using f by (simp_all add: filled_def)
  have "\<exists>lg' s'. log_write buf lg s1 = Done (lg', s') \<and> homes (log_lh lg') = [blk_no 0] \<and> refs 1 s' (blk_no 0) = 1"
    using log_write_correct [OF b(2) lg(3) b(3)] blk_no_home [of 0] filled_len [OF f] b(4) lg
    by (auto simp: lg_def LOGSIZE_def MAXOPBLOCKS_def)
  then show ?thesis using f b(1) by (intro exI [of _ lg] exI [of _ s0] exI [of _ buf]) (auto simp: blk_no_def)
qed

theorem log_space_suffices_witness:
  "\<exists>lg. adm_reach log_fresh (lg, [1, 0]) \<and> unat (lh_len (log_lh lg)) + 1 \<le> LOGSIZE - 1"
proof -
  obtain lg s where r: "adm_reach log_fresh (lg, [1, 0])" using full_run by blast
  show ?thesis using r log_space_suffices [OF r] by (auto simp: log_fresh_def log_uninit_def)
qed

text \<open>
  C39 (the last block of the budget): \<^verbatim>\<open>begin_op\<close> admits operations while the header has room
  for twenty-nine blocks, but \<^verbatim>\<open>write\<close> stops at twenty-eight. From an empty log a run of
  admitted operations, none over its \<^verbatim>\<open>MAXOPBLOCKS\<close>, reaches a state in which an operation
  that holds a buffer of a new block, with one write left, panics the kernel.
\<close>

theorem log_budget_overrun_panics:
  "\<exists>lg left i s buf b. adm_reach log_fresh (lg, left) \<and> i < length left \<and> 0 < left ! i \<and>
     bstore_inv 1 s \<and> holds 1 s buf b \<and> b \<notin> log_area (log_start lg) \<and> b \<notin> set (homes (log_lh lg)) \<and>
     log_write buf lg s = Panicked ''log: not enough space for this transaction''"
proof -
  obtain lg s where f: "filled 28 lg s" "log_outstanding lg = 2" "adm_reach log_fresh (lg, [1, 0])"
    using full_run by blast
  obtain buf s1 where b: "bstore_inv 1 s1" "holds 1 s1 buf (blk_no 28)"
    by (rule filled_bread [OF f(1)]) (auto simp: NBUF_def MAXOPBLOCKS_def)
  have h: "homes (log_lh lg) = map blk_no [0..<28]" "log_size lg = 30" "log_start lg = 2"
    using f(1) by (simp_all add: filled_def)
  have new: "blk_no 28 \<notin> set (homes (log_lh lg))" by (auto simp: h(1) blk_no_eq)
  moreover have "b_blockno buf = blk_no 28" using b(2) by (simp add: holds_def)
  ultimately have "log_write buf lg s1 = Panicked ''log: not enough space for this transaction''"
    using f(2) by (simp add: log_write_def Let_def filled_len [OF f(1)] h(2) LOGSIZE_def MAXOPBLOCKS_def homes_def)
  then show ?thesis
    using f(3) b new blk_no_home [of 28] h(3)
    by (intro exI [of _ lg] exI [of _ "[1, 0]"] exI [of _ 0] exI [of _ s1] exI [of _ buf] exI [of _ "blk_no 28"]) simp
qed

end
