(* ===== verification/Txn.thy ===== *)
theory Txn
  imports LogOps
begin

text \<open>
  The block layer as the file system sees it inside a transaction: between \<^verbatim>\<open>LOG.begin_op\<close> and
  \<^verbatim>\<open>LOG.end_op\<close> it reads blocks with \<^verbatim>\<open>BCACHE.bread\<close>, drops them, and changes a buffer and passes
  it to \<^verbatim>\<open>LOG.write\<close>. The state is the log and the cache. The locale \<open>log_store\<close> is the
  contract; \<open>tx_ok d t H n\<close> says that exactly the buffers in \<open>H\<close> are held and that \<open>n\<close> more
  blocks can be recorded.
\<close>

section \<open>Operations\<close>

type_synonym tstate = "log \<times> bcache"

definition tx_bread :: "u32 \<Rightarrow> u32 \<Rightarrow> tstate \<Rightarrow> (buf \<times> tstate) kres" where
  "tx_bread dev blockno = (\<lambda>(lg, s). kbind (bread dev blockno s) (\<lambda>(buf, s1). Done (buf, (lg, s1))))"

definition tx_data :: "buf \<Rightarrow> tstate \<Rightarrow> block" where
  "tx_data buf = (\<lambda>(lg, s). raw_data buf s)"

definition tx_drop :: "buf \<Rightarrow> tstate \<Rightarrow> tstate kres" where
  "tx_drop buf = (\<lambda>(lg, s). kbind (buf_drop buf s) (\<lambda>s1. Done (lg, s1)))"

text \<open>A new value for a buffer through \<^verbatim>\<open>raw_data_mut\<close>, then \<^verbatim>\<open>LOG.write\<close>.\<close>

definition tx_write :: "buf \<Rightarrow> block \<Rightarrow> tstate \<Rightarrow> tstate kres" where
  "tx_write buf v = (\<lambda>(lg, s). log_write buf lg (raw_data_mut buf v s))"

section \<open>The contract\<close>

locale log_store =
  fixes ok :: "'s \<Rightarrow> ('h \<times> u32) set \<Rightarrow> nat \<Rightarrow> bool"
    and cont :: "'s \<Rightarrow> u32 \<Rightarrow> block"
    and logged :: "'s \<Rightarrow> u32 set"
    and area :: "'s \<Rightarrow> u32 set"
    and rd :: "u32 \<Rightarrow> 's \<Rightarrow> ('h \<times> 's) kres"
    and get :: "'h \<Rightarrow> 's \<Rightarrow> block"
    and rel :: "'h \<Rightarrow> 's \<Rightarrow> 's kres"
    and wr :: "'h \<Rightarrow> block \<Rightarrow> 's \<Rightarrow> 's kres"
  assumes rd_law: "ok s H n \<Longrightarrow> b \<notin> snd ` H \<Longrightarrow> card H \<le> Suc n \<Longrightarrow>
      \<exists>h s'. rd b s = Done (h, s') \<and> ok s' (insert (h, b) H) n \<and> cont s' = cont s \<and> logged s' = logged s \<and> area s' = area s"
    and get_law: "ok s H n \<Longrightarrow> (h, b) \<in> H \<Longrightarrow> get h s = cont s b"
    and rel_law: "ok s H n \<Longrightarrow> (h, b) \<in> H \<Longrightarrow>
      \<exists>s'. rel h s = Done s' \<and> ok s' (H - {(h, b)}) n \<and> cont s' = cont s \<and> logged s' = logged s \<and> area s' = area s"
    and wr_law: "ok s H n \<Longrightarrow> (h, b) \<in> H \<Longrightarrow> b \<notin> area s \<Longrightarrow> b \<in> logged s \<or> 0 < n \<Longrightarrow> length v = BSIZE \<Longrightarrow>
      \<exists>s'. wr h v s = Done s' \<and> ok s' (H - {(h, b)}) (if b \<in> logged s then n else n - 1) \<and>
        cont s' = (cont s)(b := v) \<and> logged s' = insert b (logged s) \<and> area s' = area s"
    and held_distinct: "ok s H n \<Longrightarrow> inj_on snd H \<and> finite H"
    and ok_mono: "ok s H n \<Longrightarrow> k \<le> n \<Longrightarrow> ok s H k"
    and block_length: "ok s H n \<Longrightarrow> length (cont s b) = BSIZE"
begin

lemma fresh_handle: "b \<notin> snd ` H \<Longrightarrow> insert (h, b) H - {(h, b)} = H"
  by force

text \<open>Looking at a block.\<close>

lemma peek:
  assumes "ok s H n" and "b \<notin> snd ` H" and "card H \<le> Suc n"
  shows "\<exists>h s1 s'. rd b s = Done (h, s1) \<and> get h s1 = cont s b \<and> rel h s1 = Done s' \<and> ok s' H n \<and> cont s' = cont s \<and>
           logged s' = logged s \<and> area s' = area s"
proof -
  obtain h s1 where s1: "rd b s = Done (h, s1)" "ok s1 (insert (h, b) H) n" "cont s1 = cont s" "logged s1 = logged s" "area s1 = area s"
    using rd_law [OF assms] by blast
  have "get h s1 = cont s b" using get_law [OF s1(2)] s1(3) by simp
  moreover obtain s' where "rel h s1 = Done s'" "ok s' (insert (h, b) H - {(h, b)}) n" "cont s' = cont s1"
    "logged s' = logged s1" "area s' = area s1" using rel_law [OF s1(2), of h b] by blast
  ultimately show ?thesis using s1 fresh_handle [OF assms(2), of h] by auto
qed

text \<open>Changing a block and recording it.\<close>

lemma modify:
  assumes "ok s H n" and "b \<notin> snd ` H" and "card H \<le> Suc n" and "b \<notin> area s" and "b \<in> logged s \<or> 0 < n"
    and "\<And>v. length v = BSIZE \<Longrightarrow> length (f v) = BSIZE"
  shows "\<exists>h s1 s'. rd b s = Done (h, s1) \<and> get h s1 = cont s b \<and> wr h (f (cont s b)) s1 = Done s' \<and>
           ok s' H (if b \<in> logged s then n else n - 1) \<and>
           cont s' = (cont s)(b := f (cont s b)) \<and> logged s' = insert b (logged s) \<and> area s' = area s"
proof -
  obtain h s1 where s1: "rd b s = Done (h, s1)" "ok s1 (insert (h, b) H) n" "cont s1 = cont s" "logged s1 = logged s" "area s1 = area s"
    using rd_law [OF assms(1-3)] by blast
  have g: "get h s1 = cont s b" using get_law [OF s1(2)] s1(3) by simp
  have l: "length (f (cont s b)) = BSIZE" using assms(6) block_length [OF assms(1)] by blast
  obtain s' where "wr h (f (cont s b)) s1 = Done s'" "ok s' (insert (h, b) H - {(h, b)}) (if b \<in> logged s then n else n - 1)"
    "cont s' = (cont s)(b := f (cont s b))" "logged s' = insert b (logged s)" "area s' = area s"
    using wr_law [OF s1(2) insertI1 _ _ l] assms(4,5) s1(3-5) by metis
  then show ?thesis using s1(1) g fresh_handle [OF assms(2), of h] by auto
qed

end

section \<open>The log implements it\<close>

definition tx_ok :: "u32 \<Rightarrow> tstate \<Rightarrow> (buf \<times> u32) set \<Rightarrow> nat \<Rightarrow> bool" where
  "tx_ok d = (\<lambda>(lg, s) H n.
     bstore_inv d s \<and> header_ok (log_start lg) (log_lh lg) \<and> log_outstanding lg \<noteq> 0 \<and>
     unat (lh_len (log_lh lg)) + n + 1 < LOGSIZE \<and> unat (lh_len (log_lh lg)) + n + 1 < unat (log_size lg) \<and>
     finite H \<and> inj_on snd H \<and> (\<forall>(h, b) \<in> H. holds d s h b) \<and>
     refs d s = (\<lambda>b. of_bool (b \<in> set (homes (log_lh lg))) + of_bool (b \<in> snd ` H)) \<and>
     (\<forall>b. b \<notin> set (homes (log_lh lg)) \<longrightarrow> cur d s b = bca_disk s b) \<and> (\<forall>b. length (cur d s b) = BSIZE))"

definition tx_cont :: "u32 \<Rightarrow> tstate \<Rightarrow> u32 \<Rightarrow> block" where
  "tx_cont d = (\<lambda>(lg, s). cur d s)"

definition tx_logged :: "tstate \<Rightarrow> u32 set" where
  "tx_logged = (\<lambda>(lg, s). set (homes (log_lh lg)))"

definition tx_area :: "tstate \<Rightarrow> u32 set" where
  "tx_area = (\<lambda>(lg, s). log_area (log_start lg))"

lemmas tx_defs = tx_ok_def tx_cont_def tx_logged_def tx_area_def tx_bread_def tx_data_def tx_drop_def tx_write_def

lemma tx_refs_card:
  assumes "tx_ok d (lg, s) H n"
  shows "{b. 0 < refs d s b} = set (homes (log_lh lg)) \<union> snd ` H" "card {b. 0 < refs d s b} \<le> unat (lh_len (log_lh lg)) + card H"
proof -
  show e: "{b. 0 < refs d s b} = set (homes (log_lh lg)) \<union> snd ` H" using assms by (auto simp: tx_ok_def)
  have "card (set (homes (log_lh lg))) \<le> unat (lh_len (log_lh lg))"
    using card_length [of "homes (log_lh lg)"] by (simp add: homes_def)
  moreover have "card (snd ` H) \<le> card H" using assms by (intro card_image_le) (simp add: tx_ok_def)
  ultimately show "card {b. 0 < refs d s b} \<le> unat (lh_len (log_lh lg)) + card H"
    unfolding e using card_Un_le [of "set (homes (log_lh lg))" "snd ` H"] by linarith
qed

lemma tx_rd_law:
  assumes ok: "tx_ok d t H n" and b: "b \<notin> snd ` H" and c: "card H \<le> Suc n"
  shows "\<exists>h t'. tx_bread d b t = Done (h, t') \<and> tx_ok d t' (insert (h, b) H) n \<and> tx_cont d t' = tx_cont d t \<and>
    tx_logged t' = tx_logged t \<and> tx_area t' = tx_area t"
proof -
  obtain lg s where t: "t = (lg, s)" by force
  have i: "bstore_inv d s" using ok by (simp add: t tx_ok_def)
  have "card {x. 0 < refs d s x} < NBUF"
    using tx_refs_card(2) [OF ok [unfolded t]] ok c by (simp add: t tx_ok_def LOGSIZE_def NBUF_def)
  with bc.rd_law [OF i, of b] obtain h s' where s': "bread d b s = Done (h, s')" "bstore_inv d s'" "holds d s' h b"
    "cur d s' = cur d s" "bca_disk s' = bca_disk s" "refs d s' = (refs d s)(b := Suc (refs d s b))"
    "\<forall>h' b'. holds d s h' b' \<longrightarrow> holds d s' h' b'" by blast
  have "refs d s' = (\<lambda>x. of_bool (x \<in> set (homes (log_lh lg))) + of_bool (x \<in> snd ` insert (h, b) H))"
    using ok b s'(6) by (auto simp: t tx_ok_def fun_eq_iff)
  then have "tx_ok d (lg, s') (insert (h, b) H) n"
    using ok s'(2-5,7) b by (auto simp: t tx_ok_def inj_on_insert intro: rev_image_eqI)
  then show ?thesis using s'(1,4) by (auto simp: t tx_bread_def tx_cont_def tx_logged_def tx_area_def)
qed

lemma tx_other:
  assumes "tx_ok d t H n" and "(h, b) \<in> H" and "(h', b') \<in> H - {(h, b)}"
  shows "holds d (snd t) h' b'" "b' \<noteq> b"
proof -
  show "holds d (snd t) h' b'" using assms(1,3) by (auto simp: tx_ok_def split: prod.splits)
  have "inj_on snd H" using assms(1) by (auto simp: tx_ok_def split: prod.splits)
  then show "b' \<noteq> b" using assms(2,3) inj_onD [of snd H "(h, b)" "(h', b')"] by auto
qed

lemma tx_rel_law:
  assumes ok: "tx_ok d t H n" and h: "(h, b) \<in> H"
  shows "\<exists>t'. tx_drop h t = Done t' \<and> tx_ok d t' (H - {(h, b)}) n \<and> tx_cont d t' = tx_cont d t \<and>
    tx_logged t' = tx_logged t \<and> tx_area t' = tx_area t"
proof -
  obtain lg s where t: "t = (lg, s)" by force
  have i: "bstore_inv d s" "holds d s h b" using ok h by (auto simp: t tx_ok_def)
  have bm: "b \<in> snd ` H" using h by force
  then have "refs d s b = 1 \<longrightarrow> cur d s b = bca_disk s b" using ok by (auto simp: t tx_ok_def)
  from bc.rel_law [OF i this] obtain s' where s': "buf_drop h s = Done s'" "bstore_inv d s'" "cur d s' = cur d s"
    "bca_disk s' = bca_disk s" "refs d s' = (refs d s)(b := refs d s b - 1)"
    "\<forall>h' b'. holds d s h' b' \<and> (b' \<noteq> b \<or> 1 < refs d s b) \<longrightarrow> holds d s' h' b'" by blast
  have inj: "inj_on snd H" using ok by (simp add: t tx_ok_def)
  then have bn: "snd ` (H - {(h, b)}) = snd ` H - {b}" using inj_on_image_set_diff [of snd H H "{(h, b)}"] h by auto
  have rf: "refs d s = (\<lambda>x. of_bool (x \<in> set (homes (log_lh lg))) + of_bool (x \<in> snd ` H))" using ok by (simp add: t tx_ok_def)
  have "refs d s' = (\<lambda>x. of_bool (x \<in> set (homes (log_lh lg))) + of_bool (x \<in> snd ` (H - {(h, b)})))"
    unfolding s'(5) rf bn using bm by (intro ext) simp
  moreover have "holds d s' h' b'" if "(h', b') \<in> H - {(h, b)}" for h' b'
    using tx_other [OF ok h that] s'(6) by (simp add: t)
  then have "\<forall>(h', b') \<in> H - {(h, b)}. holds d s' h' b'" by blast
  ultimately have "tx_ok d (lg, s') (H - {(h, b)}) n"
    using ok s'(2-4) inj_on_subset [OF inj, of "H - {(h, b)}"] by (simp add: t tx_ok_def)
  then show ?thesis using s'(1,3) by (auto simp: t tx_drop_def tx_cont_def tx_logged_def tx_area_def)
qed

lemma tx_wr_law:
  assumes ok: "tx_ok d t H n" and h: "(h, b) \<in> H" and a: "b \<notin> tx_area t" and room: "b \<in> tx_logged t \<or> 0 < n"
    and v: "length v = BSIZE"
  shows "\<exists>t'. tx_write h v t = Done t' \<and> tx_ok d t' (H - {(h, b)}) (if b \<in> tx_logged t then n else n - 1) \<and>
    tx_cont d t' = (tx_cont d t)(b := v) \<and> tx_logged t' = insert b (tx_logged t) \<and> tx_area t' = tx_area t"
proof -
  obtain lg s where t: "t = (lg, s)" by force
  let ?s = "raw_data_mut h v s" and ?P = "set (homes (log_lh lg))" and ?len = "unat (lh_len (log_lh lg))"
  have i: "bstore_inv d s" "holds d s h b" using ok h by (auto simp: t tx_ok_def)
  have p: "bstore_inv d ?s" "cur d ?s = (cur d s)(b := v)" "bca_disk ?s = bca_disk s" "refs d ?s = refs d s"
    "\<And>h' b'. holds d s h' b' \<Longrightarrow> holds d ?s h' b'" using bc.put_law [OF i, of v] by auto
  have bm: "b \<in> snd ` H" using h by force
  then have "b \<in> ?P \<longrightarrow> 2 \<le> refs d ?s b" using ok by (simp add: t tx_ok_def p(4))
  moreover have "?len + (if b \<in> ?P then 1 else 2) < LOGSIZE" "?len + (if b \<in> ?P then 1 else 2) < unat (log_size lg)"
    using ok room by (auto simp: t tx_ok_def tx_logged_def)
  moreover have hd: "header_ok (log_start lg) (log_lh lg)" "log_outstanding lg \<noteq> 0" "b \<notin> log_area (log_start lg)"
    using ok a by (simp_all add: t tx_ok_def tx_area_def)
  ultimately obtain lg' s' where w: "log_write h lg ?s = Done (lg', s')" "bstore_inv d s'" "header_ok (log_start lg') (log_lh lg')"
    "homes (log_lh lg') = (if b \<in> ?P then homes (log_lh lg) else homes (log_lh lg) @ [b])"
    "cur d s' = cur d ?s" "bca_disk s' = bca_disk ?s"
    "refs d s' = (if b \<in> ?P then (refs d ?s)(b := refs d ?s b - 1) else refs d ?s)"
    "\<forall>h' b'. holds d ?s h' b' \<and> b' \<noteq> b \<longrightarrow> holds d s' h' b'"
    using log_write_records [OF p(1) hd(1) p(5) [OF i(2)] hd(3) _ hd(2)] by blast
  note out = log_write_outcome [OF w(1)]
  have len: "unat (lh_len (log_lh lg')) = (if b \<in> ?P then ?len else ?len + 1)"
    using length_homes [OF w(3)] length_homes [OF hd(1)] w(4) by (simp split: if_splits)
  have inj: "inj_on snd H" using ok by (simp add: t tx_ok_def)
  then have bn: "snd ` (H - {(h, b)}) = snd ` H - {b}" using inj_on_image_set_diff [of snd H H "{(h, b)}"] h by auto
  have P': "set (homes (log_lh lg')) = insert b ?P" using w(4) by auto
  have rf: "refs d s = (\<lambda>x. of_bool (x \<in> ?P) + of_bool (x \<in> snd ` H))" using ok by (simp add: t tx_ok_def)
  have "refs d s' = (\<lambda>x. of_bool (x \<in> set (homes (log_lh lg'))) + of_bool (x \<in> snd ` (H - {(h, b)})))"
    unfolding w(7) p(4) rf bn P' using bm by (intro ext) auto
  moreover have "holds d s' h' b'" if "(h', b') \<in> H - {(h, b)}" for h' b'
    using tx_other [OF ok h that] w(8) p(5) by (simp add: t)
  then have "\<forall>(h', b') \<in> H - {(h, b)}. holds d s' h' b'" by blast
  moreover have "\<forall>x. x \<notin> set (homes (log_lh lg')) \<longrightarrow> cur d s' x = bca_disk s' x"
    using ok by (auto simp: t tx_ok_def P' w(5,6) p(2,3))
  moreover have "\<forall>x. length (cur d s' x) = BSIZE" using ok v by (simp add: t tx_ok_def w(5) p(2))
  ultimately have "tx_ok d (lg', s') (H - {(h, b)}) (if b \<in> ?P then n else n - 1)"
    using ok w(2,3) out len room inj_on_subset [OF inj, of "H - {(h, b)}"] by (auto simp: t tx_ok_def tx_logged_def)
  then show ?thesis using w(1,5) p(2) P' out(3) by (auto simp: t tx_write_def tx_cont_def tx_logged_def tx_area_def)
qed

interpretation tx: log_store "tx_ok d" "tx_cont d" tx_logged tx_area "tx_bread d" tx_data tx_drop tx_write
proof unfold_locales
  show "tx_data h t = tx_cont d t b" if "tx_ok d t H n" "(h, b) \<in> H" for t H n h b
    using that bc.get_law by (force simp: tx_ok_def tx_data_def tx_cont_def split: prod.splits)
qed (rule tx_rd_law tx_rel_law tx_wr_law; assumption | auto simp: tx_ok_def tx_cont_def)+

end
