(* ===== verification/FsLayout.thy ===== *)
theory FsLayout
  imports Txn Buddy
begin

text \<open>
  What is stored on disk: the superblock (\<^verbatim>\<open>kernel/src/fs/superblock.rs\<close>), disk inodes and
  directory entries (\<^verbatim>\<open>kernel/src/fs/inode.rs\<close>). The structures are \<^verbatim>\<open>repr(C)\<close> and the code reads and
  writes them through pointers into a block, so they are sequences of little-endian words. A
  tag that is no \<^verbatim>\<open>InodeType\<close> is undefined behaviour.
\<close>

unbundle bit_operations_syntax

section \<open>Constants\<close>

definition FSMAGIC :: u32 where "FSMAGIC = 0x10203040"
definition BPB :: nat where "BPB = BSIZE * 8"
definition NINODE :: nat where "NINODE = 50"
definition NDIRECT :: nat where "NDIRECT = 12"
definition NINDIRECT :: nat where "NINDIRECT = BSIZE div 4"
definition MAX_DIR_SIZE :: nat where "MAX_DIR_SIZE = 14"
definition MAX_FILE_SIZE :: nat where "MAX_FILE_SIZE = (NDIRECT + NINDIRECT) * BSIZE"
definition ROOTDEV :: u32 where "ROOTDEV = 1"
definition ROOTINUM :: u32 where "ROOTINUM = 1"
definition IPB :: nat where "IPB = BSIZE div 64"

lemmas fs_consts = BPB_def NINODE_def NDIRECT_def NINDIRECT_def MAX_DIR_SIZE_def MAX_FILE_SIZE_def IPB_def BSIZE_def

section \<open>Bytes of a block\<close>

definition le16 :: "u16 \<Rightarrow> u8 list" where
  "le16 w = [ucast w, ucast (drop_bit 8 w)]"

definition of_le16 :: "u8 list \<Rightarrow> u16" where
  "of_le16 bs = ucast (bs ! 0) OR push_bit 8 (ucast (bs ! 1))"

definition put_bytes :: "nat \<Rightarrow> u8 list \<Rightarrow> block \<Rightarrow> block" where
  "put_bytes off bs blk = take off blk @ bs @ drop (off + length bs) blk"

definition read_u32 :: "block \<Rightarrow> nat \<Rightarrow> u32" where
  "read_u32 blk k = of_le32 (drop (4 * k) blk)"

section \<open>The superblock\<close>

record raw_super_block =
  sb_magic :: u32
  sb_size :: u32
  sb_nblocks :: u32
  sb_ninodes :: u32
  sb_nlog :: u32
  sb_logstart :: u32
  sb_inodestart :: u32
  sb_bmapstart :: u32

record super_block =
  sb_data :: raw_super_block
  sb_initialized :: bool

definition get_super :: "block \<Rightarrow> raw_super_block" where
  "get_super blk =
     \<lparr>sb_magic = read_u32 blk 0, sb_size = read_u32 blk 1, sb_nblocks = read_u32 blk 2, sb_ninodes = read_u32 blk 3,
      sb_nlog = read_u32 blk 4, sb_logstart = read_u32 blk 5, sb_inodestart = read_u32 blk 6, sb_bmapstart = read_u32 blk 7\<rparr>"

definition sb_init :: "u32 \<Rightarrow> super_block \<Rightarrow> bcache \<Rightarrow> (super_block \<times> bcache) kres" where
  "sb_init dev sb s =
     (if sb_initialized sb then Done (sb, s)
      else kbind (bread dev 1 s) (\<lambda>(buf, s1).
        let raw = get_super (raw_data buf s1)
        in if sb_magic raw \<noteq> FSMAGIC then Panicked ''invalid file system magic num''
           else kbind (buf_drop buf s1) (\<lambda>s2. Done (\<lparr>sb_data = raw, sb_initialized = True\<rparr>, s2))))"

definition sb_read :: "super_block \<Rightarrow> raw_super_block kres" where
  "sb_read sb = (if sb_initialized sb then Done (sb_data sb) else Panicked ''assertion failed: initialized'')"

definition read_log :: "super_block \<Rightarrow> (u32 \<times> u32) kres" where
  "read_log sb = kbind (sb_read sb) (\<lambda>raw. Done (sb_logstart raw, sb_nlog raw))"

definition locate_inode :: "super_block \<Rightarrow> u32 \<Rightarrow> u32 kres" where
  "locate_inode sb inum =
     kbind (sb_read sb) (\<lambda>raw.
       if inum \<ge> sb_ninodes raw then Panicked ''query inum larger than maximum inode nums''
       else u32_add (inum div of_nat IPB) (sb_inodestart raw))"

definition inode_size :: "super_block \<Rightarrow> u32 kres" where
  "inode_size sb = kbind (sb_read sb) (\<lambda>raw. Done (sb_ninodes raw))"

definition bitmap_blockno :: "super_block \<Rightarrow> u32 \<Rightarrow> u32 kres" where
  "bitmap_blockno sb blockno =
     kbind (sb_read sb) (\<lambda>raw. u32_add (blockno div of_nat BPB) (sb_bmapstart raw))"

definition fs_size :: "super_block \<Rightarrow> u32 kres" where
  "fs_size sb = kbind (sb_read sb) (\<lambda>raw. Done (sb_size raw))"

section \<open>Disk inodes and directory entries\<close>

datatype inode_type = Empty | Directory | File | Device

definition itype_tag :: "inode_type \<Rightarrow> u16" where
  "itype_tag ty = (case ty of Empty \<Rightarrow> 0 | Directory \<Rightarrow> 1 | File \<Rightarrow> 2 | Device \<Rightarrow> 3)"

definition itype_of :: "u16 \<Rightarrow> inode_type kres" where
  "itype_of w =
     (if w = 0 then Done Empty else if w = 1 then Done Directory
      else if w = 2 then Done File else if w = 3 then Done Device else Panicked ub)"

record disk_inode =
  di_itype :: inode_type
  di_major :: u16
  di_minor :: u16
  di_nlink :: u16
  di_size :: u32
  di_addrs :: "u32 list"

definition disk_inode_new :: disk_inode where
  "disk_inode_new = \<lparr>di_itype = Empty, di_major = 0, di_minor = 0, di_nlink = 0, di_size = 0, di_addrs = replicate (NDIRECT + 1) 0\<rparr>"

definition dinode_bytes :: "disk_inode \<Rightarrow> u8 list" where
  "dinode_bytes di =
     le16 (itype_tag (di_itype di)) @ le16 (di_major di) @ le16 (di_minor di) @ le16 (di_nlink di) @
     le32 (di_size di) @ concat (map le32 (di_addrs di))"

definition dinode_of :: "u8 list \<Rightarrow> disk_inode kres" where
  "dinode_of bs =
     kbind (itype_of (of_le16 bs)) (\<lambda>ty.
       Done \<lparr>di_itype = ty, di_major = of_le16 (drop 2 bs), di_minor = of_le16 (drop 4 bs), di_nlink = of_le16 (drop 6 bs),
             di_size = of_le32 (drop 8 bs), di_addrs = map (\<lambda>i. of_le32 (drop (12 + 4 * i) bs)) [0..<NDIRECT + 1]\<rparr>)"

definition locate_inode_offset :: "u32 \<Rightarrow> nat" where
  "locate_inode_offset inum = unat inum mod IPB"

definition get_dinode :: "block \<Rightarrow> nat \<Rightarrow> disk_inode kres" where
  "get_dinode blk k = dinode_of (drop (64 * k) blk)"

definition put_dinode :: "nat \<Rightarrow> disk_inode \<Rightarrow> block \<Rightarrow> block" where
  "put_dinode k di = put_bytes (64 * k) (dinode_bytes di)"

text \<open>\<^verbatim>\<open>try_alloc\<close>: \<open>None\<close> is the error.\<close>

definition try_alloc :: "inode_type \<Rightarrow> disk_inode \<Rightarrow> disk_inode option" where
  "try_alloc ty di = (if di_itype di = Empty then Some (disk_inode_new\<lparr>di_itype := ty\<rparr>) else None)"

record dir_entry =
  de_inum :: u16
  de_name :: "u8 list"

definition dir_entry_empty :: dir_entry where
  "dir_entry_empty = \<lparr>de_inum = 0, de_name = replicate MAX_DIR_SIZE 0\<rparr>"

definition de_bytes :: "dir_entry \<Rightarrow> u8 list" where
  "de_bytes de = le16 (de_inum de) @ de_name de"

definition de_of :: "u8 list \<Rightarrow> dir_entry" where
  "de_of bs = \<lparr>de_inum = of_le16 bs, de_name = take MAX_DIR_SIZE (drop 2 bs)\<rparr>"

section \<open>Reading what was written\<close>

lemma length_le16 [simp]: "length (le16 w) = 2"
  by (simp add: le16_def)

lemma of_le16_le16 [simp]: "of_le16 (le16 w @ bs) = w"
proof (rule bit_word_eqI)
  fix n
  assume "n < LENGTH(16)"
  then consider "n < 8" | "8 \<le> n \<and> n < 16" by fastforce
  then show "bit (of_le16 (le16 w @ bs)) n = bit w n"
    by cases (auto simp: of_le16_def le16_def bit_or_iff bit_push_bit_iff bit_ucast_iff bit_drop_bit_eq)
qed

lemma itype_of_tag [simp]: "itype_of (itype_tag ty) = Done ty"
  by (cases ty) (simp_all add: itype_of_def itype_tag_def)

lemma length_concat_le32 [simp]: "length (concat (map le32 xs)) = 4 * length xs"
  by (induction xs) simp_all

lemma length_dinode_bytes: "length (di_addrs di) = NDIRECT + 1 \<Longrightarrow> length (dinode_bytes di) = 64"
  by (simp add: dinode_bytes_def NDIRECT_def)

lemma dinode_of_bytes:
  assumes "length (di_addrs di) = NDIRECT + 1"
  shows "dinode_of (dinode_bytes di @ bs) = Done di"
proof -
  let ?b = "dinode_bytes di @ bs"
  have d: "drop 2 ?b = le16 (di_major di) @ drop 4 ?b" "drop 4 ?b = le16 (di_minor di) @ drop 6 ?b"
    "drop 6 ?b = le16 (di_nlink di) @ drop 8 ?b" "drop 8 ?b = le32 (di_size di) @ drop 12 ?b"
    "drop 12 ?b = concat (map le32 (di_addrs di)) @ bs" by (simp_all add: dinode_bytes_def)
  have a: "of_le32 (drop (12 + 4 * i) ?b) = di_addrs di ! i" if "i < NDIRECT + 1" for i
  proof -
    have "drop (12 + 4 * i) ?b = drop (4 * i) (drop 12 ?b)" by (simp only: drop_drop add.commute)
    also have "\<dots> = concat (map le32 (drop i (di_addrs di))) @ bs"
      using d(5) drop_concat_le32 [of i "di_addrs di" bs] that assms by simp
    finally show ?thesis using that assms by (simp add: Cons_nth_drop_Suc [symmetric])
  qed
  then have "map (\<lambda>i. of_le32 (drop (12 + 4 * i) ?b)) [0..<NDIRECT + 1] = di_addrs di"
    using assms by (intro nth_equalityI) (simp_all del: upt_Suc drop_append)
  moreover have "of_le16 ?b = itype_tag (di_itype di)" by (simp add: dinode_bytes_def)
  moreover have "of_le16 (drop 2 ?b) = di_major di" "of_le16 (drop 4 ?b) = di_minor di"
    "of_le16 (drop 6 ?b) = di_nlink di" "of_le32 (drop 8 ?b) = di_size di"
    using d(1-4) of_le16_le16 of_le32_le32 by metis+
  ultimately show ?thesis unfolding dinode_of_def by (simp only: itype_of_tag kbind.simps) simp
qed

lemma length_put_bytes: "off + length bs \<le> length blk \<Longrightarrow> length (put_bytes off bs blk) = length blk"
  by (simp add: put_bytes_def)

lemma drop_put_bytes: "off + length bs \<le> length blk \<Longrightarrow> drop off (put_bytes off bs blk) = bs @ drop (off + length bs) blk"
  by (simp add: put_bytes_def)

lemma nth_put_bytes:
  assumes "off + length bs \<le> length blk" and "i < length blk"
  shows "put_bytes off bs blk ! i = (if off \<le> i \<and> i < off + length bs then bs ! (i - off) else blk ! i)"
  using assms by (auto simp: put_bytes_def nth_append min_def)

lemma get_put_dinode:
  assumes "length (di_addrs di) = NDIRECT + 1" and "length blk = BSIZE" and "k < IPB"
  shows "get_dinode (put_dinode k di blk) k = Done di" "length (put_dinode k di blk) = BSIZE"
proof -
  have le: "64 * k + length (dinode_bytes di) \<le> length blk"
    using assms(2,3) length_dinode_bytes [OF assms(1)] by (simp add: IPB_def BSIZE_def)
  show "length (put_dinode k di blk) = BSIZE" using length_put_bytes [OF le] assms(2) by (simp add: put_dinode_def)
  show "get_dinode (put_dinode k di blk) k = Done di"
    unfolding get_dinode_def put_dinode_def drop_put_bytes [OF le] by (rule dinode_of_bytes [OF assms(1)])
qed

text \<open>Another inode of the same block is not affected.\<close>

lemma dinode_of_take: "take 64 bs = take 64 cs \<Longrightarrow> 64 \<le> length bs \<Longrightarrow> 64 \<le> length cs \<Longrightarrow> dinode_of bs = dinode_of cs"
proof -
  assume t: "take 64 bs = take 64 cs" "64 \<le> length bs" "64 \<le> length cs"
  have n: "bs ! i = cs ! i" if "i < 64" for i using t that nth_take [of i 64 bs] nth_take [of i 64 cs] by simp
  have w: "of_le16 (drop k bs) = of_le16 (drop k cs)" if "k + 2 \<le> 64" for k
    using that t n by (simp add: of_le16_def)
  have dw: "take 4 (drop k bs) = take 4 (drop k cs)" if "k + 4 \<le> 64" for k
    using that t n by (intro nth_equalityI) auto
  then have w4: "of_le32 (drop k bs) = of_le32 (drop k cs)" if "k + 4 \<le> 64" for k
    using that by (simp add: of_le32_def)
  have "of_le16 bs = of_le16 cs" using w [of 0] by simp
  moreover have "map (\<lambda>i. of_le32 (drop (12 + 4 * i) bs)) [0..<13] = map (\<lambda>i. of_le32 (drop (12 + 4 * i) cs)) [0..<13]"
    by (rule map_cong [OF refl], rule w4) auto
  ultimately show "dinode_of bs = dinode_of cs"
    using w [of 2] w [of 4] w [of 6] w4 [of 8] by (simp add: dinode_of_def NDIRECT_def del: map_eq_conv)
qed

lemma get_put_dinode_other:
  assumes "length (di_addrs di) = NDIRECT + 1" and "length blk = BSIZE" and "k < IPB" and "j < IPB" and "j \<noteq> k"
  shows "get_dinode (put_dinode k di blk) j = get_dinode blk j"
  unfolding get_dinode_def put_dinode_def
proof (rule dinode_of_take)
  have lb: "length (dinode_bytes di) = 64" by (rule length_dinode_bytes [OF assms(1)])
  have bd: "64 * k + 64 \<le> 1024" "64 * j + 64 \<le> 1024" using assms(3,4) by (simp_all add: IPB_def BSIZE_def)
  show ln: "64 \<le> length (drop (64 * j) (put_bytes (64 * k) (dinode_bytes di) blk))" "64 \<le> length (drop (64 * j) blk)"
    using bd assms(2) lb by (simp_all add: length_put_bytes BSIZE_def)
  show "take 64 (drop (64 * j) (put_bytes (64 * k) (dinode_bytes di) blk)) = take 64 (drop (64 * j) blk)"
  proof (rule nth_equalityI)
    fix i assume i: "i < length (take 64 (drop (64 * j) (put_bytes (64 * k) (dinode_bytes di) blk)))"
    have "\<not> (64 * k \<le> 64 * j + i \<and> 64 * j + i < 64 * k + 64)" using i assms(5) by (simp; linarith)
    then show "take 64 (drop (64 * j) (put_bytes (64 * k) (dinode_bytes di) blk)) ! i = take 64 (drop (64 * j) blk) ! i"
      using i bd assms(2) lb by (auto simp: nth_put_bytes length_put_bytes BSIZE_def)
  qed (use ln bd assms(2) lb in \<open>simp add: length_put_bytes BSIZE_def\<close>)
qed

lemma de_of_bytes: "length (de_name de) = MAX_DIR_SIZE \<Longrightarrow> de_of (de_bytes de @ bs) = de"
  by (simp add: de_of_def de_bytes_def)

lemma length_de_bytes: "length (de_name de) = MAX_DIR_SIZE \<Longrightarrow> length (de_bytes de) = 16"
  by (simp add: de_bytes_def MAX_DIR_SIZE_def)

end
