(* ===== verification/Bitmap.thy ===== *)
theory Bitmap
  imports FsLayout KernelHeap
begin

text \<open>
  Allocation of disk blocks and inodes (\<^verbatim>\<open>kernel/src/fs/block.rs\<close>), inside a transaction. Bit \<open>b\<close>
  of the bitmap, in block \<^verbatim>\<open>bmapstart + b / BPB\<close>, says whether block \<open>b\<close> is in use.
\<close>

text \<open>States are pairs; quantifiers over them are kept whole.\<close>

declare split_paired_Ex [simp del] split_paired_All [simp del]

section \<open>Definitions\<close>

text \<open>The first free bit of a bitmap block, below the size of the file system.\<close>

fun bm_scan :: "bit_field \<Rightarrow> nat \<Rightarrow> nat \<Rightarrow> block \<Rightarrow> nat list \<Rightarrow> nat option" where
  "bm_scan bf total_block base blk [] = None"
| "bm_scan bf total_block base blk (offset # rest) =
     (if base + offset \<ge> total_block then None
      else if get_bit bf (blk ! (offset div 8)) (offset mod 8) then bm_scan bf total_block base blk rest
      else Some offset)"

definition bm_set :: "bit_field \<Rightarrow> nat \<Rightarrow> bool \<Rightarrow> block \<Rightarrow> block" where
  "bm_set bf offset v blk = blk[offset div 8 := set_bit_to bf (blk ! (offset div 8)) (offset mod 8) v]"

fun bm_loop :: "bit_field \<Rightarrow> super_block \<Rightarrow> u32 \<Rightarrow> nat \<Rightarrow> nat list \<Rightarrow> tstate \<Rightarrow> (u32 \<times> tstate) kres" where
  "bm_loop bf sb dev total_block [] t = Panicked ''bitmap: cannot alloc any free block''"
| "bm_loop bf sb dev total_block (base # bases) t =
     kbind (bitmap_blockno sb (of_nat base)) (\<lambda>bm.
     kbind (tx_bread dev bm t) (\<lambda>(buf, t1).
       case bm_scan bf total_block base (tx_data buf t1) [0..<BPB] of
         None \<Rightarrow> kbind (tx_drop buf t1) (bm_loop bf sb dev total_block bases)
       | Some offset \<Rightarrow>
           kbind (tx_write buf (bm_set bf offset True (tx_data buf t1)) t1) (\<lambda>t2.
           let free_bn = of_nat (base + offset)
           in kbind (tx_bread dev free_bn t2) (\<lambda>(free_buf, t3).
              kbind (tx_write free_buf (replicate BSIZE 0) t3) (\<lambda>t4. Done (free_bn, t4))))))"

definition bm_alloc :: "bit_field \<Rightarrow> super_block \<Rightarrow> u32 \<Rightarrow> tstate \<Rightarrow> (u32 \<times> tstate) kres" where
  "bm_alloc bf sb dev t =
     kbind (fs_size sb) (\<lambda>total_block.
       bm_loop bf sb dev (unat total_block) (map (\<lambda>k. k * BPB) [0..<(unat total_block + BPB - 1) div BPB]) t)"

definition bm_free :: "bit_field \<Rightarrow> super_block \<Rightarrow> u32 \<Rightarrow> u32 \<Rightarrow> tstate \<Rightarrow> tstate kres" where
  "bm_free bf sb dev blockno t =
     kbind (bitmap_blockno sb blockno) (\<lambda>bm.
       let offset = unat blockno mod BPB
       in kbind (tx_bread dev bm t) (\<lambda>(buf, t1).
            if \<not> get_bit bf (tx_data buf t1 ! (offset div 8)) (offset mod 8)
            then Panicked ''bitmap: double freeing a block''
            else tx_write buf (bm_set bf offset False (tx_data buf t1)) t1))"

text \<open>The block is dropped at the end of each turn of the loop.\<close>

fun inode_alloc_loop :: "super_block \<Rightarrow> u32 \<Rightarrow> inode_type \<Rightarrow> u32 list \<Rightarrow> tstate \<Rightarrow> (u32 \<times> tstate) kres" where
  "inode_alloc_loop sb dev ty [] t = Panicked ''not enough inode to alloc''"
| "inode_alloc_loop sb dev ty (inum # inums) t =
     kbind (locate_inode sb inum) (\<lambda>blockno.
     kbind (tx_bread dev blockno t) (\<lambda>(buf, t1).
     kbind (get_dinode (tx_data buf t1) (locate_inode_offset inum)) (\<lambda>di.
       case try_alloc ty di of
         Some di' \<Rightarrow>
           kbind (tx_write buf (put_dinode (locate_inode_offset inum) di' (tx_data buf t1)) t1) (\<lambda>t2. Done (inum, t2))
       | None \<Rightarrow> kbind (tx_drop buf t1) (inode_alloc_loop sb dev ty inums))))"

definition inode_alloc :: "super_block \<Rightarrow> u32 \<Rightarrow> inode_type \<Rightarrow> tstate \<Rightarrow> (u32 \<times> tstate) kres" where
  "inode_alloc sb dev ty t =
     kbind (inode_size sb) (\<lambda>n. inode_alloc_loop sb dev ty (map of_nat [1..<unat n]) t)"

section \<open>The bitmap\<close>

definition bm_bit :: "bit_field \<Rightarrow> block \<Rightarrow> nat \<Rightarrow> bool" where
  "bm_bit bf blk i = get_bit bf (blk ! (i div 8)) (i mod 8)"

definition fs_total :: "super_block \<Rightarrow> nat" where
  "fs_total sb = unat (sb_size (sb_data sb))"

definition bm_block :: "super_block \<Rightarrow> nat \<Rightarrow> u32" where
  "bm_block sb b = of_nat (b div BPB) + sb_bmapstart (sb_data sb)"

definition in_use :: "bit_field \<Rightarrow> super_block \<Rightarrow> (u32 \<Rightarrow> block) \<Rightarrow> nat \<Rightarrow> bool" where
  "in_use bf sb c b = bm_bit bf (c (bm_block sb b)) (b mod BPB)"

text \<open>
  The bitmap lies outside the log, its own blocks and those of the log are marked, and
  its block numbers fit \<^verbatim>\<open>u32\<close>.
\<close>

definition bm_geom :: "super_block \<Rightarrow> u32 set \<Rightarrow> bool" where
  "bm_geom sb area \<longleftrightarrow>
     sb_initialized sb \<and> unat (sb_bmapstart (sb_data sb)) + fs_total sb div BPB < 2 ^ 32 \<and>
     (\<forall>b < fs_total sb. bm_block sb b \<notin> area)"

definition bm_inv :: "bit_field \<Rightarrow> super_block \<Rightarrow> u32 set \<Rightarrow> (u32 \<Rightarrow> block) \<Rightarrow> bool" where
  "bm_inv bf sb area c \<longleftrightarrow>
     bm_geom sb area \<and>
     (\<forall>b < fs_total sb. of_nat b \<in> area \<or> of_nat b \<in> bm_block sb ` {..<fs_total sb} \<longrightarrow> in_use bf sb c b)"

lemma block_number:
  assumes "b < fs_total sb"
  shows "b < 2 ^ 32" "unat (of_nat b :: u32) = b" "unat (of_nat (b div BPB) :: u32) = b div BPB"
proof -
  show b: "b < 2 ^ 32" using assms unsigned_less [of "sb_size (sb_data sb)", where 'a = nat] by (simp add: fs_total_def)
  then show "unat (of_nat b :: u32) = b" by (simp add: unat_of_nat)
  have "b div BPB < 2 ^ 32" by (rule le_less_trans [OF div_le_dividend b])
  then show "unat (of_nat (b div BPB) :: u32) = b div BPB" by (subst unat_of_nat) simp
qed

lemma bitmap_blockno_eq:
  assumes "bm_geom sb area" and "b < fs_total sb"
  shows "bitmap_blockno sb (of_nat b) = Done (bm_block sb b)"
proof -
  note u = block_number [OF assms(2)]
  have d: "(of_nat b :: u32) div of_nat BPB = of_nat (b div BPB)"
    using u(1) by (simp add: word_arith_nat_div u(2) BPB_def BSIZE_def unat_of_nat)
  have "b div BPB \<le> fs_total sb div BPB" using assms(2) by (simp add: div_le_mono)
  then have "unat (of_nat (b div BPB) :: u32) + unat (sb_bmapstart (sb_data sb)) < 2 ^ 32"
    using assms(1) u(3) by (simp add: bm_geom_def)
  then show ?thesis
    using assms(1) by (simp add: bitmap_blockno_def sb_read_def bm_geom_def d u32_add_def bm_block_def)
qed

lemma bm_scan_Some:
  assumes "bm_scan bf total_block base blk [j..<n] = Some k"
  shows "j \<le> k \<and> k < n \<and> base + k < total_block \<and> \<not> bm_bit bf blk k \<and> (\<forall>i. j \<le> i \<and> i < k \<longrightarrow> bm_bit bf blk i)"
  using assms
proof (induction "n - j" arbitrary: j)
  case 0
  then show ?case by simp
next
  case (Suc m)
  then have j: "j < n" by simp
  show ?case
  proof (cases "bm_bit bf blk j")
    case True
    then have "bm_scan bf total_block base blk [Suc j..<n] = Some k"
      using Suc.prems j by (simp add: upt_conv_Cons bm_bit_def split: if_splits)
    moreover have "m = n - Suc j" using Suc.hyps(2) by simp
    ultimately have "Suc j \<le> k \<and> k < n \<and> base + k < total_block \<and> \<not> bm_bit bf blk k \<and> (\<forall>i. Suc j \<le> i \<and> i < k \<longrightarrow> bm_bit bf blk i)"
      by (intro Suc.hyps(1))
    then show ?thesis using True by (metis Suc_leD le_antisym not_less_eq_eq)
  next
    case False
    then show ?thesis using Suc.prems j by (auto simp: upt_conv_Cons bm_bit_def split: if_splits)
  qed
qed

lemma bm_scan_None:
  assumes "bm_scan bf total_block base blk [j..<n] = None" and "j \<le> i" and "i < n" and "base + i < total_block"
  shows "bm_bit bf blk i"
  using assms
proof (induction "n - j" arbitrary: j)
  case (Suc m)
  then have "\<not> total_block \<le> base + j" by simp
  then have r: "bm_bit bf blk j" "bm_scan bf total_block base blk [Suc j..<n] = None"
    using Suc.prems Suc.hyps(2) by (simp_all add: upt_conv_Cons bm_bit_def split: if_splits)
  show ?case
  proof (cases "i = j")
    case False
    then show ?thesis using Suc.hyps(1) [of "Suc j"] Suc.hyps(2) Suc.prems r(2) by simp
  qed (use r in simp)
qed simp

lemma length_bm_set [simp]: "length (bm_set bf k v blk) = length blk"
  by (simp add: bm_set_def)

lemma bm_split: "k * BPB + i < m \<Longrightarrow> i < BPB \<Longrightarrow> (k * BPB + i) div BPB = k \<and> (k * BPB + i) mod BPB = i"
  by (simp add: BPB_def BSIZE_def)

lemma bm_block_eq: "a div BPB = b div BPB \<Longrightarrow> bm_block sb a = bm_block sb b"
  by (simp add: bm_block_def)

lemma bm_block_inj:
  assumes "a < fs_total sb" "b < fs_total sb" "bm_block sb a = bm_block sb b"
  shows "a div BPB = b div BPB"
  using assms block_number(3) by (metis bm_block_def add_right_cancel)

context bit_crate
begin

lemma bm_bit_set:
  assumes "k < BPB" "length blk = BSIZE"
  shows "bm_bit bf (bm_set bf k v blk) j = (if j = k then v else bm_bit bf blk j)"
proof -
  have "k div 8 < length blk" using assms by (simp add: BPB_def)
  from bytes_upd [OF this, of v j] show ?thesis by (simp add: bm_bit_def bm_set_def)
qed

lemma in_use_set:
  assumes "b < fs_total sb" "length (c (bm_block sb b)) = BSIZE" "x < fs_total sb"
  shows "in_use bf sb (c(bm_block sb b := bm_set bf (b mod BPB) v (c (bm_block sb b)))) x = (if x = b then v else in_use bf sb c x)"
proof (cases "bm_block sb x = bm_block sb b")
  case True
  have "x div BPB = b div BPB" by (rule bm_block_inj [OF assms(3,1) True])
  then have "x mod BPB = b mod BPB \<longleftrightarrow> x = b" by (metis div_mult_mod_eq)
  moreover have "b mod BPB < BPB" by (simp add: BPB_def BSIZE_def)
  ultimately show ?thesis using True assms(2) by (simp add: in_use_def bm_bit_set)
next
  case False
  then have "x \<noteq> b" by auto
  then show ?thesis using False by (simp add: in_use_def)
qed

end

section \<open>Allocating a block\<close>

definition block_taken :: "bit_field \<Rightarrow> super_block \<Rightarrow> u32 \<Rightarrow> tstate \<Rightarrow> tstate \<Rightarrow> nat \<Rightarrow> bool" where
  "block_taken bf sb d t t' b \<longleftrightarrow>
     b < fs_total sb \<and> \<not> in_use bf sb (tx_cont d t) b \<and> (\<forall>x < b. in_use bf sb (tx_cont d t) x) \<and>
     tx_cont d t' = (tx_cont d t)(bm_block sb b := bm_set bf (b mod BPB) True (tx_cont d t (bm_block sb b)), of_nat b := replicate BSIZE 0) \<and>
     (\<forall>x < fs_total sb. in_use bf sb (tx_cont d t') x \<longleftrightarrow> x = b \<or> in_use bf sb (tx_cont d t) x) \<and>
     tx_logged t' = insert (of_nat b) (insert (bm_block sb b) (tx_logged t)) \<and> tx_area t' = tx_area t"

text \<open>What is held is in use, and the bitmap is not held.\<close>

definition held_ok :: "bit_field \<Rightarrow> super_block \<Rightarrow> (u32 \<Rightarrow> block) \<Rightarrow> (buf \<times> u32) set \<Rightarrow> bool" where
  "held_ok bf sb c H \<longleftrightarrow>
     (\<forall>b < fs_total sb. bm_block sb b \<notin> snd ` H \<and> (of_nat b \<in> snd ` H \<longrightarrow> in_use bf sb c b))"

lemma bm_inv_free:
  assumes "bm_inv bf sb area c" and "b < fs_total sb" and "\<not> in_use bf sb c b" and "x < fs_total sb"
  shows "of_nat b \<notin> area" "of_nat b \<noteq> bm_block sb x"
  using assms unfolding bm_inv_def by blast+

lemma base_below: "k < (m + BPB - 1) div BPB \<Longrightarrow> k * BPB < m"
proof -
  assume "k < (m + BPB - 1) div BPB"
  then have "Suc k * BPB \<le> m + BPB - 1" by (simp add: less_eq_div_iff_mult_less_eq BPB_def BSIZE_def flip: Suc_le_eq)
  then show ?thesis by (simp add: BPB_def BSIZE_def)
qed

context bit_crate
begin

lemma bm_take:
  assumes ok: "tx_ok d t1 (insert (buf, bm_block sb b) H) n" and n: "2 \<le> n" "card H < n" and bm: "bm_inv bf sb (tx_area t1) (tx_cont d t1)"
    and held: "held_ok bf sb (tx_cont d t1) H"
    and b: "b < fs_total sb" "\<not> in_use bf sb (tx_cont d t1) b" "\<forall>x < b. in_use bf sb (tx_cont d t1) x"
  shows "\<exists>t2 fb t3 t4. tx_write buf (bm_set bf (b mod BPB) True (tx_cont d t1 (bm_block sb b))) t1 = Done t2 \<and>
     tx_bread d (of_nat b) t2 = Done (fb, t3) \<and> tx_write fb (replicate BSIZE 0) t3 = Done t4 \<and>
     tx_ok d t4 H (n - 2) \<and> block_taken bf sb d t1 t4 b"
proof -
  let ?B = "bm_block sb b" and ?v = "bm_set bf (b mod BPB) True (tx_cont d t1 (bm_block sb b))" and ?f = "of_nat b :: u32"
  have nB: "?B \<notin> snd ` H" using held b(1) by (simp add: held_ok_def)
  have rm: "insert (buf, ?B) H - {(buf, ?B)} = H" using nB by force
  have "?B \<notin> tx_area t1" using bm b(1) by (simp add: bm_inv_def bm_geom_def)
  with tx.wr_law [OF ok insertI1, of ?v] n obtain t2 where t2: "tx_write buf ?v t1 = Done t2"
    "tx_ok d t2 H (if ?B \<in> tx_logged t1 then n else n - 1)" "tx_cont d t2 = (tx_cont d t1)(?B := ?v)"
    "tx_logged t2 = insert ?B (tx_logged t1)" "tx_area t2 = tx_area t1"
    using tx.block_length [OF ok] by (auto simp: rm)
  have ok2: "tx_ok d t2 H (n - 1)" by (rule tx.ok_mono [OF t2(2)]) simp
  note fr = bm_inv_free [OF bm b(1,2)]
  have nf: "?f \<notin> snd ` H" using held b by (auto simp: held_ok_def)
  obtain fb t3 t4 where t4: "tx_bread d ?f t2 = Done (fb, t3)" "tx_write fb (replicate BSIZE 0) t3 = Done t4"
    "tx_ok d t4 H (if ?f \<in> tx_logged t2 then n - 1 else n - 1 - 1)" "tx_cont d t4 = (tx_cont d t2)(?f := replicate BSIZE 0)"
    "tx_logged t4 = insert ?f (tx_logged t2)" "tx_area t4 = tx_area t2"
    using tx.modify [OF ok2 nf, of "\<lambda>_. replicate BSIZE 0"] fr(1) [OF b(1)] n t2(5) by auto
  have u: "in_use bf sb (tx_cont d t4) x \<longleftrightarrow> x = b \<or> in_use bf sb (tx_cont d t1) x" if "x < fs_total sb" for x
  proof -
    have "in_use bf sb (tx_cont d t4) x = in_use bf sb (tx_cont d t2) x"
      using fr(2) [OF that] by (simp add: in_use_def t4(4))
    then show ?thesis using in_use_set [of b sb "tx_cont d t1" x True] b(1) that tx.block_length [OF ok] by (simp add: t2(3))
  qed
  have "tx_ok d t4 H (n - 2)" by (rule tx.ok_mono [OF t4(3)]) auto
  moreover have "block_taken bf sb d t1 t4 b" using t2(3-5) t4(4-6) u b by (simp add: block_taken_def)
  ultimately show ?thesis using t2(1) t4(1,2) by blast
qed

lemma bm_loop_spec:
  assumes "tx_ok d t H n" and "2 \<le> n" "card H < n" and "bm_inv bf sb (tx_area t) (tx_cont d t)" and "held_ok bf sb (tx_cont d t) H"
    and "\<forall>x < k * BPB. x < fs_total sb \<longrightarrow> in_use bf sb (tx_cont d t) x"
  defines "nb \<equiv> (fs_total sb + BPB - 1) div BPB"
  shows "if \<exists>b < fs_total sb. \<not> in_use bf sb (tx_cont d t) b
         then \<exists>b t'. bm_loop bf sb d (fs_total sb) (map (\<lambda>k. k * BPB) [k..<nb]) t = Done (of_nat b, t') \<and>
                tx_ok d t' H (n - 2) \<and> block_taken bf sb d t t' b
         else bm_loop bf sb d (fs_total sb) (map (\<lambda>k. k * BPB) [k..<nb]) t = Panicked ''bitmap: cannot alloc any free block''"
  using assms(1-6)
proof (induction "nb - k" arbitrary: k t)
  case 0
  have "\<forall>x < fs_total sb. x < k * BPB"
  proof (intro allI impI)
    fix x assume "x < fs_total sb"
    moreover have "fs_total sb \<le> nb * BPB" by (simp add: nb_def BPB_def BSIZE_def)
    moreover have "nb * BPB \<le> k * BPB" using "0.hyps" by simp
    ultimately show "x < k * BPB" by linarith
  qed
  then show ?case using "0.hyps" "0.prems"(6) by auto
next
  case (Suc m)
  then have k: "k < nb" by simp
  let ?base = "k * BPB" and ?c = "tx_cont d t"
  have base: "?base < fs_total sb" using k base_below unfolding nb_def by blast
  have upt: "[k..<nb] = k # [Suc k..<nb]" using k by (simp add: upt_conv_Cons)
  have geom: "bm_geom sb (tx_area t)" using Suc.prems(4) by (simp add: bm_inv_def)
  let ?B = "bm_block sb ?base"
  have nB: "?B \<notin> snd ` H" using Suc.prems(5) base by (simp add: held_ok_def)
  from tx.rd_law [OF Suc.prems(1) nB] Suc.prems(3) obtain buf t1 where t1: "tx_bread d ?B t = Done (buf, t1)"
    "tx_ok d t1 (insert (buf, ?B) H) n" "tx_cont d t1 = ?c" "tx_logged t1 = tx_logged t" "tx_area t1 = tx_area t" by auto
  have g: "tx_data buf t1 = ?c ?B" using tx.get_law [OF t1(2)] t1(3) by simp
  note bq = bitmap_blockno_eq [OF geom base]
  have blk: "bm_block sb (?base + i) = ?B" "(?base + i) mod BPB = i" if "i < BPB" for i
    using that by (simp_all add: bm_block_def BPB_def BSIZE_def)
  have use: "in_use bf sb ?c (?base + i) = bm_bit bf (?c ?B) i" if "i < BPB" for i
    using blk [OF that] by (simp add: in_use_def)
  show ?case
  proof (cases "bm_scan bf (fs_total sb) ?base (?c ?B) [0..<BPB]")
    case None
    obtain t2 where t2: "tx_drop buf t1 = Done t2" "tx_ok d t2 H n" "tx_cont d t2 = ?c" "tx_logged t2 = tx_logged t" "tx_area t2 = tx_area t"
      using tx.rel_law [OF t1(2) insertI1] tx.fresh_handle [OF nB, of buf] t1(3-5) by auto
    have full: "\<forall>x < Suc k * BPB. x < fs_total sb \<longrightarrow> in_use bf sb (tx_cont d t2) x"
    proof (intro allI impI)
      fix x assume x: "x < Suc k * BPB" "x < fs_total sb"
      show "in_use bf sb (tx_cont d t2) x"
      proof (cases "x < ?base")
        case False
        then obtain i where "x = ?base + i" "i < BPB" using x(1) by (metis add.commute le_add_diff_inverse less_diff_conv2 mult_Suc not_less)
        then show ?thesis using use [of i] bm_scan_None [OF None, of i] x(2) t2(3) by simp
      qed (use Suc.prems(6) x t2(3) in simp)
    qed
    have e: "bm_loop bf sb d (fs_total sb) (map (\<lambda>k. k * BPB) [k..<nb]) t = bm_loop bf sb d (fs_total sb) (map (\<lambda>k. k * BPB) [Suc k..<nb]) t2"
      unfolding upt using bq t1(1) g None t2(1) by simp
    have bt: "block_taken bf sb d t2 = block_taken bf sb d t" by (simp add: block_taken_def fun_eq_iff t2)
    have "if \<exists>b < fs_total sb. \<not> in_use bf sb (tx_cont d t2) b
         then \<exists>b t'. bm_loop bf sb d (fs_total sb) (map (\<lambda>k. k * BPB) [Suc k..<nb]) t2 = Done (of_nat b, t') \<and>
                tx_ok d t' H (n - 2) \<and> block_taken bf sb d t2 t' b
         else bm_loop bf sb d (fs_total sb) (map (\<lambda>k. k * BPB) [Suc k..<nb]) t2 = Panicked ''bitmap: cannot alloc any free block''"
      by (rule Suc.hyps(1) [OF _ t2(2) Suc.prems(2,3) _ _ full]) (use Suc.hyps(2) Suc.prems(4,5) t2 in simp_all)
    then show ?thesis unfolding e bt t2(3) .
  next
    case (Some i)
    note sc = bm_scan_Some [OF Some]
    let ?b = "?base + i"
    have i: "i < BPB" using sc by simp
    have b: "?b < fs_total sb" "\<not> in_use bf sb (tx_cont d t1) ?b" using sc use [OF i] t1(3) by simp_all
    have "in_use bf sb (tx_cont d t1) x" if "x < ?b" for x
    proof (cases "x < ?base")
      case False
      then have "x = ?base + (x - ?base)" "x - ?base < i" using that by linarith+
      then show ?thesis using sc use [of "x - ?base"] i t1(3) by simp
    qed (use Suc.prems(6) that b t1(3) in simp)
    then obtain t2 fb t3 t4 where t4: "tx_write buf (bm_set bf i True (?c ?B)) t1 = Done t2" "tx_bread d (of_nat ?b) t2 = Done (fb, t3)"
      "tx_write fb (replicate BSIZE 0) t3 = Done t4" "tx_ok d t4 H (n - 2)" "block_taken bf sb d t1 t4 ?b"
      using bm_take [of d t1 buf sb ?b H n] t1 Suc.prems(2-5) b blk [OF i] by (auto simp: blk [OF i])
    have "bm_loop bf sb d (fs_total sb) (map (\<lambda>k. k * BPB) [k..<nb]) t = Done (of_nat ?b, t4)"
      unfolding upt using bq t1(1) g Some t4(1-3) by simp
    moreover have "block_taken bf sb d t1 = block_taken bf sb d t" by (simp add: block_taken_def fun_eq_iff t1(3-5))
    moreover have "\<exists>b < fs_total sb. \<not> in_use bf sb ?c b" using b t1(3) by auto
    ultimately show ?thesis using t4(4,5) by (simp only: if_True) blast
  qed
qed

lemma bm_alloc_spec:
  assumes "tx_ok d t H n" and "2 \<le> n" "card H < n" and "bm_inv bf sb (tx_area t) (tx_cont d t)" and "held_ok bf sb (tx_cont d t) H"
  shows "if \<exists>b < fs_total sb. \<not> in_use bf sb (tx_cont d t) b
         then \<exists>b t'. bm_alloc bf sb d t = Done (of_nat b, t') \<and> tx_ok d t' H (n - 2) \<and> block_taken bf sb d t t' b
         else bm_alloc bf sb d t = Panicked ''bitmap: cannot alloc any free block''"
proof -
  have "fs_size sb = Done (sb_size (sb_data sb))" using assms(4) by (simp add: fs_size_def sb_read_def bm_inv_def bm_geom_def)
  then have e: "bm_alloc bf sb d t =
      bm_loop bf sb d (fs_total sb) (map (\<lambda>k. k * BPB) [0..<(fs_total sb + BPB - 1) div BPB]) t"
    by (simp add: bm_alloc_def fs_total_def)
  show ?thesis unfolding e by (rule bm_loop_spec [OF assms]) simp
qed

lemma bm_inv_taken:
  assumes "bm_inv bf sb (tx_area t) (tx_cont d t)" and "block_taken bf sb d t t' b"
  shows "bm_inv bf sb (tx_area t') (tx_cont d t')"
  using assms unfolding bm_inv_def block_taken_def by auto

lemma bm_free_spec:
  assumes ok: "tx_ok d t H n" and n: "1 \<le> n" "card H \<le> Suc n" and bm: "bm_inv bf sb (tx_area t) (tx_cont d t)"
    and held: "bm_block sb b \<notin> snd ` H" and b: "b < fs_total sb"
  shows "if in_use bf sb (tx_cont d t) b
         then \<exists>t'. bm_free bf sb d (of_nat b) t = Done t' \<and> tx_ok d t' H (n - 1) \<and>
            tx_cont d t' = (tx_cont d t)(bm_block sb b := bm_set bf (b mod BPB) False (tx_cont d t (bm_block sb b))) \<and>
            (\<forall>x < fs_total sb. in_use bf sb (tx_cont d t') x \<longleftrightarrow> x \<noteq> b \<and> in_use bf sb (tx_cont d t) x) \<and>
            tx_logged t' = insert (bm_block sb b) (tx_logged t) \<and> tx_area t' = tx_area t
         else bm_free bf sb d (of_nat b) t = Panicked ''bitmap: double freeing a block''"
proof -
  let ?B = "bm_block sb b" and ?c = "tx_cont d t" and ?k = "b mod BPB"
  have geom: "bm_geom sb (tx_area t)" using bm by (simp add: bm_inv_def)
  note bq = bitmap_blockno_eq [OF geom b]
  have off: "unat (of_nat b :: u32) mod BPB = ?k" using block_number(2) [OF b] by simp
  have nA: "?B \<notin> tx_area t" using geom b by (simp add: bm_geom_def)
  let ?f = "\<lambda>v. bm_set bf ?k False v"
  obtain buf t1 t' where t': "tx_bread d ?B t = Done (buf, t1)" "tx_data buf t1 = ?c ?B" "tx_write buf (?f (?c ?B)) t1 = Done t'"
    "tx_ok d t' H (if ?B \<in> tx_logged t then n else n - 1)" "tx_cont d t' = ?c(?B := ?f (?c ?B))"
    "tx_logged t' = insert ?B (tx_logged t)" "tx_area t' = tx_area t"
    using tx.modify [OF ok held n(2) nA, of ?f] n(1) by auto
  have ok': "tx_ok d t' H (n - 1)" by (rule tx.ok_mono [OF t'(4)]) auto
  have bit: "get_bit bf (?c ?B ! (?k div 8)) (?k mod 8) = in_use bf sb ?c b" by (simp add: in_use_def bm_bit_def)
  show ?thesis
  proof (cases "in_use bf sb ?c b")
    case True
    then have "bm_free bf sb d (of_nat b) t = Done t'"
      using bq t'(1-3) bit by (simp add: bm_free_def off)
    moreover have "in_use bf sb (tx_cont d t') x \<longleftrightarrow> x \<noteq> b \<and> in_use bf sb ?c x" if "x < fs_total sb" for x
      using in_use_set [of b sb ?c x False] b that tx.block_length [OF ok] by (simp add: t'(5))
    ultimately show ?thesis using True ok' t'(5-7) by simp
  next
    case False
    then show ?thesis using bq t'(1,2) bit by (simp add: bm_free_def off)
  qed
qed

end

section \<open>An example file system\<close>

text \<open>100 blocks: the log from block 2, inodes in blocks 32 and 33, the bitmap in block 34; the first 50 blocks are in use.\<close>

definition demo_sb :: super_block where
  "demo_sb = \<lparr>sb_data = \<lparr>sb_magic = FSMAGIC, sb_size = 100, sb_nblocks = 65, sb_ninodes = 32, sb_nlog = 30,
      sb_logstart = 2, sb_inodestart = 32, sb_bmapstart = 34\<rparr>, sb_initialized = True\<rparr>"

definition demo_bitmap :: block where
  "demo_bitmap = replicate 6 0xFF @ 3 # replicate 1017 0"

definition demo_tx :: "(u32 \<Rightarrow> block) \<Rightarrow> tstate" where
  "demo_tx dsk = (log_fresh\<lparr>log_outstanding := 1\<rparr>, binit (bcache_new dsk))"

definition demo_disk :: "u32 \<Rightarrow> block" where
  "demo_disk = (\<lambda>_. replicate BSIZE 0)(34 := demo_bitmap)"

lemma demo_tx_ok:
  assumes "\<forall>b. length (dsk b) = BSIZE"
  shows "tx_ok 1 (demo_tx dsk) {} 28" "tx_cont 1 (demo_tx dsk) = dsk" "tx_logged (demo_tx dsk) = {}" "tx_area (demo_tx dsk) = log_area 2"
proof -
  note b = boot_cache [of 1 dsk]
  have h: "homes (log_lh log_fresh) = []" "log_start log_fresh = 2" "log_size log_fresh = 30" "lh_len (log_lh log_fresh) = 0"
    by (simp_all add: homes_def log_fresh_def log_uninit_def)
  have "header_ok 2 (log_lh log_fresh)" by (simp add: header_ok_def h) (simp add: log_fresh_def log_uninit_def LOGSIZE_def)
  then show "tx_ok 1 (demo_tx dsk) {} 28"
    using b assms by (simp add: tx_ok_def demo_tx_def h LOGSIZE_def MAXOPBLOCKS_def)
  show "tx_cont 1 (demo_tx dsk) = dsk" "tx_logged (demo_tx dsk) = {}" "tx_area (demo_tx dsk) = log_area 2"
    using b by (simp_all add: tx_cont_def tx_logged_def tx_area_def demo_tx_def h)
qed

lemma log_area_2: "b \<in> log_area 2 \<Longrightarrow> unat b < 32"
  using unat_slotn [OF log_one_area(1)] by (auto simp: log_area_def LOGSIZE_def MAXOPBLOCKS_def)

lemma demo_use:
  assumes "dsk 34 = demo_bitmap" and "b < 100"
  shows "in_use word_bits demo_sb dsk b \<longleftrightarrow> b < 50"
proof -
  have d: "bm_block demo_sb b = 34" using assms(2) by (simp add: bm_block_def demo_sb_def BPB_def BSIZE_def)
  have ff: "bit (255 :: u8) i" if "i < 8" for i
  proof -
    have "(255 :: u8) = mask 8" by (simp add: mask_eq_exp_minus_1)
    then show ?thesis using that by (simp only: bit_mask_iff) simp
  qed
  have "bm_bit word_bits demo_bitmap b \<longleftrightarrow> b < 50"
  proof -
    consider "b div 8 < 6" | "b div 8 = 6" | "6 < b div 8" by linarith
    then show ?thesis
    proof cases
      case 1
      then have "b < 48" by simp
      then show ?thesis using 1 ff [of "b mod 8"] by (simp add: bm_bit_def demo_bitmap_def nth_append word_bits_def)
    next
      case 2
      then have "b = 48 + b mod 8" using mult_div_mod_eq [of 8 b] by simp
      then have "b < 50 \<longleftrightarrow> b mod 8 < 2" by linarith
      moreover have "bit (3 :: u8) j \<longleftrightarrow> j < 2" if "j < 8" for j
      proof -
        have "(3 :: u8) = mask 2" by (simp add: mask_eq_exp_minus_1)
        then show ?thesis using that by (simp only: bit_mask_iff) auto
      qed
      ultimately show ?thesis using 2 by (simp add: bm_bit_def demo_bitmap_def nth_append word_bits_def)
    next
      case 3
      then have "56 \<le> b" "b div 8 - 7 < 1017" using assms(2) by simp_all
      then show ?thesis using 3 by (simp add: bm_bit_def demo_bitmap_def nth_append nth_Cons' word_bits_def)
    qed
  qed
  then show ?thesis using assms by (simp add: in_use_def d BPB_def BSIZE_def)
qed

lemma demo_bm_inv:
  assumes "dsk 34 = demo_bitmap"
  shows "bm_inv word_bits demo_sb (log_area 2) dsk"
proof -
  have t: "fs_total demo_sb = 100" by (simp add: fs_total_def demo_sb_def)
  have b: "bm_block demo_sb b = 34" if "b < 100" for b using that by (simp add: bm_block_def demo_sb_def BPB_def BSIZE_def)
  have "34 \<notin> log_area 2" using log_area_2 [of 34] by auto
  moreover have "in_use word_bits demo_sb dsk b" if "b < 100" "of_nat b \<in> log_area 2 \<or> of_nat b = (34 :: u32)" for b
  proof -
    have "unat (of_nat b :: u32) = b" using that(1) by (simp add: unat_of_nat)
    then have "b < 50" using that(2) log_area_2 by fastforce
    then show ?thesis using demo_use [of dsk b] assms that(1) by simp
  qed
  ultimately show ?thesis
    unfolding bm_inv_def bm_geom_def t using b by (auto simp: image_iff demo_sb_def BPB_def BSIZE_def)
qed

section \<open>Properties\<close>

text \<open>
  C25 (allocating a disk block): inside a transaction with room for two more blocks,
  \<^verbatim>\<open>bm_alloc\<close> takes the lowest block that the bitmap says is free, marks exactly this block,
  fills it with zeros, records both changes in the log and changes nothing else; it never
  returns a block of the log or of the bitmap, and it panics exactly when every block is in
  use.
\<close>

theorem bm_alloc_correct:
  assumes "bit_crate bf" and "tx_ok d t H n" and "2 \<le> n" "card H < n" and "bm_inv bf sb (tx_area t) (tx_cont d t)"
    and "held_ok bf sb (tx_cont d t) H"
  shows "if \<exists>b < fs_total sb. \<not> in_use bf sb (tx_cont d t) b
         then \<exists>b t'. bm_alloc bf sb d t = Done (of_nat b, t') \<and> tx_ok d t' H (n - 2) \<and> block_taken bf sb d t t' b \<and>
                of_nat b \<notin> tx_area t \<and> bm_inv bf sb (tx_area t') (tx_cont d t')
         else bm_alloc bf sb d t = Panicked ''bitmap: cannot alloc any free block''"
proof -
  have "of_nat b \<notin> tx_area t" if "block_taken bf sb d t t' b" for b t'
    using that bm_inv_free(1) [OF assms(5)] by (auto simp: block_taken_def)
  moreover note bit_crate.bm_inv_taken [OF assms(1,5)]
  ultimately show ?thesis using bit_crate.bm_alloc_spec [OF assms] by (meson)
qed

theorem bm_alloc_correct_witness:
  "\<exists>t'. bm_alloc word_bits demo_sb 1 (demo_tx demo_disk) = Done (50, t') \<and> tx_cont 1 t' 50 = replicate BSIZE 0 \<and>
     tx_logged t' = {34, 50}"
proof -
  have len: "\<forall>b. length (demo_disk b) = BSIZE" by (simp add: demo_disk_def demo_bitmap_def BSIZE_def)
  note ok = demo_tx_ok [OF len]
  have d34: "demo_disk 34 = demo_bitmap" by (simp add: demo_disk_def)
  have tot: "fs_total demo_sb = 100" by (simp add: fs_total_def demo_sb_def)
  have u: "in_use word_bits demo_sb demo_disk b \<longleftrightarrow> b < 50" if "b < 100" for b using demo_use [of demo_disk b] d34 that by simp
  have ex: "\<exists>b < fs_total demo_sb. \<not> in_use word_bits demo_sb (tx_cont 1 (demo_tx demo_disk)) b"
    unfolding tot ok(2) using u [of 50] by (intro exI [of _ 50]) simp
  have inv: "bm_inv word_bits demo_sb (tx_area (demo_tx demo_disk)) (tx_cont 1 (demo_tx demo_disk))"
    unfolding ok(2,4) by (rule demo_bm_inv [of demo_disk, OF d34])
  obtain b t' where b: "bm_alloc word_bits demo_sb 1 (demo_tx demo_disk) = Done (of_nat b, t')"
    "block_taken word_bits demo_sb 1 (demo_tx demo_disk) t' b"
    using bm_alloc_correct [OF word_bits.bit_crate_axioms ok(1) _ _ inv] ex by (auto simp: held_ok_def)
  have "b < 100" "\<not> b < 50" "\<forall>x < b. x < 50" using b(2) u by (auto simp: block_taken_def tot ok(2))
  then have "b = 50" by (metis linorder_neqE_nat less_irrefl)
  moreover have "bm_block demo_sb 50 = 34" by (simp add: bm_block_def demo_sb_def BPB_def BSIZE_def)
  ultimately show ?thesis using b by (auto simp: block_taken_def ok(3))
qed

text \<open>
  Releasing a disk block: \<^verbatim>\<open>bm_free\<close> of a block in use clears exactly its bit and records
  the change; releasing a block that is free panics and so never goes unnoticed.
\<close>

theorem bm_free_correct:
  assumes "bit_crate bf" and "tx_ok d t H n" and "1 \<le> n" "card H \<le> Suc n" and "bm_inv bf sb (tx_area t) (tx_cont d t)"
    and "bm_block sb b \<notin> snd ` H" and "b < fs_total sb"
  shows "if in_use bf sb (tx_cont d t) b
         then \<exists>t'. bm_free bf sb d (of_nat b) t = Done t' \<and> tx_ok d t' H (n - 1) \<and>
            tx_cont d t' = (tx_cont d t)(bm_block sb b := bm_set bf (b mod BPB) False (tx_cont d t (bm_block sb b))) \<and>
            (\<forall>x < fs_total sb. in_use bf sb (tx_cont d t') x \<longleftrightarrow> x \<noteq> b \<and> in_use bf sb (tx_cont d t) x) \<and>
            tx_logged t' = insert (bm_block sb b) (tx_logged t) \<and> tx_area t' = tx_area t
         else bm_free bf sb d (of_nat b) t = Panicked ''bitmap: double freeing a block''"
  by (rule bit_crate.bm_free_spec [OF assms])

theorem bm_free_correct_witness:
  "\<exists>t'. bm_free word_bits demo_sb 1 40 (demo_tx demo_disk) = Done t' \<and> \<not> in_use word_bits demo_sb (tx_cont 1 t') 40 \<and>
     bm_free word_bits demo_sb 1 60 (demo_tx demo_disk) = Panicked ''bitmap: double freeing a block''"
proof -
  have len: "\<forall>b. length (demo_disk b) = BSIZE" by (simp add: demo_disk_def demo_bitmap_def BSIZE_def)
  note ok = demo_tx_ok [OF len]
  have d34: "demo_disk 34 = demo_bitmap" by (simp add: demo_disk_def)
  have tot: "fs_total demo_sb = 100" by (simp add: fs_total_def demo_sb_def)
  have u: "in_use word_bits demo_sb (tx_cont 1 (demo_tx demo_disk)) b \<longleftrightarrow> b < 50" if "b < 100" for b
    unfolding ok(2) using demo_use [of demo_disk b] d34 that by simp
  have inv: "bm_inv word_bits demo_sb (tx_area (demo_tx demo_disk)) (tx_cont 1 (demo_tx demo_disk))"
    unfolding ok(2,4) by (rule demo_bm_inv [of demo_disk, OF d34])
  note c = bm_free_correct [OF word_bits.bit_crate_axioms ok(1) _ _ inv]
  obtain t' where "bm_free word_bits demo_sb 1 (of_nat 40) (demo_tx demo_disk) = Done t'" "\<not> in_use word_bits demo_sb (tx_cont 1 t') 40"
    using c [of 40] u [of 40] tot by auto
  moreover have "bm_free word_bits demo_sb 1 (of_nat 60) (demo_tx demo_disk) = Panicked ''bitmap: double freeing a block''"
    using c [of 60] u [of 60] tot by auto
  ultimately show ?thesis by auto
qed

end
