(* ===== verification/Inode.thy ===== *)
theory Inode
  imports Bitmap
begin

text \<open>
  The contents of an inode in memory (\<^verbatim>\<open>InodeData\<close> of \<^verbatim>\<open>kernel/src/fs/inode.rs\<close>): the block map, reading,
  writing and truncating. The operations run inside a transaction and hold the inode's lock.
  Where the code copies to or from an \<^verbatim>\<open>Address\<close>, the model has a parameter: \<open>sink\<close> takes the next
  bytes and may fail, \<open>src k n\<close> gives the \<open>n\<close> bytes after the first \<open>k\<close> and whether the copy
  succeeded (a copy that fails may have stored some bytes).
\<close>

section \<open>Definitions\<close>

record inode_data =
  id_valid :: "(u32 \<times> u32) option"
  id_dinode :: disk_inode

definition inode_data_new :: inode_data where
  "inode_data_new = \<lparr>id_valid = None, id_dinode = disk_inode_new\<rparr>"

definition unwrap_none :: string where
  "unwrap_none = ''called `Option::unwrap()` on a `None` value''"

definition get_dev_inum :: "inode_data \<Rightarrow> (u32 \<times> u32) kres" where
  "get_dev_inum idata = (case id_valid idata of None \<Rightarrow> Panicked unwrap_none | Some v \<Rightarrow> Done v)"

definition upd_dinode :: "(disk_inode \<Rightarrow> disk_inode) \<Rightarrow> inode_data \<Rightarrow> inode_data" where
  "upd_dinode f idata = idata\<lparr>id_dinode := f (id_dinode idata)\<rparr>"

definition set_addr :: "nat \<Rightarrow> u32 \<Rightarrow> inode_data \<Rightarrow> inode_data" where
  "set_addr k bn = upd_dinode (\<lambda>di. di\<lparr>di_addrs := (di_addrs di)[k := bn]\<rparr>)"

definition idata_link :: "inode_data \<Rightarrow> inode_data kres" where
  "idata_link idata =
     (if unat (di_nlink (id_dinode idata)) + 1 < 2 ^ 16
      then Done (upd_dinode (\<lambda>di. di\<lparr>di_nlink := di_nlink di + 1\<rparr>) idata)
      else Panicked ''attempt to add with overflow'')"

definition idata_unlink :: "inode_data \<Rightarrow> inode_data kres" where
  "idata_unlink idata =
     (if di_nlink (id_dinode idata) = 0 then Panicked ''attempt to subtract with overflow''
      else Done (upd_dinode (\<lambda>di. di\<lparr>di_nlink := di_nlink di - 1\<rparr>) idata))"

definition iupdate :: "super_block \<Rightarrow> inode_data \<Rightarrow> tstate \<Rightarrow> tstate kres" where
  "iupdate sb idata t =
     kbind (get_dev_inum idata) (\<lambda>(dev, inum).
     kbind (locate_inode sb inum) (\<lambda>blockno.
     kbind (tx_bread dev blockno t) (\<lambda>(buf, t1).
       tx_write buf (put_dinode (locate_inode_offset inum) (id_dinode idata) (tx_data buf t1)) t1)))"

text \<open>\<^verbatim>\<open>truncate\<close>: direct blocks, then the indirect block and what it names.\<close>

fun free_direct :: "bit_field \<Rightarrow> super_block \<Rightarrow> u32 \<Rightarrow> nat list \<Rightarrow> inode_data \<Rightarrow> tstate \<Rightarrow> (inode_data \<times> tstate) kres" where
  "free_direct bf sb dev [] idata t = Done (idata, t)"
| "free_direct bf sb dev (i # is) idata t =
     (let bn = di_addrs (id_dinode idata) ! i
      in if bn > 0
         then kbind (bm_free bf sb dev bn t) (free_direct bf sb dev is (set_addr i 0 idata))
         else free_direct bf sb dev is idata t)"

fun free_indirect :: "bit_field \<Rightarrow> super_block \<Rightarrow> u32 \<Rightarrow> block \<Rightarrow> nat list \<Rightarrow> tstate \<Rightarrow> tstate kres" where
  "free_indirect bf sb dev blk [] t = Done t"
| "free_indirect bf sb dev blk (i # is) t =
     (let bn = read_u32 blk i
      in if bn > 0 then kbind (bm_free bf sb dev bn t) (free_indirect bf sb dev blk is)
         else free_indirect bf sb dev blk is t)"

definition itruncate :: "bit_field \<Rightarrow> super_block \<Rightarrow> inode_data \<Rightarrow> tstate \<Rightarrow> (inode_data \<times> tstate) kres" where
  "itruncate bf sb idata t =
     kbind (get_dev_inum idata) (\<lambda>(dev, inum).
     kbind (free_direct bf sb dev [0..<NDIRECT] idata t) (\<lambda>(id1, t1).
     kbind (let ind = di_addrs (id_dinode id1) ! NDIRECT
            in if ind > 0
               then kbind (tx_bread dev ind t1) (\<lambda>(buf, t2).
                    kbind (free_indirect bf sb dev (tx_data buf t2) [0..<NINDIRECT] t2) (\<lambda>t3.
                    kbind (tx_drop buf t3) (\<lambda>t4.
                    kbind (bm_free bf sb dev ind t4) (\<lambda>t5. Done (set_addr NDIRECT 0 id1, t5)))))
               else Done (id1, t1)) (\<lambda>(id2, t2).
       let id3 = upd_dinode (\<lambda>di. di\<lparr>di_size := 0\<rparr>) id2
       in kbind (iupdate sb id3 t2) (\<lambda>t3. Done (id3, t3)))))"

definition map_slot :: "bit_field \<Rightarrow> super_block \<Rightarrow> u32 \<Rightarrow> nat \<Rightarrow> inode_data \<Rightarrow> tstate \<Rightarrow> (u32 \<times> inode_data \<times> tstate) kres" where
  "map_slot bf sb dev k idata t =
     (let bn = di_addrs (id_dinode idata) ! k
      in if bn = 0 then kbind (bm_alloc bf sb dev t) (\<lambda>(free_bn, t1). Done (free_bn, set_addr k free_bn idata, t1))
         else Done (bn, idata, t))"

definition map_blockno :: "bit_field \<Rightarrow> super_block \<Rightarrow> nat \<Rightarrow> inode_data \<Rightarrow> tstate \<Rightarrow> (u32 \<times> inode_data \<times> tstate) kres" where
  "map_blockno bf sb offset_bn idata t =
     kbind (get_dev_inum idata) (\<lambda>(dev, inum).
       if offset_bn < NDIRECT then map_slot bf sb dev offset_bn idata t
       else if offset_bn < NDIRECT + NINDIRECT
       then kbind (map_slot bf sb dev NDIRECT idata t) (\<lambda>(indirect_bn, id1, t1).
            kbind (tx_bread dev indirect_bn t1) (\<lambda>(buf, t2).
              let count = offset_bn - NDIRECT; bn = read_u32 (tx_data buf t2) count
              in if bn = 0
                 then kbind (bm_alloc bf sb dev t2) (\<lambda>(free_bn, t3).
                      kbind (tx_write buf (put_bytes (4 * count) (le32 free_bn) (tx_data buf t3)) t3) (\<lambda>t4.
                        Done (free_bn, id1, t4)))
                 else kbind (tx_drop buf t2) (\<lambda>t3. Done (bn, id1, t3))))
       else Panicked ''queried offset_bn out of range'')"

text \<open>
  The loop of \<^verbatim>\<open>iread\<close>. \<open>pos\<close> is \<^verbatim>\<open>block_base * BSIZE + block_offset\<close> and \<^verbatim>\<open>read_count\<close> is what is left
  in the block or to be read: after the first turn the block offset is 0, as in the code.
\<close>

function iread_loop :: "bit_field \<Rightarrow> super_block \<Rightarrow> ('d \<Rightarrow> u8 list \<Rightarrow> 'd option) \<Rightarrow> u32 \<Rightarrow> nat \<Rightarrow> nat \<Rightarrow> 'd \<Rightarrow> inode_data \<Rightarrow> tstate \<Rightarrow>
    ('d option \<times> inode_data \<times> tstate) kres" where
  "iread_loop bf sb sink dev pos count dst idata t =
     (if count = 0 then Done (Some dst, idata, t)
      else let read_count = min (BSIZE - pos mod BSIZE) count
           in kbind (map_blockno bf sb (pos div BSIZE) idata t) (\<lambda>(bn, id1, t1).
              kbind (tx_bread dev bn t1) (\<lambda>(buf, t2).
                let bytes = take read_count (drop (pos mod BSIZE) (tx_data buf t2))
                in kbind (tx_drop buf t2) (\<lambda>t3.
                   case sink dst bytes of
                     None \<Rightarrow> Done (None, id1, t3)
                   | Some dst' \<Rightarrow> iread_loop bf sb sink dev (pos + read_count) (count - read_count) dst' id1 t3))))"
  by pat_completeness auto
termination
  by (relation "measure (\<lambda>(bf, sb, sink, dev, pos, count, dst, idata, t). count)") (auto simp: BSIZE_def)

text \<open>\<^verbatim>\<open>iread\<close>: \<open>None\<close> is \<^verbatim>\<open>Err\<close>.\<close>

definition iread :: "bit_field \<Rightarrow> super_block \<Rightarrow> ('d \<Rightarrow> u8 list \<Rightarrow> 'd option) \<Rightarrow> 'd \<Rightarrow> u32 \<Rightarrow> u32 \<Rightarrow> inode_data \<Rightarrow> tstate \<Rightarrow>
    ('d option \<times> inode_data \<times> tstate) kres" where
  "iread bf sb sink dst offset count idata t =
     (if unat offset + unat count \<ge> 2 ^ 32 \<or> offset + count > di_size (id_dinode idata) then Done (None, idata, t)
      else kbind (get_dev_inum idata) (\<lambda>(dev, inum).
             iread_loop bf sb sink dev (unat offset) (unat count) dst idata t))"

definition try_iread :: "bit_field \<Rightarrow> super_block \<Rightarrow> ('d \<Rightarrow> u8 list \<Rightarrow> 'd option) \<Rightarrow> 'd \<Rightarrow> u32 \<Rightarrow> u32 \<Rightarrow> inode_data \<Rightarrow> tstate \<Rightarrow>
    ((u32 \<times> 'd) option \<times> inode_data \<times> tstate) kres" where
  "try_iread bf sb sink dst offset count idata t =
     (if offset > di_size (id_dinode idata) then Done (Some (0, dst), idata, t)
      else if unat offset + unat count \<ge> 2 ^ 32 then Done (None, idata, t)
      else let actual = (if offset + count > di_size (id_dinode idata) then di_size (id_dinode idata) - offset else count)
           in kbind (iread bf sb sink dst offset actual idata t) (\<lambda>(r, id1, t1).
                Done (map_option (\<lambda>d. (actual, d)) r, id1, t1)))"

text \<open>The bytes of a copy that fails stay in the buffer, which is dropped without being logged.\<close>

definition tx_put :: "buf \<Rightarrow> block \<Rightarrow> tstate \<Rightarrow> tstate" where
  "tx_put buf v = (\<lambda>(lg, s). (lg, raw_data_mut buf v s))"

function iwrite_loop :: "bit_field \<Rightarrow> super_block \<Rightarrow> (nat \<Rightarrow> nat \<Rightarrow> u8 list \<times> bool) \<Rightarrow> u32 \<Rightarrow> nat \<Rightarrow> nat \<Rightarrow> nat \<Rightarrow> inode_data \<Rightarrow> tstate \<Rightarrow>
    (nat \<times> inode_data \<times> tstate) kres" where
  "iwrite_loop bf sb src dev pos done' count idata t =
     (if count = 0 then Done (0, idata, t)
      else let write_count = min (BSIZE - pos mod BSIZE) count
           in kbind (map_blockno bf sb (pos div BSIZE) idata t) (\<lambda>(bn, id1, t1).
              kbind (tx_bread dev bn t1) (\<lambda>(buf, t2).
                case src done' write_count of
                  (bytes, False) \<Rightarrow>
                    kbind (tx_drop buf (tx_put buf (put_bytes (pos mod BSIZE) bytes (tx_data buf t2)) t2)) (\<lambda>t3.
                      Done (count, id1, t3))
                | (bytes, True) \<Rightarrow>
                    kbind (tx_write buf (put_bytes (pos mod BSIZE) bytes (tx_data buf t2)) t2) (\<lambda>t3.
                      iwrite_loop bf sb src dev (pos + write_count) (done' + write_count) (count - write_count) id1 t3))))"
  by pat_completeness auto
termination
  by (relation "measure (\<lambda>(bf, sb, src, dev, pos, done', count, idata, t). count)") (auto simp: BSIZE_def)

definition try_iwrite :: "bit_field \<Rightarrow> super_block \<Rightarrow> (nat \<Rightarrow> nat \<Rightarrow> u8 list \<times> bool) \<Rightarrow> u32 \<Rightarrow> u32 \<Rightarrow> inode_data \<Rightarrow> tstate \<Rightarrow>
    (u32 option \<times> inode_data \<times> tstate) kres" where
  "try_iwrite bf sb src offset count idata t =
     (if offset > di_size (id_dinode idata) then Done (None, idata, t)
      else if unat offset + unat count \<ge> 2 ^ 32 \<or> unat offset + unat count > MAX_FILE_SIZE then Done (None, idata, t)
      else kbind (get_dev_inum idata) (\<lambda>(dev, inum).
           kbind (iwrite_loop bf sb src dev (unat offset) 0 (unat count) idata t) (\<lambda>(left, id1, t1).
             let size' = of_nat (unat offset + unat count - left);
                 id2 = (if size' > di_size (id_dinode id1) then upd_dinode (\<lambda>di. di\<lparr>di_size := size'\<rparr>) id1 else id1)
             in kbind (iupdate sb id2 t1) (\<lambda>t2.
                kbind (u32_sub size' offset) (\<lambda>n. Done (Some n, id2, t2))))))"

definition iwrite :: "bit_field \<Rightarrow> super_block \<Rightarrow> (nat \<Rightarrow> nat \<Rightarrow> u8 list \<times> bool) \<Rightarrow> u32 \<Rightarrow> u32 \<Rightarrow> inode_data \<Rightarrow> tstate \<Rightarrow>
    (bool \<times> inode_data \<times> tstate) kres" where
  "iwrite bf sb src offset count idata t =
     kbind (try_iwrite bf sb src offset count idata t) (\<lambda>(r, id1, t1). Done (r = Some count, id1, t1))"

record file_stat =
  st_dev :: u32
  st_inum :: u32
  st_itype :: inode_type
  st_nlink :: u16
  st_size :: u64

definition istat :: "inode_data \<Rightarrow> file_stat kres" where
  "istat idata =
     kbind (get_dev_inum idata) (\<lambda>(dev, inum).
       Done \<lparr>st_dev = dev, st_inum = inum, st_itype = di_itype (id_dinode idata), st_nlink = di_nlink (id_dinode idata),
             st_size = ucast (di_size (id_dinode idata))\<rparr>)"

text \<open>A kernel buffer as destination and as source.\<close>

definition kernel_sink :: "u8 list \<Rightarrow> u8 list \<Rightarrow> u8 list option" where
  "kernel_sink buf bytes = Some (buf @ bytes)"

definition kernel_src :: "u8 list \<Rightarrow> nat \<Rightarrow> nat \<Rightarrow> u8 list \<times> bool" where
  "kernel_src bytes k n = (take n (drop k bytes), True)"

end
