(* ===== verification/FileMap.thy ===== *)
theory FileMap
  imports Inode
begin

text \<open>
  The block map of a file. \<open>slot idata c k\<close> is the block that holds block \<open>k\<close> of the file, 0 if there is
  none; slot 268 is the indirect block. \<open>file_ok\<close> is the invariant of an inode: its blocks
  are in use, distinct, and none of them belongs to the log, the bitmap or the inode table.
\<close>

section \<open>Slots\<close>

abbreviation IND :: nat where "IND \<equiv> 268"

definition slot_of :: "inode_data \<Rightarrow> (u32 \<Rightarrow> block) \<Rightarrow> nat \<Rightarrow> u32" where
  "slot_of idata c k =
     (let a = di_addrs (id_dinode idata)
      in if k < NDIRECT then a ! k
         else if k = IND then a ! NDIRECT
         else if a ! NDIRECT = 0 then 0 else read_u32 (c (a ! NDIRECT)) (k - NDIRECT))"

definition iblock :: "super_block \<Rightarrow> u32 \<Rightarrow> u32" where
  "iblock sb inum = inum div of_nat IPB + sb_inodestart (sb_data sb)"

text \<open>The metadata of the file system around one inode.\<close>

definition meta_ok :: "bit_field \<Rightarrow> super_block \<Rightarrow> u32 set \<Rightarrow> (u32 \<Rightarrow> block) \<Rightarrow> u32 \<Rightarrow> bool" where
  "meta_ok bf sb area c inum \<longleftrightarrow>
     bm_inv bf sb area c \<and> 0 < fs_total sb \<and> in_use bf sb c 0 \<and>
     locate_inode sb inum = Done (iblock sb inum) \<and> unat (iblock sb inum) < fs_total sb \<and>
     in_use bf sb c (unat (iblock sb inum)) \<and> iblock sb inum \<notin> area \<and> iblock sb inum \<notin> bm_block sb ` {..<fs_total sb}"

definition data_ok :: "bit_field \<Rightarrow> super_block \<Rightarrow> u32 set \<Rightarrow> (u32 \<Rightarrow> block) \<Rightarrow> u32 \<Rightarrow> u32 \<Rightarrow> bool" where
  "data_ok bf sb area c inum b \<longleftrightarrow>
     b \<noteq> 0 \<and> unat b < fs_total sb \<and> in_use bf sb c (unat b) \<and> b \<notin> area \<and> b \<notin> bm_block sb ` {..<fs_total sb} \<and> b \<noteq> iblock sb inum"

definition file_ok :: "bit_field \<Rightarrow> super_block \<Rightarrow> u32 \<Rightarrow> u32 set \<Rightarrow> (u32 \<Rightarrow> block) \<Rightarrow> u32 \<Rightarrow> inode_data \<Rightarrow> bool" where
  "file_ok bf sb d area c inum idata \<longleftrightarrow>
     meta_ok bf sb area c inum \<and> id_valid idata = Some (d, inum) \<and> length (di_addrs (id_dinode idata)) = NDIRECT + 1 \<and>
     (\<forall>k \<le> IND. slot_of idata c k \<noteq> 0 \<longrightarrow> data_ok bf sb area c inum (slot_of idata c k)) \<and>
     (\<forall>j \<le> IND. \<forall>k \<le> IND. slot_of idata c j \<noteq> 0 \<and> slot_of idata c j = slot_of idata c k \<longrightarrow> j = k) \<and>
     unat (di_size (id_dinode idata)) \<le> MAX_FILE_SIZE \<and>
     (\<forall>k. k * BSIZE < unat (di_size (id_dinode idata)) \<longrightarrow> slot_of idata c k \<noteq> 0)"

lemma file_okD:
  assumes "file_ok bf sb d area c inum idata"
  shows "meta_ok bf sb area c inum" "id_valid idata = Some (d, inum)" "length (di_addrs (id_dinode idata)) = NDIRECT + 1"
    "k \<le> IND \<Longrightarrow> slot_of idata c k \<noteq> 0 \<Longrightarrow> data_ok bf sb area c inum (slot_of idata c k)"
    "j \<le> IND \<Longrightarrow> k \<le> IND \<Longrightarrow> slot_of idata c j \<noteq> 0 \<Longrightarrow> slot_of idata c j = slot_of idata c k \<Longrightarrow> j = k"
    "unat (di_size (id_dinode idata)) \<le> MAX_FILE_SIZE"
    "k * BSIZE < unat (di_size (id_dinode idata)) \<Longrightarrow> slot_of idata c k \<noteq> 0"
  using assms unfolding file_ok_def by blast+

lemma slot_small: "slot_of idata c k \<noteq> 0 \<Longrightarrow> k < IND \<Longrightarrow> k < NDIRECT \<or> di_addrs (id_dinode idata) ! NDIRECT \<noteq> 0"
  by (auto simp: slot_of_def Let_def split: if_splits)

lemma slot_IND: "slot_of idata c IND = di_addrs (id_dinode idata) ! NDIRECT"
  by (simp add: slot_of_def NDIRECT_def)

lemma slot_direct: "k < NDIRECT \<Longrightarrow> slot_of idata c k = di_addrs (id_dinode idata) ! k"
  by (simp add: slot_of_def)

lemma slot_indirect:
  "NDIRECT \<le> k \<Longrightarrow> k < IND \<Longrightarrow> slot_of idata c k = (if slot_of idata c IND = 0 then 0 else read_u32 (c (slot_of idata c IND)) (k - NDIRECT))"
  by (simp add: slot_of_def NDIRECT_def)

text \<open>The map depends on the addresses and on the indirect block only.\<close>

lemma slot_cong:
  assumes "di_addrs (id_dinode idata') = di_addrs (id_dinode idata)" and "slot_of idata c IND \<noteq> 0 \<Longrightarrow> c' (slot_of idata c IND) = c (slot_of idata c IND)"
  shows "slot_of idata' c' k = slot_of idata c k"
  using assms by (auto simp: slot_of_def Let_def NDIRECT_def)

lemma read_put_u32:
  assumes "length blk = BSIZE" and "k < NINDIRECT" and "j < NINDIRECT"
  shows "read_u32 (put_bytes (4 * k) (le32 w) blk) j = (if j = k then w else read_u32 blk j)"
proof (cases "j = k")
  case True
  have "4 * k + length (le32 w) \<le> length blk" using assms by (simp add: NINDIRECT_def BSIZE_def)
  then show ?thesis using True drop_put_bytes [of "4 * k" "le32 w" blk] by (simp add: read_u32_def)
next
  case False
  have le: "4 * k + length (le32 w) \<le> length blk" "4 * j + 4 \<le> length blk" using assms by (simp_all add: NINDIRECT_def BSIZE_def)
  have "take 4 (drop (4 * j) (put_bytes (4 * k) (le32 w) blk)) = take 4 (drop (4 * j) blk)"
  proof (rule nth_equalityI)
    fix i assume "i < length (take 4 (drop (4 * j) (put_bytes (4 * k) (le32 w) blk)))"
    then have i: "i < 4" "4 * j + i < length blk" using le by (simp_all add: length_put_bytes)
    have "\<not> (4 * k \<le> 4 * j + i \<and> 4 * j + i < 4 * k + 4)" using False i(1) by linarith
    then show "take 4 (drop (4 * j) (put_bytes (4 * k) (le32 w) blk)) ! i = take 4 (drop (4 * j) blk) ! i"
      using i le nth_put_bytes [OF le(1) i(2)] by (auto simp: length_put_bytes)
  qed (use le in \<open>simp add: length_put_bytes\<close>)
  then show ?thesis using False by (simp add: read_u32_def of_le32_def)
qed

lemma read_zero_block: "j < NINDIRECT \<Longrightarrow> read_u32 (replicate BSIZE 0) j = 0"
  by (simp add: read_u32_def of_le32_zero)

section \<open>Taking a block\<close>

text \<open>What a change of the file system keeps of a file that has the blocks \<open>S\<close>.\<close>

context bit_crate
begin

lemma taken_facts:
  assumes tk: "block_taken bf sb d t t' b" and me: "meta_ok bf sb (tx_area t) (tx_cont d t) inum"
  shows "meta_ok bf sb (tx_area t') (tx_cont d t') inum" "data_ok bf sb (tx_area t') (tx_cont d t') inum (of_nat b)"
    "data_ok bf sb (tx_area t) (tx_cont d t) inum x \<Longrightarrow>
       data_ok bf sb (tx_area t') (tx_cont d t') inum x \<and> tx_cont d t' x = tx_cont d t x \<and> x \<noteq> of_nat b"
    "tx_cont d t' (iblock sb inum) = tx_cont d t (iblock sb inum)" "tx_cont d t' (of_nat b) = replicate BSIZE 0"
proof -
  let ?c = "tx_cont d t" and ?c' = "tx_cont d t'" and ?bm = "bm_block sb ` {..<fs_total sb}"
  have bm: "bm_inv bf sb (tx_area t) ?c" using me by (simp add: meta_ok_def)
  have b: "b < fs_total sb" "\<not> in_use bf sb ?c b" and c': "?c' = ?c(bm_block sb b := bm_set bf (b mod BPB) True (?c (bm_block sb b)), of_nat b := replicate BSIZE 0)"
    and us: "\<forall>x < fs_total sb. in_use bf sb ?c' x \<longleftrightarrow> x = b \<or> in_use bf sb ?c x" and ar: "tx_area t' = tx_area t"
    using tk unfolding block_taken_def by blast+
  have ub: "unat (of_nat b :: u32) = b" by (rule block_number(2) [OF b(1)])
  have nb: "of_nat b \<notin> tx_area t" "of_nat b \<notin> ?bm" using bm_inv_free [OF bm b] b(1) by auto
  have ne: "x \<noteq> of_nat b" if "unat x < fs_total sb" "in_use bf sb ?c (unat x)" for x :: u32
    using that b(2) ub by metis
  have "?bm \<noteq> {}" using b(1) by auto
  have same: "?c' x = ?c x" if "x \<notin> ?bm" "x \<noteq> of_nat b" for x
    using that b(1) by (auto simp: c')
  have ib: "iblock sb inum \<noteq> of_nat b" "iblock sb inum \<notin> ?bm" using me ne by (auto simp: meta_ok_def)
  show "meta_ok bf sb (tx_area t') ?c' inum"
    using me bm_inv_taken [OF bm tk] us by (auto simp: meta_ok_def ar)
  have "of_nat b \<noteq> (0 :: u32)" using me ne [of 0] by (auto simp: meta_ok_def)
  then show "data_ok bf sb (tx_area t') ?c' inum (of_nat b)"
    using b(1) ub us nb ib(1) by (auto simp: data_ok_def ar)
  show "data_ok bf sb (tx_area t') ?c' inum x \<and> ?c' x = ?c x \<and> x \<noteq> of_nat b" if "data_ok bf sb (tx_area t) ?c inum x"
    using that us ne [of x] same [of x] by (auto simp: data_ok_def ar)
  show "?c' (iblock sb inum) = ?c (iblock sb inum)" by (rule same [OF ib(2,1)])
  show "?c' (of_nat b) = replicate BSIZE 0" by (simp add: c')
qed

end

text \<open>A file whose map gained one block.\<close>

lemma file_gain:
  assumes f: "file_ok bf sb d area c inum idata" and me: "meta_ok bf sb area' c' inum"
    and keep: "\<And>x. data_ok bf sb area c inum x \<Longrightarrow> data_ok bf sb area' c' inum x \<and> x \<noteq> nb" and nb: "data_ok bf sb area' c' inum nb"
    and sl: "\<And>j. j \<le> IND \<Longrightarrow> slot_of idata' c' j = (if j = k then nb else slot_of idata c j)"
    and k: "slot_of idata c k = 0"
    and id': "id_valid idata' = id_valid idata" "length (di_addrs (id_dinode idata')) = NDIRECT + 1"
      "di_size (id_dinode idata') = di_size (id_dinode idata)"
  shows "file_ok bf sb d area' c' inum idata'"
proof -
  note fd = file_okD [OF f]
  have n0: "nb \<noteq> 0" using nb by (simp add: data_ok_def)
  have "slot_of idata' c' j \<noteq> 0" if "j * BSIZE < unat (di_size (id_dinode idata'))" for j
  proof -
    have "j \<le> IND" using that fd(6) by (simp add: id'(3) MAX_FILE_SIZE_def NDIRECT_def NINDIRECT_def BSIZE_def)
    then show ?thesis using that fd(7) [of j] sl n0 by (simp add: id'(3))
  qed
  moreover have "data_ok bf sb area' c' inum (slot_of idata' c' j)" if "j \<le> IND" "slot_of idata' c' j \<noteq> 0" for j
    using that sl fd(4) [of j] keep nb by (auto split: if_splits)
  moreover have "i = j" if "i \<le> IND" "j \<le> IND" "slot_of idata' c' i \<noteq> 0" "slot_of idata' c' i = slot_of idata' c' j" for i j
  proof -
    have "slot_of idata c x \<noteq> nb" if "x \<le> IND" "slot_of idata c x \<noteq> 0" for x using fd(4) [OF that] keep by blast
    then show ?thesis using that sl fd(5) [of i j] n0 by (auto split: if_splits)
  qed
  moreover have "id_valid idata' = Some (d, inum)" "unat (di_size (id_dinode idata')) \<le> MAX_FILE_SIZE"
    using id' fd(2,6) by simp_all
  ultimately show ?thesis
    using me id'(2) unfolding file_ok_def by blast
qed

text \<open>The number of free blocks.\<close>

definition nfree :: "bit_field \<Rightarrow> super_block \<Rightarrow> (u32 \<Rightarrow> block) \<Rightarrow> nat" where
  "nfree bf sb c = card {b. b < fs_total sb \<and> \<not> in_use bf sb c b}"

lemma nfree_taken:
  assumes "block_taken bf sb d t t' b"
  shows "nfree bf sb (tx_cont d t) = Suc (nfree bf sb (tx_cont d t'))"
proof -
  have "{x. x < fs_total sb \<and> \<not> in_use bf sb (tx_cont d t) x} =
      insert b {x. x < fs_total sb \<and> \<not> in_use bf sb (tx_cont d t') x}" "in_use bf sb (tx_cont d t') b"
    using assms by (auto simp: block_taken_def)
  then show ?thesis by (simp add: nfree_def)
qed

text \<open>Changes outside the bitmap keep it.\<close>

lemma in_use_upd: "x \<notin> bm_block sb ` {..<fs_total sb} \<Longrightarrow> y < fs_total sb \<Longrightarrow> in_use bf sb (c(x := v)) y = in_use bf sb c y"
  by (auto simp: in_use_def)

lemma meta_ok_upd: "x \<notin> bm_block sb ` {..<fs_total sb} \<Longrightarrow> meta_ok bf sb area (c(x := v)) inum = meta_ok bf sb area c inum"
  by (auto simp: meta_ok_def bm_inv_def in_use_upd)

lemma data_ok_upd: "x \<notin> bm_block sb ` {..<fs_total sb} \<Longrightarrow> data_ok bf sb area (c(x := v)) inum b = data_ok bf sb area c inum b"
  by (auto simp: data_ok_def in_use_upd)

lemma nfree_upd: "x \<notin> bm_block sb ` {..<fs_total sb} \<Longrightarrow> nfree bf sb (c(x := v)) = nfree bf sb c"
  unfolding nfree_def by (intro arg_cong [where f = card] Collect_cong) (auto simp: in_use_upd)

section \<open>Mapping a block\<close>

definition full_disk :: string where
  "full_disk = ''bitmap: cannot alloc any free block''"

definition same_file :: "inode_data \<Rightarrow> inode_data \<Rightarrow> bool" where
  "same_file idata idata' \<longleftrightarrow>
     id_valid idata' = id_valid idata \<and>
     id_dinode idata' = (id_dinode idata)\<lparr>di_addrs := di_addrs (id_dinode idata')\<rparr>"

text \<open>Block \<open>k\<close> of the file is now mapped; the others and their contents are as before.\<close>

definition mapped_step :: "bit_field \<Rightarrow> super_block \<Rightarrow> u32 \<Rightarrow> u32 \<Rightarrow> nat \<Rightarrow> inode_data \<Rightarrow> tstate \<Rightarrow> inode_data \<Rightarrow> tstate \<Rightarrow> bool" where
  "mapped_step bf sb d inum k idata t idata' t' \<longleftrightarrow>
     file_ok bf sb d (tx_area t') (tx_cont d t') inum idata' \<and> same_file idata idata' \<and> tx_area t' = tx_area t \<and>
     slot_of idata' (tx_cont d t') k \<noteq> 0 \<and>
     (\<forall>j < IND. slot_of idata (tx_cont d t) j \<noteq> 0 \<or> j \<noteq> k \<longrightarrow> slot_of idata' (tx_cont d t') j = slot_of idata (tx_cont d t) j) \<and>
     (\<forall>j < IND. slot_of idata (tx_cont d t) j \<noteq> 0 \<longrightarrow> tx_cont d t' (slot_of idata (tx_cont d t) j) = tx_cont d t (slot_of idata (tx_cont d t) j)) \<and>
     tx_cont d t' (iblock sb inum) = tx_cont d t (iblock sb inum)"

lemma same_file_refl: "same_file idata idata"
  by (simp add: same_file_def)

lemma same_file_set_addr: "same_file idata (set_addr k b idata)"
  by (simp add: same_file_def set_addr_def upd_dinode_def)

lemma same_file_trans: "same_file a b \<Longrightarrow> same_file b c \<Longrightarrow> same_file a c"
  unfolding same_file_def by (metis (no_types, lifting) disk_inode.surjective disk_inode.update_convs(6))

lemma slot_set_addr:
  assumes "length (di_addrs (id_dinode idata)) = NDIRECT + 1" and "p \<le> NDIRECT" and "j \<le> IND"
    and "p = NDIRECT \<Longrightarrow> di_addrs (id_dinode idata) ! NDIRECT = 0 \<and> b \<noteq> 0 \<and> c' b = replicate BSIZE 0"
    and "slot_of idata c IND \<noteq> 0 \<Longrightarrow> c' (slot_of idata c IND) = c (slot_of idata c IND)"
  shows "slot_of (set_addr p b idata) c' j = (if j = (if p = NDIRECT then IND else p) then b else slot_of idata c j)"
proof -
  have "read_u32 (replicate BSIZE 0) (j - NDIRECT) = 0" if "NDIRECT \<le> j" "j \<noteq> IND"
    using that assms(3) by (intro read_zero_block) (simp add: NDIRECT_def NINDIRECT_def BSIZE_def)
  then show ?thesis
    using assms by (auto simp: slot_of_def set_addr_def upd_dinode_def Let_def nth_list_update NDIRECT_def)
qed

lemma slot_put_indirect:
  assumes I: "slot_of idata c IND = I" "I \<noteq> 0" and k: "NDIRECT \<le> k" "k < IND" and "j \<le> IND" and "length (c I) = BSIZE"
  shows "slot_of idata (c(I := put_bytes (4 * (k - NDIRECT)) (le32 w) (c I))) j = (if j = k then w else slot_of idata c j)"
proof -
  let ?c = "c(I := put_bytes (4 * (k - NDIRECT)) (le32 w) (c I))"
  have I': "slot_of idata ?c IND = I" using I(1) unfolding slot_IND .
  consider "j < NDIRECT" | "j = IND" | "NDIRECT \<le> j" "j < IND" using assms(5) by linarith
  then show ?thesis
  proof cases
    case 1
    then show ?thesis using k by (simp add: slot_direct)
  next
    case 2
    then show ?thesis using k I(1) I' by simp
  next
    case 3
    have b: "k - NDIRECT < NINDIRECT" "j - NDIRECT < NINDIRECT" using 3 k by (simp_all add: NDIRECT_def NINDIRECT_def BSIZE_def)
    have "slot_of idata ?c j = read_u32 (?c I) (j - NDIRECT)" unfolding slot_indirect [OF 3] I' using I(2) by simp
    also have "\<dots> = (if j - NDIRECT = k - NDIRECT then w else read_u32 (c I) (j - NDIRECT))"
      using read_put_u32 [OF assms(6) b, of w] by (simp only: fun_upd_same)
    moreover have "slot_of idata c j = read_u32 (c I) (j - NDIRECT)" unfolding slot_indirect [OF 3] I(1) using I(2) by simp
    moreover have "j - NDIRECT = k - NDIRECT \<longleftrightarrow> j = k" using 3(1) k(1) by linarith
    ultimately show ?thesis by simp
  qed
qed

context bit_crate
begin

lemma bm_alloc_file:
  assumes "tx_ok d t H n" "2 \<le> n" "card H < n" and f: "file_ok bf sb d (tx_area t) (tx_cont d t) inum idata"
    and H: "\<And>h b. (h, b) \<in> H \<Longrightarrow> data_ok bf sb (tx_area t) (tx_cont d t) inum b"
  shows "bm_alloc bf sb d t = Panicked full_disk \<and> nfree bf sb (tx_cont d t) = 0 \<or>
     (\<exists>b t'. bm_alloc bf sb d t = Done (of_nat b, t') \<and> tx_ok d t' H (n - 2) \<and> block_taken bf sb d t t' b)"
proof -
  have me: "meta_ok bf sb (tx_area t) (tx_cont d t) inum" by (rule file_okD(1) [OF f])
  have "held_ok bf sb (tx_cont d t) H"
    unfolding held_ok_def
  proof (intro allI impI conjI)
    fix b assume b: "b < fs_total sb"
    show "bm_block sb b \<notin> snd ` H" using H b by (fastforce simp: data_ok_def)
    assume "of_nat b \<in> snd ` H"
    then show "in_use bf sb (tx_cont d t) b" using H block_number(2) [OF b] by (fastforce simp: data_ok_def)
  qed
  moreover have "nfree bf sb (tx_cont d t) = 0" if "\<not> (\<exists>b < fs_total sb. \<not> in_use bf sb (tx_cont d t) b)"
    using that by (auto simp: nfree_def)
  ultimately show ?thesis
    using bm_alloc_spec [OF assms(1-3), of sb] me unfolding meta_ok_def full_disk_def by (meson)
qed

lemma map_slot_spec:
  assumes ok: "tx_ok d t {} n" "2 \<le> n" and f: "file_ok bf sb d (tx_area t) (tx_cont d t) inum idata" and p: "p \<le> NDIRECT"
  defines "k \<equiv> (if p = NDIRECT then IND else p)"
  shows "map_slot bf sb d p idata t = Panicked full_disk \<and> nfree bf sb (tx_cont d t) = 0 \<or>
     (\<exists>idata' t'. map_slot bf sb d p idata t = Done (slot_of idata' (tx_cont d t') k, idata', t') \<and> tx_ok d t' {} (n - 2) \<and>
        nfree bf sb (tx_cont d t) \<le> Suc (nfree bf sb (tx_cont d t')) \<and> mapped_step bf sb d inum k idata t idata' t' \<and>
        (\<forall>x. data_ok bf sb (tx_area t) (tx_cont d t) inum x \<longrightarrow> tx_cont d t' x = tx_cont d t x) \<and>
        (\<forall>j \<le> IND. j \<noteq> k \<longrightarrow> slot_of idata' (tx_cont d t') j = slot_of idata (tx_cont d t) j))"
proof -
  let ?c = "tx_cont d t"
  have sk: "slot_of idata ?c k = di_addrs (id_dinode idata) ! p"
    using p by (auto simp: k_def slot_of_def NDIRECT_def)
  note fd = file_okD [OF f]
  show ?thesis
  proof (cases "slot_of idata ?c k = 0")
    case False
    then have "map_slot bf sb d p idata t = Done (slot_of idata ?c k, idata, t)" by (simp add: map_slot_def sk)
    moreover have "tx_ok d t {} (n - 2)" by (rule tx.ok_mono [OF ok(1)]) simp
    moreover have "mapped_step bf sb d inum k idata t idata t"
      using f False by (simp add: mapped_step_def same_file_refl)
    ultimately show ?thesis by (intro disjI2 exI [of _ idata] exI [of _ t]) simp
  next
    case True
    from bm_alloc_file [OF ok(1,2) _ f] ok(2) consider (full) "bm_alloc bf sb d t = Panicked full_disk" "nfree bf sb ?c = 0"
      | (got) b t' where "bm_alloc bf sb d t = Done (of_nat b, t')" "tx_ok d t' {} (n - 2)" "block_taken bf sb d t t' b"
      by auto
    then show ?thesis
    proof cases
      case full
      then show ?thesis using True by (simp add: map_slot_def sk)
    next
      case got
      let ?c' = "tx_cont d t'" and ?id = "set_addr p (of_nat b) idata"
      note tf = taken_facts [OF got(3) fd(1)]
      have ar: "tx_area t' = tx_area t" using got(3) by (simp add: block_taken_def)
      have ms: "map_slot bf sb d p idata t = Done (of_nat b, ?id, t')" using True got(1) by (simp add: map_slot_def sk)
      have nz: "of_nat b \<noteq> (0 :: u32)" using tf(2) by (simp add: data_ok_def)
      have ind: "?c' (slot_of idata ?c IND) = ?c (slot_of idata ?c IND)" if "slot_of idata ?c IND \<noteq> 0"
        using tf(3) fd(4) [of IND] that by simp
      have sl: "slot_of ?id ?c' j = (if j = k then of_nat b else slot_of idata ?c j)" if "j \<le> IND" for j
        unfolding k_def
        by (rule slot_set_addr [of idata p j "of_nat b" ?c' ?c, OF fd(3) p that]) (use True sk nz tf(5) ind in auto)
      have kI: "k \<le> IND" using p by (simp add: k_def NDIRECT_def)
      have "file_ok bf sb d (tx_area t') ?c' inum ?id"
        by (rule file_gain [OF f tf(1) _ tf(2) sl True]) (use tf(3) fd(3) in \<open>auto simp: set_addr_def upd_dinode_def\<close>)
      then have "mapped_step bf sb d inum k idata t ?id t'"
        using sl kI nz tf(3,4) fd(4) ar True by (simp add: mapped_step_def same_file_set_addr)
      then show ?thesis using ms got(2) sl kI tf(3) nfree_taken [OF got(3)] by (intro disjI2 exI [of _ ?id] exI [of _ t']) auto
    qed
  qed
qed

lemma map_blockno_hit:
  assumes ok: "tx_ok d t {} n" and f: "file_ok bf sb d (tx_area t) (tx_cont d t) inum idata" and k: "k < IND"
    and s: "slot_of idata (tx_cont d t) k \<noteq> 0"
  shows "\<exists>t'. map_blockno bf sb k idata t = Done (slot_of idata (tx_cont d t) k, idata, t') \<and> tx_ok d t' {} n \<and>
     tx_cont d t' = tx_cont d t \<and> tx_logged t' = tx_logged t \<and> tx_area t' = tx_area t"
proof (cases "k < NDIRECT")
  case True
  then show ?thesis using ok s file_okD(2) [OF f] by (simp add: map_blockno_def get_dev_inum_def map_slot_def slot_direct)
next
  case False
  let ?c = "tx_cont d t" and ?i = "slot_of idata (tx_cont d t) IND"
  have sl: "?i \<noteq> 0" "slot_of idata ?c k = read_u32 (?c ?i) (k - NDIRECT)"
    using s slot_indirect [of k idata ?c] False k by (simp_all split: if_splits)
  obtain h t1 t' where "tx_bread d ?i t = Done (h, t1)" "tx_data h t1 = ?c ?i" "tx_drop h t1 = Done t'" "tx_ok d t' {} n"
    "tx_cont d t' = ?c" "tx_logged t' = tx_logged t" "tx_area t' = tx_area t"
    using tx.peek [OF ok, of ?i] by auto
  moreover have "map_slot bf sb d NDIRECT idata t = Done (?i, idata, t)"
    using sl(1) by (simp add: map_slot_def slot_IND)
  moreover have "k < NDIRECT + NINDIRECT" using k by (simp add: NDIRECT_def NINDIRECT_def BSIZE_def)
  ultimately show ?thesis
    using False s sl(2) file_okD(2) [OF f] by (simp add: map_blockno_def get_dev_inum_def)
qed

text \<open>A miss in the indirect block: a new block is entered in it.\<close>

lemma map_indirect_miss:
  assumes ok: "tx_ok d t {} n" and n: "3 \<le> n" and f: "file_ok bf sb d (tx_area t) (tx_cont d t) inum idata"
    and k: "NDIRECT \<le> k" "k < IND" and I: "slot_of idata (tx_cont d t) IND \<noteq> 0" and z: "slot_of idata (tx_cont d t) k = 0"
  defines "I \<equiv> slot_of idata (tx_cont d t) IND"
  shows "\<exists>buf t2. tx_bread d I t = Done (buf, t2) \<and> tx_data buf t2 = tx_cont d t I \<and>
     (bm_alloc bf sb d t2 = Panicked full_disk \<and> nfree bf sb (tx_cont d t) = 0 \<or>
      (\<exists>b t3 t4. bm_alloc bf sb d t2 = Done (of_nat b, t3) \<and>
         tx_write buf (put_bytes (4 * (k - NDIRECT)) (le32 (of_nat b)) (tx_data buf t3)) t3 = Done t4 \<and>
         tx_ok d t4 {} (n - 3) \<and> nfree bf sb (tx_cont d t) \<le> Suc (nfree bf sb (tx_cont d t4)) \<and> slot_of idata (tx_cont d t4) k = of_nat b \<and> mapped_step bf sb d inum k idata t idata t4))"
proof -
  let ?c = "tx_cont d t"
  note fd = file_okD [OF f]
  have Iok: "data_ok bf sb (tx_area t) ?c inum I" using fd(4) [of IND] I by (simp add: I_def)
  obtain buf t2 where t2: "tx_bread d I t = Done (buf, t2)" "tx_ok d t2 {(buf, I)} n" "tx_cont d t2 = ?c" "tx_area t2 = tx_area t"
    "tx_logged t2 = tx_logged t" using tx.rd_law [OF ok, of I] by auto
  have g: "tx_data buf t2 = ?c I" using tx.get_law [OF t2(2)] t2(3) by simp
  have "bm_alloc bf sb d t2 = Panicked full_disk \<and> nfree bf sb (tx_cont d t2) = 0 \<or>
     (\<exists>b t'. bm_alloc bf sb d t2 = Done (of_nat b, t') \<and> tx_ok d t' {(buf, I)} (n - 2) \<and> block_taken bf sb d t2 t' b)"
    by (rule bm_alloc_file [OF t2(2), of sb inum idata]) (use n f Iok t2(3,4) in auto)
  then consider "bm_alloc bf sb d t2 = Panicked full_disk" "nfree bf sb ?c = 0"
    | (got) b t3 where "bm_alloc bf sb d t2 = Done (of_nat b, t3)" "tx_ok d t3 {(buf, I)} (n - 2)" "block_taken bf sb d t2 t3 b" unfolding t2(3) by (elim disjE exE conjE)
  then show ?thesis
  proof cases
    case got
    let ?c3 = "tx_cont d t3" and ?w = "of_nat b :: u32"
    have "block_taken bf sb d t2 = block_taken bf sb d t" by (simp add: block_taken_def fun_eq_iff t2(3-5))
    then have tk: "block_taken bf sb d t t3 b" using got(3) by simp
    note tf = taken_facts [OF tk fd(1)]
    have ar: "tx_area t3 = tx_area t" using tk by (simp add: block_taken_def)
    have I3: "data_ok bf sb (tx_area t) ?c3 inum I" "?c3 I = ?c I" using tf(3) [OF Iok] ar by simp_all
    have nI: "I \<notin> bm_block sb ` {..<fs_total sb}" "I \<notin> tx_area t3" using I3 ar by (simp_all add: data_ok_def)
    let ?v = "put_bytes (4 * (k - NDIRECT)) (le32 ?w) (?c I)"
    have len: "length (?c I) = BSIZE" by (rule tx.block_length [OF ok])
    have "4 * (k - NDIRECT) + length (le32 ?w) \<le> length (?c I)" using len k(2) by (simp add: NDIRECT_def BSIZE_def)
    then have "length ?v = BSIZE" using length_put_bytes len by metis
    with tx.wr_law [OF got(2), of buf I ?v] nI(2) n obtain t4 where t4: "tx_write buf ?v t3 = Done t4"
      "tx_ok d t4 {} (if I \<in> tx_logged t3 then n - 2 else n - 2 - 1)" "tx_cont d t4 = ?c3(I := ?v)" "tx_area t4 = tx_area t3" by auto
    have ok4: "tx_ok d t4 {} (n - 3)" by (rule tx.ok_mono [OF t4(2)]) auto
    have I3': "slot_of idata ?c3 IND = I" by (simp add: I_def slot_IND)
    have s3: "slot_of idata ?c3 j = slot_of idata ?c j" for j
      by (rule slot_cong) (use I3(2) in \<open>simp_all add: I_def\<close>)
    have sl: "slot_of idata (tx_cont d t4) j = (if j = k then ?w else slot_of idata ?c j)" if "j \<le> IND" for j
      using slot_put_indirect [OF I3' _ k that, of ?w] I I3(2) len s3 by (simp add: t4(3) I_def)
    note up = meta_ok_upd [OF nI(1)] data_ok_upd [OF nI(1)]
    have "file_ok bf sb d (tx_area t4) (tx_cont d t4) inum idata"
      by (rule file_gain [OF f _ _ _ sl z]) (use tf fd(3) in \<open>simp_all add: t4(3,4) up\<close>)
    moreover have "tx_cont d t4 (slot_of idata ?c j) = ?c (slot_of idata ?c j)" if "j < IND" "slot_of idata ?c j \<noteq> 0" for j
    proof -
      have "slot_of idata ?c j \<noteq> I" using fd(5) [of j IND] that by (auto simp: I_def)
      then show ?thesis using tf(3) [OF fd(4) [of j]] that by (simp add: t4(3))
    qed
    moreover have "iblock sb inum \<noteq> I" using Iok by (auto simp: data_ok_def)
    moreover have "?w \<noteq> 0" using tf(2) by (simp add: data_ok_def)
    ultimately have "mapped_step bf sb d inum k idata t idata t4"
      using sl k z tf(4) t4(3,4) ar by (simp add: mapped_step_def same_file_refl)
    moreover have "nfree bf sb ?c \<le> Suc (nfree bf sb (tx_cont d t4))" using nfree_taken [OF tk] by (simp add: t4(3) nfree_upd [OF nI(1)])
    moreover have "tx_data buf t3 = ?c I" using tx.get_law [OF got(2), of buf I] I3(2) by simp
    ultimately show ?thesis using t2(1) g got(1) t4(1) ok4 sl [of k] k by auto
  qed (use t2(1) g in blast)
qed

text \<open>Two steps, first the indirect block and then the block itself.\<close>

lemma mapped_step_trans:
  assumes s1: "mapped_step bf sb d inum IND idata t id1 t1" and s2: "mapped_step bf sb d inum k id1 t1 id2 t2" and k: "k < IND"
    and eq: "\<forall>j \<le> IND. j \<noteq> IND \<longrightarrow> slot_of id1 (tx_cont d t1) j = slot_of idata (tx_cont d t) j"
  shows "mapped_step bf sb d inum k idata t id2 t2"
proof -
  have e: "slot_of id1 (tx_cont d t1) j = slot_of idata (tx_cont d t) j" if "j < IND" for j using eq that by simp
  show ?thesis
    using s1 s2 e same_file_trans [of idata id1 id2] unfolding mapped_step_def by (metis (no_types, lifting))
qed

lemma map_blockno_spec:
  assumes ok: "tx_ok d t {} n" and n: "5 \<le> n" and f: "file_ok bf sb d (tx_area t) (tx_cont d t) inum idata" and k: "k < IND"
  shows "map_blockno bf sb k idata t = Panicked full_disk \<and> nfree bf sb (tx_cont d t) < 2 \<or>
     (\<exists>idata' t'. map_blockno bf sb k idata t = Done (slot_of idata' (tx_cont d t') k, idata', t') \<and> tx_ok d t' {} (n - 5) \<and>
        nfree bf sb (tx_cont d t) \<le> nfree bf sb (tx_cont d t') + 2 \<and> mapped_step bf sb d inum k idata t idata' t')"
proof (cases "k < NDIRECT")
  case True
  have "2 \<le> n" "k \<noteq> NDIRECT" "k \<le> NDIRECT" using n True by simp_all
  with map_slot_spec [OF ok _ f, of k] have "map_slot bf sb d k idata t = Panicked full_disk \<and> nfree bf sb (tx_cont d t) < 2 \<or>
     (\<exists>idata' t'. map_slot bf sb d k idata t = Done (slot_of idata' (tx_cont d t') k, idata', t') \<and> tx_ok d t' {} (n - 2) \<and>
        nfree bf sb (tx_cont d t) \<le> nfree bf sb (tx_cont d t') + 2 \<and> mapped_step bf sb d inum k idata t idata' t')" by fastforce
  moreover have "map_blockno bf sb k idata t = map_slot bf sb d k idata t"
    using True file_okD(2) [OF f] by (simp add: map_blockno_def get_dev_inum_def)
  moreover have "tx_ok d t' {} (n - 2) \<Longrightarrow> tx_ok d t' {} (n - 5)" for t' by (erule tx.ok_mono) simp
  ultimately show ?thesis by auto
next
  case False
  have kk: "NDIRECT \<le> k" "k < NDIRECT + NINDIRECT" using False k by (simp_all add: NDIRECT_def NINDIRECT_def BSIZE_def)
  from map_slot_spec [OF ok _ f, of NDIRECT] n consider (full) "map_slot bf sb d NDIRECT idata t = Panicked full_disk" "nfree bf sb (tx_cont d t) = 0"
    | (got) id1 t1 where "map_slot bf sb d NDIRECT idata t = Done (slot_of id1 (tx_cont d t1) IND, id1, t1)" "tx_ok d t1 {} (n - 2)"
        "mapped_step bf sb d inum IND idata t id1 t1" "\<forall>j \<le> IND. j \<noteq> IND \<longrightarrow> slot_of id1 (tx_cont d t1) j = slot_of idata (tx_cont d t) j"
        "nfree bf sb (tx_cont d t) \<le> Suc (nfree bf sb (tx_cont d t1))"
    by auto
  then show ?thesis
  proof cases
    case full
    then show ?thesis using False kk file_okD(2) [OF f] by (simp add: map_blockno_def get_dev_inum_def)
  next
    case got
    let ?c1 = "tx_cont d t1" and ?I = "slot_of id1 (tx_cont d t1) IND"
    have f1: "file_ok bf sb d (tx_area t1) ?c1 inum id1" and I: "?I \<noteq> 0" using got(3) unfolding mapped_step_def by blast+
    have sk: "slot_of id1 ?c1 k = read_u32 (?c1 ?I) (k - NDIRECT)" using slot_indirect [OF kk(1) k, of id1 ?c1] I by simp
    note md = map_blockno_def get_dev_inum_def file_okD(2) [OF f] got(1)
    show ?thesis
    proof (cases "slot_of id1 ?c1 k = 0")
      case True
      have "3 \<le> n - 2" using n by simp
      from map_indirect_miss [OF got(2) this f1 kk(1) k I True] show ?thesis
        using False kk sk True got(5) mapped_step_trans [OF got(3) _ k got(4)] by (auto simp: md)
    next
      case F: False
      obtain h t2 t' where t': "tx_bread d ?I t1 = Done (h, t2)" "tx_data h t2 = ?c1 ?I" "tx_drop h t2 = Done t'" "tx_ok d t' {} (n - 2)"
        "tx_cont d t' = ?c1" "tx_area t' = tx_area t1" using tx.peek [OF got(2), of ?I] by auto
      have "tx_ok d t' {} (n - 5)" by (rule tx.ok_mono [OF t'(4)]) simp
      moreover have "mapped_step bf sb d inum k id1 t1 id1 t'" using f1 F t'(5,6) by (simp add: mapped_step_def same_file_refl)
      note mapped_step_trans [OF got(3) this k got(4)]
      ultimately show ?thesis using False kk sk F t' got(5) by (auto simp: md)
    qed
  qed
qed

end

end
