(* ===== verification/FileIo.thy ===== *)
theory FileIo
  imports FileMap
begin

text \<open>
  Reading and writing a file. The contents of a file are the bytes of its blocks up to its
  size; \<^verbatim>\<open>iread\<close> returns a part of them and \<^verbatim>\<open>iwrite\<close> overwrites a part and extends the file.
\<close>

declare split_paired_Ex [simp del] split_paired_All [simp del]
declare iread_loop.simps [simp del] iwrite_loop.simps [simp del]

section \<open>The bytes of a file\<close>

definition file_byte :: "inode_data \<Rightarrow> (u32 \<Rightarrow> block) \<Rightarrow> nat \<Rightarrow> u8" where
  "file_byte idata c i = c (slot_of idata c (i div BSIZE)) ! (i mod BSIZE)"

definition file_bytes :: "inode_data \<Rightarrow> (u32 \<Rightarrow> block) \<Rightarrow> nat \<Rightarrow> nat \<Rightarrow> u8 list" where
  "file_bytes idata c pos n = map (file_byte idata c) [pos..<pos + n]"

definition file_contents :: "inode_data \<Rightarrow> (u32 \<Rightarrow> block) \<Rightarrow> u8 list" where
  "file_contents idata c = file_bytes idata c 0 (unat (di_size (id_dinode idata)))"

lemma file_bytes_simps [simp]: "length (file_bytes idata c pos n) = n" "file_bytes idata c pos 0 = []"
  by (simp_all add: file_bytes_def)

lemma file_bytes_append: "file_bytes idata c pos m @ file_bytes idata c (pos + m) n = file_bytes idata c pos (m + n)"
  using upt_add_eq_append [of pos "pos + m" n] by (simp add: file_bytes_def add.assoc flip: map_append)

lemma file_bytes_contents:
  "pos + n \<le> unat (di_size (id_dinode idata)) \<Longrightarrow> file_bytes idata c pos n = take n (drop pos (file_contents idata c))"
  by (simp add: file_contents_def file_bytes_def drop_map take_map)

lemma BSIZE_pos [simp]: "0 < BSIZE" by (simp add: BSIZE_def)

lemma same_block:
  assumes "pos \<le> i" and "i < pos + r" and "r \<le> BSIZE - pos mod BSIZE"
  shows "i div BSIZE = pos div BSIZE" "i mod BSIZE = pos mod BSIZE + (i - pos)"
proof -
  have "i = pos div BSIZE * BSIZE + (pos mod BSIZE + (i - pos))" "pos mod BSIZE + (i - pos) < BSIZE"
    using assms div_mult_mod_eq [of pos BSIZE] by linarith+
  then show "i div BSIZE = pos div BSIZE" "i mod BSIZE = pos mod BSIZE + (i - pos)"
    by (metis BSIZE_pos add.commute div_mult_self3 div_less add_0 less_numeral_extra(3))
       (metis \<open>i = pos div BSIZE * BSIZE + (pos mod BSIZE + (i - pos))\<close> \<open>pos mod BSIZE + (i - pos) < BSIZE\<close> mod_less mod_mult_self3)
qed

lemma block_bytes:
  assumes "r \<le> BSIZE - pos mod BSIZE" and "length (c (slot_of idata c (pos div BSIZE))) = BSIZE"
  shows "take r (drop (pos mod BSIZE) (c (slot_of idata c (pos div BSIZE)))) = file_bytes idata c pos r"
proof (rule nth_equalityI)
  show "length (take r (drop (pos mod BSIZE) (c (slot_of idata c (pos div BSIZE))))) = length (file_bytes idata c pos r)"
    using assms by simp
  fix i assume "i < length (take r (drop (pos mod BSIZE) (c (slot_of idata c (pos div BSIZE)))))"
  then have i: "i < r" by simp
  then show "take r (drop (pos mod BSIZE) (c (slot_of idata c (pos div BSIZE)))) ! i = file_bytes idata c pos r ! i"
    using same_block [of pos "pos + i" r] assms by (simp add: file_bytes_def file_byte_def)
qed

definition blocks_touched :: "nat \<Rightarrow> nat \<Rightarrow> nat" where
  "blocks_touched pos count = (if count = 0 then 0 else (pos mod BSIZE + count - 1) div BSIZE + 1)"

lemma blocks_touched_step:
  assumes "0 < count" and w_def: "w = min (BSIZE - pos mod BSIZE) count"
  shows "blocks_touched pos count = Suc (blocks_touched (pos + w) (count - w))"
proof -
  have m: "pos mod BSIZE < BSIZE" by simp
  show ?thesis
  proof (cases "count \<le> BSIZE - pos mod BSIZE")
    case True
    then have "(pos mod BSIZE + count - 1) div BSIZE = 0" using assms(1) m by simp
    then show ?thesis using assms(1) True by (simp add: blocks_touched_def w_def)
  next
    case False
    then have w: "w = BSIZE - pos mod BSIZE" "w < count" by (simp_all add: w_def)
    have "pos + w = Suc (pos div BSIZE) * BSIZE" using div_mult_mod_eq [of pos BSIZE] m w(1) unfolding mult_Suc by linarith
    then have "(pos + w) mod BSIZE = 0" by (metis mod_mult_self2_is_0)
    moreover have "pos mod BSIZE + count - 1 = BSIZE + (count - w - 1)" using w m by linarith
    then have "(pos mod BSIZE + count - 1) div BSIZE = Suc ((count - w - 1) div BSIZE)" by (metis BSIZE_pos Suc_eq_plus1 div_add_self1 less_numeral_extra(3))
    ultimately show ?thesis using w(2) assms(1) by (simp add: blocks_touched_def)
  qed
qed

section \<open>Reading\<close>

context bit_crate
begin

lemma iread_loop_spec:
  assumes "tx_ok d t {} n" and "file_ok bf sb d (tx_area t) (tx_cont d t) inum idata"
    and "pos + count \<le> unat (di_size (id_dinode idata))"
  shows "\<exists>t'. iread_loop bf sb kernel_sink d pos count dst idata t =
      Done (Some (dst @ file_bytes idata (tx_cont d t) pos count), idata, t') \<and>
    tx_ok d t' {} n \<and> tx_cont d t' = tx_cont d t \<and> tx_logged t' = tx_logged t \<and> tx_area t' = tx_area t"
  using assms
proof (induction count arbitrary: pos dst t rule: less_induct)
  case (less count)
  show ?case
  proof (cases "count = 0")
    case True
    then show ?thesis using less.prems by (simp add: iread_loop.simps)
  next
    case False
    define r where "r = min (BSIZE - pos mod BSIZE) count"
    let ?k = "pos div BSIZE" and ?c = "tx_cont d t"
    note fd = file_okD [OF less.prems(2)]
    have r: "0 < r" "r \<le> count" using False by (simp_all add: r_def)
    have "?k * BSIZE < unat (di_size (id_dinode idata))"
      using less.prems(3) False div_times_less_eq_dividend [of pos BSIZE] by linarith
    then have s: "slot_of idata ?c ?k \<noteq> 0" by (rule fd(7))
    have "pos < MAX_FILE_SIZE" using less.prems(3) fd(6) False by linarith
    then have k: "?k < IND" by (simp add: MAX_FILE_SIZE_def NDIRECT_def NINDIRECT_def BSIZE_def)
    obtain t1 where t1: "map_blockno bf sb ?k idata t = Done (slot_of idata ?c ?k, idata, t1)" "tx_ok d t1 {} n"
      "tx_cont d t1 = ?c" "tx_logged t1 = tx_logged t" "tx_area t1 = tx_area t"
      using map_blockno_hit [OF less.prems(1,2) k s] by blast
    obtain h t2 t3 where t3: "tx_bread d (slot_of idata ?c ?k) t1 = Done (h, t2)" "tx_data h t2 = ?c (slot_of idata ?c ?k)"
      "tx_drop h t2 = Done t3" "tx_ok d t3 {} n" "tx_cont d t3 = ?c" "tx_logged t3 = tx_logged t" "tx_area t3 = tx_area t"
      using tx.peek [OF t1(2), of "slot_of idata ?c ?k"] t1(3-5) by auto
    have bytes: "take r (drop (pos mod BSIZE) (?c (slot_of idata ?c ?k))) = file_bytes idata ?c pos r"
      by (rule block_bytes) (simp_all add: r_def tx.block_length [OF less.prems(1)])
    have "\<exists>t'. iread_loop bf sb kernel_sink d (pos + r) (count - r) (dst @ file_bytes idata ?c pos r) idata t3 =
        Done (Some ((dst @ file_bytes idata ?c pos r) @ file_bytes idata (tx_cont d t3) (pos + r) (count - r)), idata, t') \<and>
      tx_ok d t' {} n \<and> tx_cont d t' = tx_cont d t3 \<and> tx_logged t' = tx_logged t3 \<and> tx_area t' = tx_area t3"
      by (rule less.IH) (use r less.prems t3 in simp_all)
    moreover have "file_bytes idata ?c pos r @ file_bytes idata ?c (pos + r) (count - r) = file_bytes idata ?c pos count"
      using r(2) by (simp add: file_bytes_append)
    ultimately show ?thesis
      using False t1(1) t3 unfolding iread_loop.simps [of bf sb _ d pos count] r_def [symmetric] by (simp add: bytes kernel_sink_def)
  qed
qed

end

section \<open>Writing\<close>

text \<open>The bytes \<open>data\<close> stand at \<open>pos\<close>; every other byte of a mapped block is as before.\<close>

definition fwrote :: "bit_field \<Rightarrow> super_block \<Rightarrow> u32 \<Rightarrow> u32 \<Rightarrow> nat \<Rightarrow> u8 list \<Rightarrow> inode_data \<Rightarrow> tstate \<Rightarrow> inode_data \<Rightarrow> tstate \<Rightarrow> bool" where
  "fwrote bf sb d inum pos data idata t idata' t' \<longleftrightarrow>
     file_ok bf sb d (tx_area t') (tx_cont d t') inum idata' \<and> same_file idata idata' \<and> tx_area t' = tx_area t \<and>
     tx_cont d t' (iblock sb inum) = tx_cont d t (iblock sb inum) \<and>
     (\<forall>j < IND. slot_of idata (tx_cont d t) j \<noteq> 0 \<longrightarrow> slot_of idata' (tx_cont d t') j \<noteq> 0) \<and>
     (\<forall>i. pos \<le> i \<and> i < pos + length data \<longrightarrow>
        slot_of idata' (tx_cont d t') (i div BSIZE) \<noteq> 0 \<and> file_byte idata' (tx_cont d t') i = data ! (i - pos)) \<and>
     (\<forall>i < MAX_FILE_SIZE. slot_of idata (tx_cont d t) (i div BSIZE) \<noteq> 0 \<and> \<not> (pos \<le> i \<and> i < pos + length data) \<longrightarrow>
        file_byte idata' (tx_cont d t') i = file_byte idata (tx_cont d t) i)"

lemma block_index: "i < MAX_FILE_SIZE \<Longrightarrow> i div BSIZE < IND"
  by (simp add: MAX_FILE_SIZE_def NDIRECT_def NINDIRECT_def BSIZE_def)

lemma fwrote_trans:
  assumes w1: "fwrote bf sb d inum pos xs idata t id1 t1" and w2: "fwrote bf sb d inum (pos + length xs) ys id1 t1 id2 t2"
    and le: "pos + length xs + length ys \<le> MAX_FILE_SIZE"
  shows "fwrote bf sb d inum pos (xs @ ys) idata t id2 t2"
proof -
  let ?c = "tx_cont d t" and ?c1 = "tx_cont d t1" and ?c2 = "tx_cont d t2"
  have a: "slot_of id2 ?c2 (i div BSIZE) \<noteq> 0 \<and> file_byte id2 ?c2 i = (xs @ ys) ! (i - pos)" if "pos \<le> i" "i < pos + length (xs @ ys)" for i
  proof (cases "i < pos + length xs")
    case True
    have i: "i < MAX_FILE_SIZE" "i div BSIZE < IND" using that le block_index [of i] by simp_all
    have "slot_of id1 ?c1 (i div BSIZE) \<noteq> 0" "file_byte id1 ?c1 i = xs ! (i - pos)" using w1 True that(1) by (auto simp: fwrote_def)
    then show ?thesis using w2 True that(1) i by (auto simp: fwrote_def nth_append)
  next
    case False
    then have "slot_of id2 ?c2 (i div BSIZE) \<noteq> 0" "file_byte id2 ?c2 i = ys ! (i - (pos + length xs))" using w2 that by (auto simp: fwrote_def)
    then show ?thesis using False that by (auto simp: nth_append)
  qed
  have b: "file_byte id2 ?c2 i = file_byte idata ?c i"
    if "i < MAX_FILE_SIZE" "slot_of idata ?c (i div BSIZE) \<noteq> 0" "\<not> (pos \<le> i \<and> i < pos + length (xs @ ys))" for i
  proof -
    have "file_byte id1 ?c1 i = file_byte idata ?c i" "slot_of id1 ?c1 (i div BSIZE) \<noteq> 0"
      using w1 that block_index [of i] by (auto simp: fwrote_def)
    then show ?thesis using w2 that by (auto simp: fwrote_def)
  qed
  have "same_file idata id2" using w1 w2 same_file_trans [of idata id1 id2] by (simp add: fwrote_def)
  then show ?thesis using w1 w2 a b unfolding fwrote_def by (intro conjI allI impI) (blast+ | metis)+
qed

lemma file_ok_upd:
  assumes f: "file_ok bf sb d area c inum idata" and x: "x \<notin> bm_block sb ` {..<fs_total sb}" "slot_of idata c IND \<noteq> 0 \<Longrightarrow> slot_of idata c IND \<noteq> x"
  shows "slot_of idata (c(x := v)) j = slot_of idata c j" "file_ok bf sb d area (c(x := v)) inum idata"
proof -
  show sl: "slot_of idata (c(x := v)) j = slot_of idata c j" for j
    by (rule slot_cong) (use x(2) in simp_all)
  show "file_ok bf sb d area (c(x := v)) inum idata"
    using f unfolding file_ok_def sl meta_ok_upd [OF x(1)] data_ok_upd [OF x(1)] by assumption
qed

lemma mapped_wrote: "mapped_step bf sb d inum k idata t idata' t' \<Longrightarrow> fwrote bf sb d inum pos [] idata t idata' t'"
  using block_index by (auto simp: mapped_step_def fwrote_def file_byte_def)

context bit_crate
begin

text \<open>Changing the bytes of one block.\<close>

lemma write_block:
  assumes ok: "tx_ok d t {} n" "0 < n" and f: "file_ok bf sb d (tx_area t) (tx_cont d t) inum idata"
    and s: "slot_of idata (tx_cont d t) (pos div BSIZE) \<noteq> 0" and pos: "pos < MAX_FILE_SIZE" and le: "length data \<le> BSIZE - pos mod BSIZE"
  defines "bn \<equiv> slot_of idata (tx_cont d t) (pos div BSIZE)"
  shows "\<exists>h t2 t'. tx_bread d bn t = Done (h, t2) \<and>
    tx_write h (put_bytes (pos mod BSIZE) data (tx_data h t2)) t2 = Done t' \<and> tx_ok d t' {} (n - 1) \<and>
    nfree bf sb (tx_cont d t') = nfree bf sb (tx_cont d t) \<and> fwrote bf sb d inum pos data idata t idata t'"
proof -
  let ?c = "tx_cont d t" and ?f = "put_bytes (pos mod BSIZE) data" and ?k = "pos div BSIZE"
  note fd = file_okD [OF f]
  have k: "?k < IND" by (rule block_index [OF pos])
  have bd: "data_ok bf sb (tx_area t) ?c inum bn" using fd(4) [of ?k] s k by (simp add: bn_def)
  have nb: "bn \<notin> tx_area t" "bn \<notin> bm_block sb ` {..<fs_total sb}" "bn \<noteq> iblock sb inum" using bd by (auto simp: data_ok_def)
  have m: "pos mod BSIZE < BSIZE" by simp
  have lf: "length (?f v) = BSIZE" if "length v = BSIZE" for v using that le m by (subst length_put_bytes) linarith+
  obtain h t2 t' where t': "tx_bread d bn t = Done (h, t2)" "tx_data h t2 = ?c bn" "tx_write h (?f (?c bn)) t2 = Done t'"
    "tx_ok d t' {} (if bn \<in> tx_logged t then n else n - 1)" "tx_cont d t' = ?c(bn := ?f (?c bn))" "tx_area t' = tx_area t"
    using tx.modify [OF ok(1) _ _ nb(1), of ?f] ok(2) lf by auto
  have ok': "tx_ok d t' {} (n - 1)" by (rule tx.ok_mono [OF t'(4)]) simp
  have "slot_of idata ?c IND \<noteq> bn" if "slot_of idata ?c IND \<noteq> 0" using fd(5) [of IND ?k] k that by (auto simp: bn_def)
  note up = file_ok_upd [OF f nb(2) this]
  have sl: "slot_of idata (tx_cont d t') j = slot_of idata ?c j" for j unfolding t'(5) by (rule up(1))
  have f': "file_ok bf sb d (tx_area t') (tx_cont d t') inum idata" unfolding t'(5,6) by (rule up(2))
  have pl: "pos mod BSIZE + length data \<le> length (?c bn)" using le m tx.block_length [OF ok(1), of bn] by linarith
  have new: "slot_of idata ?c (i div BSIZE) \<noteq> 0 \<and> file_byte idata (tx_cont d t') i = data ! (i - pos)" if "pos \<le> i" "i < pos + length data" for i
  proof -
    note e = same_block [OF that le]
    have "?f (?c bn) ! (pos mod BSIZE + j) = data ! j" if "j < length data" for j
      using that pl nth_put_bytes [OF pl, of "pos mod BSIZE + j"] by simp
    from this [of "i - pos"] have "?f (?c bn) ! (pos mod BSIZE + (i - pos)) = data ! (i - pos)" using that by linarith
    then show ?thesis using s unfolding file_byte_def sl e by (simp add: t'(5) flip: bn_def)
  qed
  have old: "file_byte idata (tx_cont d t') i = file_byte idata ?c i"
    if "i < MAX_FILE_SIZE" "slot_of idata ?c (i div BSIZE) \<noteq> 0" "\<not> (pos \<le> i \<and> i < pos + length data)" for i
  proof (cases "i div BSIZE = ?k")
    case True
    then have "i = pos div BSIZE * BSIZE + i mod BSIZE" using div_mult_mod_eq [of i BSIZE] by simp
    then have "\<not> (pos mod BSIZE \<le> i mod BSIZE \<and> i mod BSIZE < pos mod BSIZE + length data)"
      using that(3) div_mult_mod_eq [of pos BSIZE] by linarith
    moreover have "i mod BSIZE < length (?c bn)" using tx.block_length [OF ok(1), of bn] by simp
    ultimately have "?f (?c bn) ! (i mod BSIZE) = ?c bn ! (i mod BSIZE)" using nth_put_bytes [OF pl] by auto
    then show ?thesis unfolding file_byte_def sl True by (simp add: t'(5) flip: bn_def)
  next
    case False
    have "slot_of idata ?c (i div BSIZE) \<noteq> bn" using fd(5) [of "i div BSIZE" ?k] that(2) False k block_index [OF that(1)] by (auto simp: bn_def)
    then show ?thesis unfolding file_byte_def sl by (simp add: t'(5))
  qed
  have "fwrote bf sb d inum pos data idata t idata t'"
    using f' new old nb(3) unfolding fwrote_def sl by (simp add: same_file_refl t'(5,6))
  moreover have "nfree bf sb (tx_cont d t') = nfree bf sb ?c" unfolding t'(5) by (rule nfree_upd [OF nb(2)])
  ultimately show ?thesis using t'(1-3) ok' by auto
qed

lemma iwrite_loop_spec:
  assumes "tx_ok d t {} n" and "6 * blocks_touched pos count \<le> n" and "file_ok bf sb d (tx_area t) (tx_cont d t) inum idata"
    and "pos + count \<le> MAX_FILE_SIZE" and "k + count \<le> length data"
  shows "iwrite_loop bf sb (kernel_src data) d pos k count idata t = Panicked full_disk \<and> nfree bf sb (tx_cont d t) < 2 * blocks_touched pos count \<or>
    (\<exists>idata' t'. iwrite_loop bf sb (kernel_src data) d pos k count idata t = Done (0, idata', t') \<and>
      tx_ok d t' {} (n - 6 * blocks_touched pos count) \<and> fwrote bf sb d inum pos (take count (drop k data)) idata t idata' t' \<and>
      nfree bf sb (tx_cont d t) \<le> nfree bf sb (tx_cont d t') + 2 * blocks_touched pos count)"
  using assms
proof (induction count arbitrary: pos k idata t n rule: less_induct)
  case (less count)
  show ?case
  proof (cases "count = 0")
    case True
    have "fwrote bf sb d inum pos [] idata t idata t" using less.prems(3) by (auto simp: fwrote_def same_file_refl)
    then show ?thesis using less.prems True by (simp add: iwrite_loop.simps blocks_touched_def)
  next
    case False
    define w where "w = min (BSIZE - pos mod BSIZE) count"
    have w: "0 < w" "w \<le> count" "w \<le> BSIZE - pos mod BSIZE" using False by (simp_all add: w_def)
    have bt: "blocks_touched pos count = Suc (blocks_touched (pos + w) (count - w))"
      by (rule blocks_touched_step) (use False in \<open>simp_all add: w_def\<close>)
    have pos: "pos < MAX_FILE_SIZE" using less.prems(4) False by simp
    let ?xs = "take w (drop k data)" and ?bn = "\<lambda>idata t. slot_of idata (tx_cont d t) (pos div BSIZE)"
    have lx: "length ?xs = w" using w(2) less.prems(5) by simp
    from map_blockno_spec [OF less.prems(1) _ less.prems(3) block_index [OF pos]] less.prems(2) bt
    consider (full) "map_blockno bf sb (pos div BSIZE) idata t = Panicked full_disk" "nfree bf sb (tx_cont d t) < 2"
      | (got) id1 t1 where "map_blockno bf sb (pos div BSIZE) idata t = Done (?bn id1 t1, id1, t1)" "tx_ok d t1 {} (n - 5)"
        "mapped_step bf sb d inum (pos div BSIZE) idata t id1 t1" "nfree bf sb (tx_cont d t) \<le> nfree bf sb (tx_cont d t1) + 2" by auto
    then show ?thesis
    proof cases
      case full
      then show ?thesis using False bt by (simp add: iwrite_loop.simps [of bf sb _ d pos k count])
    next
      case got
      have f1: "file_ok bf sb d (tx_area t1) (tx_cont d t1) inum id1" and s1: "?bn id1 t1 \<noteq> 0"
        using got(3) unfolding mapped_step_def by blast+
      obtain h t2 t3 where t3: "tx_bread d (?bn id1 t1) t1 = Done (h, t2)"
        "tx_write h (put_bytes (pos mod BSIZE) ?xs (tx_data h t2)) t2 = Done t3" "tx_ok d t3 {} (n - 5 - 1)"
        "fwrote bf sb d inum pos ?xs id1 t1 id1 t3" "nfree bf sb (tx_cont d t3) = nfree bf sb (tx_cont d t1)"
        using write_block [OF got(2) _ f1 s1 pos, of ?xs] less.prems(2) bt lx w(3) by auto
      have w1: "fwrote bf sb d inum pos ?xs idata t id1 t3"
        using fwrote_trans [OF mapped_wrote [OF got(3)], of pos ?xs id1 t3] t3(4) lx w(2) less.prems(4) by simp
      have f3: "file_ok bf sb d (tx_area t3) (tx_cont d t3) inum id1" using t3(4) unfolding fwrote_def by blast
      have e: "iwrite_loop bf sb (kernel_src data) d pos k count idata t =
          iwrite_loop bf sb (kernel_src data) d (pos + w) (k + w) (count - w) id1 t3"
        using False got(1) t3(1,2) unfolding iwrite_loop.simps [of bf sb _ d pos k count] w_def [symmetric] by (simp add: kernel_src_def)
      have "iwrite_loop bf sb (kernel_src data) d (pos + w) (k + w) (count - w) id1 t3 = Panicked full_disk \<and>
          nfree bf sb (tx_cont d t3) < 2 * blocks_touched (pos + w) (count - w) \<or>
        (\<exists>idata' t'. iwrite_loop bf sb (kernel_src data) d (pos + w) (k + w) (count - w) id1 t3 = Done (0, idata', t') \<and>
          tx_ok d t' {} (n - 5 - 1 - 6 * blocks_touched (pos + w) (count - w)) \<and>
          fwrote bf sb d inum (pos + w) (take (count - w) (drop (k + w) data)) id1 t3 idata' t' \<and>
          nfree bf sb (tx_cont d t3) \<le> nfree bf sb (tx_cont d t') + 2 * blocks_touched (pos + w) (count - w))"
        by (rule less.IH [OF _ t3(3) _ f3]) (use w less.prems(2,4,5) bt in simp_all)
      moreover have "n - 5 - 1 - 6 * blocks_touched (pos + w) (count - w) = n - 6 * blocks_touched pos count" by (simp add: bt)
      moreover have "fwrote bf sb d inum pos (take count (drop k data)) idata t idata' t'"
        if "fwrote bf sb d inum (pos + w) (take (count - w) (drop (k + w) data)) id1 t3 idata' t'" for idata' t'
      proof -
        have "take count (drop k data) = ?xs @ take (count - w) (drop (k + w) data)"
          using take_add [of w "count - w" "drop k data"] w(2) by (simp add: add.commute)
        then show ?thesis using fwrote_trans [OF w1, of "take (count - w) (drop (k + w) data)"] that lx w(2) less.prems(4,5) by simp
      qed
      moreover have "nfree bf sb (tx_cont d t) < 2 * blocks_touched pos count"
        if "nfree bf sb (tx_cont d t3) < 2 * blocks_touched (pos + w) (count - w)" using that got(4) t3(5) bt by simp
      moreover have "nfree bf sb (tx_cont d t) \<le> m + 2 * blocks_touched pos count"
        if "nfree bf sb (tx_cont d t3) \<le> m + 2 * blocks_touched (pos + w) (count - w)" for m using that got(4) t3(5) bt by simp
      ultimately show ?thesis unfolding e by metis
    qed
  qed
qed

lemma iupdate_spec:
  assumes ok: "tx_ok d t {} n" "0 < n" and f: "file_ok bf sb d (tx_area t) (tx_cont d t) inum idata"
  shows "\<exists>t'. iupdate sb idata t = Done t' \<and> tx_ok d t' {} (n - 1) \<and> tx_area t' = tx_area t \<and>
    tx_logged t' = insert (iblock sb inum) (tx_logged t) \<and>
    tx_cont d t' = (tx_cont d t)(iblock sb inum :=
      put_dinode (locate_inode_offset inum) (id_dinode idata) (tx_cont d t (iblock sb inum))) \<and>
    file_ok bf sb d (tx_area t') (tx_cont d t') inum idata \<and> (\<forall>j \<le> IND. slot_of idata (tx_cont d t') j = slot_of idata (tx_cont d t) j)"
proof -
  let ?c = "tx_cont d t" and ?B = "iblock sb inum" and ?f = "put_dinode (locate_inode_offset inum) (id_dinode idata)"
  note fd = file_okD [OF f]
  have nb: "?B \<notin> tx_area t" "?B \<notin> bm_block sb ` {..<fs_total sb}" "locate_inode sb inum = Done ?B" using fd(1) by (simp_all add: meta_ok_def)
  have k: "locate_inode_offset inum < IPB" by (simp add: locate_inode_offset_def IPB_def BSIZE_def)
  obtain h t2 t' where t': "tx_bread d ?B t = Done (h, t2)" "tx_data h t2 = ?c ?B" "tx_write h (?f (?c ?B)) t2 = Done t'"
    "tx_ok d t' {} (if ?B \<in> tx_logged t then n else n - 1)" "tx_cont d t' = ?c(?B := ?f (?c ?B))"
    "tx_logged t' = insert ?B (tx_logged t)" "tx_area t' = tx_area t"
    using tx.modify [OF ok(1) _ _ nb(1), of ?f] ok(2) get_put_dinode(2) [OF fd(3) _ k] by auto
  have "tx_ok d t' {} (n - 1)" by (rule tx.ok_mono [OF t'(4)]) simp
  moreover have "slot_of idata ?c IND \<noteq> ?B" if "slot_of idata ?c IND \<noteq> 0" using fd(4) [of IND] that by (auto simp: data_ok_def)
  note file_ok_upd [OF f nb(2) this]
  ultimately show ?thesis using t' nb(3) fd(2) by (simp add: iupdate_def get_dev_inum_def)
qed

end

lemma same_fileD:
  assumes "same_file a b"
  shows "di_itype (id_dinode b) = di_itype (id_dinode a)" "di_major (id_dinode b) = di_major (id_dinode a)"
    "di_minor (id_dinode b) = di_minor (id_dinode a)" "di_nlink (id_dinode b) = di_nlink (id_dinode a)" "di_size (id_dinode b) = di_size (id_dinode a)"
proof -
  obtain x where "id_dinode b = (id_dinode a)\<lparr>di_addrs := x\<rparr>" using assms unfolding same_file_def by blast
  then show "di_itype (id_dinode b) = di_itype (id_dinode a)" "di_major (id_dinode b) = di_major (id_dinode a)"
    "di_minor (id_dinode b) = di_minor (id_dinode a)" "di_nlink (id_dinode b) = di_nlink (id_dinode a)" "di_size (id_dinode b) = di_size (id_dinode a)" by simp_all
qed

definition overwrite :: "nat \<Rightarrow> 'a list \<Rightarrow> 'a list \<Rightarrow> 'a list" where
  "overwrite off data old = take off old @ data @ drop (off + length data) old"

definition set_size :: "u32 \<Rightarrow> inode_data \<Rightarrow> inode_data" where
  "set_size w = upd_dinode (\<lambda>di. di\<lparr>di_size := w\<rparr>)"

lemma set_size_simps [simp]:
  "di_size (id_dinode (set_size w idata)) = w" "di_addrs (id_dinode (set_size w idata)) = di_addrs (id_dinode idata)"
  "id_valid (set_size w idata) = id_valid idata" "slot_of (set_size w idata) c j = slot_of idata c j"
  "file_byte (set_size w idata) c i = file_byte idata c i"
  by (simp_all add: set_size_def upd_dinode_def slot_of_def file_byte_def)

lemma file_ok_grow:
  assumes "file_ok bf sb d area c inum idata" and "unat w \<le> MAX_FILE_SIZE" and "\<And>k. k * BSIZE < unat w \<Longrightarrow> slot_of idata c k \<noteq> 0"
  shows "file_ok bf sb d area c inum (set_size w idata)"
  using assms unfolding file_ok_def set_size_simps by blast

text \<open>What a write does to the contents, when the size becomes the larger of the old size and the end of the write.\<close>

lemma fwrote_contents:
  assumes w: "fwrote bf sb d inum pos data idata t idata' t'" and f: "file_ok bf sb d (tx_area t) (tx_cont d t) inum idata"
    and le: "pos \<le> unat (di_size (id_dinode idata))" "pos + length data \<le> MAX_FILE_SIZE"
    and sz: "unat w = max (unat (di_size (id_dinode idata))) (pos + length data)"
  shows "file_ok bf sb d (tx_area t') (tx_cont d t') inum (set_size w idata')"
    "file_contents (set_size w idata') (tx_cont d t') = overwrite pos data (file_contents idata (tx_cont d t))"
proof -
  let ?c = "tx_cont d t" and ?c' = "tx_cont d t'" and ?s = "unat (di_size (id_dinode idata))"
  note fd = file_okD [OF f]
  have s: "slot_of idata ?c (i div BSIZE) \<noteq> 0" if "i < ?s" for i
    by (rule fd(7)) (use that div_times_less_eq_dividend [of i BSIZE] in linarith)
  have s': "slot_of idata' ?c' (i div BSIZE) \<noteq> 0" if "i < unat w" for i
  proof (cases "i < ?s")
    case True
    then show ?thesis using w s [OF True] block_index [of i] fd(6) by (simp add: fwrote_def)
  qed (use w that sz le in \<open>auto simp: fwrote_def\<close>)
  show "file_ok bf sb d (tx_area t') ?c' inum (set_size w idata')"
  proof (rule file_ok_grow)
    show "file_ok bf sb d (tx_area t') ?c' inum idata'" using w unfolding fwrote_def by blast
    show "unat w \<le> MAX_FILE_SIZE" using sz fd(6) le(2) by simp
    show "slot_of idata' ?c' k \<noteq> 0" if "k * BSIZE < unat w" for k using s' [OF that] by simp
  qed
  have fb: "file_byte idata' ?c' i = (if pos \<le> i \<and> i < pos + length data then data ! (i - pos) else file_byte idata ?c i)"
    if "i < unat w" for i
    using w that sz s [of i] fd(6) le by (auto simp: fwrote_def)
  show "file_contents (set_size w idata') ?c' = overwrite pos data (file_contents idata ?c)"
    by (rule nth_equalityI)
       (use sz le(1) fb in \<open>auto simp: file_contents_def file_bytes_def overwrite_def nth_append\<close>)
qed

context bit_crate
begin

lemma iwrite_spec:
  assumes ok: "tx_ok d t {} n" "6 * blocks_touched (unat off) (length data) < n"
    and f: "file_ok bf sb d (tx_area t) (tx_cont d t) inum idata"
    and off: "off \<le> di_size (id_dinode idata)" and le: "unat off + length data \<le> MAX_FILE_SIZE"
  shows "iwrite bf sb (kernel_src data) off (of_nat (length data)) idata t = Panicked full_disk \<and>
      nfree bf sb (tx_cont d t) < 2 * blocks_touched (unat off) (length data) \<or>
    (\<exists>idata' t'. iwrite bf sb (kernel_src data) off (of_nat (length data)) idata t = Done (True, idata', t') \<and>
      tx_ok d t' {} (n - 6 * blocks_touched (unat off) (length data) - 1) \<and>
      file_ok bf sb d (tx_area t') (tx_cont d t') inum idata' \<and>
      file_contents idata' (tx_cont d t') = overwrite (unat off) data (file_contents idata (tx_cont d t)) \<and>
      id_dinode idata' = (id_dinode idata)\<lparr>di_size := di_size (id_dinode idata'), di_addrs := di_addrs (id_dinode idata')\<rparr> \<and>
      get_dinode (tx_cont d t' (iblock sb inum)) (locate_inode_offset inum) = Done (id_dinode idata') \<and>
      nfree bf sb (tx_cont d t) \<le> nfree bf sb (tx_cont d t') + 2 * blocks_touched (unat off) (length data))"
proof -
  let ?m = "length data" and ?o = "unat off" and ?c = "tx_cont d t"
  have M: "MAX_FILE_SIZE < 2 ^ 32" by (simp add: MAX_FILE_SIZE_def NDIRECT_def NINDIRECT_def BSIZE_def)
  have um: "unat (of_nat ?m :: u32) = ?m" using le M by (simp add: unat_of_nat)
  have "unat (of_nat (?o + ?m) :: u32) = ?o + ?m" using le M by (subst unat_of_nat) simp
  then have ue: "unat (off + of_nat ?m) = ?o + ?m" by simp
  have ol: "?o \<le> unat (di_size (id_dinode idata))" using off by (simp add: word_le_nat_alt)
  have ti: "try_iwrite bf sb (kernel_src data) off (of_nat ?m) idata t =
      kbind (iwrite_loop bf sb (kernel_src data) d ?o 0 ?m idata t) (\<lambda>(left, id1, t1).
        let size' = of_nat (?o + ?m - left);
            id2 = (if size' > di_size (id_dinode id1) then set_size size' id1 else id1)
        in kbind (iupdate sb id2 t1) (\<lambda>t2. kbind (u32_sub size' off) (\<lambda>n. Done (Some n, id2, t2))))"
    using leD [OF off] le M file_okD(2) [OF f] unfolding set_size_def by (simp add: try_iwrite_def get_dev_inum_def um)
  from iwrite_loop_spec [OF ok(1) _ f le, of 0 data] ok(2)
  consider (full) "iwrite_loop bf sb (kernel_src data) d ?o 0 ?m idata t = Panicked full_disk" "nfree bf sb ?c < 2 * blocks_touched ?o ?m"
    | (got) id1 t1 where "iwrite_loop bf sb (kernel_src data) d ?o 0 ?m idata t = Done (0, id1, t1)"
        "tx_ok d t1 {} (n - 6 * blocks_touched ?o ?m)" "fwrote bf sb d inum ?o data idata t id1 t1"
        "nfree bf sb ?c \<le> nfree bf sb (tx_cont d t1) + 2 * blocks_touched ?o ?m" by auto
  then show ?thesis
  proof cases
    case full
    then show ?thesis by (simp add: iwrite_def ti)
  next
    case got
    let ?e = "off + of_nat ?m" and ?sz = "di_size (id_dinode idata)"
    have sf: "same_file idata id1" using got(3) by (simp add: fwrote_def)
    have s1: "di_size (id_dinode id1) = ?sz" by (rule same_fileD(5) [OF sf])
    define id2 where "id2 = set_size (max ?e ?sz) id1"
    have "max ?e ?sz = ?sz \<Longrightarrow> set_size ?sz id1 = id1" using s1 by (simp add: set_size_def upd_dinode_def)
    then have i2: "(if ?e > di_size (id_dinode id1) then set_size ?e id1 else id1) = id2"
      by (auto simp: id2_def s1 max_def)
    have "unat (max ?e ?sz) = max (unat ?sz) (?o + ?m)" using ue by (auto simp: max_def word_le_nat_alt)
    note wc = fwrote_contents [OF got(3) f ol le this, folded id2_def]
    obtain t2 where t2: "iupdate sb id2 t1 = Done t2" "tx_ok d t2 {} (n - 6 * blocks_touched ?o ?m - 1)"
      "tx_cont d t2 = (tx_cont d t1)(iblock sb inum :=
         put_dinode (locate_inode_offset inum) (id_dinode id2) (tx_cont d t1 (iblock sb inum)))"
      "file_ok bf sb d (tx_area t2) (tx_cont d t2) inum id2" "\<forall>j \<le> IND. slot_of id2 (tx_cont d t2) j = slot_of id2 (tx_cont d t1) j"
      using iupdate_spec [OF got(2) _ wc(1)] ok(2) by auto
    have "u32_sub ?e off = Done (of_nat ?m)"
      using ue by (simp add: u32_sub_def word_le_nat_alt)
    then have r: "iwrite bf sb (kernel_src data) off (of_nat ?m) idata t = Done (True, id2, t2)"
      using got(1) t2(1) i2 by (cases "?e > di_size (id_dinode id1)") (simp_all add: iwrite_def ti Let_def)
    have keep: "id_dinode id2 = (id_dinode idata)\<lparr>di_size := di_size (id_dinode id2), di_addrs := di_addrs (id_dinode id2)\<rparr>"
      using same_fileD [OF sf] by (auto simp: id2_def set_size_def upd_dinode_def intro!: disk_inode.equality)
    note fd = file_okD [OF wc(1)]
    have "file_byte id2 (tx_cont d t2) i = file_byte id2 (tx_cont d t1) i" if "i < unat (di_size (id_dinode id2))" for i
    proof -
      have k: "i div BSIZE < IND" using block_index [of i] that fd(6) by simp
      have "slot_of id2 (tx_cont d t1) (i div BSIZE) \<noteq> 0"
        by (rule fd(7)) (use that div_times_less_eq_dividend [of i BSIZE] in linarith)
      then have "slot_of id2 (tx_cont d t1) (i div BSIZE) \<noteq> iblock sb inum" using fd(4) [of "i div BSIZE"] k by (auto simp: data_ok_def)
      then show ?thesis using t2(5) k by (simp add: file_byte_def t2(3))
    qed
    then have "file_contents id2 (tx_cont d t2) = file_contents id2 (tx_cont d t1)" by (simp add: file_contents_def file_bytes_def)
    moreover have "locate_inode_offset inum < IPB" by (simp add: locate_inode_offset_def IPB_def BSIZE_def)
    note get_put_dinode(1) [OF fd(3) tx.block_length [OF got(2)] this, of "iblock sb inum"]
    moreover have "tx_cont d t2 (iblock sb inum) = put_dinode (locate_inode_offset inum) (id_dinode id2) (tx_cont d t1 (iblock sb inum))"
      by (simp only: t2(3) fun_upd_same)
    moreover have "iblock sb inum \<notin> bm_block sb ` {..<fs_total sb}" using fd(1) by (simp add: meta_ok_def)
    then have "nfree bf sb (tx_cont d t2) = nfree bf sb (tx_cont d t1)" unfolding t2(3) by (rule nfree_upd)
    ultimately show ?thesis using r t2(2,4) wc(2) keep got(4) by auto
  qed
qed

end

section \<open>An example file\<close>

text \<open>Inode 1 of the example file system with the blocks \<open>a\<close> and the size \<open>sz\<close>.\<close>

definition demo_file :: "u32 \<Rightarrow> u32 \<Rightarrow> inode_data" where
  "demo_file a sz = \<lparr>id_valid = Some (1, 1), id_dinode = disk_inode_new\<lparr>di_itype := File, di_nlink := 1, di_size := sz, di_addrs := a # replicate NDIRECT 0\<rparr>\<rparr>"

lemma demo_slot: "k \<le> IND \<Longrightarrow> slot_of (demo_file a sz) c k = (if k = 0 then a else 0)"
  by (auto simp: slot_of_def demo_file_def NDIRECT_def nth_Cons' Let_def)

lemma demo_file_ok:
  assumes a: "a = 0 \<or> a = 40" and sz: "unat sz \<le> (if a = 0 then 0 else BSIZE)"
  shows "file_ok word_bits demo_sb 1 (log_area 2) demo_disk 1 (demo_file a sz)"
proof -
  have d34: "demo_disk 34 = demo_bitmap" by (simp add: demo_disk_def)
  have tot: "fs_total demo_sb = 100" by (simp add: fs_total_def demo_sb_def)
  have b: "bm_block demo_sb b = 34" if "b < 100" for b using that by (simp add: bm_block_def demo_sb_def BPB_def BSIZE_def)
  then have "34 \<in> bm_block demo_sb ` {..<100}" by (intro rev_image_eqI [of 0]) simp_all
  then have bm: "bm_block demo_sb ` {..<100} = {34}" using b by auto
  have ib: "iblock demo_sb 1 = 32" by (simp add: iblock_def demo_sb_def IPB_def BSIZE_def)
  have u: "in_use word_bits demo_sb demo_disk b" if "b < 50" for b using demo_use [of demo_disk b] d34 that by simp
  have ar: "32 \<notin> log_area 2" "40 \<notin> log_area 2" using log_area_2 by force+
  have li: "locate_inode demo_sb 1 = Done 32"
    by (simp add: locate_inode_def sb_read_def demo_sb_def u32_add_def IPB_def BSIZE_def word_le_nat_alt)
  have "meta_ok word_bits demo_sb (log_area 2) demo_disk 1"
    unfolding meta_ok_def ib tot bm using demo_bm_inv [of demo_disk, OF d34] u ar(1) li by simp
  moreover have "data_ok word_bits demo_sb (log_area 2) demo_disk 1 40" unfolding data_ok_def ib tot bm using u ar by simp
  moreover have "slot_of (demo_file a sz) demo_disk k \<noteq> 0" if "k * BSIZE < unat sz" for k
  proof -
    have "a = 40" "k = 0" using that sz a by (auto split: if_splits simp: BSIZE_def)
    then show ?thesis by (simp add: demo_slot)
  qed
  moreover have "unat sz \<le> MAX_FILE_SIZE" using sz by (simp add: MAX_FILE_SIZE_def NDIRECT_def BSIZE_def split: if_splits)
  ultimately show ?thesis
    unfolding file_ok_def using a demo_slot [of _ a sz demo_disk] by (elim disjE) (simp_all add: demo_file_def)
qed

section \<open>Properties\<close>

text \<open>
  C26 (writing a file): inside a transaction with room, \<^verbatim>\<open>iwrite\<close> of a buffer at an offset inside
  the file refines overwriting (and extending) a byte string: all bytes before and behind the written
  range are kept, also when blocks have to be allocated directly or through the indirect
  block, the invariant of the file holds again, type and link count are kept, and the inode on the disk is the one in
  memory. It succeeds whenever two blocks are free for every block touched, and otherwise it may only panic because
  the disk is full.
\<close>

theorem file_write_correct:
  assumes "bit_crate bf" and "tx_ok d t {} n" and "6 * blocks_touched (unat off) (length data) < n"
    and "file_ok bf sb d (tx_area t) (tx_cont d t) inum idata" and "off \<le> di_size (id_dinode idata)"
    and "unat off + length data \<le> MAX_FILE_SIZE"
  shows "iwrite bf sb (kernel_src data) off (of_nat (length data)) idata t = Panicked full_disk \<and>
      nfree bf sb (tx_cont d t) < 2 * blocks_touched (unat off) (length data) \<or>
    (\<exists>idata' t'. iwrite bf sb (kernel_src data) off (of_nat (length data)) idata t = Done (True, idata', t') \<and>
      tx_ok d t' {} (n - 6 * blocks_touched (unat off) (length data) - 1) \<and>
      file_ok bf sb d (tx_area t') (tx_cont d t') inum idata' \<and>
      file_contents idata' (tx_cont d t') = overwrite (unat off) data (file_contents idata (tx_cont d t)) \<and>
      id_dinode idata' = (id_dinode idata)\<lparr>di_size := di_size (id_dinode idata'), di_addrs := di_addrs (id_dinode idata')\<rparr> \<and>
      get_dinode (tx_cont d t' (iblock sb inum)) (locate_inode_offset inum) = Done (id_dinode idata'))"
  using bit_crate.iwrite_spec [OF assms] by blast

theorem file_write_correct_witness:
  "\<exists>idata' t'. iwrite word_bits demo_sb (kernel_src [7, 8, 9]) 0 3 (demo_file 0 0) (demo_tx demo_disk) = Done (True, idata', t') \<and>
     file_contents idata' (tx_cont 1 t') = [7, 8, 9]"
proof -
  have len: "\<forall>b. length (demo_disk b) = BSIZE" by (simp add: demo_disk_def demo_bitmap_def BSIZE_def)
  note ok = demo_tx_ok [OF len]
  have d34: "demo_disk 34 = demo_bitmap" by (simp add: demo_disk_def)
  have f: "file_ok word_bits demo_sb 1 (tx_area (demo_tx demo_disk)) (tx_cont 1 (demo_tx demo_disk)) 1 (demo_file 0 0)"
    unfolding ok(2,4) by (rule demo_file_ok) simp_all
  have bt: "blocks_touched (unat (0 :: u32)) (length [7, 8, 9 :: u8]) = 1" by (simp add: blocks_touched_def BSIZE_def)
  have "{50, 51} \<subseteq> {b. b < fs_total demo_sb \<and> \<not> in_use word_bits demo_sb demo_disk b}"
    using demo_use [of demo_disk 50] demo_use [of demo_disk 51] d34 by (simp add: fs_total_def demo_sb_def)
  then have "2 \<le> nfree word_bits demo_sb demo_disk"
    unfolding nfree_def using card_mono [of "{b. b < fs_total demo_sb \<and> \<not> in_use word_bits demo_sb demo_disk b}" "{50, 51}"] by simp
  moreover have "file_contents (demo_file 0 0) demo_disk = []" by (simp add: file_contents_def demo_file_def)
  ultimately show ?thesis
    using file_write_correct [OF word_bits.bit_crate_axioms ok(1) _ f, of 0 "[7, 8, 9]"] unfolding bt ok(2)
    by (auto simp: MAX_FILE_SIZE_def NDIRECT_def BSIZE_def overwrite_def demo_file_def)
qed

lemma iread_spec:
  assumes "bit_crate bf" and "tx_ok d t {} n" and "file_ok bf sb d (tx_area t) (tx_cont d t) inum idata"
  shows "if unat off + unat count \<le> unat (di_size (id_dinode idata))
    then \<exists>t'. iread bf sb kernel_sink [] off count idata t =
        Done (Some (take (unat count) (drop (unat off) (file_contents idata (tx_cont d t)))), idata, t') \<and>
      tx_ok d t' {} n \<and> tx_cont d t' = tx_cont d t \<and> tx_logged t' = tx_logged t \<and> tx_area t' = tx_area t
    else iread bf sb kernel_sink [] off count idata t = Done (None, idata, t)"
proof (cases "unat off + unat count \<le> unat (di_size (id_dinode idata))")
  case True
  have lt: "unat off + unat count < 2 ^ 32" using True unsigned_less [of "di_size (id_dinode idata)", where 'a = nat] by simp
  then have "unat (off + count) = unat off + unat count" by (simp add: unat_word_ariths)
  then have "iread bf sb kernel_sink [] off count idata t = iread_loop bf sb kernel_sink d (unat off) (unat count) [] idata t"
    using True lt file_okD(2) [OF assms(3)] by (simp add: iread_def get_dev_inum_def word_less_nat_alt)
  then show ?thesis
    using bit_crate.iread_loop_spec [OF assms True, of "[]"] True by (auto simp: file_bytes_contents)
next
  case False
  then have "unat off + unat count \<ge> 2 ^ 32 \<or> off + count > di_size (id_dinode idata)"
    by (cases "unat off + unat count < 2 ^ 32") (simp_all add: word_less_nat_alt unat_word_ariths)
  then have "iread bf sb kernel_sink [] off count idata t = Done (None, idata, t)" unfolding iread_def by (rule if_P)
  then show ?thesis using False by simp
qed

text \<open>
  C27 (reading a file): \<^verbatim>\<open>iread\<close> returns exactly the requested part of the contents of the file and
  changes neither the file nor any block, and it fails without reading anything when the part is
  not inside the file or the end of the range does not fit \<^verbatim>\<open>u32\<close>.
\<close>

theorem file_read_correct:
  assumes "bit_crate bf" and "tx_ok d t {} n" and "file_ok bf sb d (tx_area t) (tx_cont d t) inum idata"
  shows "if unat off + unat count \<le> unat (di_size (id_dinode idata))
    then \<exists>t'. iread bf sb kernel_sink [] off count idata t =
        Done (Some (take (unat count) (drop (unat off) (file_contents idata (tx_cont d t)))), idata, t') \<and>
      tx_ok d t' {} n \<and> tx_cont d t' = tx_cont d t \<and> tx_logged t' = tx_logged t \<and> tx_area t' = tx_area t
    else iread bf sb kernel_sink [] off count idata t = Done (None, idata, t)"
  by (rule iread_spec [OF assms])

theorem file_read_correct_witness:
  "\<exists>t'. iread word_bits demo_sb kernel_sink [] 2 3 (demo_file 40 5) (demo_tx demo_disk) = Done (Some [0, 0, 0], demo_file 40 5, t') \<and>
     iread word_bits demo_sb kernel_sink [] 2 4 (demo_file 40 5) (demo_tx demo_disk) = Done (None, demo_file 40 5, demo_tx demo_disk)"
proof -
  have len: "\<forall>b. length (demo_disk b) = BSIZE" by (simp add: demo_disk_def demo_bitmap_def BSIZE_def)
  note ok = demo_tx_ok [OF len]
  have f: "file_ok word_bits demo_sb 1 (tx_area (demo_tx demo_disk)) (tx_cont 1 (demo_tx demo_disk)) 1 (demo_file 40 5)"
    unfolding ok(2,4) by (rule demo_file_ok) (simp_all add: BSIZE_def)
  note r = file_read_correct [OF word_bits.bit_crate_axioms ok(1) f]
  have sz: "di_size (id_dinode (demo_file 40 5)) = 5" by (simp add: demo_file_def)
  have c: "take 3 (drop 2 (file_contents (demo_file 40 5) demo_disk)) = [0, 0, 0]"
    by (simp add: file_contents_def file_bytes_def sz file_byte_def demo_slot demo_disk_def BSIZE_def upt_conv_Cons)
  show ?thesis using r [of 2 3] r [of 2 4] c unfolding ok(2) sz by auto
qed

end
