(* ===== verification/PathName.thy ===== *)
theory PathName
  imports FsLayout
begin

text \<open>
  Splitting a path into its components (\<^verbatim>\<open>skip_path\<close> of \<^verbatim>\<open>kernel/src/fs/inode.rs\<close>). A path is a
  slice that a zero byte ends; the components are what stands between slashes, cut to 13 bytes.
\<close>

section \<open>Paths\<close>

definition slash :: u8 where "slash = 0x2F"

definition oob :: string where
  "oob = ''index out of bounds''"

text \<open>A \<^verbatim>\<open>while\<close> loop that steps over bytes; an index beyond the slice panics.\<close>

function skip_bytes :: "(u8 \<Rightarrow> bool) \<Rightarrow> u8 list \<Rightarrow> nat \<Rightarrow> nat kres" where
  "skip_bytes P path pos =
     (if pos \<ge> length path then Panicked oob
      else if P (path ! pos) then skip_bytes P path (Suc pos) else Done pos)"
  by pat_completeness auto
termination
  by (relation "measure (\<lambda>(P, path, pos). length path - pos)") auto

declare skip_bytes.simps [simp del]

definition skip_path :: "u8 list \<Rightarrow> nat \<Rightarrow> u8 list \<Rightarrow> (nat \<times> u8 list) kres" where
  "skip_path path pos name =
     kbind (skip_bytes (\<lambda>b. b = slash) path pos) (\<lambda>start.
       if path ! start = 0 then Done (0, name)
       else kbind (skip_bytes (\<lambda>b. b \<noteq> slash \<and> b \<noteq> 0) path start) (\<lambda>stop.
              let count = min (stop - start) (MAX_DIR_SIZE - 1);
                  name' = (take count (drop start path) @ drop count name)[count := 0]
              in kbind (skip_bytes (\<lambda>b. b = slash) path stop) (\<lambda>next'. Done (next', name'))))"

lemma skip_bytes_le: "skip_bytes P path pos = Done n \<Longrightarrow> pos \<le> n \<and> n < length path \<and> \<not> P (path ! n)"
  by (induction P path pos rule: skip_bytes.induct) (subst (asm) (2) skip_bytes.simps, auto split: if_splits)

lemma skip_bytes_lt: "skip_bytes P path pos = Done n \<Longrightarrow> P (path ! pos) \<Longrightarrow> pos < n"
  using skip_bytes_le [of P path pos n] le_neq_implies_less by fastforce

lemma skip_path_lt:
  assumes "skip_path path pos name = Done (n, name')" and "n \<noteq> 0"
  shows "pos < n \<and> n < length path"
proof -
  obtain start stop where s: "skip_bytes (\<lambda>b. b = slash) path pos = Done start" "path ! start \<noteq> 0"
    "skip_bytes (\<lambda>b. b \<noteq> slash \<and> b \<noteq> 0) path start = Done stop" "skip_bytes (\<lambda>b. b = slash) path stop = Done n"
    using assms by (auto simp: skip_path_def Let_def kres_simps split: if_splits)
  have "start < stop" by (rule skip_bytes_lt [OF s(3)]) (use s(2) skip_bytes_le [OF s(1)] in simp)
  then show ?thesis using skip_bytes_le [OF s(1)] skip_bytes_le [OF s(4)] by simp
qed

section \<open>The components of a path\<close>

text \<open>The reference: cut at every slash, drop the empty pieces.\<close>

fun split_slash :: "u8 list \<Rightarrow> u8 list list" where
  "split_slash [] = [[]]"
| "split_slash (c # cs) = (if c = slash then [] # split_slash cs else (c # hd (split_slash cs)) # tl (split_slash cs))"

definition components :: "u8 list \<Rightarrow> u8 list list" where
  "components xs = filter (\<lambda>w. w \<noteq> []) (split_slash xs)"

definition cstr :: "u8 list \<Rightarrow> u8 list" where
  "cstr bs = takeWhile (\<lambda>b. b \<noteq> 0) bs"

definition rest_of :: "u8 list \<Rightarrow> nat \<Rightarrow> u8 list" where
  "rest_of path pos = cstr (drop pos path)"

lemma cstr_end: "0 \<notin> set xs \<Longrightarrow> cstr (xs @ 0 # ys) = xs"
  unfolding cstr_def by (induction xs) auto

lemma while_end:
  assumes "\<not> P z"
  shows "takeWhile P (xs @ z # ys) = takeWhile P xs" "dropWhile P (xs @ z # ys) = dropWhile P xs @ z # ys"
  using assms by (induction xs) auto

lemma split_slash_word: "slash \<notin> set w \<Longrightarrow> split_slash w = [w] \<and> split_slash (w @ slash # r) = w # split_slash r"
  by (induction w) auto

lemma components_Nil [simp]: "components [] = []"
  by (simp add: components_def)

lemma components_slash [simp]: "components (slash # xs) = components xs"
  by (simp add: components_def)

lemma components_dropWhile: "components (dropWhile (\<lambda>b. b = slash) xs) = components xs"
  by (induction xs) simp_all

lemma components_word:
  assumes "w \<noteq> []" and "slash \<notin> set w" and "r = [] \<or> hd r = slash"
  shows "components (w @ r) = w # components r"
proof (cases r)
  case Nil
  then show ?thesis using assms split_slash_word [of w] by (simp add: components_def)
next
  case (Cons c r')
  then show ?thesis using assms split_slash_word [of w r'] by (simp add: components_def)
qed

lemma skip_bytes_eq:
  "\<exists>x \<in> set (drop pos path). \<not> P x \<Longrightarrow> skip_bytes P path pos = Done (pos + length (takeWhile P (drop pos path)))"
proof (induction P path pos rule: skip_bytes.induct)
  case (1 P path pos)
  then have p: "pos < length path" using drop_all by fastforce
  then have d: "drop pos path = path ! pos # drop (Suc pos) path" by (simp add: Cons_nth_drop_Suc)
  show ?case
  proof (cases "P (path ! pos)")
    case True
    then show ?thesis using 1 p d by (subst skip_bytes.simps) auto
  next
    case False
    then show ?thesis using p d by (subst skip_bytes.simps) simp
  qed
qed

lemma components_empty: "components xs = [] \<longleftrightarrow> dropWhile (\<lambda>b. b = slash) xs = []"
proof -
  let ?d = "dropWhile (\<lambda>b. b = slash) xs"
  have "components ?d \<noteq> []" if "?d \<noteq> []"
  proof -
    have "hd ?d \<noteq> slash" using hd_dropWhile [OF that] .
    then have w1: "takeWhile (\<lambda>b. b \<noteq> slash) ?d \<noteq> []" using that by (cases ?d) auto
    have w2: "slash \<notin> set (takeWhile (\<lambda>b. b \<noteq> slash) ?d)" by (auto dest: set_takeWhileD)
    have w3: "dropWhile (\<lambda>b. b \<noteq> slash) ?d = [] \<or> hd (dropWhile (\<lambda>b. b \<noteq> slash) ?d) = slash"
      using hd_dropWhile by blast
    have "components (takeWhile (\<lambda>b. b \<noteq> slash) ?d @ dropWhile (\<lambda>b. b \<noteq> slash) ?d) \<noteq> []"
      unfolding components_word [OF w1 w2 w3] by simp
    then show ?thesis unfolding takeWhile_dropWhile_id .
  qed
  then show ?thesis using components_dropWhile [of xs] components_Nil by metis
qed

lemma rest_of_end:
  assumes "0 \<in> set (drop p path)"
  obtains ys where "drop p path = rest_of path p @ 0 # ys" "0 \<notin> set (rest_of path p)"
proof -
  obtain xs ys where d: "drop p path = xs @ 0 # ys" "0 \<notin> set xs" using assms split_list_first by metis
  then have "rest_of path p = xs" by (simp add: rest_of_def cstr_end)
  then show thesis using d that by simp
qed

lemma at_end: "0 \<in> set (drop p path) \<Longrightarrow> path ! p = 0 \<longleftrightarrow> rest_of path p = []"
proof -
  assume z: "0 \<in> set (drop p path)"
  have p: "p < length path" using z drop_all by fastforce
  from z obtain ys where "drop p path = rest_of path p @ 0 # ys" "0 \<notin> set (rest_of path p)" by (rule rest_of_end)
  then show ?thesis using hd_drop_conv_nth [OF p] by (cases "rest_of path p") auto
qed

text \<open>What is stored in the name.\<close>

lemma name_stored:
  assumes "length name = MAX_DIR_SIZE" and "0 \<notin> set w" and "count = min (length w) (MAX_DIR_SIZE - 1)"
  shows "cstr ((take count w @ drop count name)[count := 0]) = take (MAX_DIR_SIZE - 1) w"
    "length ((take count w @ drop count name)[count := 0]) = MAX_DIR_SIZE"
proof -
  have c: "count < length name" "count \<le> length w" "take count w = take (MAX_DIR_SIZE - 1) w"
    using assms by (auto simp: MAX_DIR_SIZE_def min_def)
  have e: "(take count w @ drop count name)[count := 0] = take count w @ 0 # drop (Suc count) name"
    using list_update_length [of "take count w" "name ! count" "drop (Suc count) name" 0] c(1,2) by (simp add: Cons_nth_drop_Suc)
  have "0 \<notin> set (take count w)" using assms(2) by (meson in_set_takeD)
  then show "cstr ((take count w @ drop count name)[count := 0]) = take (MAX_DIR_SIZE - 1) w" unfolding e using c(3) by (simp add: cstr_end)
  show "length ((take count w @ drop count name)[count := 0]) = MAX_DIR_SIZE" using c(1,2) assms(1) by simp
qed

text \<open>The rest of a path, cut into slashes, a word, slashes and the remainder.\<close>

lemma skip_in_rest:
  assumes "0 \<in> set (drop pos path)" and "\<not> P 0"
  shows "skip_bytes P path pos = Done (pos + length (takeWhile P (rest_of path pos)))"
    "rest_of path (pos + length (takeWhile P (rest_of path pos))) = dropWhile P (rest_of path pos)"
    "0 \<in> set (drop (pos + length (takeWhile P (rest_of path pos))) path)"
proof -
  obtain xs ys where d: "drop pos path = xs @ 0 # ys" "0 \<notin> set xs" using assms(1) split_list_first by metis
  then have r: "rest_of path pos = xs" by (simp add: rest_of_def cstr_end)
  have t: "takeWhile P (drop pos path) = takeWhile P xs" "dropWhile P (drop pos path) = dropWhile P xs @ 0 # ys"
    unfolding d(1) by (rule while_end [where P = P, OF assms(2)])+
  have dp: "drop (pos + length (takeWhile P xs)) path = dropWhile P xs @ 0 # ys"
    using t dropWhile_eq_drop [of P "drop pos path"] by (simp add: add.commute)
  show "skip_bytes P path pos = Done (pos + length (takeWhile P (rest_of path pos)))"
    using skip_bytes_eq [of pos path P] assms t(1) by (auto simp: r)
  show "0 \<in> set (drop (pos + length (takeWhile P (rest_of path pos))) path)" by (simp add: r dp)
  have "0 \<notin> set (dropWhile P xs)" using d(2) by (meson set_dropWhileD)
  then show "rest_of path (pos + length (takeWhile P (rest_of path pos))) = dropWhile P (rest_of path pos)"
    unfolding r by (simp add: rest_of_def dp cstr_end)
qed

section \<open>Properties\<close>

text \<open>
  C34 (walking a path): at a position of a path that a zero byte ends, \<^verbatim>\<open>skip_path\<close> returns 0 and
  leaves the name alone when no component is left; otherwise it stores the next component, cut to
  13 bytes and ended by a zero, and returns the position of the components behind it, which is
  the end of the path exactly if there are none. Slashes at the front, at the end and in a row make no difference.
\<close>

theorem skip_path_correct:
  assumes "0 \<in> set (drop pos path)" and "length name = MAX_DIR_SIZE"
  shows "case components (rest_of path pos) of
      [] \<Rightarrow> skip_path path pos name = Done (0, name)
    | c # cs \<Rightarrow> \<exists>n name'. skip_path path pos name = Done (n, name') \<and> length name' = MAX_DIR_SIZE \<and>
        cstr name' = take (MAX_DIR_SIZE - 1) c \<and> components (rest_of path n) = cs \<and> (path ! n = 0 \<longleftrightarrow> cs = []) \<and>
        pos < n \<and> n < length path"
proof -
  let ?S = "\<lambda>b. b = slash" and ?W = "\<lambda>b. b \<noteq> slash \<and> b \<noteq> 0"
  have s0: "slash \<noteq> 0" by (simp add: slash_def)
  define start where "start = pos + length (takeWhile ?S (rest_of path pos))"
  have a: "skip_bytes ?S path pos = Done start" "rest_of path start = dropWhile ?S (rest_of path pos)" "0 \<in> set (drop start path)"
    using skip_in_rest [OF assms(1), of ?S] s0 by (simp_all add: start_def)
  have c0: "components (rest_of path pos) = components (rest_of path start)" by (simp add: a(2) components_dropWhile)
  show ?thesis
  proof (cases "rest_of path start = []")
    case True
    then have "components (rest_of path pos) = []" "path ! start = 0" using c0 at_end [OF a(3)] by simp_all
    then show ?thesis using a(1) by (simp add: skip_path_def)
  next
    case False
    define stop where "stop = start + length (takeWhile ?W (rest_of path start))"
    have b: "skip_bytes ?W path start = Done stop" "rest_of path stop = dropWhile ?W (rest_of path start)" "0 \<in> set (drop stop path)"
      using skip_in_rest [OF a(3), of ?W] by (simp_all add: stop_def)
    define n where "n = stop + length (takeWhile ?S (rest_of path stop))"
    have c: "skip_bytes ?S path stop = Done n" "rest_of path n = dropWhile ?S (rest_of path stop)" "0 \<in> set (drop n path)"
      using skip_in_rest [OF b(3), of ?S] s0 by (simp_all add: n_def)
    define w where "w = takeWhile ?W (rest_of path start)"
    obtain ys where d: "drop start path = rest_of path start @ 0 # ys" "0 \<notin> set (rest_of path start)" using a(3) by (rule rest_of_end)
    have split: "rest_of path start = w @ rest_of path stop" unfolding w_def b(2) by simp
    have w: "w \<noteq> []" "slash \<notin> set w" "0 \<notin> set w"
    proof -
      have "hd (rest_of path start) \<noteq> slash" using hd_dropWhile [of ?S "rest_of path pos"] False a(2) by simp
      then show "w \<noteq> []" using False d(2) unfolding w_def by (cases "rest_of path start") auto
    qed (auto simp: w_def dest: set_takeWhileD)
    have "rest_of path stop = [] \<or> hd (rest_of path stop) = slash"
    proof -
      have "0 \<notin> set (rest_of path stop)" using d(2) unfolding split by simp
      then show ?thesis using hd_dropWhile [of ?W "rest_of path start"] unfolding b(2) [symmetric] by (metis hd_in_set)
    qed
    then have cw: "components (rest_of path pos) = w # components (rest_of path n)"
      using components_word [OF w(1,2)] c0 by (simp add: split c(2) components_dropWhile)
    have e: "rest_of path n = [] \<longleftrightarrow> components (rest_of path n) = []"
      unfolding components_empty c(2) by (metis dropWhile_idem)
    have ws: "stop - start = length w" by (simp add: stop_def w_def)
    have tk: "take (min (length w) k) (drop start path) = take (min (length w) k) w" for k unfolding d(1) split by simp
    note nm = name_stored [OF assms(2) w(3) refl]
    have "skip_path path pos name =
        Done (n, (take (min (length w) (MAX_DIR_SIZE - 1)) w @ drop (min (length w) (MAX_DIR_SIZE - 1)) name)[min (length w) (MAX_DIR_SIZE - 1) := 0])"
      using a(1) b(1) c(1) False at_end [OF a(3)] by (simp add: skip_path_def ws tk Let_def)
    moreover from this have "pos < n \<and> n < length path" using w(1) by (intro skip_path_lt) (auto simp: n_def stop_def w_def)
    ultimately show ?thesis unfolding cw using nm e at_end [OF c(3)] by simp
  qed
qed

text \<open>The path \<open>//ab//c\<close>.\<close>

theorem skip_path_correct_witness:
  "\<exists>n name1 m name2. skip_path [slash, slash, 97, 98, slash, slash, 99, 0] 0 (replicate 14 0) = Done (n, name1) \<and> cstr name1 = [97, 98] \<and>
     skip_path [slash, slash, 97, 98, slash, slash, 99, 0] n name1 = Done (m, name2) \<and> cstr name2 = [99] \<and>
     skip_path [slash, slash, 97, 98, slash, slash, 99, 0] m name2 = Done (0, name2)"
proof -
  let ?p = "[slash, slash, 97, 98, slash, slash, 99, 0]"
  have s: "slash \<noteq> 97" "slash \<noteq> 98" "slash \<noteq> 99" "slash \<noteq> 0" by (simp_all add: slash_def)
  have c: "components (rest_of ?p 0) = [[97, 98], [99]]" using s by (simp add: components_def rest_of_def cstr_def)
  have z: "0 \<in> set (drop k ?p)" if "k < length ?p" for k
    using that last_in_set [of "drop k ?p"] by (simp only: last_drop drop_eq_Nil not_le) simp
  obtain n name1 where n: "skip_path ?p 0 (replicate 14 0) = Done (n, name1)" "length name1 = MAX_DIR_SIZE" "cstr name1 = [97, 98]"
    "components (rest_of ?p n) = [[99]]" "n < length ?p"
    using skip_path_correct [OF z [of 0], of "replicate 14 0"] unfolding c by (auto simp: MAX_DIR_SIZE_def)
  obtain m name2 where m: "skip_path ?p n name1 = Done (m, name2)" "length name2 = MAX_DIR_SIZE" "cstr name2 = [99]"
    "components (rest_of ?p m) = []" "m < length ?p"
    using skip_path_correct [OF z [OF n(5)] n(2)] unfolding n(4) by (auto simp: MAX_DIR_SIZE_def)
  have "skip_path ?p m name2 = Done (0, name2)"
    using skip_path_correct [OF z [OF m(5)] m(2)] unfolding m(4) by simp
  then show ?thesis using n(1,3) m(1,3) by blast
qed

end
