(* ===== verification/Icache.thy ===== *)
theory Icache
  imports FileIo
begin

text \<open>
  The inode cache, directories and paths (\<^verbatim>\<open>kernel/src/fs/inode.rs\<close>: \<^verbatim>\<open>InodeCache\<close>, \<^verbatim>\<open>Inode\<close>, the directory
  operations of \<^verbatim>\<open>InodeData\<close> and \<^verbatim>\<open>skip_path\<close>). The state is the cache's two arrays and
  the transaction. Rust drops an \<^verbatim>\<open>Inode\<close> that leaves its scope; the model calls \<open>ic_put\<close> where it does.
\<close>

declare split_paired_Ex [simp del] split_paired_All [simp del]

section \<open>The cache\<close>

record inode_meta =
  im_dev :: u32
  im_inum :: u32
  im_refs :: usize

record inode =
  in_dev :: u32
  in_inum :: u32
  in_index :: nat

record icache =
  ic_meta :: "inode_meta list"
  ic_data :: "inode_data list"
  ic_tx :: tstate

definition inode_meta_new :: inode_meta where
  "inode_meta_new = \<lparr>im_dev = 0, im_inum = 0, im_refs = 0\<rparr>"

definition icache_new :: "tstate \<Rightarrow> icache" where
  "icache_new t = \<lparr>ic_meta = replicate NINODE inode_meta_new, ic_data = replicate NINODE inode_data_new, ic_tx = t\<rparr>"

text \<open>The scan of \<^verbatim>\<open>get\<close>: a match, or the first entry that is not in use.\<close>

fun get_loop :: "u32 \<Rightarrow> u32 \<Rightarrow> inode_meta list \<Rightarrow> nat \<Rightarrow> nat option \<Rightarrow> nat + nat option" where
  "get_loop dev inum [] i empty_i = Inr empty_i"
| "get_loop dev inum (m # ms) i empty_i =
     (if im_inum m = inum \<and> im_refs m > 0 \<and> im_dev m = dev then Inl i
      else get_loop dev inum ms (Suc i) (if empty_i = None \<and> im_refs m = 0 then Some i else empty_i))"

definition set_refs :: "nat \<Rightarrow> usize \<Rightarrow> icache \<Rightarrow> icache" where
  "set_refs i r s = s\<lparr>ic_meta := (ic_meta s)[i := (ic_meta s ! i)\<lparr>im_refs := r\<rparr>]\<rparr>"

definition set_data :: "nat \<Rightarrow> inode_data \<Rightarrow> icache \<Rightarrow> icache" where
  "set_data i idata s = s\<lparr>ic_data := (ic_data s)[i := idata]\<rparr>"

definition ic_get :: "u32 \<Rightarrow> u32 \<Rightarrow> icache \<Rightarrow> (inode \<times> icache) kres" where
  "ic_get dev inum s =
     (case get_loop dev inum (ic_meta s) 0 None of
        Inl i \<Rightarrow> kbind (usize_add (im_refs (ic_meta s ! i)) 1) (\<lambda>r.
                 Done (\<lparr>in_dev = dev, in_inum = inum, in_index = i\<rparr>, set_refs i r s))
      | Inr None \<Rightarrow> Panicked ''inode: not enough''
      | Inr (Some i) \<Rightarrow> Done (\<lparr>in_dev = dev, in_inum = inum, in_index = i\<rparr>,
                 s\<lparr>ic_meta := (ic_meta s)[i := \<lparr>im_dev = dev, im_inum = inum, im_refs = 1\<rparr>]\<rparr>))"

definition ic_dup :: "inode \<Rightarrow> icache \<Rightarrow> (inode \<times> icache) kres" where
  "ic_dup ino s =
     kbind (usize_add (im_refs (ic_meta s ! in_index ino)) 1) (\<lambda>r. Done (ino, set_refs (in_index ino) r s))"

definition ic_put :: "bit_field \<Rightarrow> super_block \<Rightarrow> inode \<Rightarrow> icache \<Rightarrow> icache kres" where
  "ic_put bf sb ino s =
     (let i = in_index ino; refs = im_refs (ic_meta s ! i); idata = ic_data s ! i
      in if refs = 1
         then if id_valid idata = None \<or> di_nlink (id_dinode idata) > 0
              then kbind (usize_sub refs 1) (\<lambda>r. Done (set_refs i r (set_data i (idata\<lparr>id_valid := None\<rparr>) s)))
              else kbind (itruncate bf sb (upd_dinode (\<lambda>di. di\<lparr>di_itype := Empty\<rparr>) idata) (ic_tx s)) (\<lambda>(idata', t').
                   let s1 = set_data i (idata'\<lparr>id_valid := None\<rparr>) (s\<lparr>ic_tx := t'\<rparr>)
                   in kbind (usize_sub (im_refs (ic_meta s1 ! i)) 1) (\<lambda>r.
                        if r = 0 then Done (set_refs i r s1) else Panicked ''assertion failed: guard[i].refs == 0''))
         else kbind (usize_sub refs 1) (\<lambda>r. Done (set_refs i r s)))"

text \<open>
  \<^verbatim>\<open>Inode::lock\<close>. \<open>held\<close> are the entries the caller has locked; locking one of them again would
  wait forever, which the model shows as a failure of its own.
\<close>

definition self_lock :: string where
  "self_lock = ''sleeplock acquired twice''"

definition ilock :: "super_block \<Rightarrow> nat list \<Rightarrow> inode \<Rightarrow> icache \<Rightarrow> icache kres" where
  "ilock sb held ino s =
     (if in_index ino \<in> set held then Panicked self_lock
      else if id_valid (ic_data s ! in_index ino) = None
      then kbind (locate_inode sb (in_inum ino)) (\<lambda>blockno.
           kbind (tx_bread (in_dev ino) blockno (ic_tx s)) (\<lambda>(buf, t1).
           kbind (get_dinode (tx_data buf t1) (locate_inode_offset (in_inum ino))) (\<lambda>di.
           kbind (tx_drop buf t1) (\<lambda>t2.
             if di_itype di = Empty then Panicked ''inode: lock an empty inode''
             else Done (set_data (in_index ino) \<lparr>id_valid = Some (in_dev ino, in_inum ino), id_dinode = di\<rparr> (s\<lparr>ic_tx := t2\<rparr>))))))
      else Done s)"

text \<open>An operation of \<^verbatim>\<open>InodeData\<close> on a locked entry.\<close>

definition on_data :: "nat \<Rightarrow> (inode_data \<Rightarrow> tstate \<Rightarrow> ('a \<times> inode_data \<times> tstate) kres) \<Rightarrow> icache \<Rightarrow> ('a \<times> icache) kres" where
  "on_data i f s =
     kbind (f (ic_data s ! i) (ic_tx s)) (\<lambda>(r, idata, t). Done (r, set_data i idata (s\<lparr>ic_tx := t\<rparr>)))"

definition ic_update :: "super_block \<Rightarrow> nat \<Rightarrow> (disk_inode \<Rightarrow> disk_inode) \<Rightarrow> icache \<Rightarrow> icache kres" where
  "ic_update sb i f s =
     (let idata = upd_dinode f (ic_data s ! i)
      in kbind (iupdate sb idata (ic_tx s)) (\<lambda>t. Done (set_data i idata (s\<lparr>ic_tx := t\<rparr>))))"

section \<open>Directories\<close>

definition DE_SIZE :: nat where
  "DE_SIZE = 16"

fun name_match :: "u8 list \<Rightarrow> u8 list \<Rightarrow> bool" where
  "name_match (a # as) (b # bs) = (if a \<noteq> b then False else if a = 0 then True else name_match as bs)"
| "name_match _ _ = False"

definition read_de :: "bit_field \<Rightarrow> super_block \<Rightarrow> nat \<Rightarrow> inode_data \<Rightarrow> tstate \<Rightarrow> (dir_entry \<times> inode_data \<times> tstate) kres" where
  "read_de bf sb off idata t =
     kbind (iread bf sb kernel_sink [] (of_nat off) (of_nat DE_SIZE) idata t) (\<lambda>(r, id1, t1).
       case r of None \<Rightarrow> Panicked ''read dir entry: ()'' | Some bs \<Rightarrow> Done (de_of bs, id1, t1))"

text \<open>The offsets \<^verbatim>\<open>(start..size).step_by(16)\<close>, and the first entry there that satisfies a test.\<close>

definition de_offsets :: "nat \<Rightarrow> nat \<Rightarrow> nat list" where
  "de_offsets start fsize = map (\<lambda>k. start + k * DE_SIZE) [0..<(fsize - start + DE_SIZE - 1) div DE_SIZE]"

fun de_find :: "bit_field \<Rightarrow> super_block \<Rightarrow> (dir_entry \<Rightarrow> bool) \<Rightarrow> nat list \<Rightarrow> inode_data \<Rightarrow> tstate \<Rightarrow>
    ((nat \<times> dir_entry) option \<times> inode_data \<times> tstate) kres" where
  "de_find bf sb P [] idata t = Done (None, idata, t)"
| "de_find bf sb P (off # offs) idata t =
     kbind (read_de bf sb off idata t) (\<lambda>(de, id1, t1).
       if P de then Done (Some (off, de), id1, t1) else de_find bf sb P offs id1 t1)"

definition dir_size :: "inode_data \<Rightarrow> nat" where
  "dir_size idata = unat (di_size (id_dinode idata))"

definition dir_lookup :: "bit_field \<Rightarrow> super_block \<Rightarrow> nat \<Rightarrow> u8 list \<Rightarrow> bool \<Rightarrow> icache \<Rightarrow> ((inode \<times> u32 option) option \<times> icache) kres" where
  "dir_lookup bf sb i name need_offset s =
     kbind (get_dev_inum (ic_data s ! i)) (\<lambda>(dev, _).
       if dev = 0 then Panicked ''assertion failed: dev != 0''
       else if di_itype (id_dinode (ic_data s ! i)) \<noteq> Directory then Panicked ''inode type not dir''
       else kbind (on_data i (de_find bf sb (\<lambda>de. de_inum de \<noteq> 0 \<and> name_match (de_name de) name)
                     (de_offsets 0 (dir_size (ic_data s ! i)))) s) (\<lambda>(r, s1).
            case r of
              None \<Rightarrow> Done (None, s1)
            | Some (off, de) \<Rightarrow>
                kbind (ic_get dev (ucast (de_inum de)) s1) (\<lambda>(ino, s2).
                  Done (Some (ino, if need_offset then Some (of_nat off) else None), s2))))"

definition write_de :: "bit_field \<Rightarrow> super_block \<Rightarrow> u32 \<Rightarrow> dir_entry \<Rightarrow> inode_data \<Rightarrow> tstate \<Rightarrow> (bool \<times> inode_data \<times> tstate) kres" where
  "write_de bf sb off de idata t = iwrite bf sb (kernel_src (de_bytes de)) off (of_nat DE_SIZE) idata t"

text \<open>\<open>False\<close> is \<^verbatim>\<open>Err\<close>.\<close>

definition dir_link :: "bit_field \<Rightarrow> super_block \<Rightarrow> nat \<Rightarrow> u8 list \<Rightarrow> u32 \<Rightarrow> icache \<Rightarrow> (bool \<times> icache) kres" where
  "dir_link bf sb i name inum s =
     (if inum > 0xFFFF then Panicked ''inum too large''
      else kbind (dir_lookup bf sb i name False s) (\<lambda>(found, s1).
        case found of
          Some (ino, _) \<Rightarrow> kbind (ic_put bf sb ino s1) (\<lambda>s2. Done (False, s2))
        | None \<Rightarrow>
            let fsize = di_size (id_dinode (ic_data s1 ! i))
            in kbind (on_data i (de_find bf sb (\<lambda>de. de_inum de = 0) (de_offsets 0 (unat fsize))) s1) (\<lambda>(r, s2).
                 let offset = (case r of None \<Rightarrow> fsize | Some (off, _) \<Rightarrow> of_nat off)
                 in if unat offset mod DE_SIZE \<noteq> 0 then Panicked ''assertion failed: offset % de_size == 0''
                    else kbind (on_data i (write_de bf sb offset \<lparr>de_inum = ucast inum, de_name = name\<rparr>) s2) (\<lambda>(ok, s3).
                      if ok then Done (True, s3) else Panicked ''inode write error''))))"

definition dir_is_empty :: "bit_field \<Rightarrow> super_block \<Rightarrow> nat \<Rightarrow> icache \<Rightarrow> (bool \<times> icache) kres" where
  "dir_is_empty bf sb i s =
     kbind (on_data i (de_find bf sb (\<lambda>de. de_inum de \<noteq> 0) (de_offsets (2 * DE_SIZE) (dir_size (ic_data s ! i)))) s) (\<lambda>(r, s1).
       Done (r = None, s1))"

text \<open>\<^verbatim>\<open>dir_unlink\<close> of the locked entry \<open>i\<close>; the entry's inode is unlocked and dropped on every return.\<close>

definition dot :: u8 where "dot = 0x2E"

definition u16_dec :: "u16 \<Rightarrow> u16 kres" where
  "u16_dec w = (if w = 0 then Panicked ''attempt to subtract with overflow'' else Done (w - 1))"

definition dir_unlink :: "bit_field \<Rightarrow> super_block \<Rightarrow> nat \<Rightarrow> u8 list \<Rightarrow> icache \<Rightarrow> (bool \<times> icache) kres" where
  "dir_unlink bf sb i name s =
     (if name ! 0 = dot \<and> (name ! 1 = 0 \<or> name ! 1 = dot \<and> name ! 2 = 0) then Done (False, s)
      else kbind (dir_lookup bf sb i name True s) (\<lambda>(found, s1).
        case found of
          Some (ino, Some offset) \<Rightarrow>
            let j = in_index ino
            in kbind (ilock sb [i] ino s1) (\<lambda>s2.
               if di_nlink (id_dinode (ic_data s2 ! j)) < 1 then Panicked ''entry inode link is zero''
               else kbind (if di_itype (id_dinode (ic_data s2 ! j)) = Directory then dir_is_empty bf sb j s2 else Done (True, s2)) (\<lambda>(empty, s3).
                 if \<not> empty then kbind (ic_put bf sb ino s3) (\<lambda>s4. Done (False, s4))
                 else kbind (on_data i (write_de bf sb offset dir_entry_empty) s3) (\<lambda>(ok, s4).
                   if \<not> ok then Panicked ''cannot write entry previously read''
                   else kbind (if di_itype (id_dinode (ic_data s4 ! j)) = Directory
                               then kbind (u16_dec (di_nlink (id_dinode (ic_data s4 ! i)))) (\<lambda>n. ic_update sb i (\<lambda>di. di\<lparr>di_nlink := n\<rparr>) s4)
                               else Done s4) (\<lambda>s5.
                        kbind (u16_dec (di_nlink (id_dinode (ic_data s5 ! j)))) (\<lambda>n.
                        kbind (ic_update sb j (\<lambda>di. di\<lparr>di_nlink := n\<rparr>) s5) (\<lambda>s6.
                        kbind (ic_put bf sb ino s6) (\<lambda>s7. Done (True, s7))))))))
        | _ \<Rightarrow> Done (False, s1)))"

end
