(* ===== verification/IcacheInv.thy ===== *)
theory IcacheInv
  imports Icache "HOL-Library.Multiset"
begin

text \<open>
  The inode cache as a state machine: the state and the multiset of the handles (\<^verbatim>\<open>Inode\<close>
  values) that exist. The invariant: the reference counts are the numbers of handles, no
  inode has two entries, and the contents of an entry belong to the inode it stands for.
\<close>

declare split_paired_Ex [simp del] split_paired_All [simp del]

section \<open>Invariant\<close>

definition handles_of :: "nat \<Rightarrow> inode multiset \<Rightarrow> nat" where
  "handles_of i H = size {#ino \<in># H. in_index ino = i#}"

definition key :: "inode \<Rightarrow> u32 \<times> u32" where
  "key ino = (in_dev ino, in_inum ino)"

definition meta_key :: "inode_meta \<Rightarrow> u32 \<times> u32" where
  "meta_key m = (im_dev m, im_inum m)"

definition icache_inv :: "icache \<Rightarrow> inode multiset \<Rightarrow> bool" where
  "icache_inv s H \<longleftrightarrow>
     length (ic_meta s) = NINODE \<and> length (ic_data s) = NINODE \<and>
     (\<forall>ino \<in># H. in_index ino < NINODE \<and> meta_key (ic_meta s ! in_index ino) = key ino) \<and>
     (\<forall>i < NINODE. unat (im_refs (ic_meta s ! i)) = handles_of i H) \<and>
     (\<forall>i < NINODE. \<forall>j < NINODE. 0 < handles_of i H \<and> 0 < handles_of j H \<and>
        meta_key (ic_meta s ! i) = meta_key (ic_meta s ! j) \<longrightarrow> i = j) \<and>
     (\<forall>i < NINODE. id_valid (ic_data s ! i) = None \<or>
        0 < handles_of i H \<and> id_valid (ic_data s ! i) = Some (meta_key (ic_meta s ! i)))"

lemma handles_of_simps [simp]:
  "handles_of i {#} = 0" "handles_of i (add_mset ino H) = (if in_index ino = i then Suc (handles_of i H) else handles_of i H)"
  by (simp_all add: handles_of_def)

lemma handles_of_remove: "ino \<in># H \<Longrightarrow> handles_of i (H - {#ino#}) = (if in_index ino = i then handles_of i H - 1 else handles_of i H)"
  by (metis handles_of_simps(2) insert_DiffM diff_Suc_1)

lemma handles_of_pos: "0 < handles_of i H \<longleftrightarrow> (\<exists>ino \<in># H. in_index ino = i)"
  unfolding handles_of_def nonempty_has_size [symmetric] by (auto simp: multiset_eq_iff)

text \<open>The scan.\<close>

lemma get_loop_hit:
  "get_loop dev inum ms k e = Inl i \<Longrightarrow>
     k \<le> i \<and> i - k < length ms \<and> meta_key (ms ! (i - k)) = (dev, inum) \<and> im_refs (ms ! (i - k)) \<noteq> 0"
proof (induction ms arbitrary: k e)
  case (Cons m ms)
  show ?case
  proof (cases "im_inum m = inum \<and> im_refs m > 0 \<and> im_dev m = dev")
    case True
    then show ?thesis using Cons.prems by (auto simp: meta_key_def word_greater_zero_iff)
  next
    case False
    then have "Suc k \<le> i \<and> i - Suc k < length ms \<and> meta_key (ms ! (i - Suc k)) = (dev, inum) \<and> im_refs (ms ! (i - Suc k)) \<noteq> 0"
      using Cons.IH Cons.prems by (auto split: if_splits)
    moreover from this have "i - k = Suc (i - Suc k)" by linarith
    ultimately show ?thesis by simp
  qed
qed simp

lemma get_loop_miss:
  "get_loop dev inum ms k e = Inr r \<Longrightarrow> m \<in> set ms \<Longrightarrow> im_refs m \<noteq> 0 \<Longrightarrow> meta_key m \<noteq> (dev, inum)"
  by (induction ms arbitrary: k e) (auto simp: meta_key_def word_greater_zero_iff split: if_splits)

lemma get_loop_keep: "get_loop dev inum ms k (Some x) = Inr r \<Longrightarrow> r = Some x"
  by (induction ms arbitrary: k) (auto split: if_splits)

lemma get_loop_full: "get_loop dev inum ms k None = Inr None \<Longrightarrow> m \<in> set ms \<Longrightarrow> im_refs m \<noteq> 0"
  by (induction ms arbitrary: k) (auto dest: get_loop_keep split: if_splits)

lemma get_loop_free:
  "get_loop dev inum ms k None = Inr (Some i) \<Longrightarrow> k \<le> i \<and> i - k < length ms \<and> im_refs (ms ! (i - k)) = 0"
proof (induction ms arbitrary: k)
  case (Cons m ms)
  show ?case
  proof (cases "im_refs m = 0")
    case True
    then have "i = k" using Cons.prems get_loop_keep by (fastforce split: if_splits)
    then show ?thesis using True by simp
  next
    case False
    then have "Suc k \<le> i \<and> i - Suc k < length ms \<and> im_refs (ms ! (i - Suc k)) = 0"
      using Cons.IH [of "Suc k"] Cons.prems by (auto split: if_splits)
    moreover from this have "i - k = Suc (i - Suc k)" by linarith
    ultimately show ?thesis by simp
  qed
qed simp

section \<open>Operations keep the invariant\<close>

lemma set_simps [simp]:
  "ic_meta (set_data i v s) = ic_meta s" "ic_data (set_refs i r s) = ic_data s"
  "ic_meta (set_refs i r s) = (ic_meta s)[i := (ic_meta s ! i)\<lparr>im_refs := r\<rparr>]" "ic_data (set_data i v s) = (ic_data s)[i := v]"
  by (simp_all add: set_data_def set_refs_def)

lemma meta_key_refs [simp]: "meta_key (m\<lparr>im_refs := r\<rparr>) = meta_key m"
  by (simp add: meta_key_def)

lemma icache_invD:
  assumes "icache_inv s H"
  shows "length (ic_meta s) = NINODE" "length (ic_data s) = NINODE"
    "ino \<in># H \<Longrightarrow> in_index ino < NINODE \<and> meta_key (ic_meta s ! in_index ino) = key ino"
    "i < NINODE \<Longrightarrow> unat (im_refs (ic_meta s ! i)) = handles_of i H"
    "i < NINODE \<Longrightarrow> j < NINODE \<Longrightarrow> 0 < handles_of i H \<Longrightarrow> 0 < handles_of j H \<Longrightarrow>
       meta_key (ic_meta s ! i) = meta_key (ic_meta s ! j) \<Longrightarrow> i = j"
    "i < NINODE \<Longrightarrow> id_valid (ic_data s ! i) = None \<or>
       0 < handles_of i H \<and> id_valid (ic_data s ! i) = Some (meta_key (ic_meta s ! i))"
  using assms unfolding icache_inv_def by blast+

text \<open>A change of one entry and of the handles on it.\<close>

lemma inv_entry:
  assumes inv: "icache_inv s H" and i: "i < NINODE"
    and s': "ic_meta s' = (ic_meta s)[i := m]" "ic_data s' = (ic_data s)[i := v]"
    and other: "\<And>j. j \<noteq> i \<Longrightarrow> handles_of j H' = handles_of j H" "\<And>ino. ino \<in># H' \<Longrightarrow> in_index ino \<noteq> i \<Longrightarrow> ino \<in># H"
    and entry: "unat (im_refs m) = handles_of i H'" "\<And>ino. ino \<in># H' \<Longrightarrow> in_index ino = i \<Longrightarrow> key ino = meta_key m"
    and uniq: "\<And>j. j < NINODE \<Longrightarrow> j \<noteq> i \<Longrightarrow> 0 < handles_of i H' \<Longrightarrow> 0 < handles_of j H \<Longrightarrow> meta_key (ic_meta s ! j) \<noteq> meta_key m"
    and valid: "id_valid v = None \<or> 0 < handles_of i H' \<and> id_valid v = Some (meta_key m)"
  shows "icache_inv s' H'"
proof -
  note D = icache_invD [OF inv]
  have n: "ic_meta s' ! j = (if j = i then m else ic_meta s ! j)" "ic_data s' ! j = (if j = i then v else ic_data s ! j)" if "j < NINODE" for j
    using that D(1,2) by (simp_all add: s' nth_list_update)
  show ?thesis
    unfolding icache_inv_def
  proof (intro conjI allI impI ballI)
    show "length (ic_meta s') = NINODE" "length (ic_data s') = NINODE" using D by (simp_all add: s')
    fix ino assume ino: "ino \<in># H'"
    show l: "in_index ino < NINODE" using i D(3) other(2) [OF ino] by (cases "in_index ino = i") auto
    show "meta_key (ic_meta s' ! in_index ino) = key ino"
      using n(1) [OF l] entry(2) [OF ino] other(2) [OF ino] D(3) by auto
  next
    fix j assume j: "j < NINODE"
    show "unat (im_refs (ic_meta s' ! j)) = handles_of j H'" using n(1) [OF j] entry(1) other(1) D(4) [OF j] by simp
    show "id_valid (ic_data s' ! j) = None \<or> 0 < handles_of j H' \<and> id_valid (ic_data s' ! j) = Some (meta_key (ic_meta s' ! j))"
      using n [OF j] valid other(1) D(6) [OF j] by simp
  next
    fix j k assume jk: "j < NINODE" "k < NINODE"
      and e: "0 < handles_of j H' \<and> 0 < handles_of k H' \<and> meta_key (ic_meta s' ! j) = meta_key (ic_meta s' ! k)"
    show "j = k"
      using e n(1) [OF jk(1)] n(1) [OF jk(2)] other(1) [of j] other(1) [of k] uniq [OF jk(1)] uniq [OF jk(2)] D(5) [OF jk]
      by (cases "j = i"; cases "k = i") auto
  qed
qed

lemma refs_iff: "icache_inv s H \<Longrightarrow> i < NINODE \<Longrightarrow> im_refs (ic_meta s ! i) = 0 \<longleftrightarrow> handles_of i H = 0"
  by (metis icache_invD(4) unat_eq_zero)

lemma get_inv:
  assumes inv: "icache_inv s H" and g: "ic_get dev inum s = Done (ino, s')"
  shows "icache_inv s' (add_mset ino H)" "key ino = (dev, inum)" "ic_tx s' = ic_tx s" "ic_data s' = ic_data s"
proof -
  note D = icache_invD [OF inv]
  show k: "key ino = (dev, inum)" and "ic_tx s' = ic_tx s" "ic_data s' = ic_data s"
    using g by (auto simp: ic_get_def key_def set_refs_def kres_simps split: sum.splits option.splits)
  consider (hit) i r where "get_loop dev inum (ic_meta s) 0 None = Inl i" "usize_add (im_refs (ic_meta s ! i)) 1 = Done r"
      "in_index ino = i" "s' = set_refs i r s"
    | (new) i where "get_loop dev inum (ic_meta s) 0 None = Inr (Some i)" "in_index ino = i"
      "s' = s\<lparr>ic_meta := (ic_meta s)[i := \<lparr>im_dev = dev, im_inum = inum, im_refs = 1\<rparr>]\<rparr>"
    using g by (auto simp: ic_get_def kres_simps split: sum.splits option.splits)
  then show "icache_inv s' (add_mset ino H)"
  proof cases
    case hit
    have i: "i < NINODE" "meta_key (ic_meta s ! i) = (dev, inum)" "im_refs (ic_meta s ! i) \<noteq> 0"
      using get_loop_hit [OF hit(1)] D(1) by simp_all
    have r: "unat r = Suc (handles_of i H)" using hit(2) D(4) [OF i(1)] by (simp add: kres_simps unat_word_ariths)
    have p: "0 < handles_of i H" using refs_iff [OF inv i(1)] i(3) by simp
    show ?thesis
    proof (rule inv_entry [OF inv i(1)])
      show "ic_meta s' = (ic_meta s)[i := (ic_meta s ! i)\<lparr>im_refs := r\<rparr>]" "ic_data s' = (ic_data s)[i := ic_data s ! i]"
        by (simp_all add: hit(4))
      show "key x = meta_key ((ic_meta s ! i)\<lparr>im_refs := r\<rparr>)" if "x \<in># add_mset ino H" "in_index x = i" for x
        using that k i(2) D(3) [of x] by auto
      show "meta_key (ic_meta s ! j) \<noteq> meta_key ((ic_meta s ! i)\<lparr>im_refs := r\<rparr>)" if "j < NINODE" "j \<noteq> i" "0 < handles_of j H" for j
        using D(5) [OF that(1) i(1) that(3) p] that(2) by auto
      show "id_valid (ic_data s ! i) = None \<or> 0 < handles_of i (add_mset ino H) \<and>
          id_valid (ic_data s ! i) = Some (meta_key ((ic_meta s ! i)\<lparr>im_refs := r\<rparr>))" using D(6) [OF i(1)] p by simp
    qed (use hit(3) r in auto)
  next
    case new
    have i: "i < NINODE" "im_refs (ic_meta s ! i) = 0" using get_loop_free [OF new(1)] D(1) by simp_all
    have z: "handles_of i H = 0" using refs_iff [OF inv i(1)] i(2) by simp
    then have nh: "in_index x \<noteq> i" if "x \<in># H" for x using handles_of_pos [of i H] that by auto
    let ?m = "\<lparr>im_dev = dev, im_inum = inum, im_refs = 1\<rparr>"
    show ?thesis
    proof (rule inv_entry [OF inv i(1)])
      show "ic_meta s' = (ic_meta s)[i := ?m]" "ic_data s' = (ic_data s)[i := ic_data s ! i]" by (simp_all add: new(3))
      show "key x = meta_key ?m" if "x \<in># add_mset ino H" "in_index x = i" for x
        using that k nh by (auto simp: meta_key_def)
      show "meta_key (ic_meta s ! j) \<noteq> meta_key ?m" if "j < NINODE" "j \<noteq> i" "0 < handles_of j H" for j
        using get_loop_miss [OF new(1), of "ic_meta s ! j"] refs_iff [OF inv that(1)] that D(1) by (simp add: meta_key_def)
      show "id_valid (ic_data s ! i) = None \<or> 0 < handles_of i (add_mset ino H) \<and> id_valid (ic_data s ! i) = Some (meta_key ?m)"
        using D(6) [OF i(1)] z by simp
    qed (use new(2) z in auto)
  qed
qed

lemma dup_inv:
  assumes inv: "icache_inv s H" and ino: "ino \<in># H" and g: "ic_dup ino s = Done (ino', s')"
  shows "icache_inv s' (add_mset ino' H)" "ino' = ino"
proof -
  note D = icache_invD [OF inv]
  let ?i = "in_index ino"
  obtain r where r': "usize_add (im_refs (ic_meta s ! ?i)) 1 = Done r" "Done (ino, set_refs ?i r s) = Done (ino', s')"
    using g unfolding ic_dup_def by (rule kbind_DoneE)
  then have r: "usize_add (im_refs (ic_meta s ! ?i)) 1 = Done r" "s' = set_refs ?i r s" and e: "ino' = ino" by auto
  show "ino' = ino" by (rule e)
  have i: "?i < NINODE" "meta_key (ic_meta s ! ?i) = key ino" using D(3) [OF ino] by simp_all
  have p: "0 < handles_of ?i H" using handles_of_pos ino by blast
  have u: "unat r = Suc (handles_of ?i H)" using r(1) D(4) [OF i(1)] by (simp add: kres_simps unat_word_ariths)
  show "icache_inv s' (add_mset ino' H)"
  proof (rule inv_entry [OF inv i(1)])
    show "ic_meta s' = (ic_meta s)[?i := (ic_meta s ! ?i)\<lparr>im_refs := r\<rparr>]" "ic_data s' = (ic_data s)[?i := ic_data s ! ?i]"
      by (simp_all add: r(2))
    show "key x = meta_key ((ic_meta s ! ?i)\<lparr>im_refs := r\<rparr>)" if "x \<in># add_mset ino' H" "in_index x = ?i" for x
    proof -
      have "key x = key ino" if "x \<in># H" using D(3) [OF that] i(2) \<open>in_index x = ?i\<close> by metis
      then show ?thesis using that(1) i(2) e by (simp; blast)
    qed
    show "meta_key (ic_meta s ! j) \<noteq> meta_key ((ic_meta s ! ?i)\<lparr>im_refs := r\<rparr>)" if "j < NINODE" "j \<noteq> ?i" "0 < handles_of j H" for j
      using D(5) [OF that(1) i(1) that(3) p] that(2) by auto
    show "id_valid (ic_data s ! ?i) = None \<or> 0 < handles_of ?i (add_mset ino' H) \<and>
        id_valid (ic_data s ! ?i) = Some (meta_key ((ic_meta s ! ?i)\<lparr>im_refs := r\<rparr>))" using D(6) [OF i(1)] e by auto
    show "unat (im_refs ((ic_meta s ! ?i)\<lparr>im_refs := r\<rparr>)) = handles_of ?i (add_mset ino' H)" using u e by simp
    show "x \<in># H" if "x \<in># add_mset ino' H" "in_index x \<noteq> ?i" for x using that e by auto
  qed (simp_all add: e)
qed

text \<open>Dropping a handle: the last one makes the entry invalid.\<close>

lemma put_inv:
  assumes inv: "icache_inv s H" and ino: "ino \<in># H" and g: "ic_put bf sb ino s = Done s'"
  shows "icache_inv s' (H - {#ino#})"
proof -
  note D = icache_invD [OF inv]
  let ?i = "in_index ino" and ?m = "ic_meta s ! in_index ino"
  have i: "?i < NINODE" "meta_key ?m = key ino" using D(3) [OF ino] by simp_all
  have p: "0 < handles_of ?i H" using handles_of_pos ino by blast
  have u: "unat (im_refs ?m) = handles_of ?i H" by (rule D(4) [OF i(1)])
  obtain v where s': "ic_meta s' = (ic_meta s)[?i := ?m\<lparr>im_refs := im_refs ?m - 1\<rparr>]" "ic_data s' = (ic_data s)[?i := v]"
      "im_refs ?m = 1 \<and> id_valid v = None \<or> im_refs ?m \<noteq> 1 \<and> v = ic_data s ! ?i"
    using g D(1,2) i(1) unfolding ic_put_def Let_def
    by (auto simp: kres_simps split: if_splits)
  have one: "1 \<le> im_refs ?m" using u p by (simp add: word_le_nat_alt)
  have r: "unat (im_refs ?m - 1) = handles_of ?i H - 1" using unat_sub [OF one] u by simp
  have last: "im_refs ?m = 1 \<longleftrightarrow> handles_of ?i H = 1" using u by (simp add: word_unat_eq_iff)
  show ?thesis
  proof (rule inv_entry [OF inv i(1) s'(1,2)])
    show "ino' \<in># H" if "ino' \<in># H - {#ino#}" for ino' using that by (meson in_diffD)
    show "key x = meta_key (?m\<lparr>im_refs := im_refs ?m - 1\<rparr>)" if "x \<in># H - {#ino#}" "in_index x = ?i" for x
      using D(3) [of x] that by (metis in_diffD meta_key_refs)
    show "meta_key (ic_meta s ! j) \<noteq> meta_key (?m\<lparr>im_refs := im_refs ?m - 1\<rparr>)" if "j < NINODE" "j \<noteq> ?i" "0 < handles_of j H" for j
      using D(5) [OF that(1) i(1) that(3) p] that(2) by auto
    show "id_valid v = None \<or> 0 < handles_of ?i (H - {#ino#}) \<and> id_valid v = Some (meta_key (?m\<lparr>im_refs := im_refs ?m - 1\<rparr>))"
      using s'(3) D(6) [OF i(1)] last p handles_of_remove [OF ino, of ?i] by auto
  qed (use handles_of_remove [OF ino] r in auto)
qed

lemma data_inv:
  assumes inv: "icache_inv s H" and i: "i < NINODE" and "ic_meta s' = ic_meta s" "ic_data s' = (ic_data s)[i := v]"
    and v: "id_valid v = None \<or> 0 < handles_of i H \<and> id_valid v = Some (meta_key (ic_meta s ! i))"
  shows "icache_inv s' H"
  by (rule inv_entry [OF inv i _ assms(4), of "ic_meta s ! i"]) (use assms icache_invD [OF inv] in auto)

lemma lock_inv:
  assumes inv: "icache_inv s H" and ino: "ino \<in># H" and g: "ilock sb held ino s = Done s'"
  shows "icache_inv s' H" "id_valid (ic_data s' ! in_index ino) = Some (key ino)"
    "j \<noteq> in_index ino \<Longrightarrow> ic_data s' ! j = ic_data s ! j" "ic_meta s' = ic_meta s"
    "id_valid (ic_data s ! in_index ino) \<noteq> None \<Longrightarrow> s' = s"
proof -
  note D = icache_invD [OF inv]
  let ?i = "in_index ino"
  have i: "?i < NINODE" "meta_key (ic_meta s ! ?i) = key ino" using D(3) [OF ino] by simp_all
  have p: "0 < handles_of ?i H" using handles_of_pos ino by blast
  have c: "s' = s \<and> id_valid (ic_data s ! ?i) \<noteq> None \<or>
      id_valid (ic_data s ! ?i) = None \<and> (\<exists>di t. s' = set_data ?i \<lparr>id_valid = Some (key ino), id_dinode = di\<rparr> (s\<lparr>ic_tx := t\<rparr>))"
    using g by (auto simp: ilock_def kres_simps key_def split: if_splits) (rule exI, rule exI, rule refl)
  then show "ic_meta s' = ic_meta s" "j \<noteq> ?i \<Longrightarrow> ic_data s' ! j = ic_data s ! j"
    "id_valid (ic_data s ! ?i) \<noteq> None \<Longrightarrow> s' = s" by auto
  from c show "id_valid (ic_data s' ! ?i) = Some (key ino)"
  proof
    assume "s' = s \<and> id_valid (ic_data s ! ?i) \<noteq> None"
    then show ?thesis using D(6) [OF i(1)] i(2) by auto
  qed (use D(2) i(1) in auto)
  from c show "icache_inv s' H"
  proof
    assume "id_valid (ic_data s ! ?i) = None \<and> (\<exists>di t. s' = set_data ?i \<lparr>id_valid = Some (key ino), id_dinode = di\<rparr> (s\<lparr>ic_tx := t\<rparr>))"
    then obtain di t where e: "s' = set_data ?i \<lparr>id_valid = Some (key ino), id_dinode = di\<rparr> (s\<lparr>ic_tx := t\<rparr>)" by blast
    show ?thesis by (rule data_inv [OF inv i(1)]) (use e p i(2) in auto)
  qed (use inv in simp)
qed

section \<open>The state machine\<close>

text \<open>
  The steps of any number of clients: obtaining, cloning and dropping handles, locking an inode, and
  changing the contents of an inode that is locked, which keeps what inode they belong to.
\<close>

inductive ic_step :: "bit_field \<Rightarrow> super_block \<Rightarrow> icache \<times> inode multiset \<Rightarrow> icache \<times> inode multiset \<Rightarrow> bool" for bf sb where
  get: "ic_get dev inum s = Done (ino, s') \<Longrightarrow> ic_step bf sb (s, H) (s', add_mset ino H)"
| dup: "ino \<in># H \<Longrightarrow> ic_dup ino s = Done (ino', s') \<Longrightarrow> ic_step bf sb (s, H) (s', add_mset ino' H)"
| put: "ino \<in># H \<Longrightarrow> ic_put bf sb ino s = Done s' \<Longrightarrow> ic_step bf sb (s, H) (s', H - {#ino#})"
| lock: "ino \<in># H \<Longrightarrow> ilock sb held ino s = Done s' \<Longrightarrow> ic_step bf sb (s, H) (s', H)"
| change: "ino \<in># H \<Longrightarrow> id_valid idata = id_valid (ic_data s ! in_index ino) \<Longrightarrow>
    ic_step bf sb (s, H) (set_data (in_index ino) idata (s\<lparr>ic_tx := t\<rparr>), H)"

inductive ic_reach :: "bit_field \<Rightarrow> super_block \<Rightarrow> icache \<times> inode multiset \<Rightarrow> bool" for bf sb where
  boot: "ic_reach bf sb (icache_new t, {#})"
| step: "ic_reach bf sb x \<Longrightarrow> ic_step bf sb x y \<Longrightarrow> ic_reach bf sb y"

lemma step_inv: "ic_step bf sb x y \<Longrightarrow> icache_inv (fst x) (snd x) \<Longrightarrow> icache_inv (fst y) (snd y)"
proof (induction rule: ic_step.induct)
  case (change ino H idata s t)
  then have i: "in_index ino < NINODE" using icache_invD(3) by fastforce
  show ?case
    unfolding fst_conv snd_conv by (rule data_inv [of s H "in_index ino" _ idata]) (use change icache_invD(6) [of s H, OF _ i] i in auto)
qed (auto intro: get_inv(1) dup_inv(1) put_inv lock_inv(1))

lemma reach_inv: "ic_reach bf sb x \<Longrightarrow> icache_inv (fst x) (snd x)"
proof (induction rule: ic_reach.induct)
  case (boot t)
  show ?case by (simp add: icache_inv_def icache_new_def inode_meta_new_def inode_data_new_def)
qed (rule step_inv)

text \<open>The inodes that handles name.\<close>

definition active :: "inode multiset \<Rightarrow> (u32 \<times> u32) set" where
  "active H = key ` set_mset H"

lemma active_index:
  assumes inv: "icache_inv s H"
  shows "bij_betw (\<lambda>i. meta_key (ic_meta s ! i)) {i. i < NINODE \<and> im_refs (ic_meta s ! i) \<noteq> 0} (active H)"
proof -
  note D = icache_invD [OF inv]
  let ?I = "{i. i < NINODE \<and> im_refs (ic_meta s ! i) \<noteq> 0}" and ?f = "\<lambda>i. meta_key (ic_meta s ! i)"
  have I: "?I = in_index ` set_mset H"
    using D(3) refs_iff [OF inv] handles_of_pos [of _ H] by (auto simp: image_iff) (metis neq0_conv)+
  have "inj_on ?f ?I" by (rule inj_onI) (use D(5) refs_iff [OF inv] in auto)
  moreover have "?f ` ?I = active H" unfolding I active_def image_image using D(3) by (intro image_cong) auto
  ultimately show ?thesis by (simp add: bij_betw_def)
qed

lemma get_total:
  assumes inv: "icache_inv s H" and small: "size H < 2 ^ 64 - 1"
  shows "if (dev, inum) \<in> active H \<or> card (active H) < NINODE then \<exists>ino s'. ic_get dev inum s = Done (ino, s')
    else ic_get dev inum s = Panicked ''inode: not enough''"
proof -
  note D = icache_invD [OF inv]
  note bij = active_index [OF inv]
  let ?I = "{i. i < NINODE \<and> im_refs (ic_meta s ! i) \<noteq> 0}"
  have in_act: "(dev, inum) \<in> active H \<longleftrightarrow> (\<exists>i \<in> ?I. meta_key (ic_meta s ! i) = (dev, inum))"
    using bij_betw_imp_surj_on [OF bij] by (metis (no_types, lifting) image_iff)
  show ?thesis
  proof (cases "get_loop dev inum (ic_meta s) 0 None")
    case (Inl i)
    have i: "i < NINODE" "meta_key (ic_meta s ! i) = (dev, inum)" "im_refs (ic_meta s ! i) \<noteq> 0"
      using get_loop_hit [OF Inl] D(1) by simp_all
    have "handles_of i H \<le> size H" by (simp add: handles_of_def size_filter_mset_lesseq)
    then have "\<exists>r. usize_add (im_refs (ic_meta s ! i)) 1 = Done r" using D(4) [OF i(1)] small by (simp add: usize_add_def)
    then show ?thesis using Inl i in_act by (auto simp: ic_get_def)
  next
    case (Inr e)
    have na: "(dev, inum) \<notin> active H" unfolding in_act using get_loop_miss [OF Inr] D(1) by fastforce
    show ?thesis
    proof (cases e)
      case None
      then have "?I = {..<NINODE}" using get_loop_full [of dev inum "ic_meta s" 0] Inr D(1) by fastforce
      then have "card (active H) = NINODE" using bij_betw_same_card [OF bij] by simp
      then show ?thesis using na Inr None by (simp add: ic_get_def)
    next
      case (Some i)
      then have "i < NINODE" "im_refs (ic_meta s ! i) = 0" using get_loop_free [of dev inum "ic_meta s" 0 i] Inr D(1) by simp_all
      then have "?I \<subset> {..<NINODE}" by auto
      then have "card (active H) < NINODE" using bij_betw_same_card [OF bij] psubset_card_mono [of "{..<NINODE}" ?I] by simp
      then show ?thesis using Inr Some by (simp add: ic_get_def)
    qed
  qed
qed

section \<open>Properties\<close>



end
