(* ===== verification/Directory.thy ===== *)
theory Directory
  imports IcacheInv PathName
begin

text \<open>
  Directories and path resolution. A directory is a file of 16-byte entries; it refines a
  finite map from names to inode numbers. \<^verbatim>\<open>namex\<close>, \<^verbatim>\<open>namei\<close>, \<^verbatim>\<open>namei_parent\<close> and \<^verbatim>\<open>create\<close> walk
  directories along a path.
\<close>

declare split_paired_Ex [simp del] split_paired_All [simp del]

section \<open>Definitions\<close>

text \<open>
  The loop of \<^verbatim>\<open>namex\<close>. The second component of the result is the buffer \<^verbatim>\<open>name\<close>.
\<close>

function namex_loop :: "bit_field \<Rightarrow> super_block \<Rightarrow> u8 list \<Rightarrow> bool \<Rightarrow> nat \<Rightarrow> u8 list \<Rightarrow> inode \<Rightarrow> icache \<Rightarrow>
    (inode option \<times> u8 list \<times> icache) kres" where
  "namex_loop bf sb path is_parent pos name ino s =
     kbind (skip_path path pos name) (\<lambda>p.
       if fst p = 0
       then if is_parent then kbind (ic_put bf sb ino s) (\<lambda>s1. Done (None, snd p, s1)) else Done (Some ino, snd p, s)
       else kbind (ilock sb [] ino s) (\<lambda>s1.
         if di_itype (id_dinode (ic_data s1 ! in_index ino)) \<noteq> Directory
         then kbind (ic_put bf sb ino s1) (\<lambda>s2. Done (None, snd p, s2))
         else if is_parent \<and> path ! fst p = 0 then Done (Some ino, snd p, s1)
         else kbind (dir_lookup bf sb (in_index ino) (snd p) False s1) (\<lambda>(found, s2).
           case found of
             None \<Rightarrow> kbind (ic_put bf sb ino s2) (\<lambda>s3. Done (None, snd p, s3))
           | Some (last_inode, _) \<Rightarrow> kbind (ic_put bf sb ino s2) (\<lambda>s3.
               namex_loop bf sb path is_parent (fst p) (snd p) last_inode s3))))"
  by pat_completeness auto
termination
  by (relation "measure (\<lambda>(bf, sb, path, is_parent, pos, name, ino, s). length path - pos)")
     (auto dest!: skip_path_lt)

declare namex_loop.simps [simp del]

definition namex :: "bit_field \<Rightarrow> super_block \<Rightarrow> inode option \<Rightarrow> u8 list \<Rightarrow> u8 list \<Rightarrow> bool \<Rightarrow> icache \<Rightarrow>
    (inode option \<times> u8 list \<times> icache) kres" where
  "namex bf sb cwd path name is_parent s =
     (if path = [] then Panicked oob
      else kbind (if path ! 0 = slash then ic_get ROOTDEV ROOTINUM s
                  else case cwd of None \<Rightarrow> Panicked unwrap_none | Some c \<Rightarrow> ic_dup c s) (\<lambda>(ino, s1).
             namex_loop bf sb path is_parent 0 name ino s1))"

definition namei :: "bit_field \<Rightarrow> super_block \<Rightarrow> inode option \<Rightarrow> u8 list \<Rightarrow> icache \<Rightarrow> (inode option \<times> icache) kres" where
  "namei bf sb cwd path s =
     kbind (namex bf sb cwd path (replicate MAX_DIR_SIZE 0) False s) (\<lambda>(r, _, s1). Done (r, s1))"

definition namei_parent :: "bit_field \<Rightarrow> super_block \<Rightarrow> inode option \<Rightarrow> u8 list \<Rightarrow> u8 list \<Rightarrow> icache \<Rightarrow>
    (inode option \<times> u8 list \<times> icache) kres" where
  "namei_parent bf sb cwd path name s = namex bf sb cwd path name True s"

definition link_or_panic :: "string \<Rightarrow> bit_field \<Rightarrow> super_block \<Rightarrow> nat \<Rightarrow> u8 list \<Rightarrow> u32 \<Rightarrow> icache \<Rightarrow> icache kres" where
  "link_or_panic msg bf sb i name inum s =
     kbind (dir_link bf sb i name inum s) (\<lambda>(ok, s1). if ok then Done s1 else Panicked msg)"

text \<open>The entries \<^verbatim>\<open>.\<close> and \<^verbatim>\<open>..\<close> of a new directory \<open>j\<close> in the directory \<open>i\<close>.\<close>

definition init_dir :: "bit_field \<Rightarrow> super_block \<Rightarrow> nat \<Rightarrow> nat \<Rightarrow> u32 \<Rightarrow> u32 \<Rightarrow> icache \<Rightarrow> icache kres" where
  "init_dir bf sb i j inum dir_inum s =
     kbind (idata_link (ic_data s ! i)) (\<lambda>dir_idata.
     kbind (ic_update sb i (\<lambda>_. id_dinode dir_idata) s) (\<lambda>s1.
     let name = replicate MAX_DIR_SIZE 0; name1 = name[0 := dot]; name2 = name1[1 := dot]
     in kbind (link_or_panic ''dir link .'' bf sb j name1 inum s1) (\<lambda>s2.
        link_or_panic ''dir link ..'' bf sb j name2 dir_inum s2)))"

definition create :: "bit_field \<Rightarrow> super_block \<Rightarrow> inode option \<Rightarrow> u8 list \<Rightarrow> inode_type \<Rightarrow> u16 \<Rightarrow> u16 \<Rightarrow> bool \<Rightarrow> icache \<Rightarrow>
    (inode option \<times> icache) kres" where
  "create bf sb cwd path itype major minor reuse s =
     kbind (namei_parent bf sb cwd path (replicate MAX_DIR_SIZE 0) s) (\<lambda>(parent, name, s1).
     case parent of
       None \<Rightarrow> Done (None, s1)
     | Some dir_inode \<Rightarrow>
         let i = in_index dir_inode
         in kbind (ilock sb [] dir_inode s1) (\<lambda>s2.
            kbind (dir_lookup bf sb i name False s2) (\<lambda>(found, s3).
            case found of
              Some (ino, _) \<Rightarrow>
                if reuse then kbind (ic_put bf sb dir_inode s3) (\<lambda>s4. Done (Some ino, s4))
                else kbind (ic_put bf sb ino s3) (\<lambda>s4. kbind (ic_put bf sb dir_inode s4) (\<lambda>s5. Done (None, s5)))
            | None \<Rightarrow>
                kbind (get_dev_inum (ic_data s3 ! i)) (\<lambda>(dev, _).
                kbind (inode_alloc sb dev itype (ic_tx s3)) (\<lambda>(inum, t4).
                kbind (ic_get dev inum (s3\<lparr>ic_tx := t4\<rparr>)) (\<lambda>(ino, s4).
                kbind (ilock sb [i] ino s4) (\<lambda>s5.
                let j = in_index ino
                in kbind (ic_update sb j (\<lambda>di. di\<lparr>di_major := major, di_minor := minor, di_nlink := 1\<rparr>) s5) (\<lambda>s6.
                   if di_itype (id_dinode (ic_data s6 ! j)) \<noteq> itype then Panicked ''assertion failed: itype''
                   else kbind (if itype = Directory then init_dir bf sb i j inum (in_inum dir_inode) s6 else Done s6) (\<lambda>s7.
                        kbind (link_or_panic ''parent dir link'' bf sb i name inum s7) (\<lambda>s8.
                        kbind (ic_put bf sb dir_inode s8) (\<lambda>s9. Done (Some ino, s9))))))))))))"

section \<open>Entries\<close>

lemma name_match_iff: "name_match a b \<longleftrightarrow> 0 \<in> set a \<and> 0 \<in> set b \<and> cstr a = cstr b"
  by (induction a b rule: name_match.induct) (auto simp: cstr_def)

definition entries_of :: "u8 list \<Rightarrow> dir_entry list" where
  "entries_of bs = map (\<lambda>k. de_of (drop (DE_SIZE * k) bs)) [0..<length bs div DE_SIZE]"

definition dir_map :: "dir_entry list \<Rightarrow> u8 list \<Rightarrow> u16 option" where
  "dir_map es nm = map_option de_inum (find (\<lambda>de. de_inum de \<noteq> 0 \<and> 0 \<in> set (de_name de) \<and> cstr (de_name de) = nm) es)"

lemma find_append: "find P (xs @ ys) = (case find P xs of None \<Rightarrow> find P ys | Some x \<Rightarrow> Some x)"
  by (induction xs) simp_all

lemma dir_map_insert:
  assumes "dir_map (xs @ zs @ ys) (cstr name) = None" and "\<forall>z \<in> set zs. de_inum z = 0" and "inum \<noteq> 0" and "0 \<in> set name"
  shows "dir_map (xs @ \<lparr>de_inum = inum, de_name = name\<rparr> # ys) = (dir_map (xs @ zs @ ys))(cstr name \<mapsto> inum)"
proof
  fix nm
  let ?P = "\<lambda>nm de. de_inum de \<noteq> 0 \<and> 0 \<in> set (de_name de) \<and> cstr (de_name de) = nm"
  have z: "find (?P nm) zs = None" for nm using assms(2) by (auto simp: find_None_iff)
  have "find (?P (cstr name)) xs = None" using assms(1) by (auto simp: dir_map_def find_append split: option.splits)
  then show "dir_map (xs @ \<lparr>de_inum = inum, de_name = name\<rparr> # ys) nm = ((dir_map (xs @ zs @ ys))(cstr name \<mapsto> inum)) nm"
    using z assms(3,4) by (auto simp: dir_map_def find_append split: option.splits)
qed

lemma de_of_take: "take 16 bs = take 16 cs \<Longrightarrow> 16 \<le> length bs \<Longrightarrow> 16 \<le> length cs \<Longrightarrow> de_of bs = de_of cs"
proof -
  assume t: "take 16 bs = take 16 cs" "16 \<le> length bs" "16 \<le> length cs"
  have n: "bs ! i = cs ! i" if "i < 16" for i using t that nth_take [of i 16 bs] nth_take [of i 16 cs] by simp
  have "take 14 (drop 2 bs) = take 14 (drop 2 cs)" using t n by (intro nth_equalityI) auto
  then show ?thesis using n [of 0] n [of 1] by (simp add: de_of_def of_le16_def MAX_DIR_SIZE_def)
qed

lemma length_overwrite: "off \<le> length old \<Longrightarrow> length (overwrite off data old) = max (length old) (off + length data)"
  by (auto simp: overwrite_def)

lemma entries_overwrite:
  assumes len: "length bs = DE_SIZE * m" and k: "k \<le> m" and de: "length (de_name de) = MAX_DIR_SIZE"
  shows "entries_of (overwrite (DE_SIZE * k) (de_bytes de) bs) = take k (entries_of bs) @ de # drop (Suc k) (entries_of bs)"
    (is "entries_of ?o = ?r")
proof (rule nth_equalityI)
  have lb: "length (de_bytes de) = 16" by (rule length_de_bytes [OF de])
  have lo: "length ?o = DE_SIZE * max m (Suc k)" using k len lb by (subst length_overwrite) (auto simp: DE_SIZE_def max_def)
  then have le: "length (entries_of ?o) = max m (Suc k)" by (simp add: entries_of_def DE_SIZE_def)
  then show "length (entries_of ?o) = length ?r" using len k by (auto simp: entries_of_def DE_SIZE_def)
  fix j assume "j < length (entries_of ?o)"
  then have j: "j < max m (Suc k)" using le by simp
  have ej: "entries_of ?o ! j = de_of (drop (DE_SIZE * j) ?o)" using j lo by (simp add: entries_of_def DE_SIZE_def)
  consider "j = k" | "j < k" | "k < j" "j < m" using j by linarith
  then show "entries_of ?o ! j = ?r ! j"
  proof cases
    case 1
    have "drop (DE_SIZE * k) ?o = de_bytes de @ drop (DE_SIZE * k + 16) bs" using k len lb by (simp add: overwrite_def)
    then show ?thesis using 1 ej de_of_bytes [OF de] k len by (simp add: nth_append entries_of_def DE_SIZE_def)
  next
    case 2
    have "take 16 (drop (DE_SIZE * j) ?o) = take 16 (drop (DE_SIZE * j) bs)"
      using 2 k len by (simp add: overwrite_def DE_SIZE_def take_drop min_def)
    then have "de_of (drop (DE_SIZE * j) ?o) = de_of (drop (DE_SIZE * j) bs)"
      using 2 k len lo by (intro de_of_take) (auto simp: DE_SIZE_def max_def split: if_splits)
    then show ?thesis using 2 ej k len by (simp add: nth_append entries_of_def DE_SIZE_def)
  next
    case 3
    have "drop (DE_SIZE * j) ?o = drop (DE_SIZE * j) bs"
      using 3 k len lb by (simp add: overwrite_def DE_SIZE_def)
    then show ?thesis using 3 ej k len by (simp add: nth_append entries_of_def DE_SIZE_def)
  qed
qed

section \<open>Looking up and linking\<close>

text \<open>Entry \<open>i\<close> of the cache is a locked directory of device \<open>d\<close>.\<close>

definition dir_ok :: "bit_field \<Rightarrow> super_block \<Rightarrow> u32 \<Rightarrow> nat \<Rightarrow> u32 \<Rightarrow> nat \<Rightarrow> icache \<Rightarrow> bool" where
  "dir_ok bf sb d n inum i s \<longleftrightarrow>
     i < length (ic_data s) \<and> tx_ok d (ic_tx s) {} n \<and> d \<noteq> 0 \<and>
     file_ok bf sb d (tx_area (ic_tx s)) (tx_cont d (ic_tx s)) inum (ic_data s ! i) \<and>
     di_itype (id_dinode (ic_data s ! i)) = Directory \<and> DE_SIZE dvd dir_size (ic_data s ! i)"

definition dir_entries :: "u32 \<Rightarrow> nat \<Rightarrow> icache \<Rightarrow> dir_entry list" where
  "dir_entries d i s = entries_of (file_contents (ic_data s ! i) (tx_cont d (ic_tx s)))"

lemma length_contents: "length (file_contents idata c) = dir_size idata"
  by (simp add: file_contents_def dir_size_def)

context bit_crate
begin

lemma read_de_spec:
  assumes "tx_ok d t {} n" and f: "file_ok bf sb d (tx_area t) (tx_cont d t) inum idata" and le: "off + DE_SIZE \<le> dir_size idata"
  shows "\<exists>t'. read_de bf sb off idata t = Done (de_of (drop off (file_contents idata (tx_cont d t))), idata, t') \<and>
    tx_ok d t' {} n \<and> tx_cont d t' = tx_cont d t \<and> tx_area t' = tx_area t"
proof -
  let ?bs = "file_contents idata (tx_cont d t)"
  have M: "dir_size idata \<le> MAX_FILE_SIZE" using file_okD(6) [OF f] by (simp add: dir_size_def)
  then have o: "off + DE_SIZE < 2 ^ 32" using le by (simp add: MAX_FILE_SIZE_def NDIRECT_def NINDIRECT_def BSIZE_def)
  then have u: "unat (of_nat off :: u32) = off" "unat (of_nat DE_SIZE :: u32) = DE_SIZE" by (simp_all add: unat_of_nat DE_SIZE_def)
  have eu: "unat (of_nat off + of_nat DE_SIZE :: u32) = off + DE_SIZE" using o u by (simp add: unat_word_ariths)
  obtain t' where t': "iread_loop bf sb kernel_sink d off DE_SIZE [] idata t = Done (Some (file_bytes idata (tx_cont d t) off DE_SIZE), idata, t')"
    "tx_ok d t' {} n" "tx_cont d t' = tx_cont d t" "tx_area t' = tx_area t"
    using iread_loop_spec [OF assms(1) f, of off DE_SIZE "[]"] le by (auto simp: dir_size_def)
  have "iread bf sb kernel_sink [] (of_nat off) (of_nat DE_SIZE) idata t = Done (Some (file_bytes idata (tx_cont d t) off DE_SIZE), idata, t')"
    using t'(1) o le file_okD(2) [OF f] by (simp add: iread_def get_dev_inum_def u word_less_nat_alt eu dir_size_def)
  moreover have "de_of (file_bytes idata (tx_cont d t) off DE_SIZE) = de_of (drop off ?bs)"
  proof (rule de_of_take)
    show "take 16 (file_bytes idata (tx_cont d t) off DE_SIZE) = take 16 (drop off ?bs)"
      using le by (simp add: file_bytes_contents dir_size_def DE_SIZE_def)
  qed (use le length_contents [of idata "tx_cont d t"] in \<open>simp_all add: DE_SIZE_def\<close>)
  ultimately show ?thesis using t' by (simp add: read_de_def)
qed

lemma de_find_spec:
  assumes "tx_ok d t {} n" and "file_ok bf sb d (tx_area t) (tx_cont d t) inum idata" and "\<forall>off \<in> set offs. off + DE_SIZE \<le> dir_size idata"
  defines "de \<equiv> \<lambda>off. de_of (drop off (file_contents idata (tx_cont d t)))"
  shows "\<exists>t'. de_find bf sb P offs idata t = Done (map_option (\<lambda>off. (off, de off)) (find (\<lambda>off. P (de off)) offs), idata, t') \<and>
    tx_ok d t' {} n \<and> tx_cont d t' = tx_cont d t \<and> tx_area t' = tx_area t"
  using assms(1-3) unfolding de_def
proof (induction offs arbitrary: t)
  case (Cons off offs)
  obtain t1 where t1: "read_de bf sb off idata t = Done (de_of (drop off (file_contents idata (tx_cont d t))), idata, t1)"
    "tx_ok d t1 {} n" "tx_cont d t1 = tx_cont d t" "tx_area t1 = tx_area t"
    using read_de_spec [OF Cons.prems(1,2), of off] Cons.prems(3) by auto
  show ?case
  proof (cases "P (de_of (drop off (file_contents idata (tx_cont d t))))")
    case True
    then show ?thesis using t1 by simp
  next
    case False
    then show ?thesis using Cons.IH [OF t1(2)] Cons.prems(2,3) t1 by simp
  qed
qed simp

text \<open>The scan of a directory through the cache.\<close>

lemma on_data_find:
  assumes d: "dir_ok bf sb d n inum i s"
  defines "bs \<equiv> file_contents (ic_data s ! i) (tx_cont d (ic_tx s))"
  shows "\<exists>s'. on_data i (de_find bf sb P (de_offsets 0 (dir_size (ic_data s ! i)))) s =
      Done (map_option (\<lambda>off. (off, de_of (drop off bs))) (find (\<lambda>off. P (de_of (drop off bs))) (de_offsets 0 (dir_size (ic_data s ! i)))), s') \<and>
    dir_ok bf sb d n inum i s' \<and> dir_entries d i s' = dir_entries d i s \<and> ic_meta s' = ic_meta s \<and> ic_data s' = ic_data s \<and>
    tx_cont d (ic_tx s') = tx_cont d (ic_tx s)"
proof -
  let ?id = "ic_data s ! i"
  have dv: "i < length (ic_data s)" "tx_ok d (ic_tx s) {} n" "file_ok bf sb d (tx_area (ic_tx s)) (tx_cont d (ic_tx s)) inum ?id" "DE_SIZE dvd dir_size ?id"
    using d by (simp_all add: dir_ok_def)
  have "off + DE_SIZE \<le> dir_size ?id" if "off \<in> set (de_offsets 0 (dir_size ?id))" for off
    using that dv(4) by (auto simp: de_offsets_def DE_SIZE_def elim!: dvdE)
  then obtain t' where t': "de_find bf sb P (de_offsets 0 (dir_size ?id)) ?id (ic_tx s) =
      Done (map_option (\<lambda>off. (off, de_of (drop off bs))) (find (\<lambda>off. P (de_of (drop off bs))) (de_offsets 0 (dir_size ?id))), ?id, t')"
    "tx_ok d t' {} n" "tx_cont d t' = tx_cont d (ic_tx s)" "tx_area t' = tx_area (ic_tx s)"
    using de_find_spec [OF dv(2,3), of "de_offsets 0 (dir_size ?id)" P] unfolding bs_def by blast
  let ?s = "set_data i ?id (s\<lparr>ic_tx := t'\<rparr>)"
  have "on_data i (de_find bf sb P (de_offsets 0 (dir_size ?id))) s =
      Done (map_option (\<lambda>off. (off, de_of (drop off bs))) (find (\<lambda>off. P (de_of (drop off bs))) (de_offsets 0 (dir_size ?id))), ?s)"
    using t'(1) by (simp add: on_data_def)
  moreover have "dir_ok bf sb d n inum i ?s" "dir_entries d i ?s = dir_entries d i s"
    using d dv(1) t'(2-4) by (simp_all add: dir_ok_def dir_entries_def set_data_def)
  moreover have "tx_cont d (ic_tx ?s) = tx_cont d (ic_tx s)" by (simp add: set_data_def t'(3))
  ultimately show ?thesis using dv(1) by (intro exI [of _ ?s]) simp
qed

end

lemma find_map: "find P (map f xs) = map_option f (find (\<lambda>x. P (f x)) xs)"
  by (induction xs) simp_all

lemma entries_offsets:
  assumes "DE_SIZE dvd length bs"
  shows "entries_of bs = map (\<lambda>off. de_of (drop off bs)) (de_offsets 0 (length bs))"
  using assms by (auto simp: entries_of_def de_offsets_def DE_SIZE_def mult.commute elim!: dvdE)

lemma dir_map_find:
  assumes "DE_SIZE dvd length bs" and "0 \<in> set name"
  shows "dir_map (entries_of bs) (cstr name) = map_option (\<lambda>off. de_inum (de_of (drop off bs)))
    (find (\<lambda>off. de_inum (de_of (drop off bs)) \<noteq> 0 \<and> name_match (de_name (de_of (drop off bs))) name) (de_offsets 0 (length bs)))"
  unfolding dir_map_def entries_offsets [OF assms(1)] find_map option.map_comp using assms(2) by (simp add: name_match_iff comp_def)

context bit_crate
begin

lemma dir_lookup_spec:
  assumes d: "dir_ok bf sb d n inum i s" and nm: "0 \<in> set name"
  shows "\<exists>s'. dir_ok bf sb d n inum i s' \<and> dir_entries d i s' = dir_entries d i s \<and> ic_meta s' = ic_meta s \<and> ic_data s' = ic_data s \<and>
    tx_cont d (ic_tx s') = tx_cont d (ic_tx s) \<and>
    (case dir_map (dir_entries d i s) (cstr name) of
       None \<Rightarrow> dir_lookup bf sb i name need s = Done (None, s')
     | Some k \<Rightarrow> \<exists>off. dir_lookup bf sb i name need s =
         kbind (ic_get d (ucast k) s') (\<lambda>(ino, s2). Done (Some (ino, if need then Some off else None), s2)))"
proof -
  let ?id = "ic_data s ! i" and ?bs = "file_contents (ic_data s ! i) (tx_cont d (ic_tx s))"
  let ?P = "\<lambda>de. de_inum de \<noteq> 0 \<and> name_match (de_name de) name"
  have dv: "DE_SIZE dvd length ?bs" "id_valid ?id = Some (d, inum)" "d \<noteq> 0" "di_itype (id_dinode ?id) = Directory"
    using d file_okD(2) by (auto simp: dir_ok_def length_contents)
  obtain s' where s': "on_data i (de_find bf sb ?P (de_offsets 0 (dir_size ?id))) s =
      Done (map_option (\<lambda>off. (off, de_of (drop off ?bs))) (find (\<lambda>off. ?P (de_of (drop off ?bs))) (de_offsets 0 (dir_size ?id))), s')"
    "dir_ok bf sb d n inum i s'" "dir_entries d i s' = dir_entries d i s" "ic_meta s' = ic_meta s" "ic_data s' = ic_data s"
    "tx_cont d (ic_tx s') = tx_cont d (ic_tx s)"
    using on_data_find [OF d, of ?P] by blast
  note dm = dir_map_find [OF dv(1) nm, unfolded length_contents]
  show ?thesis
    using s' dm dv(2-4) by (intro exI [of _ s'])
      (cases "find (\<lambda>off. ?P (de_of (drop off ?bs))) (de_offsets 0 (dir_size ?id))";
       auto simp: dir_lookup_def get_dev_inum_def dir_entries_def)
qed

end

lemma free_slot:
  assumes len: "length bs = DE_SIZE * m"
  defines "off \<equiv> case find (\<lambda>off. de_inum (de_of (drop off bs)) = 0) (de_offsets 0 (length bs)) of None \<Rightarrow> length bs | Some off \<Rightarrow> off"
  shows "\<exists>k \<le> m. off = DE_SIZE * k \<and> (k < m \<longrightarrow> de_inum (entries_of bs ! k) = 0)"
proof (cases "find (\<lambda>off. de_inum (de_of (drop off bs)) = 0) (de_offsets 0 (length bs))")
  case None
  then show ?thesis using len by (intro exI [of _ m]) (simp add: off_def)
next
  case (Some x)
  then have x: "x \<in> set (de_offsets 0 (length bs))" "de_inum (de_of (drop x bs)) = 0" by (auto simp: find_Some_iff)
  then obtain k where "x = DE_SIZE * k" "k < m" using len by (auto simp: de_offsets_def DE_SIZE_def mult.commute)
  then show ?thesis using Some x(2) len by (intro exI [of _ k]) (simp add: off_def entries_of_def DE_SIZE_def)
qed

lemma entry_in_block: "blocks_touched (DE_SIZE * k) DE_SIZE = 1"
proof -
  have "16 * k mod 1024 = 16 * (k mod 64)" using mult_mod_right [of 16 k 64] by simp
  then have "16 * k mod 1024 \<le> 1008" by simp
  then show ?thesis by (simp add: blocks_touched_def DE_SIZE_def BSIZE_def)
qed

context bit_crate
begin

text \<open>Writing an entry.\<close>

lemma write_de_spec:
  assumes d: "dir_ok bf sb d n inum i s" and n: "7 \<le> n" and sz: "dir_size (ic_data s ! i) = DE_SIZE * m" and k: "k \<le> m"
    and M: "DE_SIZE * k + DE_SIZE \<le> MAX_FILE_SIZE" and de: "length (de_name de) = MAX_DIR_SIZE"
  shows "on_data i (write_de bf sb (of_nat (DE_SIZE * k)) de) s = Panicked full_disk \<and> nfree bf sb (tx_cont d (ic_tx s)) < 2 \<or>
    (\<exists>s'. on_data i (write_de bf sb (of_nat (DE_SIZE * k)) de) s = Done (True, s') \<and> dir_ok bf sb d (n - 7) inum i s' \<and>
      ic_meta s' = ic_meta s \<and> dir_entries d i s' = take k (dir_entries d i s) @ de # drop (Suc k) (dir_entries d i s))"
proof -
  let ?id = "ic_data s ! i" and ?t = "ic_tx s" and ?o = "of_nat (DE_SIZE * k) :: u32"
  let ?bs = "file_contents ?id (tx_cont d ?t)"
  have dv: "i < length (ic_data s)" "tx_ok d ?t {} n" "file_ok bf sb d (tx_area ?t) (tx_cont d ?t) inum ?id"
    using d by (simp_all add: dir_ok_def)
  have "DE_SIZE * k < 2 ^ 32" using M by (simp add: MAX_FILE_SIZE_def NDIRECT_def NINDIRECT_def BSIZE_def)
  then have uo: "unat ?o = DE_SIZE * k" by (subst unat_of_nat) simp
  have lb: "length (de_bytes de) = DE_SIZE" using length_de_bytes [OF de] by (simp add: DE_SIZE_def)
  have bt: "blocks_touched (unat ?o) (length (de_bytes de)) = 1" unfolding uo lb by (rule entry_in_block)
  have le: "?o \<le> di_size (id_dinode ?id)" using sz k uo by (simp add: word_le_nat_alt dir_size_def DE_SIZE_def)
  have wd: "write_de bf sb ?o de ?id ?t = iwrite bf sb (kernel_src (de_bytes de)) ?o (of_nat (length (de_bytes de))) ?id ?t"
    by (simp add: write_de_def lb)
  from iwrite_spec [OF dv(2) _ dv(3) le, of "de_bytes de", unfolded bt] n M
  consider (full) "write_de bf sb ?o de ?id ?t = Panicked full_disk" "nfree bf sb (tx_cont d ?t) < 2"
    | (ok) id' t' where "write_de bf sb ?o de ?id ?t = Done (True, id', t')" "tx_ok d t' {} (n - 7)"
      "file_ok bf sb d (tx_area t') (tx_cont d t') inum id'" "file_contents id' (tx_cont d t') = overwrite (DE_SIZE * k) (de_bytes de) ?bs"
      "id_dinode id' = (id_dinode ?id)\<lparr>di_size := di_size (id_dinode id'), di_addrs := di_addrs (id_dinode id')\<rparr>"
    unfolding wd uo lb by auto
  then show ?thesis
  proof cases
    case full
    then show ?thesis by (simp add: on_data_def)
  next
    case ok
    let ?s = "set_data i id' (s\<lparr>ic_tx := t'\<rparr>)"
    have e: "entries_of (file_contents id' (tx_cont d t')) = take k (entries_of ?bs) @ de # drop (Suc k) (entries_of ?bs)"
      unfolding ok(4) by (rule entries_overwrite [OF _ k de]) (simp add: length_contents sz)
    have "dir_size id' = max (DE_SIZE * m) (DE_SIZE * k + DE_SIZE)"
      unfolding length_contents [of id' "tx_cont d t'", symmetric] ok(4) using k by (subst length_overwrite) (simp_all add: length_contents sz lb)
    then have dvd: "DE_SIZE dvd dir_size id'" by (simp add: max_def)
    obtain x y where "id_dinode id' = (id_dinode ?id)\<lparr>di_size := x, di_addrs := y\<rparr>" using ok(5) by blast
    then have "di_itype (id_dinode id') = Directory" using d by (simp add: dir_ok_def)
    then have "dir_ok bf sb d (n - 7) inum i ?s" using d ok(2,3) dvd by (simp add: dir_ok_def set_data_def)
    moreover have "dir_entries d i ?s = take k (dir_entries d i s) @ de # drop (Suc k) (dir_entries d i s)"
      using e dv(1) by (simp add: dir_entries_def set_data_def)
    ultimately show ?thesis using ok(1) by (intro disjI2 exI [of _ ?s]) (simp add: on_data_def)
  qed
qed

lemma dir_link_spec:
  assumes d: "dir_ok bf sb d n inum i s" and n: "7 \<le> n" and sz: "dir_size (ic_data s ! i) + DE_SIZE \<le> MAX_FILE_SIZE"
    and nm: "0 \<in> set name" "length name = MAX_DIR_SIZE" and k: "0 < unat k" "unat k < 2 ^ 16"
    and absent: "dir_map (dir_entries d i s) (cstr name) = None"
  shows "dir_link bf sb i name k s = Panicked full_disk \<and> nfree bf sb (tx_cont d (ic_tx s)) < 2 \<or>
    (\<exists>s'. dir_link bf sb i name k s = Done (True, s') \<and> dir_ok bf sb d (n - 7) inum i s' \<and> ic_meta s' = ic_meta s \<and>
      dir_map (dir_entries d i s') = (dir_map (dir_entries d i s))(cstr name \<mapsto> ucast k))"
proof -
  obtain s1 where s1: "dir_ok bf sb d n inum i s1" "dir_entries d i s1 = dir_entries d i s" "ic_meta s1 = ic_meta s" "ic_data s1 = ic_data s"
    "tx_cont d (ic_tx s1) = tx_cont d (ic_tx s)" "dir_lookup bf sb i name False s = Done (None, s1)"
    using dir_lookup_spec [OF d nm(1), of False] absent by auto
  let ?id = "ic_data s ! i" and ?bs = "file_contents (ic_data s ! i) (tx_cont d (ic_tx s))" and ?es = "dir_entries d i s"
  let ?find = "find (\<lambda>off. de_inum (de_of (drop off ?bs)) = 0) (de_offsets 0 (dir_size ?id))"
  obtain s2 where s2: "on_data i (de_find bf sb (\<lambda>de. de_inum de = 0) (de_offsets 0 (dir_size ?id))) s1 =
      Done (map_option (\<lambda>off. (off, de_of (drop off ?bs))) ?find, s2)"
    "dir_ok bf sb d n inum i s2" "dir_entries d i s2 = ?es" "ic_meta s2 = ic_meta s" "ic_data s2 = ic_data s" "tx_cont d (ic_tx s2) = tx_cont d (ic_tx s)"
    using on_data_find [OF s1(1), of "\<lambda>de. de_inum de = 0"] unfolding s1(2-5) by blast
  obtain m where m: "dir_size ?id = DE_SIZE * m" using d by (auto simp: dir_ok_def elim: dvdE)
  have lbs: "length ?bs = DE_SIZE * m" by (simp add: length_contents m)
  obtain j where j: "j \<le> m" "(case ?find of None \<Rightarrow> dir_size ?id | Some off \<Rightarrow> off) = DE_SIZE * j" "j < m \<longrightarrow> de_inum (?es ! j) = 0"
    using free_slot [OF lbs] unfolding length_contents dir_entries_def by blast
  have bd: "DE_SIZE * j + DE_SIZE \<le> MAX_FILE_SIZE" using sz j(1) by (simp add: m DE_SIZE_def)
  then have "DE_SIZE * j < 2 ^ 32" by (simp add: MAX_FILE_SIZE_def NDIRECT_def NINDIRECT_def BSIZE_def)
  then have uj: "unat (of_nat (DE_SIZE * j) :: u32) = DE_SIZE * j" by (subst unat_of_nat) simp
  let ?fs = "di_size (id_dinode ?id)" and ?de = "\<lparr>de_inum = ucast k, de_name = name\<rparr>"
  define r where "r = map_option (\<lambda>off. (off, de_of (drop off ?bs))) ?find"
  define w :: u32 where "w = of_nat (DE_SIZE * j)"
  have off: "(case r of None \<Rightarrow> ?fs | Some (off, _) \<Rightarrow> of_nat off) = w"
  proof -
    have "?fs = of_nat (dir_size ?id)" by (simp add: dir_size_def)
    then show ?thesis using j(2) unfolding r_def w_def by (cases ?find) (simp_all only: option.map option.case prod.case)
  qed
  have kk: "\<not> k > 0xFFFF" using k(2) by (simp add: word_less_nat_alt)
  have dl: "dir_link bf sb i name k s =
      kbind (on_data i (write_de bf sb w ?de) s2) (\<lambda>(ok, s3). if ok then Done (True, s3) else Panicked ''inode write error'')"
    using kk s1(6) s2(1) [folded r_def] uj [folded w_def] off unfolding dir_link_def dir_size_def s1(4) [symmetric] by (simp add: Let_def)
  have es: "?es = take j ?es @ (if j < m then [?es ! j] else []) @ drop (Suc j) ?es"
  proof -
    have "length ?es = m" by (simp add: dir_entries_def entries_of_def lbs DE_SIZE_def)
    then show ?thesis using j(1) id_take_nth_drop [of j ?es] by auto
  qed
  have "ucast k \<noteq> (0 :: u16)" using k by (simp add: word_unat_eq_iff unsigned_ucast_eq take_bit_eq_mod)
  then have ins: "dir_map (take j ?es @ ?de # drop (Suc j) ?es) = (dir_map ?es)(cstr name \<mapsto> ucast k)"
    using dir_map_insert [of "take j ?es" "if j < m then [?es ! j] else []" "drop (Suc j) ?es" name "ucast k"] absent nm(1) j(3) es by auto
  have "on_data i (write_de bf sb (of_nat (DE_SIZE * j)) ?de) s2 = Panicked full_disk \<and> nfree bf sb (tx_cont d (ic_tx s2)) < 2 \<or>
    (\<exists>s'. on_data i (write_de bf sb (of_nat (DE_SIZE * j)) ?de) s2 = Done (True, s') \<and> dir_ok bf sb d (n - 7) inum i s' \<and>
      ic_meta s' = ic_meta s2 \<and> dir_entries d i s' = take j (dir_entries d i s2) @ ?de # drop (Suc j) (dir_entries d i s2))"
    by (rule write_de_spec [OF s2(2) n _ j(1) bd]) (simp_all add: s2(5) m nm(2))
  then show ?thesis unfolding dl w_def s2(3,4,6) using ins by auto
qed

end

section \<open>An example directory\<close>

definition demo_dir :: inode_data where
  "demo_dir = upd_dinode (\<lambda>di. di\<lparr>di_itype := Directory\<rparr>) (demo_file 0 0)"

definition demo_cache :: icache where
  "demo_cache = (icache_new (demo_tx demo_disk))\<lparr>ic_data := demo_dir # replicate 49 inode_data_new\<rparr>"

lemma demo_dir_ok: "dir_ok word_bits demo_sb 1 28 1 0 demo_cache" "dir_entries 1 0 demo_cache = []"
  "tx_cont 1 (ic_tx demo_cache) = demo_disk" "ic_data demo_cache ! 0 = demo_dir" "dir_size demo_dir = 0"
proof -
  have len: "\<forall>b. length (demo_disk b) = BSIZE" by (simp add: demo_disk_def demo_bitmap_def BSIZE_def)
  note ok = demo_tx_ok [OF len]
  have t: "ic_tx demo_cache = demo_tx demo_disk" by (simp add: demo_cache_def icache_new_def)
  show c: "tx_cont 1 (ic_tx demo_cache) = demo_disk" and d: "ic_data demo_cache ! 0 = demo_dir" and z: "dir_size demo_dir = 0"
    unfolding t ok(2) by (simp_all add: demo_cache_def dir_size_def demo_dir_def upd_dinode_def demo_file_def)
  have f: "file_ok word_bits demo_sb 1 (log_area 2) demo_disk 1 (demo_file 0 0)" by (rule demo_file_ok) simp_all
  have e: "slot_of demo_dir c k = slot_of (demo_file 0 0) c k" for c k by (simp add: slot_of_def demo_dir_def upd_dinode_def)
  have e': "id_valid demo_dir = id_valid (demo_file 0 0)" "di_addrs (id_dinode demo_dir) = di_addrs (id_dinode (demo_file 0 0))"
    "di_size (id_dinode demo_dir) = di_size (id_dinode (demo_file 0 0))" by (simp_all add: demo_dir_def upd_dinode_def)
  have "file_ok word_bits demo_sb 1 (log_area 2) demo_disk 1 demo_dir" using f unfolding file_ok_def e e' by assumption
  then show "dir_ok word_bits demo_sb 1 28 1 0 demo_cache"
    using ok z by (simp add: dir_ok_def c d t) (simp add: demo_cache_def demo_dir_def upd_dinode_def)
  show "dir_entries 1 0 demo_cache = []" using length_contents [of demo_dir demo_disk] z by (simp add: dir_entries_def c d entries_of_def)
qed

section \<open>Properties\<close>

text \<open>
  C33 (directories): a directory refines a finite map from names to inode numbers. \<^verbatim>\<open>dir_link\<close> of a new name adds exactly this
  entry, whether it reuses a free slot or extends the directory, or panics because the disk is full; and
  \<^verbatim>\<open>dir_lookup\<close> of any name afterwards obtains the inode of the map, or nothing if the map has none.
\<close>

theorem directory_correct:
  assumes "bit_crate bf" and "dir_ok bf sb d n inum i s" and "7 \<le> n" and "dir_size (ic_data s ! i) + DE_SIZE \<le> MAX_FILE_SIZE"
    and "0 \<in> set name" "length name = MAX_DIR_SIZE" and "0 < unat k" "unat k < 2 ^ 16"
    and "dir_map (dir_entries d i s) (cstr name) = None"
  shows "dir_link bf sb i name k s = Panicked full_disk \<and> nfree bf sb (tx_cont d (ic_tx s)) < 2 \<or>
    (\<exists>s'. dir_link bf sb i name k s = Done (True, s') \<and> dir_ok bf sb d (n - 7) inum i s' \<and> ic_meta s' = ic_meta s \<and>
      dir_map (dir_entries d i s') = (dir_map (dir_entries d i s))(cstr name \<mapsto> ucast k) \<and>
      (\<forall>nm. 0 \<in> set nm \<longrightarrow> (\<exists>s''. ic_meta s'' = ic_meta s \<and>
         dir_lookup bf sb i nm False s' =
           (case ((dir_map (dir_entries d i s))(cstr name \<mapsto> ucast k)) (cstr nm) of
              None \<Rightarrow> Done (None, s'')
            | Some ki \<Rightarrow> kbind (ic_get d (ucast ki) s'') (\<lambda>(ino, s2). Done (Some (ino, None), s2))))))"
proof -
  have lk: "\<exists>s''. ic_meta s'' = ic_meta s \<and> dir_lookup bf sb i nm False s' =
           (case m (cstr nm) of None \<Rightarrow> Done (None, s'')
            | Some ki \<Rightarrow> kbind (ic_get d (ucast ki) s'') (\<lambda>(ino, s2). Done (Some (ino, None), s2)))"
    if "dir_ok bf sb d (n - 7) inum i s'" "ic_meta s' = ic_meta s" "dir_map (dir_entries d i s') = m" "0 \<in> set nm" for s' m nm
    using bit_crate.dir_lookup_spec [OF assms(1) that(1,4), of False] unfolding that(2,3) by (auto split: option.splits)
  from bit_crate.dir_link_spec [OF assms] show ?thesis
  proof (elim disjE exE conjE)
    fix s' assume s': "dir_link bf sb i name k s = Done (True, s')" "dir_ok bf sb d (n - 7) inum i s'" "ic_meta s' = ic_meta s"
      "dir_map (dir_entries d i s') = (dir_map (dir_entries d i s))(cstr name \<mapsto> ucast k)"
    have "\<forall>nm. 0 \<in> set nm \<longrightarrow> (\<exists>s''. ic_meta s'' = ic_meta s \<and> dir_lookup bf sb i nm False s' =
           (case ((dir_map (dir_entries d i s))(cstr name \<mapsto> ucast k)) (cstr nm) of None \<Rightarrow> Done (None, s'')
            | Some ki \<Rightarrow> kbind (ic_get d (ucast ki) s'') (\<lambda>(ino, s2). Done (Some (ino, None), s2))))"
      using lk [OF s'(2-4)] by blast
    with s' show ?thesis by blast
  qed blast
qed

theorem directory_correct_witness:
  "\<exists>s' ino s2. dir_link word_bits demo_sb 0 (97 # replicate 13 0) 5 demo_cache = Done (True, s') \<and>
     dir_lookup word_bits demo_sb 0 (97 # replicate 13 0) False s' = Done (Some (ino, None), s2) \<and> key ino = (1, 5)"
proof -
  note D = demo_dir_ok
  let ?nm = "97 # replicate 13 (0 :: u8)"
  have d34: "demo_disk 34 = demo_bitmap" by (simp add: demo_disk_def)
  have "{50, 51} \<subseteq> {b. b < fs_total demo_sb \<and> \<not> in_use word_bits demo_sb demo_disk b}"
    using demo_use [of demo_disk 50] demo_use [of demo_disk 51] d34 by (simp add: fs_total_def demo_sb_def)
  then have "2 \<le> nfree word_bits demo_sb demo_disk"
    unfolding nfree_def using card_mono [of "{b. b < fs_total demo_sb \<and> \<not> in_use word_bits demo_sb demo_disk b}" "{50, 51}"] by simp
  moreover have "dir_map (dir_entries 1 0 demo_cache) (cstr ?nm) = None" by (simp add: D(2) dir_map_def)
  ultimately obtain s' where s': "dir_link word_bits demo_sb 0 ?nm 5 demo_cache = Done (True, s')"
      "\<forall>nm. 0 \<in> set nm \<longrightarrow> (\<exists>s''. ic_meta s'' = ic_meta demo_cache \<and> dir_lookup word_bits demo_sb 0 nm False s' =
         (case ((dir_map (dir_entries 1 0 demo_cache))(cstr ?nm \<mapsto> ucast (5 :: u32))) (cstr nm) of None \<Rightarrow> Done (None, s'')
          | Some ki \<Rightarrow> kbind (ic_get 1 (ucast ki) s'') (\<lambda>(ino, s2). Done (Some (ino, None), s2))))"
    using directory_correct [OF word_bits.bit_crate_axioms D(1), of ?nm 5]
    unfolding D(3-5) by (auto simp: MAX_DIR_SIZE_def DE_SIZE_def MAX_FILE_SIZE_def NDIRECT_def BSIZE_def)
  have "0 \<in> set ?nm" by simp
  from s'(2) [rule_format, OF this] s'(1) obtain s'' where s: "dir_link word_bits demo_sb 0 ?nm 5 demo_cache = Done (True, s')" "ic_meta s'' = ic_meta demo_cache"
      "dir_lookup word_bits demo_sb 0 ?nm False s' = kbind (ic_get 1 5 s'') (\<lambda>(ino, s2). Done (Some (ino, None), s2))"
    by auto
  have "ic_meta s'' = replicate NINODE inode_meta_new" using s(2) by (simp add: demo_cache_def icache_new_def)
  then have "\<exists>ino s2. ic_get 1 5 s'' = Done (ino, s2) \<and> key ino = (1, 5)"
    by (simp add: ic_get_def NINODE_def inode_meta_new_def key_def numeral_eq_Suc)
  then show ?thesis using s by auto
qed

end
