(* ===== verification/PageMem.thy ===== *)
theory PageMem
  imports KernelHeap Addr
begin

text \<open>
  Pages of memory owned by the kernel. A page-table page is an array of 512 words, any other
  page an array of 4096 bytes; the store maps the address of a live page to what it
  holds. Pages come from the buddy allocator: a \<^verbatim>\<open>Box\<close> of a page-sized type
  (\<^verbatim>\<open>Box::<PageTable>\<close>, \<^verbatim>\<open>RawSinglePage\<close> of \<^verbatim>\<open>kernel/src/mm/mod.rs\<close>) is an allocation with size
  and alignment \<^verbatim>\<open>PAGE_SIZE\<close>. The locale \<open>page_heap\<close> is what the page tables rely on; the
  buddy allocator provides it.
\<close>

section \<open>Pages\<close>

datatype page = Table "usize list" | Bytes "u8 list"

record kmem =
  km_heap :: buddy_system
  km_store :: "usize \<Rightarrow> page option"

definition page_layout :: layout where
  "page_layout = \<lparr>lay_size = 4096, lay_align = 4096\<rparr>"

definition zero_table :: page where "zero_table = Table (replicate 512 0)"
definition zero_data :: "u8 list" where "zero_data = replicate 4096 0"
definition zero_bytes :: page where "zero_bytes = Bytes zero_data"

text \<open>\<^verbatim>\<open>Box::try_new_zeroed\<close> and \<^verbatim>\<open>Box::into_raw\<close>; \<open>None\<close> is \<^verbatim>\<open>AllocError\<close>.\<close>

definition page_try_new :: "bit_field \<Rightarrow> page \<Rightarrow> kmem \<Rightarrow> (usize option \<times> kmem) kres" where
  "page_try_new bf c m =
     kbind (buddy_alloc bf page_layout (km_heap m)) (\<lambda>(r, h).
       case r of
         None \<Rightarrow> Done (None, m\<lparr>km_heap := h\<rparr>)
       | Some a \<Rightarrow> Done (Some (of_nat a), m\<lparr>km_heap := h, km_store := (km_store m)(of_nat a \<mapsto> c)\<rparr>))"

text \<open>\<^verbatim>\<open>new_zeroed\<close>: a failed allocation ends in the allocation error handler.\<close>

definition page_new :: "bit_field \<Rightarrow> page \<Rightarrow> kmem \<Rightarrow> (usize \<times> kmem) kres" where
  "page_new bf c m =
     kbind (page_try_new bf c m) (\<lambda>(r, m').
       case r of None \<Rightarrow> Panicked ''alloc error'' | Some a \<Rightarrow> Done (a, m'))"

text \<open>\<^verbatim>\<open>from_raw_and_drop\<close>.\<close>

definition page_free :: "bit_field \<Rightarrow> usize \<Rightarrow> kmem \<Rightarrow> kmem kres" where
  "page_free bf a m =
     kbind (buddy_dealloc bf (unat a) page_layout (km_heap m)) (\<lambda>h.
       Done (m\<lparr>km_heap := h, km_store := (km_store m)(a := None)\<rparr>))"

section \<open>Well-formed memory\<close>

definition page_wf :: "page \<Rightarrow> bool" where
  "page_wf c = (case c of Table es \<Rightarrow> length es = 512 | Bytes bs \<Rightarrow> length bs = 4096)"

text \<open>The pages allocated from the heap.\<close>

definition owned :: "bit_field \<Rightarrow> kmem \<Rightarrow> usize set" where
  "owned bf m = {a. \<exists>i. (8, i) \<in> heap_live bf (km_heap m) \<and> unat a = blk_addr (km_heap m) 8 i \<and>
                       unat a < bs_actual_end (km_heap m)}"

text \<open>
  A live page inside the heap's range is allocated. The store may also hold static pages
  outside that range, such as the kernel's own root page table.
\<close>

definition kmem_inv :: "bit_field \<Rightarrow> kmem \<Rightarrow> bool" where
  "kmem_inv bf m \<longleftrightarrow>
     heap_inv bf (km_heap m) \<and> tail_reserved bf (km_heap m) \<and>
     bs_actual_end (km_heap m) \<le> unat KERNEL_HEAP_END \<and>
     (\<forall>a c. km_store m a = Some c \<longrightarrow> a \<noteq> 0 \<and> unat a mod 4096 = 0 \<and> a \<le> PHYSTOP \<and> page_wf c \<and>
        (bs_base (km_heap m) \<le> unat a \<and> unat a < bs_actual_end (km_heap m) \<longrightarrow> a \<in> owned bf m))"

text \<open>Physical addresses of pages, as the allocator gives them out.\<close>

definition page_addr :: "usize \<Rightarrow> bool" where
  "page_addr a \<longleftrightarrow> a \<noteq> 0 \<and> unat a mod 4096 = 0 \<and> a \<le> PHYSTOP"

lemma zero_pages_wf [simp]: "page_wf zero_table" "page_wf zero_bytes"
  by (simp_all add: page_wf_def zero_table_def zero_bytes_def zero_data_def)

lemma store_page_addr: "kmem_inv bf m \<Longrightarrow> km_store m a = Some c \<Longrightarrow> page_addr a"
  by (simp add: kmem_inv_def page_addr_def)

lemma store_page_wf: "kmem_inv bf m \<Longrightarrow> km_store m a = Some c \<Longrightarrow> page_wf c"
  by (simp add: kmem_inv_def)

section \<open>The interface\<close>

locale page_heap =
  fixes bf :: bit_field
  assumes new_law: "kmem_inv bf m \<Longrightarrow> page_wf c \<Longrightarrow>
      page_try_new bf c m = Done (None, m) \<or>
      (\<exists>a m'. page_try_new bf c m = Done (Some a, m') \<and> kmem_inv bf m' \<and> page_addr a \<and>
         km_store m a = None \<and> km_store m' = (km_store m)(a \<mapsto> c) \<and>
         a \<notin> owned bf m \<and> owned bf m' = insert a (owned bf m))"
    and free_law: "kmem_inv bf m \<Longrightarrow> a \<in> owned bf m \<Longrightarrow>
      \<exists>m'. page_free bf a m = Done m' \<and> kmem_inv bf m' \<and> km_store m' = (km_store m)(a := None) \<and>
         owned bf m' = owned bf m - {a}"
    and upd_law: "kmem_inv bf m \<Longrightarrow> km_store m a \<noteq> None \<Longrightarrow> page_wf c \<Longrightarrow>
      kmem_inv bf (m\<lparr>km_store := (km_store m)(a \<mapsto> c)\<rparr>)"

section \<open>The buddy allocator provides it\<close>

lemma small_size_page: "small_size 4096 = 8"
proof -
  have "4096 \<le> blk_size (small_size 4096)" "0 < small_size 4096 \<Longrightarrow> blk_size (small_size 4096 - 1) < 4096"
    using small_size_fits [of 4096] by simp_all
  then have a: "(2 :: nat) ^ 8 \<le> 2 ^ small_size 4096" "0 < small_size 4096 \<Longrightarrow> (2 :: nat) ^ (small_size 4096 - 1) < 2 ^ 8"
    by (simp_all add: blk_size_def LEAF_SIZE_def)
  then have "8 \<le> small_size 4096" by (simp only: power_increasing_iff one_less_numeral_iff semiring_norm)
  moreover have "small_size 4096 - 1 < 8"
    using a(2) calculation by (simp only: power_strict_increasing_iff one_less_numeral_iff semiring_norm)
  ultimately show ?thesis by linarith
qed

lemma live_first_leaf: "heap_inv bf b \<Longrightarrow> (0, 0) \<in> heap_live bf b"
  by (auto simp: heap_inv_def heap_live_def live_def blk_ok_def)

text \<open>A block other than the first leaf lies above the base, and below the end when the tail is reserved.\<close>

lemma live_above_base:
  assumes "heap_inv bf b" and "(k, i) \<in> heap_live bf b" and "0 < k"
  shows "bs_base b < blk_addr b k i"
proof -
  have "blk_bytes b (0, 0) \<inter> blk_bytes b (k, i) = {}"
    using heap_live_disjoint [OF assms(1) live_first_leaf [OF assms(1)] assms(2)] assms(3) by simp
  moreover have "bs_base b \<in> blk_bytes b (0, 0)" by (simp add: blk_bytes_def blk_addr_def)
  ultimately have "bs_base b \<notin> blk_bytes b (k, i)" by blast
  then show ?thesis by (auto simp: blk_bytes_def blk_addr_def not_le)
qed

lemma live_below_end:
  assumes "heap_inv bf b" and "tail_reserved bf b" and "(k, i) \<in> heap_live bf b" and "0 < k"
  shows "blk_addr b k i < bs_actual_end b"
proof (rule ccontr)
  assume "\<not> blk_addr b k i < bs_actual_end b"
  moreover have a0: "blk_addr b k i = blk_addr b 0 (i * 2 ^ k)" by (simp add: blk_addr_def blk_size_def)
  moreover have "i * 2 ^ k < 2 ^ max_size b"
    using assms(3) blk_ok_desc [of "max_size b" 0 k i] by (auto simp: heap_live_def live_def blk_ok_def)
  ultimately have m: "(0, i * 2 ^ k) \<in> heap_live bf b" using assms(2) by (simp add: tail_reserved_def)
  then have "blk_bytes b (0, i * 2 ^ k) \<inter> blk_bytes b (k, i) = {}"
    using assms(3,4) by (intro heap_live_disjoint [OF assms(1)]) auto
  moreover have "blk_addr b k i \<in> blk_bytes b (0, i * 2 ^ k)" "blk_addr b k i \<in> blk_bytes b (k, i)"
    using a0 by (auto simp: blk_bytes_def)
  ultimately show False by blast
qed

lemma page_block_aligned: "heap_inv bf b \<Longrightarrow> blk_addr b 8 i mod 4096 = 0"
  using blk_addr_aligned [of b 12 8 i]
  by (simp add: heap_inv_def PAGE_BYTES_def blk_size_def LEAF_SIZE_def dvd_eq_mod_eq_0)

lemma blk_addr_inj: "blk_addr b k i = blk_addr b k j \<longleftrightarrow> i = j"
  by (simp add: blk_addr_def)

lemma heap_end_vals: "unat KERNEL_HEAP_END = 0x88000000" "unat PHYSTOP = 0x8c000000"
  by (simp_all add: KERNEL_HEAP_END_def PHYSTOP_def KERNBASE_def)

lemma ownedI:
  assumes "kmem_inv bf m" and "(8, i) \<in> heap_live bf (km_heap m)"
  shows "of_nat (blk_addr (km_heap m) 8 i) \<in> owned bf m" "page_addr (of_nat (blk_addr (km_heap m) 8 i))"
    "unat (of_nat (blk_addr (km_heap m) 8 i) :: usize) = blk_addr (km_heap m) 8 i"
proof -
  have inv: "heap_inv bf (km_heap m)" "tail_reserved bf (km_heap m)" using assms(1) by (simp_all add: kmem_inv_def)
  have lt: "blk_addr (km_heap m) 8 i < bs_actual_end (km_heap m)" using live_below_end [OF inv assms(2)] by simp
  moreover have "bs_actual_end (km_heap m) \<le> 0x88000000" using assms(1) by (simp add: kmem_inv_def heap_end_vals)
  ultimately have b: "blk_addr (km_heap m) 8 i < 0x88000000" by simp
  then show u: "unat (of_nat (blk_addr (km_heap m) 8 i) :: usize) = blk_addr (km_heap m) 8 i"
    by (subst unat_of_nat) simp
  show "of_nat (blk_addr (km_heap m) 8 i) \<in> owned bf m"
    using assms(2) lt by (auto simp: owned_def u)
  have "0 < blk_addr (km_heap m) 8 i" using live_above_base [OF inv(1) assms(2)] by simp
  then have "(of_nat (blk_addr (km_heap m) 8 i) :: usize) \<noteq> 0" using u by (metis unat_0 less_irrefl)
  then show "page_addr (of_nat (blk_addr (km_heap m) 8 i))"
    using b page_block_aligned [OF inv(1)] by (simp add: page_addr_def u word_le_nat_alt heap_end_vals)
qed

lemma owned_range:
  "kmem_inv bf m \<Longrightarrow> a \<in> owned bf m \<Longrightarrow> bs_base (km_heap m) \<le> unat a \<and> unat a < bs_actual_end (km_heap m)"
  using live_above_base [of bf "km_heap m" 8] by (auto simp: owned_def kmem_inv_def intro: less_imp_le)

context bit_crate
begin

lemma page_new_spec:
  assumes inv: "kmem_inv bf m" and c: "page_wf c"
  shows "page_try_new bf c m = Done (None, m) \<or>
      (\<exists>a m'. page_try_new bf c m = Done (Some a, m') \<and> kmem_inv bf m' \<and> page_addr a \<and>
         km_store m a = None \<and> km_store m' = (km_store m)(a \<mapsto> c) \<and>
         a \<notin> owned bf m \<and> owned bf m' = insert a (owned bf m))"
proof -
  let ?h = "km_heap m"
  have hi: "heap_inv bf ?h" using inv by (simp add: kmem_inv_def)
  from alloc_spec [OF hi, of page_layout] consider
    (none) "buddy_alloc bf page_layout ?h = Done (None, ?h)"
  | (some) i h where "buddy_alloc bf page_layout ?h = Done (Some (blk_addr ?h 8 i), h)" "geom h = geom ?h"
      "heap_inv bf h" "heap_live bf h = insert (8, i) (heap_live bf ?h)" "(8, i) \<notin> heap_live bf ?h"
    by (auto simp: page_layout_def small_size_page PAGE_BYTES_def)
  then show ?thesis
  proof cases
    case none
    then show ?thesis by (simp add: page_try_new_def)
  next
    case some
    note g = geomD [OF some(2)]
    define a :: usize where "a = of_nat (blk_addr ?h 8 i)"
    define m' where "m' = m\<lparr>km_heap := h, km_store := (km_store m)(a \<mapsto> c)\<rparr>"
    have r: "page_try_new bf c m = Done (Some a, m')" using some(1) by (simp add: page_try_new_def a_def m'_def)
    let ?m1 = "m\<lparr>km_heap := h, km_store := Map.empty\<rparr>"
    have tl: "tail_reserved bf h" using inv some(4) by (auto simp: kmem_inv_def tail_reserved_def g)
    have e: "bs_actual_end h \<le> unat KERNEL_HEAP_END" using inv by (simp add: kmem_inv_def g)
    have i1: "kmem_inv bf ?m1" using some(3) tl e by (simp add: kmem_inv_def)
    have a: "a \<in> owned bf ?m1" "page_addr a" "unat a = blk_addr ?h 8 i"
      using ownedI [OF i1, of i] some(4) by (simp_all add: a_def g)
    have ow: "owned bf m' = insert a (owned bf m)"
    proof (rule set_eqI)
      fix x
      show "x \<in> owned bf m' \<longleftrightarrow> x \<in> insert a (owned bf m)"
        using a(1,3) some(4) unat_inject [of x a] by (auto simp: owned_def m'_def g)
    qed
    have na: "a \<notin> owned bf m" using a(3) some(5) by (auto simp: owned_def blk_addr_inj)
    have rg: "bs_base ?h \<le> unat a \<and> unat a < bs_actual_end ?h" using owned_range [OF i1 a(1)] by (simp add: g)
    then have "km_store m a = None" using inv na by (cases "km_store m a") (auto simp: kmem_inv_def)
    moreover have "kmem_inv bf m'"
      using inv some(3) tl e c a(2) ow by (auto simp: kmem_inv_def m'_def g page_addr_def)
    ultimately show ?thesis using r a(2) na ow by (auto simp: m'_def)
  qed
qed

lemma page_free_spec:
  assumes inv: "kmem_inv bf m" and o: "a \<in> owned bf m"
  shows "\<exists>m'. page_free bf a m = Done m' \<and> kmem_inv bf m' \<and> km_store m' = (km_store m)(a := None) \<and>
         owned bf m' = owned bf m - {a}"
proof -
  let ?h = "km_heap m"
  obtain i where i: "(8, i) \<in> heap_live bf ?h" "unat a = blk_addr ?h 8 i" "unat a < bs_actual_end ?h"
    using o by (auto simp: owned_def)
  have hi: "heap_inv bf ?h" using inv by (simp add: kmem_inv_def)
  obtain h where h: "buddy_dealloc bf (blk_addr ?h 8 i) page_layout ?h = Done h" "geom h = geom ?h"
    "heap_inv bf h" "heap_live bf h = heap_live bf ?h - {(8, i)}"
    using dealloc_spec [OF hi i(1), of page_layout] i(2,3) by (auto simp: page_layout_def blk_size_def LEAF_SIZE_def)
  note g = geomD [OF h(2)]
  define m' where "m' = m\<lparr>km_heap := h, km_store := (km_store m)(a := None)\<rparr>"
  have r: "page_free bf a m = Done m'" using h(1) i(2) by (simp add: page_free_def m'_def)
  have ow: "owned bf m' = owned bf m - {a}"
  proof (rule set_eqI)
    fix x
    have "x \<in> owned bf m' \<longleftrightarrow> (\<exists>j. (8, j) \<in> heap_live bf ?h \<and> j \<noteq> i \<and> unat x = blk_addr ?h 8 j \<and> unat x < bs_actual_end ?h)"
      by (auto simp: owned_def m'_def g h(4))
    moreover have "x = a \<longleftrightarrow> unat x = blk_addr ?h 8 i" using i(2) unat_inject by metis
    ultimately show "x \<in> owned bf m' \<longleftrightarrow> x \<in> owned bf m - {a}"
      unfolding owned_def by (auto simp: blk_addr_inj)
  qed
  have tl: "tail_reserved bf h" using inv h(4) by (simp add: kmem_inv_def tail_reserved_def g)
  have st: "km_store m' x = Some c \<Longrightarrow> x \<noteq> a \<and> km_store m x = Some c" for x c
    by (simp add: m'_def split: if_splits)
  have hm: "km_heap m' = h" by (simp add: m'_def)
  have "kmem_inv bf m'"
    unfolding kmem_inv_def hm
  proof (intro conjI allI impI)
    fix x c assume "km_store m' x = Some c"
    then have x: "x \<noteq> a" "km_store m x = Some c" using st by blast+
    then show "x \<noteq> 0" "unat x mod 4096 = 0" "x \<le> PHYSTOP" "page_wf c"
      using inv unfolding kmem_inv_def by blast+
    assume "bs_base h \<le> unat x \<and> unat x < bs_actual_end h"
    then have "x \<in> owned bf m" using inv x(2) unfolding kmem_inv_def g by blast
    then show "x \<in> owned bf m'" using ow x(1) by blast
  qed (use inv h(3) tl in \<open>simp_all add: kmem_inv_def g\<close>)
  then show ?thesis using r ow by (simp add: m'_def)
qed

end

sublocale bit_crate \<subseteq> pages: page_heap bf
proof unfold_locales
  show "kmem_inv bf (m\<lparr>km_store := (km_store m)(a \<mapsto> c)\<rparr>)"
    if "kmem_inv bf m" "km_store m a \<noteq> None" "page_wf c" for m a c
    using that by (auto simp: kmem_inv_def owned_def)
qed (rule page_new_spec page_free_spec, assumption+)+

context bit_crate
begin

lemma is_page_heap: "page_heap bf"
  by (rule pages.page_heap_axioms)

end

lemmas bit_crate_heap = bit_crate.is_page_heap

end
