(* ===== verification/PageTable.thy ===== *)
theory PageTable
  imports PageMem
begin

text \<open>
  Page tables: \<^verbatim>\<open>kernel/src/mm/pagetable.rs\<close>. A page table is named by the address of its root
  page; entries are 64-bit words in the pages of the store. A reference to an entry, as
  \<^verbatim>\<open>find_pte\<close> returns it, is the address of its table and the index in it. Flags
  (\<^verbatim>\<open>bitflags!\<close>) are their bits. Following a null pointer panics in \<^verbatim>\<open>unwrap\<close>; following one to
  something that is no live page of the right kind is the outcome \<open>Panicked ub\<close>.
\<close>

unbundle bit_operations_syntax

section \<open>Entries\<close>

definition PTE_V :: usize where "PTE_V = 1"
definition PTE_R :: usize where "PTE_R = 2"
definition PTE_W :: usize where "PTE_W = 4"
definition PTE_X :: usize where "PTE_X = 8"
definition PTE_U :: usize where "PTE_U = 16"
definition PTE_A :: usize where "PTE_A = 64"
definition PTE_ALL :: usize where "PTE_ALL = 0x3FF"

lemmas flag_defs = PTE_V_def PTE_R_def PTE_W_def PTE_X_def PTE_U_def PTE_A_def PTE_ALL_def

definition pte_is_valid :: "usize \<Rightarrow> bool" where
  "pte_is_valid d \<longleftrightarrow> d AND PTE_V > 0"

definition pte_is_access :: "usize \<Rightarrow> bool" where
  "pte_is_access d \<longleftrightarrow> d AND PTE_A > 0"

definition pte_clear_access :: "usize \<Rightarrow> usize" where
  "pte_clear_access d = d AND NOT PTE_A"

definition pte_is_leaf :: "usize \<Rightarrow> bool" where
  "pte_is_leaf d \<longleftrightarrow> \<not> (d AND (PTE_R OR PTE_W OR PTE_X) = 0)"

definition pte_is_user :: "usize \<Rightarrow> bool" where
  "pte_is_user d \<longleftrightarrow> d AND PTE_U > 0"

definition pte_clear_user :: "usize \<Rightarrow> usize" where
  "pte_clear_user d = d AND NOT PTE_U"

definition as_page_table :: "usize \<Rightarrow> usize" where
  "as_page_table d = push_bit PGSHIFT (drop_bit SV39FLAGLEN d)"

definition as_phys_addr :: "usize \<Rightarrow> phys_addr" where
  "as_phys_addr d = PhysAddr (push_bit PGSHIFT (drop_bit SV39FLAGLEN d))"

definition pte_write :: "phys_addr \<Rightarrow> usize" where
  "pte_write pa = push_bit SV39FLAGLEN (drop_bit PGSHIFT (pa_raw pa)) OR PTE_V"

definition pte_write_perm :: "phys_addr \<Rightarrow> usize \<Rightarrow> usize" where
  "pte_write_perm pa perm = push_bit SV39FLAGLEN (drop_bit PGSHIFT (pa_raw pa)) OR (perm OR PTE_V)"

definition pte_read_perm :: "usize \<Rightarrow> usize" where
  "pte_read_perm d = d AND PTE_ALL"

section \<open>Tables in memory\<close>

definition as_mut_null :: string where
  "as_mut_null = ''called `Option::unwrap()` on a `None` value''"

definition tbl_get :: "kmem \<Rightarrow> usize \<Rightarrow> usize \<Rightarrow> usize kres" where
  "tbl_get m pt i =
     (if pt = 0 then Panicked as_mut_null
      else case km_store m pt of Some (Table es) \<Rightarrow> Done (es ! unat i) | _ \<Rightarrow> Panicked ub)"

definition tbl_set :: "usize \<Rightarrow> usize \<Rightarrow> usize \<Rightarrow> kmem \<Rightarrow> kmem kres" where
  "tbl_set pt i d m =
     (case km_store m pt of
        Some (Table es) \<Rightarrow> Done (m\<lparr>km_store := (km_store m)(pt \<mapsto> Table (es[unat i := d]))\<rparr>)
      | _ \<Rightarrow> Panicked ub)"

definition as_satp :: "usize \<Rightarrow> usize" where
  "as_satp pt = SATP_SV39 OR drop_bit PGSHIFT pt"

text \<open>\<^verbatim>\<open>find_pte_create\<close>: missing tables on the way down are allocated.\<close>

fun walk_create :: "bit_field \<Rightarrow> virt_addr \<Rightarrow> nat list \<Rightarrow> usize \<Rightarrow> kmem \<Rightarrow> (usize option \<times> kmem) kres" where
  "walk_create bf va [] pt m = Done (Some pt, m)"
| "walk_create bf va (level # levels) pt m =
     kbind (tbl_get m pt (va_page_num va level)) (\<lambda>pte.
       if pte_is_valid pte then walk_create bf va levels (as_page_table pte) m
       else kbind (page_try_new bf zero_table m) (\<lambda>(r, m1).
         case r of
           None \<Rightarrow> Done (None, m1)
         | Some new \<Rightarrow>
             (case phys_try_from new of
                Inl e \<Rightarrow> Panicked e
              | Inr pa \<Rightarrow>
                  kbind (tbl_set pt (va_page_num va level) (pte_write pa) m1)
                    (walk_create bf va levels new))))"

definition find_pte_create :: "bit_field \<Rightarrow> usize \<Rightarrow> virt_addr \<Rightarrow> kmem \<Rightarrow> ((usize \<times> usize) option \<times> kmem) kres" where
  "find_pte_create bf pt va m =
     kbind (walk_create bf va [2, 1] pt m) (\<lambda>(r, m').
       case r of
         None \<Rightarrow> Done (None, m')
       | Some t \<Rightarrow> if t = 0 then Panicked as_mut_null else Done (Some (t, va_page_num va 0), m'))"

fun walk :: "virt_addr \<Rightarrow> nat list \<Rightarrow> usize \<Rightarrow> kmem \<Rightarrow> usize option kres" where
  "walk va [] pt m = Done (Some pt)"
| "walk va (level # levels) pt m =
     kbind (tbl_get m pt (va_page_num va level)) (\<lambda>pte.
       if pte_is_valid pte then walk va levels (as_page_table pte) m else Done None)"

definition find_pte_mut :: "usize \<Rightarrow> virt_addr \<Rightarrow> kmem \<Rightarrow> (usize \<times> usize) option kres" where
  "find_pte_mut pt va m =
     kbind (walk va [2, 1] pt m) (\<lambda>r.
       case r of
         None \<Rightarrow> Done None
       | Some t \<Rightarrow> if t = 0 then Panicked as_mut_null else Done (Some (t, va_page_num va 0)))"

text \<open>The immutable variant returns what the reference reads.\<close>

definition find_pte :: "usize \<Rightarrow> virt_addr \<Rightarrow> kmem \<Rightarrow> usize option kres" where
  "find_pte pt va m =
     kbind (walk va [2, 1] pt m) (\<lambda>r.
       case r of
         None \<Rightarrow> Done None
       | Some t \<Rightarrow> kbind (tbl_get m t (va_page_num va 0)) (\<lambda>d. Done (Some d)))"

definition user_pa :: "usize \<Rightarrow> string + phys_addr" where
  "user_pa d =
     (if \<not> pte_is_valid d then Inl ''pte not valid''
      else if \<not> pte_is_user d then Inl ''pte not mapped for user''
      else Inr (as_phys_addr d))"

definition find_pa_mut :: "usize \<Rightarrow> virt_addr \<Rightarrow> kmem \<Rightarrow> (string + phys_addr) kres" where
  "find_pa_mut pt va m =
     kbind (find_pte_mut pt va m) (\<lambda>r.
       case r of
         Some (t, i) \<Rightarrow> kbind (tbl_get m t i) (\<lambda>d. Done (user_pa d))
       | None \<Rightarrow> Done (Inl ''va not mapped''))"

definition find_pa :: "usize \<Rightarrow> virt_addr \<Rightarrow> kmem \<Rightarrow> (string + phys_addr) kres" where
  "find_pa pt va m =
     kbind (find_pte pt va m) (\<lambda>r.
       case r of Some d \<Rightarrow> Done (user_pa d) | None \<Rightarrow> Done (Inl ''va not mapped''))"

definition find_pa_by_kernel :: "usize \<Rightarrow> virt_addr \<Rightarrow> kmem \<Rightarrow> (string + phys_addr) kres" where
  "find_pa_by_kernel pt va m =
     kbind (find_pte pt va m) (\<lambda>r.
       case r of
         Some d \<Rightarrow> Done (if \<not> pte_is_valid d then Inl ''pte not valid'' else Inr (as_phys_addr d))
       | None \<Rightarrow> Done (Inl ''va not mapped''))"

section \<open>Mapping\<close>

text \<open>The loop of \<^verbatim>\<open>map_pages\<close>: it ends because \<^verbatim>\<open>add_page\<close> panics rather than wrap.\<close>

function map_loop :: "bit_field \<Rightarrow> usize \<Rightarrow> usize \<Rightarrow> usize \<Rightarrow> usize \<Rightarrow> usize \<Rightarrow> kmem \<Rightarrow> ((string + unit) \<times> kmem) kres" where
  "map_loop bf pt va end_va pa perm m =
     (if va = end_va then Done (Inr (), m)
      else kbind (find_pte_create bf pt (VirtAddr va) m) (\<lambda>(r, m1).
        case r of
          None \<Rightarrow> Done (Inl ''PageTable.map_pages: not enough memory for new page table'', m1)
        | Some (t, i) \<Rightarrow>
            kbind (tbl_get m1 t i) (\<lambda>d.
              if pte_is_valid d then Done (Inl ''remap'', m1)
              else kbind (tbl_set t i (pte_write_perm (PhysAddr pa) perm) m1) (\<lambda>m2.
                   case addr_add_page va of
                     Panicked e \<Rightarrow> Panicked e
                   | Done va' \<Rightarrow> kbind (addr_add_page pa) (\<lambda>pa'. map_loop bf pt va' end_va pa' perm m2)))))"
  by pat_completeness auto
termination
  by (relation "measure (\<lambda>(bf, pt, va, end_va, pa, perm, m). 2 ^ 64 - unat va)")
    (auto simp: addr_add_page_def kres_simps unat_plus_no_overflow layout_defs)

declare map_loop.simps [simp del]

definition map_pages :: "bit_field \<Rightarrow> usize \<Rightarrow> virt_addr \<Rightarrow> usize \<Rightarrow> phys_addr \<Rightarrow> usize \<Rightarrow> kmem \<Rightarrow>
    ((string + unit) \<times> kmem) kres" where
  "map_pages bf pt va size' pa perm m =
     kbind (usize_add (va_raw va) size') (\<lambda>e.
       case virt_try_from e of
         Inl msg \<Rightarrow> Done (Inl msg, m)
       | Inr end_va \<Rightarrow>
           kbind (addr_pg_round_up (va_raw end_va)) (\<lambda>end_va'.
             map_loop bf pt (addr_pg_round_down (va_raw va)) end_va' (pa_raw pa) perm m))"

end
