(* ===== verification/PtTree.thy ===== *)
theory PtTree
  imports PageTable
begin

text \<open>
  Page tables as trees. \<open>tbl m pt p\<close> is the table reached from the root \<open>pt\<close> along the path \<open>p\<close>
  of indices; in a well-formed page table (\<open>pt_inv\<close>) the tables of the first two levels are
  live table pages and no two paths lead to the same one. \<open>pte_pg m pt n\<close> is the entry of
  the \<open>n\<close>-th virtual page. The lemmas say what the walks of the code compute and what
  writing one entry changes.
\<close>

unbundle bit_operations_syntax

section \<open>Entries\<close>

definition perm_ok :: "usize \<Rightarrow> bool" where
  "perm_ok perm \<longleftrightarrow> perm AND PTE_ALL = perm"

lemma PTE_ALL_mask: "PTE_ALL = mask 10"
  by (simp add: PTE_ALL_def mask_eq_exp_minus_1)

lemma perm_ok_bit: "perm_ok perm \<Longrightarrow> bit perm n \<Longrightarrow> n < 10"
  unfolding perm_ok_def PTE_ALL_mask by (metis bit_and_iff bit_mask_iff)

lemma aligned_bit: "unat a mod 4096 = 0 \<Longrightarrow> bit (a :: usize) n \<Longrightarrow> 12 \<le> n"
proof (rule ccontr)
  assume a: "unat a mod 4096 = 0" "bit a n" "\<not> 12 \<le> n"
  have "unat (take_bit 12 a) = 0" using a(1) by (simp only: unsigned_take_bit_eq) (simp add: take_bit_eq_mod)
  then have "take_bit 12 a = 0" by (simp only: unat_eq_zero)
  moreover have "bit (take_bit 12 a) n" using a(2,3) by (simp add: bit_take_bit_iff)
  ultimately show False by simp
qed

lemma pte_addr_roundtrip:
  assumes "unat a mod 4096 = 0" and "perm_ok perm"
  shows "as_page_table (push_bit SV39FLAGLEN (drop_bit PGSHIFT a) OR perm) = a"
  unfolding as_page_table_def SV39FLAGLEN_def PGSHIFT_def
proof (rule bit_word_eqI)
  fix n assume "n < LENGTH(64)"
  then show "bit (push_bit 12 (drop_bit 10 (push_bit 10 (drop_bit 12 a) OR perm))) n = bit a n"
    using aligned_bit [OF assms(1), of n] perm_ok_bit [OF assms(2), of "10 + (n - 12)"]
    by (auto simp: bit_push_bit_iff bit_drop_bit_eq bit_or_iff not_le)
qed

lemma pte_bits:
  "pte_is_valid d \<longleftrightarrow> bit d 0" "pte_is_user d \<longleftrightarrow> bit d 4"
  using and_exp_eq_0_iff_not_bit [of d 0] and_exp_eq_0_iff_not_bit [of d 4]
  by (simp_all add: pte_is_valid_def pte_is_user_def flag_defs word_gt_0)

lemma pte_leaf_bits: "pte_is_leaf d \<longleftrightarrow> bit d 1 \<or> bit d 2 \<or> bit d 3"
proof -
  have "d AND (2 ^ 1 OR 2 ^ 2 OR 2 ^ 3) = 0 \<longleftrightarrow> \<not> bit d 1 \<and> \<not> bit d 2 \<and> \<not> bit d 3"
    by (simp only: bit.conj_disj_distrib or_eq_0_iff and_exp_eq_0_iff_not_bit conj_assoc)
  then show ?thesis by (simp add: pte_is_leaf_def flag_defs)
qed

lemma perm_ok_V: "perm_ok perm \<Longrightarrow> perm_ok (perm OR PTE_V)" and perm_ok_PTE_V: "perm_ok PTE_V"
proof -
  have "PTE_V AND PTE_ALL = PTE_V" by (simp add: flag_defs)
  then show "perm_ok perm \<Longrightarrow> perm_ok (perm OR PTE_V)" "perm_ok PTE_V"
    by (simp_all add: perm_ok_def bit.conj_disj_distrib2)
qed

lemma pte_write_perm_facts:
  assumes "unat a mod 4096 = 0" and "perm_ok perm"
  shows "as_phys_addr (pte_write_perm (PhysAddr a) perm) = PhysAddr a"
    and "pte_is_valid (pte_write_perm (PhysAddr a) perm)"
    and "pte_is_user (pte_write_perm (PhysAddr a) perm) \<longleftrightarrow> bit perm 4"
    and "pte_is_leaf (pte_write_perm (PhysAddr a) perm) \<longleftrightarrow> pte_is_leaf perm"
    and "pte_read_perm (pte_write_perm (PhysAddr a) perm) = perm OR PTE_V"
proof -
  note v = perm_ok_V [OF assms(2)]
  show "as_phys_addr (pte_write_perm (PhysAddr a) perm) = PhysAddr a"
    using pte_addr_roundtrip [OF assms(1) v]
    by (simp add: as_phys_addr_def pte_write_perm_def as_page_table_def)
  show "pte_is_valid (pte_write_perm (PhysAddr a) perm)"
    "pte_is_user (pte_write_perm (PhysAddr a) perm) \<longleftrightarrow> bit perm 4"
    "pte_is_leaf (pte_write_perm (PhysAddr a) perm) \<longleftrightarrow> pte_is_leaf perm"
    by (simp_all add: pte_bits pte_leaf_bits pte_write_perm_def SV39FLAGLEN_def PTE_V_def bit_or_iff
        bit_push_bit_iff bit_1_iff)
  have "push_bit 10 w AND mask 10 = (0 :: usize)" for w
    by (rule bit_word_eqI) (auto simp: bit_and_iff bit_push_bit_iff bit_mask_iff)
  then show "pte_read_perm (pte_write_perm (PhysAddr a) perm) = perm OR PTE_V"
    using v by (simp add: pte_read_perm_def pte_write_perm_def SV39FLAGLEN_def bit.conj_disj_distrib2
        perm_ok_def PTE_ALL_mask)
qed

lemma pte_write_facts:
  assumes "unat a mod 4096 = 0"
  shows "as_page_table (pte_write (PhysAddr a)) = a" and "pte_is_valid (pte_write (PhysAddr a))"
  using pte_addr_roundtrip [OF assms perm_ok_PTE_V]
  by (simp_all add: pte_write_def pte_bits PTE_V_def bit_or_iff)

lemma invalid_zero [simp]: "\<not> pte_is_valid 0"
  by (simp add: pte_is_valid_def)

section \<open>Paths\<close>

definition is_table :: "kmem \<Rightarrow> usize \<Rightarrow> bool" where
  "is_table m a \<longleftrightarrow> (\<exists>es. km_store m a = Some (Table es))"

definition ent :: "kmem \<Rightarrow> usize \<Rightarrow> nat \<Rightarrow> usize" where
  "ent m a i = (case km_store m a of Some (Table es) \<Rightarrow> if i < 512 then es ! i else 0 | _ \<Rightarrow> 0)"

fun tbl :: "kmem \<Rightarrow> usize \<Rightarrow> nat list \<Rightarrow> usize option" where
  "tbl m a [] = Some a"
| "tbl m a (i # p) = (if pte_is_valid (ent m a i) then tbl m (as_page_table (ent m a i)) p else None)"

definition pt_inv :: "kmem \<Rightarrow> usize \<Rightarrow> bool" where
  "pt_inv m pt \<longleftrightarrow>
     (\<forall>p a. length p \<le> 2 \<and> tbl m pt p = Some a \<longrightarrow> is_table m a) \<and>
     (\<forall>p q a. length p \<le> 2 \<and> length q \<le> 2 \<and> tbl m pt p = Some a \<and> tbl m pt q = Some a \<longrightarrow> p = q)"

definition tables :: "kmem \<Rightarrow> usize \<Rightarrow> usize set" where
  "tables m pt = {a. \<exists>p. length p \<le> 2 \<and> tbl m pt p = Some a}"

definition pte :: "kmem \<Rightarrow> usize \<Rightarrow> nat list \<Rightarrow> nat \<Rightarrow> usize" where
  "pte m pt p k = (case tbl m pt p of None \<Rightarrow> 0 | Some t \<Rightarrow> ent m t k)"

definition pte_pg :: "kmem \<Rightarrow> usize \<Rightarrow> nat \<Rightarrow> usize" where
  "pte_pg m pt n = pte m pt [n div 262144 mod 512, n div 512 mod 512] (n mod 512)"

text \<open>All of this depends only on the entries and on which pages are tables.\<close>

lemma tables_cong:
  assumes "\<And>a k. ent m' a k = ent m a k" and "is_table m' = is_table m"
  shows "tbl m' = tbl m" "pt_inv m' = pt_inv m" "pte_pg m' = pte_pg m" "tables m' = tables m"
proof -
  have "tbl m' x p = tbl m x p" for x p by (induction p arbitrary: x) (simp_all add: assms)
  then show t: "tbl m' = tbl m" by (simp add: fun_eq_iff)
  show "pt_inv m' = pt_inv m" "pte_pg m' = pte_pg m" "tables m' = tables m"
    by (simp_all add: pt_inv_def pte_pg_def pte_def tables_def assms t fun_eq_iff)
qed

lemma pt_invD:
  assumes "pt_inv m pt" and "length p \<le> 2" and "tbl m pt p = Some a"
  shows "is_table m a" and "length q \<le> 2 \<Longrightarrow> tbl m pt q = Some a \<Longrightarrow> q = p"
  using assms unfolding pt_inv_def by blast+

lemma root_in_tables [simp]: "pt \<in> tables m pt"
  unfolding tables_def by (auto intro: exI [of _ "[]"])

lemma tbl_append: "tbl m a (p @ q) = (case tbl m a p of None \<Rightarrow> None | Some b \<Rightarrow> tbl m b q)"
  by (induction p arbitrary: a) auto

lemma tbl_snoc:
  "tbl m a (p @ [i]) = (case tbl m a p of None \<Rightarrow> None
     | Some b \<Rightarrow> if pte_is_valid (ent m b i) then Some (as_page_table (ent m b i)) else None)"
  by (simp add: tbl_append split: option.split)

text \<open>
  A path that avoids changed entries leads to the same table. The entries that differ
  between \<open>m\<close> and \<open>m'\<close> are described by their tables.
\<close>

lemma tbl_frame:
  assumes "\<And>p' i r b. q = p' @ i # r \<Longrightarrow> tbl m pt p' = Some b \<Longrightarrow> ent m' b i = ent m b i"
  shows "tbl m' pt q = tbl m pt q"
  using assms
proof (induction q rule: rev_induct)
  case (snoc i q)
  have "tbl m' pt q = tbl m pt q"
    by (rule snoc.IH) (metis append.assoc append_Cons snoc.prems)
  moreover have "ent m' b i = ent m b i" if "tbl m pt q = Some b" for b
    using snoc.prems [of q i "[]" b] that by simp
  ultimately show ?case by (simp add: tbl_snoc split: option.split)
qed simp

section \<open>Writing one entry\<close>

text \<open>An entry of a table of the last level: only this entry changes.\<close>

lemma set_leaf:
  assumes inv: "pt_inv m pt" and p: "tbl m pt p = Some t" "length p = 2"
    and e: "\<And>a k. ent m' a k = (if a = t \<and> k = i then d else ent m a k)" and s: "is_table m' = is_table m"
  shows "\<And>q. length q \<le> 2 \<Longrightarrow> tbl m' pt q = tbl m pt q" and "pt_inv m' pt" and "tables m' pt = tables m pt"
    and "\<And>q k. length q = 2 \<Longrightarrow> pte m' pt q k = (if q = p \<and> k = i then d else pte m pt q k)"
proof -
  show tb: "tbl m' pt q = tbl m pt q" if q: "length q \<le> 2" for q
  proof (rule tbl_frame)
    fix p' j r b assume "q = p' @ j # r" "tbl m pt p' = Some b"
    then have "b \<noteq> t" using pt_invD(2) [OF inv _ p(1), of p'] q p(2) by auto
    then show "ent m' b j = ent m b j" by (simp add: e)
  qed
  then show "pt_inv m' pt" "tables m' pt = tables m pt"
    using inv by (simp_all add: pt_inv_def tables_def s cong: conj_cong)
  show "pte m' pt q k = (if q = p \<and> k = i then d else pte m pt q k)" if q: "length q = 2" for q k
  proof (cases "tbl m pt q")
    case None
    then show ?thesis using tb [of q] q p by (auto simp: pte_def)
  next
    case (Some b)
    then have "b = t \<longleftrightarrow> q = p" using pt_invD(2) [OF inv _ p(1), of q] q p by auto
    then show ?thesis using tb [of q] q Some by (simp add: pte_def e)
  qed
qed

text \<open>A new table below an invalid entry of a higher level: no entry of the last level changes.\<close>

lemma set_table:
  assumes inv: "pt_inv m pt" and p: "tbl m pt p = Some t" "length p \<le> 1" and i: "\<not> pte_is_valid (ent m t i)"
    and a: "\<not> is_table m a" and d: "pte_is_valid d" "as_page_table d = a"
    and e: "\<And>b k. ent m' b k = (if b = t \<and> k = i then d else if b = a then 0 else ent m b k)"
    and s: "\<And>b. is_table m' b \<longleftrightarrow> b = a \<or> is_table m b"
  shows "\<And>q. length q \<le> 2 \<Longrightarrow> tbl m' pt q = (if q = p @ [i] then Some a else tbl m pt q)"
    and "pt_inv m' pt" and "tables m' pt = insert a (tables m pt)"
    and "\<And>q k. length q = 2 \<Longrightarrow> pte m' pt q k = pte m pt q k"
proof -
  have at: "b \<noteq> a" if "tbl m pt q = Some b" "length q \<le> 2" for q b
    using pt_invD(1) [OF inv that(2,1)] a by blast
  have frame: "tbl m' pt q = tbl m pt q" if q: "length q \<le> 2" "\<And>r. q \<noteq> p @ i # r" for q
  proof (rule tbl_frame)
    fix p' j r b assume b: "q = p' @ j # r" "tbl m pt p' = Some b"
    moreover have "\<not> (b = t \<and> j = i)" using pt_invD(2) [OF inv _ p(1), of p'] b q p(2) by auto
    moreover have "b \<noteq> a" using at b q(1) by auto
    ultimately show "ent m' b j = ent m b j" unfolding e by presburger
  qed
  have below: "tbl m' pt (p @ i # r) = (if r = [] then Some a else None)" "tbl m pt (p @ i # r) = None" for r
  proof -
    have "tbl m' pt p = Some t" using frame [of p] p by simp
    moreover have "ent m' a k = 0" for k using e [of a k] at [OF p(1)] p(2) by auto
    ultimately show "tbl m' pt (p @ i # r) = (if r = [] then Some a else None)"
      using d e [of t i] by (cases r) (simp_all add: tbl_append)
    show "tbl m pt (p @ i # r) = None" using p(1) i by (simp add: tbl_append)
  qed
  show tb: "tbl m' pt q = (if q = p @ [i] then Some a else tbl m pt q)" if "length q \<le> 2" for q
  proof (cases "\<exists>r. q = p @ i # r")
    case True
    then obtain r where "q = p @ i # r" by blast
    then show ?thesis using below [of r] by simp
  next
    case False
    then show ?thesis using frame [OF that] by auto
  qed
  have pl: "length (p @ [i]) \<le> 2" using p(2) by simp
  show "pt_inv m' pt"
    unfolding pt_inv_def
  proof (intro conjI allI impI; elim conjE)
    fix q b assume "length q \<le> 2" "tbl m' pt q = Some b"
    then show "is_table m' b" using tb [of q] pt_invD(1) [OF inv, of q b] s by (auto split: if_splits)
  next
    fix q r b assume "length q \<le> 2" "length r \<le> 2" "tbl m' pt q = Some b" "tbl m' pt r = Some b"
    then show "q = r"
      using tb [of q] tb [of r] at [of q b] at [of r b] pt_invD(2) [OF inv, of r b q] by (auto split: if_splits)
  qed
  show "tables m' pt = insert a (tables m pt)"
  proof (intro subset_antisym subsetI)
    fix x assume "x \<in> tables m' pt"
    then show "x \<in> insert a (tables m pt)" using tb unfolding tables_def by (auto split: if_splits)
  next
    fix x assume "x \<in> insert a (tables m pt)"
    moreover have "tbl m' pt (p @ [i]) = Some a" using tb [OF pl] by simp
    then have "a \<in> tables m' pt" using pl unfolding tables_def by blast
    moreover have "x \<in> tables m' pt" if q: "length q \<le> 2" "tbl m pt q = Some x" for q
    proof -
      have "q \<noteq> p @ [i]" using q(2) below(2) [of "[]"] by auto
      then show ?thesis using tb [OF q(1)] q unfolding tables_def by auto
    qed
    ultimately show "x \<in> tables m' pt" unfolding tables_def [of m] by blast
  qed
  show "pte m' pt q k = pte m pt q k" if q: "length q = 2" for q k
  proof -
    have "ent m' b k = ent m b k" if "tbl m pt q = Some b" for b
      using e [of b k] at [OF that] pt_invD(2) [OF inv _ p(1), of q] that q p(2) by auto
    moreover have "ent m' a k = 0" using e [of a k] at [OF p(1)] p(2) by auto
    ultimately show ?thesis
      using tb [of q] q below(2) [of "[]"] by (auto simp: pte_def split: option.split)
  qed
qed

end
