(* ===== verification/PtMap.thy ===== *)
theory PtMap
  imports PtTree
begin

text \<open>
  Walking and mapping. \<open>pt_frame\<close> relates the memory before and after an operation on one
  page table: the table stays well-formed, it may gain tables, which are pages newly taken
  from the heap, and every other live page keeps its contents.
\<close>

section \<open>What an operation on a page table may change\<close>

definition pt_frame :: "bit_field \<Rightarrow> usize \<Rightarrow> kmem \<Rightarrow> kmem \<Rightarrow> bool" where
  "pt_frame bf pt m m' \<longleftrightarrow>
     kmem_inv bf m' \<and> pt_inv m' pt \<and> tables m pt \<subseteq> tables m' pt \<and>
     (\<forall>a \<in> tables m' pt - tables m pt. km_store m a = None) \<and>
     (\<forall>a. a \<notin> tables m pt \<and> km_store m a \<noteq> None \<longrightarrow> km_store m' a = km_store m a) \<and>
     owned bf m' = owned bf m \<union> (tables m' pt - tables m pt)"

lemma pt_frameD:
  assumes "pt_frame bf pt m m'"
  shows "kmem_inv bf m'" "pt_inv m' pt" "tables m pt \<subseteq> tables m' pt"
    "a \<in> tables m' pt \<Longrightarrow> a \<notin> tables m pt \<Longrightarrow> km_store m a = None"
    "a \<notin> tables m pt \<Longrightarrow> km_store m a = Some c \<Longrightarrow> km_store m' a = Some c"
    "owned bf m' = owned bf m \<union> (tables m' pt - tables m pt)"
  using assms unfolding pt_frame_def by auto

lemma pt_frame_refl: "kmem_inv bf m \<Longrightarrow> pt_inv m pt \<Longrightarrow> pt_frame bf pt m m"
  by (simp add: pt_frame_def)

lemma pt_frame_trans:
  assumes "pt_frame bf pt m m'" and "pt_frame bf pt m' m''"
  shows "pt_frame bf pt m m''"
proof -
  note 1 = pt_frameD [OF assms(1)] and 2 = pt_frameD [OF assms(2)]
  have new: "km_store m a = None" if "a \<in> tables m'' pt" "a \<notin> tables m pt" for a
  proof (cases "a \<in> tables m' pt")
    case False
    then show ?thesis using 2(4) [of a] 1(5) [of a] that by (cases "km_store m a") auto
  qed (use 1(4) that in auto)
  have "km_store m'' a = km_store m a" if "a \<notin> tables m pt" "km_store m a \<noteq> None" for a
  proof -
    from that(2) have "\<exists>c. km_store m a = Some c" by blast
    then show ?thesis using 1(4) [of a] 1(5) 2(5) that by force
  qed
  then show ?thesis
    unfolding pt_frame_def using 1(3,6) 2 new by auto
qed

section \<open>Indices\<close>

lemma va_index:
  "unat (va_page_num (VirtAddr va) 2) = unat va div 4096 div 262144 mod 512"
  "unat (va_page_num (VirtAddr va) 1) = unat va div 4096 div 512 mod 512"
  "unat (va_page_num (VirtAddr va) 0) = unat va div 4096 mod 512"
  by (simp_all add: unat_va_page_num div_mult2_eq [symmetric])

definition va_path :: "usize \<Rightarrow> nat list" where
  "va_path va = [unat (va_page_num (VirtAddr va) 2), unat (va_page_num (VirtAddr va) 1)]"

lemma length_va_path [simp]: "length (va_path va) = 2"
  by (simp add: va_path_def)

lemma pte_pg_va: "pte_pg m pt (unat va div 4096) = pte m pt (va_path va) (unat (va_page_num (VirtAddr va) 0))"
  by (simp add: pte_pg_def va_path_def va_index del: One_nat_def)

lemma page_index_eq:
  fixes n k :: nat
  assumes "n < 2 ^ 27" and "k < 2 ^ 27"
  shows "[k div 262144 mod 512, k div 512 mod 512] = [n div 262144 mod 512, n div 512 mod 512] \<and>
     k mod 512 = n mod 512 \<longleftrightarrow> k = n"
proof -
  have b: "j div 262144 < 512" if "j < 2 ^ 27" for j :: nat using that by (simp add: less_mult_imp_div_less)
  have d: "j = (j div 262144 * 512 + j div 512 mod 512) * 512 + j mod 512" for j :: nat
    using div_mult_mod_eq [of j 512] div_mult_mod_eq [of "j div 512" 512]
    by (simp add: div_mult2_eq [symmetric])
  show ?thesis using d [of n] d [of k] b [OF assms(1)] b [OF assms(2)] by auto
qed

section \<open>Walking\<close>

lemma tbl_get_table:
  assumes "kmem_inv bf m" and "is_table m t" and "unat i < 512"
  shows "tbl_get m t i = Done (ent m t (unat i))"
proof -
  obtain es where "km_store m t = Some (Table es)" using assms(2) by (auto simp: is_table_def)
  moreover have "t \<noteq> 0" using store_page_addr [OF assms(1) calculation] by (simp add: page_addr_def)
  ultimately show ?thesis using assms(3) by (simp add: tbl_get_def ent_def)
qed

lemma table_nonzero: "kmem_inv bf m \<Longrightarrow> is_table m t \<Longrightarrow> page_addr t"
  using store_page_addr by (auto simp: is_table_def)

lemma walk_spec:
  assumes "kmem_inv bf m" and "pt_inv m pt"
  shows "walk (VirtAddr va) [2, 1] pt m = Done (tbl m pt (va_path va))"
proof -
  have "is_table m pt" using pt_invD(1) [OF assms(2), of "[]"] by simp
  moreover have "is_table m (as_page_table (ent m pt i))" if "pte_is_valid (ent m pt i)" for i
    using pt_invD(1) [OF assms(2), of "[i]"] that by simp
  ultimately show ?thesis
    using tbl_get_table [OF assms(1) _ va_page_num_bound] by (simp add: va_path_def)
qed

lemma find_pte_spec:
  assumes "kmem_inv bf m" and "pt_inv m pt"
  shows "find_pte pt (VirtAddr va) m =
           Done (if tbl m pt (va_path va) = None then None else Some (pte_pg m pt (unat va div 4096)))"
proof (cases "tbl m pt (va_path va)")
  case (Some t)
  then have "is_table m t" using pt_invD(1) [OF assms(2), of "va_path va"] by simp
  then show ?thesis
    using Some tbl_get_table [OF assms(1) _ va_page_num_bound]
    unfolding find_pte_def walk_spec [OF assms] by (simp add: pte_pg_va pte_def)
qed (unfold find_pte_def walk_spec [OF assms], simp)

lemma find_pte_mut_spec:
  assumes "kmem_inv bf m" and "pt_inv m pt"
  shows "find_pte_mut pt (VirtAddr va) m =
           Done (map_option (\<lambda>t. (t, va_page_num (VirtAddr va) 0)) (tbl m pt (va_path va)))"
proof (cases "tbl m pt (va_path va)")
  case (Some t)
  then have "t \<noteq> 0"
    using table_nonzero [OF assms(1)] pt_invD(1) [OF assms(2), of "va_path va"] by (simp add: page_addr_def)
  then show ?thesis using Some unfolding find_pte_mut_def walk_spec [OF assms] by simp
qed (unfold find_pte_mut_def walk_spec [OF assms], simp)

text \<open>The physical page a user address is mapped to.\<close>

definition user_page :: "kmem \<Rightarrow> usize \<Rightarrow> nat \<Rightarrow> usize option" where
  "user_page m pt n =
     (let d = pte_pg m pt n
      in if pte_is_valid d \<and> pte_is_user d then Some (as_page_table d) else None)"

lemma find_pa_spec:
  assumes "kmem_inv bf m" and "pt_inv m pt"
  shows "\<exists>e. find_pa pt (VirtAddr va) m =
           Done (case user_page m pt (unat va div 4096) of None \<Rightarrow> Inl e | Some a \<Rightarrow> Inr (PhysAddr a))"
    and "find_pa_mut pt (VirtAddr va) m = find_pa pt (VirtAddr va) m"
proof -
  have u: "\<exists>e. user_pa d = (if pte_is_valid d \<and> pte_is_user d then Inr (PhysAddr (as_page_table d)) else Inl e)" for d
    by (auto simp: user_pa_def as_phys_addr_def as_page_table_def)
  show "\<exists>e. find_pa pt (VirtAddr va) m =
           Done (case user_page m pt (unat va div 4096) of None \<Rightarrow> Inl e | Some a \<Rightarrow> Inr (PhysAddr a))"
  proof (cases "tbl m pt (va_path va)")
    case None
    then have "pte_pg m pt (unat va div 4096) = 0" by (simp add: pte_pg_va pte_def)
    then show ?thesis using None by (simp add: find_pa_def find_pte_spec [OF assms] user_page_def)
  next
    case (Some t)
    then show ?thesis
      using u [of "pte_pg m pt (unat va div 4096)"]
      by (auto simp: find_pa_def find_pte_spec [OF assms] user_page_def Let_def)
  qed
  show "find_pa_mut pt (VirtAddr va) m = find_pa pt (VirtAddr va) m"
  proof (cases "tbl m pt (va_path va)")
    case (Some t)
    then have "is_table m t" using pt_invD(1) [OF assms(2), of "va_path va"] by simp
    then show ?thesis
      using Some tbl_get_table [OF assms(1) _ va_page_num_bound]
      by (simp add: find_pa_def find_pa_mut_def find_pte_spec [OF assms] find_pte_mut_spec [OF assms] pte_pg_va pte_def)
  qed (simp add: find_pa_def find_pa_mut_def find_pte_spec [OF assms] find_pte_mut_spec [OF assms])
qed

section \<open>Creating tables\<close>

lemma owned_heap: "km_heap m' = km_heap m \<Longrightarrow> owned bf m' = owned bf m"
  by (simp add: owned_def)

context page_heap
begin

lemma tbl_set_spec:
  assumes "kmem_inv bf m" and "is_table m t" and "unat i < 512"
  shows "\<exists>m'. tbl_set t i d m = Done m' \<and> kmem_inv bf m' \<and> is_table m' = is_table m \<and>
    (\<forall>a k. ent m' a k = (if a = t \<and> k = unat i then d else ent m a k)) \<and>
    (\<forall>a. a \<noteq> t \<longrightarrow> km_store m' a = km_store m a) \<and> owned bf m' = owned bf m"
proof -
  obtain es where es: "km_store m t = Some (Table es)" using assms(2) by (auto simp: is_table_def)
  then have l: "length es = 512" using store_page_wf [OF assms(1) es] by (simp add: page_wf_def)
  let ?m = "m\<lparr>km_store := (km_store m)(t \<mapsto> Table (es[unat i := d]))\<rparr>"
  have "tbl_set t i d m = Done ?m" using es by (simp add: tbl_set_def)
  moreover have "kmem_inv bf ?m" using assms(1) es l by (intro upd_law) (simp_all add: page_wf_def)
  moreover have "is_table ?m = is_table m" using es by (auto simp: is_table_def fun_eq_iff)
  moreover have "ent ?m a k = (if a = t \<and> k = unat i then d else ent m a k)" for a k
    using es l assms(3) by (cases "a = t") (simp_all add: ent_def nth_list_upd_if)
  moreover have "owned bf ?m = owned bf m" by (rule owned_heap) simp
  ultimately show ?thesis by (intro exI [of _ ?m] conjI allI impI) simp_all
qed

text \<open>One level of the walk: the table below the entry exists or is created.\<close>

lemma create_level:
  assumes inv: "kmem_inv bf m" and pt: "pt_inv m pt" and p: "tbl m pt p = Some t" "length p \<le> 1"
    and nv: "\<not> pte_is_valid (ent m t (unat i))" and i: "unat i < 512"
  shows "page_try_new bf zero_table m = Done (None, m) \<or>
     (\<exists>a m1 m2. page_try_new bf zero_table m = Done (Some a, m1) \<and> phys_try_from a = Inr (PhysAddr a) \<and>
        tbl_set t i (pte_write (PhysAddr a)) m1 = Done m2 \<and> pt_frame bf pt m m2 \<and>
        tbl m2 pt (p @ [unat i]) = Some a \<and> (\<forall>q k. length q = 2 \<longrightarrow> pte m2 pt q k = pte m pt q k))"
proof -
  from new_law [OF inv zero_pages_wf(1)] consider (none) "page_try_new bf zero_table m = Done (None, m)"
    | (some) a m1 where "page_try_new bf zero_table m = Done (Some a, m1)" "kmem_inv bf m1" "page_addr a"
      "km_store m a = None" "km_store m1 = (km_store m)(a \<mapsto> zero_table)" "a \<notin> owned bf m"
      "owned bf m1 = insert a (owned bf m)" by blast
  then show ?thesis
  proof cases
    case some
    have al: "unat a mod 4096 = 0" "a \<le> PHYSTOP" using some(3) by (simp_all add: page_addr_def)
    have tr: "phys_try_from a = Inr (PhysAddr a)"
      using al page_aligned_mod [of a] by (simp add: phys_try_from_def)
    have it: "is_table m1 b \<longleftrightarrow> b = a \<or> is_table m b" for b
      using some(4) by (auto simp: is_table_def some(5) zero_table_def)
    have e1: "ent m1 b k = (if b = a then 0 else ent m b k)" for b k
      by (simp add: ent_def some(5) zero_table_def)
    have na: "\<not> is_table m a" using some(4) by (simp add: is_table_def)
    have t: "is_table m t" using pt_invD(1) [OF pt _ p(1)] p(2) by simp
    then have ta: "t \<noteq> a" using na by blast
    obtain m2 where m2: "tbl_set t i (pte_write (PhysAddr a)) m1 = Done m2" "kmem_inv bf m2" "is_table m2 = is_table m1"
      "\<forall>b k. ent m2 b k = (if b = t \<and> k = unat i then pte_write (PhysAddr a) else ent m1 b k)"
      "\<forall>b. b \<noteq> t \<longrightarrow> km_store m2 b = km_store m1 b" "owned bf m2 = owned bf m1"
      using tbl_set_spec [OF some(2) _ i, of t] t it by blast
    note st = set_table [OF pt p nv na pte_write_facts(2,1) [OF al(1)], of m2]
    have tb: "tbl m2 pt (p @ [unat i]) = Some a" "pt_inv m2 pt" "tables m2 pt = insert a (tables m pt)"
      "\<And>q k. length q = 2 \<Longrightarrow> pte m2 pt q k = pte m pt q k"
      using st m2(3,4) e1 it p(2) by simp_all
    have tt: "t \<in> tables m pt" using p unfolding tables_def by (intro CollectI exI [of _ p]) simp
    have "a \<notin> tables m pt" using pt_invD(1) [OF pt] na unfolding tables_def by blast
    moreover have "km_store m2 b = km_store m b" if "b \<notin> tables m pt" "km_store m b \<noteq> None" for b
    proof -
      have "b \<noteq> t" "b \<noteq> a" using that tt some(4) by auto
      then show ?thesis using m2(5) some(5) by simp
    qed
    ultimately have "pt_frame bf pt m m2"
      unfolding pt_frame_def using m2(2,6) tb(2,3) some(4,7) by auto
    then show ?thesis using some(1) tr m2(1) tb by blast
  qed simp
qed

lemma walk_create_spec:
  assumes "kmem_inv bf m" and "pt_inv m pt" and "tbl m pt p = Some t" and "length p + length levels \<le> 2"
  shows "\<exists>r m'. walk_create bf va levels t m = Done (r, m') \<and> pt_frame bf pt m m' \<and>
     (\<forall>q k. length q = 2 \<longrightarrow> pte m' pt q k = pte m pt q k) \<and>
     (\<forall>t'. r = Some t' \<longrightarrow> tbl m' pt (p @ map (\<lambda>l. unat (va_page_num va l)) levels) = Some t')"
  using assms
proof (induction levels arbitrary: m p t)
  case Nil
  then show ?case using pt_frame_refl by auto
next
  case (Cons l ls)
  let ?i = "va_page_num va l"
  have it: "is_table m t" using pt_invD(1) [OF Cons.prems(2) _ Cons.prems(3)] Cons.prems(4) by simp
  note g = tbl_get_table [OF Cons.prems(1) it va_page_num_bound [of va l]]
  show ?case
  proof (cases "pte_is_valid (ent m t (unat ?i))")
    case True
    then have "tbl m pt (p @ [unat ?i]) = Some (as_page_table (ent m t (unat ?i)))"
      using Cons.prems(3) by (simp add: tbl_snoc)
    from Cons.IH [OF Cons.prems(1,2) this] show ?thesis using Cons.prems(4) g True by simp
  next
    case False
    from create_level [OF Cons.prems(1,2,3) _ False va_page_num_bound] Cons.prems(4) consider
      (none) "page_try_new bf zero_table m = Done (None, m)"
    | (some) a m1 m2 where "page_try_new bf zero_table m = Done (Some a, m1)" "phys_try_from a = Inr (PhysAddr a)"
        "tbl_set t ?i (pte_write (PhysAddr a)) m1 = Done m2" "pt_frame bf pt m m2"
        "tbl m2 pt (p @ [unat ?i]) = Some a" "\<forall>q k. length q = 2 \<longrightarrow> pte m2 pt q k = pte m pt q k"
      by auto
    then show ?thesis
    proof cases
      case none
      then show ?thesis using g False pt_frame_refl [OF Cons.prems(1,2)] by simp
    next
      case some
      obtain r m' where "walk_create bf va ls a m2 = Done (r, m')" "pt_frame bf pt m2 m'"
        "\<forall>q k. length q = 2 \<longrightarrow> pte m' pt q k = pte m2 pt q k"
        "\<forall>t'. r = Some t' \<longrightarrow> tbl m' pt ((p @ [unat ?i]) @ map (\<lambda>l. unat (va_page_num va l)) ls) = Some t'"
        using Cons.IH [OF pt_frameD(1,2) [OF some(4)] some(5)] Cons.prems(4) by auto
      then show ?thesis using g False some pt_frame_trans [OF some(4)] by auto
    qed
  qed
qed

lemma find_pte_create_spec:
  assumes "kmem_inv bf m" and "pt_inv m pt"
  shows "\<exists>r m'. find_pte_create bf pt (VirtAddr va) m = Done (r, m') \<and> pt_frame bf pt m m' \<and>
     pte_pg m' pt = pte_pg m pt \<and>
     (r = None \<or> (\<exists>t. r = Some (t, va_page_num (VirtAddr va) 0) \<and> tbl m' pt (va_path va) = Some t))"
proof -
  obtain r m' where w: "walk_create bf (VirtAddr va) [2, 1] pt m = Done (r, m')" "pt_frame bf pt m m'"
    "\<forall>q k. length q = 2 \<longrightarrow> pte m' pt q k = pte m pt q k"
    "\<forall>t'. r = Some t' \<longrightarrow> tbl m' pt (va_path va) = Some t'"
    using walk_create_spec [OF assms, of "[]" pt "[2, 1]" "VirtAddr va"] by (auto simp: va_path_def)
  have eq: "pte_pg m' pt = pte_pg m pt" using w(3) by (simp add: fun_eq_iff pte_pg_def)
  show ?thesis
  proof (cases r)
    case None
    then show ?thesis using w(2) eq unfolding find_pte_create_def w(1) by simp
  next
    case (Some t)
    then have "t \<noteq> 0"
      using w(4) table_nonzero [OF pt_frameD(1) [OF w(2)]] pt_invD(1) [OF pt_frameD(2) [OF w(2)], of "va_path va"]
      by (simp add: page_addr_def)
    then show ?thesis using Some w(2,4) eq unfolding find_pte_create_def w(1) by simp
  qed
qed

lemma set_pte_spec:
  assumes inv: "kmem_inv bf m" and pt: "pt_inv m pt" and t: "tbl m pt (va_path va) = Some t" and va: "unat va < 2 ^ 39"
  shows "\<exists>m'. tbl_set t (va_page_num (VirtAddr va) 0) d m = Done m' \<and> pt_frame bf pt m m' \<and>
    tables m' pt = tables m pt \<and> owned bf m' = owned bf m \<and>
    (\<forall>a. a \<notin> tables m pt \<longrightarrow> km_store m' a = km_store m a) \<and>
    (\<forall>k < 2 ^ 27. pte_pg m' pt k = (if k = unat va div 4096 then d else pte_pg m pt k))"
proof -
  let ?i = "va_page_num (VirtAddr va) 0"
  have it: "is_table m t" using pt_invD(1) [OF pt _ t] by simp
  obtain m' where m': "tbl_set t ?i d m = Done m'" "kmem_inv bf m'" "is_table m' = is_table m"
    "\<forall>a k. ent m' a k = (if a = t \<and> k = unat ?i then d else ent m a k)"
    "\<forall>a. a \<noteq> t \<longrightarrow> km_store m' a = km_store m a" "owned bf m' = owned bf m"
    using tbl_set_spec [OF inv it va_page_num_bound] by blast
  note sl = set_leaf [OF pt t length_va_path, of m', OF m'(4) [rule_format] m'(3)]
  have "t \<in> tables m pt" using t unfolding tables_def by (intro CollectI exI [of _ "va_path va"]) simp
  then have st: "\<forall>a. a \<notin> tables m pt \<longrightarrow> km_store m' a = km_store m a" using m'(5) by metis
  then have fr: "pt_frame bf pt m m'" using m'(2,6) sl(2,3) by (simp add: pt_frame_def)
  have n: "unat va div 4096 < 2 ^ 27" using va by (simp add: less_mult_imp_div_less)
  have pg: "pte_pg m' pt k = (if k = unat va div 4096 then d else pte_pg m pt k)" if "k < 2 ^ 27" for k
    using page_index_eq [OF n that] sl(4) [of "[k div 262144 mod 512, k div 512 mod 512]" "k mod 512"]
    by (auto simp: pte_pg_def va_path_def va_index simp del: One_nat_def)
  show ?thesis using m'(1,6) fr sl(3) st pg by blast
qed

end

section \<open>Mapping a range\<close>

text \<open>The \<open>j\<close> pages from the \<open>n\<close>-th on have become mapped; they were not mapped before.\<close>

definition range_mapped :: "kmem \<Rightarrow> kmem \<Rightarrow> usize \<Rightarrow> nat \<Rightarrow> nat \<Rightarrow> usize \<Rightarrow> usize \<Rightarrow> bool" where
  "range_mapped m m' pt n j pa perm \<longleftrightarrow>
     (\<forall>k < 2 ^ 27. pte_pg m' pt k =
        (if n \<le> k \<and> k < n + j then pte_write_perm (PhysAddr (pa + of_nat (4096 * (k - n)))) perm
         else pte_pg m pt k)) \<and>
     (\<forall>k. n \<le> k \<and> k < n + j \<longrightarrow> \<not> pte_is_valid (pte_pg m pt k))"

lemma range_mapped_0: "range_mapped m m' pt n 0 pa perm \<longleftrightarrow> (\<forall>k < 2 ^ 27. pte_pg m' pt k = pte_pg m pt k)"
  by (auto simp: range_mapped_def)

lemma range_mapped_Suc:
  assumes step: "\<And>k. k < 2 ^ 27 \<Longrightarrow> pte_pg m1 pt k = (if k = n then pte_write_perm (PhysAddr pa) perm else pte_pg m pt k)"
    and "\<not> pte_is_valid (pte_pg m pt n)" and rest: "range_mapped m1 m' pt (Suc n) j (pa + 4096) perm" and "Suc n + j \<le> 2 ^ 27"
  shows "range_mapped m m' pt n (Suc j) pa perm"
  unfolding range_mapped_def
proof (intro conjI allI impI; (elim conjE)?)
  fix k :: nat assume k: "k < 2 ^ 27"
  have r: "pte_pg m' pt k = (if Suc n \<le> k \<and> k < Suc n + j
      then pte_write_perm (PhysAddr (pa + 4096 + of_nat (4096 * (k - Suc n)))) perm else pte_pg m1 pt k)"
    using rest k by (simp add: range_mapped_def)
  have "pa + 4096 + of_nat (4096 * (k - Suc n)) = pa + of_nat (4096 * (k - n))" if "Suc n \<le> k"
  proof -
    have "4096 * (k - n) = 4096 + 4096 * (k - Suc n)" using that by simp
    then show ?thesis by simp
  qed
  then show "pte_pg m' pt k = (if n \<le> k \<and> k < n + Suc j
      then pte_write_perm (PhysAddr (pa + of_nat (4096 * (k - n)))) perm else pte_pg m pt k)"
    using r step [OF k] by (cases "Suc n \<le> k") auto
next
  fix k assume k: "n \<le> k" "k < n + Suc j"
  show "\<not> pte_is_valid (pte_pg m pt k)"
  proof (cases "k = n")
    case False
    then have "\<not> pte_is_valid (pte_pg m1 pt k)" using rest k by (simp add: range_mapped_def)
    then show ?thesis using step [of k] k False assms(4) by simp
  qed (use assms(2) in simp)
qed

definition no_table_memory :: string where
  "no_table_memory = ''PageTable.map_pages: not enough memory for new page table''"

text \<open>How a mapping of \<open>c\<close> pages ends: all of them, or the first \<open>j\<close> up to a page in the way or a lack of memory.\<close>

definition map_outcome :: "kmem \<Rightarrow> kmem \<Rightarrow> usize \<Rightarrow> nat \<Rightarrow> nat \<Rightarrow> usize \<Rightarrow> usize \<Rightarrow> string + unit \<Rightarrow> bool" where
  "map_outcome m m' pt n c pa perm r \<longleftrightarrow>
     (case r of
        Inr u \<Rightarrow> range_mapped m m' pt n c pa perm
      | Inl e \<Rightarrow> \<exists>j < c. range_mapped m m' pt n j pa perm \<and>
          (e = ''remap'' \<and> pte_is_valid (pte_pg m pt (n + j)) \<or> e = no_table_memory))"

context page_heap
begin

lemma map_loop_spec:
  assumes "kmem_inv bf m" and "pt_inv m pt" and "unat va = 4096 * n" and "unat end_va = 4096 * (n + c)"
    and "n + c \<le> 2 ^ 26" and "unat pa + 4096 * c < 2 ^ 64"
  shows "\<exists>r m'. map_loop bf pt va end_va pa perm m = Done (r, m') \<and> pt_frame bf pt m m' \<and>
           map_outcome m m' pt n c pa perm r"
  using assms
proof (induction c arbitrary: m va n pa)
  case 0
  then have "va = end_va" by (simp add: unat_inject [symmetric])
  then have "map_loop bf pt va end_va pa perm m = Done (Inr (), m)" by (subst map_loop.simps) simp
  then show ?case using pt_frame_refl [OF 0(1,2)] by (simp add: map_outcome_def range_mapped_0)
next
  case (Suc c)
  have ne: "va \<noteq> end_va" using Suc.prems(3,4) by auto
  have n: "unat va div 4096 = n" "n < 2 ^ 27" "unat va < 2 ^ 39" using Suc.prems(3,5) by simp_all
  obtain r m1 where f: "find_pte_create bf pt (VirtAddr va) m = Done (r, m1)" "pt_frame bf pt m m1"
    "pte_pg m1 pt = pte_pg m pt"
    "r = None \<or> (\<exists>t. r = Some (t, va_page_num (VirtAddr va) 0) \<and> tbl m1 pt (va_path va) = Some t)"
    using find_pte_create_spec [OF Suc.prems(1,2)] by blast
  note i1 = pt_frameD(1,2) [OF f(2)]
  show ?case
  proof (cases r)
    case None
    then have "map_loop bf pt va end_va pa perm m = Done (Inl no_table_memory, m1)"
      using ne f(1) by (simp add: map_loop.simps [of _ _ va] no_table_memory_def)
    then show ?thesis using f(2,3)
      by (auto simp: map_outcome_def range_mapped_0 intro!: exI [of _ m1] exI [of _ 0])
  next
    case (Some x)
    then obtain t where t: "x = (t, va_page_num (VirtAddr va) 0)" "tbl m1 pt (va_path va) = Some t" using f(4) by auto
    have it: "is_table m1 t" using pt_invD(1) [OF i1(2) _ t(2)] by simp
    have g: "tbl_get m1 t (va_page_num (VirtAddr va) 0) = Done (pte_pg m pt n)"
      using tbl_get_table [OF i1(1) it va_page_num_bound] pte_pg_va [of m1 pt va] t(2) f(3) n(1) by (simp add: pte_def)
    show ?thesis
    proof (cases "pte_is_valid (pte_pg m pt n)")
      case True
      then have "map_loop bf pt va end_va pa perm m = Done (Inl ''remap'', m1)"
        using ne f(1) Some t(1) g by (simp add: map_loop.simps [of _ _ va])
      then show ?thesis using f(2,3) True
        by (auto simp: map_outcome_def range_mapped_0 intro!: exI [of _ m1] exI [of _ 0])
    next
      case False
      obtain m2 where m2: "tbl_set t (va_page_num (VirtAddr va) 0) (pte_write_perm (PhysAddr pa) perm) m1 = Done m2"
        "pt_frame bf pt m1 m2"
        "\<forall>k < 2 ^ 27. pte_pg m2 pt k = (if k = n then pte_write_perm (PhysAddr pa) perm else pte_pg m pt k)"
        using set_pte_spec [OF i1 t(2) n(3), of "pte_write_perm (PhysAddr pa) perm"] unfolding n(1) f(3) by blast
      have va': "addr_add_page va = Done (va + 4096)" "unat (va + 4096) = 4096 * Suc n"
        using Suc.prems(3,5) unat_plus_no_overflow [of va 4096]
        by (simp_all add: addr_add_page_def usize_add_def PAGE_SIZE_def)
      have pa': "addr_add_page pa = Done (pa + 4096)" "unat (pa + 4096) = unat pa + 4096"
        using Suc.prems(6) unat_plus_no_overflow [of pa 4096]
        by (simp_all add: addr_add_page_def usize_add_def PAGE_SIZE_def)
      obtain r' m' where m': "map_loop bf pt (va + 4096) end_va (pa + 4096) perm m2 = Done (r', m')"
        "pt_frame bf pt m2 m'" "map_outcome m2 m' pt (Suc n) c (pa + 4096) perm r'"
        using Suc.IH [OF pt_frameD(1,2) [OF m2(2)] va'(2), of "pa + 4096"] Suc.prems(4-6) pa'(2) by auto
      have "map_loop bf pt va end_va pa perm m = Done (r', m')"
        using ne f(1) Some t(1) g False m2(1) va'(1) pa'(1) m'(1) by (simp add: map_loop.simps [of _ _ va])
      moreover have "pt_frame bf pt m m'" by (rule pt_frame_trans [OF f(2) pt_frame_trans [OF m2(2) m'(2)]])
      moreover have "range_mapped m m' pt n (Suc j) pa perm"
        if "range_mapped m2 m' pt (Suc n) j (pa + 4096) perm" "j \<le> c" for j
        using range_mapped_Suc [OF m2(3) [rule_format] False that(1)] that(2) Suc.prems(5) by simp
      moreover have "pte_pg m2 pt (Suc n + j) = pte_pg m pt (n + Suc j)" if "j < c" for j
        using m2(3) that Suc.prems(5) by simp
      ultimately show ?thesis
        using m'(3) by (fastforce simp: map_outcome_def split: sum.splits)
    qed
  qed
qed

lemma map_pages_spec:
  assumes "kmem_inv bf m" and "pt_inv m pt" and "unat va + unat sz \<le> unat MAXVA"
    and "unat pa + unat sz + 2 * 4096 \<le> 2 ^ 64"
  shows "\<exists>r m'. map_pages bf pt (VirtAddr va) sz (PhysAddr pa) perm m = Done (r, m') \<and> pt_frame bf pt m m' \<and>
           map_outcome m m' pt (unat va div 4096) ((unat va + unat sz + 4095) div 4096 - unat va div 4096) pa perm r"
proof -
  have mx: "unat MAXVA = 2 ^ 38" by (simp add: MAXVA_def)
  have s: "usize_add va sz = Done (va + sz)" "unat (va + sz) = unat va + unat sz"
    using assms(3) mx unat_plus_no_overflow [of va sz] by (simp_all add: usize_add_def)
  have tr: "virt_try_from (va + sz) = Inr (VirtAddr (va + sz))"
    using assms(3) s(2) by (simp add: virt_try_from_def word_less_nat_alt)
  obtain e where e: "addr_pg_round_up (va + sz) = Done e" "unat e = (unat va + unat sz + 4095) div 4096 * 4096"
    using pg_round_up_Done [of "va + sz"] addr_pg_round_up_Done [of "va + sz"] s(2) assms(3) mx by auto
  let ?n = "unat va div 4096" and ?l = "(unat va + unat sz + 4095) div 4096"
  have le: "?n \<le> ?l" by (intro div_le_mono) simp
  have "4096 * (?l - ?n) \<le> unat sz + 4095 + 4096"
    using div_mult_mod_eq [of "unat va" 4096] div_mult_mod_eq [of "unat va + unat sz + 4095" 4096] 
      mod_less_divisor [of 4096 "unat va"] le by (simp add: diff_mult_distrib2)
  then have "unat pa + 4096 * (?l - ?n) < 2 ^ 64" using assms(4) by simp
  moreover have "?n + (?l - ?n) \<le> 2 ^ 26" using le assms(3) mx by simp
  ultimately have "\<exists>r m'. map_loop bf pt (pg_round_down va) e pa perm m = Done (r, m') \<and> pt_frame bf pt m m' \<and>
           map_outcome m m' pt ?n (?l - ?n) pa perm r"
    using le e(2) by (intro map_loop_spec [OF assms(1,2)]) (simp_all add: unat_pg_round_down)
  then show ?thesis using s(1) tr e(1) by (simp add: map_pages_def)
qed

end

end
