(* ===== verification/UserVm.thy ===== *)
theory UserVm
  imports PtMap
begin

text \<open>
  User address spaces: the operations of \<^verbatim>\<open>kernel/src/mm/pagetable.rs\<close> that allocate, release,
  duplicate, read and write user memory, and the release of the tables themselves.
  \<^verbatim>\<open>walk_mut\<close>, which \<^verbatim>\<open>uvm_unmap\<close> calls, is \<^verbatim>\<open>find_pte_mut\<close>.
\<close>

unbundle bit_operations_syntax

section \<open>Ranges and pages\<close>

text \<open>The range \<^verbatim>\<open>(a..b).step_by(PAGE_SIZE)\<close>.\<close>

definition page_steps :: "usize \<Rightarrow> usize \<Rightarrow> usize list" where
  "page_steps a b = map (\<lambda>k. a + of_nat (4096 * k)) [0..<(unat b - unat a + 4095) div 4096]"

text \<open>Bytes of a page, through its physical address.\<close>

definition page_read :: "usize \<Rightarrow> usize \<Rightarrow> nat \<Rightarrow> kmem \<Rightarrow> u8 list kres" where
  "page_read pa off n m =
     (case km_store m pa of
        Some (Bytes bs) \<Rightarrow> if unat off + n \<le> length bs then Done (take n (drop (unat off) bs)) else Panicked ub
      | _ \<Rightarrow> Panicked ub)"

definition page_write :: "usize \<Rightarrow> usize \<Rightarrow> u8 list \<Rightarrow> kmem \<Rightarrow> kmem kres" where
  "page_write pa off src m =
     (case km_store m pa of
        Some (Bytes bs) \<Rightarrow>
          if unat off + length src \<le> length bs
          then Done (m\<lparr>km_store := (km_store m)(pa \<mapsto>
                 Bytes (take (unat off) bs @ src @ drop (unat off + length src) bs))\<rparr>)
          else Panicked ub
      | _ \<Rightarrow> Panicked ub)"

definition try_clone :: "bit_field \<Rightarrow> usize \<Rightarrow> kmem \<Rightarrow> (usize option \<times> kmem) kres" where
  "try_clone bf d m =
     (if \<not> pte_is_valid d then Done (None, m)
      else kbind (page_read (pa_raw (as_phys_addr d)) 0 4096 m) (\<lambda>bs. page_try_new bf (Bytes bs) m))"

section \<open>Unmapping\<close>

fun unmap_loop :: "bit_field \<Rightarrow> usize \<Rightarrow> bool \<Rightarrow> usize list \<Rightarrow> kmem \<Rightarrow> kmem kres" where
  "unmap_loop bf pt freeing [] m = Done m"
| "unmap_loop bf pt freeing (ca # cas) m =
     kbind (find_pte_mut pt (VirtAddr ca) m) (\<lambda>r.
       case r of
         None \<Rightarrow> Done m
       | Some (t, i) \<Rightarrow>
           kbind (tbl_get m t i) (\<lambda>d.
             if \<not> pte_is_valid d then Done m
             else if \<not> pte_is_leaf d then Panicked ''this pte is not a leaf''
             else kbind (if freeing then page_free bf (pa_raw (as_phys_addr d)) m else Done m) (\<lambda>m1.
                  kbind (tbl_set t i 0 m1) (unmap_loop bf pt freeing cas))))"

definition uvm_unmap :: "bit_field \<Rightarrow> usize \<Rightarrow> usize \<Rightarrow> usize \<Rightarrow> bool \<Rightarrow> kmem \<Rightarrow> kmem kres" where
  "uvm_unmap bf pt va count freeing m =
     (if va mod PAGE_SIZE \<noteq> 0 then Panicked ''va not page aligned''
      else kbind (usize_mul PAGE_SIZE count) (\<lambda>s. kbind (usize_add va s) (\<lambda>e.
           unmap_loop bf pt freeing (page_steps va e) m)))"

text \<open>\<^verbatim>\<open>kvm_unmap\<close>, with its range \<^verbatim>\<open>(0..count).step_by(PAGE_SIZE)\<close>.\<close>

definition kvm_unmap :: "usize \<Rightarrow> usize \<Rightarrow> usize \<Rightarrow> bool \<Rightarrow> kmem \<Rightarrow> kmem kres" where
  "kvm_unmap pt va count freeing m =
     (if va mod PAGE_SIZE \<noteq> 0 then Panicked ''va not page aligned''
      else kfold (\<lambda>m i.
             kbind (usize_mul i PAGE_SIZE) (\<lambda>s. kbind (usize_add va s) (\<lambda>a.
             kbind (find_pte_mut pt (VirtAddr a) m) (\<lambda>r.
               case r of None \<Rightarrow> Panicked ''unable to find va available'' | Some (t, k) \<Rightarrow> tbl_set t k 0 m))))
             m (page_steps 0 count))"

definition uvm_dealloc :: "bit_field \<Rightarrow> usize \<Rightarrow> usize \<Rightarrow> usize \<Rightarrow> kmem \<Rightarrow> (usize \<times> kmem) kres" where
  "uvm_dealloc bf pt old_size new_size m =
     (if new_size \<ge> old_size then Done (old_size, m)
      else kbind (pg_round_up old_size) (\<lambda>old_al.
           kbind (pg_round_up new_size) (\<lambda>new_al.
           kbind (if new_al < old_al then uvm_unmap bf pt new_al ((old_al - new_al) div PAGE_SIZE) True m else Done m)
             (\<lambda>m'. Done (new_size, m')))))"

section \<open>Allocating\<close>

fun alloc_loop :: "bit_field \<Rightarrow> usize \<Rightarrow> usize \<Rightarrow> usize list \<Rightarrow> kmem \<Rightarrow> (bool \<times> kmem) kres" where
  "alloc_loop bf pt old_size [] m = Done (True, m)"
| "alloc_loop bf pt old_size (cur # rest) m =
     kbind (page_try_new bf zero_bytes m) (\<lambda>(r, m1).
       case r of
         None \<Rightarrow> kbind (uvm_dealloc bf pt cur old_size m1) (\<lambda>(_, m2). Done (False, m2))
       | Some mem \<Rightarrow>
           kbind (map_pages bf pt (VirtAddr cur) PAGE_SIZE (PhysAddr mem) (PTE_R OR PTE_W OR PTE_X OR PTE_U) m1) (\<lambda>(s, m2).
             case s of
               Inl e \<Rightarrow> kbind (page_free bf mem m2) (\<lambda>m3.
                        kbind (uvm_dealloc bf pt cur old_size m3) (\<lambda>(_, m4). Done (False, m4)))
             | Inr u \<Rightarrow> alloc_loop bf pt old_size rest m2))"

text \<open>The result \<open>None\<close> is \<^verbatim>\<open>Err(())\<close>.\<close>

definition uvm_alloc :: "bit_field \<Rightarrow> usize \<Rightarrow> usize \<Rightarrow> usize \<Rightarrow> kmem \<Rightarrow> (usize option \<times> kmem) kres" where
  "uvm_alloc bf pt old_size new_size m =
     (if new_size \<le> old_size then Done (Some old_size, m)
      else kbind (pg_round_up old_size) (\<lambda>old_al.
           kbind (alloc_loop bf pt old_al (page_steps old_al new_size) m) (\<lambda>(ok, m').
             Done (if ok then Some new_size else None, m'))))"

definition uvm_init :: "bit_field \<Rightarrow> usize \<Rightarrow> u8 list \<Rightarrow> kmem \<Rightarrow> kmem kres" where
  "uvm_init bf pt code m =
     (if length code \<ge> 4096 then Panicked ''initcode more than a page''
      else kbind (page_new bf zero_bytes m) (\<lambda>(mem, m1).
        case phys_try_from mem of
          Inl e \<Rightarrow> Panicked e
        | Inr pa \<Rightarrow>
            kbind (map_pages bf pt (VirtAddr USERTEXT) PAGE_SIZE pa (PTE_R OR PTE_W OR PTE_X OR PTE_U) m1) (\<lambda>(s, m2).
              case s of Inl e \<Rightarrow> Panicked ''map_page error'' | Inr u \<Rightarrow> page_write mem 0 code m2)))"

definition uvm_clear :: "usize \<Rightarrow> usize \<Rightarrow> kmem \<Rightarrow> kmem kres" where
  "uvm_clear pt va m =
     (case virt_try_from va of
        Inl e \<Rightarrow> Panicked e
      | Inr v \<Rightarrow>
          kbind (find_pte_mut pt v m) (\<lambda>r.
            case r of
              None \<Rightarrow> Panicked ''cannot find available pte''
            | Some (t, i) \<Rightarrow> kbind (tbl_get m t i) (\<lambda>d. tbl_set t i (pte_clear_user d) m)))"

section \<open>Duplicating\<close>

text \<open>\<^verbatim>\<open>uvm_copy\<close>: the result \<open>True\<close> is \<^verbatim>\<open>Ok(())\<close>.\<close>

fun copy_loop :: "bit_field \<Rightarrow> usize \<Rightarrow> usize \<Rightarrow> usize list \<Rightarrow> kmem \<Rightarrow> (bool \<times> kmem) kres" where
  "copy_loop bf pt child [] m = Done (True, m)"
| "copy_loop bf pt child (i # is) m =
     kbind (find_pte pt (VirtAddr i) m) (\<lambda>r.
       case r of
         None \<Rightarrow> Done (False, m)
       | Some d \<Rightarrow>
           kbind (try_clone bf d m) (\<lambda>(c, m1).
             case c of
               None \<Rightarrow> Done (True, m1)
             | Some mem \<Rightarrow>
                 kbind (map_pages bf child (VirtAddr i) PAGE_SIZE (PhysAddr mem) (pte_read_perm d) m1) (\<lambda>(s, m2).
                   case s of
                     Inr u \<Rightarrow> copy_loop bf pt child is m2
                   | Inl e \<Rightarrow> kbind (page_free bf mem m2) (\<lambda>m3.
                              kbind (uvm_unmap bf child 0 (i div PAGE_SIZE) True m3) (\<lambda>m4. Done (False, m4))))))"

definition uvm_copy :: "bit_field \<Rightarrow> usize \<Rightarrow> usize \<Rightarrow> usize \<Rightarrow> kmem \<Rightarrow> (bool \<times> kmem) kres" where
  "uvm_copy bf pt child size' m = copy_loop bf pt child (page_steps 0 size') m"

section \<open>User stacks\<close>

definition ustack_bottom_by_pos :: "usize \<Rightarrow> usize \<Rightarrow> usize kres" where
  "ustack_bottom_by_pos ustack_base pos =
     kbind (usize_sub pos 1) (\<lambda>p.
     kbind (usize_mul p (PAGE_SIZE + USER_STACK_SIZE)) (\<lambda>s.
     kbind (usize_add ustack_base s) (\<lambda>a. usize_add a PAGE_SIZE)))"

fun ustack_loop :: "bit_field \<Rightarrow> usize \<Rightarrow> usize list \<Rightarrow> kmem \<Rightarrow> (string option \<times> kmem) kres" where
  "ustack_loop bf pt [] m = Done (None, m)"
| "ustack_loop bf pt (va # vas) m =
     kbind (page_try_new bf zero_bytes m) (\<lambda>(r, m1).
       case r of
         None \<Rightarrow> Done (Some ''no enough physical memory'', m1)
       | Some mem \<Rightarrow>
           kbind (map_pages bf pt (VirtAddr va) PAGE_SIZE (PhysAddr mem) (PTE_R OR PTE_W OR PTE_U) m1) (\<lambda>(s, m2).
             case s of
               Inl e \<Rightarrow> kbind (page_free bf mem m2) (\<lambda>m3. Done (Some ''no enough virtual memory'', m3))
             | Inr u \<Rightarrow> ustack_loop bf pt vas m2))"

definition uvm_alloc_ustack :: "bit_field \<Rightarrow> usize \<Rightarrow> usize \<Rightarrow> usize \<Rightarrow> kmem \<Rightarrow> ((string + usize) \<times> kmem) kres" where
  "uvm_alloc_ustack bf pt ustack_base pos m =
     (if unat pos \<ge> MAX_TASKS_PER_PROC then Done (Inl ''too many tasks'', m)
      else kbind (ustack_bottom_by_pos ustack_base pos) (\<lambda>top.
           kbind (usize_sub top USER_STACK_SIZE) (\<lambda>bottom.
           kbind (ustack_loop bf pt (page_steps bottom top) m) (\<lambda>(e, m').
             Done (case e of Some msg \<Rightarrow> Inl msg | None \<Rightarrow> Inr top, m')))))"

definition dealloc_ustack_by_pos :: "bit_field \<Rightarrow> usize \<Rightarrow> usize \<Rightarrow> usize \<Rightarrow> kmem \<Rightarrow> kmem kres" where
  "dealloc_ustack_by_pos bf pt ustack_base pos m =
     kbind (ustack_bottom_by_pos ustack_base pos) (\<lambda>top.
     kbind (usize_sub top USER_STACK_SIZE) (\<lambda>bottom. uvm_unmap bf pt bottom 4 False m))"

definition uvm_copy_ustack :: "bit_field \<Rightarrow> usize \<Rightarrow> usize \<Rightarrow> usize \<Rightarrow> kmem \<Rightarrow> kmem kres" where
  "uvm_copy_ustack bf pt ustack_base child m =
     kbind (ustack_bottom_by_pos ustack_base 1) (\<lambda>top.
     kbind (usize_sub top USER_STACK_SIZE) (\<lambda>bottom.
       kfold (\<lambda>m off.
         kbind (usize_add bottom off) (\<lambda>va.
         kbind (find_pte_create bf child (VirtAddr va) m) (\<lambda>(r, m1).
           case r of
             None \<Rightarrow> Panicked ''cpte not exist''
           | Some (t, i) \<Rightarrow>
               kbind (find_pte pt (VirtAddr va) m1) (\<lambda>q.
                 case q of None \<Rightarrow> Panicked ''ppte not exist'' | Some d \<Rightarrow> tbl_set t i d m1))))
         m (page_steps 0 USER_STACK_SIZE)))"

section \<open>Copying between kernel and user memory\<close>

text \<open>\<open>Inl ()\<close> is \<^verbatim>\<open>Err(())\<close>. The loops end because \<^verbatim>\<open>add_page\<close> panics rather than wrap.\<close>

function copy_out_loop :: "usize \<Rightarrow> u8 list \<Rightarrow> usize \<Rightarrow> usize \<Rightarrow> kmem \<Rightarrow> ((unit + unit) \<times> kmem) kres" where
  "copy_out_loop pt src dst va m =
     kbind (find_pa_mut pt (VirtAddr va) m) (\<lambda>r.
       case r of
         Inl e \<Rightarrow> Panicked ''no map''
       | Inr pa \<Rightarrow>
           kbind (usize_sub dst va) (\<lambda>off. kbind (usize_sub PAGE_SIZE off) (\<lambda>off_from_end.
             if unat off_from_end > length src
             then kbind (page_write (pa_raw pa) off src m) (\<lambda>m'. Done (Inr (), m'))
             else kbind (page_write (pa_raw pa) off (take (unat off_from_end) src) m) (\<lambda>m1.
                  kbind (usize_add dst off_from_end) (\<lambda>dst'.
                  kbind (addr_add_page va) (\<lambda>va'.
                    if dst' \<noteq> va' then Panicked ''assertion failed: dst == va''
                    else copy_out_loop pt (drop (unat off_from_end) src) dst' va' m1))))))"
  by pat_completeness auto
termination
  by (relation "measure (\<lambda>(pt, src, dst, va, m). 2 ^ 64 - unat va)")
    (auto simp: addr_add_page_def kres_simps unat_plus_no_overflow layout_defs)

declare copy_out_loop.simps [simp del]

definition copy_out :: "usize \<Rightarrow> u8 list \<Rightarrow> usize \<Rightarrow> kmem \<Rightarrow> ((unit + unit) \<times> kmem) kres" where
  "copy_out pt src dst m =
     (if src = [] then Done (Inr (), m)
      else case virt_try_from dst of
             Inl e \<Rightarrow> Panicked ''va error''
           | Inr va \<Rightarrow> copy_out_loop pt src dst (addr_pg_round_down (va_raw va)) m)"

text \<open>Reading collects the bytes stored at the destination pointer.\<close>

function copy_in_loop :: "usize \<Rightarrow> usize \<Rightarrow> nat \<Rightarrow> usize \<Rightarrow> kmem \<Rightarrow> u8 list \<Rightarrow> (unit + u8 list) kres" where
  "copy_in_loop pt src count va m acc =
     kbind (find_pa pt (VirtAddr va) m) (\<lambda>r.
       case r of
         Inl e \<Rightarrow> Done (Inl ())
       | Inr pa \<Rightarrow>
           kbind (usize_sub src va) (\<lambda>off. kbind (usize_sub PAGE_SIZE off) (\<lambda>off_from_end.
             if unat off_from_end > count
             then kbind (page_read (pa_raw pa) off count m) (\<lambda>bs. Done (Inr (acc @ bs)))
             else kbind (page_read (pa_raw pa) off (unat off_from_end) m) (\<lambda>bs.
                  kbind (usize_add src off_from_end) (\<lambda>src'.
                  kbind (addr_add_page va) (\<lambda>va'.
                    if src' \<noteq> va' then Panicked ''assertion failed: src == va''
                    else copy_in_loop pt src' (count - unat off_from_end) va' m (acc @ bs)))))))"
  by pat_completeness auto
termination
  by (relation "measure (\<lambda>(pt, src, count, va, m, acc). 2 ^ 64 - unat va)")
    (auto simp: addr_add_page_def kres_simps unat_plus_no_overflow layout_defs)

declare copy_in_loop.simps [simp del]

definition copy_in :: "usize \<Rightarrow> usize \<Rightarrow> nat \<Rightarrow> kmem \<Rightarrow> (unit + u8 list) kres" where
  "copy_in pt src count m =
     (case virt_try_from src of
        Inl e \<Rightarrow> Panicked e
      | Inr v \<Rightarrow>
          let va = addr_pg_round_down (va_raw v)
          in if count = 0
             then kbind (find_pa pt (VirtAddr va) m) (\<lambda>r. Done (case r of Inr pa \<Rightarrow> Inr [] | Inl e \<Rightarrow> Inl ()))
             else copy_in_loop pt src count va m [])"

text \<open>
  \<^verbatim>\<open>copy_in_str\<close> copies up to and including a zero byte into \<^verbatim>\<open>dst\<close>: the inner loop over the bytes
  of one page, then the outer loop over pages. \<open>Inl e\<close> is the error, \<^verbatim>\<open>dst\<close> is returned in
  either case.
\<close>

fun str_bytes :: "u8 list \<Rightarrow> nat \<Rightarrow> u8 list \<Rightarrow> bool \<times> nat \<times> u8 list" where
  "str_bytes [] i dst = (False, i, dst)"
| "str_bytes (b # bs) i dst =
     (if b = 0 then (True, i, dst[i := b]) else str_bytes bs (Suc i) (dst[i := b]))"

function copy_in_str_loop :: "usize \<Rightarrow> usize \<Rightarrow> nat \<Rightarrow> u8 list \<Rightarrow> kmem \<Rightarrow> ((string + unit) \<times> u8 list) kres" where
  "copy_in_str_loop pt va i dst m =
     (if i < length dst
      then let base = addr_pg_round_down va
           in kbind (usize_sub va base) (\<lambda>distance.
              kbind (find_pa pt (VirtAddr base) m) (\<lambda>r.
                case r of
                  Inl e \<Rightarrow> Done (Inl e, dst)
                | Inr pa \<Rightarrow>
                    let count = min (4096 - unat distance) (length dst - i)
                    in kbind (page_read (pa_raw pa) distance count m) (\<lambda>bs.
                       case str_bytes bs i dst of
                         (True, i', dst') \<Rightarrow> Done (Inr (), dst')
                       | (False, i', dst') \<Rightarrow>
                           kbind (addr_add_page base) (\<lambda>va'. copy_in_str_loop pt va' i' dst' m))))
      else Done (Inl ''copy_in_str: dst not enough space'', dst))"
  by pat_completeness auto
termination
proof (relation "measure (\<lambda>(pt, va, i, dst, m). 2 ^ 64 - unat va)"; clarsimp)
  fix va va' :: usize
  assume "addr_add_page (pg_round_down va) = Done va'"
  then have "unat va' = unat va div 4096 * 4096 + 4096"
    by (auto simp: addr_add_page_def kres_simps unat_plus_no_overflow unat_pg_round_down)
  moreover have "unat va < unat va div 4096 * 4096 + 4096"
    using div_mult_mod_eq [of "unat va" 4096] mod_less_divisor [of 4096 "unat va"] by linarith
  ultimately show "18446744073709551616 - unat va' < 18446744073709551616 - unat va"
    using unat_usize_bound [of va] by simp
qed

declare copy_in_str_loop.simps [simp del]

definition copy_in_str :: "usize \<Rightarrow> usize \<Rightarrow> u8 list \<Rightarrow> kmem \<Rightarrow> ((string + unit) \<times> u8 list) kres" where
  "copy_in_str pt srcva dst m =
     (case virt_try_from srcva of
        Inl e \<Rightarrow> Done (Inl e, dst)
      | Inr va \<Rightarrow> copy_in_str_loop pt (va_raw va) 0 dst m)"

section \<open>Releasing tables\<close>

text \<open>
  Dropping a page table frees the tables below its entries, recursively, and clears the
  entries; dropping the box then frees the page. \<open>fuel\<close> bounds the depth; the tables of an
  Sv39 page table have depth three.
\<close>

fun drop_table :: "nat \<Rightarrow> bit_field \<Rightarrow> usize \<Rightarrow> kmem \<Rightarrow> kmem kres" where
  "drop_table 0 bf pt m = Panicked ''no fuel''"
| "drop_table (Suc fuel) bf pt m =
     kfold (\<lambda>m i.
       kbind (tbl_get m pt (of_nat i)) (\<lambda>d.
         if pte_is_valid d \<and> \<not> pte_is_leaf d
         then kbind (drop_table fuel bf (as_page_table d) m) (\<lambda>m1.
              kbind (page_free bf (as_page_table d) m1) (tbl_set pt (of_nat i) 0))
         else Done m))
       m [0..<512]"

definition drop_box :: "bit_field \<Rightarrow> usize \<Rightarrow> kmem \<Rightarrow> kmem kres" where
  "drop_box bf pt m = kbind (drop_table 3 bf pt m) (page_free bf pt)"

section \<open>The page table of a process\<close>

text \<open>
  \<open>trampoline\<close> is the address of the trampoline code, from the linker. An early return
  drops the new table.
\<close>

definition map_or_drop :: "bit_field \<Rightarrow> usize \<Rightarrow> usize \<Rightarrow> phys_addr \<Rightarrow> usize \<Rightarrow> kmem \<Rightarrow>
    (kmem \<Rightarrow> (usize option \<times> kmem) kres) \<Rightarrow> (usize option \<times> kmem) kres" where
  "map_or_drop bf pt va pa perm m k =
     kbind (map_pages bf pt (VirtAddr va) PAGE_SIZE pa perm m) (\<lambda>(s, m1).
       case s of
         Inl e \<Rightarrow> kbind (drop_box bf pt m1) (\<lambda>m2. Done (None, m2))
       | Inr u \<Rightarrow> k m1)"

definition unwrap_pa :: "usize \<Rightarrow> phys_addr kres" where
  "unwrap_pa a = (case phys_try_from a of Inl e \<Rightarrow> Panicked e | Inr pa \<Rightarrow> Done pa)"

definition alloc_proc_pagetable :: "bit_field \<Rightarrow> usize \<Rightarrow> usize \<Rightarrow> usize \<Rightarrow> nat \<Rightarrow> kmem \<Rightarrow> (usize option \<times> kmem) kres" where
  "alloc_proc_pagetable bf trampoline trapframe usyspage pid m =
     kbind (page_try_new bf zero_table m) (\<lambda>(r, m1).
       case r of
         None \<Rightarrow> Done (None, m1)
       | Some pt \<Rightarrow>
           kbind (unwrap_pa trampoline) (\<lambda>tr.
           map_or_drop bf pt TRAMPOLINE tr (PTE_R OR PTE_X) m1 (\<lambda>m2.
           kbind (trapframe_from_pid pid) (\<lambda>tfva.
           kbind (unwrap_pa trapframe) (\<lambda>tf.
           map_or_drop bf pt tfva tf (PTE_R OR PTE_W) m2 (\<lambda>m3.
           kbind (unwrap_pa usyspage) (\<lambda>us.
           map_or_drop bf pt USYSCALL us (PTE_R OR PTE_U) m3 (\<lambda>m4. Done (Some pt, m4)))))))))"

definition dealloc_proc_pagetable :: "bit_field \<Rightarrow> usize \<Rightarrow> usize \<Rightarrow> nat \<Rightarrow> kmem \<Rightarrow> kmem kres" where
  "dealloc_proc_pagetable bf pt proc_size pid m =
     kbind (uvm_unmap bf pt TRAMPOLINE 1 False m) (\<lambda>m1.
     kbind (trapframe_from_pid pid) (\<lambda>tfva.
     kbind (uvm_unmap bf pt tfva 1 False m1) (\<lambda>m2.
     kbind (uvm_unmap bf pt USYSCALL 1 False m2) (\<lambda>m3.
       if proc_size > 0
       then kbind (pg_round_up proc_size) (\<lambda>s. uvm_unmap bf pt 0 (s div PAGE_SIZE) True m3)
       else Done m3))))"

end
