(* ===== verification/UserCopy.thy ===== *)
theory UserCopy
  imports UserVm
begin

text \<open>
  Copies between the kernel and user memory. User memory is the partial function \<open>ubyte\<close> from
  virtual addresses to bytes: defined where the page is mapped for the user.
\<close>

section \<open>User memory\<close>

definition ubyte :: "kmem \<Rightarrow> usize \<Rightarrow> nat \<Rightarrow> u8 option" where
  "ubyte m pt v =
     (case user_page m pt (v div 4096) of
        None \<Rightarrow> None
      | Some a \<Rightarrow> (case km_store m a of Some (Bytes bs) \<Rightarrow> Some (bs ! (v mod 4096)) | _ \<Rightarrow> None))"

text \<open>User pages are live byte pages, and no two virtual pages share one.\<close>

definition user_inv :: "kmem \<Rightarrow> usize \<Rightarrow> bool" where
  "user_inv m pt \<longleftrightarrow>
     (\<forall>n a. n < 2 ^ 27 \<and> user_page m pt n = Some a \<longrightarrow> (\<exists>bs. km_store m a = Some (Bytes bs))) \<and>
     (\<forall>n n' a. n < 2 ^ 27 \<and> n' < 2 ^ 27 \<and> user_page m pt n = Some a \<and> user_page m pt n' = Some a \<longrightarrow> n = n')"

definition mapped :: "kmem \<Rightarrow> usize \<Rightarrow> nat \<Rightarrow> nat \<Rightarrow> bool" where
  "mapped m pt v l \<longleftrightarrow> (\<forall>n \<in> {v div 4096..(v + l) div 4096}. user_page m pt n \<noteq> None)"

definition ubytes :: "kmem \<Rightarrow> usize \<Rightarrow> nat \<Rightarrow> nat \<Rightarrow> u8 list" where
  "ubytes m pt v l = map (\<lambda>k. the (ubyte m pt (v + k))) [0..<l]"

lemma user_page_bytes:
  assumes "kmem_inv bf m" and "user_inv m pt" and "n < 2 ^ 27" and "user_page m pt n = Some a"
  obtains bs where "km_store m a = Some (Bytes bs)" "length bs = 4096"
proof -
  obtain bs where bs: "km_store m a = Some (Bytes bs)" using assms(2-4) unfolding user_inv_def by blast
  then have "length bs = 4096" using store_page_wf [OF assms(1) bs] by (simp add: page_wf_def)
  with bs show thesis by (rule that)
qed

text \<open>Page and offset of an address.\<close>

lemma page_off: "(off :: nat) < 4096 \<Longrightarrow> (4096 * n + off) div 4096 = n \<and> (4096 * n + off) mod 4096 = off"
  by simp

lemma ubytes_page:
  assumes "user_page m pt n = Some a" and "km_store m a = Some (Bytes bs)" and "off + l \<le> 4096" and "length bs = 4096"
  shows "take l (drop off bs) = ubytes m pt (4096 * n + off) l"
proof (rule nth_equalityI)
  fix k assume "k < length (take l (drop off bs))"
  then have k: "k < l" "off + k < 4096" using assms(3) by simp_all
  then have "(4096 * n + off + k) div 4096 = n" "(4096 * n + off + k) mod 4096 = off + k"
    using page_off [of "off + k" n] by (simp_all add: ac_simps)
  then show "take l (drop off bs) ! k = ubytes m pt (4096 * n + off) l ! k"
    using k assms by (simp add: ubytes_def ubyte_def)
qed (use assms in \<open>simp add: ubytes_def\<close>)

lemma ubytes_append: "ubytes m pt v (l + l') = ubytes m pt v l @ ubytes m pt (v + l) l'"
proof -
  have "[l..<l + l'] = map (\<lambda>k. l + k) [0..<l']" using map_add_upt [of l l'] by (simp only: add.commute)
  then have "[0..<l + l'] = [0..<l] @ map (\<lambda>k. l + k) [0..<l']" using upt_add_eq_append [of 0 l l'] by simp
  then show ?thesis unfolding ubytes_def by (simp add: comp_def add.assoc)
qed

text \<open>One page at a time: what is mapped of a range that reaches beyond the first page.\<close>

lemma mapped_page:
  assumes "off < 4096" and "l < 4096 - off"
  shows "mapped m pt (4096 * n + off) l \<longleftrightarrow> user_page m pt n \<noteq> None"
proof -
  have "(4096 * n + off + l) div 4096 = n" "(4096 * n + off) div 4096 = n"
    using page_off [of "off + l" n] page_off [of off n] assms by (simp_all add: ac_simps)
  then show ?thesis by (simp add: mapped_def)
qed

lemma mapped_next:
  assumes "off < 4096" and "4096 - off \<le> l"
  shows "mapped m pt (4096 * n + off) l \<longleftrightarrow>
     user_page m pt n \<noteq> None \<and> mapped m pt (4096 * Suc n) (l - (4096 - off))"
proof -
  have e: "4096 * n + off + l = 4096 * Suc n + (l - (4096 - off))" using assms by simp
  have "(4096 * n + off) div 4096 = n" "(4096 * Suc n) div 4096 = Suc n" using assms by simp_all
  moreover have "Suc n \<le> (4096 * Suc n + (l - (4096 - off))) div 4096" by simp
  ultimately show ?thesis
    unfolding mapped_def e by (simp only: atLeastAtMost_insertL [symmetric]) (auto simp: Suc_le_eq)
qed

section \<open>Reading\<close>

lemma off_arith:
  assumes "unat va = 4096 * n" and "unat src = 4096 * n + off" and "off < 4096"
  shows "usize_sub src va = Done (src - va)" "unat (src - va) = off"
    "usize_sub PAGE_SIZE (src - va) = Done (PAGE_SIZE - (src - va))" "unat (PAGE_SIZE - (src - va)) = 4096 - off"
proof -
  have le: "va \<le> src" using assms by (simp add: word_le_nat_alt)
  then show "usize_sub src va = Done (src - va)" by (simp add: usize_sub_def)
  show u: "unat (src - va) = off" using le assms by (simp add: unat_sub)
  then have "src - va \<le> PAGE_SIZE" using assms(3) by (simp add: word_le_nat_alt)
  then show "usize_sub PAGE_SIZE (src - va) = Done (PAGE_SIZE - (src - va))" "unat (PAGE_SIZE - (src - va)) = 4096 - off"
    using u by (simp_all add: usize_sub_def unat_sub)
qed

lemma next_page_arith:
  assumes "unat va = 4096 * n" and "unat src = 4096 * n + off" and "off < 4096" and "n < 2 ^ 50"
  shows "usize_add src (PAGE_SIZE - (src - va)) = Done (va + PAGE_SIZE)" "addr_add_page va = Done (va + PAGE_SIZE)"
    "unat (va + PAGE_SIZE) = 4096 * Suc n"
proof -
  note o = off_arith [OF assms(1-3)]
  show "addr_add_page va = Done (va + PAGE_SIZE)" "unat (va + PAGE_SIZE) = 4096 * Suc n"
    using assms(1,4) unat_plus_no_overflow [of va PAGE_SIZE] by (simp_all add: addr_add_page_def usize_add_def)
  show "usize_add src (PAGE_SIZE - (src - va)) = Done (va + PAGE_SIZE)"
    using o(4) assms by (simp add: usize_add_def)
qed

lemma copy_in_loop_spec:
  assumes inv: "kmem_inv bf m" "pt_inv m pt" "user_inv m pt"
    and "unat va = 4096 * n" and "unat src = 4096 * n + off" and "off < 4096" and "unat src + count \<le> 2 ^ 38"
  shows "copy_in_loop pt src count va m acc =
           Done (if mapped m pt (unat src) count then Inr (acc @ ubytes m pt (unat src) count) else Inl ())"
  using assms(4-)
proof (induction count arbitrary: va n src off acc rule: less_induct)
  case (less count)
  note o = off_arith [OF less.prems(1-3)]
  have n: "unat va div 4096 = n" "n < 2 ^ 27" using less.prems by simp_all
  obtain e where e: "find_pa pt (VirtAddr va) m = Done (case user_page m pt n of None \<Rightarrow> Inl e | Some a \<Rightarrow> Inr (PhysAddr a))"
    using find_pa_spec(1) [OF inv(1,2), of va] n(1) by auto
  show ?case
  proof (cases "user_page m pt n")
    case None
    then have "\<not> mapped m pt (unat src) count" using less.prems(2,3) unfolding mapped_def by auto
    then show ?thesis using None e by (simp add: copy_in_loop.simps [of pt src])
  next
    case (Some a)
    obtain bs where bs: "km_store m a = Some (Bytes bs)" "length bs = 4096"
      using user_page_bytes [OF inv(1,3) n(2) Some] .
    have rd: "page_read a (src - va) l m = Done (ubytes m pt (unat src) l)" if "off + l \<le> 4096" for l
      using ubytes_page [OF Some bs(1) that bs(2)] that bs o(2) less.prems(2) by (simp add: page_read_def)
    show ?thesis
    proof (cases "count < 4096 - off")
      case True
      then show ?thesis
        using mapped_page [OF less.prems(3) True] rd [of count] less.prems(2) Some e o
        by (simp add: copy_in_loop.simps [of pt src])
    next
      case False
      let ?r = "count - (4096 - off)" and ?va = "va + PAGE_SIZE"
      note np = next_page_arith [OF less.prems(1-3)]
      have va': "unat ?va = 4096 * Suc n" using np(3) n(2) by simp
      have IH: "copy_in_loop pt ?va ?r ?va m (acc @ ubytes m pt (unat src) (4096 - off)) =
          Done (if mapped m pt (unat ?va) ?r
            then Inr ((acc @ ubytes m pt (unat src) (4096 - off)) @ ubytes m pt (unat ?va) ?r) else Inl ())"
        using less.prems False va' by (intro less.IH [where n = "Suc n" and off = 0]) auto
      have "mapped m pt (unat src) count \<longleftrightarrow> mapped m pt (unat ?va) ?r"
        using mapped_next [OF less.prems(3), of count m pt n] False less.prems(2) va' Some by simp
      moreover have "ubytes m pt (unat src) count = ubytes m pt (unat src) (4096 - off) @ ubytes m pt (unat ?va) ?r"
        using ubytes_append [of m pt "unat src" "4096 - off" ?r] False less.prems(2,3) va' by (simp add: ac_simps)
      moreover have "copy_in_loop pt src count va m acc =
          copy_in_loop pt ?va ?r ?va m (acc @ ubytes m pt (unat src) (4096 - off))"
        using False rd [of "4096 - off"] less.prems(3) Some e o np n(2) by (simp add: copy_in_loop.simps [of pt src])
      ultimately show ?thesis using IH by simp
    qed
  qed
qed

lemma copy_in_spec:
  assumes "kmem_inv bf m" "pt_inv m pt" "user_inv m pt" and "unat src + count \<le> unat MAXVA"
  shows "copy_in pt src count m =
           Done (if mapped m pt (unat src) count then Inr (ubytes m pt (unat src) count) else Inl ())"
proof -
  have mx: "unat MAXVA = 2 ^ 38" by (simp add: MAXVA_def)
  let ?va = "pg_round_down src" and ?n = "unat src div 4096" and ?o = "unat src mod 4096"
  have tr: "virt_try_from src = Inr (VirtAddr src)" using assms(4) by (simp add: virt_try_from_def word_less_nat_alt)
  have va: "unat ?va = 4096 * ?n" "unat src = 4096 * ?n + ?o" by (simp_all add: unat_pg_round_down)
  show ?thesis
  proof (cases "count = 0")
    case True
    have "mapped m pt (unat src) 0 \<longleftrightarrow> user_page m pt ?n \<noteq> None" by (simp add: mapped_def)
    then show ?thesis
      using True tr find_pa_spec(1) [OF assms(1,2), of ?va] va(1)
      by (auto simp: copy_in_def Let_def ubytes_def split: option.splits)
  next
    case False
    then show ?thesis
      using tr copy_in_loop_spec [OF assms(1-3) va, of count "[]"] assms(4) mx by (simp add: copy_in_def Let_def)
  qed
qed

section \<open>Writing\<close>

text \<open>The memory after the bytes \<open>src\<close> have been stored at the user address \<open>v\<close>.\<close>

definition wrote :: "bit_field \<Rightarrow> kmem \<Rightarrow> kmem \<Rightarrow> usize \<Rightarrow> nat \<Rightarrow> u8 list \<Rightarrow> bool" where
  "wrote bf m m' pt v src \<longleftrightarrow>
     kmem_inv bf m' \<and> pt_inv m' pt \<and> user_inv m' pt \<and> pte_pg m' pt = pte_pg m pt \<and> owned bf m' = owned bf m \<and>
     (\<forall>u < 2 ^ 39. ubyte m' pt u = (if v \<le> u \<and> u < v + length src then Some (src ! (u - v)) else ubyte m pt u)) \<and>
     (\<forall>a. (\<forall>n < 2 ^ 27. user_page m pt n \<noteq> Some a) \<longrightarrow> km_store m' a = km_store m a)"

lemma user_page_cong: "pte_pg m' pt = pte_pg m pt \<Longrightarrow> user_page m' pt = user_page m pt"
  by (simp add: user_page_def fun_eq_iff)

lemma wrote_trans:
  assumes "wrote bf m m1 pt v s1" and "wrote bf m1 m2 pt (v + length s1) s2"
  shows "wrote bf m m2 pt v (s1 @ s2)"
proof -
  have up: "user_page m1 pt = user_page m pt" using assms(1) user_page_cong unfolding wrote_def by blast
  have "ubyte m2 pt u = (if v \<le> u \<and> u < v + length (s1 @ s2) then Some ((s1 @ s2) ! (u - v)) else ubyte m pt u)"
    if "u < 2 ^ 39" for u
    using assms that unfolding wrote_def by (auto simp: nth_append)
  then show ?thesis using assms up unfolding wrote_def by simp
qed

context page_heap
begin

lemma page_write_spec:
  assumes inv: "kmem_inv bf m" "pt_inv m pt" "user_inv m pt" and n: "n < 2 ^ 27" "user_page m pt n = Some a"
    and off: "unat o' + length src \<le> 4096"
  shows "\<exists>m'. page_write a o' src m = Done m' \<and> wrote bf m m' pt (4096 * n + unat o') src"
proof -
  obtain bs where bs: "km_store m a = Some (Bytes bs)" "length bs = 4096"
    using user_page_bytes [OF inv(1,3) n] .
  define bs' where "bs' = take (unat o') bs @ src @ drop (unat o' + length src) bs"
  define m' where "m' = m\<lparr>km_store := (km_store m)(a \<mapsto> Bytes bs')\<rparr>"
  have l: "length bs' = 4096" using off bs(2) by (simp add: bs'_def)
  have it: "is_table m' = is_table m" using bs(1) by (auto simp: m'_def is_table_def fun_eq_iff)
  have "ent m' x k = ent m x k" for x k using bs(1) by (simp add: m'_def ent_def)
  note b = tables_cong [OF this it] and ow = owned_heap [of m' m bf]
  have up: "user_page m' pt = user_page m pt" by (rule user_page_cong) (simp add: b)
  have "page_write a o' src m = Done m'" using bs off by (simp add: page_write_def m'_def bs'_def)
  moreover have "kmem_inv bf m'" using inv(1) bs(1) l unfolding m'_def by (intro upd_law) (simp_all add: page_wf_def)
  moreover have "user_inv m' pt" using inv(3) unfolding user_inv_def up by (simp add: m'_def)
  moreover have "ubyte m' pt u = (if 4096 * n + unat o' \<le> u \<and> u < 4096 * n + unat o' + length src
      then Some (src ! (u - (4096 * n + unat o'))) else ubyte m pt u)" if u: "u < 2 ^ 39" for u
  proof -
    have dm: "u = 4096 * (u div 4096) + u mod 4096" "u mod 4096 < 4096" by simp_all
    show ?thesis
    proof (cases "u div 4096 = n")
      case True
      have "bs' ! (u mod 4096) = (if unat o' \<le> u mod 4096 \<and> u mod 4096 < unat o' + length src
          then src ! (u mod 4096 - unat o') else bs ! (u mod 4096))"
        using off bs(2) dm(2) by (auto simp: bs'_def nth_append)
      moreover have "4096 * n + unat o' \<le> u \<longleftrightarrow> unat o' \<le> u mod 4096"
        "u < 4096 * n + unat o' + length src \<longleftrightarrow> u mod 4096 < unat o' + length src"
        "u - (4096 * n + unat o') = u mod 4096 - unat o'" using dm(1) [unfolded True] by linarith+
      ultimately show ?thesis using True n(2) bs(1) by (simp add: ubyte_def up) (simp add: m'_def)
    next
      case False
      have "u < 4096 * n \<or> 4096 * n + 4096 \<le> u" using False dm by linarith
      then have "\<not> (4096 * n + unat o' \<le> u \<and> u < 4096 * n + unat o' + length src)" using off by auto
      moreover have "u div 4096 < 2 ^ 27" using u by (simp add: less_mult_imp_div_less)
      then have "user_page m pt (u div 4096) \<noteq> Some a" using inv(3) n False unfolding user_inv_def by blast
      then have "ubyte m' pt u = ubyte m pt u"
        unfolding ubyte_def up by (cases "user_page m pt (u div 4096)") (auto simp: m'_def)
      ultimately show ?thesis by presburger
    qed
  qed
  moreover have "km_store m' x = km_store m x" if "\<forall>n < 2 ^ 27. user_page m pt n \<noteq> Some x" for x
    using that n by (auto simp: m'_def)
  ultimately show ?thesis using inv(2) b ow unfolding wrote_def by (auto simp: m'_def)
qed

lemma copy_out_loop_spec:
  assumes "kmem_inv bf m" "pt_inv m pt" "user_inv m pt"
    and "unat va = 4096 * n" and "unat dst = 4096 * n + off" and "off < 4096" and "unat dst + length src \<le> 2 ^ 38"
  shows "if mapped m pt (unat dst) (length src)
         then \<exists>m'. copy_out_loop pt src dst va m = Done (Inr (), m') \<and> wrote bf m m' pt (unat dst) src
         else copy_out_loop pt src dst va m = Panicked ''no map''"
  using assms
proof (induction "length src" arbitrary: m va n dst off src rule: less_induct)
  case less
  note inv = less.prems(1-3) and o = off_arith [OF less.prems(4-6)]
  have n: "unat va div 4096 = n" "n < 2 ^ 27" using less.prems by simp_all
  obtain e where e: "find_pa_mut pt (VirtAddr va) m = Done (case user_page m pt n of None \<Rightarrow> Inl e | Some a \<Rightarrow> Inr (PhysAddr a))"
    using find_pa_spec [OF inv(1,2), of va] n(1) by auto
  show ?case
  proof (cases "user_page m pt n")
    case None
    then have "\<not> mapped m pt (unat dst) (length src)" using less.prems(5,6) unfolding mapped_def by auto
    then show ?thesis using None e by (simp add: copy_out_loop.simps [of pt src])
  next
    case (Some a)
    show ?thesis
    proof (cases "length src < 4096 - off")
      case True
      have "unat (dst - va) + length src \<le> 4096" using True o(2) by simp
      from page_write_spec [OF inv n(2) Some this] o(2) less.prems(5)
      obtain m' where m': "page_write a (dst - va) src m = Done m'" "wrote bf m m' pt (unat dst) src" by auto
      then have "copy_out_loop pt src dst va m = Done (Inr (), m')"
        using True Some e o by (simp add: copy_out_loop.simps [of pt src])
      then show ?thesis using m'(2) mapped_page [OF less.prems(6) True, of m pt n] less.prems(5) Some by simp
    next
      case False
      let ?s1 = "take (4096 - off) src" and ?s2 = "drop (4096 - off) src" and ?va = "va + PAGE_SIZE"
      note np = next_page_arith [OF less.prems(4-6)]
      have va': "unat ?va = 4096 * Suc n" using np(3) n(2) by simp
      have l1: "length ?s1 = 4096 - off" using False by simp
      have "unat (dst - va) + length ?s1 \<le> 4096" using l1 o(2) less.prems(6) by simp
      from page_write_spec [OF inv n(2) Some this] o(2) less.prems(5)
      obtain m1 where m1: "page_write a (dst - va) ?s1 m = Done m1" "wrote bf m m1 pt (unat dst) ?s1" by auto
      have i1: "kmem_inv bf m1" "pt_inv m1 pt" "user_inv m1 pt" and pg: "pte_pg m1 pt = pte_pg m pt"
        using m1(2) by (simp_all add: wrote_def)
      have mp: "mapped m1 pt = mapped m pt" by (simp add: mapped_def fun_eq_iff user_page_cong [OF pg])
      have IH: "if mapped m pt (unat ?va) (length ?s2)
         then \<exists>m'. copy_out_loop pt ?s2 ?va ?va m1 = Done (Inr (), m') \<and> wrote bf m1 m' pt (unat ?va) ?s2
         else copy_out_loop pt ?s2 ?va ?va m1 = Panicked ''no map''"
        using less.prems(5-7) False va'
        unfolding mp [symmetric] by (intro less.hyps [OF _ i1, where n = "Suc n" and off = 0]) auto
      have eq: "copy_out_loop pt src dst va m = copy_out_loop pt ?s2 ?va ?va m1"
        using False Some e o np n(2) m1(1) by (simp add: copy_out_loop.simps [of pt src])
      have "mapped m pt (unat dst) (length src) \<longleftrightarrow> mapped m pt (unat ?va) (length ?s2)"
        using mapped_next [OF less.prems(6), of "length src" m pt n] False less.prems(5) va' Some by simp
      moreover have "unat ?va = unat dst + length ?s1" using va' l1 less.prems(5,6) by simp
      ultimately show ?thesis
        using IH eq wrote_trans [OF m1(2), of _ ?s2] by (auto split: if_splits)
    qed
  qed
qed

lemma copy_out_spec:
  assumes inv: "kmem_inv bf m" "pt_inv m pt" "user_inv m pt" and "unat dst + length src \<le> unat MAXVA" and "src \<noteq> []"
  shows "if mapped m pt (unat dst) (length src)
         then \<exists>m'. copy_out pt src dst m = Done (Inr (), m') \<and> wrote bf m m' pt (unat dst) src
         else copy_out pt src dst m = Panicked ''no map''"
proof -
  have mx: "unat MAXVA = 2 ^ 38" by (simp add: MAXVA_def)
  have tr: "virt_try_from dst = Inr (VirtAddr dst)" using assms(4) by (simp add: virt_try_from_def word_less_nat_alt)
  have va: "unat (pg_round_down dst) = 4096 * (unat dst div 4096)" "unat dst = 4096 * (unat dst div 4096) + unat dst mod 4096"
    by (simp_all add: unat_pg_round_down)
  show ?thesis using copy_out_loop_spec [OF inv va] tr assms(4,5) mx by (simp add: copy_out_def)
qed

end

end
