(* ===== verification/UserSpace.thy ===== *)
theory UserSpace
  imports UserCopy
begin

text \<open>
  Allocating, releasing and duplicating user memory.
\<close>

section \<open>Unmapping a range\<close>

definition leaf_ok :: "bit_field \<Rightarrow> kmem \<Rightarrow> bool \<Rightarrow> usize \<Rightarrow> bool" where
  "leaf_ok bf m freeing d \<longleftrightarrow>
     pte_is_leaf d \<and>
     (freeing \<longrightarrow> as_page_table d \<in> owned bf m \<and> (\<exists>bs. km_store m (as_page_table d) = Some (Bytes bs)))"

text \<open>The mapped pages of a range can be unmapped: leaves and, to be freed, distinct pages of the heap.\<close>

definition range_owned :: "bit_field \<Rightarrow> kmem \<Rightarrow> usize \<Rightarrow> bool \<Rightarrow> nat \<Rightarrow> nat \<Rightarrow> bool" where
  "range_owned bf m pt freeing n c \<longleftrightarrow>
     (\<forall>k. n \<le> k \<and> k < n + c \<and> pte_is_valid (pte_pg m pt k) \<longrightarrow> leaf_ok bf m freeing (pte_pg m pt k)) \<and>
     (freeing \<longrightarrow> inj_on (\<lambda>k. as_page_table (pte_pg m pt k)) {k. n \<le> k \<and> k < n + c \<and> pte_is_valid (pte_pg m pt k)})"

definition range_pages :: "kmem \<Rightarrow> usize \<Rightarrow> nat \<Rightarrow> nat \<Rightarrow> usize set" where
  "range_pages m pt n j = (\<lambda>k. as_page_table (pte_pg m pt k)) ` {n..<n + j}"

definition range_unmapped :: "bit_field \<Rightarrow> kmem \<Rightarrow> kmem \<Rightarrow> usize \<Rightarrow> nat \<Rightarrow> nat \<Rightarrow> bool \<Rightarrow> bool" where
  "range_unmapped bf m m' pt n j freeing \<longleftrightarrow>
     kmem_inv bf m' \<and> pt_inv m' pt \<and> tables m' pt = tables m pt \<and>
     (\<forall>k < 2 ^ 27. pte_pg m' pt k = (if n \<le> k \<and> k < n + j then 0 else pte_pg m pt k)) \<and>
     owned bf m' = owned bf m - (if freeing then range_pages m pt n j else {}) \<and>
     (\<forall>a. a \<notin> tables m pt \<longrightarrow>
        km_store m' a = (if freeing \<and> a \<in> range_pages m pt n j then None else km_store m a))"

lemma range_pages_Suc: "range_pages m pt n (Suc j) = insert (as_page_table (pte_pg m pt n)) (range_pages m pt (Suc n) j)"
proof -
  have "{n..<n + Suc j} = insert n {Suc n..<Suc n + j}" by auto
  then show ?thesis by (simp add: range_pages_def)
qed

lemma range_pages_1 [simp]: "range_pages m pt n (Suc 0) = {as_page_table (pte_pg m pt n)}"
  by (simp add: range_pages_def)

lemma bytes_no_table: "pt_inv m pt \<Longrightarrow> km_store m a = Some (Bytes bs) \<Longrightarrow> a \<notin> tables m pt"
  using pt_invD(1) unfolding tables_def is_table_def by fastforce

lemma range_pages_cong:
  assumes "\<And>k. n \<le> k \<Longrightarrow> k < n + j \<Longrightarrow> pte_pg m' pt k = pte_pg m pt k"
  shows "range_pages m' pt n j = range_pages m pt n j"
  unfolding range_pages_def using assms by (intro image_cong) auto

lemma page_steps_unat:
  assumes "unat a = 4096 * n" and "(unat b - unat a + 4095) div 4096 = c" and "n + c \<le> 2 ^ 27"
  shows "map unat (page_steps a b) = map (\<lambda>k. 4096 * k) [n..<n + c]"
proof -
  have "unat (a + of_nat (4096 * k)) = 4096 * (n + k)" if "k < c" for k
  proof -
    have u: "unat (of_nat (4096 * k) :: usize) = 4096 * k" using that assms(3) by (subst unat_of_nat) simp
    then show ?thesis using that assms(1,3) by (subst unat_plus_no_overflow) (simp_all add: u)
  qed
  then show ?thesis by (intro nth_equalityI) (simp_all add: page_steps_def assms(2))
qed

lemma unat_mult_no_overflow:
  fixes a b :: "'a::len word"
  assumes "unat a * unat b < 2 ^ LENGTH('a)"
  shows "unat (a * b) = unat a * unat b"
  using assms by (simp add: unat_word_ariths)

context page_heap
begin

text \<open>One page: its frame is freed if asked for, and its entry cleared.\<close>

lemma unmap_page:
  assumes inv: "kmem_inv bf m" "pt_inv m pt" and va: "unat va = 4096 * n" "n < 2 ^ 27" and t: "tbl m pt (va_path va) = Some t"
    and ok: "leaf_ok bf m freeing (pte_pg m pt n)"
  shows "\<exists>m1 m2. (if freeing then page_free bf (as_page_table (pte_pg m pt n)) m else Done m) = Done m1 \<and>
     tbl_set t (va_page_num (VirtAddr va) 0) 0 m1 = Done m2 \<and> range_unmapped bf m m2 pt n 1 freeing"
proof -
  let ?a = "as_page_table (pte_pg m pt n)"
  have n: "unat va div 4096 = n" "unat va < 2 ^ 39" using va by simp_all
  obtain m1 where m1: "(if freeing then page_free bf ?a m else Done m) = Done m1" "kmem_inv bf m1"
    "km_store m1 = (if freeing then (km_store m)(?a := None) else km_store m)"
    "owned bf m1 = owned bf m - (if freeing then {?a} else {})"
    using free_law [OF inv(1), of ?a] ok inv(1) by (cases freeing) (auto simp: leaf_ok_def)
  have nt: "\<not> is_table m ?a" if freeing using ok that by (auto simp: leaf_ok_def is_table_def)
  have e: "ent m1 x k = ent m x k" for x k
    using ok unfolding m1(3) by (cases freeing) (auto simp: ent_def m1(3) leaf_ok_def)
  have it: "is_table m1 = is_table m"
    using nt by (cases freeing) (auto simp: is_table_def m1(3) fun_eq_iff)
  note c = tables_cong [OF e it]
  obtain m2 where m2: "tbl_set t (va_page_num (VirtAddr va) 0) 0 m1 = Done m2" "pt_frame bf pt m1 m2"
    "tables m2 pt = tables m1 pt" "owned bf m2 = owned bf m1"
    "\<forall>x. x \<notin> tables m1 pt \<longrightarrow> km_store m2 x = km_store m1 x"
    "\<forall>k < 2 ^ 27. pte_pg m2 pt k = (if k = n then 0 else pte_pg m1 pt k)"
    using set_pte_spec [OF m1(2), of pt va t 0] inv(2) t n unfolding c by auto
  have rp: "range_pages m pt n 1 = {?a}" by (simp add: range_pages_def)
  have "range_unmapped bf m m2 pt n 1 freeing"
    unfolding range_unmapped_def rp
    using pt_frameD(1,2) [OF m2(2)] m2(3-6) m1(3,4) by (auto simp: c)
  then show ?thesis using m1(1) m2(1) by blast
qed

lemma range_unmapped_trans:
  assumes "range_unmapped bf m m1 pt n 1 freeing" and "range_unmapped bf m1 m2 pt (Suc n) j freeing" and "n + Suc j \<le> 2 ^ 27"
  shows "range_unmapped bf m m2 pt n (Suc j) freeing"
proof -
  have "range_pages m1 pt (Suc n) j = range_pages m pt (Suc n) j"
    using assms(1,3) by (intro range_pages_cong) (auto simp: range_unmapped_def)
  then show ?thesis
    using assms unfolding range_unmapped_def range_pages_Suc by auto
qed

lemma range_owned_step:
  assumes own: "range_owned bf m pt freeing n (Suc c)" and u: "range_unmapped bf m m1 pt n 1 freeing"
    and v: "pte_is_valid (pte_pg m pt n)" and pt: "pt_inv m pt" and "n + Suc c \<le> 2 ^ 27"
  shows "range_owned bf m1 pt freeing (Suc n) c"
proof -
  have eq: "pte_pg m1 pt k = pte_pg m pt k" if "Suc n \<le> k" "k < Suc n + c" for k
    using u that assms(5) by (simp add: range_unmapped_def)
  have "leaf_ok bf m1 freeing (pte_pg m pt k)"
    if k: "Suc n \<le> k" "k < Suc n + c" "pte_is_valid (pte_pg m pt k)" for k
  proof -
    have ok: "leaf_ok bf m freeing (pte_pg m pt k)" using own k by (simp add: range_owned_def)
    show ?thesis
    proof (cases freeing)
      case True
      have "as_page_table (pte_pg m pt k) \<noteq> as_page_table (pte_pg m pt n)"
        using own k v True inj_onD [of "\<lambda>k. as_page_table (pte_pg m pt k)" _ k n] by (fastforce simp: range_owned_def)
      moreover have "as_page_table (pte_pg m pt k) \<notin> tables m pt"
        using ok True bytes_no_table [OF pt] by (auto simp: leaf_ok_def)
      ultimately show ?thesis using ok u True by (auto simp: leaf_ok_def range_unmapped_def)
    qed (use ok in \<open>simp add: leaf_ok_def\<close>)
  qed
  moreover have "inj_on (\<lambda>k. as_page_table (pte_pg m1 pt k)) {k. Suc n \<le> k \<and> k < Suc n + c \<and> pte_is_valid (pte_pg m1 pt k)}"
    if freeing
  proof (rule inj_onI)
    fix x y assume "x \<in> {k. Suc n \<le> k \<and> k < Suc n + c \<and> pte_is_valid (pte_pg m1 pt k)}"
      "y \<in> {k. Suc n \<le> k \<and> k < Suc n + c \<and> pte_is_valid (pte_pg m1 pt k)}"
      "as_page_table (pte_pg m1 pt x) = as_page_table (pte_pg m1 pt y)"
    then show "x = y" using own that eq [of x] eq [of y] unfolding range_owned_def inj_on_def by auto
  qed
  ultimately show ?thesis unfolding range_owned_def using eq by force
qed

lemma unmap_loop_spec:
  assumes "kmem_inv bf m" and "pt_inv m pt" and "range_owned bf m pt freeing n c" and "n + c \<le> 2 ^ 27"
    and "map unat vas = map (\<lambda>k. 4096 * k) [n..<n + c]"
  shows "\<exists>j m'. j \<le> c \<and> unmap_loop bf pt freeing vas m = Done m' \<and> range_unmapped bf m m' pt n j freeing \<and>
     (\<forall>k. n \<le> k \<and> k < n + j \<longrightarrow> pte_is_valid (pte_pg m pt k)) \<and>
     (j < c \<longrightarrow> \<not> pte_is_valid (pte_pg m pt (n + j)))"
  using assms
proof (induction c arbitrary: n m vas)
  case 0
  then show ?case by (auto simp: range_unmapped_def range_pages_def)
next
  case (Suc c)
  obtain va rest where vas: "vas = va # rest" "unat va = 4096 * n" "map unat rest = map (\<lambda>k. 4096 * k) [Suc n..<Suc n + c]"
    using Suc.prems(5) upt_conv_Cons [of n "n + Suc c"] by (cases vas) (simp_all del: upt_Suc)
  have n: "unat va div 4096 = n" "n < 2 ^ 27" using vas(2) Suc.prems(4) by simp_all
  have stop: ?case if "unmap_loop bf pt freeing vas m = Done m" "\<not> pte_is_valid (pte_pg m pt n)"
    using that Suc.prems(1,2) by (intro exI [of _ 0] exI [of _ m]) (auto simp: range_unmapped_def range_pages_def)
  show ?case
  proof (cases "tbl m pt (va_path va)")
    case None
    then have "\<not> pte_is_valid (pte_pg m pt n)" using pte_pg_va [of m pt va] n(1) by (simp add: pte_def)
    then show ?thesis using stop vas(1) None by (simp add: find_pte_mut_spec [OF Suc.prems(1,2)])
  next
    case (Some t)
    have it: "is_table m t" using pt_invD(1) [OF Suc.prems(2) _ Some] by simp
    have g: "tbl_get m t (va_page_num (VirtAddr va) 0) = Done (pte_pg m pt n)"
      using tbl_get_table [OF Suc.prems(1) it va_page_num_bound] pte_pg_va [of m pt va] Some n(1) by (simp add: pte_def)
    show ?thesis
    proof (cases "pte_is_valid (pte_pg m pt n)")
      case False
      then show ?thesis using stop vas(1) Some g by (simp add: find_pte_mut_spec [OF Suc.prems(1,2)])
    next
      case True
      then have ok: "leaf_ok bf m freeing (pte_pg m pt n)" using Suc.prems(3) by (simp add: range_owned_def)
      obtain m1 m2 where m2: "(if freeing then page_free bf (as_page_table (pte_pg m pt n)) m else Done m) = Done m1"
        "tbl_set t (va_page_num (VirtAddr va) 0) 0 m1 = Done m2" "range_unmapped bf m m2 pt n 1 freeing"
        using unmap_page [OF Suc.prems(1,2) vas(2) n(2) Some ok] by blast
      have i2: "kmem_inv bf m2" "pt_inv m2 pt" using m2(3) by (simp_all add: range_unmapped_def)
      obtain j m' where j: "j \<le> c" "unmap_loop bf pt freeing rest m2 = Done m'" "range_unmapped bf m2 m' pt (Suc n) j freeing"
        "\<forall>k. Suc n \<le> k \<and> k < Suc n + j \<longrightarrow> pte_is_valid (pte_pg m2 pt k)" "j < c \<longrightarrow> \<not> pte_is_valid (pte_pg m2 pt (Suc n + j))"
        using Suc.IH [OF i2 range_owned_step [OF Suc.prems(3) m2(3) True Suc.prems(2,4)] _ vas(3)] Suc.prems(4) by auto
      have "unmap_loop bf pt freeing vas m = Done m'"
        using vas(1) Some g True ok m2(1,2) j(2)
        by (simp add: find_pte_mut_spec [OF Suc.prems(1,2)] leaf_ok_def as_phys_addr_def as_page_table_def split: if_splits)
      moreover have "range_unmapped bf m m' pt n (Suc j) freeing"
        using range_unmapped_trans [OF m2(3) j(3)] j(1) Suc.prems(4) by simp
      moreover have eq: "pte_pg m2 pt k = pte_pg m pt k" if "Suc n \<le> k" "k < 2 ^ 27" for k
        using m2(3) that by (simp add: range_unmapped_def)
      moreover have "pte_is_valid (pte_pg m pt k)" if "n \<le> k" "k < n + Suc j" for k
      proof (cases "k = n")
        case False
        then have "Suc n \<le> k \<and> k < Suc n + j" using that by simp
        then show ?thesis using j(1,4) eq [of k] Suc.prems(4) by auto
      qed (use True in simp)
      moreover have "\<not> pte_is_valid (pte_pg m pt (n + Suc j))" if "j < c"
        using j(5) that eq [of "Suc n + j"] Suc.prems(4) by simp
      ultimately show ?thesis using j(1) by (intro exI [of _ "Suc j"] exI [of _ m']) simp
    qed
  qed
qed

lemma uvm_unmap_spec:
  assumes "kmem_inv bf m" and "pt_inv m pt" and "range_owned bf m pt freeing n c"
    and "unat va = 4096 * n" and "unat count = c" and "n + c \<le> 2 ^ 27"
  shows "\<exists>j m'. j \<le> c \<and> uvm_unmap bf pt va count freeing m = Done m' \<and> range_unmapped bf m m' pt n j freeing \<and>
     (\<forall>k. n \<le> k \<and> k < n + j \<longrightarrow> pte_is_valid (pte_pg m pt k)) \<and>
     (j < c \<longrightarrow> \<not> pte_is_valid (pte_pg m pt (n + j)))"
proof -
  have al: "va mod PAGE_SIZE = 0" using assms(4) by (simp add: page_aligned_mod)
  have mu: "usize_mul PAGE_SIZE count = Done (PAGE_SIZE * count)" "unat (PAGE_SIZE * count) = 4096 * c"
    using assms(5,6) unat_mult_no_overflow [of PAGE_SIZE count] by (simp_all add: usize_mul_def)
  have ad: "usize_add va (PAGE_SIZE * count) = Done (va + PAGE_SIZE * count)"
    "unat (va + PAGE_SIZE * count) = 4096 * (n + c)"
    using assms(4,6) mu(2) unat_plus_no_overflow [of va "PAGE_SIZE * count"] by (simp_all add: usize_add_def)
  have "map unat (page_steps va (va + PAGE_SIZE * count)) = map (\<lambda>k. 4096 * k) [n..<n + c]"
    using page_steps_unat [OF assms(4), of "va + PAGE_SIZE * count" c] ad(2) assms(4,6) by simp
  from unmap_loop_spec [OF assms(1-3,6) this] show ?thesis using al mu(1) ad(1) by (simp add: uvm_unmap_def)
qed

end

section \<open>Growing an address space\<close>

text \<open>
  \<open>pt_grow\<close> is what allocation may do to the rest of memory: existing pages other than this
  page table's own tables keep their contents, and what is new was not live before.
\<close>

definition pt_grow :: "bit_field \<Rightarrow> usize \<Rightarrow> kmem \<Rightarrow> kmem \<Rightarrow> bool" where
  "pt_grow bf pt m m' \<longleftrightarrow>
     kmem_inv bf m' \<and> pt_inv m' pt \<and> tables m pt \<subseteq> tables m' pt \<and> owned bf m \<subseteq> owned bf m' \<and>
     (\<forall>a \<in> tables m' pt - tables m pt. km_store m a = None) \<and>
     (\<forall>a c. a \<notin> tables m pt \<and> km_store m a = Some c \<longrightarrow> km_store m' a = Some c)"

lemma pt_grow_refl: "kmem_inv bf m \<Longrightarrow> pt_inv m pt \<Longrightarrow> pt_grow bf pt m m"
  by (simp add: pt_grow_def)

lemma pt_grow_trans:
  assumes "pt_grow bf pt m m1" and "pt_grow bf pt m1 m2"
  shows "pt_grow bf pt m m2"
proof -
  have "km_store m a = None" if "a \<in> tables m2 pt" "a \<notin> tables m pt" for a
  proof (cases "a \<in> tables m1 pt")
    case False
    then have "km_store m1 a = None" using assms(2) that(1) by (auto simp: pt_grow_def)
    then show ?thesis using assms(1) that(2) by (cases "km_store m a") (auto simp: pt_grow_def)
  qed (use assms(1) that in \<open>auto simp: pt_grow_def\<close>)
  moreover have "km_store m2 a = Some c" if "a \<notin> tables m pt" "km_store m a = Some c" for a c
  proof -
    have "a \<notin> tables m1 pt" using assms(1) that by (auto simp: pt_grow_def)
    then show ?thesis using assms that by (auto simp: pt_grow_def)
  qed
  ultimately show ?thesis using assms by (auto simp: pt_grow_def)
qed

lemma pt_frame_grow: "pt_frame bf pt m m' \<Longrightarrow> pt_grow bf pt m m'"
  by (auto simp: pt_frame_def pt_grow_def)

lemma new_page_tables:
  assumes "km_store m a = None" and "km_store m' = (km_store m)(a \<mapsto> Bytes bs)" and "pt_inv m pt"
  shows "pt_inv m' pt" "tables m' pt = tables m pt" "pte_pg m' pt = pte_pg m pt"
proof -
  have e: "ent m' x k = ent m x k" for x k using assms(1,2) by (simp add: ent_def)
  have i: "is_table m' = is_table m" using assms(1,2) by (auto simp: is_table_def fun_eq_iff)
  show "pt_inv m' pt" "tables m' pt = tables m pt" "pte_pg m' pt = pte_pg m pt"
    using tables_cong [OF e i] assms(3) by simp_all
qed

text \<open>The pages from the \<open>o\<close>-th to below the \<open>n\<close>-th have been given new frames with given contents and permissions.\<close>

definition fresh_map :: "bit_field \<Rightarrow> usize \<Rightarrow> kmem \<Rightarrow> kmem \<Rightarrow> nat \<Rightarrow> nat \<Rightarrow> (nat \<Rightarrow> usize) \<Rightarrow> (nat \<Rightarrow> u8 list) \<Rightarrow> bool" where
  "fresh_map bf pt m m' lo hi perm cont \<longleftrightarrow>
     pt_grow bf pt m m' \<and>
     (\<forall>k < 2 ^ 27. \<not> (lo \<le> k \<and> k < hi) \<longrightarrow> pte_pg m' pt k = pte_pg m pt k) \<and>
     (\<exists>f. inj_on f {lo..<hi} \<and>
        (\<forall>k. lo \<le> k \<and> k < hi \<longrightarrow>
           \<not> pte_is_valid (pte_pg m pt k) \<and> pte_pg m' pt k = pte_write_perm (PhysAddr (f k)) (perm k) \<and>
           page_addr (f k) \<and> f k \<in> owned bf m' \<and> f k \<notin> owned bf m \<and> km_store m (f k) = None \<and>
           km_store m' (f k) = Some (Bytes (cont k))))"

lemma fresh_map_empty: "kmem_inv bf m \<Longrightarrow> pt_inv m pt \<Longrightarrow> fresh_map bf pt m m lo lo perm cont"
  by (auto simp: fresh_map_def pt_grow_refl)

context page_heap
begin

text \<open>A new frame mapped at one more page, or no memory and nothing mapped.\<close>

lemma map_new_page:
  assumes fm: "fresh_map bf pt m0 m lo n perm cont" and "n < 2 ^ 26" and va: "unat va = 4096 * n"
    and c: "length (cont n) = 4096" and lo: "lo \<le> n"
  shows "page_try_new bf (Bytes (cont n)) m = Done (None, m) \<or>
     (\<exists>a m1 r m2. page_try_new bf (Bytes (cont n)) m = Done (Some a, m1) \<and>
        map_pages bf pt (VirtAddr va) PAGE_SIZE (PhysAddr a) (perm n) m1 = Done (r, m2) \<and>
        (case r of
           Inr u \<Rightarrow> fresh_map bf pt m0 m2 lo (Suc n) perm cont
         | Inl e \<Rightarrow> \<exists>m3. page_free bf a m2 = Done m3 \<and> fresh_map bf pt m0 m3 lo n perm cont))"
proof -
  have inv: "kmem_inv bf m" "pt_inv m pt" using fm by (simp_all add: fresh_map_def pt_grow_def)
  have wf: "page_wf (Bytes (cont n))" using c by (simp add: page_wf_def)
  from new_law [OF inv(1) wf] consider (none) "page_try_new bf (Bytes (cont n)) m = Done (None, m)"
    | (some) a m1 where "page_try_new bf (Bytes (cont n)) m = Done (Some a, m1)" "kmem_inv bf m1" "page_addr a"
      "km_store m a = None" "km_store m1 = (km_store m)(a \<mapsto> Bytes (cont n))" "a \<notin> owned bf m"
      "owned bf m1 = insert a (owned bf m)" by blast
  then show ?thesis
  proof cases
    case some
    note t1 = new_page_tables [OF some(4,5) inv(2)]
    have g1: "pt_grow bf pt m m1" using some t1 by (auto simp: pt_grow_def)
    have ab: "a \<le> PHYSTOP" using some(3) by (simp add: page_addr_def)
    then have pa: "unat a + 3 * 4096 \<le> 2 ^ 64" by (simp add: word_le_nat_alt heap_end_vals)
    have cnt: "unat va div 4096 = n" "(unat va + 4096 + 4095) div 4096 - n = 1" using va by simp_all
    obtain r m2 where m2: "map_pages bf pt (VirtAddr va) PAGE_SIZE (PhysAddr a) (perm n) m1 = Done (r, m2)"
      "pt_frame bf pt m1 m2" "map_outcome m1 m2 pt n 1 a (perm n) r"
      using map_pages_spec [OF some(2) t1(1), of va PAGE_SIZE a "perm n"] va assms(2) pa cnt
      by (auto simp: MAXVA_def)
    have g2: "pt_grow bf pt m m2" by (rule pt_grow_trans [OF g1 pt_frame_grow [OF m2(2)]])
    have an: "a \<notin> tables m1 pt" using bytes_no_table [OF t1(1)] some(5) by simp
    have sa: "km_store m2 a = Some (Bytes (cont n))"
      using pt_frameD(5) [OF m2(2) an] some(5) by simp
    have ao: "a \<in> owned bf m2" using pt_frameD(6) [OF m2(2)] some(7) by auto
    have g0: "pt_grow bf pt m0 m" using fm by (simp add: fresh_map_def)
    have anew: "a \<notin> owned bf m0" "km_store m0 a = None"
    proof -
      show "a \<notin> owned bf m0" using g0 some(6) by (auto simp: pt_grow_def)
      have "a \<notin> tables m0 pt" using an t1(2) g0 by (auto simp: pt_grow_def)
      then have "km_store m0 a = Some c' \<Longrightarrow> km_store m a = Some c'" for c' using g0 by (simp add: pt_grow_def)
      then show "km_store m0 a = None" using some(4) by (cases "km_store m0 a") simp_all
    qed
    obtain f where f: "inj_on f {lo..<n}" and fk: "\<forall>k. lo \<le> k \<and> k < n \<longrightarrow>
           \<not> pte_is_valid (pte_pg m0 pt k) \<and> pte_pg m pt k = pte_write_perm (PhysAddr (f k)) (perm k) \<and>
           page_addr (f k) \<and> f k \<in> owned bf m \<and> f k \<notin> owned bf m0 \<and> km_store m0 (f k) = None \<and>
           km_store m (f k) = Some (Bytes (cont k))"
      using fm by (auto simp: fresh_map_def)
    have fa: "f k \<noteq> a" "f k \<notin> tables m pt" if "lo \<le> k" "k < n" for k
      using fk that some(6) bytes_no_table [OF inv(2)] by auto
    have out: "pte_pg m pt k = pte_pg m0 pt k" if "k < 2 ^ 27" "\<not> (lo \<le> k \<and> k < n)" for k
      using fm that by (simp add: fresh_map_def)
    show ?thesis
    proof (cases r)
      case (Inr u)
      have rm: "\<forall>k < 2 ^ 27. pte_pg m2 pt k = (if k = n then pte_write_perm (PhysAddr a) (perm n) else pte_pg m pt k)"
        "\<not> pte_is_valid (pte_pg m pt n)"
        using m2(3) Inr by (auto simp: map_outcome_def range_mapped_def t1(3))
      have "fresh_map bf pt m0 m2 lo (Suc n) perm cont"
        unfolding fresh_map_def
      proof (intro conjI exI [of _ "f(n := a)"] allI impI)
        show "pt_grow bf pt m0 m2" by (rule pt_grow_trans [OF g0 g2])
        show "pte_pg m2 pt k = pte_pg m0 pt k" if "k < 2 ^ 27" "\<not> (lo \<le> k \<and> k < Suc n)" for k
          using rm(1) out [of k] that lo by auto
        have "a \<notin> f ` {lo..<n}" using fa(1) by force
        then show "inj_on (f(n := a)) {lo..<Suc n}" using f lo by (auto simp: inj_on_def less_Suc_eq image_iff)
        fix k assume k: "lo \<le> k \<and> k < Suc n"
        have kb: "k < 2 ^ 27" using k assms(2) by simp
        show "\<not> pte_is_valid (pte_pg m0 pt k)" "pte_pg m2 pt k = pte_write_perm (PhysAddr ((f(n := a)) k)) (perm k)"
          "page_addr ((f(n := a)) k)" "(f(n := a)) k \<in> owned bf m2" "(f(n := a)) k \<notin> owned bf m0"
          "km_store m0 ((f(n := a)) k) = None" "km_store m2 ((f(n := a)) k) = Some (Bytes (cont k))"
          using k kb rm out [of n] fk fa [of k] some(3) ao anew sa g2 by (auto simp: pt_grow_def less_Suc_eq)
      qed
      then show ?thesis using some(1) m2(1) Inr by auto
    next
      case (Inl e)
      have same: "\<forall>k < 2 ^ 27. pte_pg m2 pt k = pte_pg m pt k"
        using m2(3) Inl by (auto simp: map_outcome_def range_mapped_0 t1(3))
      have inv2: "kmem_inv bf m2" "pt_inv m2 pt" using g2 by (simp_all add: pt_grow_def)
      obtain m3 where m3: "page_free bf a m2 = Done m3" "kmem_inv bf m3" "km_store m3 = (km_store m2)(a := None)"
        "owned bf m3 = owned bf m2 - {a}" using free_law [OF inv2(1) ao] by blast
      have e: "ent m3 x k = ent m2 x k" for x k using sa m3(3) by (simp add: ent_def)
      have it: "is_table m3 = is_table m2" using sa m3(3) by (auto simp: is_table_def fun_eq_iff)
      note c3 = tables_cong [OF e it]
      have g3: "pt_grow bf pt m m3"
        using g2 m3 some(4,6) by (auto simp: pt_grow_def c3)
      have "fresh_map bf pt m0 m3 lo n perm cont"
        unfolding fresh_map_def
      proof (intro conjI exI [of _ f] allI impI)
        show "pt_grow bf pt m0 m3" by (rule pt_grow_trans [OF g0 g3])
        show "pte_pg m3 pt k = pte_pg m0 pt k" if "k < 2 ^ 27" "\<not> (lo \<le> k \<and> k < n)" for k
          using same out [of k] that by (simp add: c3)
        show "inj_on f {lo..<n}" by (rule f)
        fix k assume k: "lo \<le> k \<and> k < n"
        have kb: "k < 2 ^ 27" using k assms(2) by simp
        show "\<not> pte_is_valid (pte_pg m0 pt k)" "pte_pg m3 pt k = pte_write_perm (PhysAddr (f k)) (perm k)"
          "page_addr (f k)" "f k \<in> owned bf m3" "f k \<notin> owned bf m0"
          "km_store m0 (f k) = None" "km_store m3 (f k) = Some (Bytes (cont k))"
          using k kb same fk fa [of k] g3 by (auto simp: pt_grow_def c3)
      qed
      then show ?thesis using some(1) m2(1) Inl m3(1) by auto
    qed
  qed simp
qed

lemma fresh_map_owned:
  assumes fm: "fresh_map bf pt m0 m lo n perm cont" and p: "\<forall>k. lo \<le> k \<and> k < n \<longrightarrow> perm_ok (perm k) \<and> pte_is_leaf (perm k)"
  shows "range_owned bf m pt True lo (n - lo)"
    and "\<forall>k. lo \<le> k \<and> k < n \<longrightarrow> pte_is_valid (pte_pg m pt k)"
    and "\<forall>a \<in> range_pages m pt lo (n - lo). a \<notin> owned bf m0 \<and> km_store m0 a = None"
proof -
  obtain f where f: "inj_on f {lo..<n}" and fk: "\<forall>k. lo \<le> k \<and> k < n \<longrightarrow>
       pte_pg m pt k = pte_write_perm (PhysAddr (f k)) (perm k) \<and> page_addr (f k) \<and>
       f k \<in> owned bf m \<and> f k \<notin> owned bf m0 \<and> km_store m0 (f k) = None \<and> km_store m (f k) = Some (Bytes (cont k))"
    using fm by (auto simp: fresh_map_def)
  have e: "as_page_table (pte_pg m pt k) = f k" "pte_is_valid (pte_pg m pt k)" "pte_is_leaf (pte_pg m pt k)"
    if "lo \<le> k" "k < n" for k
  proof -
    have "unat (f k) mod 4096 = 0" "perm_ok (perm k)" "pte_is_leaf (perm k)" using fk p that by (simp_all add: page_addr_def)
    from pte_write_perm_facts [OF this(1,2)] this(3)
    show "as_page_table (pte_pg m pt k) = f k" "pte_is_valid (pte_pg m pt k)" "pte_is_leaf (pte_pg m pt k)"
      using fk that by (simp_all add: as_phys_addr_def as_page_table_def)
  qed
  then show "\<forall>k. lo \<le> k \<and> k < n \<longrightarrow> pte_is_valid (pte_pg m pt k)" by blast
  show "range_owned bf m pt True lo (n - lo)"
    using f fk e by (auto simp: range_owned_def leaf_ok_def inj_on_def)
  show "\<forall>a \<in> range_pages m pt lo (n - lo). a \<notin> owned bf m0 \<and> km_store m0 a = None"
    using fk e by (auto simp: range_pages_def)
qed

end

text \<open>The same pages are mapped, to the same frames.\<close>

definition same_map :: "usize \<Rightarrow> kmem \<Rightarrow> kmem \<Rightarrow> bool" where
  "same_map pt m m' \<longleftrightarrow>
     (\<forall>k < 2 ^ 27. pte_pg m' pt k = pte_pg m pt k \<or> \<not> pte_is_valid (pte_pg m pt k) \<and> \<not> pte_is_valid (pte_pg m' pt k))"

context page_heap
begin

text \<open>Releasing what was newly mapped brings the old map back.\<close>

lemma fresh_map_release:
  assumes fm: "fresh_map bf pt m0 m lo n perm cont" and p: "\<forall>k. lo \<le> k \<and> k < n \<longrightarrow> perm_ok (perm k) \<and> pte_is_leaf (perm k)"
    and n: "n \<le> 2 ^ 27" "lo \<le> n" and va: "unat va = 4096 * lo" "unat count = n - lo"
  shows "\<exists>m'. uvm_unmap bf pt va count True m = Done m' \<and> pt_grow bf pt m0 m' \<and> same_map pt m0 m'"
proof -
  note own = fresh_map_owned [OF fm p]
  have g: "pt_grow bf pt m0 m" using fm by (simp add: fresh_map_def)
  then have inv: "kmem_inv bf m" "pt_inv m pt" by (simp_all add: pt_grow_def)
  obtain j m' where j: "j \<le> n - lo" "uvm_unmap bf pt va count True m = Done m'" "range_unmapped bf m m' pt lo j True"
    "j < n - lo \<longrightarrow> \<not> pte_is_valid (pte_pg m pt (lo + j))"
    using uvm_unmap_spec [OF inv own(1) va] n by auto
  have "\<not> j < n - lo" using j(4) own(2) [rule_format, of "lo + j"] by auto
  then have jn: "j = n - lo" using j(1) by simp
  have u: "kmem_inv bf m'" "pt_inv m' pt" "tables m' pt = tables m pt"
    "owned bf m' = owned bf m - range_pages m pt lo (n - lo)"
    "\<forall>a. a \<notin> tables m pt \<longrightarrow> km_store m' a = (if a \<in> range_pages m pt lo (n - lo) then None else km_store m a)"
    "\<forall>k < 2 ^ 27. pte_pg m' pt k = (if lo \<le> k \<and> k < n then 0 else pte_pg m pt k)"
    using j(3) n(2) by (simp_all add: range_unmapped_def jn)
  have "km_store m' a = Some c" if a: "a \<notin> tables m0 pt" "km_store m0 a = Some c" for a c
  proof -
    have "a \<notin> tables m pt" using g a by (auto simp: pt_grow_def)
    moreover have "a \<notin> range_pages m pt lo (n - lo)" using own(3) a(2) by auto
    moreover have "km_store m a = Some c" using g a by (simp add: pt_grow_def)
    ultimately show ?thesis using u(5) by simp
  qed
  then have "pt_grow bf pt m0 m'" using g u own(3) by (auto simp: pt_grow_def)
  moreover have "same_map pt m0 m'"
    using u(6) fm by (auto simp: same_map_def fresh_map_def)
  ultimately show ?thesis using j(2) by blast
qed

lemma fresh_map_same: "fresh_map bf pt m0 m lo lo perm cont \<Longrightarrow> pt_grow bf pt m0 m \<and> same_map pt m0 m"
  by (auto simp: fresh_map_def same_map_def)

lemma fresh_map_dealloc:
  assumes fm: "fresh_map bf pt m0 m lo n perm cont" and p: "\<forall>k. lo \<le> k \<and> k < n \<longrightarrow> perm_ok (perm k) \<and> pte_is_leaf (perm k)"
    and n: "n \<le> 2 ^ 27" "lo \<le> n" and va: "unat cur = 4096 * n" "unat old = 4096 * lo"
  shows "\<exists>s m'. uvm_dealloc bf pt cur old m = Done (s, m') \<and> pt_grow bf pt m0 m' \<and> same_map pt m0 m'"
proof (cases "n = lo")
  case True
  then have "cur = old" using va by (simp add: unat_inject [symmetric])
  then show ?thesis using fm True fresh_map_same by (auto simp: uvm_dealloc_def)
next
  case False
  then have lt: "old < cur" using va n(2) by (simp add: word_less_nat_alt)
  have ru: "pg_round_up x = Done x" if k: "unat x = 4096 * k" "k \<le> 2 ^ 27" for x :: usize and k
  proof -
    obtain r where "pg_round_up x = Done r" "unat r = (unat x + 4095) div 4096 * 4096"
      using pg_round_up_Done [of x] k by auto
    moreover have "(4096 * k + 4095) div 4096 = k" by simp
    ultimately show ?thesis using k(1) by (simp add: unat_inject [symmetric])
  qed
  have "unat ((cur - old) div PAGE_SIZE) = n - lo"
    using lt va n(2) by (simp add: unat_div unat_sub diff_mult_distrib2 [symmetric])
  from fresh_map_release [OF fm p n va(2) this] show ?thesis
    using lt ru [OF va(1) n(1)] ru [OF va(2)] n by (auto simp: uvm_dealloc_def)
qed

lemma alloc_loop_spec:
  assumes "fresh_map bf pt m0 m lo n (\<lambda>_. PTE_R OR PTE_W OR PTE_X OR PTE_U) (\<lambda>_. zero_data)"
    and "lo \<le> n" and "n + c \<le> 2 ^ 26" and "unat old = 4096 * lo" and "map unat vas = map (\<lambda>k. 4096 * k) [n..<n + c]"
  shows "\<exists>ok m'. alloc_loop bf pt old vas m = Done (ok, m') \<and>
     (if ok then fresh_map bf pt m0 m' lo (n + c) (\<lambda>_. PTE_R OR PTE_W OR PTE_X OR PTE_U) (\<lambda>_. zero_data)
      else pt_grow bf pt m0 m' \<and> same_map pt m0 m')"
  using assms
proof (induction c arbitrary: n m vas)
  case 0
  then show ?case by (intro exI [of _ True] exI [of _ m]) simp
next
  case (Suc c)
  let ?p = "\<lambda>_ :: nat. PTE_R OR PTE_W OR PTE_X OR PTE_U" and ?c = "\<lambda>_ :: nat. zero_data"
  obtain va rest where vas: "vas = va # rest" "unat va = 4096 * n" "map unat rest = map (\<lambda>k. 4096 * k) [Suc n..<Suc n + c]"
    using Suc.prems(5) upt_conv_Cons [of n "n + Suc c"] by (cases vas) (simp_all del: upt_Suc)
  have perms: "\<forall>k. lo \<le> k \<and> k < n \<longrightarrow> perm_ok (?p k) \<and> pte_is_leaf (?p k)"
    by (simp add: perm_ok_def pte_is_leaf_def flag_defs)
  have drop: "\<exists>s m'. uvm_dealloc bf pt va old m1 = Done (s, m') \<and> pt_grow bf pt m0 m' \<and> same_map pt m0 m'"
    if "fresh_map bf pt m0 m1 lo n ?p ?c" for m1
    using fresh_map_dealloc [OF that perms _ Suc.prems(2) vas(2) Suc.prems(4)] Suc.prems(3) by simp
  have n: "n < 2 ^ 26" using Suc.prems(3) by simp
  from map_new_page [OF Suc.prems(1) n vas(2) _ Suc.prems(2)] consider
    (none) "page_try_new bf zero_bytes m = Done (None, m)"
  | (some) a m1 r m2 where "page_try_new bf zero_bytes m = Done (Some a, m1)"
      "map_pages bf pt (VirtAddr va) PAGE_SIZE (PhysAddr a) (?p n) m1 = Done (r, m2)"
      "case r of Inr u \<Rightarrow> fresh_map bf pt m0 m2 lo (Suc n) ?p ?c
        | Inl e \<Rightarrow> \<exists>m3. page_free bf a m2 = Done m3 \<and> fresh_map bf pt m0 m3 lo n ?p ?c"
    unfolding zero_bytes_def by (auto simp: zero_data_def)
  then show ?case
  proof cases
    case none
    obtain s m' where d: "uvm_dealloc bf pt va old m = Done (s, m')" "pt_grow bf pt m0 m'" "same_map pt m0 m'"
      using drop [OF Suc.prems(1)] by blast
    then have "alloc_loop bf pt old vas m = Done (False, m')" using none vas(1) by simp
    then show ?thesis using d(2,3) by (intro exI [of _ False] exI [of _ m']) simp
  next
    case some
    show ?thesis
    proof (cases r)
      case (Inl e)
      then obtain m3 where m3: "page_free bf a m2 = Done m3" "fresh_map bf pt m0 m3 lo n ?p ?c" using some(3) by auto
      obtain s m' where d: "uvm_dealloc bf pt va old m3 = Done (s, m')" "pt_grow bf pt m0 m'" "same_map pt m0 m'"
        using drop [OF m3(2)] by blast
      then have "alloc_loop bf pt old vas m = Done (False, m')" using some(1,2) Inl m3(1) vas(1) by simp
      then show ?thesis using d(2,3) by (intro exI [of _ False] exI [of _ m']) simp
    next
      case (Inr u)
      then have fm: "fresh_map bf pt m0 m2 lo (Suc n) ?p ?c" using some(3) by simp
      have eq: "alloc_loop bf pt old vas m = alloc_loop bf pt old rest m2" using vas(1) some(1,2) Inr by simp
      have "\<exists>ok m'. alloc_loop bf pt old rest m2 = Done (ok, m') \<and>
          (if ok then fresh_map bf pt m0 m' lo (Suc n + c) ?p ?c else pt_grow bf pt m0 m' \<and> same_map pt m0 m')"
        by (rule Suc.IH [OF fm _ _ Suc.prems(4) vas(3)]) (use Suc.prems(2,3) in simp_all)
      then show ?thesis unfolding eq by (simp only: add_Suc add_Suc_right)
    qed
  qed
qed

lemma uvm_alloc_spec:
  assumes "kmem_inv bf m" and "pt_inv m pt" and "old_size < new_size" and "new_size \<le> MAXVA"
  defines "lo \<equiv> (unat old_size + 4095) div 4096" and "hi \<equiv> (unat new_size + 4095) div 4096"
  shows "\<exists>r m'. uvm_alloc bf pt old_size new_size m = Done (r, m') \<and>
     (case r of
        Some s \<Rightarrow> s = new_size \<and>
          fresh_map bf pt m m' lo hi (\<lambda>_. PTE_R OR PTE_W OR PTE_X OR PTE_U) (\<lambda>_. zero_data)
      | None \<Rightarrow> pt_grow bf pt m m' \<and> same_map pt m m')"
proof -
  have b: "unat old_size < unat new_size" "unat new_size \<le> 2 ^ 38"
    using assms(3,4) by (simp_all add: word_less_nat_alt word_le_nat_alt MAXVA_def)
  obtain al where al: "pg_round_up old_size = Done al" "unat al = 4096 * lo"
    using pg_round_up_Done [of old_size] b by (auto simp: lo_def)
  have le: "lo \<le> hi" unfolding lo_def hi_def using b(1) by (intro div_le_mono) simp
  have hb: "hi \<le> 2 ^ 26" using b(2) by (simp add: hi_def)
  have "(x - 4096 * l + 4095) div 4096 = (x + 4095) div 4096 - l" for x l :: nat
  proof (cases "4096 * l \<le> x")
    case True
    then obtain y where "x = 4096 * l + y" using le_Suc_ex by blast
    moreover have "(4096 * l + y + 4095) div 4096 = l + (y + 4095) div 4096"
      using div_mult_self2 [of 4096 "y + 4095" l] by (simp add: ac_simps)
    ultimately show ?thesis by simp
  next
    case False
    then have "(x + 4095) div 4096 < Suc l" by (intro less_mult_imp_div_less) simp
    then show ?thesis using False by simp
  qed
  then have "(unat new_size - unat al + 4095) div 4096 = hi - lo" by (simp add: al(2) hi_def)
  from page_steps_unat [OF al(2) this] have "map unat (page_steps al new_size) = map (\<lambda>k. 4096 * k) [lo..<lo + (hi - lo)]"
    using hb le by simp
  from alloc_loop_spec [OF fresh_map_empty [OF assms(1,2)] order_refl _ al(2) this, unfolded le_add_diff_inverse [OF le], OF hb]
  obtain ok m' where "alloc_loop bf pt al (page_steps al new_size) m = Done (ok, m')"
    "if ok then fresh_map bf pt m m' lo hi (\<lambda>_. PTE_R OR PTE_W OR PTE_X OR PTE_U) (\<lambda>_. zero_data)
     else pt_grow bf pt m m' \<and> same_map pt m m'" by blast
  moreover have "\<not> new_size \<le> old_size" using assms(3) by (simp add: not_le)
  ultimately show ?thesis using al(1) by (cases ok) (simp_all add: uvm_alloc_def)
qed

end

end
