(* ===== verification/UserFork.thy ===== *)
theory UserFork
  imports UserSpace
begin

text \<open>
  Duplicating an address space, as \<^verbatim>\<open>fork\<close> does: two page tables in one memory.
\<close>

section \<open>A page table beside another that grows\<close>

lemma other_table:
  assumes g: "pt_grow bf child m m'" and pt: "pt_inv m pt" and d: "tables m pt \<inter> tables m child = {}"
  shows "pt_inv m' pt" "tables m' pt = tables m pt" "pte_pg m' pt = pte_pg m pt" "tables m' pt \<inter> tables m' child = {}"
    "\<And>q. length q \<le> 2 \<Longrightarrow> tbl m' pt q = tbl m pt q"
proof -
  have st: "km_store m' a = km_store m a" "is_table m a" if "a \<in> tables m pt" for a
  proof -
    show it: "is_table m a" using that pt_invD(1) [OF pt] unfolding tables_def by blast
    then obtain es where "km_store m a = Some (Table es)" by (auto simp: is_table_def)
    moreover have "a \<notin> tables m child" using that d by blast
    ultimately show "km_store m' a = km_store m a" using g by (simp add: pt_grow_def)
  qed
  have tin: "a \<in> tables m pt" if "tbl m pt q = Some a" "length q \<le> 2" for q a using that unfolding tables_def by blast
  show tb: "tbl m' pt q = tbl m pt q" if q: "length q \<le> 2" for q
  proof (rule tbl_frame)
    fix p' i r b assume "q = p' @ i # r" "tbl m pt p' = Some b"
    then have "b \<in> tables m pt" using tin [of p' b] q by simp
    then show "ent m' b i = ent m b i" using st(1) by (simp add: ent_def)
  qed
  show ts: "tables m' pt = tables m pt" unfolding tables_def using tb by (auto cong: conj_cong)
  have it: "is_table m' a = is_table m a" if "a \<in> tables m pt" for a using st [OF that] by (simp add: is_table_def)
  show "pt_inv m' pt"
    unfolding pt_inv_def
  proof (intro conjI allI impI; elim conjE)
    fix p a assume "length p \<le> 2" "tbl m' pt p = Some a"
    then show "is_table m' a" using tb tin it st(2) by metis
  next
    fix p q a assume "length p \<le> 2" "length q \<le> 2" "tbl m' pt p = Some a" "tbl m' pt q = Some a"
    then show "p = q" using tb pt unfolding pt_inv_def by metis
  qed
  show "pte_pg m' pt = pte_pg m pt"
  proof
    fix n :: nat
    let ?q = "[n div 262144 mod 512, n div 512 mod 512]"
    have "ent m' a k = ent m a k" if "tbl m pt ?q = Some a" for a k
      using st(1) [of a] tin [OF that] by (simp add: ent_def)
    then show "pte_pg m' pt n = pte_pg m pt n"
      using tb [of ?q] unfolding pte_pg_def pte_def by (simp del: tbl.simps split: option.split)
  qed
  show "tables m' pt \<inter> tables m' child = {}"
  proof (rule ccontr)
    assume "tables m' pt \<inter> tables m' child \<noteq> {}"
    then obtain a where a: "a \<in> tables m pt" "a \<in> tables m' child" using ts by blast
    then have "a \<notin> tables m child" using d by blast
    then have "km_store m a = None" using g a(2) by (simp add: pt_grow_def)
    then show False using st(2) [OF a(1)] by (simp add: is_table_def)
  qed
qed

section \<open>Copying page by page\<close>

definition page_data :: "kmem \<Rightarrow> usize \<Rightarrow> nat \<Rightarrow> u8 list" where
  "page_data m pt k = (case km_store m (as_page_table (pte_pg m pt k)) of Some (Bytes bs) \<Rightarrow> bs | _ \<Rightarrow> [])"

definition page_perm :: "kmem \<Rightarrow> usize \<Rightarrow> nat \<Rightarrow> usize" where
  "page_perm m pt k = pte_read_perm (pte_pg m pt k)"

text \<open>The first \<open>c\<close> pages of an address space are mapped to byte pages by leaf entries.\<close>

definition full_space :: "kmem \<Rightarrow> usize \<Rightarrow> nat \<Rightarrow> bool" where
  "full_space m pt c \<longleftrightarrow>
     (\<forall>k < c. pte_is_valid (pte_pg m pt k) \<and> pte_is_leaf (pte_pg m pt k) \<and>
        (\<exists>bs. km_store m (as_page_table (pte_pg m pt k)) = Some (Bytes bs)))"

lemma page_perm_facts:
  "perm_ok (page_perm m pt k)" "pte_is_leaf (page_perm m pt k) \<longleftrightarrow> pte_is_leaf (pte_pg m pt k)"
  "bit (page_perm m pt k) 4 \<longleftrightarrow> pte_is_user (pte_pg m pt k)"
  by (simp_all add: page_perm_def perm_ok_def pte_read_perm_def pte_leaf_bits pte_bits PTE_ALL_mask and.assoc
      bit_and_iff bit_mask_iff)

context page_heap
begin

lemma copy_loop_spec:
  assumes inv0: "kmem_inv bf m0" "pt_inv m0 pt" "pt_inv m0 child" "tables m0 pt \<inter> tables m0 child = {}"
    and full: "full_space m0 pt (n + c)" and "n + c \<le> 2 ^ 26"
    and "fresh_map bf child m0 m 0 n (page_perm m0 pt) (page_data m0 pt)"
    and "map unat vas = map (\<lambda>k. 4096 * k) [n..<n + c]"
  shows "\<exists>ok m'. copy_loop bf pt child vas m = Done (ok, m') \<and>
     (if ok
      then \<exists>j \<le> c. fresh_map bf child m0 m' 0 (n + j) (page_perm m0 pt) (page_data m0 pt) \<and>
             (j < c \<longrightarrow> page_try_new bf (Bytes (page_data m0 pt (n + j))) m' = Done (None, m'))
      else pt_grow bf child m0 m' \<and> same_map child m0 m')"
  using assms(5-)
proof (induction c arbitrary: n m vas)
  case 0
  then show ?case by (intro exI [of _ True] exI [of _ m]) simp
next
  case (Suc c)
  obtain va rest where vas: "vas = va # rest" "unat va = 4096 * n" "map unat rest = map (\<lambda>k. 4096 * k) [Suc n..<Suc n + c]"
    using Suc.prems(4) upt_conv_Cons [of n "n + Suc c"] by (cases vas) (simp_all del: upt_Suc)
  have n: "n < 2 ^ 26" "unat va div 4096 = n" using Suc.prems(2) vas(2) by simp_all
  have g: "pt_grow bf child m0 m" using Suc.prems(3) by (simp add: fresh_map_def)
  note o = other_table [OF g inv0(2,4)]
  have inv: "kmem_inv bf m" using g by (simp add: pt_grow_def)
  let ?d = "pte_pg m0 pt n"
  obtain bs where d: "pte_is_valid ?d" "pte_is_leaf ?d" "km_store m0 (as_page_table ?d) = Some (Bytes bs)"
    using Suc.prems(1) unfolding full_space_def by (meson less_add_same_cancel1 zero_less_Suc)
  have pd: "page_data m0 pt n = bs" by (simp add: page_data_def d(3))
  have lb: "length bs = 4096" using store_page_wf [OF inv0(1) d(3)] by (simp add: page_wf_def)
  have "tbl m0 pt (va_path va) \<noteq> None" using d(1) pte_pg_va [of m0 pt va] n(2) by (auto simp: pte_def split: option.splits)
  then have f: "find_pte pt (VirtAddr va) m = Done (Some ?d)"
    using find_pte_spec [OF inv o(1), of va] o(3,5) n(2) by simp
  have "as_page_table ?d \<notin> tables m0 child" by (rule bytes_no_table [OF inv0(3) d(3)])
  then have "km_store m (as_page_table ?d) = Some (Bytes bs)" using g d(3) by (simp add: pt_grow_def)
  then have cl: "try_clone bf ?d m = page_try_new bf (Bytes (page_data m0 pt n)) m"
    using d(1) lb by (simp add: try_clone_def page_read_def as_phys_addr_def as_page_table_def pd)
  have perms: "\<forall>k. 0 \<le> k \<and> k < n \<longrightarrow> perm_ok (page_perm m0 pt k) \<and> pte_is_leaf (page_perm m0 pt k)"
    using Suc.prems(1) by (simp add: page_perm_facts full_space_def)
  have lc: "length (page_data m0 pt n) = 4096" using pd lb by simp
  from map_new_page [OF Suc.prems(3) n(1) vas(2) lc] consider
    (none) "page_try_new bf (Bytes (page_data m0 pt n)) m = Done (None, m)"
  | (some) a m1 r m2 where "page_try_new bf (Bytes (page_data m0 pt n)) m = Done (Some a, m1)"
      "map_pages bf child (VirtAddr va) PAGE_SIZE (PhysAddr a) (page_perm m0 pt n) m1 = Done (r, m2)"
      "case r of Inr u \<Rightarrow> fresh_map bf child m0 m2 0 (Suc n) (page_perm m0 pt) (page_data m0 pt)
        | Inl e \<Rightarrow> \<exists>m3. page_free bf a m2 = Done m3 \<and> fresh_map bf child m0 m3 0 n (page_perm m0 pt) (page_data m0 pt)"
    by auto
  then show ?case
  proof cases
    case none
    then have "copy_loop bf pt child vas m = Done (True, m)" using f cl vas(1) by simp
    then show ?thesis using none Suc.prems(3) by (intro exI [of _ True] exI [of _ m]) (auto intro: exI [of _ 0])
  next
    case some
    show ?thesis
    proof (cases r)
      case (Inl e)
      then obtain m3 where m3: "page_free bf a m2 = Done m3" "fresh_map bf child m0 m3 0 n (page_perm m0 pt) (page_data m0 pt)"
        using some(3) by auto
      have "unat (va div PAGE_SIZE) = n - 0" using n(2) by (simp add: unat_div)
      then obtain m' where d: "uvm_unmap bf child 0 (va div PAGE_SIZE) True m3 = Done m'" "pt_grow bf child m0 m'" "same_map child m0 m'"
        using fresh_map_release [OF m3(2) perms, of 0 "va div PAGE_SIZE"] n(1) by auto
      then have "copy_loop bf pt child vas m = Done (False, m')"
        using some(1,2) Inl m3(1) vas(1) f cl by (simp add: page_perm_def)
      then show ?thesis using d(2,3) by (intro exI [of _ False] exI [of _ m']) simp
    next
      case (Inr u)
      then have fm: "fresh_map bf child m0 m2 0 (Suc n) (page_perm m0 pt) (page_data m0 pt)" using some(3) by simp
      have eq: "copy_loop bf pt child vas m = copy_loop bf pt child rest m2"
        using vas(1) some(1,2) Inr f cl by (simp add: page_perm_def)
      have "\<exists>ok m'. copy_loop bf pt child rest m2 = Done (ok, m') \<and>
         (if ok
          then \<exists>j \<le> c. fresh_map bf child m0 m' 0 (Suc n + j) (page_perm m0 pt) (page_data m0 pt) \<and>
                 (j < c \<longrightarrow> page_try_new bf (Bytes (page_data m0 pt (Suc n + j))) m' = Done (None, m'))
          else pt_grow bf child m0 m' \<and> same_map child m0 m')"
        by (rule Suc.IH [OF _ _ fm vas(3)]) (use Suc.prems(1,2) in simp_all)
      then obtain ok m' where m': "copy_loop bf pt child rest m2 = Done (ok, m')"
        "if ok then \<exists>j \<le> c. fresh_map bf child m0 m' 0 (n + Suc j) (page_perm m0 pt) (page_data m0 pt) \<and>
             (j < c \<longrightarrow> page_try_new bf (Bytes (page_data m0 pt (n + Suc j))) m' = Done (None, m'))
         else pt_grow bf child m0 m' \<and> same_map child m0 m'"
        by (simp only: add_Suc add_Suc_right) blast
      then show ?thesis
        unfolding eq by (intro exI [of _ ok] exI [of _ m']) (auto split: if_splits intro: exI [of _ "Suc _"])
    qed
  qed
qed

lemma uvm_copy_spec:
  assumes inv: "kmem_inv bf m" "pt_inv m pt" "pt_inv m child" "tables m pt \<inter> tables m child = {}"
    and sz: "size' \<le> MAXVA" and full: "full_space m pt ((unat size' + 4095) div 4096)"
  defines "c \<equiv> (unat size' + 4095) div 4096"
  shows "\<exists>ok m'. uvm_copy bf pt child size' m = Done (ok, m') \<and>
     (if ok
      then \<exists>j \<le> c. fresh_map bf child m m' 0 j (page_perm m pt) (page_data m pt) \<and>
             (j < c \<longrightarrow> page_try_new bf (Bytes (page_data m pt j)) m' = Done (None, m'))
      else pt_grow bf child m m' \<and> same_map child m m')"
proof -
  have "unat size' \<le> 2 ^ 38" using sz by (simp add: word_le_nat_alt MAXVA_def)
  then have c: "c \<le> 2 ^ 26" by (simp add: c_def)
  have "map unat (page_steps 0 size') = map (\<lambda>k. 4096 * k) [0..<0 + c]"
    by (rule page_steps_unat) (use c in \<open>simp_all add: c_def\<close>)
  moreover have "fresh_map bf child m m 0 0 (page_perm m pt) (page_data m pt)" by (rule fresh_map_empty [OF inv(1,3)])
  moreover have "full_space m pt (0 + c)" "0 + c \<le> 2 ^ 26" using full c by (simp_all add: c_def)
  ultimately show ?thesis
    using copy_loop_spec [OF inv, of 0 c m "page_steps 0 size'"] unfolding uvm_copy_def by (simp only: add_0 simp_thms)
qed

end

section \<open>What the two processes see\<close>

lemma fresh_map_entry:
  assumes fm: "fresh_map bf pt m m' lo n perm cont" and k: "lo \<le> k" "k < n" and p: "perm_ok (perm k)"
  shows "pte_is_valid (pte_pg m' pt k)" "pte_is_user (pte_pg m' pt k) \<longleftrightarrow> bit (perm k) 4"
    "pte_read_perm (pte_pg m' pt k) = perm k OR PTE_V" "km_store m' (as_page_table (pte_pg m' pt k)) = Some (Bytes (cont k))"
    "as_page_table (pte_pg m' pt k) \<in> owned bf m' - owned bf m"
proof -
  obtain a where a: "pte_pg m' pt k = pte_write_perm (PhysAddr a) (perm k)" "page_addr a" "a \<in> owned bf m'"
    "a \<notin> owned bf m" "km_store m' a = Some (Bytes (cont k))"
    using fm k unfolding fresh_map_def by blast
  have "unat a mod 4096 = 0" using a(2) by (simp add: page_addr_def)
  from pte_write_perm_facts [OF this p] a(1)
  have e: "pte_is_valid (pte_pg m' pt k)" "pte_is_user (pte_pg m' pt k) \<longleftrightarrow> bit (perm k) 4"
    "pte_read_perm (pte_pg m' pt k) = perm k OR PTE_V" "as_page_table (pte_pg m' pt k) = a"
    by (simp_all add: as_phys_addr_def as_page_table_def)
  then show "pte_is_valid (pte_pg m' pt k)" "pte_is_user (pte_pg m' pt k) \<longleftrightarrow> bit (perm k) 4"
    "pte_read_perm (pte_pg m' pt k) = perm k OR PTE_V" "km_store m' (as_page_table (pte_pg m' pt k)) = Some (Bytes (cont k))"
    "as_page_table (pte_pg m' pt k) \<in> owned bf m' - owned bf m" using a by simp_all
qed

text \<open>The child sees the parent's bytes, and the parent sees its own unchanged.\<close>

lemma fork_bytes:
  assumes fm: "fresh_map bf child m m' 0 j (page_perm m pt) (page_data m pt)" and full: "full_space m pt c" and "j \<le> c"
    and u: "u < 4096 * j"
  shows "ubyte m' child u = ubyte m pt u"
proof -
  let ?k = "u div 4096"
  have k: "?k < j" using u by (simp add: less_mult_imp_div_less mult.commute)
  then obtain bs where bs: "pte_is_valid (pte_pg m pt ?k)" "km_store m (as_page_table (pte_pg m pt ?k)) = Some (Bytes bs)"
    using full \<open>j \<le> c\<close> unfolding full_space_def by (meson less_le_trans)
  from fresh_map_entry [OF fm _ k page_perm_facts(1)] show ?thesis
    using bs by (simp add: ubyte_def user_page_def page_perm_facts(3) page_data_def Let_def)
qed

lemma fork_parent_bytes:
  assumes g: "pt_grow bf child m m'" and pt: "pt_inv m pt" "pt_inv m child" "tables m pt \<inter> tables m child = {}"
    and full: "full_space m pt c" and u: "u < 4096 * c"
  shows "ubyte m' pt u = ubyte m pt u"
proof -
  let ?k = "u div 4096"
  have "?k < c" using u by (simp add: less_mult_imp_div_less mult.commute)
  then obtain bs where bs: "km_store m (as_page_table (pte_pg m pt ?k)) = Some (Bytes bs)"
    using full unfolding full_space_def by blast
  then have "km_store m' (as_page_table (pte_pg m pt ?k)) = Some (Bytes bs)"
    using g bytes_no_table [OF pt(2) bs] by (simp add: pt_grow_def)
  then show ?thesis using bs other_table(3) [OF g pt(1,3)] by (simp add: ubyte_def user_page_def Let_def)
qed

end
