(* ===== verification/AddressSpace.thy ===== *)
theory AddressSpace
  imports UserFork
begin

text \<open>
  The properties of page tables and user address spaces, with a small memory as a common
  example: a heap of which only the first leaf is in use, a page table with one user page,
  and an empty second page table.
\<close>

unbundle bit_operations_syntax

section \<open>An example memory\<close>

definition leaf_heap :: "nat \<Rightarrow> buddy_system" where
  "leaf_heap mx =
     \<lparr>bs_base = 0x10000, bs_actual_end = 0x10000 + blk_size mx, bs_nsizes = Suc mx, bs_initialized = True,
      bs_infos = map (\<lambda>k. \<lparr>bi_free = (if k < mx then [0x10000 + blk_size k] else []),
        bi_alloc = 1 # replicate (2 ^ (mx - k)) 0, bi_split = 1 # replicate (2 ^ (mx - k)) 0\<rparr>) [0..<Suc mx]\<rparr>"

lemma leaf_heap_views:
  "max_size (leaf_heap mx) = mx" "bs_base (leaf_heap mx) = 0x10000" "bs_nsizes (leaf_heap mx) = Suc mx"
  "k \<le> mx \<Longrightarrow> frees (leaf_heap mx) k = (if k < mx then [0x10000 + blk_size k] else [])"
  by (simp_all add: max_size_def leaf_heap_def frees_def nth_append less_Suc_eq_le del: upt_Suc)

lemma leaf_byte:
  assumes "i < 2 ^ n"
  shows "get_bit word_bits ((1 # replicate (2 ^ n) (0 :: u8)) ! (i div 8)) (i mod 8) \<longleftrightarrow> i = 0"
proof (cases "i div 8")
  case 0
  then have "i < 8" by (simp add: div_eq_0_iff)
  then show ?thesis by (simp add: word_bits_def bit_1_iff)
next
  case (Suc j)
  then have "8 \<le> i" "j < 2 ^ n" using assms by (auto simp: div_eq_0_iff not_less dest: arg_cong [of _ _ "\<lambda>x. x"])
  then show ?thesis using Suc by (simp add: word_bits_def)
qed

lemma leaf_heap_bits:
  assumes "blk_ok mx k i"
  shows "abit word_bits (leaf_heap mx) k i \<longleftrightarrow> i = 0" "sbit word_bits (leaf_heap mx) k i \<longleftrightarrow> i = 0"
  using assms leaf_byte [of i "mx - k"]
  by (simp_all add: abit_def sbit_def leaf_heap_def blk_ok_def nth_append less_Suc_eq_le del: upt_Suc)

lemma leaf_heap_free:
  assumes "blk_ok mx k i"
  shows "ffree 0x10000 (frees (leaf_heap mx)) k i \<longleftrightarrow> k < mx \<and> i = 1"
  using assms by (auto simp: ffree_def leaf_heap_views blk_ok_def)

lemma leaf_heap_inv:
  assumes "0 < mx"
  shows "heap_inv word_bits (leaf_heap mx)"
proof -
  have "shape (leaf_heap mx)"
    by (simp add: shape_def leaf_heap_views) (simp add: leaf_heap_def nth_append less_Suc_eq_le del: upt_Suc)
  moreover have "1 < (2 :: nat) ^ (mx - k)" if "k < mx" for k using that by (intro one_less_power) simp_all
  then have "lists_ok mx 0x10000 (frees (leaf_heap mx))"
    by (auto simp: lists_ok_def leaf_heap_views blk_ok_def intro!: exI [of _ 1])
  moreover have "tree_ok mx (abit word_bits (leaf_heap mx)) (sbit word_bits (leaf_heap mx)) (ffree 0x10000 (frees (leaf_heap mx)))"
    unfolding tree_ok_def
  proof (intro conjI allI impI)
    show "abit word_bits (leaf_heap mx) mx 0" "sbit word_bits (leaf_heap mx) mx 0"
      by (simp_all add: leaf_heap_bits blk_ok_def)
    show "abit word_bits (leaf_heap mx) k i"
      if "blk_ok mx k i" "0 < k" "sbit word_bits (leaf_heap mx) k i" for k i
      using that by (simp add: leaf_heap_bits)
    show "sbit word_bits (leaf_heap mx) (Suc k) (i div 2)"
      if "blk_ok mx k i" "k < mx" "abit word_bits (leaf_heap mx) k i" for k i
      using that blk_ok_parent [OF that(1,2)] by (simp add: leaf_heap_bits)
    show "abit word_bits (leaf_heap mx) k (2 * j) \<or> abit word_bits (leaf_heap mx) k (2 * j + 1)"
      if "blk_ok mx (Suc k) j" "sbit word_bits (leaf_heap mx) (Suc k) j" for k j
      using that blk_ok_child [OF that(1)] by (simp add: leaf_heap_bits)
    show "ffree 0x10000 (frees (leaf_heap mx)) k i =
        (k < mx \<and> \<not> abit word_bits (leaf_heap mx) k i \<and> sbit word_bits (leaf_heap mx) (Suc k) (i div 2))"
      if "blk_ok mx k i" for k i
    proof (cases "k < mx")
      case True
      have "i = 1 \<longleftrightarrow> i \<noteq> 0 \<and> i div 2 = 0" by (auto simp: div_eq_0_iff)
      then show ?thesis
        using True that blk_ok_parent [OF that True] by (simp add: leaf_heap_bits leaf_heap_free)
    qed (use that in \<open>simp add: leaf_heap_free\<close>)
  qed (use assms in simp)
  ultimately show ?thesis
    using assms by (simp add: heap_inv_def leaf_heap_views leaf_heap_bits blk_ok_def PAGE_BYTES_def)
qed

definition demo :: "nat \<Rightarrow> kmem" where
  "demo mx = \<lparr>km_heap = leaf_heap mx, km_store =
     [0x1000 \<mapsto> Table ((replicate 512 0)[0 := 0x801]), 0x2000 \<mapsto> Table ((replicate 512 0)[0 := 0xC01]),
      0x3000 \<mapsto> Table ((replicate 512 0)[0 := 0x101F]), 0x4000 \<mapsto> zero_bytes, 0x5000 \<mapsto> zero_table]\<rparr>"

lemma demo_inv:
  assumes "0 < mx" and "mx \<le> 20"
  shows "kmem_inv word_bits (demo mx)"
proof -
  have "blk_size mx \<le> blk_size 20" by (rule blk_size_mono [OF assms(2)])
  then have "bs_actual_end (leaf_heap mx) \<le> 0x10000 + 16 * 2 ^ 20" by (simp add: leaf_heap_def blk_size_def LEAF_SIZE_def)
  then have e: "bs_actual_end (leaf_heap mx) \<le> unat KERNEL_HEAP_END" by (simp add: heap_end_vals)
  have "tail_reserved word_bits (leaf_heap mx)"
    by (simp add: tail_reserved_def leaf_heap_views) (simp add: leaf_heap_def blk_addr_def blk_size_def LEAF_SIZE_def)
  moreover have st: "a \<noteq> 0 \<and> unat a mod 4096 = 0 \<and> a \<le> PHYSTOP \<and> page_wf c \<and> unat a < 0x10000"
    if "km_store (demo mx) a = Some c" for a c
    using that by (auto simp: demo_def page_wf_def zero_bytes_def zero_data_def zero_table_def PHYSTOP_def KERNBASE_def split: if_splits)
  moreover have kh: "km_heap (demo mx) = leaf_heap mx" by (simp add: demo_def)
  moreover have "\<forall>a c. km_store (demo mx) a = Some c \<longrightarrow> a \<noteq> 0 \<and> unat a mod 4096 = 0 \<and> a \<le> PHYSTOP \<and> page_wf c \<and>
      (0x10000 \<le> unat a \<and> unat a < bs_actual_end (leaf_heap mx) \<longrightarrow> a \<in> owned word_bits (demo mx))"
  proof (intro allI impI)
    fix a c assume "km_store (demo mx) a = Some c"
    from st [OF this] show "a \<noteq> 0 \<and> unat a mod 4096 = 0 \<and> a \<le> PHYSTOP \<and> page_wf c \<and>
      (0x10000 \<le> unat a \<and> unat a < bs_actual_end (leaf_heap mx) \<longrightarrow> a \<in> owned word_bits (demo mx))" by auto
  qed
  ultimately show ?thesis
    using leaf_heap_inv [OF assms(1)] e unfolding kmem_inv_def kh leaf_heap_views by blast
qed

lemma demo_ent:
  "ent (demo mx) 0x1000 i = (if i = 0 then 0x801 else 0)" "ent (demo mx) 0x2000 i = (if i = 0 then 0xC01 else 0)"
  "ent (demo mx) 0x3000 i = (if i = 0 then 0x101F else 0)" "ent (demo mx) 0x5000 i = 0"
  by (auto simp: demo_def ent_def zero_table_def nth_list_upd_if)

lemma demo_ptes:
  "pte_is_valid 0x801" "as_page_table 0x801 = 0x2000" "pte_is_valid 0xC01" "as_page_table 0xC01 = 0x3000"
  "pte_is_valid 0x101F" "pte_is_user 0x101F" "pte_is_leaf 0x101F" "as_page_table 0x101F = 0x4000" "pte_read_perm 0x101F = 0x1F"
  by (simp_all add: pte_is_valid_def pte_is_user_def pte_is_leaf_def as_page_table_def pte_read_perm_def flag_defs
      SV39FLAGLEN_def PGSHIFT_def)

lemma demo_tbl:
  assumes "length p \<le> 2"
  shows "tbl (demo mx) 0x1000 p = (if p = [] then Some 0x1000 else if p = [0] then Some 0x2000
     else if p = [0, 0] then Some 0x3000 else None)"
    and "tbl (demo mx) 0x5000 p = (if p = [] then Some 0x5000 else None)"
proof -
  have "p = [] \<or> (\<exists>i. p = [i]) \<or> (\<exists>i j. p = [i, j])"
    using assms by (cases p; cases "tl p"; cases "tl (tl p)") auto
  then show "tbl (demo mx) 0x1000 p = (if p = [] then Some 0x1000 else if p = [0] then Some 0x2000
      else if p = [0, 0] then Some 0x3000 else None)"
    "tbl (demo mx) 0x5000 p = (if p = [] then Some 0x5000 else None)"
    by (auto simp: demo_ent demo_ptes split: if_splits)
qed

lemma demo_pt: "pt_inv (demo mx) 0x1000" "pt_inv (demo mx) 0x5000"
  "tables (demo mx) 0x1000 \<inter> tables (demo mx) 0x5000 = {}"
proof -
  have "is_table (demo mx) a" if "a \<in> {0x1000, 0x2000, 0x3000, 0x5000}" for a
    using that by (auto simp: is_table_def demo_def zero_table_def)
  then show "pt_inv (demo mx) 0x1000" "pt_inv (demo mx) 0x5000"
    unfolding pt_inv_def using demo_tbl by (auto split: if_splits)
  show "tables (demo mx) 0x1000 \<inter> tables (demo mx) 0x5000 = {}"
    unfolding tables_def using demo_tbl by (auto split: if_splits)
qed

lemma demo_pte:
  assumes "n < 2 ^ 27"
  shows "pte_pg (demo mx) 0x1000 n = (if n = 0 then 0x101F else 0)" "pte_pg (demo mx) 0x5000 n = 0"
proof -
  have "[n div 262144 mod 512, n div 512 mod 512] = [0, 0] \<and> n mod 512 = 0 \<longleftrightarrow> n = 0"
    using page_index_eq [of 0 n] assms by simp
  then show "pte_pg (demo mx) 0x1000 n = (if n = 0 then 0x101F else 0)" "pte_pg (demo mx) 0x5000 n = 0"
    by (auto simp: pte_pg_def pte_def demo_tbl demo_ent simp del: tbl.simps)
qed

lemma demo_user:
  "user_inv (demo mx) 0x1000" "n < 2 ^ 27 \<Longrightarrow> user_page (demo mx) 0x1000 n = (if n = 0 then Some 0x4000 else None)"
proof -
  show u: "user_page (demo mx) 0x1000 n = (if n = 0 then Some 0x4000 else None)" if "n < 2 ^ 27" for n
    using that by (simp add: user_page_def demo_pte demo_ptes)
  show "user_inv (demo mx) 0x1000"
    unfolding user_inv_def using u by (auto simp: demo_def zero_bytes_def split: if_splits)
qed

section \<open>Mapping\<close>

lemma demo_find_create:
  "find_pte_create word_bits 0x1000 (VirtAddr 0x1000) (demo mx) = Done (Some (0x3000, 1), demo mx)"
  by (simp add: find_pte_create_def tbl_get_def demo_def va_page_num_def PGSHIFT_def PGMASKLEN_def PGMASK_def demo_ptes)

lemma demo_map: "\<exists>m'. map_pages word_bits 0x1000 (VirtAddr 0x1000) 0x1000 (PhysAddr 0x4000) perm (demo mx) = Done (Inr (), m')"
proof -
  have "tbl_get (demo mx) 0x3000 1 = Done 0" "\<exists>m'. tbl_set 0x3000 1 d (demo mx) = Done m'" for d
    by (simp_all add: tbl_get_def tbl_set_def demo_def)
  then obtain m' where "tbl_get (demo mx) 0x3000 1 = Done 0"
    "tbl_set 0x3000 1 (pte_write_perm (PhysAddr 0x4000) perm) (demo mx) = Done m'" by blast
  then have "map_loop word_bits 0x1000 0x1000 0x2000 0x4000 perm (demo mx) = Done (Inr (), m')"
    by (simp add: map_loop.simps [of _ _ "0x1000"] map_loop.simps [of _ _ "0x2000"] demo_find_create addr_add_page_def
        usize_add_def PAGE_SIZE_def)
  then show ?thesis
    by (simp add: map_pages_def usize_add_def virt_try_from_def MAXVA_def addr_pg_round_up_def addr_pg_round_down_def PAGE_SIZE_def
        pg_round_down_def)
qed



section \<open>Copying between kernel and user memory\<close>

lemma demo_mapped: "mapped (demo mx) 0x1000 v l \<longleftrightarrow> v + l < 4096" if "v + l < 2 ^ 38"
proof
  assume "mapped (demo mx) 0x1000 v l"
  moreover have "(v + l) div 4096 \<in> {v div 4096..(v + l) div 4096}" by (simp add: div_le_mono)
  ultimately have "user_page (demo mx) 0x1000 ((v + l) div 4096) \<noteq> None" unfolding mapped_def by blast
  then show "v + l < 4096" using that by (simp add: demo_user(2) div_eq_0_iff split: if_splits)
qed (auto simp: mapped_def demo_user(2))

lemma demo_store:
  "km_store (demo mx) a = (if a = 0x1000 then Some (Table ((replicate 512 0)[0 := 0x801]))
     else if a = 0x2000 then Some (Table ((replicate 512 0)[0 := 0xC01]))
     else if a = 0x3000 then Some (Table ((replicate 512 0)[0 := 0x101F]))
     else if a = 0x4000 then Some zero_bytes else if a = 0x5000 then Some zero_table else None)"
  by (simp add: demo_def)

lemma demo_ubytes: "v + l < 4096 \<Longrightarrow> ubytes (demo mx) 0x1000 v l = replicate l 0"
  by (auto simp: ubytes_def ubyte_def demo_user(2) demo_store zero_bytes_def zero_data_def intro!: nth_equalityI)

text \<open>
  Reading user memory: for a user range below \<^verbatim>\<open>MAXVA\<close>, \<^verbatim>\<open>copy_in\<close> returns exactly the
  user's bytes when every page from that of the first byte to that of the address after the
  last byte is mapped for the user, and an error otherwise; it never panics and never changes
  memory.
\<close>

theorem copy_in_correct:
  assumes "kmem_inv bf m" and "pt_inv m pt" and "user_inv m pt" and "unat src + count \<le> unat MAXVA"
  shows "copy_in pt src count m =
           Done (if mapped m pt (unat src) count then Inr (ubytes m pt (unat src) count) else Inl ())"
  by (rule copy_in_spec [OF assms])

theorem copy_in_correct_witness:
  "user_inv (demo 12) 0x1000 \<and> copy_in 0x1000 0x10 3 (demo 12) = Done (Inr [0, 0, 0]) \<and>
   copy_in 0x1000 0x2000 3 (demo 12) = Done (Inl ())"
proof -
  have inv: "kmem_inv word_bits (demo 12)" by (rule demo_inv) simp_all
  have c: "copy_in 0x1000 src 3 (demo 12) =
      Done (if unat src + 3 < 4096 then Inr (replicate 3 0) else Inl ())" if "unat src + 3 < 2 ^ 38" for src
    using copy_in_correct [OF inv demo_pt(1) demo_user(1), of src 3] that
    by (simp add: demo_mapped demo_ubytes MAXVA_def numeral_3_eq_3)
  show ?thesis
    using c [of "0x10"] c [of "0x2000"] demo_user(1) by (simp add: numeral_3_eq_3)
qed



text \<open>
  A buffer that ends with its page: both copy loops look up the page after the buffer
  before they find that nothing is left. So when a user buffer ends exactly at a page boundary
  and the following page is not mapped, \<^verbatim>\<open>copy_in\<close> reports an error and \<^verbatim>\<open>copy_out\<close> panics the
  kernel, although every byte of the buffer is mapped.
\<close>

theorem copy_page_end:
  assumes "bit_crate bf" and "kmem_inv bf m" and "pt_inv m pt" and "user_inv m pt"
    and "src \<noteq> []" and "unat dst + length src = 4096 * Suc n" and "n < 2 ^ 26 - 1" and "user_page m pt (Suc n) = None"
  shows "copy_in pt dst (length src) m = Done (Inl ()) \<and> copy_out pt src dst m = Panicked ''no map''"
proof -
  have "Suc n \<in> {unat dst div 4096..(unat dst + length src) div 4096}" using assms(5,6) by auto
  then have nm: "\<not> mapped m pt (unat dst) (length src)" using assms(8) unfolding mapped_def by blast
  have le: "unat dst + length src \<le> unat MAXVA" using assms(6,7) by (simp add: MAXVA_def)
  show ?thesis
    using page_heap.copy_out_spec [OF bit_crate_heap [OF assms(1)] assms(2-4) le assms(5)]
      copy_in_spec [OF assms(2-4) le] nm by simp
qed

theorem copy_page_end_witness:
  "map (ubyte (demo 12) 0x1000) [0xFFC, 0xFFD, 0xFFE, 0xFFF] = replicate 4 (Some 0) \<and>
   copy_in 0x1000 0xFFC 4 (demo 12) = Done (Inl ()) \<and> copy_out 0x1000 [1, 2, 3, 4] 0xFFC (demo 12) = Panicked ''no map''"
proof -
  have inv: "kmem_inv word_bits (demo 12)" by (rule demo_inv) simp_all
  have "ubyte (demo 12) 0x1000 u = Some 0" if "u < 0x1000" for u
    using that by (simp add: ubyte_def demo_user(2) demo_store zero_bytes_def zero_data_def)
  moreover have "copy_in 0x1000 0xFFC (length [1, 2, 3, 4 :: u8]) (demo 12) = Done (Inl ()) \<and>
      copy_out 0x1000 [1, 2, 3, 4] 0xFFC (demo 12) = Panicked ''no map''"
    by (rule copy_page_end [OF word_bits.bit_crate_axioms inv demo_pt(1) demo_user(1), of _ _ 0]) (simp_all add: demo_user(2))
  moreover have "length [1, 2, 3, 4 :: u8] = 4" "replicate 4 x = [x, x, x, x]" for x :: "u8 option"
    by (simp_all add: numeral_eq_Suc)
  ultimately show ?thesis by (simp del: list.size)
qed

section \<open>Growing and duplicating an address space\<close>



lemma demo_full: "full_space (demo mx) 0x1000 1"
  by (simp add: full_space_def demo_pte demo_ptes demo_store zero_bytes_def)

lemma demo_no_memory: "page_try_new bf c (demo 8) = Done (None, demo 8)"
proof -
  have "find_size (leaf_heap 8) 8 = Done 9"
    by (simp add: find_size.simps [of _ 8] find_size.simps [of _ 9] get_info_def leaf_heap_def nth_append)
  then show ?thesis
    by (simp add: page_try_new_def buddy_alloc_def page_layout_def PAGE_BYTES_def small_size_page demo_def leaf_heap_views)
qed



text \<open>
  C35 (success without memory): when the first page cannot be allocated \<^verbatim>\<open>uvm_copy\<close> still
  returns \<^verbatim>\<open>Ok\<close>, and the child has got nothing: a \<^verbatim>\<open>fork\<close> under memory pressure goes on with an
  empty address space.
\<close>

theorem uvm_copy_out_of_memory:
  assumes "kmem_inv bf m" and "pt_inv m pt" and "full_space m pt 1" and "0 < size'"
    and "page_try_new bf (Bytes (page_data m pt 0)) m = Done (None, m)"
  shows "uvm_copy bf pt child size' m = Done (True, m)"
proof -
  obtain bs where d: "pte_is_valid (pte_pg m pt 0)" "km_store m (as_page_table (pte_pg m pt 0)) = Some (Bytes bs)"
    using assms(3) by (auto simp: full_space_def)
  have "length bs = 4096" using store_page_wf [OF assms(1) d(2)] by (simp add: page_wf_def)
  then have cl: "try_clone bf (pte_pg m pt 0) m = Done (None, m)"
    using d assms(5) by (simp add: try_clone_def page_read_def as_phys_addr_def as_page_table_def page_data_def)
  have "tbl m pt (va_path 0) \<noteq> None" using d(1) pte_pg_va [of m pt 0] by (auto simp: pte_def split: option.splits)
  then have f: "find_pte pt (VirtAddr 0) m = Done (Some (pte_pg m pt 0))" using find_pte_spec [OF assms(1,2), of 0] by simp
  have "0 < unat size'" using assms(4) by (simp add: word_less_nat_alt)
  then have "0 < (unat size' + 4095) div 4096" by (simp add: div_greater_zero_iff)
  then have "\<exists>vs. page_steps 0 size' = 0 # vs" by (simp add: page_steps_def upt_conv_Cons)
  then show ?thesis using f cl by (auto simp: uvm_copy_def)
qed

theorem uvm_copy_out_of_memory_witness:
  "uvm_copy word_bits 0x1000 0x5000 0x1000 (demo 8) = Done (True, demo 8) \<and> ubyte (demo 8) 0x1000 5 = Some 0 \<and>
   ubyte (demo 8) 0x5000 5 = None"
proof -
  have inv: "kmem_inv word_bits (demo 8)" by (rule demo_inv) simp_all
  have "ubyte (demo 8) 0x1000 5 = Some 0" "ubyte (demo 8) 0x5000 5 = None"
    by (simp_all add: ubyte_def user_page_def demo_pte demo_ptes demo_store zero_bytes_def zero_data_def)
  then show ?thesis
    using uvm_copy_out_of_memory [OF inv demo_pt(1) demo_full _ demo_no_memory, of "0x1000" "0x5000"] by simp
qed

end
