(* ===== verification/Kvm.thy ===== *)
theory Kvm
  imports AddressSpace
begin

text \<open>
  The kernel's own address space (\<^verbatim>\<open>kernel/src/mm/kvm.rs\<close>). The root page \<open>kpt\<close> of
  \<^verbatim>\<open>KERNEL_PAGE_TABLE\<close> and the linker symbols \<^verbatim>\<open>etext\<close> and \<^verbatim>\<open>trampoline\<close> are arguments. The
  assertions of \<^verbatim>\<open>kvm_init\<close> on the sizes of the page types are facts of the model's pages.
\<close>

section \<open>Definitions\<close>

definition CLINT :: usize where "CLINT = 0x2000000"
definition CLINT_MAP_SIZE :: usize where "CLINT_MAP_SIZE = 0x10000"
definition UART0 :: usize where "UART0 = 0x10000000"
definition UART0_MAP_SIZE :: usize where "UART0_MAP_SIZE = PAGE_SIZE"
definition VIRTIO0 :: usize where "VIRTIO0 = 0x10001000"
definition VIRTIO0_MAP_SIZE :: usize where "VIRTIO0_MAP_SIZE = PAGE_SIZE"
definition PLIC :: usize where "PLIC = 0x0c000000"
definition PLIC_MAP_SIZE :: usize where "PLIC_MAP_SIZE = 0x400000"

lemmas device_defs = CLINT_def CLINT_MAP_SIZE_def UART0_def UART0_MAP_SIZE_def VIRTIO0_def VIRTIO0_MAP_SIZE_def
  PLIC_def PLIC_MAP_SIZE_def

definition kvm_map :: "bit_field \<Rightarrow> usize \<Rightarrow> virt_addr \<Rightarrow> phys_addr \<Rightarrow> usize \<Rightarrow> usize \<Rightarrow> kmem \<Rightarrow> kmem kres" where
  "kvm_map bf kpt va pa sz perm m =
     kbind (map_pages bf kpt va sz pa perm m) (\<lambda>(r, m').
       case r of Inl err \<Rightarrow> Panicked (''kvm_map: '' @ err) | Inr u \<Rightarrow> Done m')"

text \<open>The value under \<^verbatim>\<open>kernel_table_lock\<close> counts the kernel stacks mapped so far.\<close>

definition kvm_task_kstack_map :: "bit_field \<Rightarrow> usize \<Rightarrow> virt_addr \<Rightarrow> phys_addr \<Rightarrow> usize \<Rightarrow> usize \<Rightarrow> usize \<Rightarrow> usize \<Rightarrow> kmem \<Rightarrow>
    (usize \<times> kmem) kres" where
  "kvm_task_kstack_map bf kpt va pa tid sz perm stacks m =
     (if stacks \<le> tid
      then kbind (kvm_map bf kpt va pa sz perm m) (\<lambda>m'.
           kbind (usize_add stacks 1) (\<lambda>stacks'. Done (stacks', m')))
      else Done (stacks, m))"

definition kvm_pa :: "usize \<Rightarrow> virt_addr \<Rightarrow> kmem \<Rightarrow> usize kres" where
  "kvm_pa kpt va m =
     (let off = va_raw va mod PAGE_SIZE
      in kbind (find_pte kpt va m) (\<lambda>r.
        case r of
          Some d \<Rightarrow> if \<not> pte_is_valid d then Panicked ''kvm_pa: mapped pa not valid''
                      else usize_add (pa_raw (as_phys_addr d)) off
        | None \<Rightarrow> Panicked ''kvm_pa: no mapped pa''))"

definition unwrap_va :: "usize \<Rightarrow> virt_addr kres" where
  "unwrap_va a = (case virt_try_from a of Inl e \<Rightarrow> Panicked e | Inr va \<Rightarrow> Done va)"

definition kvm_init :: "bit_field \<Rightarrow> usize \<Rightarrow> usize \<Rightarrow> usize \<Rightarrow> kmem \<Rightarrow> kmem kres" where
  "kvm_init bf kpt etext trampoline m =
     kbind (kvm_map bf kpt (VirtAddr UART0) (PhysAddr UART0) UART0_MAP_SIZE (PTE_R OR PTE_W) m) (\<lambda>m.
     kbind (kvm_map bf kpt (VirtAddr VIRTIO0) (PhysAddr VIRTIO0) VIRTIO0_MAP_SIZE (PTE_R OR PTE_W) m) (\<lambda>m.
     kbind (kvm_map bf kpt (VirtAddr CLINT) (PhysAddr CLINT) CLINT_MAP_SIZE (PTE_R OR PTE_W) m) (\<lambda>m.
     kbind (kvm_map bf kpt (VirtAddr PLIC) (PhysAddr PLIC) PLIC_MAP_SIZE (PTE_R OR PTE_W) m) (\<lambda>m.
     kbind (usize_sub etext KERNBASE) (\<lambda>text_size.
     kbind (kvm_map bf kpt (VirtAddr KERNBASE) (PhysAddr KERNBASE) text_size (PTE_R OR PTE_X) m) (\<lambda>m.
     kbind (unwrap_va etext) (\<lambda>va.
     kbind (unwrap_pa etext) (\<lambda>pa.
     kbind (usize_sub KERNEL_HEAP_END etext) (\<lambda>data_size.
     kbind (kvm_map bf kpt va pa data_size (PTE_R OR PTE_W) m) (\<lambda>m.
     kbind (usize_sub PHYSTOP KERNEL_HEAP_END) (\<lambda>rest_size.
     kbind (kvm_map bf kpt (VirtAddr KERNEL_HEAP_END) (PhysAddr KERNEL_HEAP_END) rest_size (PTE_R OR PTE_W) m) (\<lambda>m.
     kbind (unwrap_pa trampoline) (\<lambda>pa.
       kvm_map bf kpt (VirtAddr TRAMPOLINE) pa PAGE_SIZE (PTE_R OR PTE_X) m)))))))))))))"

section \<open>Regions\<close>

text \<open>A region is a virtual address, a physical address, a size and permissions.\<close>

type_synonym region = "usize \<times> usize \<times> usize \<times> usize"

fun region_map :: "bit_field \<Rightarrow> usize \<Rightarrow> kmem \<Rightarrow> region \<Rightarrow> kmem kres" where
  "region_map bf kpt m (va, pa, sz, perm) = kvm_map bf kpt (VirtAddr va) (PhysAddr pa) sz perm m"

fun region_pages :: "region \<Rightarrow> nat set" where
  "region_pages (va, pa, sz, perm) = {unat va div 4096..<(unat va + unat sz) div 4096}"

fun region_ok :: "region \<Rightarrow> bool" where
  "region_ok (va, pa, sz, perm) \<longleftrightarrow>
     unat va mod 4096 = 0 \<and> unat pa mod 4096 = 0 \<and> unat sz mod 4096 = 0 \<and> unat va + unat sz \<le> unat MAXVA \<and>
     unat pa + unat sz + 2 * 4096 \<le> 2 ^ 64 \<and> perm_ok perm"

fun region_entry :: "region \<Rightarrow> nat \<Rightarrow> usize" where
  "region_entry (va, pa, sz, perm) k = pte_write_perm (PhysAddr (pa + of_nat (4096 * (k - unat va div 4096)))) perm"

definition kernel_regions :: "usize \<Rightarrow> usize \<Rightarrow> region list" where
  "kernel_regions etext trampoline =
     [(UART0, UART0, UART0_MAP_SIZE, PTE_R OR PTE_W), (VIRTIO0, VIRTIO0, VIRTIO0_MAP_SIZE, PTE_R OR PTE_W),
      (CLINT, CLINT, CLINT_MAP_SIZE, PTE_R OR PTE_W), (PLIC, PLIC, PLIC_MAP_SIZE, PTE_R OR PTE_W),
      (KERNBASE, KERNBASE, etext - KERNBASE, PTE_R OR PTE_X), (etext, etext, KERNEL_HEAP_END - etext, PTE_R OR PTE_W),
      (KERNEL_HEAP_END, KERNEL_HEAP_END, PHYSTOP - KERNEL_HEAP_END, PTE_R OR PTE_W),
      (TRAMPOLINE, trampoline, PAGE_SIZE, PTE_R OR PTE_X)]"

lemma kvm_init_regions:
  assumes "unat etext mod 4096 = 0" "KERNBASE \<le> etext" "etext \<le> KERNEL_HEAP_END" "unat trampoline mod 4096 = 0" "trampoline \<le> PHYSTOP"
  shows "kvm_init bf kpt etext trampoline m = kfold (region_map bf kpt) m (kernel_regions etext trampoline)"
proof -
  have "etext mod PAGE_SIZE = 0" "trampoline mod PAGE_SIZE = 0"
    using assms(1,4) by (simp_all add: word_eq_iff_unsigned unat_mod PAGE_SIZE_def flip: unat_eq_zero)
  moreover have "etext \<le> PHYSTOP" "etext \<le> MAXVA"
    using assms(3) by (simp_all add: word_le_nat_alt layout_defs)
  ultimately have "unwrap_va etext = Done (VirtAddr etext)" "unwrap_pa etext = Done (PhysAddr etext)"
    "unwrap_pa trampoline = Done (PhysAddr trampoline)" "KERNEL_HEAP_END \<le> PHYSTOP"
    using assms(5) by (simp_all add: unwrap_va_def unwrap_pa_def virt_try_from_def phys_try_from_def not_less layout_defs)
  then show ?thesis using assms(2,3) by (simp add: kvm_init_def kernel_regions_def usize_sub_def)
qed

lemma region_page_bound: "region_ok r \<Longrightarrow> k \<in> region_pages r \<Longrightarrow> k < 2 ^ 26"
  by (cases r) (auto simp: MAXVA_def)

definition regions_mapped :: "usize \<Rightarrow> kmem \<Rightarrow> kmem \<Rightarrow> region list \<Rightarrow> bool" where
  "regions_mapped kpt m m' rs \<longleftrightarrow>
     (\<forall>r \<in> set rs. \<forall>k \<in> region_pages r. pte_pg m' kpt k = region_entry r k) \<and>
     (\<forall>k < 2 ^ 27. (\<forall>r \<in> set rs. k \<notin> region_pages r) \<longrightarrow> pte_pg m' kpt k = pte_pg m kpt k)"

definition no_kernel_memory :: string where
  "no_kernel_memory = ''kvm_map: '' @ no_table_memory"

context page_heap
begin

lemma region_map_spec:
  assumes inv: "kmem_inv bf m" "pt_inv m kpt" and ok: "region_ok r" and un: "\<forall>k \<in> region_pages r. \<not> pte_is_valid (pte_pg m kpt k)"
  shows "region_map bf kpt m r = Panicked no_kernel_memory \<or>
         (\<exists>m'. region_map bf kpt m r = Done m' \<and> pt_frame bf kpt m m' \<and> regions_mapped kpt m m' [r])"
proof -
  obtain va pa sz perm where r: "r = (va, pa, sz, perm)" by (cases r) auto
  let ?n = "unat va div 4096"
  have al: "(unat va + unat sz + 4095) div 4096 = (unat va + unat sz) div 4096" "?n \<le> (unat va + unat sz) div 4096"
    using ok r dvd_add [of 4096 "unat va" "unat sz"] by (auto simp: div_le_mono elim!: dvdE)
  obtain x m' where m': "map_pages bf kpt (VirtAddr va) sz (PhysAddr pa) perm m = Done (x, m')" "pt_frame bf kpt m m'"
    "map_outcome m m' kpt ?n ((unat va + unat sz) div 4096 - ?n) pa perm x"
    using map_pages_spec [OF inv, of va sz pa perm] ok r al by auto
  show ?thesis
  proof (cases x)
    case (Inl e)
    then obtain j where "j < (unat va + unat sz) div 4096 - ?n"
      "e = ''remap'' \<and> pte_is_valid (pte_pg m kpt (?n + j)) \<or> e = no_table_memory"
      using m'(3) by (auto simp: map_outcome_def)
    then have "e = no_table_memory" using un r by auto
    then show ?thesis using m'(1) Inl r by (simp add: kvm_map_def no_kernel_memory_def)
  next
    case (Inr u)
    then have "regions_mapped kpt m m' [r]"
      using m'(3) al(2) r region_page_bound [OF ok] by (fastforce simp: map_outcome_def range_mapped_def regions_mapped_def)
    then show ?thesis using m'(1,2) Inr r by (simp add: kvm_map_def)
  qed
qed

lemma regions_spec:
  assumes "kmem_inv bf m" "pt_inv m kpt" "\<forall>r \<in> set rs. region_ok r"
    "sorted_wrt (\<lambda>r r'. region_pages r \<inter> region_pages r' = {}) rs"
    "\<forall>r \<in> set rs. \<forall>k \<in> region_pages r. \<not> pte_is_valid (pte_pg m kpt k)"
  shows "kfold (region_map bf kpt) m rs = Panicked no_kernel_memory \<or>
         (\<exists>m'. kfold (region_map bf kpt) m rs = Done m' \<and> pt_frame bf kpt m m' \<and> regions_mapped kpt m m' rs)"
  using assms
proof (induction rs arbitrary: m)
  case Nil
  then show ?case by (auto simp: pt_frame_refl regions_mapped_def)
next
  case (Cons r rs)
  have "region_ok r" "\<forall>k \<in> region_pages r. \<not> pte_is_valid (pte_pg m kpt k)" using Cons.prems by simp_all
  from region_map_spec [OF Cons.prems(1,2) this] consider (none) "region_map bf kpt m r = Panicked no_kernel_memory"
    | (some) m1 where "region_map bf kpt m r = Done m1" "pt_frame bf kpt m m1" "regions_mapped kpt m m1 [r]" by blast
  then show ?case
  proof cases
    case some
    have dj: "k \<notin> region_pages r" "k < 2 ^ 27" if "r' \<in> set rs" "k \<in> region_pages r'" for r' k
      using that Cons.prems(3,4) region_page_bound [of r' k] by auto
    then have un: "\<forall>r \<in> set rs. \<forall>k \<in> region_pages r. \<not> pte_is_valid (pte_pg m1 kpt k)"
      using some(3) Cons.prems(5) by (simp add: regions_mapped_def)
    have "kfold (region_map bf kpt) m1 rs = Panicked no_kernel_memory \<or>
        (\<exists>m'. kfold (region_map bf kpt) m1 rs = Done m' \<and> pt_frame bf kpt m1 m' \<and> regions_mapped kpt m1 m' rs)"
      by (rule Cons.IH [OF pt_frameD(1,2) [OF some(2)] _ _ un]) (use Cons.prems in simp_all)
    moreover have "regions_mapped kpt m m' (r # rs)" if "regions_mapped kpt m1 m' rs" for m'
      unfolding regions_mapped_def
    proof (intro conjI ballI allI impI)
      fix r' k assume *: "r' \<in> set (r # rs)" "k \<in> region_pages r'"
      show "pte_pg m' kpt k = region_entry r' k"
      proof (cases "r' \<in> set rs")
        case False
        then have r': "r' = r" "k < 2 ^ 27" using * Cons.prems(3) region_page_bound [of r k] by auto
        then have "\<forall>r \<in> set rs. k \<notin> region_pages r" using * dj by blast
        then show ?thesis using that some(3) r' * by (simp add: regions_mapped_def)
      qed (use that * in \<open>simp add: regions_mapped_def\<close>)
    qed (use that some(3) in \<open>simp add: regions_mapped_def\<close>)
    ultimately show ?thesis using some pt_frame_trans by fastforce
  qed simp
qed

end

section \<open>Translation of kernel addresses\<close>

lemma region_kvm_pa:
  assumes inv: "kmem_inv bf m" "pt_inv m kpt" and ok: "region_ok (va, pa, sz, perm)" and x: "unat x < unat sz"
    and e: "\<forall>k \<in> region_pages (va, pa, sz, perm). pte_pg m kpt k = region_entry (va, pa, sz, perm) k"
  shows "kvm_pa kpt (VirtAddr (va + x)) m = Done (pa + x)"
proof -
  let ?n = "unat va div 4096" and ?j = "unat x div 4096"
  have b: "unat va + unat x < 2 ^ 64" "unat pa + unat x + 2 * 4096 < 2 ^ 64" using ok x by (simp_all add: MAXVA_def)
  have u: "unat (va + x) = unat va + unat x" using b by (simp add: unat_plus_no_overflow)
  have n: "unat (va + x) div 4096 = ?n + ?j" "unat (va + x) mod 4096 = unat x mod 4096"
    using ok by (auto simp: u elim!: dvdE simp flip: dvd_eq_mod_eq_0)
  define a where "a = pa + of_nat (4096 * ?j)"
  have uj: "unat (of_nat (4096 * ?j) :: usize) = 4096 * ?j" using b by (subst unat_of_nat) simp
  have le: "4096 * ?j \<le> unat x" by simp
  have ua: "unat a = unat pa + 4096 * ?j" 
  proof -
    have "unat pa + 4096 * ?j < 2 ^ LENGTH(64)" using b le by simp
    then show ?thesis using unat_plus_no_overflow [of pa "of_nat (4096 * ?j)"] unfolding a_def uj by blast
  qed
  have al: "unat a mod 4096 = 0" using ok by (simp add: ua)
  have "unat sz div 4096 * 4096 = unat sz" using ok by auto
  then have "?j < unat sz div 4096" using x by (metis less_mult_imp_div_less)
  moreover have "(unat va + unat sz) div 4096 = ?n + unat sz div 4096" using ok by auto
  ultimately have k: "?n + ?j \<in> region_pages (va, pa, sz, perm)" by simp
  have p: "pte_pg m kpt (?n + ?j) = pte_write_perm (PhysAddr a) perm" using e k by (simp add: a_def)
  have "perm_ok perm" using ok by simp
  note f = pte_write_perm_facts [OF al this]
  have "tbl m kpt (va_path (va + x)) \<noteq> None"
    using f(2) p pte_pg_va [of m kpt "va + x"] n(1) by (auto simp: pte_def split: option.splits)
  then have fp: "find_pte kpt (VirtAddr (va + x)) m = Done (Some (pte_write_perm (PhysAddr a) perm))"
    using find_pte_spec [OF inv, of "va + x"] n(1) p by simp
  have um: "unat ((va + x) mod PAGE_SIZE) = unat x mod 4096" using n(2) by (simp add: unat_mod PAGE_SIZE_def)
  have "unat a + unat x mod 4096 = unat pa + unat x" by (simp add: ua)
  then have "usize_add a ((va + x) mod PAGE_SIZE) = Done (pa + x)"
    using b by (auto simp: usize_add_eq_Done um unat_plus_no_overflow simp flip: unat_inject)
  then show ?thesis using fp f(1,2) by (simp add: kvm_pa_def)
qed

text \<open>
  C24 (the kernel's address space): \<^verbatim>\<open>kvm_init\<close> on an empty kernel page table, with \<^verbatim>\<open>etext\<close> and
  \<^verbatim>\<open>trampoline\<close> on page boundaries, either panics because the heap has no page left for a table,
  or builds a well-formed page table in which \<^verbatim>\<open>kvm_pa\<close> sends every address of the devices, of the
  kernel text and data and of the rest of memory to itself, and the trampoline page at
  \<^verbatim>\<open>TRAMPOLINE\<close> to \<^verbatim>\<open>trampoline\<close>; the ranges never collide.
\<close>

theorem kvm_init_correct:
  assumes "bit_crate bf" and "kmem_inv bf m" and "pt_inv m kpt" and "\<forall>k < 2 ^ 27. \<not> pte_is_valid (pte_pg m kpt k)"
    and "unat etext mod 4096 = 0" and "KERNBASE \<le> etext" and "etext \<le> KERNEL_HEAP_END"
    and "unat trampoline mod 4096 = 0" and "trampoline \<le> PHYSTOP"
  shows "kvm_init bf kpt etext trampoline m = Panicked no_kernel_memory \<or>
    (\<exists>m'. kvm_init bf kpt etext trampoline m = Done m' \<and> kmem_inv bf m' \<and> pt_inv m' kpt \<and>
       (\<forall>(va, pa, sz, perm) \<in> set (kernel_regions etext trampoline).
          \<forall>x. unat x < unat sz \<longrightarrow> kvm_pa kpt (VirtAddr (va + x)) m' = Done (pa + x)))"
proof -
  let ?rs = "kernel_regions etext trampoline"
  have perms: "perm_ok (PTE_R OR PTE_W)" "perm_ok (PTE_R OR PTE_X)" by (simp_all add: perm_ok_def flag_defs)
  have vals: "unat KERNBASE = 0x80000000" "unat KERNEL_HEAP_END = 0x88000000" "unat PHYSTOP = 0x8c000000"
    "unat TRAMPOLINE = 0x3FFFFFF000" "unat MAXVA = 2 ^ 38" "unat (PHYSTOP - KERNEL_HEAP_END) = 0x4000000"
    by (simp_all add: layout_defs)
  have e: "0x80000000 \<le> unat etext" "unat etext \<le> 0x88000000" "unat trampoline \<le> 0x8c000000"
    using assms(6,7,9) by (simp_all add: word_le_nat_alt vals)
  have sub: "unat (etext - KERNBASE) = unat etext - 0x80000000" "unat (KERNEL_HEAP_END - etext) = 0x88000000 - unat etext"
    using assms(6,7) by (simp_all add: unat_sub vals)
  obtain q where q: "unat etext = 4096 * q" using assms(5) by auto
  have al: "(unat etext - 0x80000000) mod 4096 = 0" "(0x88000000 - unat etext) mod 4096 = 0" using q e by auto
  have ok: "\<forall>r \<in> set ?rs. region_ok r"
    using perms assms(5,8) e al by (simp add: kernel_regions_def vals sub device_defs PAGE_SIZE_def)
  have dj: "sorted_wrt (\<lambda>r r'. region_pages r \<inter> region_pages r' = {}) ?rs"
    using e q by (simp add: kernel_regions_def vals sub device_defs PAGE_SIZE_def)
  have un: "\<forall>r \<in> set ?rs. \<forall>k \<in> region_pages r. \<not> pte_is_valid (pte_pg m kpt k)"
  proof (intro ballI)
    fix r k assume "r \<in> set ?rs" "k \<in> region_pages r"
    then have "k < 2 ^ 26" using ok region_page_bound by blast
    then show "\<not> pte_is_valid (pte_pg m kpt k)" using assms(4) by simp
  qed
  have eq: "kvm_init bf kpt etext trampoline m = kfold (region_map bf kpt) m ?rs"
    by (rule kvm_init_regions [OF assms(5-9)])
  have "kvm_pa kpt (VirtAddr (va + x)) m' = Done (pa + x)"
    if "pt_frame bf kpt m m'" "regions_mapped kpt m m' ?rs" "(va, pa, sz, perm) \<in> set ?rs" "unat x < unat sz" for m' va pa sz perm x
    using region_kvm_pa [OF pt_frameD(1,2) [OF that(1)], of va pa sz perm x] that(2-4) ok unfolding regions_mapped_def by blast
  then show ?thesis
    using page_heap.regions_spec [OF bit_crate_heap [OF assms(1)] assms(2,3) ok dj un] pt_frameD(1,2) unfolding eq by blast
qed

theorem kvm_init_correct_witness:
  "kvm_init word_bits 0x5000 0x80010000 0x80001000 (demo 12) = Panicked no_kernel_memory \<or>
   (\<exists>m'. kvm_init word_bits 0x5000 0x80010000 0x80001000 (demo 12) = Done m' \<and> kvm_pa 0x5000 (VirtAddr 0x10000005) m' = Done 0x10000005)"
proof -
  have inv: "kmem_inv word_bits (demo 12)" by (rule demo_inv) simp_all
  have un: "\<forall>k < 2 ^ 27. \<not> pte_is_valid (pte_pg (demo 12) 0x5000 k)" by (simp add: demo_pte)
  have r: "(UART0, UART0, UART0_MAP_SIZE, PTE_R OR PTE_W) \<in> set (kernel_regions 0x80010000 0x80001000)"
    by (simp add: kernel_regions_def)
  have "kvm_pa 0x5000 (VirtAddr 0x10000005) m' = Done 0x10000005"
    if "\<forall>(va, pa, sz, perm) \<in> set (kernel_regions 0x80010000 0x80001000).
          \<forall>x. unat x < unat sz \<longrightarrow> kvm_pa 0x5000 (VirtAddr (va + x)) m' = Done (pa + x)" for m'
    using bspec [OF that r] by (auto simp: UART0_def UART0_MAP_SIZE_def PAGE_SIZE_def dest: spec [of _ "5 :: usize"])
  then show ?thesis
    using kvm_init_correct [OF word_bits.bit_crate_axioms inv demo_pt(2) un, of "0x80010000" "0x80001000"]
    by (auto simp: layout_defs)
qed

end
