(* ===== verification/Spinlock.thy ===== *)
theory Spinlock
  imports Prelude
begin

text \<open>
  Spin locks and the nesting of interrupt-off sections (\<^verbatim>\<open>kernel/src/spinlock.rs\<close>,
  \<^verbatim>\<open>push_off\<close>, \<^verbatim>\<open>pop_off\<close> and \<^verbatim>\<open>sched\<close> of \<^verbatim>\<open>kernel/src/process/cpu.rs\<close>). The state of a processor is its entry of
  \<^verbatim>\<open>CPU_MANAGER\<close> together with the interrupt-enable bit of its \<^verbatim>\<open>sstatus\<close>. Any number of
  processors run; a compare-exchange is one atomic step.
\<close>

section \<open>Definitions\<close>

record cpu =
  cpu_noff :: u8
  cpu_intena :: bool
  cpu_intr :: bool

definition cpu_new :: cpu where
  "cpu_new = \<lparr>cpu_noff = 0, cpu_intena = False, cpu_intr = False\<rparr>"

definition push_off :: "cpu \<Rightarrow> cpu kres" where
  "push_off c =
     (let old = cpu_intr c;
          c1 = c\<lparr>cpu_intr := False\<rparr>;
          c2 = (if cpu_noff c1 = 0 then c1\<lparr>cpu_intena := old\<rparr> else c1)
      in if unat (cpu_noff c2) + 1 < 2 ^ 8 then Done (c2\<lparr>cpu_noff := cpu_noff c2 + 1\<rparr>)
         else Panicked ''attempt to add with overflow'')"

definition pop_off :: "cpu \<Rightarrow> cpu kres" where
  "pop_off c =
     (if cpu_intr c then Panicked ''pop_off(): interruptable''
      else if cpu_noff c = 0 then Panicked ''pop_off(): count not match''
      else let c1 = c\<lparr>cpu_noff := cpu_noff c - 1\<rparr>
           in Done (if cpu_noff c1 = 0 \<and> cpu_intena c1 then c1\<lparr>cpu_intr := True\<rparr> else c1))"

text \<open>\<^verbatim>\<open>cpuid\<close> is \<open>None\<close> for -1.\<close>

record spin_lock =
  sl_lock :: bool
  sl_cpuid :: "nat option"

definition spin_lock_new :: spin_lock where
  "spin_lock_new = \<lparr>sl_lock = False, sl_cpuid = None\<rparr>"

record machine =
  m_cpu :: "nat \<Rightarrow> cpu"
  m_lock :: "nat \<Rightarrow> spin_lock"

definition holding :: "nat \<Rightarrow> spin_lock \<Rightarrow> bool" where
  "holding c l \<longleftrightarrow> sl_lock l \<and> sl_cpuid l = Some c"

text \<open>
  \<^verbatim>\<open>acquire\<close> up to the loop, and one turn of the loop: \<open>None\<close> is a failed compare-exchange.
\<close>

definition acquire_begin :: "nat \<Rightarrow> nat \<Rightarrow> machine \<Rightarrow> machine kres" where
  "acquire_begin c l m =
     kbind (push_off (m_cpu m c)) (\<lambda>cp.
       if holding c (m_lock m l) then Panicked ''spinlock acquire''
       else Done (m\<lparr>m_cpu := (m_cpu m)(c := cp)\<rparr>))"

definition acquire_try :: "nat \<Rightarrow> nat \<Rightarrow> machine \<Rightarrow> machine option" where
  "acquire_try c l m =
     (if sl_lock (m_lock m l) then None
      else Some (m\<lparr>m_lock := (m_lock m)(l := \<lparr>sl_lock = True, sl_cpuid = Some c\<rparr>)\<rparr>))"

definition release :: "nat \<Rightarrow> nat \<Rightarrow> machine \<Rightarrow> machine kres" where
  "release c l m =
     (if \<not> holding c (m_lock m l) then Panicked ''spinlock release''
      else kbind (pop_off (m_cpu m c)) (\<lambda>cp.
             Done (m\<lparr>m_lock := (m_lock m)(l := spin_lock_new), m_cpu := (m_cpu m)(c := cp)\<rparr>)))"

text \<open>The tests of \<^verbatim>\<open>sched\<close> before it switches; \<open>l\<close> is the lock of the process.\<close>

definition sched_check :: "nat \<Rightarrow> nat \<Rightarrow> bool \<Rightarrow> machine \<Rightarrow> unit kres" where
  "sched_check c l running m =
     (if \<not> holding c (m_lock m l) then Panicked ''sched(): not holding proc lock''
      else if cpu_noff (m_cpu m c) \<noteq> 1 then Panicked ''sched(): cpu hold multi locks''
      else if running then Panicked ''sched(): proc is running''
      else if cpu_intr (m_cpu m c) then Panicked ''sched(): interruptible''
      else Done ())"

section \<open>Runs\<close>

text \<open>
  The lock each processor is spinning on, and the guards that exist with the processor each
  belongs to. Outside critical sections a processor may switch interrupts on or off.
\<close>

record run =
  r_machine :: machine
  r_spin :: "nat \<Rightarrow> nat option"
  r_held :: "(nat \<times> nat) set"
  r_base :: "nat \<Rightarrow> bool"

definition run_init :: "(nat \<Rightarrow> bool) \<Rightarrow> run" where
  "run_init on = \<lparr>r_machine = \<lparr>m_cpu = (\<lambda>c. cpu_new\<lparr>cpu_intr := on c\<rparr>), m_lock = (\<lambda>_. spin_lock_new)\<rparr>,
     r_spin = (\<lambda>_. None), r_held = {}, r_base = on\<rparr>"

definition depth :: "nat \<Rightarrow> run \<Rightarrow> nat" where
  "depth c r = card {l. (c, l) \<in> r_held r} + of_bool (r_spin r c \<noteq> None)"

inductive lock_step :: "run \<Rightarrow> run \<Rightarrow> bool" where
  begin': "r_spin r c = None \<Longrightarrow> acquire_begin c l (r_machine r) = Done m \<Longrightarrow>
    lock_step r (r\<lparr>r_machine := m, r_spin := (r_spin r)(c := Some l)\<rparr>)"
| take: "r_spin r c = Some l \<Longrightarrow> acquire_try c l (r_machine r) = Some m \<Longrightarrow>
    lock_step r (r\<lparr>r_machine := m, r_spin := (r_spin r)(c := None), r_held := insert (c, l) (r_held r)\<rparr>)"
| rel: "r_spin r c = None \<Longrightarrow> (c, l) \<in> r_held r \<Longrightarrow> release c l (r_machine r) = Done m \<Longrightarrow>
    lock_step r (r\<lparr>r_machine := m, r_held := r_held r - {(c, l)}\<rparr>)"
| intr: "cpu_noff (m_cpu (r_machine r) c) = 0 \<Longrightarrow>
    lock_step r (r\<lparr>r_machine := (r_machine r)\<lparr>m_cpu := (m_cpu (r_machine r))(c := (m_cpu (r_machine r) c)\<lparr>cpu_intr := b\<rparr>)\<rparr>,
      r_base := (r_base r)(c := b)\<rparr>)"

inductive lock_reach :: "run \<Rightarrow> bool" where
  init: "lock_reach (run_init on)"
| step: "lock_reach r \<Longrightarrow> lock_step r r' \<Longrightarrow> lock_reach r'"

definition lock_inv :: "run \<Rightarrow> bool" where
  "lock_inv r \<longleftrightarrow>
     finite (r_held r) \<and>
     (\<forall>c l. (c, l) \<in> r_held r \<longleftrightarrow> holding c (m_lock (r_machine r) l)) \<and>
     (\<forall>l. sl_lock (m_lock (r_machine r) l) \<longleftrightarrow> sl_cpuid (m_lock (r_machine r) l) \<noteq> None) \<and>
     (\<forall>c. unat (cpu_noff (m_cpu (r_machine r) c)) = depth c r) \<and>
     (\<forall>c. if depth c r = 0 then cpu_intr (m_cpu (r_machine r) c) = r_base r c
          else \<not> cpu_intr (m_cpu (r_machine r) c) \<and> cpu_intena (m_cpu (r_machine r) c) = r_base r c) \<and>
     (\<forall>c l. r_spin r c = Some l \<longrightarrow> (c, l) \<notin> r_held r)"

lemma push_off_spec:
  assumes "push_off c = Done c'"
  shows "unat (cpu_noff c') = Suc (unat (cpu_noff c))" "\<not> cpu_intr c'" "cpu_intena c' = (if cpu_noff c = 0 then cpu_intr c else cpu_intena c)"
  using assms by (auto simp: push_off_def Let_def unat_word_ariths split: if_splits)

lemma pop_off_spec:
  assumes "\<not> cpu_intr c" and "unat (cpu_noff c) = Suc n"
  shows "\<exists>c'. pop_off c = Done c' \<and> unat (cpu_noff c') = n \<and> cpu_intena c' = cpu_intena c \<and> cpu_intr c' = (n = 0 \<and> cpu_intena c)"
proof -
  have nz: "cpu_noff c \<noteq> 0" using assms(2) by auto
  have "1 \<le> cpu_noff c" using assms(2) by (simp add: word_le_nat_alt)
  then have u: "unat (cpu_noff c - 1) = n" using assms(2) by (simp add: unat_sub)
  then have "cpu_noff c - 1 = 0 \<longleftrightarrow> n = 0" by (metis unat_eq_zero)
  then show ?thesis using assms(1) nz u by (auto simp: pop_off_def Let_def)
qed

lemma held_fin: "finite (r_held r) \<Longrightarrow> finite {l. (c, l) \<in> r_held r}"
  by (rule finite_subset [of _ "snd ` r_held r"]) force+

lemma lock_invD:
  assumes "lock_inv r"
  shows "finite (r_held r)" "(c, l) \<in> r_held r \<longleftrightarrow> holding c (m_lock (r_machine r) l)"
    "sl_lock (m_lock (r_machine r) l) \<longleftrightarrow> sl_cpuid (m_lock (r_machine r) l) \<noteq> None"
    "unat (cpu_noff (m_cpu (r_machine r) c)) = depth c r"
    "depth c r = 0 \<Longrightarrow> cpu_intr (m_cpu (r_machine r) c) = r_base r c"
    "0 < depth c r \<Longrightarrow> \<not> cpu_intr (m_cpu (r_machine r) c) \<and> cpu_intena (m_cpu (r_machine r) c) = r_base r c"
    "r_spin r c = Some l \<Longrightarrow> (c, l) \<notin> r_held r"
  using assms unfolding lock_inv_def by (blast, blast, blast, blast, auto)

text \<open>It suffices to look at the processor and the lock of a step.\<close>

lemma lock_inv_step:
  assumes inv: "lock_inv r"
    and cpus: "\<And>c'. c' \<noteq> c \<Longrightarrow> m_cpu (r_machine r') c' = m_cpu (r_machine r) c'" "\<And>c'. c' \<noteq> c \<Longrightarrow> r_spin r' c' = r_spin r c'"
      "\<And>c'. c' \<noteq> c \<Longrightarrow> r_base r' c' = r_base r c'" "\<And>c' x. c' \<noteq> c \<Longrightarrow> (c', x) \<in> r_held r' \<longleftrightarrow> (c', x) \<in> r_held r"
    and locks: "\<And>x. x \<noteq> l \<Longrightarrow> m_lock (r_machine r') x = m_lock (r_machine r) x" "\<And>x. x \<noteq> l \<Longrightarrow> (c, x) \<in> r_held r' \<longleftrightarrow> (c, x) \<in> r_held r"
    and lock: "\<And>c'. (c', l) \<in> r_held r' \<longleftrightarrow> holding c' (m_lock (r_machine r') l)"
      "sl_lock (m_lock (r_machine r') l) \<longleftrightarrow> sl_cpuid (m_lock (r_machine r') l) \<noteq> None"
    and cpu: "unat (cpu_noff (m_cpu (r_machine r') c)) = depth c r'"
      "if depth c r' = 0 then cpu_intr (m_cpu (r_machine r') c) = r_base r' c
       else \<not> cpu_intr (m_cpu (r_machine r') c) \<and> cpu_intena (m_cpu (r_machine r') c) = r_base r' c"
      "\<And>x. r_spin r' c = Some x \<Longrightarrow> (c, x) \<notin> r_held r'"
  shows "lock_inv r'"
proof -
  note D = lock_invD [OF inv]
  have d: "depth c' r' = depth c' r" if "c' \<noteq> c" for c' using that cpus(2,4) by (simp add: depth_def)
  have "r_held r' \<subseteq> insert (c, l) (r_held r)"
  proof
    fix p assume "p \<in> r_held r'"
    then show "p \<in> insert (c, l) (r_held r)" using cpus(4) locks(2) by (cases p; cases "fst p = c"; cases "snd p = l") auto
  qed
  then have fin: "finite (r_held r')" using D(1) finite_subset by blast
  show ?thesis
    unfolding lock_inv_def
  proof (intro conjI allI fin impI)
    fix c' x
    show "(c', x) \<in> r_held r' \<longleftrightarrow> holding c' (m_lock (r_machine r') x)"
      using lock(1) D(2) [of c' x] locks cpus(4) by (cases "x = l"; cases "c' = c") auto
    show "sl_lock (m_lock (r_machine r') x) \<longleftrightarrow> sl_cpuid (m_lock (r_machine r') x) \<noteq> None"
      using lock(2) D(3) locks(1) by (cases "x = l") auto
    show "unat (cpu_noff (m_cpu (r_machine r') c')) = depth c' r'" using cpu(1) D(4) d cpus(1) by (cases "c' = c") auto
    show "if depth c' r' = 0 then cpu_intr (m_cpu (r_machine r') c') = r_base r' c'
       else \<not> cpu_intr (m_cpu (r_machine r') c') \<and> cpu_intena (m_cpu (r_machine r') c') = r_base r' c'"
      using cpu(2) D(5,6) [of c'] d cpus(1,3) by (cases "c' = c") auto
    assume "r_spin r' c' = Some x"
    then show "(c', x) \<notin> r_held r'" using cpu(3) D(7) [of c' x] cpus(2,4) by (cases "c' = c") auto
  qed
qed

lemma step_lock_inv: "lock_step r r' \<Longrightarrow> lock_inv r \<Longrightarrow> lock_inv r'"
proof (induction rule: lock_step.induct)
  case (begin' r c l m)
  note D = lock_invD [OF begin'(3)]
  obtain cp where cp: "push_off (m_cpu (r_machine r) c) = Done cp" "\<not> holding c (m_lock (r_machine r) l)"
      "m = (r_machine r)\<lparr>m_cpu := (m_cpu (r_machine r))(c := cp)\<rparr>"
    using begin'(2) by (auto simp: acquire_begin_def kres_simps split: if_splits)
  note p = push_off_spec [OF cp(1)]
  let ?r = "r\<lparr>r_machine := m, r_spin := (r_spin r)(c := Some l)\<rparr>"
  have d: "depth c ?r = Suc (depth c r)" using begin'(1) by (simp add: depth_def)
  have z: "cpu_noff (m_cpu (r_machine r) c) = 0 \<longleftrightarrow> depth c r = 0" using D(4) [of c] by (metis unat_eq_zero)
  show ?case
    by (rule lock_inv_step [OF begin'(3), of c _ l]) (use cp D p d z in \<open>auto simp: cp(3)\<close>)
next
  case (take r c l m)
  note D = lock_invD [OF take(3)]
  have m: "\<not> sl_lock (m_lock (r_machine r) l)" "m = (r_machine r)\<lparr>m_lock := (m_lock (r_machine r))(l := \<lparr>sl_lock = True, sl_cpuid = Some c\<rparr>)\<rparr>"
    using take(2) by (auto simp: acquire_try_def split: if_splits)
  let ?r = "r\<lparr>r_machine := m, r_spin := (r_spin r)(c := None), r_held := insert (c, l) (r_held r)\<rparr>"
  have n: "(c', l) \<notin> r_held r" for c' using D(2) [of c' l] m(1) by (simp add: holding_def)
  have "{x. (c, x) \<in> r_held ?r} = insert l {x. (c, x) \<in> r_held r}" by auto
  then have d: "depth c ?r = depth c r" using take(1) n held_fin [OF D(1), of c] by (simp add: depth_def)
  show ?case
    by (rule lock_inv_step [OF take(3), of c _ l]) (use m n D(4-6) [of c] D(3) d in \<open>auto simp: m(2) holding_def\<close>)
next
  case (rel r c l m)
  note D = lock_invD [OF rel(4)]
  let ?r = "r\<lparr>r_machine := m, r_held := r_held r - {(c, l)}\<rparr>"
  have "{x. (c, x) \<in> r_held ?r} = {x. (c, x) \<in> r_held r} - {l}" by auto
  moreover have "l \<in> {x. (c, x) \<in> r_held r}" using rel(2) by simp
  ultimately have d: "depth c r = Suc (depth c ?r)"
    using rel(1) held_fin [OF D(1), of c] card_Suc_Diff1 [of "{x. (c, x) \<in> r_held r}" l] by (simp add: depth_def)
  obtain cp where cp: "pop_off (m_cpu (r_machine r) c) = Done cp" "unat (cpu_noff cp) = depth c ?r"
      "cpu_intena cp = cpu_intena (m_cpu (r_machine r) c)" "cpu_intr cp = (depth c ?r = 0 \<and> cpu_intena (m_cpu (r_machine r) c))"
    using pop_off_spec [of "m_cpu (r_machine r) c" "depth c ?r"] D(4,6) [of c] d by auto
  have m: "m = (r_machine r)\<lparr>m_lock := (m_lock (r_machine r))(l := spin_lock_new), m_cpu := (m_cpu (r_machine r))(c := cp)\<rparr>"
    using rel(3) cp(1) by (auto simp: release_def split: if_splits)
  have only: "c' = c" if "(c', l) \<in> r_held r" for c' using that rel(2) D(2) [of c' l] D(2) [of c l] by (auto simp: holding_def)
  show ?case
    by (rule lock_inv_step [OF rel(4), of c _ l])
       (use cp d D(6) [of c] rel(1) only in \<open>auto simp: m holding_def spin_lock_new_def\<close>)
next
  case (intr r c b)
  note D = lock_invD [OF intr(2)]
  let ?r = "r\<lparr>r_machine := (r_machine r)\<lparr>m_cpu := (m_cpu (r_machine r))(c := (m_cpu (r_machine r) c)\<lparr>cpu_intr := b\<rparr>)\<rparr>,
      r_base := (r_base r)(c := b)\<rparr>"
  have "depth c ?r = depth c r" by (simp add: depth_def)
  moreover have "depth c r = 0" using D(4) [of c] intr(1) by simp
  ultimately show ?case
    by (intro lock_inv_step [OF intr(2), of c _ 0]) (use D intr(1) in auto)
qed

lemma reach_lock_inv: "lock_reach r \<Longrightarrow> lock_inv r"
proof (induction rule: lock_reach.induct)
  case (init on)
  show ?case by (simp add: lock_inv_def run_init_def depth_def cpu_new_def spin_lock_new_def holding_def)
qed (rule step_lock_inv)

section \<open>Properties\<close>

text \<open>
  C10 (spin locks): in every run of any number of processors a lock has at most one holder; a processor
  that holds or waits for a lock has interrupts off; a free lock can be taken; the holder can
  always release, and after the last release interrupts are as they were before the first
  acquire; acquiring a lock twice on a processor panics instead of waiting forever; and the tests of
  \<^verbatim>\<open>sched\<close> pass exactly if the process lock is the only one held.
\<close>

theorem spinlock_correct:
  assumes "lock_reach r"
  shows "(\<forall>c c' l. (c, l) \<in> r_held r \<and> (c', l) \<in> r_held r \<longrightarrow> c = c') \<and>
    (\<forall>c l. (c, l) \<in> r_held r \<or> r_spin r c = Some l \<longrightarrow> \<not> cpu_intr (m_cpu (r_machine r) c)) \<and>
    (\<forall>c l. r_spin r c = Some l \<and> (\<forall>c'. (c', l) \<notin> r_held r) \<longrightarrow> acquire_try c l (r_machine r) \<noteq> None) \<and>
    (\<forall>c l. (c, l) \<in> r_held r \<and> r_spin r c = None \<longrightarrow> (\<exists>m. release c l (r_machine r) = Done m \<and>
       ({x. (c, x) \<in> r_held r} = {l} \<longrightarrow> cpu_intr (m_cpu m c) = r_base r c))) \<and>
    (\<forall>c l. depth c r < 255 \<longrightarrow> (if (c, l) \<in> r_held r then acquire_begin c l (r_machine r) = Panicked ''spinlock acquire''
       else \<exists>m. acquire_begin c l (r_machine r) = Done m)) \<and>
    (\<forall>c l. (c, l) \<in> r_held r \<and> r_spin r c = None \<longrightarrow>
       (sched_check c l False (r_machine r) = Done () \<longleftrightarrow> {x. (c, x) \<in> r_held r} = {l}))"
proof -
  note D = lock_invD [OF reach_lock_inv [OF assms]]
  have pos: "0 < depth c r" if "(c, l) \<in> r_held r \<or> r_spin r c = Some l" for c l
    using that held_fin [OF D(1), of c] by (auto simp: depth_def card_gt_0_iff)
  have one: "depth c r = 1 \<longleftrightarrow> {x. (c, x) \<in> r_held r} = {l}" if "(c, l) \<in> r_held r" "r_spin r c = None" for c l
  proof -
    have "l \<in> {x. (c, x) \<in> r_held r}" using that by simp
    moreover have "depth c r = card {x. (c, x) \<in> r_held r}" using that(2) by (simp add: depth_def)
    ultimately show ?thesis by (metis card_1_singletonE is_singletonI is_singleton_altdef singletonD)
  qed
  have mutex: "c = c'" if "(c, l) \<in> r_held r" "(c', l) \<in> r_held r" for c c' l
    using that D(2) [of c l] D(2) [of c' l] by (simp add: holding_def)
  have take: "acquire_try c l (r_machine r) \<noteq> None" if "\<forall>c'. (c', l) \<notin> r_held r" for c l
    using that D(2) [of _ l] D(3) [of l] by (auto simp: acquire_try_def holding_def)
  have rel: "\<exists>m. release c l (r_machine r) = Done m \<and> ({x. (c, x) \<in> r_held r} = {l} \<longrightarrow> cpu_intr (m_cpu m c) = r_base r c)"
    if h: "(c, l) \<in> r_held r" "r_spin r c = None" for c l
  proof -
    obtain n where n: "depth c r = Suc n" using pos h(1) gr0_implies_Suc by blast
    obtain cp where "pop_off (m_cpu (r_machine r) c) = Done cp" "cpu_intr cp = (n = 0 \<and> cpu_intena (m_cpu (r_machine r) c))"
      using pop_off_spec [of "m_cpu (r_machine r) c" n] D(4,6) [of c] n by auto
    then show ?thesis using h D(2) [of c l] D(6) [of c] one [OF h] n by (auto simp: release_def)
  qed
  have acq: "if (c, l) \<in> r_held r then acquire_begin c l (r_machine r) = Panicked ''spinlock acquire''
       else \<exists>m. acquire_begin c l (r_machine r) = Done m" if "depth c r < 255" for c l
  proof -
    have "\<exists>cp. push_off (m_cpu (r_machine r) c) = Done cp" using that D(4) [of c] by (auto simp: push_off_def Let_def)
    then show ?thesis using D(2) [of c l] by (auto simp: acquire_begin_def)
  qed
  have sched: "sched_check c l False (r_machine r) = Done () \<longleftrightarrow> {x. (c, x) \<in> r_held r} = {l}" if h: "(c, l) \<in> r_held r" "r_spin r c = None" for c l
  proof -
    have "cpu_noff (m_cpu (r_machine r) c) = 1 \<longleftrightarrow> depth c r = 1" using D(4) [of c] by (simp add: word_unat_eq_iff)
    then show ?thesis using h D(2) [of c l] D(6) [of c] pos one [OF h] by (auto simp: sched_check_def)
  qed
  show ?thesis using mutex take rel acq sched pos D(6) by (intro conjI allI impI) auto
qed

text \<open>Processor 0 holds lock 5.\<close>

definition demo_run :: run where
  "demo_run = (run_init (\<lambda>_. True))\<lparr>r_machine := \<lparr>m_cpu = (\<lambda>_. cpu_new\<lparr>cpu_intr := True\<rparr>)(0 := \<lparr>cpu_noff = 1, cpu_intena = True, cpu_intr = False\<rparr>),
     m_lock = (\<lambda>_. spin_lock_new)(5 := \<lparr>sl_lock = True, sl_cpuid = Some 0\<rparr>)\<rparr>, r_held := {(0, 5)}\<rparr>"

lemma demo_run_reach: "lock_reach demo_run"
proof -
  let ?i = "run_init (\<lambda>_. True)"
  let ?m = "(r_machine ?i)\<lparr>m_cpu := (m_cpu (r_machine ?i))(0 := \<lparr>cpu_noff = 1, cpu_intena = True, cpu_intr = False\<rparr>)\<rparr>"
  let ?r1 = "?i\<lparr>r_machine := ?m, r_spin := (r_spin ?i)(0 := Some 5)\<rparr>"
  have "lock_step ?i ?r1"
    by (rule lock_step.begin') (simp_all add: run_init_def acquire_begin_def push_off_def cpu_new_def holding_def spin_lock_new_def)
  then have r1: "lock_reach ?r1" by (rule lock_reach.step [OF lock_reach.init])
  let ?m2 = "?m\<lparr>m_lock := (m_lock ?m)(5 := \<lparr>sl_lock = True, sl_cpuid = Some 0\<rparr>)\<rparr>"
  have "lock_step ?r1 (?r1\<lparr>r_machine := ?m2, r_spin := (r_spin ?r1)(0 := None), r_held := insert (0, 5) (r_held ?r1)\<rparr>)"
    by (rule lock_step.take) (simp_all add: run_init_def acquire_try_def spin_lock_new_def)
  moreover have "?r1\<lparr>r_machine := ?m2, r_spin := (r_spin ?r1)(0 := None), r_held := insert (0, 5) (r_held ?r1)\<rparr> = demo_run"
    by (simp add: demo_run_def run_init_def fun_eq_iff)
  ultimately show ?thesis using lock_reach.step [OF r1] by metis
qed

theorem spinlock_correct_witness:
  "acquire_begin 0 5 (r_machine demo_run) = Panicked ''spinlock acquire'' \<and> \<not> cpu_intr (m_cpu (r_machine demo_run) 0) \<and>
   (\<exists>m. release 0 5 (r_machine demo_run) = Done m \<and> cpu_intr (m_cpu m 0))"
proof -
  note c = spinlock_correct [OF demo_run_reach]
  have h: "(0, 5) \<in> r_held demo_run" "{x. (0 :: nat, x) \<in> r_held demo_run} = {5}" "r_spin demo_run 0 = None" "r_base demo_run 0"
    by (simp_all add: demo_run_def run_init_def)
  moreover have "depth 0 demo_run < 255" by (simp add: depth_def h)
  ultimately show ?thesis using c by fastforce
qed

end
