(* ===== verification/Sched.thy ===== *)
theory Sched
  imports IdAlloc
begin

text \<open>
  The process table and the run queue (\<^verbatim>\<open>kernel/src/process/mod.rs\<close>, \<^verbatim>\<open>process/proc/mod.rs\<close>,
  \<^verbatim>\<open>process/proc/manager.rs\<close> and \<^verbatim>\<open>scheduler\<close> of \<^verbatim>\<open>process/cpu.rs\<close>). Processes are their indices in the table. What an
  operation does to files and memory of a process is recorded as a list of events; saved registers
  are not part of the model. \<open>chan i\<close> is the address of the table entry \<open>i\<close>, used as a wait channel.
\<close>

section \<open>Definitions\<close>

definition NFILE :: nat where
  "NFILE = 16"

datatype proc_state = UNUSED | SLEEPING | RUNNABLE | RUNNING | ALLOCATED | ZOMBIE

record proc_excl =
  pe_state :: proc_state
  pe_exit_status :: u32
  pe_channel :: usize
  pe_pid :: nat
  pe_priority :: usize

record proc_alarm =
  al_interval :: usize
  al_past_tick :: usize
  al_handler_addr :: usize
  al_alarm_frame :: usize
  al_handler_called :: bool

record proc_data =
  pd_kstack :: usize
  pd_ustack_base :: usize
  pd_size :: usize
  pd_name :: "u8 list"
  pd_open_files :: "nat option list"
  pd_trapframe :: usize
  pd_up :: usize
  pd_pagetable :: "usize option"
  pd_cwd :: "nat option"
  pd_tracemask :: usize
  pd_tasks :: "nat list"

record process =
  pr_excl :: proc_excl
  pr_data :: proc_data
  pr_killed :: bool
  pr_alarm :: proc_alarm

datatype proc_event = CloseFile nat | DupFile nat | DropCwd nat | DupCwd nat | DropTask nat | FreePage usize | FreePagetable usize usize nat

record procs =
  ps_table :: "process list"
  ps_parents :: "nat option list"
  ps_init_proc :: nat
  ps_fifo :: "nat list"
  ps_cpu :: "nat \<Rightarrow> nat option"
  ps_pids :: recycle_allocator
  ps_events :: "proc_event list"

definition proc_excl_new :: proc_excl where
  "proc_excl_new = \<lparr>pe_state = UNUSED, pe_exit_status = 0, pe_channel = 0, pe_pid = 0, pe_priority = 0\<rparr>"

definition excl_cleanup :: "proc_excl \<Rightarrow> proc_excl" where
  "excl_cleanup e = e\<lparr>pe_priority := 0, pe_pid := 0, pe_channel := 0, pe_exit_status := 0, pe_state := UNUSED\<rparr>"

definition proc_alarm_new :: proc_alarm where
  "proc_alarm_new = \<lparr>al_interval = 0, al_past_tick = 0, al_handler_addr = -1, al_alarm_frame = 0, al_handler_called = False\<rparr>"

definition free_page :: "usize \<Rightarrow> proc_event list" where
  "free_page pa = (if pa = 0 then [] else [FreePage pa])"

definition alarm_cleanup :: "proc_alarm \<Rightarrow> proc_alarm \<times> proc_event list" where
  "alarm_cleanup a =
     (a\<lparr>al_interval := 0, al_past_tick := 0, al_handler_addr := -1, al_handler_called := False, al_alarm_frame := 0\<rparr>,
      free_page (al_alarm_frame a))"

definition proc_data_new :: proc_data where
  "proc_data_new = \<lparr>pd_kstack = 0, pd_ustack_base = 0, pd_size = 0, pd_name = replicate 16 0, pd_open_files = replicate NFILE None, pd_trapframe = 0, pd_up = 0,
     pd_pagetable = None, pd_cwd = None, pd_tracemask = 0, pd_tasks = []\<rparr>"

definition data_cleanup :: "nat \<Rightarrow> proc_data \<Rightarrow> proc_data \<times> proc_event list" where
  "data_cleanup pid d =
     (d\<lparr>pd_name := (pd_name d)[0 := 0], pd_trapframe := 0, pd_up := 0, pd_pagetable := None, pd_size := 0\<rparr>,
      free_page (pd_trapframe d) @ free_page (pd_up d) @
      (case pd_pagetable d of None \<Rightarrow> [] | Some pgt \<Rightarrow> [FreePagetable pgt (pd_size d) pid]))"

definition close_files :: "proc_data \<Rightarrow> (proc_data \<times> proc_event list) kres" where
  "close_files d =
     (case pd_cwd d of
        None \<Rightarrow> Panicked ''assertion failed: self.cwd.is_some()''
      | Some cwd \<Rightarrow> Done (d\<lparr>pd_open_files := map (\<lambda>_. None) (pd_open_files d), pd_cwd := None\<rparr>,
          map CloseFile (List.map_filter id (pd_open_files d)) @ [DropCwd cwd]))"

definition process_new :: process where
  "process_new = \<lparr>pr_excl = proc_excl_new, pr_data = proc_data_new, pr_killed = False, pr_alarm = proc_alarm_new\<rparr>"

definition procs_new :: procs where
  "procs_new = \<lparr>ps_table = replicate NPROC process_new, ps_parents = replicate NPROC None, ps_init_proc = 0, ps_fifo = [],
     ps_cpu = (\<lambda>_. None), ps_pids = recycle_new, ps_events = []\<rparr>"

definition upd_proc :: "nat \<Rightarrow> (process \<Rightarrow> process) \<Rightarrow> procs \<Rightarrow> procs" where
  "upd_proc i f s = s\<lparr>ps_table := (ps_table s)[i := f (ps_table s ! i)]\<rparr>"

definition set_excl :: "nat \<Rightarrow> (proc_excl \<Rightarrow> proc_excl) \<Rightarrow> procs \<Rightarrow> procs" where
  "set_excl i f = upd_proc i (\<lambda>p. p\<lparr>pr_excl := f (pr_excl p)\<rparr>)"

definition excl :: "procs \<Rightarrow> nat \<Rightarrow> proc_excl" where
  "excl s i = pr_excl (ps_table s ! i)"

definition emit :: "proc_event list \<Rightarrow> procs \<Rightarrow> procs" where
  "emit evs s = s\<lparr>ps_events := ps_events s @ evs\<rparr>"

text \<open>The queue of \<^verbatim>\<open>ProcessFIFO\<close>.\<close>

definition fifo_add :: "nat \<Rightarrow> procs \<Rightarrow> procs" where
  "fifo_add i s = s\<lparr>ps_fifo := ps_fifo s @ [i]\<rparr>"

definition fifo_fetch :: "procs \<Rightarrow> nat option \<times> procs" where
  "fifo_fetch s = (case ps_fifo s of [] \<Rightarrow> (None, s) | i # is \<Rightarrow> (Some i, s\<lparr>ps_fifo := is\<rparr>))"

fun wakeup_loop :: "usize \<Rightarrow> nat list \<Rightarrow> procs \<Rightarrow> procs" where
  "wakeup_loop ch [] s = s"
| "wakeup_loop ch (i # is) s =
     wakeup_loop ch is
       (if pe_state (excl s i) = SLEEPING \<and> pe_channel (excl s i) = ch
        then fifo_add i (set_excl i (\<lambda>e. e\<lparr>pe_state := RUNNABLE\<rparr>) s) else s)"

definition wakeup :: "usize \<Rightarrow> procs \<Rightarrow> procs" where
  "wakeup ch s = wakeup_loop ch [0..<length (ps_table s)] s"

definition set_parent :: "nat \<Rightarrow> nat \<Rightarrow> procs \<Rightarrow> procs kres" where
  "set_parent child_i parent_i s =
     (if ps_parents s ! child_i \<noteq> None then Panicked ''assertion failed: ret.is_none()''
      else Done (s\<lparr>ps_parents := (ps_parents s)[child_i := Some parent_i]\<rparr>))"

text \<open>
  One turn of the loop of \<^verbatim>\<open>scheduler\<close> up to the switch, and what it does when the process switches
  back.
\<close>

definition scheduler_pick :: "nat \<Rightarrow> procs \<Rightarrow> nat option \<times> procs" where
  "scheduler_pick c s =
     (case fifo_fetch s of
        (None, s1) \<Rightarrow> (None, s1)
      | (Some i, s1) \<Rightarrow> (Some i, set_excl i (\<lambda>e. e\<lparr>pe_state := RUNNING\<rparr>) (s1\<lparr>ps_cpu := (ps_cpu s1)(c := Some i)\<rparr>)))"

definition switch_back :: "nat \<Rightarrow> procs \<Rightarrow> procs kres" where
  "switch_back c s =
     (if ps_cpu s c = None then Panicked ''context switch back with no process reference''
      else Done (s\<lparr>ps_cpu := (ps_cpu s)(c := None)\<rparr>))"

definition my_proc :: "nat \<Rightarrow> procs \<Rightarrow> nat kres" where
  "my_proc c s = (case ps_cpu s c of None \<Rightarrow> Panicked ''my_proc(): no process running'' | Some i \<Rightarrow> Done i)"

definition yielding :: "nat \<Rightarrow> nat \<Rightarrow> procs \<Rightarrow> procs kres" where
  "yielding c i s =
     (if pe_state (excl s i) \<noteq> RUNNING then Panicked ''assertion failed: guard.state == RUNNING''
      else switch_back c (fifo_add i (set_excl i (\<lambda>e. e\<lparr>pe_state := RUNNABLE\<rparr>) s)))"

definition try_yield_proc :: "nat \<Rightarrow> procs \<Rightarrow> procs kres" where
  "try_yield_proc c s =
     (case ps_cpu s c of
        None \<Rightarrow> Done s
      | Some i \<Rightarrow> if pe_state (excl s i) = RUNNING then yielding c i s else Done s)"

text \<open>\<^verbatim>\<open>sleep\<close> up to the switch, and after it.\<close>

definition sleep :: "nat \<Rightarrow> nat \<Rightarrow> usize \<Rightarrow> procs \<Rightarrow> procs kres" where
  "sleep c i ch s = switch_back c (set_excl i (\<lambda>e. e\<lparr>pe_channel := ch, pe_state := SLEEPING\<rparr>) s)"

definition sleep_return :: "nat \<Rightarrow> procs \<Rightarrow> procs" where
  "sleep_return i = set_excl i (\<lambda>e. e\<lparr>pe_channel := 0\<rparr>)"

definition reparent :: "nat \<Rightarrow> procs \<Rightarrow> bool \<times> procs" where
  "reparent exit_index s =
     (Some exit_index \<in> set (ps_parents s),
      s\<lparr>ps_parents := map (\<lambda>p. if p = Some exit_index then Some (ps_init_proc s) else p) (ps_parents s)\<rparr>)"

definition exiting :: "(nat \<Rightarrow> usize) \<Rightarrow> nat \<Rightarrow> nat \<Rightarrow> u32 \<Rightarrow> procs \<Rightarrow> procs kres" where
  "exiting chan c exit_index exit_status s =
     (if exit_index = ps_init_proc s then Panicked ''init process exiting''
      else kbind (close_files (pr_data (ps_table s ! exit_index))) (\<lambda>(d, evs).
        let s1 = emit evs (upd_proc exit_index (\<lambda>p. p\<lparr>pr_data := d\<rparr>) s);
            pid = pe_pid (excl s1 exit_index);
            (have_child, s2) = reparent exit_index s1;
            s3 = (if have_child then wakeup (chan (ps_init_proc s2)) s2 else s2)
        in case ps_parents s3 ! exit_index of
             None \<Rightarrow> Panicked ''called `Option::unwrap()` on a `None` value''
           | Some exit_parenti \<Rightarrow>
               let s4 = wakeup (chan exit_parenti) s3;
                   s5 = set_excl exit_index (\<lambda>e. e\<lparr>pe_exit_status := exit_status, pe_state := ZOMBIE\<rparr>) s4;
                   tasks = pd_tasks (pr_data (ps_table s5 ! exit_index));
                   s6 = emit (map DropTask (rev tasks))
                          (upd_proc exit_index (\<lambda>p. p\<lparr>pr_data := (pr_data p)\<lparr>pd_tasks := []\<rparr>\<rparr>) s5)
               in kbind (pid_dealloc (ps_pids s6) pid) (\<lambda>ra. switch_back c (s6\<lparr>ps_pids := ra\<rparr>))))"

text \<open>Releasing a child; \<open>with_alarm\<close> says whether its alarm is cleaned up too.\<close>

definition reap :: "bool \<Rightarrow> nat \<Rightarrow> nat \<Rightarrow> procs \<Rightarrow> procs" where
  "reap with_alarm pid i s =
     (let p = ps_table s ! i;
          (d, evs) = data_cleanup pid (pr_data p);
          (a, aevs) = (if with_alarm then alarm_cleanup (pr_alarm p) else (pr_alarm p, []))
      in emit (evs @ aevs)
           (upd_proc i (\<lambda>p. p\<lparr>pr_killed := False, pr_data := d, pr_excl := excl_cleanup (pr_excl p), pr_alarm := a\<rparr>)
             (s\<lparr>ps_parents := (ps_parents s)[i := None]\<rparr>)))"

datatype wait_result = WaitOk nat | WaitErr | WaitSleep

text \<open>
  One pass of the loop of \<^verbatim>\<open>waiting\<close>: the first child that is a zombie is released, otherwise the
  caller sleeps. \<open>copy_ok\<close> is the outcome of \<^verbatim>\<open>copy_out\<close> if \<^verbatim>\<open>addr\<close> is not 0.
\<close>

definition waiting :: "(nat \<Rightarrow> usize) \<Rightarrow> bool \<Rightarrow> nat \<Rightarrow> nat \<Rightarrow> procs \<Rightarrow> (wait_result \<times> procs) kres" where
  "waiting chan copy_ok c pi s =
     (let children = filter (\<lambda>i. ps_parents s ! i = Some pi) [0..<length (ps_table s)]
      in case List.find (\<lambda>i. pe_state (excl s i) = ZOMBIE) children of
           Some i \<Rightarrow> let child_pid = pe_pid (excl s i)
                     in if copy_ok then Done (WaitOk child_pid, reap True child_pid i s) else Done (WaitErr, s)
         | None \<Rightarrow> if children = [] \<or> pr_killed (ps_table s ! pi) then Done (WaitErr, s)
                   else kbind (sleep c pi (chan pi) s) (\<lambda>s1. Done (WaitSleep, s1)))"

text \<open>
  \<^verbatim>\<open>waiting_pid\<close> up to its loop, which yields the index of the child, and one pass of the loop.
\<close>

definition waiting_pid :: "nat \<Rightarrow> nat \<Rightarrow> procs \<Rightarrow> nat option" where
  "waiting_pid current_pid child_pid s =
     (let child_index = (case List.find (\<lambda>i. pe_pid (excl s i) = child_pid) [0..<length (ps_table s)] of Some i \<Rightarrow> i | None \<Rightarrow> 0)
      in if child_index \<ge> length (ps_table s) - 1 then None
         else if ps_parents s ! child_index \<noteq> Some current_pid then None else Some child_index)"

definition waiting_pid_pass ::
  "(nat \<Rightarrow> usize) \<Rightarrow> bool \<Rightarrow> nat \<Rightarrow> nat \<Rightarrow> nat \<Rightarrow> nat \<Rightarrow> procs \<Rightarrow> (wait_result \<times> procs) kres" where
  "waiting_pid_pass chan copy_ok c pi child_index child_pid s =
     (if pe_state (excl s child_index) \<noteq> ZOMBIE then kbind (sleep c pi (chan pi) s) (\<lambda>s1. Done (WaitSleep, s1))
      else if \<not> copy_ok then Done (WaitErr, s)
      else if pr_killed (ps_table s ! pi) then Done (WaitErr, s)
      else Done (WaitOk child_pid, reap False child_pid child_index s))"

text \<open>\<open>False\<close> is \<^verbatim>\<open>Err\<close>.\<close>

definition kill :: "nat \<Rightarrow> procs \<Rightarrow> bool \<times> procs" where
  "kill pid s =
     (case List.find (\<lambda>i. pe_pid (excl s i) = pid) [0..<length (ps_table s)] of
        None \<Rightarrow> (False, s)
      | Some i \<Rightarrow>
          let s1 = upd_proc i (\<lambda>p. p\<lparr>pr_killed := True\<rparr>) s
          in (True, if pe_state (excl s1 i) = SLEEPING then set_excl i (\<lambda>e. e\<lparr>pe_state := RUNNABLE\<rparr>) s1 else s1))"

text \<open>
  Starting a process. The outcomes of the page allocations of \<^verbatim>\<open>alloc_proc\<close> (trap frame, shared page, alarm frame,
  page table) are arguments, as are \<open>copy_ok\<close>, whether \<^verbatim>\<open>uvm_copy\<close> succeeds, and the new task of the child.
  What is written to the pages is not part of this model.
\<close>

definition set_data :: "nat \<Rightarrow> (proc_data \<Rightarrow> proc_data) \<Rightarrow> procs \<Rightarrow> procs" where
  "set_data i f = upd_proc i (\<lambda>p. p\<lparr>pr_data := f (pr_data p)\<rparr>)"

definition set_alarm :: "nat \<Rightarrow> (proc_alarm \<Rightarrow> proc_alarm) \<Rightarrow> procs \<Rightarrow> procs" where
  "set_alarm i f = upd_proc i (\<lambda>p. p\<lparr>pr_alarm := f (pr_alarm p)\<rparr>)"

definition data :: "procs \<Rightarrow> nat \<Rightarrow> proc_data" where
  "data s i = pr_data (ps_table s ! i)"

record proc_pages =
  pp_trapframe :: "usize option"
  pp_up :: "usize option"
  pp_alarm_frame :: "usize option"
  pp_pagetable :: "usize option"

definition alloc_proc :: "proc_pages \<Rightarrow> procs \<Rightarrow> (nat option \<times> procs) kres" where
  "alloc_proc pages s =
     (case List.find (\<lambda>i. pe_state (excl s i) = UNUSED) [0..<length (ps_table s)] of
        None \<Rightarrow> Done (None, s)
      | Some i \<Rightarrow>
     (case pp_trapframe pages of None \<Rightarrow> Done (None, s) | Some tf \<Rightarrow>
      let s1 = set_data i (\<lambda>d. d\<lparr>pd_trapframe := tf\<rparr>) s in
     (case pp_up pages of None \<Rightarrow> Done (None, s1) | Some up \<Rightarrow>
      let s2 = set_data i (\<lambda>d. d\<lparr>pd_up := up\<rparr>) s1 in
     (case pp_alarm_frame pages of None \<Rightarrow> Done (None, s2) | Some af \<Rightarrow>
      let s3 = set_alarm i (\<lambda>a. a\<lparr>al_alarm_frame := af\<rparr>) s2
      in kbind (pid_alloc (ps_pids s3)) (\<lambda>(new_pid, ra).
        let s4 = s3\<lparr>ps_pids := ra\<rparr>
        in if pd_pagetable (data s4 i) \<noteq> None then Panicked ''assertion failed: pdata.pagetable.is_none()''
           else case pp_pagetable pages of
                  None \<Rightarrow> Done (None, emit [FreePage tf] s4)
                | Some pgt \<Rightarrow>
                    Done (Some i,
                      set_excl i (\<lambda>e. e\<lparr>pe_pid := new_pid, pe_priority := 255, pe_state := ALLOCATED\<rparr>)
                        (set_data i (\<lambda>d. d\<lparr>pd_pagetable := Some pgt\<rparr>) s4)))))))"

definition clone_files :: "nat option list \<Rightarrow> nat option list \<Rightarrow> proc_event list" where
  "clone_files old new =
     concat (map2 (\<lambda>f g. (case g of None \<Rightarrow> [] | Some n \<Rightarrow> [DupFile n]) @ (case f of None \<Rightarrow> [] | Some n \<Rightarrow> [CloseFile n])) old new)"

definition clone_cwd :: "nat option \<Rightarrow> nat option \<Rightarrow> proc_event list" where
  "clone_cwd old new = (case new of None \<Rightarrow> [] | Some n \<Rightarrow> [DupCwd n]) @ (case old of None \<Rightarrow> [] | Some n \<Rightarrow> [DropCwd n])"

text \<open>\<^verbatim>\<open>fork\<close> of process \<open>i\<close>: the pid of the child, or \<open>None\<close> for \<^verbatim>\<open>Err\<close>.\<close>

definition fork_copy :: "nat \<Rightarrow> nat \<Rightarrow> procs \<Rightarrow> procs" where
  "fork_copy i child s =
     (let pdata = data s i; cdata = data s child
      in emit (clone_files (pd_open_files cdata) (pd_open_files pdata) @ clone_cwd (pd_cwd cdata) (pd_cwd pdata))
           (set_data child (\<lambda>d. d\<lparr>pd_size := pd_size pdata, pd_open_files := pd_open_files pdata, pd_cwd := pd_cwd pdata,
              pd_tracemask := pd_tracemask pdata, pd_name := pd_name pdata\<rparr>) s))"

definition fork_undo :: "nat \<Rightarrow> procs \<Rightarrow> procs" where
  "fork_undo child s =
     (let p = ps_table s ! child;
          (d, evs) = data_cleanup (pe_pid (pr_excl p)) (pr_data p);
          (a, aevs) = alarm_cleanup (pr_alarm p)
      in emit (evs @ aevs)
           (upd_proc child (\<lambda>p. p\<lparr>pr_killed := False, pr_data := d, pr_alarm := a, pr_excl := excl_cleanup (pr_excl p)\<rparr>) s))"

definition fork :: "proc_pages \<Rightarrow> bool \<Rightarrow> nat \<Rightarrow> nat \<Rightarrow> procs \<Rightarrow> (nat option \<times> procs) kres" where
  "fork pages copy_ok task i s =
     kbind (alloc_proc pages s) (\<lambda>(r, s1).
       case r of
         None \<Rightarrow> Done (None, s1)
       | Some child \<Rightarrow>
           let cpid = pe_pid (excl s1 child);
               s2 = set_data child (\<lambda>d. d\<lparr>pd_ustack_base := pd_ustack_base (data s1 i)\<rparr>) s1
           in if pd_pagetable (data s2 i) = None then Panicked ''called `Option::unwrap()` on a `None` value''
              else if \<not> copy_ok
              then if pr_killed (ps_table s2 ! child) then Panicked ''assertion failed: child.killed == false''
                   else Done (None, fork_undo child s2)
              else kbind (set_parent child i (fork_copy i child s2)) (\<lambda>s3.
                let s4 = set_excl child (\<lambda>e. e\<lparr>pe_state := RUNNABLE\<rparr>) s3
                in if pd_tasks (data s4 i) = [] then Panicked ''index out of bounds''
                   else Done (Some cpid, fifo_add child (set_data child (\<lambda>d. d\<lparr>pd_tasks := pd_tasks d @ [task]\<rparr>) s4))))"

text \<open>\<^verbatim>\<open>Process::user_init\<close>, with the outcome \<open>root\<close> of looking up the root directory, and \<^verbatim>\<open>ProcManager::user_init\<close>.\<close>

definition proc_user_init :: "nat option \<Rightarrow> nat \<Rightarrow> procs \<Rightarrow> procs kres" where
  "proc_user_init root i s =
     (if pd_cwd (data s i) \<noteq> None then Panicked ''assertion failed: pd.cwd.is_none()''
      else case root of
             None \<Rightarrow> Panicked ''cannot find root inode''
           | Some r \<Rightarrow> Done (set_data i (\<lambda>d. d\<lparr>pd_ustack_base := 0x1000, pd_size := 0x1000,
               pd_name := map (of_nat \<circ> of_char) ''initcode'' @ 0 # drop 9 (pd_name d), pd_cwd := Some r\<rparr>) s))"

definition user_init :: "proc_pages \<Rightarrow> nat option \<Rightarrow> procs \<Rightarrow> procs kres" where
  "user_init pages root s =
     kbind (alloc_proc pages s) (\<lambda>(r, s1).
       case r of
         None \<Rightarrow> Panicked ''all process should be unused''
       | Some i \<Rightarrow> kbind (proc_user_init root i s1) (\<lambda>s2.
           Done (fifo_add i (set_excl i (\<lambda>e. e\<lparr>pe_state := RUNNABLE\<rparr>) s2))))"

text \<open>The scan of \<^verbatim>\<open>alloc_runnable\<close>: the highest priority, the lowest index among equals.\<close>

fun best_runnable :: "procs \<Rightarrow> nat list \<Rightarrow> nat option \<Rightarrow> usize \<Rightarrow> nat option" where
  "best_runnable s [] best prio = best"
| "best_runnable s (i # is) best prio =
     (let e = excl s i
      in if pe_state e = RUNNABLE
         then case best of
                None \<Rightarrow> best_runnable s is (Some i) (pe_priority e)
              | Some j \<Rightarrow> if pe_priority e > prio \<or> pe_priority e = prio \<and> i < j
                          then best_runnable s is (Some i) (pe_priority e) else best_runnable s is best prio
         else best_runnable s is best prio)"

definition alloc_runnable :: "procs \<Rightarrow> nat option \<times> procs" where
  "alloc_runnable s =
     (case best_runnable s [0..<length (ps_table s)] None 0 of
        None \<Rightarrow> (None, s)
      | Some i \<Rightarrow> if pe_state (excl s i) = RUNNABLE then (Some i, set_excl i (\<lambda>e. e\<lparr>pe_state := ALLOCATED\<rparr>) s) else (None, s))"

end
