(* ===== verification/SchedInv.thy ===== *)
theory SchedInv
  imports Sched
begin

text \<open>
  The run queue in every run: a process is queued exactly if it is runnable, except for the
  lost ones, which \<^verbatim>\<open>kill\<close> made runnable without queueing them; a process runs on exactly one processor.
  From this follow fairness of the scheduler and the fate of the lost processes.
\<close>

section \<open>Runs\<close>

definition st :: "procs \<Rightarrow> nat \<Rightarrow> proc_state" where
  "st s i = pe_state (excl s i)"

text \<open>
  A step is one critical section of a processor; the label says which process the scheduler of a
  processor takes, and which sleeping process is killed.
\<close>

datatype label = Tau | Pick nat nat | KillSleeper nat

definition kill_label :: "nat \<Rightarrow> procs \<Rightarrow> label" where
  "kill_label pid s =
     (case List.find (\<lambda>i. pe_pid (excl s i) = pid) [0..<length (ps_table s)] of
        None \<Rightarrow> Tau | Some i \<Rightarrow> if st s i = SLEEPING then KillSleeper i else Tau)"

inductive sched_step :: "(nat \<Rightarrow> usize) \<Rightarrow> procs \<Rightarrow> label \<Rightarrow> procs \<Rightarrow> bool" for chan where
  wake: "sched_step chan s Tau (wakeup ch s)"
| pick: "ps_cpu s c = None \<Longrightarrow> scheduler_pick c s = (Some i, s') \<Longrightarrow> sched_step chan s (Pick c i) s'"
| yield_cpu: "try_yield_proc c s = Done s' \<Longrightarrow> sched_step chan s Tau s'"
| sleep: "ps_cpu s c = Some i \<Longrightarrow> Sched.sleep c i ch s = Done s' \<Longrightarrow> sched_step chan s Tau s'"
| return: "ps_cpu s c = Some i \<Longrightarrow> sched_step chan s Tau (sleep_return i s)"
| exit: "ps_cpu s c = Some i \<Longrightarrow> exiting chan c i status s = Done s' \<Longrightarrow> sched_step chan s Tau s'"
| wait: "ps_cpu s c = Some i \<Longrightarrow> waiting chan copy_ok c i s = Done (r, s') \<Longrightarrow> sched_step chan s Tau s'"
| waitpid: "ps_cpu s c = Some i \<Longrightarrow> child < length (ps_table s) \<Longrightarrow> waiting_pid_pass chan copy_ok c i child pid s = Done (r, s') \<Longrightarrow> sched_step chan s Tau s'"
| fork: "ps_cpu s c = Some i \<Longrightarrow> Sched.fork pages copy_ok task i s = Done (r, s') \<Longrightarrow> sched_step chan s Tau s'"
| init: "user_init pages root s = Done s' \<Longrightarrow> sched_step chan s Tau s'"
| kill: "sched_step chan s (kill_label pid s) (snd (kill pid s))"

lemma kill_label_not_pick: "kill_label pid s \<noteq> Pick c i"
  by (simp add: kill_label_def split: option.splits)

lemma pick_cases:
  assumes "sched_step chan s (Pick c i) s'"
  shows "ps_cpu s c = None \<and> scheduler_pick c s = (Some i, s')"
  using assms by cases (auto simp: kill_label_not_pick dest!: sym [of "Pick c i"])

inductive sched_run :: "(nat \<Rightarrow> usize) \<Rightarrow> procs \<Rightarrow> label list \<Rightarrow> procs \<Rightarrow> bool" for chan where
  stop: "sched_run chan s [] s"
| step: "sched_step chan s l s' \<Longrightarrow> sched_run chan s' ls s'' \<Longrightarrow> sched_run chan s (l # ls) s''"

section \<open>The run queue\<close>

text \<open>The invariant over what matters: \<open>L\<close> are the lost processes.\<close>

definition queue_ok :: "nat \<Rightarrow> nat set \<Rightarrow> (nat \<Rightarrow> proc_state) \<Rightarrow> nat list \<Rightarrow> (nat \<Rightarrow> nat option) \<Rightarrow> bool" where
  "queue_ok n L f q cpu \<longleftrightarrow>
     distinct q \<and> set q \<subseteq> {..<n} \<and> L \<subseteq> {..<n} \<and> (\<forall>i \<in> L. f i = RUNNABLE) \<and>
     (\<forall>i < n. i \<in> set q \<longleftrightarrow> f i = RUNNABLE \<and> i \<notin> L) \<and>
     (\<forall>c i. cpu c = Some i \<longrightarrow> i < n \<and> f i = RUNNING) \<and> (\<forall>c c' i. cpu c = Some i \<and> cpu c' = Some i \<longrightarrow> c = c') \<and>
     (\<forall>i < n. f i = RUNNING \<longrightarrow> (\<exists>c. cpu c = Some i))"

definition sched_ok :: "nat set \<Rightarrow> procs \<Rightarrow> bool" where
  "sched_ok L s \<longleftrightarrow> length (ps_parents s) = length (ps_table s) \<and> queue_ok (length (ps_table s)) L (st s) (ps_fifo s) (ps_cpu s)"

text \<open>The changes a step consists of.\<close>

lemma queue_wake:
  assumes "queue_ok n L f q cpu" and "distinct W" and "\<forall>i \<in> set W. i < n \<and> f i \<noteq> RUNNABLE \<and> f i \<noteq> RUNNING"
  shows "queue_ok n L (\<lambda>i. if i \<in> set W then RUNNABLE else f i) (q @ W) cpu"
  using assms unfolding queue_ok_def by (auto split: if_splits)

lemma queue_other:
  assumes "queue_ok n L f q cpu" and "f i \<noteq> RUNNABLE" "f i \<noteq> RUNNING" and "x \<noteq> RUNNABLE" "x \<noteq> RUNNING"
  shows "queue_ok n L (f(i := x)) q cpu"
  using assms unfolding queue_ok_def by (auto split: if_splits)

lemma queue_pick:
  assumes "queue_ok n L f (i # q) cpu" and "cpu c = None"
  shows "queue_ok n L (f(i := RUNNING)) q (cpu(c := Some i))"
  using assms unfolding queue_ok_def by (auto split: if_splits) (metis option.distinct(1) option.inject)+

lemma queue_leave:
  assumes "queue_ok n L f q cpu" and "cpu c = Some i" and "x \<noteq> RUNNABLE" "x \<noteq> RUNNING"
  shows "queue_ok n L (f(i := x)) q (cpu(c := None))"
  using assms unfolding queue_ok_def by (auto split: if_splits) (metis option.distinct(1) option.inject)+

lemma queue_yield:
  assumes "queue_ok n L f q cpu" and "cpu c = Some i"
  shows "queue_ok n L (f(i := RUNNABLE)) (q @ [i]) (cpu(c := None))"
  using assms unfolding queue_ok_def by (auto split: if_splits) (metis option.distinct(1) option.inject)+

lemma queue_lose:
  assumes "queue_ok n L f q cpu" and "i < n" and "f i \<noteq> RUNNABLE" "f i \<noteq> RUNNING"
  shows "queue_ok n (insert i L) (f(i := RUNNABLE)) q cpu"
  using assms unfolding queue_ok_def by (auto split: if_splits)

section \<open>What the operations do to it\<close>

lemma st_upd_proc:
  "st (upd_proc i f s) j = (if j = i \<and> i < length (ps_table s) then pe_state (pr_excl (f (ps_table s ! i))) else st s j)"
  by (cases "i < length (ps_table s)"; cases "j = i") (simp_all add: st_def excl_def upd_proc_def list_update_beyond)

lemma st_set_excl: "st (set_excl i f s) j = (if j = i \<and> i < length (ps_table s) then pe_state (f (excl s i)) else st s j)"
  by (simp add: set_excl_def st_upd_proc excl_def)

lemma st_keep [simp]:
  "st (set_data i f s) = st s" "st (set_alarm i g s) = st s" "st (emit evs s) = st s" "st (fifo_add i s) = st s"
  "st (s\<lparr>ps_parents := ps\<rparr>) = st s" "st (s\<lparr>ps_pids := ra\<rparr>) = st s" "st (s\<lparr>ps_cpu := cpu\<rparr>) = st s"
  "st (s\<lparr>ps_fifo := q\<rparr>) = st s"
proof -
  show "st (set_data i f s) = st s" "st (set_alarm i g s) = st s"
    by (simp_all add: set_data_def set_alarm_def fun_eq_iff st_upd_proc) (simp_all add: st_def excl_def)
qed (simp_all add: emit_def fifo_add_def fun_eq_iff st_def excl_def)

lemma view_upd [simp]:
  "length (ps_table (upd_proc i f s)) = length (ps_table s)" "ps_fifo (upd_proc i f s) = ps_fifo s"
  "ps_cpu (upd_proc i f s) = ps_cpu s" "ps_parents (upd_proc i f s) = ps_parents s"
  by (simp_all add: upd_proc_def)

lemma view_set [simp]:
  "length (ps_table (set_excl i e s)) = length (ps_table s)" "ps_fifo (set_excl i e s) = ps_fifo s"
  "ps_cpu (set_excl i e s) = ps_cpu s" "ps_parents (set_excl i e s) = ps_parents s"
  "length (ps_table (set_data i d s)) = length (ps_table s)" "ps_fifo (set_data i d s) = ps_fifo s"
  "ps_cpu (set_data i d s) = ps_cpu s" "ps_parents (set_data i d s) = ps_parents s"
  "length (ps_table (set_alarm i a s)) = length (ps_table s)" "ps_fifo (set_alarm i a s) = ps_fifo s"
  "ps_cpu (set_alarm i a s) = ps_cpu s" "ps_parents (set_alarm i a s) = ps_parents s"
  by (simp_all add: set_excl_def set_data_def set_alarm_def)

lemma view_emit [simp]:
  "ps_table (emit evs s) = ps_table s" "ps_fifo (emit evs s) = ps_fifo s" "ps_cpu (emit evs s) = ps_cpu s"
  "ps_parents (emit evs s) = ps_parents s"
  "ps_table (fifo_add i s) = ps_table s" "ps_fifo (fifo_add i s) = ps_fifo s @ [i]" "ps_cpu (fifo_add i s) = ps_cpu s"
  "ps_parents (fifo_add i s) = ps_parents s"
  by (simp_all add: emit_def fifo_add_def)

text \<open>Waking up.\<close>

definition sleepers :: "usize \<Rightarrow> procs \<Rightarrow> nat list \<Rightarrow> nat list" where
  "sleepers ch s = filter (\<lambda>i. st s i = SLEEPING \<and> pe_channel (excl s i) = ch)"

lemma excl_set_other: "j \<noteq> i \<Longrightarrow> excl (fifo_add k (set_excl i f s)) j = excl s j"
  by (simp add: excl_def fifo_add_def set_excl_def upd_proc_def)

lemma wakeup_loop_view:
  assumes "distinct is" and "set is \<subseteq> {..<length (ps_table s)}"
  shows "length (ps_table (wakeup_loop ch is s)) = length (ps_table s) \<and> ps_cpu (wakeup_loop ch is s) = ps_cpu s \<and>
    ps_parents (wakeup_loop ch is s) = ps_parents s \<and> ps_fifo (wakeup_loop ch is s) = ps_fifo s @ sleepers ch s is \<and>
    st (wakeup_loop ch is s) = (\<lambda>i. if i \<in> set (sleepers ch s is) then RUNNABLE else st s i)"
  using assms
proof (induction "is" arbitrary: s)
  case (Cons i "is")
  define s1 where "s1 = (if pe_state (excl s i) = SLEEPING \<and> pe_channel (excl s i) = ch
    then fifo_add i (set_excl i (\<lambda>e. e\<lparr>pe_state := RUNNABLE\<rparr>) s) else s)"
  have loop: "wakeup_loop ch (i # is) s = wakeup_loop ch is s1" by (simp add: s1_def)
  have same: "length (ps_table s1) = length (ps_table s)" "ps_cpu s1 = ps_cpu s" "ps_parents s1 = ps_parents s"
    by (simp_all add: s1_def)
  have "sleepers ch s1 is = sleepers ch s is"
    unfolding sleepers_def using Cons.prems by (intro filter_cong refl) (auto simp: s1_def st_set_excl excl_set_other)
  moreover have "ps_fifo s1 = ps_fifo s @ sleepers ch s [i]"
    by (simp add: s1_def sleepers_def st_def)
  moreover have "st s1 j = (if j \<in> set (sleepers ch s [i]) then RUNNABLE else st s j)" for j
    using Cons.prems by (simp add: s1_def sleepers_def st_set_excl) (simp add: st_def)
  moreover have "sleepers ch s (i # is) = sleepers ch s [i] @ sleepers ch s is" by (simp add: sleepers_def)
  moreover note Cons.IH [of s1] Cons.prems
  ultimately show ?case
    unfolding loop by (auto simp: same fun_eq_iff)
qed (simp_all add: sleepers_def)

text \<open>A step that keeps the invariant, where only processes are appended to the queue.\<close>

definition goes_on :: "nat set \<Rightarrow> procs \<Rightarrow> procs \<Rightarrow> bool" where
  "goes_on L s s' \<longleftrightarrow> sched_ok L s' \<and> (\<exists>W. ps_fifo s' = ps_fifo s @ W) \<and> length (ps_table s') = length (ps_table s)"

lemma goes_on_trans: "goes_on L s s' \<Longrightarrow> goes_on L' s' s'' \<Longrightarrow> goes_on L' s s''"
  by (auto simp: goes_on_def)

lemma goes_onI:
  assumes "queue_ok (length (ps_table s)) L (st s') (ps_fifo s') (ps_cpu s')" and "ps_fifo s' = ps_fifo s @ W"
    and "length (ps_table s') = length (ps_table s)" and "length (ps_parents s') = length (ps_table s)"
  shows "goes_on L s s'"
  using assms by (auto simp: goes_on_def sched_ok_def)

lemma wakeup_goes_on:
  assumes "sched_ok L s"
  shows "goes_on L s (wakeup ch s)" "ps_cpu (wakeup ch s) = ps_cpu s" "ps_parents (wakeup ch s) = ps_parents s"
    "length (ps_table (wakeup ch s)) = length (ps_table s)"
proof -
  let ?is = "[0..<length (ps_table s)]"
  have "set ?is \<subseteq> {..<length (ps_table s)}" by auto
  from wakeup_loop_view [OF distinct_upt this, of ch, folded wakeup_def]
  have view: "length (ps_table (wakeup ch s)) = length (ps_table s)" "ps_cpu (wakeup ch s) = ps_cpu s"
    "ps_parents (wakeup ch s) = ps_parents s" "ps_fifo (wakeup ch s) = ps_fifo s @ sleepers ch s ?is"
    "st (wakeup ch s) = (\<lambda>i. if i \<in> set (sleepers ch s ?is) then RUNNABLE else st s i)"
    by simp_all
  have "queue_ok (length (ps_table s)) L (st (wakeup ch s)) (ps_fifo (wakeup ch s)) (ps_cpu (wakeup ch s))"
    unfolding view using assms by (intro queue_wake) (auto simp: sched_ok_def sleepers_def)
  then show "goes_on L s (wakeup ch s)" using assms view by (intro goes_onI) (auto simp: sched_ok_def)
  show "ps_cpu (wakeup ch s) = ps_cpu s" "ps_parents (wakeup ch s) = ps_parents s"
    "length (ps_table (wakeup ch s)) = length (ps_table s)" by (rule view)+
qed

text \<open>Changes of the state of one process.\<close>

lemma running_proc: "sched_ok L s \<Longrightarrow> ps_cpu s c = Some i \<Longrightarrow> i < length (ps_table s) \<and> st s i = RUNNING"
  by (auto simp: sched_ok_def queue_ok_def)

lemma st_set_excl_fun:
  "i < length (ps_table s) \<Longrightarrow> st (set_excl i f s) = (st s)(i := pe_state (f (excl s i)))"
  by (auto simp: fun_eq_iff st_set_excl)

lemma st_upd_fun:
  "i < length (ps_table s) \<Longrightarrow> st (upd_proc i f s) = (st s)(i := pe_state (pr_excl (f (ps_table s ! i))))"
  by (auto simp: fun_eq_iff st_upd_proc)

definition same_frame :: "procs \<Rightarrow> procs \<Rightarrow> bool" where
  "same_frame s s' \<longleftrightarrow> length (ps_table s') = length (ps_table s) \<and> length (ps_parents s') = length (ps_parents s)"

lemma goes_on_leave:
  assumes "sched_ok L s" and "ps_cpu s c = Some i" and "st s' = (st s)(i := x)" and "x \<noteq> RUNNABLE" "x \<noteq> RUNNING"
    and "ps_fifo s' = ps_fifo s" and "ps_cpu s' = (ps_cpu s)(c := None)" and "same_frame s s'"
  shows "goes_on L s s'"
proof (rule goes_onI)
  show "queue_ok (length (ps_table s)) L (st s') (ps_fifo s') (ps_cpu s')"
    unfolding assms(3,6,7) using assms(1,2,4,5) by (intro queue_leave) (auto simp: sched_ok_def)
qed (use assms in \<open>auto simp: same_frame_def sched_ok_def\<close>)

lemma goes_on_other:
  assumes "sched_ok L s" and "st s' = (st s)(i := x)" and "st s i \<noteq> RUNNABLE" "st s i \<noteq> RUNNING" "x \<noteq> RUNNABLE" "x \<noteq> RUNNING"
    and "ps_fifo s' = ps_fifo s" and "ps_cpu s' = ps_cpu s" and "same_frame s s'"
  shows "goes_on L s s'"
proof (rule goes_onI)
  show "queue_ok (length (ps_table s)) L (st s') (ps_fifo s') (ps_cpu s')"
    unfolding assms(2,7,8) using assms(1,3-6) by (intro queue_other) (auto simp: sched_ok_def)
qed (use assms in \<open>auto simp: same_frame_def sched_ok_def\<close>)

lemma goes_on_same:
  assumes "sched_ok L s" and "st s' = st s" "ps_fifo s' = ps_fifo s" "ps_cpu s' = ps_cpu s" and "same_frame s s'"
  shows "goes_on L s s'"
  using assms by (intro goes_onI [where W = "[]"]) (auto simp: same_frame_def sched_ok_def)

lemma goes_on_queue:
  assumes "sched_ok L s" and "st s' = (st s)(i := RUNNABLE)" and "i < length (ps_table s)" "st s i \<noteq> RUNNABLE" "st s i \<noteq> RUNNING"
    and "ps_fifo s' = ps_fifo s @ [i]" and "ps_cpu s' = ps_cpu s" and "same_frame s s'"
  shows "goes_on L s s'"
proof (rule goes_onI)
  have "st s' = (\<lambda>j. if j \<in> set [i] then RUNNABLE else st s j)" by (auto simp: assms(2))
  then show "queue_ok (length (ps_table s)) L (st s') (ps_fifo s') (ps_cpu s')"
    unfolding assms(6,7) using assms(1,3-5) by (simp only:) (intro queue_wake; auto simp: sched_ok_def)
qed (use assms in \<open>auto simp: same_frame_def sched_ok_def\<close>)

lemma goes_on_yield:
  assumes "sched_ok L s" and "ps_cpu s c = Some i" and "st s' = (st s)(i := RUNNABLE)"
    and "ps_fifo s' = ps_fifo s @ [i]" and "ps_cpu s' = (ps_cpu s)(c := None)" and "same_frame s s'"
  shows "goes_on L s s'"
proof (rule goes_onI)
  show "queue_ok (length (ps_table s)) L (st s') (ps_fifo s') (ps_cpu s')"
    unfolding assms(3,4,5) using assms(1,2) by (intro queue_yield) (auto simp: sched_ok_def)
qed (use assms in \<open>auto simp: same_frame_def sched_ok_def\<close>)

lemma switch_back_Done: "switch_back c s = Done s' \<longleftrightarrow> ps_cpu s c \<noteq> None \<and> s' = s\<lparr>ps_cpu := (ps_cpu s)(c := None)\<rparr>"
  by (auto simp: switch_back_def)

section \<open>The steps keep the invariant\<close>

lemma sleep_goes_on:
  assumes "sched_ok L s" and "ps_cpu s c = Some i" and "Sched.sleep c i ch s = Done s'"
  shows "goes_on L s s'"
  using assms running_proc [OF assms(1,2)]
  by (intro goes_on_leave [of L s c i s' SLEEPING]) (auto simp: Sched.sleep_def switch_back_Done st_set_excl_fun same_frame_def)

lemma yield_goes_on:
  assumes "sched_ok L s" and "try_yield_proc c s = Done s'"
  shows "goes_on L s s'"
proof (cases "ps_cpu s c")
  case None
  then show ?thesis using assms by (auto simp: try_yield_proc_def same_frame_def intro: goes_on_same)
next
  case (Some i)
  from running_proc [OF assms(1) Some] have i: "i < length (ps_table s)" "pe_state (excl s i) = RUNNING" by (auto simp: st_def)
  with assms(2) Some have "s' = (fifo_add i (set_excl i (\<lambda>e. e\<lparr>pe_state := RUNNABLE\<rparr>) s))\<lparr>ps_cpu := (ps_cpu s)(c := None)\<rparr>"
    by (auto simp: try_yield_proc_def yielding_def switch_back_Done)
  then show ?thesis using assms(1) Some i
    by (intro goes_on_yield [of L s c i]) (auto simp: st_set_excl_fun same_frame_def)
qed

lemma reap_goes_on:
  assumes "sched_ok L s" and "i < length (ps_table s)" and "st s i = ZOMBIE"
  shows "goes_on L s (reap b pid i s)"
  using assms by (intro goes_on_other [of L s _ i UNUSED])
    (auto simp: reap_def Let_def st_upd_fun excl_cleanup_def same_frame_def split: prod.splits)

lemma find_upt: "List.find P [0..<n] = Some i \<Longrightarrow> i < n \<and> P i"
  by (auto simp: find_Some_iff)

lemma find_filter_upt: "List.find P (filter Q [0..<n]) = Some i \<Longrightarrow> i < n \<and> P i"
proof -
  assume "List.find P (filter Q [0..<n]) = Some i"
  then have "P i" "i \<in> set (filter Q [0..<n])" by (auto simp: find_Some_iff simp del: set_filter)
  then show ?thesis by simp
qed

lemma waiting_goes_on:
  assumes "sched_ok L s" and "ps_cpu s c = Some i" and "waiting chan copy_ok c i s = Done (r, s')"
  shows "goes_on L s s'"
proof -
  have same: "goes_on L s s" using assms(1) by (rule goes_on_same) (auto simp: same_frame_def)
  consider "s' = s" | "Sched.sleep c i (chan i) s = Done s'"
    | j pid where "s' = reap True pid j s" "j < length (ps_table s)" "st s j = ZOMBIE"
    using assms(3) by (auto simp: waiting_def Let_def st_def split: option.splits if_splits elim!: kbind_DoneE dest!: find_filter_upt)
  then show ?thesis
  proof cases
    case 1
    then show ?thesis using same by simp
  next
    case 2
    then show ?thesis by (rule sleep_goes_on [OF assms(1,2)])
  next
    case 3
    then show ?thesis using reap_goes_on [OF assms(1)] by simp
  qed
qed

lemma waiting_pid_goes_on:
  assumes "sched_ok L s" and "ps_cpu s c = Some i" and "j < length (ps_table s)"
    and "waiting_pid_pass chan copy_ok c i j pid s = Done (r, s')"
  shows "goes_on L s s'"
proof -
  have same: "goes_on L s s" using assms(1) by (rule goes_on_same) (auto simp: same_frame_def)
  consider "s' = s" | "Sched.sleep c i (chan i) s = Done s'" | "s' = reap False pid j s" "st s j = ZOMBIE"
    using assms(4) by (auto simp: waiting_pid_pass_def st_def split: if_splits elim!: kbind_DoneE)
  then show ?thesis using same sleep_goes_on [OF assms(1,2)] reap_goes_on [OF assms(1,3)] by cases auto
qed

lemma exiting_Done:
  assumes "exiting chan c i status s = Done s'"
  obtains d evs have_child s2 s3 p s4 s6 ra where
    "reparent i (emit evs (upd_proc i (\<lambda>p. p\<lparr>pr_data := d\<rparr>) s)) = (have_child, s2)"
    "s3 = (if have_child then wakeup (chan (ps_init_proc s2)) s2 else s2)" "s4 = wakeup (chan p) s3"
    "s6 = set_data i (\<lambda>d. d\<lparr>pd_tasks := []\<rparr>)
       (set_excl i (\<lambda>e. e\<lparr>pe_exit_status := status, pe_state := ZOMBIE\<rparr>) s4)"
    "\<exists>evs. switch_back c ((emit evs s6)\<lparr>ps_pids := ra\<rparr>) = Done s'"
proof -
  from assms obtain d evs where cf: "close_files (pr_data (ps_table s ! i)) = Done (d, evs)"
    by (auto simp: exiting_def split: if_splits elim!: kbind_DoneE)
  obtain hc s2 where rp: "reparent i (emit evs (upd_proc i (\<lambda>p. p\<lparr>pr_data := d\<rparr>) s)) = (hc, s2)"
    by (metis surj_pair)
  define s3 where "s3 = (if hc then wakeup (chan (ps_init_proc s2)) s2 else s2)"
  have "i \<noteq> ps_init_proc s" using assms by (auto simp: exiting_def)
  with assms cf rp have "\<exists>p ra evs. switch_back c ((emit evs (set_data i (\<lambda>d. d\<lparr>pd_tasks := []\<rparr>)
      (set_excl i (\<lambda>e. e\<lparr>pe_exit_status := status, pe_state := ZOMBIE\<rparr>) (wakeup (chan p) s3))))\<lparr>ps_pids := ra\<rparr>) = Done s'"
    by (simp add: exiting_def Let_def set_data_def s3_def [symmetric] split: option.splits) (blast elim!: kbind_DoneE)
  then show ?thesis using that [OF rp s3_def refl refl] by blast
qed

lemma exiting_goes_on:
  assumes "sched_ok L s" and "ps_cpu s c = Some i" and "exiting chan c i status s = Done s'"
  shows "goes_on L s s'"
  using assms(3)
proof (rule exiting_Done)
  fix d evs have_child s2 s3 p s4 s6 ra
  assume rp: "reparent i (emit evs (upd_proc i (\<lambda>p. p\<lparr>pr_data := d\<rparr>) s)) = (have_child, s2)"
    and s3: "s3 = (if have_child then wakeup (chan (ps_init_proc s2)) s2 else s2)" and s4: "s4 = wakeup (chan p) s3"
    and s6: "s6 = set_data i (\<lambda>d. d\<lparr>pd_tasks := []\<rparr>) (set_excl i (\<lambda>e. e\<lparr>pe_exit_status := status, pe_state := ZOMBIE\<rparr>) s4)"
    and sw: "\<exists>evs. switch_back c ((emit evs s6)\<lparr>ps_pids := ra\<rparr>) = Done s'"
  have i: "i < length (ps_table s)" using running_proc [OF assms(1,2)] by simp
  have "st (upd_proc i (\<lambda>p. p\<lparr>pr_data := d\<rparr>) s) = st s"
    using i by (simp add: st_upd_fun) (simp add: fun_eq_iff st_def excl_def)
  with rp i have 2: "st s2 = st s" "ps_fifo s2 = ps_fifo s" "ps_cpu s2 = ps_cpu s" "same_frame s s2"
    by (auto simp: reparent_def same_frame_def)
  with assms(1) have g2: "goes_on L s s2" by (rule goes_on_same)
  then have ok2: "sched_ok L s2" by (simp add: goes_on_def)
  have g3: "goes_on L s2 s3" and c3: "ps_cpu s3 = ps_cpu s2" "length (ps_table s3) = length (ps_table s2)"
    using wakeup_goes_on [OF ok2] ok2 unfolding s3 by (auto intro: goes_on_same simp: same_frame_def)
  then have ok3: "sched_ok L s3" by (simp add: goes_on_def)
  note w4 = wakeup_goes_on [OF ok3, of "chan p", folded s4]
  then have ok4: "sched_ok L s4" by (simp add: goes_on_def)
  have c4: "ps_cpu s4 c = Some i" using w4 c3 2 assms(2) by simp
  with running_proc [OF ok4] have "i < length (ps_table s4)" by simp
  with sw c4 have "goes_on L s4 s'"
    by (intro goes_on_leave [OF ok4 c4, of s' ZOMBIE]) (auto simp: switch_back_Done s6 st_set_excl_fun same_frame_def)
  with g2 g3 w4(1) show ?thesis by (blast intro: goes_on_trans)
qed

lemma alloc_proc_view:
  assumes "alloc_proc pages s = Done (r, s')"
  shows "ps_fifo s' = ps_fifo s \<and> ps_cpu s' = ps_cpu s \<and> same_frame s s' \<and>
    (r = None \<and> st s' = st s \<or>
     (\<exists>i < length (ps_table s). r = Some i \<and> st s i = UNUSED \<and> st s' = (st s)(i := ALLOCATED)))"
proof (cases "List.find (\<lambda>i. pe_state (excl s i) = UNUSED) [0..<length (ps_table s)]")
  case None
  then show ?thesis using assms by (simp add: alloc_proc_def same_frame_def)
next
  case (Some i)
  from find_upt [OF this] have "i < length (ps_table s)" "st s i = UNUSED" by (auto simp: st_def)
  then show ?thesis using assms unfolding alloc_proc_def Some option.case
    by (auto simp: same_frame_def Let_def st_set_excl_fun split: option.splits if_splits elim!: kbind_DoneE) blast+
qed

lemma alloc_proc_goes_on:
  assumes "sched_ok L s" and "alloc_proc pages s = Done (r, s')"
  shows "goes_on L s s'"
  using assms(1) alloc_proc_view [OF assms(2)] by (auto intro: goes_on_same goes_on_other)

lemma set_parent_Done:
  "set_parent j i s = Done s' \<Longrightarrow> s' = s\<lparr>ps_parents := (ps_parents s)[j := Some i]\<rparr>"
  by (auto simp: set_parent_def split: if_splits)

lemma fork_Done:
  assumes "Sched.fork pages copy_ok task i s = Done (r, s')"
  obtains s1 where "alloc_proc pages s = Done (None, s1)" "s' = s1"
  | j s1 f where "alloc_proc pages s = Done (Some j, s1)" "s' = fork_undo j (set_data j f s1)"
  | j s1 f g s3 where "alloc_proc pages s = Done (Some j, s1)" "s3 = (fork_copy i j (set_data j f s1))\<lparr>ps_parents := (ps_parents s1)[j := Some i]\<rparr>"
      "s' = fifo_add j (set_data j g (set_excl j (\<lambda>e. e\<lparr>pe_state := RUNNABLE\<rparr>) s3))"
proof -
  from assms obtain r1 s1 where a: "alloc_proc pages s = Done (r1, s1)"
    by (auto simp: Sched.fork_def elim!: kbind_DoneE)
  show ?thesis
  proof (cases r1)
    case None
    then show ?thesis using that(1) a assms by (simp add: Sched.fork_def)
  next
    case (Some j)
    define f where "f = (\<lambda>d. d\<lparr>pd_ustack_base := pd_ustack_base (data s1 i)\<rparr> :: proc_data)"
    have parents: "ps_parents (fork_copy i j (set_data j f s1)) = ps_parents s1" by (simp add: fork_copy_def Let_def)
    from assms a Some consider "s' = fork_undo j (set_data j f s1)"
      | s3 where "set_parent j i (fork_copy i j (set_data j f s1)) = Done s3"
         "s' = fifo_add j (set_data j (\<lambda>d. d\<lparr>pd_tasks := pd_tasks d @ [task]\<rparr>) (set_excl j (\<lambda>e. e\<lparr>pe_state := RUNNABLE\<rparr>) s3))"
      by (auto simp: Sched.fork_def Let_def f_def [symmetric] split: if_splits elim!: kbind_DoneE)
    then show ?thesis
    proof cases
      case 1
      with a Some show ?thesis using that(2) by blast
    next
      case 2
      with a Some show ?thesis using that(3) set_parent_Done [OF 2(1)] by (simp add: parents)
    qed
  qed
qed

lemma fork_goes_on:
  assumes "sched_ok L s" and "Sched.fork pages copy_ok task i s = Done (r, s')"
  shows "goes_on L s s'"
  using assms(2)
proof (cases rule: fork_Done)
  case (1 s1)
  then show ?thesis using alloc_proc_goes_on [OF assms(1)] by simp
next
  case (2 j s1 f)
  with alloc_proc_view [OF 2(1)] have j: "j < length (ps_table s1)" "st s1 j = ALLOCATED" by (auto simp: same_frame_def)
  have g: "goes_on L s s1" using alloc_proc_goes_on [OF assms(1) 2(1)] .
  then have "goes_on L s1 s'" using j 2
    by (intro goes_on_other [of L s1 s' j UNUSED])
      (auto simp: goes_on_def fork_undo_def Let_def st_upd_fun excl_cleanup_def same_frame_def split: prod.splits)
  with g show ?thesis by (rule goes_on_trans)
next
  case (3 j s1 f g s3)
  with alloc_proc_view [OF 3(1)] have j: "j < length (ps_table s1)" "st s1 j = ALLOCATED" by (auto simp: same_frame_def)
  have g: "goes_on L s s1" using alloc_proc_goes_on [OF assms(1) 3(1)] .
  then have "goes_on L s1 s'" using j 3
    by (intro goes_on_queue [of L s1 s' j])
      (auto simp: goes_on_def fork_copy_def Let_def st_set_excl_fun same_frame_def)
  with g show ?thesis by (rule goes_on_trans)
qed

lemma user_init_goes_on:
  assumes "sched_ok L s" and "user_init pages root s = Done s'"
  shows "goes_on L s s'"
proof -
  from assms(2) obtain j s1 f where a: "alloc_proc pages s = Done (Some j, s1)"
    and s': "s' = fifo_add j (set_excl j (\<lambda>e. e\<lparr>pe_state := RUNNABLE\<rparr>) (set_data j f s1))"
    by (auto simp: user_init_def proc_user_init_def split: option.splits if_splits elim!: kbind_DoneE)
  with alloc_proc_view [OF a] have j: "j < length (ps_table s1)" "st s1 j = ALLOCATED" by (auto simp: same_frame_def)
  have g: "goes_on L s s1" using alloc_proc_goes_on [OF assms(1) a] .
  then have "goes_on L s1 s'" using j
    by (intro goes_on_queue [of L s1 s' j]) (auto simp: goes_on_def s' st_set_excl_fun same_frame_def)
  with g show ?thesis by (rule goes_on_trans)
qed

lemma pick_step:
  assumes "sched_ok L s" and "ps_cpu s c = None" and "scheduler_pick c s = (Some i, s')"
  shows "sched_ok L s' \<and> ps_fifo s = i # ps_fifo s' \<and> length (ps_table s') = length (ps_table s)"
proof -
  from assms(3) obtain q where q: "ps_fifo s = i # q"
    and s': "s' = set_excl i (\<lambda>e. e\<lparr>pe_state := RUNNING\<rparr>) (s\<lparr>ps_fifo := q, ps_cpu := (ps_cpu s)(c := Some i)\<rparr>)"
    by (auto simp: scheduler_pick_def fifo_fetch_def split: list.splits)
  have ok: "queue_ok (length (ps_table s)) L (st s) (i # q) (ps_cpu s)" using assms(1) q by (simp add: sched_ok_def)
  then have "i < length (ps_table s)" by (auto simp: queue_ok_def)
  with queue_pick [OF ok assms(2)] assms(1) q show ?thesis by (simp add: s' sched_ok_def st_set_excl_fun)
qed

definition lost_by :: "label \<Rightarrow> nat set" where
  "lost_by l = (case l of KillSleeper i \<Rightarrow> {i} | _ \<Rightarrow> {})"

lemma st_killed: "st (upd_proc i (\<lambda>p. p\<lparr>pr_killed := b\<rparr>) s) = st s"
  by (auto simp: fun_eq_iff st_upd_proc) (simp add: st_def excl_def)

lemma kill_goes_on:
  assumes "sched_ok L s"
  shows "goes_on (lost_by (kill_label pid s) \<union> L) s (snd (kill pid s))"
proof (cases "List.find (\<lambda>i. pe_pid (excl s i) = pid) [0..<length (ps_table s)]")
  case None
  then show ?thesis using assms by (auto simp: kill_def kill_label_def lost_by_def same_frame_def intro: goes_on_same)
next
  case (Some i)
  from find_upt [OF this] have i: "i < length (ps_table s)" by simp
  let ?s1 = "upd_proc i (\<lambda>p. p\<lparr>pr_killed := True\<rparr>) s"
  have kill: "snd (kill pid s) = (if st s i = SLEEPING then set_excl i (\<lambda>e. e\<lparr>pe_state := RUNNABLE\<rparr>) ?s1 else ?s1)"
    using fun_cong [OF st_killed [of i True s], of i] unfolding kill_def Some by (simp add: Let_def st_def)
  show ?thesis
  proof (cases "st s i = SLEEPING")
    case True
    then have "lost_by (kill_label pid s) = {i}" unfolding kill_label_def Some by (simp add: lost_by_def)
    moreover have "queue_ok (length (ps_table s)) (insert i L) ((st s)(i := RUNNABLE)) (ps_fifo s) (ps_cpu s)"
      using assms i True by (intro queue_lose) (auto simp: sched_ok_def)
    ultimately show ?thesis using True i assms
      by (intro goes_onI [where W = "[]"]) (simp_all add: kill st_set_excl_fun st_killed sched_ok_def)
  next
    case False
    then have "lost_by (kill_label pid s) = {}" unfolding kill_label_def Some by (simp add: lost_by_def)
    then show ?thesis using assms False by (auto simp: kill st_killed same_frame_def intro: goes_on_same)
  qed
qed

definition picked :: "label \<Rightarrow> nat list" where
  "picked l = (case l of Pick c i \<Rightarrow> [i] | _ \<Rightarrow> [])"

lemma label_kill [simp]: "picked (kill_label pid s) = []" "lost_by Tau = {}" "lost_by (Pick c i) = {}" "picked Tau = []"
    "picked (Pick c i) = [i]"
  by (simp_all add: picked_def lost_by_def kill_label_def split: option.splits)

lemma sched_step_ok:
  assumes "sched_step chan s l s'" and "sched_ok L s"
  shows "sched_ok (lost_by l \<union> L) s' \<and> (\<exists>W. picked l @ ps_fifo s' = ps_fifo s @ W) \<and> length (ps_table s') = length (ps_table s)"
  using assms(1)
proof cases
  case (pick c i)
  with pick_step [OF assms(2)] show ?thesis by auto
next
  case (kill pid)
  with kill_goes_on [OF assms(2)] show ?thesis by (simp add: goes_on_def)
next
  case (wake ch)
  with wakeup_goes_on(1) [OF assms(2)] show ?thesis by (simp add: goes_on_def)
next
  case (return c i)
  with running_proc [OF assms(2)] have "goes_on L s s'"
    by (intro goes_on_same [OF assms(2)]) (auto simp: sleep_return_def st_set_excl_fun same_frame_def fun_eq_iff st_def)
  with return show ?thesis by (simp add: goes_on_def)
qed (insert assms(2), auto dest: yield_goes_on sleep_goes_on exiting_goes_on waiting_goes_on waiting_pid_goes_on
    fork_goes_on user_init_goes_on simp: goes_on_def)

section \<open>Runs and properties\<close>

definition picks :: "label list \<Rightarrow> nat list" where
  "picks ls = concat (map picked ls)"

definition lost :: "label list \<Rightarrow> nat set" where
  "lost ls = {i. KillSleeper i \<in> set ls}"

lemma lost_simps [simp]: "lost [] = {}" "lost (l # ls) = lost_by l \<union> lost ls"
  by (auto simp: lost_def lost_by_def split: label.splits)

lemma picks_simps [simp]: "picks [] = []" "picks (l # ls) = picked l @ picks ls"
  by (simp_all add: picks_def)

lemma sched_run_ok:
  assumes "sched_run chan s ls s'" and "sched_ok L s"
  shows "sched_ok (lost ls \<union> L) s' \<and> (\<exists>W. picks ls @ ps_fifo s' = ps_fifo s @ W) \<and> length (ps_table s') = length (ps_table s)"
  using assms
proof (induction arbitrary: L)
  case (step s l s1 ls s2)
  from sched_step_ok [OF step.hyps(1) step.prems] obtain W where
    1: "sched_ok (lost_by l \<union> L) s1" "picked l @ ps_fifo s1 = ps_fifo s @ W" "length (ps_table s1) = length (ps_table s)" by blast
  from step.IH [OF 1(1)] obtain W' where
    2: "sched_ok (lost ls \<union> (lost_by l \<union> L)) s2" "picks ls @ ps_fifo s2 = ps_fifo s1 @ W'" "length (ps_table s2) = length (ps_table s1)"
    by blast
  have "picks (l # ls) @ ps_fifo s2 = ps_fifo s @ W @ W'" using 1(2) 2(2) by (metis append.assoc picks_simps(2))
  then have "\<exists>W. picks (l # ls) @ ps_fifo s2 = ps_fifo s @ W" ..
  moreover have "sched_ok (lost (l # ls) \<union> L) s2" using 2 by (simp add: Un_ac)
  moreover have "length (ps_table s2) = length (ps_table s)" using 1 2 by simp
  ultimately show ?case by blast
qed auto

lemma procs_new_ok: "sched_ok {} procs_new"
  by (auto simp: sched_ok_def queue_ok_def procs_new_def st_def excl_def process_new_def proc_excl_new_def)

lemma boot_run_ok:
  assumes "sched_run chan procs_new ls s"
  shows "sched_ok (lost ls) s" "length (ps_table s) = NPROC"
  using sched_run_ok [OF assms procs_new_ok] by (auto simp: procs_new_def)

lemma lost_not_picked:
  assumes "sched_run chan s ls s'" and "sched_ok L s" and "i \<in> L"
  shows "i \<notin> set (picks ls) \<and> st s' i = RUNNABLE"
  using assms
proof (induction arbitrary: L)
  case (stop s)
  then show ?case by (auto simp: sched_ok_def queue_ok_def)
next
  case (step s l s1 ls s2)
  have "i \<notin> set (picked l)"
  proof
    assume "i \<in> set (picked l)"
    then obtain c where "l = Pick c i" by (auto simp: picked_def split: label.splits)
    with step.hyps(1) have "ps_cpu s c = None" "scheduler_pick c s = (Some i, s1)" by (simp_all add: pick_cases)
    with pick_step [OF step.prems(1)] have "i \<in> set (ps_fifo s)" by fastforce
    with step.prems show False by (auto simp: sched_ok_def queue_ok_def)
  qed
  moreover from step.IH [of "lost_by l \<union> L"] sched_step_ok [OF step.hyps(1) step.prems(1)] step.prems(2)
  have "i \<notin> set (picks ls) \<and> st s2 i = RUNNABLE" by blast
  ultimately show ?case by simp
qed

text \<open>The first process starts, runs and goes to sleep.\<close>

definition first_pages :: proc_pages where
  "first_pages = \<lparr>pp_trapframe = Some 0x80400000, pp_up = Some 0x80401000, pp_alarm_frame = Some 0x80402000,
     pp_pagetable = Some 0x80403000\<rparr>"

definition first_init :: procs where
  "first_init = (case user_init first_pages (Some 1) procs_new of Done s \<Rightarrow> s | Panicked m \<Rightarrow> procs_new)"

definition first_run :: procs where
  "first_run = snd (scheduler_pick 0 first_init)"

definition first_sleep :: procs where
  "first_sleep = (case Sched.sleep 0 0 0x80500000 first_run of Done s \<Rightarrow> s | Panicked m \<Rightarrow> first_run)"

lemma NPROC_pos: "0 < NPROC"
  by (simp add: NPROC_def)

lemma first_find: "P 0 \<Longrightarrow> List.find P [0..<NPROC] = Some 0"
  by (simp add: upt_conv_Cons NPROC_pos)

lemma first_alloc:
  "\<exists>s. alloc_proc first_pages procs_new = Done (Some 0, s) \<and> pd_cwd (data s 0) = None \<and> pe_pid (excl s 0) = 0"
proof -
  have "List.find (\<lambda>i. pe_state (excl procs_new i) = UNUSED) [0..<length (ps_table procs_new)] = Some 0"
    using first_find [of "\<lambda>i. pe_state (excl procs_new i) = UNUSED"]
    by (simp add: procs_new_def excl_def process_new_def proc_excl_new_def NPROC_pos)
  then show ?thesis unfolding alloc_proc_def
    by (simp add: first_pages_def procs_new_def set_data_def set_alarm_def set_excl_def upd_proc_def data_def pid_alloc_def
      recycle_new_def process_new_def proc_data_new_def NPROC_pos excl_def)
qed

lemma first_user_init:
  "user_init first_pages (Some 1) procs_new = Done first_init \<and> ps_fifo first_init = [0] \<and> ps_cpu first_init = (\<lambda>_. None) \<and>
   st first_init 0 = RUNNABLE \<and> length (ps_table first_init) = NPROC \<and> pe_pid (excl first_init 0) = 0"
proof -
  from first_alloc obtain s where s: "alloc_proc first_pages procs_new = Done (Some 0, s)" "pd_cwd (data s 0) = None" "pe_pid (excl s 0) = 0"
    by blast
  from alloc_proc_view [OF s(1)] have v: "ps_fifo s = []" "ps_cpu s = (\<lambda>_. None)" "length (ps_table s) = NPROC"
    by (auto simp: same_frame_def procs_new_def)
  then have "0 < length (ps_table s)" by (simp add: NPROC_def)
  with s v show ?thesis
    by (simp add: first_init_def user_init_def proc_user_init_def st_set_excl_fun)
      (simp add: excl_def set_data_def set_excl_def upd_proc_def fifo_add_def)
qed

lemma first_pick: "scheduler_pick 0 first_init = (Some 0, first_run) \<and> ps_cpu first_run = (\<lambda>_. None)(0 := Some 0) \<and>
   length (ps_table first_run) = NPROC \<and> pe_pid (excl first_run 0) = 0"
  using first_user_init
  by (auto simp: first_run_def scheduler_pick_def fifo_fetch_def)
    (simp add: excl_def set_excl_def upd_proc_def NPROC_def)

lemma first_slept: "Sched.sleep 0 0 0x80500000 first_run = Done first_sleep \<and> st first_sleep 0 = SLEEPING \<and> pe_pid (excl first_sleep 0) = 0 \<and>
   length (ps_table first_sleep) = NPROC"
  using first_pick
  by (auto simp: first_sleep_def Sched.sleep_def switch_back_def st_set_excl NPROC_def)
    (simp add: excl_def set_excl_def upd_proc_def)

lemma first_runs: "sched_run chan procs_new [Tau] first_init" "sched_run chan first_init [Pick 0 0] first_run"
  "sched_run chan procs_new [Tau, Pick 0 0, Tau] first_sleep"
proof -
  have 1: "sched_step chan procs_new Tau first_init" using first_user_init by (auto intro: sched_step.init)
  have 2: "sched_step chan first_init (Pick 0 0) first_run" using first_user_init first_pick by (auto intro: sched_step.pick)
  have 3: "sched_step chan first_run Tau first_sleep" using first_slept first_pick by (auto intro: sched_step.sleep [where c = 0])
  show "sched_run chan procs_new [Tau] first_init" "sched_run chan first_init [Pick 0 0] first_run"
    "sched_run chan procs_new [Tau, Pick 0 0, Tau] first_sleep" using 1 2 3 by (auto intro: sched_run.intros)
qed

lemma first_kill: "kill_label 0 first_sleep = KillSleeper 0"
  using first_slept first_find [of "\<lambda>i. pe_pid (excl first_sleep i) = 0"] by (simp add: kill_label_def)

text \<open>
  C9 (scheduling). In every run of the kernel from boot in which no sleeping process was killed, whatever
  the interleaving of the processors: a process runs on at most one processor, and the run queue
  holds exactly the runnable processes, each once. Hence no processor idles while a process is
  runnable, and the scheduler is fair: a runnable process has a position \<open>p < NPROC\<close>, and it is the one the
  scheduler takes when it has taken \<open>p\<close> others, whatever else happens meanwhile.
\<close>

theorem scheduler_fair:
  assumes boot: "sched_run chan procs_new ls s" and "lost ls = {}"
    and run: "sched_run chan s ls' s'" and i: "i < NPROC" "st s i = RUNNABLE"
  shows "(\<forall>c c' j. ps_cpu s c = Some j \<and> ps_cpu s c' = Some j \<longrightarrow> c = c' \<and> st s j = RUNNING) \<and>
    distinct (ps_fifo s) \<and> set (ps_fifo s) = {j. j < NPROC \<and> st s j = RUNNABLE} \<and>
    (\<forall>c. \<exists>j s1. scheduler_pick c s = (Some j, s1)) \<and>
    (\<exists>p < NPROC. ps_fifo s ! p = i \<and> (p < length (picks ls') \<longrightarrow> picks ls' ! p = i))"
proof -
  have ok: "sched_ok {} s" and len: "length (ps_table s) = NPROC" using boot_run_ok [OF boot] assms(2) by simp_all
  then have q: "distinct (ps_fifo s)" "set (ps_fifo s) = {j. j < NPROC \<and> st s j = RUNNABLE}"
    "\<forall>c c' j. ps_cpu s c = Some j \<and> ps_cpu s c' = Some j \<longrightarrow> c = c' \<and> st s j = RUNNING"
    by (auto simp: sched_ok_def queue_ok_def)
  then obtain p where p: "p < length (ps_fifo s)" "ps_fifo s ! p = i" using i by (metis (mono_tags, lifting) in_set_conv_nth mem_Collect_eq)
  have "length (ps_fifo s) \<le> card {..<NPROC}"
    unfolding distinct_card [OF q(1), symmetric] by (rule card_mono) (auto simp: q(2))
  with p have pn: "p < NPROC" by simp
  from sched_run_ok [OF run ok] obtain W where W: "picks ls' @ ps_fifo s' = ps_fifo s @ W" by blast
  have "picks ls' ! p = i" if "p < length (picks ls')"
    using that p arg_cong [OF W, of "\<lambda>xs. xs ! p"] by (simp add: nth_append)
  moreover have "\<exists>j s1. scheduler_pick c s = (Some j, s1)" for c
    using p by (cases "ps_fifo s") (auto simp: scheduler_pick_def fifo_fetch_def)
  ultimately show ?thesis using q p pn by blast
qed

theorem scheduler_fair_witness:
  "sched_run (\<lambda>_. 0) procs_new [Tau] first_init \<and> sched_run (\<lambda>_. 0) first_init [Pick 0 0] first_run \<and> st first_init 0 = RUNNABLE \<and>
   set (ps_fifo first_init) = {j. j < NPROC \<and> st first_init j = RUNNABLE} \<and> (\<exists>p < NPROC. ps_fifo first_init ! p = 0)"
proof -
  have "lost [Tau] = {}" by simp
  note fair = scheduler_fair [OF first_runs(1) this first_runs(2), of 0]
  show ?thesis using fair first_user_init first_runs(1,2) by (auto simp: NPROC_def)
qed

text \<open>
  C36 (killing a sleeping process). In every run: when \<^verbatim>\<open>kill\<close> finds its process asleep it marks it runnable but
  does not queue it, and from then on no scheduler ever takes the process, it stays runnable for ever.
\<close>

theorem killed_sleeper_lost:
  assumes boot: "sched_run chan procs_new ls s" and kill: "kill_label pid s = KillSleeper i"
    and run: "sched_run chan (snd (kill pid s)) ls' s'"
  shows "st s i = SLEEPING \<and> fst (kill pid s) \<and> st (snd (kill pid s)) i = RUNNABLE \<and>
    i \<notin> set (picks ls') \<and> st s' i = RUNNABLE"
proof -
  from kill have f: "List.find (\<lambda>i. pe_pid (excl s i) = pid) [0..<length (ps_table s)] = Some i" "st s i = SLEEPING"
    by (auto simp: kill_label_def split: option.splits if_splits)
  from kill_goes_on [OF boot_run_ok(1) [OF boot], of pid] kill
  have ok: "sched_ok (insert i (lost ls)) (snd (kill pid s))" by (simp add: goes_on_def lost_by_def)
  have "fst (kill pid s)" unfolding kill_def f by (simp add: Let_def)
  with f(2) lost_not_picked [OF run ok, of i] lost_not_picked [OF sched_run.stop ok, of i] show ?thesis by simp
qed

theorem killed_sleeper_lost_witness:
  "kill_label 0 first_sleep = KillSleeper 0 \<and> st first_sleep 0 = SLEEPING \<and> fst (kill 0 first_sleep) \<and>
   st (snd (kill 0 first_sleep)) 0 = RUNNABLE"
  using killed_sleeper_lost [OF first_runs(3) first_kill sched_run.stop] first_kill by blast

end
