(* ===== verification/Sleeplock.thy ===== *)
theory Sleeplock
  imports Sched
begin

text \<open>
  Sleep locks (\<^verbatim>\<open>kernel/src/sleeplock.rs\<close>) with the parts of \<^verbatim>\<open>sleep\<close>, \<^verbatim>\<open>wakeup\<close> and the scheduler they depend
  on, instruction by instruction between the points where a spin lock is taken or released. The inner spin
  lock of a sleep lock and the lock of each process are taken in the order the code takes them; that a spin lock
  has one holder is proved in \<open>Spinlock\<close>. Any number of processes and locks run in every
  interleaving, and any sleeper may be killed at any time.
\<close>

section \<open>Definitions\<close>

text \<open>
  Where a process is. \<^verbatim>\<open>lock\<close>: waiting for the inner lock, having it, \<^verbatim>\<open>sleep\<close> with the process lock taken,
  with the inner lock dropped, switched away, and switched back. \<^verbatim>\<open>unlock\<close>: waiting for the inner
  lock, having it, and in \<^verbatim>\<open>wakeup\<close> before taking a process's lock and having it.
\<close>

datatype sl_pc =
    Outside | LockWait nat | LockTest nat | SleepLocked nat | SleepReady nat | SleepAway nat | SleepBack nat
  | UnlockWait nat | UnlockSet nat | WakeScan nat nat | WakeTest nat nat

record sleep_lock =
  sl_lock :: "nat option"
  sl_locked :: bool

record sl_state =
  sl_locks :: "nat \<Rightarrow> sleep_lock"
  sl_excl :: "nat \<Rightarrow> nat option"
  sl_pstate :: "nat \<Rightarrow> proc_state"
  sl_channel :: "nat \<Rightarrow> usize"
  sl_fifo :: "nat list"
  sl_at :: "nat \<Rightarrow> sl_pc"
  sl_has :: "nat \<Rightarrow> nat set"

definition sleep_lock_new :: sleep_lock where
  "sleep_lock_new = \<lparr>sl_lock = None, sl_locked = False\<rparr>"

definition sl_init :: sl_state where
  "sl_init = \<lparr>sl_locks = \<lambda>_. sleep_lock_new, sl_excl = \<lambda>_. None, sl_pstate = \<lambda>_. RUNNING, sl_channel = \<lambda>_. 0,
     sl_fifo = [], sl_at = \<lambda>_. Outside, sl_has = \<lambda>_. {}\<rparr>"

definition sl_goto :: "nat \<Rightarrow> sl_pc \<Rightarrow> sl_state \<Rightarrow> sl_state" where
  "sl_goto i p s = s\<lparr>sl_at := (sl_at s)(i := p)\<rparr>"

definition set_lock :: "nat \<Rightarrow> nat option \<Rightarrow> sl_state \<Rightarrow> sl_state" where
  "set_lock k h s = s\<lparr>sl_locks := (sl_locks s)(k := (sl_locks s k)\<lparr>sl_lock := h\<rparr>)\<rparr>"

definition set_locked :: "nat \<Rightarrow> bool \<Rightarrow> sl_state \<Rightarrow> sl_state" where
  "set_locked k b s = s\<lparr>sl_locks := (sl_locks s)(k := (sl_locks s k)\<lparr>sl_locked := b\<rparr>)\<rparr>"

definition set_pl :: "nat \<Rightarrow> nat option \<Rightarrow> sl_state \<Rightarrow> sl_state" where
  "set_pl j h s = s\<lparr>sl_excl := (sl_excl s)(j := h)\<rparr>"

text \<open>
  One step of process \<open>i\<close> inside an operation; a step that has to wait for a spin lock leaves the state as it is.
  \<open>addr k\<close> is the address of the flag \<^verbatim>\<open>locked\<close> of lock \<open>k\<close>, the channel.
\<close>

definition sl_lock_step :: "(nat \<Rightarrow> usize) \<Rightarrow> nat \<Rightarrow> sl_state \<Rightarrow> sl_state" where
  "sl_lock_step addr i s =
     (case sl_at s i of
        LockWait k \<Rightarrow> if sl_lock (sl_locks s k) = None then sl_goto i (LockTest k) (set_lock k (Some i) s) else s
      | LockTest k \<Rightarrow>
          if sl_locked (sl_locks s k)
          then if sl_excl s i = None then sl_goto i (SleepLocked k) (set_pl i (Some i) s) else s
          else sl_goto i Outside (set_lock k None (set_locked k True s))\<lparr>sl_has := (sl_has s)(i := insert k (sl_has s i))\<rparr>
      | SleepLocked k \<Rightarrow> sl_goto i (SleepReady k) (set_lock k None s)
      | SleepReady k \<Rightarrow>
          sl_goto i (SleepAway k) (set_pl i None s)\<lparr>sl_channel := (sl_channel s)(i := addr k), sl_pstate := (sl_pstate s)(i := SLEEPING)\<rparr>
      | SleepBack k \<Rightarrow> sl_goto i (LockWait k) (set_pl i None s)\<lparr>sl_channel := (sl_channel s)(i := 0)\<rparr>
      | _ \<Rightarrow> s)"

definition sl_unlock_step :: "(nat \<Rightarrow> usize) \<Rightarrow> nat \<Rightarrow> sl_state \<Rightarrow> sl_state" where
  "sl_unlock_step addr i s =
     (case sl_at s i of
        UnlockWait k \<Rightarrow> if sl_lock (sl_locks s k) = None then sl_goto i (UnlockSet k) (set_lock k (Some i) s) else s
      | UnlockSet k \<Rightarrow> sl_goto i (WakeScan k 0) (set_locked k False s)\<lparr>sl_has := (sl_has s)(i := sl_has s i - {k})\<rparr>
      | WakeScan k j \<Rightarrow>
          if j < NPROC then if sl_excl s j = None then sl_goto i (WakeTest k j) (set_pl j (Some i) s) else s
          else sl_goto i Outside (set_lock k None s)
      | WakeTest k j \<Rightarrow>
          (let s1 = (if sl_pstate s j = SLEEPING \<and> sl_channel s j = addr k
                     then s\<lparr>sl_pstate := (sl_pstate s)(j := RUNNABLE), sl_fifo := sl_fifo s @ [j]\<rparr> else s)
           in sl_goto i (WakeScan k (Suc j)) (set_pl j None s1))
      | _ \<Rightarrow> s)"

text \<open>The scheduler takes the first process of the queue and switches to it; the process lock stays taken.\<close>

definition sl_schedule :: "sl_state \<Rightarrow> sl_state" where
  "sl_schedule s =
     (case sl_fifo s of
        [] \<Rightarrow> s
      | j # js \<Rightarrow>
          (case sl_at s j of
             SleepAway k \<Rightarrow>
               if sl_excl s j = None
               then sl_goto j (SleepBack k) (set_pl j (Some j) s)\<lparr>sl_fifo := js, sl_pstate := (sl_pstate s)(j := RUNNING)\<rparr>
               else s
           | _ \<Rightarrow> s))"

fun in_unlock :: "sl_pc \<Rightarrow> bool" where
  "in_unlock (UnlockWait k) = True"
| "in_unlock (UnlockSet k) = True"
| "in_unlock (WakeScan k j) = True"
| "in_unlock (WakeTest k j) = True"
| "in_unlock _ = False"

text \<open>\<open>Lock i k\<close> and \<open>Unlock i k\<close> are calls of process \<open>i\<close>; only a guard, which its holder has, calls \<^verbatim>\<open>unlock\<close>.\<close>

datatype sl_event = Lock nat nat | Unlock nat nat | Go nat | Schedule | Kill nat

fun sl_step :: "(nat \<Rightarrow> usize) \<Rightarrow> sl_event \<Rightarrow> sl_state \<Rightarrow> sl_state" where
  "sl_step addr (Lock i k) s = (if i < NPROC \<and> sl_at s i = Outside then sl_goto i (LockWait k) s else s)"
| "sl_step addr (Unlock i k) s = (if sl_at s i = Outside \<and> k \<in> sl_has s i then sl_goto i (UnlockWait k) s else s)"
| "sl_step addr (Go i) s = (if in_unlock (sl_at s i) then sl_unlock_step addr i s else sl_lock_step addr i s)"
| "sl_step addr Schedule s = sl_schedule s"
| "sl_step addr (Kill i) s =
     (if sl_excl s i = None \<and> sl_pstate s i = SLEEPING then s\<lparr>sl_pstate := (sl_pstate s)(i := RUNNABLE)\<rparr> else s)"

definition sl_run :: "(nat \<Rightarrow> usize) \<Rightarrow> sl_event list \<Rightarrow> sl_state" where
  "sl_run addr es = fold (sl_step addr) es sl_init"

section \<open>The invariant\<close>

fun holds_lock :: "nat \<Rightarrow> sl_pc \<Rightarrow> bool" where
  "holds_lock k (LockTest k') = (k' = k)"
| "holds_lock k (SleepLocked k') = (k' = k)"
| "holds_lock k (UnlockSet k') = (k' = k)"
| "holds_lock k (WakeScan k' j) = (k' = k)"
| "holds_lock k (WakeTest k' j) = (k' = k)"
| "holds_lock k _ = False"

fun holds_excl :: "nat \<Rightarrow> nat \<Rightarrow> sl_pc \<Rightarrow> bool" where
  "holds_excl i j (SleepLocked k) = (i = j)"
| "holds_excl i j (SleepReady k) = (i = j)"
| "holds_excl i j (SleepBack k) = (i = j)"
| "holds_excl i j (WakeTest k j') = (j' = j)"
| "holds_excl i j _ = False"

text \<open>A wake-up for lock \<open>k\<close> is under way that has not passed process \<open>i\<close>.\<close>

fun wakes :: "nat \<Rightarrow> nat \<Rightarrow> sl_pc \<Rightarrow> bool" where
  "wakes k i (WakeScan k' j) = (k' = k \<and> j \<le> i)"
| "wakes k i (WakeTest k' j) = (k' = k \<and> j \<le> i)"
| "wakes k i _ = False"

definition lock_ok :: "sl_state \<Rightarrow> bool" where
  "lock_ok s \<longleftrightarrow> (\<forall>k i. sl_lock (sl_locks s k) = Some i \<longleftrightarrow> holds_lock k (sl_at s i)) \<and>
     (\<forall>j i. sl_excl s j = Some i \<longleftrightarrow> holds_excl i j (sl_at s i))"

definition owner_ok :: "sl_state \<Rightarrow> bool" where
  "owner_ok s \<longleftrightarrow> (\<forall>k. sl_locked (sl_locks s k) \<longleftrightarrow> (\<exists>i. k \<in> sl_has s i)) \<and> (\<forall>k i j. k \<in> sl_has s i \<and> k \<in> sl_has s j \<longrightarrow> i = j) \<and>
     (\<forall>i k. sl_at s i = UnlockWait k \<or> sl_at s i = UnlockSet k \<longrightarrow> k \<in> sl_has s i)"

definition covered :: "sl_state \<Rightarrow> nat \<Rightarrow> nat \<Rightarrow> bool" where
  "covered s k i \<longleftrightarrow> sl_locked (sl_locks s k) \<or> (\<exists>u. wakes k i (sl_at s u))"

definition waiter_ok :: "(nat \<Rightarrow> usize) \<Rightarrow> sl_state \<Rightarrow> bool" where
  "waiter_ok addr s \<longleftrightarrow>
     (\<forall>i. sl_at s i \<noteq> Outside \<and> \<not> in_unlock (sl_at s i) \<longrightarrow> i < NPROC) \<and>
     (\<forall>i k. sl_at s i = SleepLocked k \<longrightarrow> sl_locked (sl_locks s k)) \<and>
     (\<forall>i k. sl_at s i = SleepReady k \<longrightarrow> covered s k i) \<and>
     (\<forall>i k. sl_at s i = SleepAway k \<and> sl_pstate s i = SLEEPING \<longrightarrow> sl_channel s i = addr k \<and> covered s k i)"

definition fifo_ok :: "sl_state \<Rightarrow> bool" where
  "fifo_ok s \<longleftrightarrow> distinct (sl_fifo s) \<and> (\<forall>i. sl_pstate s i = SLEEPING \<longrightarrow> (\<exists>k. sl_at s i = SleepAway k)) \<and>
     (\<forall>j \<in> set (sl_fifo s). sl_pstate s j = RUNNABLE \<and> (\<exists>k. sl_at s j = SleepAway k))"

lemmas sl_defs = sl_goto_def set_lock_def set_locked_def set_pl_def

inductive sl_rel :: "(nat \<Rightarrow> usize) \<Rightarrow> sl_state \<Rightarrow> sl_state \<Rightarrow> bool" for addr s where
  call: "sl_at s i = Outside \<Longrightarrow> i < NPROC \<Longrightarrow> sl_rel addr s (sl_goto i (LockWait k) s)"
| release: "sl_at s i = Outside \<Longrightarrow> k \<in> sl_has s i \<Longrightarrow> sl_rel addr s (sl_goto i (UnlockWait k) s)"
| inner: "sl_at s i = LockWait k \<and> p = LockTest k \<or> sl_at s i = UnlockWait k \<and> p = UnlockSet k \<Longrightarrow> sl_lock (sl_locks s k) = None \<Longrightarrow>
    sl_rel addr s (sl_goto i p (set_lock k (Some i) s))"
| busy: "sl_at s i = LockTest k \<Longrightarrow> sl_locked (sl_locks s k) \<Longrightarrow> sl_excl s i = None \<Longrightarrow>
    sl_rel addr s (sl_goto i (SleepLocked k) (set_pl i (Some i) s))"
| got: "sl_at s i = LockTest k \<Longrightarrow> \<not> sl_locked (sl_locks s k) \<Longrightarrow>
    sl_rel addr s (sl_goto i Outside (set_lock k None (set_locked k True s))\<lparr>sl_has := (sl_has s)(i := insert k (sl_has s i))\<rparr>)"
| drop: "sl_at s i = SleepLocked k \<Longrightarrow> sl_rel addr s (sl_goto i (SleepReady k) (set_lock k None s))"
| away: "sl_at s i = SleepReady k \<Longrightarrow>
    sl_rel addr s (sl_goto i (SleepAway k) (set_pl i None s)\<lparr>sl_channel := (sl_channel s)(i := addr k), sl_pstate := (sl_pstate s)(i := SLEEPING)\<rparr>)"
| again: "sl_at s i = SleepBack k \<Longrightarrow> sl_rel addr s (sl_goto i (LockWait k) (set_pl i None s)\<lparr>sl_channel := (sl_channel s)(i := 0)\<rparr>)"
| unset: "sl_at s i = UnlockSet k \<Longrightarrow>
    sl_rel addr s (sl_goto i (WakeScan k 0) (set_locked k False s)\<lparr>sl_has := (sl_has s)(i := sl_has s i - {k})\<rparr>)"
| scan: "sl_at s i = WakeScan k j \<Longrightarrow> sl_excl s j = None \<Longrightarrow> sl_rel addr s (sl_goto i (WakeTest k j) (set_pl j (Some i) s))"
| ended: "sl_at s i = WakeScan k j \<Longrightarrow> NPROC \<le> j \<Longrightarrow> sl_rel addr s (sl_goto i Outside (set_lock k None s))"
| wake: "sl_at s i = WakeTest k j \<Longrightarrow> sl_pstate s j = SLEEPING \<Longrightarrow> sl_channel s j = addr k \<Longrightarrow>
    sl_rel addr s (sl_goto i (WakeScan k (Suc j)) (set_pl j None (s\<lparr>sl_pstate := (sl_pstate s)(j := RUNNABLE), sl_fifo := sl_fifo s @ [j]\<rparr>)))"
| pass: "sl_at s i = WakeTest k j \<Longrightarrow> \<not> (sl_pstate s j = SLEEPING \<and> sl_channel s j = addr k) \<Longrightarrow>
    sl_rel addr s (sl_goto i (WakeScan k (Suc j)) (set_pl j None s))"
| sched: "sl_at s j = SleepAway k \<Longrightarrow> sl_fifo s = j # js \<Longrightarrow> sl_excl s j = None \<Longrightarrow>
    sl_rel addr s (sl_goto j (SleepBack k) (set_pl j (Some j) s)\<lparr>sl_fifo := js, sl_pstate := (sl_pstate s)(j := RUNNING)\<rparr>)"
| kill: "sl_pstate s i = SLEEPING \<Longrightarrow> sl_rel addr s (s\<lparr>sl_pstate := (sl_pstate s)(i := RUNNABLE)\<rparr>)"

lemma sl_step_rel: "sl_step addr e s = s \<or> sl_rel addr s (sl_step addr e s)"
proof (cases e)
  case (Go i)
  show ?thesis
    by (cases "sl_at s i") (auto simp: Go sl_lock_step_def sl_unlock_step_def Let_def intro: sl_rel.intros)
next
  case Schedule
  show ?thesis
    by (cases "sl_fifo s") (auto simp: Schedule sl_schedule_def intro: sl_rel.intros split: sl_pc.splits)
qed (auto intro: sl_rel.intros)

lemma holds_simps:
  "holds_lock k p \<longleftrightarrow> p = LockTest k \<or> p = SleepLocked k \<or> p = UnlockSet k \<or> (\<exists>j. p = WakeScan k j \<or> p = WakeTest k j)"
  "holds_excl i j p \<longleftrightarrow> i = j \<and> (\<exists>k. p = SleepLocked k \<or> p = SleepReady k \<or> p = SleepBack k) \<or> (\<exists>k. p = WakeTest k j)"
  by (cases p; auto)+

lemma lock_ok_step: "sl_rel addr s s' \<Longrightarrow> lock_ok s \<Longrightarrow> lock_ok s'"
  by (induction rule: sl_rel.induct)
     (auto simp: lock_ok_def sl_defs split: if_splits,
      (metis holds_lock.simps(1-5) holds_excl.simps(1-4) option.inject option.distinct(1))+)

lemma owner_ok_step: "sl_rel addr s s' \<Longrightarrow> owner_ok s \<Longrightarrow> owner_ok s'"
  by (induction rule: sl_rel.induct)
     (auto simp: owner_ok_def sl_defs split: if_splits, metis+)

lemma fifo_ok_step: "sl_rel addr s s' \<Longrightarrow> fifo_ok s \<Longrightarrow> fifo_ok s'"
  by (induction rule: sl_rel.induct)
     (auto simp: fifo_ok_def sl_defs split: if_splits)

lemma wakes_iff: "wakes k i p \<longleftrightarrow> (\<exists>j \<le> i. p = WakeScan k j \<or> p = WakeTest k j)"
  by (cases p) auto

lemma covered_step:
  assumes "sl_rel addr s s'" and "covered s k i" and "i < NPROC"
  shows "covered s' k i \<or> (\<exists>u. sl_at s u = WakeTest k i \<and> sl_at s' u \<noteq> sl_at s u)"
proof (cases "sl_locked (sl_locks s k)")
  case True
  from assms(1) True show ?thesis
    by cases (auto simp: covered_def sl_defs)
next
  case False
  then obtain u j where u: "j \<le> i" "sl_at s u = WakeScan k j \<or> sl_at s u = WakeTest k j" using assms(2) by (auto simp: covered_def wakes_iff)
  have "wakes k i (sl_at s' u) \<or> sl_at s u = WakeTest k i \<and> sl_at s' u \<noteq> sl_at s u"
    using assms(1) u assms(3) by cases (auto simp: sl_defs)
  then show ?thesis by (auto simp: covered_def)
qed

lemma excl_free:
  assumes "lock_ok s" and "sl_at s u = WakeTest k i"
  shows "\<not> holds_excl j i (sl_at s j) \<or> j = u"
  using assms unfolding lock_ok_def by (metis holds_excl.simps(4) option.inject)

lemma waiter_ok_step:
  assumes r: "sl_rel addr s s'" and l: "lock_ok s" and f: "fifo_ok s" and o': "owner_ok s" and w: "waiter_ok addr s"
  shows "waiter_ok addr s'"
proof -
  have pc: "\<forall>i. sl_at s' i \<noteq> Outside \<and> \<not> in_unlock (sl_at s' i) \<longrightarrow> i < NPROC"
    using r w by cases (auto simp: waiter_ok_def sl_defs split: if_splits)
  have own: "i = u" if "holds_lock k (sl_at s i)" "holds_lock k (sl_at s u)" for i u k
    using l that unfolding lock_ok_def by (metis option.inject)
  have locked: "sl_locked (sl_locks s' k)" if "sl_at s' i = SleepLocked k" for i k
    using r that w own [of k i] by cases (auto simp: waiter_ok_def sl_defs split: if_splits)
  have cov: "covered s' k i" if "covered s k i" "i < NPROC" "\<And>u. sl_at s u = WakeTest k i \<Longrightarrow> sl_at s' u = sl_at s u" for i k
    using covered_step [OF r that(1,2)] that(3) by blast
  have ready: "covered s' k i" if "sl_at s' i = SleepReady k" for i k
  proof -
    have "sl_at s i = SleepReady k \<or> sl_at s i = SleepLocked k" using r that by cases (auto simp: sl_defs split: if_splits)
    then have "covered s k i" "i < NPROC" "holds_excl i i (sl_at s i)" "\<not> in_unlock (sl_at s i)" using w by (auto simp: waiter_ok_def covered_def)
    then show ?thesis using excl_free [OF l, of _ k i i] by (intro cov) (simp_all, metis in_unlock.simps(4))
  qed
  have away: "sl_channel s' i = addr k \<and> covered s' k i" if a: "sl_at s' i = SleepAway k" "sl_pstate s' i = SLEEPING" for i k
  proof -
    have c: "sl_at s i = SleepReady k \<and> sl_channel s' i = addr k \<or> sl_at s i = SleepAway k \<and> sl_pstate s i = SLEEPING \<and> sl_channel s' i = sl_channel s i"
      using r a by cases (auto simp: sl_defs split: if_splits)
    then have k: "covered s k i" "i < NPROC" "sl_channel s' i = addr k" using w by (auto simp: waiter_ok_def)
    have "sl_at s' u = sl_at s u" if u: "sl_at s u = WakeTest k i" for u
      using c
    proof
      assume "sl_at s i = SleepReady k \<and> sl_channel s' i = addr k"
      then show ?thesis using excl_free [OF l u, of i] u by auto
    next
      assume c2: "sl_at s i = SleepAway k \<and> sl_pstate s i = SLEEPING \<and> sl_channel s' i = sl_channel s i"
      from r show ?thesis using c2 u a k by cases (auto simp: sl_defs split: if_splits)
    qed
    then show ?thesis using cov [OF k(1,2)] k(3) by blast
  qed
  show ?thesis using pc locked ready away by (simp add: waiter_ok_def)
qed

definition sl_inv :: "(nat \<Rightarrow> usize) \<Rightarrow> sl_state \<Rightarrow> bool" where
  "sl_inv addr s \<longleftrightarrow> lock_ok s \<and> owner_ok s \<and> fifo_ok s \<and> waiter_ok addr s"

lemma sl_step_inv: "sl_inv addr s \<Longrightarrow> sl_inv addr (sl_step addr e s)"
  using sl_step_rel [of addr e s] lock_ok_step owner_ok_step fifo_ok_step waiter_ok_step by (metis sl_inv_def)

lemma sl_init_inv: "sl_inv addr sl_init"
  by (simp add: sl_inv_def lock_ok_def owner_ok_def fifo_ok_def waiter_ok_def sl_init_def sleep_lock_new_def)

lemma sl_run_inv: "sl_inv addr (sl_run addr es)"
proof -
  have "sl_inv addr s \<Longrightarrow> sl_inv addr (fold (sl_step addr) es s)" for s
    by (induction es arbitrary: s) (simp_all add: sl_step_inv)
  then show ?thesis by (simp add: sl_run_def sl_init_inv)
qed

text \<open>Without kills, every process that was woken is in the run queue.\<close>

definition queued :: "sl_state \<Rightarrow> bool" where
  "queued s \<longleftrightarrow> (\<forall>i k. sl_at s i = SleepAway k \<and> sl_pstate s i \<noteq> SLEEPING \<longrightarrow> i \<in> set (sl_fifo s))"

lemma queued_step: "(\<And>i. e \<noteq> Kill i) \<Longrightarrow> queued s \<Longrightarrow> queued (sl_step addr e s)"
proof (cases e)
  case (Go i)
  assume "queued s"
  then show ?thesis
    unfolding Go sl_step.simps sl_lock_step_def sl_unlock_step_def
    by (cases "sl_at s i") (auto simp: queued_def sl_defs Let_def split: if_splits)
next
  case Schedule
  assume "queued s"
  then show ?thesis
    by (cases "sl_fifo s") (auto simp: Schedule sl_schedule_def queued_def sl_defs split: sl_pc.splits if_splits)
qed (auto simp: queued_def sl_defs split: if_splits)

lemma sl_run_queued: "(\<And>i. Kill i \<notin> set es) \<Longrightarrow> queued (sl_run addr es)"
proof -
  have "queued s \<Longrightarrow> (\<And>i. Kill i \<notin> set es) \<Longrightarrow> queued (fold (sl_step addr) es s)" for s
  proof (induction es arbitrary: s)
    case (Cons e es)
    have "queued (sl_step addr e s)" by (rule queued_step) (use Cons.prems in auto)
    then show ?case using Cons by simp
  qed simp
  moreover have "queued sl_init" by (simp add: queued_def sl_init_def)
  ultimately show "(\<And>i. Kill i \<notin> set es) \<Longrightarrow> queued (sl_run addr es)" by (simp add: sl_run_def)
qed

section \<open>Property\<close>

text \<open>
  C11 (sleep locks): in every interleaving of any number of processes that lock and unlock any number of
  sleep locks, and whatever sleepers are killed, a lock has at most one holder and is marked as locked exactly while it has one, and no
  wake-up is lost: a process that sleeps in \<^verbatim>\<open>lock\<close> does so on the lock's channel, and the lock is taken
  or a wake-up that has not passed the process yet is under way. Without kills a process that waits in
  \<^verbatim>\<open>lock\<close> and sleeps no longer is in the run queue.
\<close>

theorem sleep_lock_correct:
  assumes "s = sl_run addr es"
  shows "(k \<in> sl_has s i \<and> k \<in> sl_has s j \<longrightarrow> i = j) \<and> (sl_locked (sl_locks s k) \<longleftrightarrow> (\<exists>i. k \<in> sl_has s i)) \<and>
    (sl_at s i = SleepAway k \<and> sl_pstate s i = SLEEPING \<longrightarrow>
       sl_channel s i = addr k \<and>
       (sl_locked (sl_locks s k) \<or> (\<exists>u. \<exists>n \<le> i. sl_at s u = WakeScan k n \<or> sl_at s u = WakeTest k n))) \<and>
    (sl_at s i = SleepAway k \<and> sl_pstate s i \<noteq> SLEEPING \<and> (\<forall>p. Kill p \<notin> set es) \<longrightarrow> i \<in> set (sl_fifo s))"
proof -
  have inv: "owner_ok s" "waiter_ok addr s" using sl_run_inv [of addr es] by (simp_all add: assms sl_inv_def)
  have "queued s" if "\<forall>p. Kill p \<notin> set es" using sl_run_queued [of es addr] that by (simp add: assms)
  then show ?thesis
    using inv unfolding owner_ok_def waiter_ok_def covered_def wakes_iff queued_def by blast
qed

text \<open>Process 0 takes lock 7, process 1 goes to sleep waiting for it, process 0 frees it and has not woken process 1 yet.\<close>

definition hand_over :: "sl_event list" where
  "hand_over = [Lock 0 7, Go 0, Go 0, Lock 1 7, Go 1, Go 1, Go 1, Go 1, Unlock 0 7, Go 0, Go 0]"

theorem sleep_lock_correct_witness:
  "let s = sl_run (\<lambda>k. of_nat (8 * k)) hand_over in
     sl_at s 1 = SleepAway 7 \<and> sl_pstate s 1 = SLEEPING \<and> sl_channel s 1 = 56 \<and> \<not> sl_locked (sl_locks s 7) \<and>
     (\<exists>u. \<exists>n \<le> 1. sl_at s u = WakeScan 7 n \<or> sl_at s u = WakeTest 7 n)"
proof -
  let ?s = "sl_run (\<lambda>k. of_nat (8 * k)) hand_over"
  have "sl_at ?s 1 = SleepAway 7 \<and> sl_pstate ?s 1 = SLEEPING \<and> \<not> sl_locked (sl_locks ?s 7)"
    by (simp add: sl_run_def hand_over_def sl_init_def sleep_lock_new_def sl_lock_step_def sl_unlock_step_def sl_defs NPROC_def)
  then show ?thesis using sleep_lock_correct [OF refl, of 7 "\<lambda>k. of_nat (8 * k)" hand_over 1 1] by (simp add: Let_def)
qed

end
