(* ===== verification/Virtio.thy ===== *)
theory Virtio
  imports Prelude
begin

text \<open>
  The driver of the virtio disk (\<^verbatim>\<open>kernel/src/driver/virtio_disk.rs\<close>). \<^verbatim>\<open>rw\<close> is split where it sleeps: taking descriptors,
  submitting the request, and finishing it after the interrupt. The address of the driver's own
  structure is an argument; wake-ups are recorded. The registers of the device are a function that
  is read and a list of writes.
\<close>

section \<open>Definitions\<close>

definition NUM :: nat where "NUM = 8"
definition VRING_DESC_F_NEXT :: u16 where "VRING_DESC_F_NEXT = 1"
definition VRING_DESC_F_WRITE :: u16 where "VRING_DESC_F_WRITE = 2"
definition VIRTIO_BLK_T_IN :: u32 where "VIRTIO_BLK_T_IN = 0"
definition VIRTIO_BLK_T_OUT :: u32 where "VIRTIO_BLK_T_OUT = 1"

record vq_desc =
  vd_addr :: u64
  vd_len :: u32
  vd_flags :: u16
  vd_next :: u16

record vq_avail =
  va_flags :: u16
  va_idx :: u16
  va_ring :: "u16 list"
  va_unused :: u16

record vq_used_elem =
  ue_id :: u32
  ue_len :: u32

record vq_used =
  vu_flags :: u16
  vu_idx :: u16
  vu_ring :: "vq_used_elem list"

record info =
  in_buf_channel :: "usize option"
  in_status :: u8
  in_disk :: bool

record virtio_blk_req =
  br_type :: u32
  br_reserved :: u32
  br_sector :: u64

datatype wake = WakeFree | WakeBuf usize

record disk =
  dk_desc :: "vq_desc list"
  dk_avail :: vq_avail
  dk_used :: vq_used
  dk_free :: "bool list"
  dk_used_idx :: u16
  dk_info :: "info list"
  dk_ops :: "virtio_blk_req list"
  dk_wakes :: "wake list"

definition vq_desc_new :: vq_desc where
  "vq_desc_new = \<lparr>vd_addr = 0, vd_len = 0, vd_flags = 0, vd_next = 0\<rparr>"

definition vq_avail_new :: vq_avail where
  "vq_avail_new = \<lparr>va_flags = 0, va_idx = 0, va_ring = replicate NUM 0, va_unused = 0\<rparr>"

definition vq_used_elem_new :: vq_used_elem where
  "vq_used_elem_new = \<lparr>ue_id = 0, ue_len = 0\<rparr>"

definition vq_used_new :: vq_used where
  "vq_used_new = \<lparr>vu_flags = 0, vu_idx = 0, vu_ring = replicate NUM vq_used_elem_new\<rparr>"

definition info_new :: info where
  "info_new = \<lparr>in_buf_channel = None, in_status = 0, in_disk = False\<rparr>"

definition blk_req_new :: virtio_blk_req where
  "blk_req_new = \<lparr>br_type = 0, br_reserved = 0, br_sector = 0\<rparr>"

definition disk_new :: disk where
  "disk_new = \<lparr>dk_desc = replicate NUM vq_desc_new, dk_avail = vq_avail_new, dk_used = vq_used_new,
     dk_free = replicate NUM False, dk_used_idx = 0, dk_info = replicate NUM info_new, dk_ops = replicate NUM blk_req_new,
     dk_wakes = []\<rparr>"

text \<open>
  Offsets of the fields of the \<^verbatim>\<open>repr(C, align(4096))\<close> structure that \<^verbatim>\<open>Disk\<close> is: descriptors and available ring
  in the first page, used ring in the second, the driver's own fields in the third.
\<close>

definition ops_addr :: "u64 \<Rightarrow> nat \<Rightarrow> u64" where
  "ops_addr base i = base + 8400 + of_nat (16 * i)"

definition status_addr :: "u64 \<Rightarrow> nat \<Rightarrow> u64" where
  "status_addr base i = base + 8224 + of_nat (24 * i)"

text \<open>
  \<^verbatim>\<open>init\<close>: the values the device registers have when they are read are \<open>regs\<close>; the writes are returned
  as pairs of offset and value, in order.
\<close>

definition clear_features :: "u32 \<Rightarrow> u32" where
  "clear_features f =
     f AND NOT (push_bit 5 1) AND NOT (push_bit 7 1) AND NOT (push_bit 11 1) AND NOT (push_bit 12 1) AND NOT (push_bit 27 1) AND NOT (push_bit 29 1) AND NOT (push_bit 28 1)"

definition disk_init :: "(usize \<Rightarrow> u32) \<Rightarrow> u64 \<Rightarrow> disk \<Rightarrow> ((usize \<times> u32) list \<times> disk) kres" where
  "disk_init regs base d =
     (if base mod 4096 \<noteq> 0 then Panicked ''assertion failed: left == right''
      else if regs 0x000 \<noteq> 0x74726976 \<or> regs 0x004 \<noteq> 1 \<or> regs 0x008 \<noteq> 2 \<or> regs 0x00c \<noteq> 0x554d4551
      then Panicked ''could not find virtio disk''
      else if regs 0x034 = 0 then Panicked ''virtio disk has no queue 0''
      else if regs 0x034 < of_nat NUM then Panicked ''virtio disk max queue short than NUM''
      else if drop_bit 12 base \<ge> 2 ^ 32 then Panicked ''called `Result::unwrap()` on an `Err` value''
      else Done ([(0x070, 1), (0x070, 1 OR 2), (0x020, clear_features (regs 0x010)), (0x070, 1 OR 2 OR 8),
              (0x070, 1 OR 2 OR 8 OR 4), (0x028, 4096), (0x030, 0), (0x038, of_nat NUM), (0x040, ucast (drop_bit 12 base))],
            d\<lparr>dk_free := map (\<lambda>_. True) (dk_free d)\<rparr>))"

definition alloc_desc :: "disk \<Rightarrow> nat option \<times> disk" where
  "alloc_desc d =
     (case List.find (\<lambda>i. dk_free d ! i) [0..<NUM] of
        None \<Rightarrow> (None, d)
      | Some i \<Rightarrow> (Some i, d\<lparr>dk_free := (dk_free d)[i := False]\<rparr>))"

definition free_desc :: "nat \<Rightarrow> disk \<Rightarrow> disk kres" where
  "free_desc i d =
     (if i \<ge> NUM \<or> dk_free d ! i then Panicked ''desc index not correct''
      else Done (d\<lparr>dk_desc := (dk_desc d)[i := \<lparr>vd_addr = 0, vd_len = 0, vd_flags = 0, vd_next = 0\<rparr>],
             dk_free := (dk_free d)[i := True], dk_wakes := dk_wakes d @ [WakeFree]\<rparr>))"

text \<open>The indices taken so far are \<open>got\<close>; \<open>k\<close> more are needed.\<close>

fun alloc3_loop :: "nat list \<Rightarrow> nat \<Rightarrow> disk \<Rightarrow> (nat list option \<times> disk) kres" where
  "alloc3_loop got 0 d = Done (Some got, d)"
| "alloc3_loop got (Suc k) d =
     (case alloc_desc d of
        (Some ix, d1) \<Rightarrow> alloc3_loop (got @ [ix]) k d1
      | (None, d1) \<Rightarrow> kbind (kfold (\<lambda>d j. free_desc j d) d1 [0..<length got]) (\<lambda>d2. Done (None, d2)))"

definition alloc3_desc :: "disk \<Rightarrow> (nat list option \<times> disk) kres" where
  "alloc3_desc = alloc3_loop [] 3"

partial_function (option) free_chain :: "nat \<Rightarrow> disk \<Rightarrow> disk kres option" where
  "free_chain i d =
     (if i \<ge> NUM then Some (Panicked ''index out of bounds'')
      else case free_desc i d of
             Panicked m \<Rightarrow> Some (Panicked m)
           | Done d1 \<Rightarrow>
               if vd_flags (dk_desc d ! i) AND VRING_DESC_F_NEXT \<noteq> 0 then free_chain (unat (vd_next (dk_desc d ! i))) d1
               else Some (Done d1))"

text \<open>\<^verbatim>\<open>intr\<close> without the acknowledgement of the interrupt.\<close>

definition intr_one :: "disk \<Rightarrow> disk kres" where
  "intr_one d =
     (let id = unat (ue_id (vu_ring (dk_used d) ! (unat (dk_used_idx d) mod NUM)))
      in if id \<ge> NUM then Panicked ''index out of bounds''
         else if in_status (dk_info d ! id) \<noteq> 0 then Panicked ''interrupt status''
         else case in_buf_channel (dk_info d ! id) of
                None \<Rightarrow> Panicked ''virtio disk intr handler not found pre-stored buf channel to wakeup''
              | Some ch \<Rightarrow>
                  if unat (dk_used_idx d) + 1 \<ge> 2 ^ 16 then Panicked ''attempt to add with overflow''
                  else Done (d\<lparr>dk_info := (dk_info d)[id := (dk_info d ! id)\<lparr>in_disk := False\<rparr>],
                         dk_wakes := dk_wakes d @ [WakeBuf ch], dk_used_idx := dk_used_idx d + 1\<rparr>))"

lemma u16_bound: "unat (w :: u16) < 65536"
  using unsigned_less [of w, where 'a = nat] by simp

lemma intr_one_Done:
  assumes "intr_one d = Done d'"
  shows "unat (dk_used_idx d') = unat (dk_used_idx d) + 1" "dk_used d' = dk_used d"
proof -
  from assms have "dk_used_idx d' = dk_used_idx d + 1" "unat (dk_used_idx d) + 1 < 2 ^ 16" "dk_used d' = dk_used d"
    by (auto simp: intr_one_def Let_def split: if_splits option.splits)
  then show "unat (dk_used_idx d') = unat (dk_used_idx d) + 1" "dk_used d' = dk_used d"
    by (simp_all add: unat_plus_no_overflow)
qed

function disk_intr :: "disk \<Rightarrow> disk kres" where
  "disk_intr d =
     (if dk_used_idx d = vu_idx (dk_used d) then Done d else kbind (intr_one d) disk_intr)"
  by auto
termination
  by (relation "measure (\<lambda>d. 2 ^ 16 - unat (dk_used_idx d))")
    (auto dest!: intr_one_Done(1) intro: diff_less_mono2 simp: u16_bound)

declare disk_intr.simps [simp del]

text \<open>
  \<^verbatim>\<open>rw\<close> between taking the descriptors and waiting, with the address \<open>buf\<close> of the data; it panics if the
  ring index overflows.
\<close>

definition rw_submit :: "u64 \<Rightarrow> nat \<Rightarrow> nat \<Rightarrow> nat \<Rightarrow> usize \<Rightarrow> u32 \<Rightarrow> bool \<Rightarrow> disk \<Rightarrow> disk kres" where
  "rw_submit base i0 i1 i2 buf blockno writing d =
     (let buf0 = \<lparr>br_type = (if writing then VIRTIO_BLK_T_OUT else VIRTIO_BLK_T_IN), br_reserved = 0,
                  br_sector = ucast blockno * 2\<rparr>;
          d0 = \<lparr>vd_addr = ops_addr base i0, vd_len = 16, vd_flags = VRING_DESC_F_NEXT, vd_next = of_nat i1\<rparr>;
          d1 = \<lparr>vd_addr = buf, vd_len = 1024, vd_flags = (if writing then 0 else VRING_DESC_F_WRITE) OR VRING_DESC_F_NEXT,
                vd_next = of_nat i2\<rparr>;
          d2 = \<lparr>vd_addr = status_addr base i0, vd_len = 1, vd_flags = VRING_DESC_F_WRITE, vd_next = 0\<rparr>;
          av = dk_avail d;
          ring = (va_ring av)[unat (va_idx av) mod NUM := of_nat i0]
      in if unat (va_idx av) + 1 \<ge> 2 ^ 16 then Panicked ''attempt to add with overflow''
         else Done (d\<lparr>dk_ops := (dk_ops d)[i0 := buf0], dk_desc := (dk_desc d)[i0 := d0, i1 := d1, i2 := d2],
                dk_info := (dk_info d)[i0 := \<lparr>in_buf_channel = Some buf, in_status = 0xff, in_disk = True\<rparr>],
                dk_avail := av\<lparr>va_ring := ring, va_idx := va_idx av + 1\<rparr>\<rparr>))"

text \<open>
  The end of \<^verbatim>\<open>rw\<close> once \<^verbatim>\<open>info[idx[0]].disk\<close> is false. The result is \<open>None\<close> if the loop of \<^verbatim>\<open>free_chain\<close> does
  not end.
\<close>

definition rw_waiting :: "nat \<Rightarrow> disk \<Rightarrow> bool" where
  "rw_waiting i0 d = in_disk (dk_info d ! i0)"

definition rw_finish :: "nat \<Rightarrow> usize \<Rightarrow> disk \<Rightarrow> disk kres option" where
  "rw_finish i0 buf d =
     (case in_buf_channel (dk_info d ! i0) of
        None \<Rightarrow> Some (Panicked ''called `Option::unwrap()` on a `None` value'')
      | Some ch \<Rightarrow>
          if ch \<noteq> buf then Some (Panicked ''assertion failed: left == right'')
          else free_chain i0 (d\<lparr>dk_info := (dk_info d)[i0 := (dk_info d ! i0)\<lparr>in_buf_channel := None\<rparr>]\<rparr>))"

section \<open>Freeing a chain ends\<close>

definition n_taken :: "disk \<Rightarrow> nat" where
  "n_taken d = card {i. i < NUM \<and> \<not> dk_free d ! i}"

lemma free_desc_taken:
  assumes "free_desc i d = Done d'" and "length (dk_free d) = NUM"
  shows "n_taken d' < n_taken d" "length (dk_free d') = NUM"
proof -
  from assms have i: "i < NUM" "\<not> dk_free d ! i" and d': "dk_free d' = (dk_free d)[i := True]"
    by (auto simp: free_desc_def split: if_splits)
  have "{j. j < NUM \<and> \<not> dk_free d' ! j} \<subset> {j. j < NUM \<and> \<not> dk_free d ! j}"
    using i assms(2) by (auto simp: d' nth_list_update split: if_splits)
  then show "n_taken d' < n_taken d" unfolding n_taken_def by (intro psubset_card_mono) simp
  show "length (dk_free d') = NUM" by (simp add: d' assms(2))
qed

text \<open>
  C38 (freeing a chain ends): from every state of the descriptor table, chains with cycles and wrong links included,
  \<^verbatim>\<open>free_chain\<close> returns or panics.
\<close>

theorem free_chain_ends:
  assumes "length (dk_free d) = NUM"
  shows "\<exists>r. free_chain i d = Some r"
  using assms
proof (induction "n_taken d" arbitrary: i d rule: less_induct)
  case less
  show ?case
  proof (cases "free_desc i d")
    case (Panicked m)
    then show ?thesis by (subst free_chain.simps) auto
  next
    case (Done d')
    note t = free_desc_taken [OF Done less.prems]
    show ?thesis
      using less.hyps [OF t] Done by (subst free_chain.simps) auto
  qed
qed

text \<open>A chain that points at itself.\<close>

definition cyclic_disk :: disk where
  "cyclic_disk = disk_new\<lparr>dk_desc := replicate NUM \<lparr>vd_addr = 0, vd_len = 0, vd_flags = 1, vd_next = 0\<rparr>\<rparr>"

theorem free_chain_ends_witness: "\<exists>r. free_chain 0 cyclic_disk = Some r"
proof (rule free_chain_ends)
  show "length (dk_free cyclic_disk) = NUM" by (simp add: cyclic_disk_def disk_new_def)
qed

end
