(* ===== verification/VirtioInv.thy ===== *)
theory VirtioInv
  imports Virtio "HOL-Library.Multiset"
begin

text \<open>
  The driver together with a virtio block device, as the virtio 1.1 standard describes the device: it takes the heads
  of the available ring in order, serves what it has taken in any order by following the
  descriptors, and reports each head in the used ring.
\<close>

section \<open>The device\<close>

record vreq =
  vr_i0 :: nat
  vr_i1 :: nat
  vr_i2 :: nat
  vr_buf :: u64
  vr_block :: u32
  vr_write :: bool
  vr_served :: bool

text \<open>
  Memory by the address of a block-sized buffer and the platter by sector; \<open>vs_seen\<close> and \<open>vs_taken\<close> are the
  device's own state, \<open>vs_reqs\<close> the calls of \<^verbatim>\<open>rw\<close> under way.
\<close>

record vsys =
  vs_disk :: disk
  vs_mem :: "u64 \<Rightarrow> u8 list"
  vs_plat :: "u64 \<Rightarrow> u8 list"
  vs_seen :: u16
  vs_taken :: "nat list"
  vs_reqs :: "vreq list"

definition device_fetch :: "vsys \<Rightarrow> vsys" where
  "device_fetch s =
     (let av = dk_avail (vs_disk s)
      in s\<lparr>vs_taken := vs_taken s @ [unat (va_ring av ! (unat (vs_seen s) mod NUM))], vs_seen := vs_seen s + 1\<rparr>)"

definition put_used :: "nat \<Rightarrow> nat \<Rightarrow> disk \<Rightarrow> disk" where
  "put_used h k d =
     (let us = dk_used d
      in d\<lparr>dk_info := (dk_info d)[k := (dk_info d ! k)\<lparr>in_status := 0\<rparr>],
           dk_used := us\<lparr>vu_ring := (vu_ring us)[unat (vu_idx us) mod NUM := \<lparr>ue_id = of_nat h, ue_len = 1\<rparr>], vu_idx := vu_idx us + 1\<rparr>\<rparr>)"

definition device_serve :: "u64 \<Rightarrow> nat \<Rightarrow> vsys \<Rightarrow> vsys option" where
  "device_serve base h s =
     (let d = vs_disk s;
          d0 = dk_desc d ! h; d1 = dk_desc d ! unat (vd_next d0); d2 = dk_desc d ! unat (vd_next d1)
      in case (List.find (\<lambda>j. ops_addr base j = vd_addr d0) [0..<NUM], List.find (\<lambda>k. status_addr base k = vd_addr d2) [0..<NUM]) of
           (Some j, Some k) \<Rightarrow>
             let req = dk_ops d ! j; x = br_sector req; mem = vs_mem s; plat = vs_plat s;
                 s' = s\<lparr>vs_disk := put_used h k d, vs_taken := remove1 h (vs_taken s),
                        vs_reqs := map (\<lambda>r. if vr_i0 r = h then r\<lparr>vr_served := True\<rparr> else r) (vs_reqs s)\<rparr>
             in if vd_flags d0 \<noteq> 1 \<or> vd_len d0 \<noteq> 16 \<or> vd_len d1 \<noteq> 1024 \<or> vd_len d2 \<noteq> 1 \<or> vd_flags d2 \<noteq> 2 then None
                else if br_type req = 1 \<and> vd_flags d1 = 1
                then Some (s'\<lparr>vs_plat := plat(x := take 512 (mem (vd_addr d1)), x + 1 := drop 512 (mem (vd_addr d1)))\<rparr>)
                else if br_type req = 0 \<and> vd_flags d1 = 3
                then Some (s'\<lparr>vs_mem := mem(vd_addr d1 := plat x @ plat (x + 1))\<rparr>)
                else None
         | _ \<Rightarrow> None)"

section \<open>Runs\<close>

datatype vlabel = Submit vreq | Fetch | Serve nat | Interrupt | Finish vreq

inductive vstep :: "u64 \<Rightarrow> vsys \<Rightarrow> vlabel \<Rightarrow> vsys \<Rightarrow> bool" for base where
  submit: "alloc3_desc (vs_disk s) = Done (Some [i0, i1, i2], d1) \<Longrightarrow>
    rw_submit base i0 i1 i2 buf blockno w d1 = Done d2 \<Longrightarrow>
    r = \<lparr>vr_i0 = i0, vr_i1 = i1, vr_i2 = i2, vr_buf = buf, vr_block = blockno, vr_write = w, vr_served = False\<rparr> \<Longrightarrow>
    vstep base s (Submit r) (s\<lparr>vs_disk := d2, vs_reqs := vs_reqs s @ [r]\<rparr>)"
| fetch: "vs_seen s \<noteq> va_idx (dk_avail (vs_disk s)) \<Longrightarrow> vstep base s Fetch (device_fetch s)"
| serve: "h \<in> set (vs_taken s) \<Longrightarrow> device_serve base h s = Some s' \<Longrightarrow> vstep base s (Serve h) s'"
| interrupt: "disk_intr (vs_disk s) = Done d \<Longrightarrow> vstep base s Interrupt (s\<lparr>vs_disk := d\<rparr>)"
| finish: "r \<in> set (vs_reqs s) \<Longrightarrow> \<not> rw_waiting (vr_i0 r) (vs_disk s) \<Longrightarrow>
    rw_finish (vr_i0 r) (vr_buf r) (vs_disk s) = Some (Done d) \<Longrightarrow>
    vstep base s (Finish r) (s\<lparr>vs_disk := d, vs_reqs := remove1 r (vs_reqs s)\<rparr>)"

inductive vrun :: "u64 \<Rightarrow> vsys \<Rightarrow> vlabel list \<Rightarrow> vsys \<Rightarrow> bool" for base where
  stop: "vrun base s [] s"
| step: "vrun base s ls s' \<Longrightarrow> vstep base s' l s'' \<Longrightarrow> vrun base s (ls @ [l]) s''"

definition vsys_init :: "(u64 \<Rightarrow> u8 list) \<Rightarrow> (u64 \<Rightarrow> u8 list) \<Rightarrow> vsys" where
  "vsys_init mem plat = \<lparr>vs_disk = disk_new\<lparr>dk_free := replicate NUM True\<rparr>, vs_mem = mem, vs_plat = plat, vs_seen = 0,
     vs_taken = [], vs_reqs = []\<rparr>"

section \<open>The invariant\<close>

definition ids :: "vreq \<Rightarrow> nat list" where
  "ids r = [vr_i0 r, vr_i1 r, vr_i2 r]"

definition all_ids :: "vreq list \<Rightarrow> nat list" where
  "all_ids rs = concat (map ids rs)"

definition tab_ok :: "vreq list \<Rightarrow> disk \<Rightarrow> bool" where
  "tab_ok rs d \<longleftrightarrow>
     length (dk_desc d) = NUM \<and> length (dk_free d) = NUM \<and> length (dk_info d) = NUM \<and> length (dk_ops d) = NUM \<and>
     length (va_ring (dk_avail d)) = NUM \<and> length (vu_ring (dk_used d)) = NUM \<and>
     distinct (all_ids rs) \<and> set (all_ids rs) \<subseteq> {..<NUM} \<and> (\<forall>i < NUM. dk_free d ! i \<longleftrightarrow> i \<notin> set (all_ids rs))"

definition req_ok :: "u64 \<Rightarrow> disk \<Rightarrow> vreq \<Rightarrow> bool" where
  "req_ok base d r \<longleftrightarrow>
     dk_desc d ! vr_i0 r = \<lparr>vd_addr = ops_addr base (vr_i0 r), vd_len = 16, vd_flags = 1, vd_next = of_nat (vr_i1 r)\<rparr> \<and>
     dk_desc d ! vr_i1 r = \<lparr>vd_addr = vr_buf r, vd_len = 1024, vd_flags = (if vr_write r then 1 else 3), vd_next = of_nat (vr_i2 r)\<rparr> \<and>
     dk_desc d ! vr_i2 r = \<lparr>vd_addr = status_addr base (vr_i0 r), vd_len = 1, vd_flags = 2, vd_next = 0\<rparr> \<and>
     dk_ops d ! vr_i0 r = \<lparr>br_type = (if vr_write r then 1 else 0), br_reserved = 0, br_sector = ucast (vr_block r) * 2\<rparr> \<and>
     in_buf_channel (dk_info d ! vr_i0 r) = Some (vr_buf r)"

definition queued :: "disk \<Rightarrow> u16 \<Rightarrow> nat list" where
  "queued d seen = map (\<lambda>k. unat (va_ring (dk_avail d) ! (k mod NUM))) [unat seen..<unat (va_idx (dk_avail d))]"

definition reported :: "disk \<Rightarrow> nat list" where
  "reported d = map (\<lambda>k. unat (ue_id (vu_ring (dk_used d) ! (k mod NUM)))) [unat (dk_used_idx d)..<unat (vu_idx (dk_used d))]"

definition rings_ok :: "disk \<Rightarrow> u16 \<Rightarrow> nat list \<Rightarrow> vreq list \<Rightarrow> bool" where
  "rings_ok d seen taken rs \<longleftrightarrow>
     unat seen \<le> unat (va_idx (dk_avail d)) \<and> unat (dk_used_idx d) \<le> unat (vu_idx (dk_used d)) \<and>
     unat (vu_idx (dk_used d)) + length taken = unat seen \<and>
     distinct (queued d seen @ taken @ reported d) \<and> set (queued d seen @ taken @ reported d) \<subseteq> vr_i0 ` set rs \<and>
     (\<forall>r \<in> set rs. (in_disk (dk_info d ! vr_i0 r) \<longleftrightarrow> vr_i0 r \<in> set (queued d seen @ taken @ reported d)) \<and>
        (vr_i0 r \<in> set (reported d) \<longrightarrow> in_status (dk_info d ! vr_i0 r) = 0) \<and>
        (vr_served r \<longleftrightarrow> vr_i0 r \<notin> set (queued d seen @ taken)))"

definition vinv :: "u64 \<Rightarrow> vsys \<Rightarrow> bool" where
  "vinv base s \<longleftrightarrow> tab_ok (vs_reqs s) (vs_disk s) \<and> (\<forall>r \<in> set (vs_reqs s). req_ok base (vs_disk s) r) \<and>
     rings_ok (vs_disk s) (vs_seen s) (vs_taken s) (vs_reqs s)"

section \<open>Descriptors\<close>

lemma unat_small_u16: "i < NUM \<Longrightarrow> unat (of_nat i :: u16) = i"
  by (simp add: NUM_def unsigned_of_nat take_bit_nat_eq_self_iff)

lemma unat_small_u32: "i < NUM \<Longrightarrow> unat (of_nat i :: u32) = i"
  by (simp add: NUM_def unsigned_of_nat take_bit_nat_eq_self_iff)

lemma of_nat_u64_inj: "m < 2 ^ 64 \<Longrightarrow> n < 2 ^ 64 \<Longrightarrow> (of_nat m :: u64) = of_nat n \<longleftrightarrow> m = n"
  by (simp add: word_unat_eq_iff unsigned_of_nat take_bit_nat_eq_self)

lemma find_upt_unique: "i < n \<Longrightarrow> (\<And>j. j < n \<Longrightarrow> P j \<longleftrightarrow> j = i) \<Longrightarrow> List.find P [0..<n] = Some i"
  unfolding find_Some_iff by (intro exI [of _ i]) auto

lemma find_ops: "i < NUM \<Longrightarrow> List.find (\<lambda>j. ops_addr base j = ops_addr base i) [0..<NUM] = Some i"
  by (rule find_upt_unique) (simp_all add: ops_addr_def of_nat_u64_inj NUM_def del: of_nat_mult of_nat_numeral)

lemma find_status: "i < NUM \<Longrightarrow> List.find (\<lambda>j. status_addr base j = status_addr base i) [0..<NUM] = Some i"
  by (rule find_upt_unique) (simp_all add: status_addr_def of_nat_u64_inj NUM_def del: of_nat_mult of_nat_numeral)

lemma alloc_desc_Some:
  "alloc_desc d = (Some i, d') \<Longrightarrow> i < NUM \<and> dk_free d ! i \<and> d' = d\<lparr>dk_free := (dk_free d)[i := False]\<rparr>"
  by (auto simp: alloc_desc_def find_Some_iff split: option.splits)

lemma alloc3_Some:
  assumes "alloc3_desc d = Done (Some is, d')" and "length (dk_free d) = NUM"
  obtains i0 i1 i2 where "is = [i0, i1, i2]" "distinct [i0, i1, i2]" "{i0, i1, i2} \<subseteq> {i. i < NUM \<and> dk_free d ! i}"
    "d' = d\<lparr>dk_free := (dk_free d)[i0 := False, i1 := False, i2 := False]\<rparr>"
proof -
  from assms(1) obtain i0 i1 i2 d1 d2 where 1: "alloc_desc d = (Some i0, d1)" and 2: "alloc_desc d1 = (Some i1, d2)"
    and 3: "alloc_desc d2 = (Some i2, d')" and "is": "is = [i0, i1, i2]"
    by (auto simp: alloc3_desc_def numeral_3_eq_3 split: prod.splits option.splits elim!: kbind_DoneE)
  note a = alloc_desc_Some [OF 1] alloc_desc_Some [OF 2] alloc_desc_Some [OF 3]
  show ?thesis by (rule that [OF "is"]) (use a assms(2) in \<open>auto simp: nth_list_update split: if_splits\<close>)
qed

section \<open>Ring slices\<close>

lemma slice_push:
  assumes "length ring = n" and "lo \<le> hi" and "hi - lo < n"
  shows "map (\<lambda>k. f (ring[hi mod n := x] ! (k mod n))) [lo..<Suc hi] = map (\<lambda>k. f (ring ! (k mod n))) [lo..<hi] @ [f x]"
proof -
  have "k mod n \<noteq> hi mod n" if "lo \<le> k" "k < hi" for k
  proof
    assume "k mod n = hi mod n"
    then have "n dvd hi - k" using that by (metis mod_eq_dvd_iff_nat less_imp_le)
    then show False using that assms by (auto dest: dvd_imp_le)
  qed
  moreover have "hi mod n < n" using assms by (intro mod_less_divisor) simp
  ultimately show ?thesis using assms by (auto simp: nth_list_update) blast
qed

lemma all_ids_simps [simp]: "all_ids [] = []" "all_ids (r # rs) = ids r @ all_ids rs" "all_ids (rs @ rs') = all_ids rs @ all_ids rs'"
  by (simp_all add: all_ids_def)

lemma length_all_ids: "length (all_ids rs) = 3 * length rs"
  by (induction rs) (simp_all add: ids_def)

lemma tab_ok_room:
  assumes "tab_ok rs d"
  shows "length rs \<le> 2"
proof -
  have "length (all_ids rs) = card (set (all_ids rs))" using assms by (simp add: tab_ok_def distinct_card)
  also have "\<dots> \<le> card {..<NUM}" using assms by (intro card_mono) (auto simp: tab_ok_def)
  finally show ?thesis by (simp add: length_all_ids NUM_def)
qed

lemma ids_in: "r \<in> set rs \<Longrightarrow> set (ids r) \<subseteq> set (all_ids rs)"
  by (auto simp: all_ids_def)

lemma head_in: "r \<in> set rs \<Longrightarrow> vr_i0 r \<in> set (all_ids rs) \<and> vr_i1 r \<in> set (all_ids rs) \<and> vr_i2 r \<in> set (all_ids rs)"
  using ids_in by (fastforce simp: ids_def)

lemma head_unique:
  assumes "distinct (all_ids rs)" and "r \<in> set rs" "r' \<in> set rs" and "set (ids r) \<inter> set (ids r') \<noteq> {}"
  shows "r = r'"
  using assms
proof (induction rs)
  case (Cons a rs)
  from Cons.prems(1) have "set (ids a) \<inter> set (all_ids rs) = {}" "distinct (all_ids rs)" by simp_all
  moreover have "r \<in> set rs \<Longrightarrow> set (ids r) \<subseteq> set (all_ids rs)" "r' \<in> set rs \<Longrightarrow> set (ids r') \<subseteq> set (all_ids rs)"
    by (simp_all add: ids_in)
  ultimately show ?case using Cons.IH Cons.prems(2-4) unfolding set_simps(2) insert_iff by blast
qed simp

lemma rings_room:
  assumes "tab_ok rs d" and "rings_ok d seen taken rs"
  shows "length (queued d seen @ taken @ reported d) \<le> 2"
proof -
  have "length (queued d seen @ taken @ reported d) = card (set (queued d seen @ taken @ reported d))"
    using assms(2) by (simp only: rings_ok_def distinct_card)
  also have "\<dots> \<le> card (vr_i0 ` set rs)" using assms(2) by (intro card_mono) (simp_all add: rings_ok_def)
  also have "\<dots> \<le> length rs" using card_image_le [of "set rs" vr_i0] card_length [of rs] by simp
  finally show ?thesis using tab_ok_room [OF assms(1)] by simp
qed

lemma length_queued: "length (queued d seen) = unat (va_idx (dk_avail d)) - unat seen"
  and length_reported: "length (reported d) = unat (vu_idx (dk_used d)) - unat (dk_used_idx d)"
  by (simp_all add: queued_def reported_def)

section \<open>Submitting\<close>

lemma submit_queued:
  assumes "rw_submit base i0 i1 i2 buf blockno w d = Done d'" and "i0 < NUM"
    and "length (va_ring (dk_avail d)) = NUM" "unat seen \<le> unat (va_idx (dk_avail d))" "length (queued d seen) < NUM"
  shows "queued d' seen = queued d seen @ [i0]" "unat (va_idx (dk_avail d')) = unat (va_idx (dk_avail d)) + 1"
proof -
  from assms(1) have ov: "unat (va_idx (dk_avail d)) + 1 < 2 ^ 16"
    and ring: "va_ring (dk_avail d') = (va_ring (dk_avail d))[unat (va_idx (dk_avail d)) mod NUM := of_nat i0]"
    and ix: "va_idx (dk_avail d') = va_idx (dk_avail d) + 1"
    by (auto simp: rw_submit_def Let_def split: if_splits)
  show n: "unat (va_idx (dk_avail d')) = unat (va_idx (dk_avail d)) + 1"
    using ov unfolding ix by (subst unat_plus_no_overflow) auto
  show "queued d' seen = queued d seen @ [i0]"
    using slice_push [OF assms(3,4), of unat "of_nat i0"] assms(2,5)
    by (simp add: queued_def n ring unat_small_u16)
qed

lemma submit_view:
  assumes "rw_submit base i0 i1 i2 buf blockno w d = Done d'"
  shows "dk_ops d' = (dk_ops d)[i0 := \<lparr>br_type = (if w then 1 else 0), br_reserved = 0, br_sector = ucast blockno * 2\<rparr>]"
    "dk_desc d' = (dk_desc d)[i0 := \<lparr>vd_addr = ops_addr base i0, vd_len = 16, vd_flags = 1, vd_next = of_nat i1\<rparr>,
        i1 := \<lparr>vd_addr = buf, vd_len = 1024, vd_flags = (if w then 1 else 3), vd_next = of_nat i2\<rparr>,
        i2 := \<lparr>vd_addr = status_addr base i0, vd_len = 1, vd_flags = 2, vd_next = 0\<rparr>]"
    "dk_info d' = (dk_info d)[i0 := \<lparr>in_buf_channel = Some buf, in_status = 0xff, in_disk = True\<rparr>]"
    "dk_free d' = dk_free d" "dk_used d' = dk_used d" "dk_used_idx d' = dk_used_idx d"
    "length (va_ring (dk_avail d')) = length (va_ring (dk_avail d))"
  using assms by (auto simp: rw_submit_def Let_def VIRTIO_BLK_T_IN_def VIRTIO_BLK_T_OUT_def VRING_DESC_F_NEXT_def VRING_DESC_F_WRITE_def
    split: if_splits)

lemma vinv_submit:
  assumes inv: "vinv base s" and al: "alloc3_desc (vs_disk s) = Done (Some [i0, i1, i2], d1)"
    and sub: "rw_submit base i0 i1 i2 buf blockno w d1 = Done d2"
    and r: "r = \<lparr>vr_i0 = i0, vr_i1 = i1, vr_i2 = i2, vr_buf = buf, vr_block = blockno, vr_write = w, vr_served = False\<rparr>"
  shows "vinv base (s\<lparr>vs_disk := d2, vs_reqs := vs_reqs s @ [r]\<rparr>)"
proof -
  let ?d = "vs_disk s" and ?rs = "vs_reqs s"
  from inv have tab: "tab_ok ?rs ?d" and req: "\<forall>r \<in> set ?rs. req_ok base ?d r" and rings: "rings_ok ?d (vs_seen s) (vs_taken s) ?rs"
    by (simp_all add: vinv_def)
  have len: "length (dk_free ?d) = NUM" using tab by (simp add: tab_ok_def)
  obtain dist: "distinct [i0, i1, i2]" and free: "{i0, i1, i2} \<subseteq> {i. i < NUM \<and> dk_free ?d ! i}"
    and d1: "d1 = ?d\<lparr>dk_free := (dk_free ?d)[i0 := False, i1 := False, i2 := False]\<rparr>"
    using alloc3_Some [OF al len] by auto
  note view = submit_view [OF sub]
  have new: "set (ids r) \<inter> set (all_ids ?rs) = {}" using tab free by (auto simp: tab_ok_def ids_def r)
  have q: "queued d2 (vs_seen s) = queued ?d (vs_seen s) @ [i0]" "unat (va_idx (dk_avail d2)) = unat (va_idx (dk_avail ?d)) + 1"
    using submit_queued [OF sub, of "vs_seen s"] free tab rings rings_room [OF tab rings]
    by (auto simp: d1 tab_ok_def rings_ok_def queued_def NUM_def)
  have rep: "reported d2 = reported ?d" by (simp add: reported_def view d1)
  have "tab_ok (?rs @ [r]) d2"
    using tab free dist new by (auto simp: tab_ok_def view d1 ids_def r nth_list_update)
  moreover have old: "vr_i0 q \<noteq> i0 \<and> {vr_i0 q, vr_i1 q, vr_i2 q} \<inter> {i0, i1, i2} = {}" if "q \<in> set ?rs" for q
    using head_in [OF that] new by (auto simp: ids_def r)
  have "req_ok base d2 q" if "q \<in> set ?rs" for q
    using old [OF that] req that by (auto simp: req_ok_def view d1)
  moreover have "req_ok base d2 r"
    using dist free tab by (auto simp: req_ok_def view d1 r tab_ok_def)
  moreover have "rings_ok d2 (vs_seen s) (vs_taken s) (?rs @ [r])"
  proof -
    have i0: "i0 \<notin> vr_i0 ` set ?rs" using old by auto
    have "in_disk (dk_info d2 ! i0)" using free tab by (simp add: view d1 tab_ok_def)
    moreover have "dk_info d2 ! vr_i0 q = dk_info ?d ! vr_i0 q" if "q \<in> set ?rs" for q
      using old [OF that] by (simp add: view d1)
    ultimately show ?thesis using rings i0 unfolding rings_ok_def q rep by (auto simp: q view d1 r)
  qed
  ultimately show ?thesis by (auto simp: vinv_def)
qed

section \<open>The device's steps\<close>

lemma vinv_fetch:
  assumes inv: "vinv base s" and ne: "vs_seen s \<noteq> va_idx (dk_avail (vs_disk s))"
  shows "vinv base (device_fetch s)"
proof -
  let ?d = "vs_disk s"
  from inv have rings: "rings_ok ?d (vs_seen s) (vs_taken s) (vs_reqs s)" by (simp add: vinv_def)
  then have lt: "unat (vs_seen s) < unat (va_idx (dk_avail ?d))" using ne by (auto simp: rings_ok_def word_unat_eq_iff)
  then have suc: "unat (vs_seen s + 1) = unat (vs_seen s) + 1"
    using u16_bound [of "va_idx (dk_avail ?d)"] by (subst unat_plus_no_overflow) auto
  let ?h = "unat (va_ring (dk_avail ?d) ! (unat (vs_seen s) mod NUM))"
  have q: "queued ?d (vs_seen s) = ?h # queued ?d (vs_seen s + 1)"
    using lt by (simp add: queued_def suc upt_conv_Cons)
  have "rings_ok ?d (vs_seen s + 1) (vs_taken s @ [?h]) (vs_reqs s)"
    using rings lt unfolding rings_ok_def q by (auto simp: suc)
  with inv show ?thesis by (simp add: vinv_def device_fetch_def Let_def)
qed

text \<open>What a request asks for.\<close>

definition transfer :: "vreq \<Rightarrow> (u64 \<Rightarrow> u8 list) \<times> (u64 \<Rightarrow> u8 list) \<Rightarrow> (u64 \<Rightarrow> u8 list) \<times> (u64 \<Rightarrow> u8 list)" where
  "transfer r mp =
     (let (mem, plat) = mp; x = ucast (vr_block r) * 2
      in if vr_write r then (mem, plat(x := take 512 (mem (vr_buf r)), x + 1 := drop 512 (mem (vr_buf r))))
         else (mem(vr_buf r := plat x @ plat (x + 1)), plat))"

lemma serve_eq:
  assumes tab: "tab_ok (vs_reqs s) (vs_disk s)" and r: "r \<in> set (vs_reqs s)" and ok: "req_ok base (vs_disk s) r"
  shows "device_serve base (vr_i0 r) s = Some (s\<lparr>vs_disk := put_used (vr_i0 r) (vr_i0 r) (vs_disk s),
    vs_taken := remove1 (vr_i0 r) (vs_taken s),
    vs_reqs := map (\<lambda>q. if vr_i0 q = vr_i0 r then q\<lparr>vr_served := True\<rparr> else q) (vs_reqs s),
    vs_mem := fst (transfer r (vs_mem s, vs_plat s)), vs_plat := snd (transfer r (vs_mem s, vs_plat s))\<rparr>)"
proof -
  from tab head_in [OF r] have "vr_i0 r < NUM" "vr_i1 r < NUM" "vr_i2 r < NUM" by (auto simp: tab_ok_def)
  then show ?thesis using ok
    by (simp add: device_serve_def req_ok_def Let_def unat_small_u16 find_ops find_status transfer_def)
qed

lemma put_used_view:
  "dk_desc (put_used h k d) = dk_desc d" "dk_avail (put_used h k d) = dk_avail d" "dk_free (put_used h k d) = dk_free d"
  "dk_ops (put_used h k d) = dk_ops d" "dk_used_idx (put_used h k d) = dk_used_idx d"
  "dk_info (put_used h k d) = (dk_info d)[k := (dk_info d ! k)\<lparr>in_status := 0\<rparr>]"
  "length (vu_ring (dk_used (put_used h k d))) = length (vu_ring (dk_used d))" "queued (put_used h k d) seen = queued d seen"
  by (simp_all add: put_used_def Let_def queued_def)

lemma put_used_reported:
  assumes "length (vu_ring (dk_used d)) = NUM" and "unat (dk_used_idx d) \<le> unat (vu_idx (dk_used d))"
    and "length (reported d) < NUM" and "h < NUM" and "unat (vu_idx (dk_used d)) + 1 < 2 ^ 16"
  shows "reported (put_used h k d) = reported d @ [h]" "unat (vu_idx (dk_used (put_used h k d))) = unat (vu_idx (dk_used d)) + 1"
proof -
  show n: "unat (vu_idx (dk_used (put_used h k d))) = unat (vu_idx (dk_used d)) + 1"
    using assms(5) by (simp add: put_used_def Let_def unat_plus_no_overflow)
  have "reported (put_used h k d) = map (\<lambda>j. unat (ue_id ((vu_ring (dk_used d))[unat (vu_idx (dk_used d)) mod NUM :=
      \<lparr>ue_id = of_nat h, ue_len = 1\<rparr>] ! (j mod NUM)))) [unat (dk_used_idx d)..<Suc (unat (vu_idx (dk_used d)))]"
    unfolding reported_def n by (simp add: put_used_def Let_def)
  also have "\<dots> = reported d @ [h]"
    using slice_push [OF assms(1,2), of "\<lambda>e. unat (ue_id e)" "\<lparr>ue_id = of_nat h, ue_len = 1\<rparr>"] assms(3,4)
    by (simp add: reported_def unat_small_u32)
  finally show "reported (put_used h k d) = reported d @ [h]" .
qed

definition mark_served :: "nat \<Rightarrow> vreq \<Rightarrow> vreq" where
  "mark_served h q = (if vr_i0 q = h then q\<lparr>vr_served := True\<rparr> else q)"

lemma nth_list_update_if: "h < length xs \<Longrightarrow> xs[h := x] ! i = (if i = h then x else xs ! i)"
  by simp

lemma mark_served_simps [simp]:
  "vr_i0 (mark_served h q) = vr_i0 q" "ids (mark_served h q) = ids q" "req_ok base d (mark_served h q) = req_ok base d q"
  by (simp_all add: mark_served_def ids_def req_ok_def)

lemma all_ids_mark [simp]: "all_ids (map (mark_served h) rs) = all_ids rs"
  by (simp add: all_ids_def comp_def)

lemma rings_serve:
  assumes rings: "rings_ok d seen taken rs" and h: "h \<in> set taken"
    and same: "dk_avail d' = dk_avail d" "dk_used_idx d' = dk_used_idx d" "queued d' seen = queued d seen"
    and rep: "reported d' = reported d @ [h]" "unat (vu_idx (dk_used d')) = unat (vu_idx (dk_used d)) + 1"
    and info: "\<And>i. in_disk (dk_info d' ! i) = in_disk (dk_info d ! i)"
      "\<And>i. in_status (dk_info d' ! i) = (if i = h then 0 else in_status (dk_info d ! i))"
  shows "rings_ok d' seen (remove1 h taken) (map (mark_served h) rs)"
proof -
  let ?all = "set (queued d seen @ taken @ reported d)"
  have dist: "distinct (queued d seen @ taken @ reported d)" using rings unfolding rings_ok_def by blast
  then have rem: "set (remove1 h taken) = set taken - {h}" by (simp add: set_remove1_eq)
  have all: "set (queued d' seen @ remove1 h taken @ reported d') = ?all"
    using h by (auto simp: same rep rem)
  have dist': "distinct (queued d' seen @ remove1 h taken @ reported d')"
    using dist h by (auto simp: same rep rem distinct_remove1)
  have "vr_i0 ` set (map (mark_served h) rs) = vr_i0 ` set rs" by (simp add: image_image)
  moreover have "length (remove1 h taken) + 1 = length taken" using h length_pos_if_in_set [OF h] by (simp add: length_remove1)
  moreover have "in_status (dk_info d' ! i) = 0" if "i \<in> set (reported d')" "in_status (dk_info d ! i) = 0 \<or> i = h" for i
    using that by (auto simp: info)
  moreover have "vr_served (mark_served h q) \<longleftrightarrow> vr_i0 q \<notin> set (queued d' seen @ remove1 h taken)" if "q \<in> set rs" for q
  proof -
    have "vr_served q \<longleftrightarrow> vr_i0 q \<notin> set (queued d seen @ taken)" using rings that by (auto simp: rings_ok_def)
    moreover have "h \<notin> set (queued d seen)" using dist h by auto
    ultimately show ?thesis by (auto simp: mark_served_def same rem)
  qed
  moreover have "in_status (dk_info d ! vr_i0 q) = 0 \<or> vr_i0 q = h" if "q \<in> set rs" "vr_i0 q \<in> set (reported d')" for q
    using rings that by (auto simp: rings_ok_def rep)
  ultimately show ?thesis
    using rings dist' h unfolding rings_ok_def same rep(2) by (auto simp: info rep(1) rem same(3))
qed

lemma vinv_serve:
  assumes inv: "vinv base s" and h: "h \<in> set (vs_taken s)" and serve: "device_serve base h s = Some s'"
  obtains r where "r \<in> set (vs_reqs s)" "vr_i0 r = h" "\<not> vr_served r" "vinv base s'"
    "(vs_mem s', vs_plat s') = transfer r (vs_mem s, vs_plat s)"
proof -
  let ?d = "vs_disk s" and ?d' = "put_used h h (vs_disk s)"
  from inv have tab: "tab_ok (vs_reqs s) ?d" and req: "\<forall>r \<in> set (vs_reqs s). req_ok base ?d r"
    and rings: "rings_ok ?d (vs_seen s) (vs_taken s) (vs_reqs s)" by (simp_all add: vinv_def)
  from rings h obtain r where r: "r \<in> set (vs_reqs s)" "vr_i0 r = h" by (auto simp: rings_ok_def)
  have hN: "h < NUM" using tab head_in [OF r(1)] r(2) by (auto simp: tab_ok_def)
  from serve_eq [OF tab r(1)] req r serve
  have s': "s' = s\<lparr>vs_disk := ?d', vs_taken := remove1 h (vs_taken s), vs_reqs := map (mark_served h) (vs_reqs s),
    vs_mem := fst (transfer r (vs_mem s, vs_plat s)), vs_plat := snd (transfer r (vs_mem s, vs_plat s))\<rparr>"
    by (simp add: mark_served_def [abs_def])
  have "0 < length (vs_taken s)" using h by (cases "vs_taken s") auto
  then have "unat (vu_idx (dk_used ?d)) + 1 < 65536"
    using conjunct1 [OF conjunct2 [OF conjunct2 [OF rings [unfolded rings_ok_def]]]] u16_bound [of "vs_seen s"] by linarith
  then have "unat (vu_idx (dk_used ?d)) + 1 < 2 ^ 16" by simp
  moreover have "length (reported ?d) < NUM" using rings_room [OF tab rings] by (simp add: NUM_def)
  ultimately have rep: "reported ?d' = reported ?d @ [h]" "unat (vu_idx (dk_used ?d')) = unat (vu_idx (dk_used ?d)) + 1"
    using put_used_reported [of ?d h h] tab rings hN by (simp_all add: tab_ok_def rings_ok_def)
  have "tab_ok (map (mark_served h) (vs_reqs s)) ?d'" using tab by (simp add: tab_ok_def put_used_view)
  moreover have "\<forall>r \<in> set (map (mark_served h) (vs_reqs s)). req_ok base ?d' r"
    using req tab hN by (auto simp: req_ok_def put_used_view nth_list_update tab_ok_def mark_served_def)
  moreover have "rings_ok ?d' (vs_seen s) (remove1 h (vs_taken s)) (map (mark_served h) (vs_reqs s))"
    by (rule rings_serve [OF rings h])
      (use rep hN tab in \<open>auto simp: put_used_view nth_list_update_if tab_ok_def\<close>)
  ultimately have "vinv base s'" by (simp add: vinv_def s')
  moreover have "\<not> vr_served r" using rings h r by (auto simp: rings_ok_def)
  ultimately show ?thesis using r by (intro that [of r]) (auto simp: s')
qed

section \<open>The interrupt handler and the end of a request\<close>

lemma vinv_intr_one:
  assumes inv: "vinv base s" and ne: "dk_used_idx (vs_disk s) \<noteq> vu_idx (dk_used (vs_disk s))"
  obtains d where "intr_one (vs_disk s) = Done d" "vinv base (s\<lparr>vs_disk := d\<rparr>)"
proof -
  let ?d = "vs_disk s"
  from inv have tab: "tab_ok (vs_reqs s) ?d" and req: "\<forall>r \<in> set (vs_reqs s). req_ok base ?d r"
    and rings: "rings_ok ?d (vs_seen s) (vs_taken s) (vs_reqs s)" by (simp_all add: vinv_def)
  have lt: "unat (dk_used_idx ?d) < unat (vu_idx (dk_used ?d))" using rings ne by (auto simp: rings_ok_def word_unat_eq_iff)
  then have ov: "unat (dk_used_idx ?d) + 1 < 2 ^ 16" using u16_bound [of "vu_idx (dk_used ?d)"] by simp
  then have suc: "unat (dk_used_idx ?d + 1) = unat (dk_used_idx ?d) + 1" by (simp add: unat_plus_no_overflow)
  define h where "h = unat (ue_id (vu_ring (dk_used ?d) ! (unat (dk_used_idx ?d) mod NUM)))"
  define d where "d = ?d\<lparr>dk_info := (dk_info ?d)[h := (dk_info ?d ! h)\<lparr>in_disk := False\<rparr>],
    dk_wakes := dk_wakes ?d @ [WakeBuf (the (in_buf_channel (dk_info ?d ! h)))], dk_used_idx := dk_used_idx ?d + 1\<rparr>"
  have rep: "reported ?d = h # reported d" using lt by (simp add: reported_def h_def d_def suc upt_conv_Cons)
  have q: "queued d (vs_seen s) = queued ?d (vs_seen s)" by (simp add: queued_def d_def)
  from rings rep obtain r where r: "r \<in> set (vs_reqs s)" "vr_i0 r = h" by (auto simp: rings_ok_def)
  have hN: "h < NUM" using tab head_in [OF r(1)] r(2) by (auto simp: tab_ok_def)
  have st: "in_status (dk_info ?d ! h) = 0" using rings r rep by (auto simp: rings_ok_def)
  have ch: "in_buf_channel (dk_info ?d ! h) = Some (vr_buf r)" using req r by (auto simp: req_ok_def)
  have "intr_one ?d = Done d"
    using hN st ch ov by (simp add: intr_one_def h_def [symmetric] d_def)
  moreover have "tab_ok (vs_reqs s) d" using tab by (simp add: tab_ok_def d_def)
  moreover have "\<forall>r \<in> set (vs_reqs s). req_ok base d r"
    using req tab hN by (auto simp: req_ok_def d_def nth_list_update tab_ok_def)
  moreover have "rings_ok d (vs_seen s) (vs_taken s) (vs_reqs s)"
  proof -
    have info: "dk_info d ! i = (if i = h then (dk_info ?d ! h)\<lparr>in_disk := False\<rparr> else dk_info ?d ! i)" for i
      using tab hN by (simp add: d_def tab_ok_def)
    have "unat (dk_used_idx d) \<le> unat (vu_idx (dk_used d))" "vu_idx (dk_used d) = vu_idx (dk_used ?d)" "dk_avail d = dk_avail ?d"
      using lt suc by (simp_all add: d_def)
    then show ?thesis using rings st unfolding rings_ok_def q rep by (auto simp: info)
  qed
  ultimately show ?thesis using that by (simp add: vinv_def)
qed

lemma vinv_intr:
  assumes "vinv base s"
  shows "\<exists>d. disk_intr (vs_disk s) = Done d \<and> vinv base (s\<lparr>vs_disk := d\<rparr>)"
  using assms
proof (induction "length (reported (vs_disk s))" arbitrary: s)
  case 0
  then have "dk_used_idx (vs_disk s) = vu_idx (dk_used (vs_disk s))"
    by (simp add: vinv_def rings_ok_def length_reported word_unat_eq_iff)
  then show ?case using 0 by (auto simp: disk_intr.simps)
next
  case (Suc n)
  then have ne: "dk_used_idx (vs_disk s) \<noteq> vu_idx (dk_used (vs_disk s))" by (auto simp: length_reported)
  obtain d where d: "intr_one (vs_disk s) = Done d" "vinv base (s\<lparr>vs_disk := d\<rparr>)" using vinv_intr_one [OF Suc.prems ne] .
  have "n = length (reported (vs_disk (s\<lparr>vs_disk := d\<rparr>)))"
    using Suc.hyps(2) intr_one_Done [OF d(1)] by (simp add: length_reported)
  from Suc.hyps(1) [OF this d(2)] show ?case using ne d(1) by (simp add: disk_intr.simps [of "vs_disk s"])
qed

lemma free_chain_next:
  assumes "i < NUM" and "\<not> dk_free d ! i" and "vd_flags (dk_desc d ! i) AND VRING_DESC_F_NEXT \<noteq> 0"
  shows "free_chain i d = free_chain (unat (vd_next (dk_desc d ! i)))
    (d\<lparr>dk_desc := (dk_desc d)[i := vq_desc_new], dk_free := (dk_free d)[i := True], dk_wakes := dk_wakes d @ [WakeFree]\<rparr>)"
  using assms by (subst free_chain.simps) (simp add: free_desc_def vq_desc_new_def)

lemma free_chain_last:
  assumes "i < NUM" and "\<not> dk_free d ! i" and "vd_flags (dk_desc d ! i) AND VRING_DESC_F_NEXT = 0"
  shows "free_chain i d = Some (Done
    (d\<lparr>dk_desc := (dk_desc d)[i := vq_desc_new], dk_free := (dk_free d)[i := True], dk_wakes := dk_wakes d @ [WakeFree]\<rparr>))"
  using assms by (subst free_chain.simps) (simp add: free_desc_def vq_desc_new_def)

lemma vinv_finish:
  assumes inv: "vinv base s" and r: "r \<in> set (vs_reqs s)" and idle: "\<not> rw_waiting (vr_i0 r) (vs_disk s)"
  obtains d where "rw_finish (vr_i0 r) (vr_buf r) (vs_disk s) = Some (Done d)"
    "vinv base (s\<lparr>vs_disk := d, vs_reqs := remove1 r (vs_reqs s)\<rparr>)" "vr_served r"
    "dk_free d = (dk_free (vs_disk s))[vr_i0 r := True, vr_i1 r := True, vr_i2 r := True]"
proof -
  let ?d = "vs_disk s" and ?i0 = "vr_i0 r" and ?i1 = "vr_i1 r" and ?i2 = "vr_i2 r"
  from inv have tab: "tab_ok (vs_reqs s) ?d" and req: "\<forall>r \<in> set (vs_reqs s). req_ok base ?d r"
    and rings: "rings_ok ?d (vs_seen s) (vs_taken s) (vs_reqs s)" by (simp_all add: vinv_def)
  from tab obtain rs1 rs2 where rs: "vs_reqs s = rs1 @ r # rs2" using split_list [OF r] by blast
  have dist: "distinct (all_ids (vs_reqs s))" using tab by (simp add: tab_ok_def)
  then have ne: "?i0 \<noteq> ?i1" "?i0 \<noteq> ?i2" "?i1 \<noteq> ?i2" by (auto simp: rs ids_def)
  have lt: "?i0 < NUM" "?i1 < NUM" "?i2 < NUM" using tab head_in [OF r] by (auto simp: tab_ok_def)
  have taken: "\<not> dk_free ?d ! ?i0" "\<not> dk_free ?d ! ?i1" "\<not> dk_free ?d ! ?i2"
    using tab head_in [OF r] lt by (auto simp: tab_ok_def)
  define d where "d = ?d\<lparr>dk_info := (dk_info ?d)[?i0 := (dk_info ?d ! ?i0)\<lparr>in_buf_channel := None\<rparr>],
    dk_desc := (dk_desc ?d)[?i0 := vq_desc_new, ?i1 := vq_desc_new, ?i2 := vq_desc_new],
    dk_free := (dk_free ?d)[?i0 := True, ?i1 := True, ?i2 := True],
    dk_wakes := dk_wakes ?d @ [WakeFree, WakeFree, WakeFree]\<rparr>"
  have "req_ok base ?d r" using req r by blast
  then have fin: "rw_finish ?i0 (vr_buf r) ?d = Some (Done d)"
    using lt ne taken
    by (simp add: rw_finish_def req_ok_def free_chain_next free_chain_last VRING_DESC_F_NEXT_def unat_small_u16 d_def)
  have drop: "remove1 r (vs_reqs s) = rs1 @ rs2"
    using dist by (auto simp: rs remove1_append ids_def dest: head_in)
  have other: "set (ids q) \<inter> set (ids r) = {}" if "q \<in> set (rs1 @ rs2)" for q
    using dist ids_in [of q rs1] ids_in [of q rs2] that by (fastforce simp: rs)
  have "tab_ok (rs1 @ rs2) d"
    using tab ne lt by (auto simp: tab_ok_def d_def rs nth_list_update ids_def)
  moreover have "req_ok base d q" if "q \<in> set (rs1 @ rs2)" for q
  proof -
    have "req_ok base ?d q" using req that by (auto simp: rs)
    then show ?thesis using other [OF that] by (auto simp: req_ok_def d_def ids_def)
  qed
  moreover have "rings_ok d (vs_seen s) (vs_taken s) (rs1 @ rs2)"
  proof -
    have q: "queued d (vs_seen s) = queued ?d (vs_seen s)" "reported d = reported ?d" by (simp_all add: queued_def reported_def d_def)
    have gone: "?i0 \<notin> set (queued ?d (vs_seen s) @ vs_taken s @ reported ?d)"
      using rings idle r by (auto simp: rings_ok_def rw_waiting_def)
    have info: "dk_info d ! vr_i0 q = dk_info ?d ! vr_i0 q" if "q \<in> set (rs1 @ rs2)" for q
      using other [OF that] by (auto simp: d_def ids_def)
    have same: "dk_avail d = dk_avail ?d" "dk_used d = dk_used ?d" "dk_used_idx d = dk_used_idx ?d" by (simp_all add: d_def)
    have "set (queued ?d (vs_seen s) @ vs_taken s @ reported ?d) \<subseteq> vr_i0 ` set (rs1 @ rs2)"
      using rings gone by (auto simp: rings_ok_def rs)
    then show ?thesis using rings info unfolding rings_ok_def q same by (simp add: rs)
  qed
  moreover have "vr_served r" using rings idle r by (auto simp: rings_ok_def rw_waiting_def)
  ultimately show ?thesis using that [OF fin] drop by (simp add: vinv_def d_def)
qed

lemma vinv_init: "vinv base (vsys_init mem plat)"
  by (auto simp: vinv_def vsys_init_def tab_ok_def rings_ok_def disk_new_def queued_def reported_def vq_avail_new_def vq_used_new_def NUM_def)

lemma vrun_vinv: "vrun base (vsys_init mem plat) ls s \<Longrightarrow> vinv base s"
proof (induction "vsys_init mem plat" ls s rule: vrun.induct)
  case stop
  then show ?case by (rule vinv_init)
next
  case (step ls s l s')
  from step(3) step(2) show ?case
  proof cases
    case (interrupt d)
    then show ?thesis using vinv_intr [OF step(2)] by auto
  next
    case (finish r d)
    then show ?thesis using vinv_finish [OF step(2), of r] by auto
  next
    case (serve h)
    then show ?thesis using vinv_serve [OF step(2), of h s'] by metis
  qed (auto intro: vinv_submit vinv_fetch)
qed

lemma free_chain_busy: "i < NUM \<Longrightarrow> dk_free d ! i \<Longrightarrow> free_chain i d = Some (Panicked ''desc index not correct'')"
  by (subst free_chain.simps) (simp add: free_desc_def)

section \<open>What a run does to the data\<close>

definition finished :: "vlabel list \<Rightarrow> vreq list" where
  "finished ls = List.map_filter (\<lambda>l. case l of Finish r \<Rightarrow> Some r | _ \<Rightarrow> None) ls"

lemma finished_simps:
  "finished [] = []" "finished (ls @ [Finish r]) = finished ls @ [r]"
  "\<And>r. finished (ls @ [Submit r]) = finished ls" "finished (ls @ [Fetch]) = finished ls"
  "finished (ls @ [Serve h]) = finished ls" "finished (ls @ [Interrupt]) = finished ls"
  by (simp_all add: finished_def map_filter_def)

lemma transfer_marked: "transfer (r\<lparr>vr_served := b\<rparr>) = transfer r"
  by (simp add: transfer_def fun_eq_iff Let_def)

lemma mark_one:
  assumes "distinct (all_ids rs)" and "r \<in> set rs" and "\<not> vr_served r"
  shows "mset (filter vr_served (map (mark_served (vr_i0 r)) rs)) = add_mset (r\<lparr>vr_served := True\<rparr>) (mset (filter vr_served rs))"
proof -
  obtain rs1 rs2 where rs: "rs = rs1 @ r # rs2" using split_list [OF assms(2)] by blast
  have "vr_i0 q \<noteq> vr_i0 r" if "q \<in> set (rs1 @ rs2)" for q
  proof
    assume "vr_i0 q = vr_i0 r"
    then have "set (ids q) \<inter> set (ids r) \<noteq> {}" by (auto simp: ids_def)
    then show False using assms(1) that ids_in [of q rs1] ids_in [of q rs2] by (fastforce simp: rs)
  qed
  then have "map (mark_served (vr_i0 r)) rs1 = rs1" "map (mark_served (vr_i0 r)) rs2 = rs2"
    by (auto simp: mark_served_def intro!: map_idI)
  then show ?thesis using assms(3) by (simp add: rs mark_served_def)
qed

lemma serve_marks:
  assumes "vinv base s" and "r \<in> set (vs_reqs s)" and "device_serve base (vr_i0 r) s = Some s'"
  shows "vs_reqs s' = map (mark_served (vr_i0 r)) (vs_reqs s)"
  using serve_eq [of s r base] assms by (auto simp: vinv_def mark_served_def [abs_def])

lemma vrun_data:
  assumes "vrun base (vsys_init mem plat) ls s"
  shows "\<exists>ts. (vs_mem s, vs_plat s) = fold transfer ts (mem, plat) \<and> mset ts = mset (finished ls) + mset (filter vr_served (vs_reqs s))"
  using assms
proof (induction "vsys_init mem plat" ls s rule: vrun.induct)
  case stop
  then show ?case by (auto simp: finished_simps vsys_init_def)
next
  case (step ls s l s')
  then have inv: "vinv base s" by (auto intro: vrun_vinv)
  from step(2) obtain ts where ts: "(vs_mem s, vs_plat s) = fold transfer ts (mem, plat)"
    "mset ts = mset (finished ls) + mset (filter vr_served (vs_reqs s))" by blast
  from step(3) show ?case
  proof cases
    case (serve h)
    obtain r where r: "r \<in> set (vs_reqs s)" "vr_i0 r = h" "\<not> vr_served r"
      "(vs_mem s', vs_plat s') = transfer r (vs_mem s, vs_plat s)"
      using vinv_serve [OF inv serve(2,3)] by metis
    have "vs_reqs s' = map (mark_served h) (vs_reqs s)" using serve_marks [OF inv r(1)] serve(3) r(2) by simp
    moreover have "distinct (all_ids (vs_reqs s))" using inv by (simp add: vinv_def tab_ok_def)
    ultimately have "mset (filter vr_served (vs_reqs s')) = add_mset (r\<lparr>vr_served := True\<rparr>) (mset (filter vr_served (vs_reqs s)))"
      using mark_one [OF _ r(1,3)] r(2) by simp
    then have "(vs_mem s', vs_plat s') = fold transfer (ts @ [r\<lparr>vr_served := True\<rparr>]) (mem, plat) \<and>
        mset (ts @ [r\<lparr>vr_served := True\<rparr>]) = mset (finished (ls @ [l])) + mset (filter vr_served (vs_reqs s'))"
      using ts r(4) by (simp add: serve(1) finished_simps transfer_marked)
    then show ?thesis by blast
  next
    case (finish r d)
    then have "vr_served r" using vinv_finish [OF inv, of r] by metis
    then have "mset (finished (ls @ [l])) + mset (filter vr_served (vs_reqs s')) = mset ts"
      using finish ts(2) by (simp add: finished_simps filter_remove1)
    moreover have "(vs_mem s', vs_plat s') = fold transfer ts (mem, plat)" using ts(1) finish by simp
    ultimately show ?thesis by metis
  next
    case (submit i0 i1 i2 d1 buf blockno w d2 r)
    then show ?thesis using ts by (auto simp: finished_simps)
  next
    case fetch
    then show ?thesis using ts by (auto simp: finished_simps device_fetch_def Let_def)
  next
    case (interrupt d)
    then show ?thesis using ts by (auto simp: finished_simps)
  qed
qed

text \<open>A transfer in terms of blocks: the two sectors of a block.\<close>

definition plat_block :: "(u64 \<Rightarrow> u8 list) \<Rightarrow> u32 \<Rightarrow> u8 list" where
  "plat_block plat b = plat (ucast b * 2) @ plat (ucast b * 2 + 1)"

lemma sector_unat: "unat (ucast (b :: u32) * 2 :: u64) = 2 * unat b" "unat (ucast (b :: u32) * 2 + 1 :: u64) = 2 * unat b + 1"
proof -
  have b: "unat b < 4294967296" using unsigned_less [of b, where 'a = nat] by simp
  then show m: "unat (ucast b * 2 :: u64) = 2 * unat b" by (simp add: unat_word_ariths unsigned_ucast_eq take_bit_nat_eq_self)
  with b show "unat (ucast b * 2 + 1 :: u64) = 2 * unat b + 1" by (subst unat_plus_no_overflow) simp_all
qed

lemma sector_eq: "(ucast b * 2 :: u64) = ucast (b' :: u32) * 2 \<longleftrightarrow> b = b'" "(ucast b * 2 + 1 :: u64) = ucast b' * 2 + 1 \<longleftrightarrow> b = b'"
  "(ucast b * 2 :: u64) \<noteq> ucast b' * 2 + 1" "(ucast b' * 2 + 1 :: u64) \<noteq> ucast b * 2"
proof -
  have "2 * unat b \<noteq> 2 * unat b' + 1" "2 * unat b' + 1 \<noteq> 2 * unat b" by presburger+
  then show "(ucast b * 2 :: u64) \<noteq> ucast b' * 2 + 1" "(ucast b' * 2 + 1 :: u64) \<noteq> ucast b * 2"
    unfolding word_unat_eq_iff [where 'a = 64] sector_unat by simp_all
qed (auto simp: word_unat_eq_iff [where 'a = 64] sector_unat simp flip: word_unat_eq_iff)

lemma transfer_blocks:
  "vr_write r \<Longrightarrow> length (mem (vr_buf r)) = 1024 \<Longrightarrow>
     fst (transfer r (mem, plat)) = mem \<and>
     plat_block (snd (transfer r (mem, plat))) = (plat_block plat)(vr_block r := mem (vr_buf r))"
  "\<not> vr_write r \<Longrightarrow> transfer r (mem, plat) = (mem(vr_buf r := plat_block plat (vr_block r)), plat)"
  by (auto simp: transfer_def plat_block_def Let_def fun_eq_iff sector_eq)

section \<open>Properties\<close>


text \<open>Two requests under way, as \<^verbatim>\<open>rw\<close> submits them.\<close>

definition free_disk :: disk where
  "free_disk = disk_new\<lparr>dk_free := replicate NUM True\<rparr>"

definition submit_at :: "u64 \<Rightarrow> usize \<Rightarrow> u32 \<Rightarrow> bool \<Rightarrow> disk \<Rightarrow> disk kres" where
  "submit_at base buf blockno w d =
     kbind (alloc3_desc d) (\<lambda>(r, d1). case r of
       None \<Rightarrow> Panicked ''sleep'' | Some is \<Rightarrow> rw_submit base (is ! 0) (is ! 1) (is ! 2) buf blockno w d1)"

lemma upt_NUM: "[0..<NUM] = [0, 1, 2, 3, 4, 5, 6, 7]"
  by (simp add: NUM_def upt_rec)

lemma free_disk_all: "dk_free free_disk = [True, True, True, True, True, True, True, True]"
  by (simp add: free_disk_def NUM_def numeral_eq_Suc)

lemma alloc3_all:
  "dk_free d = [True, True, True, True, True, True, True, True] \<Longrightarrow> alloc3_desc d = Done (Some [0, 1, 2], d\<lparr>dk_free := [False, False, False, True, True, True, True, True]\<rparr>)"
  by (simp add: alloc3_desc_def numeral_3_eq_3 alloc_desc_def upt_NUM)

lemma alloc3_five:
  "dk_free d = [False, False, False, True, True, True, True, True] \<Longrightarrow>
   alloc3_desc d = Done (Some [3, 4, 5], d\<lparr>dk_free := [False, False, False, False, False, False, True, True]\<rparr>)"
  by (simp add: alloc3_desc_def numeral_3_eq_3 alloc_desc_def upt_NUM)

lemma alloc3_two:
  "dk_free d = [False, False, False, False, False, False, True, True] \<Longrightarrow>
   alloc3_desc d = Done (None, d\<lparr>dk_free := [True, True, False, False, False, False, False, False],
     dk_desc := (dk_desc d)[0 := vq_desc_new, 1 := vq_desc_new], dk_wakes := dk_wakes d @ [WakeFree, WakeFree]\<rparr>)"
  by (simp add: alloc3_desc_def numeral_3_eq_3 alloc_desc_def upt_NUM)
    (simp add: numeral_eq_Suc free_desc_def NUM_def vq_desc_new_def)

lemma two_submits:
  "\<exists>d1 d2. submit_at base b1 n1 w1 free_disk = Done d1 \<and> submit_at base b2 n2 w2 d1 = Done d2 \<and>
     va_ring (dk_avail d2) ! 0 = 0 \<and> dk_info d2 ! 0 = \<lparr>in_buf_channel = Some b1, in_status = 0xff, in_disk = True\<rparr> \<and>
     dk_free d2 = [False, False, False, False, False, False, True, True] \<and> length (dk_info d2) = NUM \<and> length (dk_desc d2) = NUM"
proof -
  define f1 where "f1 = free_disk\<lparr>dk_free := [False, False, False, True, True, True, True, True]\<rparr>"
  have al1: "alloc3_desc free_disk = Done (Some [0, 1, 2], f1)" unfolding f1_def by (rule alloc3_all) (rule free_disk_all)
  have "va_idx (dk_avail f1) = 0" "length (va_ring (dk_avail f1)) = NUM" by (simp_all add: f1_def free_disk_def disk_new_def vq_avail_new_def)
  then obtain d1 where d1: "rw_submit base 0 1 2 b1 n1 w1 f1 = Done d1" "va_idx (dk_avail d1) = 1" "va_ring (dk_avail d1) ! 0 = 0"
    by (simp add: rw_submit_def Let_def NUM_def)
  note v1 = submit_view [OF d1(1)]
  define f2 where "f2 = d1\<lparr>dk_free := [False, False, False, False, False, False, True, True]\<rparr>"
  have al2: "alloc3_desc d1 = Done (Some [3, 4, 5], f2)" unfolding f2_def by (rule alloc3_five) (simp add: v1 f1_def)
  obtain d2 where d2: "rw_submit base 3 4 5 b2 n2 w2 f2 = Done d2" "va_ring (dk_avail d2) ! 0 = 0"
    using d1 by (simp add: f2_def rw_submit_def Let_def NUM_def)
  note v2 = submit_view [OF d2(1)]
  have "dk_free d2 = [False, False, False, False, False, False, True, True]" by (simp add: v2 f2_def)
  moreover have "dk_info d2 ! 0 = \<lparr>in_buf_channel = Some b1, in_status = 0xff, in_disk = True\<rparr>" "length (dk_info d2) = NUM"
    "length (dk_desc d2) = NUM"
    by (simp_all add: v2 f2_def v1 f1_def free_disk_def disk_new_def NUM_def)
  ultimately show ?thesis using d1 d2 al1 al2 by (auto simp: submit_at_def)
qed


text \<open>
  C37 (a third request): while two requests are under way only two descriptors are left. A third caller
  of \<^verbatim>\<open>rw\<close> takes them, fails to get a third one, and gives back descriptors 0 and 1, which belong to the first request,
  instead of its own. The descriptors the device is to follow are cleared and count as
  free, and when the device reports the first request its completion panics.
\<close>

theorem third_request_panics:
  "\<exists>d1 d2 d3. submit_at base b1 n1 w1 free_disk = Done d1 \<and> submit_at base b2 n2 w2 d1 = Done d2 \<and>
     alloc3_desc d2 = Done (None, d3) \<and>
     va_ring (dk_avail d3) ! 0 = 0 \<and> rw_waiting 0 d3 \<and> dk_free d3 ! 0 \<and> dk_desc d3 ! 0 = vq_desc_new \<and> \<not> dk_free d3 ! 6 \<and>
     rw_finish 0 b1 (d3\<lparr>dk_info := (dk_info d3)[0 := (dk_info d3 ! 0)\<lparr>in_disk := False\<rparr>]\<rparr>) = Some (Panicked ''desc index not correct'')"
proof -
  obtain d1 d2 where d: "submit_at base b1 n1 w1 free_disk = Done d1" "submit_at base b2 n2 w2 d1 = Done d2"
    "va_ring (dk_avail d2) ! 0 = 0" "dk_info d2 ! 0 = \<lparr>in_buf_channel = Some b1, in_status = 0xff, in_disk = True\<rparr>"
    "dk_free d2 = [False, False, False, False, False, False, True, True]" "length (dk_info d2) = NUM" "length (dk_desc d2) = NUM"
    using two_submits [of base b1 n1 w1 b2 n2 w2] by blast
  define d3 where "d3 = d2\<lparr>dk_free := [True, True, False, False, False, False, False, False],
     dk_desc := (dk_desc d2)[0 := vq_desc_new, 1 := vq_desc_new], dk_wakes := dk_wakes d2 @ [WakeFree, WakeFree]\<rparr>"
  have "alloc3_desc d2 = Done (None, d3)" unfolding d3_def by (rule alloc3_two [OF d(5)])
  moreover have "rw_finish 0 b1 (d3\<lparr>dk_info := (dk_info d3)[0 := (dk_info d3 ! 0)\<lparr>in_disk := False\<rparr>]\<rparr>) = Some (Panicked ''desc index not correct'')"
    using d by (simp add: d3_def rw_finish_def NUM_def free_chain_busy)
  ultimately show ?thesis using d by (auto simp: d3_def rw_waiting_def NUM_def intro!: exI [of _ d1] exI [of _ d2])
qed

end
