(* ===== verification/OpenFile.thy ===== *)
theory OpenFile
  imports Directory Pipe Console
begin

text \<open>
  Open files (\<^verbatim>\<open>kernel/src/fs/file/mod.rs\<close>): what a system call does on a file descriptor, over the inode cache,
  the log, the pipes and the console (the only device of \<^verbatim>\<open>driver/mod.rs\<close>). A regular file is written in batches, each a
  transaction of its own. User memory is a parameter, as in \<open>Inode\<close> and \<open>Pipe\<close>.
\<close>

declare split_paired_Ex [simp del] split_paired_All [simp del]

section \<open>Definitions\<close>

definition O_RDONLY :: u32 where "O_RDONLY = 0x0"
definition O_WRONLY :: u32 where "O_WRONLY = 0x1"
definition O_RDWR :: u32 where "O_RDWR = 0x2"
definition O_CREATE :: u32 where "O_CREATE = 0x200"
definition O_TRUNC :: u32 where "O_TRUNC = 0x400"
definition NDEV :: nat where "NDEV = 10"
definition DEV_CONSOLE :: nat where "DEV_CONSOLE = 1"

text \<open>\<^verbatim>\<open>DEVICES\<close>: the devices that have a read and a write function.\<close>

datatype device = DevConsole

definition devices :: "device option list" where
  "devices = (replicate NDEV None)[DEV_CONSOLE := Some DevConsole]"

datatype file_inner = FPipe nat | FRegular u32 "inode option" | FDevice u16 "inode option"

record open_file =
  f_inner :: file_inner
  f_readable :: bool
  f_writable :: bool

record fstate =
  fs_ic :: icache
  fs_pipes :: "nat \<Rightarrow> pipe_inner"
  fs_console :: console
  fs_uart :: uart
  fs_term :: "u8 list"

text \<open>
  Outcomes: a count, \<^verbatim>\<open>Err\<close>, or asleep with the local state of the loop that goes on afterwards: the bytes
  moved so far and, for the console, the byte that waits for room. \<open>IoSpin\<close> is the endless loop after a panic.
  \<open>fs_term\<close> collects what was sent to the terminal.
\<close>

datatype io_result = IoOk u32 | IoErr | IoSleep nat "u8 option" | IoSpin

definition of_pipe :: "nat \<Rightarrow> pipe_outcome \<Rightarrow> io_result" where
  "of_pipe wc r = (case r of PipeReturn (Some n) \<Rightarrow> IoOk n | PipeReturn None \<Rightarrow> IoErr | PipeSleep ch \<Rightarrow> IoSleep wc None)"

definition of_console :: "nat \<Rightarrow> con_outcome \<Rightarrow> io_result" where
  "of_console rc r = (case r of ConReturn (Some n) \<Rightarrow> IoOk (of_nat n) | ConReturn None \<Rightarrow> IoErr | ConSleep \<Rightarrow> IoSleep rc None)"

definition of_write :: "write_outcome \<Rightarrow> io_result" where
  "of_write r = (case r of WriteReturn n \<Rightarrow> IoOk (of_nat n) | WriteSleep n c \<Rightarrow> IoSleep n (Some c) | WriteSpin \<Rightarrow> IoSpin)"

text \<open>\<^verbatim>\<open>LOG.begin_op\<close> (\<open>None\<close>: it sleeps) and \<^verbatim>\<open>LOG.end_op\<close>.\<close>

definition fs_begin :: "icache \<Rightarrow> icache option" where
  "fs_begin s = map_option (\<lambda>lg. s\<lparr>ic_tx := (lg, snd (ic_tx s))\<rparr>) (begin_op (fst (ic_tx s)))"

definition fs_end :: "icache \<Rightarrow> icache kres" where
  "fs_end s = kbind (end_op (fst (ic_tx s)) (snd (ic_tx s))) (\<lambda>t. Done (s\<lparr>ic_tx := t\<rparr>))"

text \<open>\<^verbatim>\<open>File::open\<close>; the outer \<open>None\<close> is a sleep in \<^verbatim>\<open>begin_op\<close>. A failure after the inode was found drops it first.\<close>

definition flag_on :: "u32 \<Rightarrow> u32 \<Rightarrow> bool" where
  "flag_on flags b = (0 < sint (flags AND b))"

definition open_fail :: "bit_field \<Rightarrow> super_block \<Rightarrow> inode \<Rightarrow> icache \<Rightarrow> (open_file option \<times> icache) kres" where
  "open_fail bf sb ino s = kbind (ic_put bf sb ino s) (\<lambda>s1. kbind (fs_end s1) (\<lambda>s2. Done (None, s2)))"

definition file_open :: "bit_field \<Rightarrow> super_block \<Rightarrow> inode option \<Rightarrow> u8 list \<Rightarrow> u32 \<Rightarrow> icache \<Rightarrow> (open_file option \<times> icache) kres option" where
  "file_open bf sb cwd path flags s =
     map_option (\<lambda>s0.
       kbind (if flag_on flags O_CREATE then create bf sb cwd path File 0 0 True s0 else namei bf sb cwd path s0) (\<lambda>(found, s1).
       case found of
         None \<Rightarrow> kbind (fs_end s1) (\<lambda>s2. Done (None, s2))
       | Some ino \<Rightarrow>
           kbind (ilock sb [] ino s1) (\<lambda>s2.
           let i = in_index ino; di = id_dinode (ic_data s2 ! i);
               readable = (flags AND O_WRONLY = 0);
               writable = (0 < sint ((flags AND O_WRONLY) OR (flags AND O_RDWR)));
               opened = (\<lambda>inner s3. kbind (fs_end s3) (\<lambda>s4.
                 Done (Some \<lparr>f_inner = inner, f_readable = readable, f_writable = writable\<rparr>, s4)))
           in case di_itype di of
                Empty \<Rightarrow> Panicked ''empty inode''
              | Directory \<Rightarrow> if flags \<noteq> O_RDONLY then open_fail bf sb ino s2 else opened (FRegular 0 (Some ino)) s2
              | File \<Rightarrow>
                  kbind (if flag_on flags O_TRUNC
                         then kbind (itruncate bf sb (ic_data s2 ! i) (ic_tx s2)) (\<lambda>(idata, t).
                              Done (set_data i idata (s2\<lparr>ic_tx := t\<rparr>)))
                         else Done s2) (opened (FRegular 0 (Some ino)))
              | Device \<Rightarrow>
                  if unat (di_major di) \<ge> NDEV then open_fail bf sb ino s2
                  else opened (FDevice (di_major di) (Some ino)) s2)))
     (fs_begin s)"

text \<open>
  \<^verbatim>\<open>fread\<close>. \<open>sink addr\<close> stores the next bytes from \<open>addr\<close> on; \<open>cout\<close> one byte at an address. \<open>rc\<close> is
  0, or the bytes a console read had delivered when it went to sleep. The list is the channels woken. The memory is \<open>None\<close> when a copy from a file has failed: what
  it stored before is not described.
\<close>

definition fread ::
  "bit_field \<Rightarrow> super_block \<Rightarrow> ('m \<Rightarrow> usize \<Rightarrow> u8 \<Rightarrow> 'm option kres) \<Rightarrow> ('m \<Rightarrow> u8 list \<Rightarrow> 'm option) \<Rightarrow>
   bool \<Rightarrow> usize \<Rightarrow> u32 \<Rightarrow> nat \<Rightarrow> open_file \<Rightarrow> fstate \<Rightarrow> 'm \<Rightarrow>
   (io_result \<times> pipe_chan list \<times> open_file \<times> fstate \<times> 'm option) kres" where
  "fread bf sb cout sink killed addr cnt rc f s m =
     (if \<not> f_readable f then Done (IoErr, [], f, s, Some m)
      else case f_inner f of
        FPipe p \<Rightarrow>
          kbind (pipe_read cout killed addr cnt (fs_pipes s p) m) (\<lambda>(r, wk, p', m').
            Done (of_pipe 0 r, wk, f, s\<lparr>fs_pipes := (fs_pipes s)(p := p')\<rparr>, Some m'))
      | FRegular offset ino \<Rightarrow>
          (case ino of None \<Rightarrow> Panicked unwrap_none | Some ino' \<Rightarrow>
           kbind (ilock sb [] ino' (fs_ic s)) (\<lambda>s1.
           kbind (on_data (in_index ino') (try_iread bf sb sink m offset cnt) s1) (\<lambda>(r, s2).
             case r of
               None \<Rightarrow> Done (IoErr, [], f, s\<lparr>fs_ic := s2\<rparr>, None)
             | Some (n, m') \<Rightarrow> kbind (u32_add offset n) (\<lambda>offset'.
                 Done (IoOk n, [], f\<lparr>f_inner := FRegular offset' ino\<rparr>, s\<lparr>fs_ic := s2\<rparr>, Some m')))))
      | FDevice major _ \<Rightarrow>
          if unat major \<ge> NDEV then Panicked ''index out of bounds''
          else (case devices ! unat major of
                  None \<Rightarrow> Done (IoErr, [], f, s, Some m)
                | Some DevConsole \<Rightarrow>
                    kbind (console_read cout killed (unat cnt) (addr + of_nat rc) (unat cnt - rc) (fs_console s) m) (\<lambda>(r, _, left, con, m').
                      Done (of_console (unat cnt - left) r, [], f, s\<lparr>fs_console := con\<rparr>, Some m'))))"

text \<open>
  \<^verbatim>\<open>fwrite\<close> on a regular file: the batches that start at the given bytes. \<open>src i\<close> is the source from the \<open>i\<close>-th
  byte of the user's buffer on.
\<close>

definition BATCH :: nat where
  "BATCH = (MAXOPBLOCKS - 4) div 2 * BSIZE"

fun fwrite_loop ::
  "bit_field \<Rightarrow> super_block \<Rightarrow> (nat \<Rightarrow> nat \<Rightarrow> nat \<Rightarrow> u8 list \<times> bool) \<Rightarrow> u32 \<Rightarrow> nat list \<Rightarrow> u32 \<Rightarrow> inode option \<Rightarrow> icache \<Rightarrow>
   (io_result \<times> u32 \<times> icache) kres" where
  "fwrite_loop bf sb src cnt [] offset ino s = Done (IoOk cnt, offset, s)"
| "fwrite_loop bf sb src cnt (i # is) offset ino s =
     (let write_count = of_nat (min BATCH (unat cnt - i))
      in case fs_begin s of
           None \<Rightarrow> Done (IoSleep i None, offset, s)
         | Some s0 \<Rightarrow>
             (case ino of None \<Rightarrow> Panicked unwrap_none | Some ino' \<Rightarrow>
              kbind (ilock sb [] ino' s0) (\<lambda>s1.
              kbind (on_data (in_index ino') (try_iwrite bf sb (src i) offset write_count) s1) (\<lambda>(ret, s2).
              kbind (case ret of None \<Rightarrow> Done offset | Some n \<Rightarrow> u32_add offset n) (\<lambda>offset'.
              kbind (fs_end s2) (\<lambda>s3.
                case ret of
                  Some n \<Rightarrow>
                    if n \<noteq> write_count then kbind (u32_add (of_nat i) n) (\<lambda>r. Done (IoOk r, offset', s3))
                    else fwrite_loop bf sb src cnt is offset' ino s3
                | None \<Rightarrow> Done (IoErr, offset', s3)))))))"

text \<open>\<^verbatim>\<open>(0..cnt).step_by(batch)\<close>, from \<open>wc\<close> on.\<close>

definition batch_starts :: "nat \<Rightarrow> u32 \<Rightarrow> nat list" where
  "batch_starts wc cnt = map (\<lambda>k. wc + k * BATCH) [0..<(unat cnt - wc + BATCH - 1) div BATCH]"

text \<open>\<open>wc\<close> and \<open>c\<close> are 0 and \<open>None\<close>, or what the call went to sleep with.\<close>

definition fwrite ::
  "bit_field \<Rightarrow> super_block \<Rightarrow> (usize \<Rightarrow> u8 option kres) \<Rightarrow> (nat \<Rightarrow> nat \<Rightarrow> nat \<Rightarrow> u8 list \<times> bool) \<Rightarrow>
   bool \<Rightarrow> (nat \<Rightarrow> nat) \<Rightarrow> bool \<Rightarrow> usize \<Rightarrow> u32 \<Rightarrow> nat \<Rightarrow> u8 option \<Rightarrow> open_file \<Rightarrow> fstate \<Rightarrow>
   (io_result \<times> pipe_chan list \<times> open_file \<times> fstate) kres" where
  "fwrite bf sb cin src panicked idle killed addr cnt wc c f s =
     (if \<not> f_writable f then Done (IoErr, [], f, s)
      else case f_inner f of
        FPipe p \<Rightarrow>
          kbind (pipe_write cin killed addr cnt (fs_pipes s p) wc) (\<lambda>(r, wk, p', wc').
            Done (of_pipe wc' r, wk, f, s\<lparr>fs_pipes := (fs_pipes s)(p := p')\<rparr>))
      | FRegular offset ino \<Rightarrow>
          kbind (fwrite_loop bf sb src cnt (batch_starts wc cnt) offset ino (fs_ic s)) (\<lambda>(r, offset', s').
            Done (r, [], f\<lparr>f_inner := FRegular offset' ino\<rparr>, s\<lparr>fs_ic := s'\<rparr>))
      | FDevice major _ \<Rightarrow>
          if unat major \<ge> NDEV then Panicked ''index out of bounds''
          else (case devices ! unat major of
                  None \<Rightarrow> Done (IoErr, [], f, s)
                | Some DevConsole \<Rightarrow>
                    kbind (console_write cin panicked idle (addr + of_nat wc) wc (unat cnt - wc) c (fs_uart s)) (\<lambda>(r, u, out).
                      Done (of_write r, [], f, s\<lparr>fs_uart := u, fs_term := fs_term s @ out\<rparr>))))"

definition fstat :: "super_block \<Rightarrow> open_file \<Rightarrow> fstate \<Rightarrow> (file_stat option \<times> fstate) kres" where
  "fstat sb f s =
     (let stat = (\<lambda>ino. case ino of None \<Rightarrow> Panicked unwrap_none | Some ino' \<Rightarrow>
            kbind (ilock sb [] ino' (fs_ic s)) (\<lambda>s1.
            kbind (istat (ic_data s1 ! in_index ino')) (\<lambda>st. Done (Some st, s\<lparr>fs_ic := s1\<rparr>))))
      in case f_inner f of FPipe _ \<Rightarrow> Done (None, s) | FRegular _ ino \<Rightarrow> stat ino | FDevice _ ino \<Rightarrow> stat ino)"

text \<open>\<^verbatim>\<open>drop\<close> of the last reference; \<open>None\<close> is a sleep in \<^verbatim>\<open>begin_op\<close>.\<close>

definition file_drop :: "bit_field \<Rightarrow> super_block \<Rightarrow> open_file \<Rightarrow> fstate \<Rightarrow> (pipe_chan list \<times> fstate) kres option" where
  "file_drop bf sb f s =
     (let drop_inode = (\<lambda>ino. map_option (\<lambda>s0.
            kbind (case ino of None \<Rightarrow> Done s0 | Some ino' \<Rightarrow> ic_put bf sb ino' s0) (\<lambda>s1.
            kbind (fs_end s1) (\<lambda>s2. Done ([], s\<lparr>fs_ic := s2\<rparr>)))) (fs_begin (fs_ic s)))
      in case f_inner f of
           FPipe p \<Rightarrow> (case pipe_close (f_writable f) (fs_pipes s p) of
             (p', wk) \<Rightarrow> Some (Done (wk, s\<lparr>fs_pipes := (fs_pipes s)(p := p')\<rparr>)))
         | FRegular _ ino \<Rightarrow> drop_inode ino
         | FDevice _ ino \<Rightarrow> drop_inode ino)"

end
