(* ===== verification/WriteFile.thy ===== *)
theory WriteFile
  imports OpenFile
begin

text \<open>
  Writing through an open file: the batches of \<^verbatim>\<open>fwrite\<close>, each a transaction that starts with an empty log
  and is committed at its end, together write the user's bytes into the file on the disk.
\<close>

declare split_paired_Ex [simp del] split_paired_All [simp del]

section \<open>What the operations keep of the log\<close>

definition log_frame :: "tstate \<Rightarrow> u32 \<times> bool \<times> u32 \<times> u32 \<times> u32" where
  "log_frame t = (log_outstanding (fst t), log_committing (fst t), log_start (fst t), log_size (fst t), log_dev (fst t))"

named_theorems frame_rules \<open>operations keep the log's parameters\<close>

lemma frame_bread [frame_rules]: "tx_bread dev b t = Done (h, t') \<Longrightarrow> log_frame t' = log_frame t"
  by (cases t) (auto simp: tx_bread_def log_frame_def elim!: kbind_DoneE)

lemma frame_drop [frame_rules]: "tx_drop h t = Done t' \<Longrightarrow> log_frame t' = log_frame t"
  by (cases t) (auto simp: tx_drop_def log_frame_def elim!: kbind_DoneE)

lemma frame_write [frame_rules]: "tx_write h v t = Done t' \<Longrightarrow> log_frame t' = log_frame t"
  by (cases t) (auto simp: tx_write_def log_frame_def log_write_def Let_def split: if_splits elim!: kbind_DoneE)

lemma frame_put [simp]: "log_frame (tx_put h v t) = log_frame t"
  by (cases t) (simp add: tx_put_def log_frame_def)

lemma frame_bm_loop:
  "bm_loop bf sb dev n bases t = Done (b, t') \<Longrightarrow> log_frame t' = log_frame t"
  by (induction bases arbitrary: t)
    (auto split: option.splits simp: Let_def elim!: kbind_DoneE dest!: frame_rules)

lemma frame_bm_alloc [frame_rules]: "bm_alloc bf sb dev t = Done (b, t') \<Longrightarrow> log_frame t' = log_frame t"
  by (auto simp: bm_alloc_def elim!: kbind_DoneE dest!: frame_bm_loop)

lemma frame_map_slot [frame_rules]: "map_slot bf sb dev k idata t = Done (b, id', t') \<Longrightarrow> log_frame t' = log_frame t"
  by (auto simp: map_slot_def Let_def split: if_splits elim!: kbind_DoneE dest!: frame_rules)

lemma frame_map_blockno [frame_rules]: "map_blockno bf sb k idata t = Done (b, id', t') \<Longrightarrow> log_frame t' = log_frame t"
  by (auto simp: map_blockno_def Let_def split: if_splits elim!: kbind_DoneE dest!: frame_rules)

lemma frame_iupdate [frame_rules]: "iupdate sb idata t = Done t' \<Longrightarrow> log_frame t' = log_frame t"
  by (auto simp: iupdate_def elim!: kbind_DoneE dest!: frame_rules)

lemma frame_iwrite_loop [frame_rules]:
  "iwrite_loop bf sb src dev pos done' n idata t = Done (r, id', t') \<Longrightarrow> log_frame t' = log_frame t"
proof (induction bf sb src dev pos done' n idata t rule: iwrite_loop.induct)
  case (1 bf sb src dev pos done' n idata t)
  show ?case
  proof (cases "n = 0")
    case True
    then show ?thesis using 1 by (simp add: iwrite_loop.simps)
  next
    case False
    let ?w = "min (BSIZE - pos mod BSIZE) n"
    from 1(2) False obtain bn id1 t1 buf t2 bytes ok where
      m: "map_blockno bf sb (pos div BSIZE) idata t = Done (bn, id1, t1)" and b: "tx_bread dev bn t1 = Done (buf, t2)"
      and s: "src done' ?w = (bytes, ok)"
      and rest: "if ok then \<exists>t3. tx_write buf (put_bytes (pos mod BSIZE) bytes (tx_data buf t2)) t2 = Done t3 \<and>
           iwrite_loop bf sb src dev (pos + ?w) (done' + ?w) (n - ?w) id1 t3 = Done (r, id', t')
         else \<exists>t3. tx_drop buf (tx_put buf (put_bytes (pos mod BSIZE) bytes (tx_data buf t2)) t2) = Done t3 \<and> t' = t3"
      by (auto simp: iwrite_loop.simps [of bf sb src dev pos] Let_def split: prod.splits bool.splits elim!: kbind_DoneE)
    have f2: "log_frame t2 = log_frame t" using m b by (simp add: frame_map_blockno frame_bread)
    show ?thesis
    proof (cases ok)
      case True
      then obtain t3 where w: "tx_write buf (put_bytes (pos mod BSIZE) bytes (tx_data buf t2)) t2 = Done t3"
        and l: "iwrite_loop bf sb src dev (pos + ?w) (done' + ?w) (n - ?w) id1 t3 = Done (r, id', t')" using rest by auto
      have "log_frame t' = log_frame t3"
        by (rule 1(1) [OF False refl m refl refl b refl s [symmetric] _ w]) (use True l in simp_all)
      then show ?thesis using w f2 by (simp add: frame_write)
    next
      case False
      then obtain t3 where "tx_drop buf (tx_put buf (put_bytes (pos mod BSIZE) bytes (tx_data buf t2)) t2) = Done t3" "t' = t3"
        using rest by auto
      then show ?thesis using f2 frame_drop by fastforce
    qed
  qed
qed

lemma frame_try_iwrite: "try_iwrite bf sb src off n idata t = Done (r, id', t') \<Longrightarrow> log_frame t' = log_frame t"
  by (auto simp: try_iwrite_def Let_def split: if_splits elim!: kbind_DoneE dest!: frame_rules)

section \<open>Between transactions\<close>

text \<open>The log is empty and no operation is under way, so the cache agrees with the disk.\<close>

definition fs_idle :: "u32 \<Rightarrow> tstate \<Rightarrow> bool" where
  "fs_idle d = (\<lambda>(lg, s).
     bstore_inv d s \<and> header_ok (log_start lg) (log_lh lg) \<and> area_ok (log_start lg) \<and> lh_len (log_lh lg) = 0 \<and>
     log_outstanding lg = 0 \<and> \<not> log_committing lg \<and> log_dev lg = d \<and> LOGSIZE \<le> unat (log_size lg) \<and>
     refs d s = (\<lambda>_. 0) \<and> (\<forall>b. length (bca_disk s b) = BSIZE))"

lemma idle_cont:
  assumes "fs_idle d t"
  shows "tx_cont d t = bca_disk (snd t)"
proof (rule ext)
  fix b
  obtain lg s where t: "t = (lg, s)" by force
  have "bstore_inv d s" "refs d s b = 0" using assms by (auto simp: t fs_idle_def)
  then show "tx_cont d t b = bca_disk (snd t) b" using bc.clean [of d s b] by (simp add: t tx_cont_def)
qed

lemma homes_empty: "lh_len lh = 0 \<Longrightarrow> homes lh = []"
  by (simp add: homes_def)

lemma idle_begin:
  assumes "fs_idle d (ic_tx s)"
  obtains lg b where "ic_tx s = (lg, b)" "fs_begin s = Some (s\<lparr>ic_tx := (lg\<lparr>log_outstanding := 1\<rparr>, b)\<rparr>)"
    "tx_ok d (lg\<lparr>log_outstanding := 1\<rparr>, b) {} 28"
proof -
  obtain lg b where t: "ic_tx s = (lg, b)" by force
  note idle = assms [unfolded t]
  have cur: "cur d b = bca_disk b" using idle_cont [OF idle] by (simp add: tx_cont_def)
  have "fs_begin s = Some (s\<lparr>ic_tx := (lg\<lparr>log_outstanding := 1\<rparr>, b)\<rparr>)"
    using idle by (simp add: fs_begin_def begin_op_def t fs_idle_def LOGSIZE_def MAXOPBLOCKS_def)
  moreover have "tx_ok d (lg\<lparr>log_outstanding := 1\<rparr>, b) {} 28"
    using idle cur by (simp add: fs_idle_def tx_ok_def homes_empty LOGSIZE_def MAXOPBLOCKS_def)
  ultimately show ?thesis using that t by blast
qed

lemma replay_length:
  "length (D b) = n \<Longrightarrow> \<forall>(x, v) \<in> set ws. length v = n \<Longrightarrow> length (replay D ws b) = n"
  by (induction ws arbitrary: D) auto

lemma length_put_header: "length (lh_blocknos lh) = LOGSIZE - 1 \<Longrightarrow> length blk = BSIZE \<Longrightarrow> length (put_header lh blk) = BSIZE"
  by (simp add: put_header_def header_bytes_def LOGSIZE_def MAXOPBLOCKS_def BSIZE_def)

text \<open>The end of the only operation commits it.\<close>

lemma idle_end:
  assumes ok: "tx_ok d t {} n" and fr: "log_frame t = (1, False, st, sz, d)" and area: "area_ok st" and sz: "LOGSIZE \<le> unat sz"
  shows "\<exists>t'. end_op (fst t) (snd t) = Done t' \<and> fs_idle d t' \<and> tx_area t' = tx_area t \<and>
    (\<forall>b. b \<notin> tx_area t \<longrightarrow> tx_cont d t' b = tx_cont d t b)"
proof -
  obtain lg s where t: "t = (lg, s)" by force
  from fr have lg: "log_outstanding lg = 1" "\<not> log_committing lg" "log_start lg = st" "log_size lg = sz" "log_dev lg = d"
    by (simp_all add: log_frame_def t)
  define lg1 where "lg1 = lg\<lparr>log_outstanding := 0, log_committing := True\<rparr>"
  from ok have inv: "bstore_inv d s" and hd: "header_ok st (log_lh lg)"
    and rf: "refs d s = (\<lambda>b. of_bool (b \<in> set (homes (log_lh lg))))" and len: "\<forall>b. length (cur d s b) = BSIZE"
    and clean: "\<forall>b. b \<notin> set (homes (log_lh lg)) \<longrightarrow> cur d s b = bca_disk s b"
    by (auto simp: t tx_ok_def lg(3))
  have rdy: "commit_ready lg1 s"
    using inv hd area rf by (auto simp: commit_ready_def lg1_def lg)
  have e: "end_op lg s = kbind (commit lg1 s) (\<lambda>(lg2, s2). Done (lg2\<lparr>log_committing := False\<rparr>, s2))"
    using lg by (simp add: end_op_def u32_sub_def lg1_def)
  show ?thesis
  proof (cases "lh_len (log_lh lg) = 0")
    case True
    then have c: "cur d s = bca_disk s" using clean by (auto simp: homes_empty)
    have "commit lg1 s = Done (lg1, s)" using True by (simp add: commit_def lg1_def)
    moreover have "fs_idle d (lg1\<lparr>log_committing := False\<rparr>, s)"
      using True inv hd area sz lg rf len by (simp add: fs_idle_def lg1_def homes_empty c)
    ultimately show ?thesis using e by (simp add: t tx_area_def tx_cont_def lg1_def)
  next
    case False
    then have pos: "0 < lh_len (log_lh lg1)" by (simp add: lg1_def word_gt_0)
    have dev: "log_dev lg1 = d" "log_start lg1 = st" "log_lh lg1 = log_lh lg" "log_committing lg1" by (simp_all add: lg1_def lg)
    from commit_spec [OF rdy dev(4) pos] obtain s' where s': "commit lg1 s = Done (lg1\<lparr>log_lh := (log_lh lg)\<lparr>lh_len := 0\<rparr>\<rparr>, s')"
      "bstore_inv d s'" "refs d s' = (\<lambda>_. 0)" "bca_disk s' = replay (bca_disk s) (commit_writes lg1 s)"
      by (auto simp: dev)
    let ?w1 = "map (\<lambda>j. (slotn st j, commit_data lg1 s j)) [0..<unat (lh_len (log_lh lg))]"
    have cw: "commit_writes lg1 s = (?w1 @ [(st, commit_head lg1 s)]) @ redo_writes (log_lh lg1) (commit_data lg1 s) @ [(st, put_len 0 (commit_head lg1 s))]"
      by (simp add: commit_writes_def redo_writes_def Let_def dev)
    have nle: "unat (lh_len (log_lh lg)) \<le> LOGSIZE - 1" using hd by (simp add: header_ok_def)
    have disk: "bca_disk s' b = cur d s b" if b: "b \<notin> log_area st" for b
    proof -
      define D where "D = replay (bca_disk s) (?w1 @ [(st, commit_head lg1 s)])"
      have nb: "b \<noteq> st" "b \<notin> fst ` set ?w1" using b nle by (auto simp: log_area_def)
      have D: "D b = bca_disk s b" unfolding D_def by (rule replay_other) (use nb in auto)
      have "bca_disk s' b = replay D (redo_writes (log_lh lg1) (commit_data lg1 s)) b"
        unfolding s'(4) cw D_def using nb(1) by simp
      also have "\<dots> = new_contents lg1 s b"
        by (rule redo_commit) (use hd D in \<open>simp_all add: dev\<close>)
      finally show ?thesis using clean by (auto simp: new_contents_def dev)
    qed
    have head: "length (commit_head lg1 s) = BSIZE"
      using len hd by (simp add: commit_head_def length_put_header header_ok_def dev)
    then have "length (put_len 0 (commit_head lg1 s)) = BSIZE" by (simp add: put_len_def BSIZE_def)
    then have vals: "\<forall>(x, v) \<in> set (commit_writes lg1 s). length v = BSIZE"
      using head len by (auto simp: cw redo_writes_def commit_data_def dev)
    have dlen: "length (bca_disk s' b) = BSIZE" for b
    proof (cases "b \<in> log_area st")
      case True
      then have "bca_disk s b = cur d s b" using hd clean by (auto simp: header_ok_def)
      then show ?thesis unfolding s'(4) by (intro replay_length [OF _ vals]) (simp add: len)
    next
      case False
      then show ?thesis using disk len by simp
    qed
    define t' where "t' = (lg1\<lparr>log_lh := (log_lh lg)\<lparr>lh_len := 0\<rparr>, log_committing := False\<rparr>, s')"
    have idle: "fs_idle d t'"
      using s' hd area sz lg dlen by (simp add: fs_idle_def t'_def header_ok_def homes_def lg1_def)
    have "end_op lg s = Done t'" using e s'(1) by (simp add: t'_def)
    moreover have "tx_cont d t' b = tx_cont d t b" if "b \<notin> log_area st" for b
      using disk [OF that] by (simp add: idle_cont [OF idle]) (simp add: t'_def tx_cont_def t)
    ultimately show ?thesis using idle by (auto simp: t tx_area_def t'_def lg dev lg1_def)
  qed
qed

section \<open>The file depends on its blocks only\<close>

lemma in_use_cong: "bm_geom sb area \<Longrightarrow> x < fs_total sb \<Longrightarrow> (\<And>b. b \<notin> area \<Longrightarrow> c' b = c b) \<Longrightarrow> in_use bf sb c' x = in_use bf sb c x"
  by (simp add: in_use_def bm_geom_def)

lemma meta_cong:
  assumes "meta_ok bf sb area c inum" and c: "\<And>b. b \<notin> area \<Longrightarrow> c' b = c b"
  shows "meta_ok bf sb area c' inum" "data_ok bf sb area c' inum b = data_ok bf sb area c inum b"
proof -
  have g: "bm_geom sb area" using assms(1) by (simp add: meta_ok_def bm_inv_def)
  note u = in_use_cong [OF g _ c, of _ _ bf]
  show "meta_ok bf sb area c' inum" using assms(1) by (auto simp: meta_ok_def bm_inv_def u)
  show "data_ok bf sb area c' inum b = data_ok bf sb area c inum b" by (auto simp: data_ok_def u)
qed

lemma file_cong:
  assumes f: "file_ok bf sb d area c inum idata" and c: "\<And>b. b \<notin> area \<Longrightarrow> c' b = c b"
  shows "file_ok bf sb d area c' inum idata" "file_contents idata c' = file_contents idata c"
proof -
  note fd = file_okD [OF f]
  note mc = meta_cong [OF fd(1) c]
  have sl: "slot_of idata c' k = slot_of idata c k" for k
  proof (rule slot_cong)
    assume "slot_of idata c IND \<noteq> 0"
    then have "slot_of idata c IND \<notin> area" using fd(4) [of IND] by (simp add: data_ok_def)
    then show "c' (slot_of idata c IND) = c (slot_of idata c IND)" by (rule c)
  qed simp
  show "file_ok bf sb d area c' inum idata"
    using f mc unfolding file_ok_def sl by blast
  have "file_byte idata c' i = file_byte idata c i" if i: "i < unat (di_size (id_dinode idata))" for i
  proof -
    have "i div BSIZE * BSIZE \<le> i" by simp
    then have "i div BSIZE * BSIZE < unat (di_size (id_dinode idata))" using i by linarith
    then have n0: "slot_of idata c (i div BSIZE) \<noteq> 0" by (rule fd(7))
    have "i < MAX_FILE_SIZE" using i fd(6) by simp
    then have "i div BSIZE \<le> IND" using block_index [of i] by simp
    with fd(4) n0 have "slot_of idata c (i div BSIZE) \<notin> area" by (simp add: data_ok_def)
    then show ?thesis using c by (simp add: file_byte_def sl)
  qed
  then show "file_contents idata c' = file_contents idata c"
    by (simp add: file_contents_def file_bytes_def)
qed

section \<open>One batch\<close>

lemma iwrite_loop_src:
  assumes "\<And>j w. k \<le> j \<Longrightarrow> j + w \<le> k + n \<Longrightarrow> src j w = src' j w"
  shows "iwrite_loop bf sb src dev pos k n idata t = iwrite_loop bf sb src' dev pos k n idata t"
  using assms
proof (induction n arbitrary: pos k idata t rule: less_induct)
  case (less n)
  show ?case
  proof (cases "n = 0")
    case True
    then show ?thesis by (simp add: iwrite_loop.simps)
  next
    case False
    define w where "w = min (BSIZE - pos mod BSIZE) n"
    have w: "0 < w" "w \<le> n" using False by (simp_all add: w_def)
    have "src k w = src' k w" by (rule less.prems) (use w in simp_all)
    moreover have "iwrite_loop bf sb src dev (pos + w) (k + w) (n - w) = iwrite_loop bf sb src' dev (pos + w) (k + w) (n - w)"
      by (intro ext less.IH) (use w less.prems in auto)
    ultimately show ?thesis
      unfolding iwrite_loop.simps [of bf sb src dev pos] iwrite_loop.simps [of bf sb src' dev pos] w_def [symmetric] by simp
  qed
qed

lemma try_iwrite_cut:
  assumes "unat n \<le> length data"
  shows "try_iwrite bf sb (kernel_src data) off n idata t = try_iwrite bf sb (kernel_src (take (unat n) data)) off n idata t"
proof -
  have "iwrite_loop bf sb (kernel_src data) dev pos 0 (unat n) idata t =
      iwrite_loop bf sb (kernel_src (take (unat n) data)) dev pos 0 (unat n) idata t" for dev pos
    by (rule iwrite_loop_src) (simp add: kernel_src_def drop_take min_def)
  then show ?thesis by (simp add: try_iwrite_def)
qed

lemma batch_blocks: "n \<le> BATCH \<Longrightarrow> blocks_touched pos n \<le> 4"
proof -
  assume n: "n \<le> BATCH"
  have "(pos mod BSIZE + n - 1) div BSIZE \<le> (4 * BSIZE - 1) div BSIZE"
    using n by (intro div_le_mono) (simp add: BATCH_def MAXOPBLOCKS_def BSIZE_def)
  then show ?thesis by (simp add: blocks_touched_def BSIZE_def)
qed

text \<open>Between two transactions, entry \<open>i\<close> of the inode cache holds the regular file \<open>inum\<close> of the disk.\<close>

definition file_at :: "bit_field \<Rightarrow> super_block \<Rightarrow> u32 \<Rightarrow> u32 \<Rightarrow> nat \<Rightarrow> icache \<Rightarrow> bool" where
  "file_at bf sb d inum i s \<longleftrightarrow>
     fs_idle d (ic_tx s) \<and> i < length (ic_data s) \<and>
     file_ok bf sb d (tx_area (ic_tx s)) (bca_disk (snd (ic_tx s))) inum (ic_data s ! i)"

definition disk_file :: "nat \<Rightarrow> icache \<Rightarrow> u8 list" where
  "disk_file i s = file_contents (ic_data s ! i) (bca_disk (snd (ic_tx s)))"

lemma nfree_cong:
  assumes "bm_geom sb area" and c: "\<And>b. b \<notin> area \<Longrightarrow> c' b = c b"
  shows "nfree bf sb c' = nfree bf sb c"
proof -
  have "b < fs_total sb \<Longrightarrow> in_use bf sb c' b = in_use bf sb c b" for b by (rule in_use_cong [OF assms(1) _ c])
  then have "{b. b < fs_total sb \<and> \<not> in_use bf sb c' b} = {b. b < fs_total sb \<and> \<not> in_use bf sb c b}" by blast
  then show ?thesis by (simp add: nfree_def)
qed

lemma length_disk_file: "length (disk_file i s) = unat (di_size (id_dinode (ic_data s ! i)))"
  by (simp add: disk_file_def file_contents_def)

lemma batch_spec:
  assumes bf: "bit_crate bf" and f: "file_at bf sb d inum (in_index ino) s" and n: "unat n \<le> BATCH" "unat n \<le> length data"
    and off: "unat off \<le> length (disk_file (in_index ino) s)" "unat off + unat n \<le> MAX_FILE_SIZE"
  shows "\<exists>s0. fs_begin s = Some s0 \<and> ilock sb [] ino s0 = Done s0 \<and>
    (on_data (in_index ino) (try_iwrite bf sb (kernel_src data) off n) s0 = Panicked full_disk \<and>
       nfree bf sb (bca_disk (snd (ic_tx s))) < 8 \<or>
     (\<exists>s2 s3 x. on_data (in_index ino) (try_iwrite bf sb (kernel_src data) off n) s0 = Done (Some n, s2) \<and>
       fs_end s2 = Done s3 \<and> file_at bf sb d inum (in_index ino) s3 \<and>
       disk_file (in_index ino) s3 = overwrite (unat off) (take (unat n) data) (disk_file (in_index ino) s) \<and>
       nfree bf sb (bca_disk (snd (ic_tx s))) \<le> nfree bf sb (bca_disk (snd (ic_tx s3))) + 8 \<and>
       ic_meta s3 = ic_meta s \<and> ic_data s3 = (ic_data s)[in_index ino := x]))"
proof -
  let ?i = "in_index ino" and ?xs = "take (unat n) data" and ?D = "bca_disk (snd (ic_tx s))"
  let ?id = "ic_data s ! ?i"
  have idle: "fs_idle d (ic_tx s)" and i: "?i < length (ic_data s)" and fo: "file_ok bf sb d (tx_area (ic_tx s)) ?D inum ?id"
    using f by (simp_all add: file_at_def)
  obtain lg b where t: "ic_tx s = (lg, b)" "fs_begin s = Some (s\<lparr>ic_tx := (lg\<lparr>log_outstanding := 1\<rparr>, b)\<rparr>)"
    "tx_ok d (lg\<lparr>log_outstanding := 1\<rparr>, b) {} 28" using idle_begin [OF idle] .
  define t0 where "t0 = (lg\<lparr>log_outstanding := 1\<rparr>, b)"
  define s0 where "s0 = s\<lparr>ic_tx := t0\<rparr>"
  have t0: "tx_area t0 = tx_area (ic_tx s)" "tx_cont d t0 = ?D" "log_frame t0 = (1, False, log_start lg, log_size lg, d)"
    using idle_cont [OF idle] idle by (simp_all add: t0_def t(1) tx_area_def tx_cont_def log_frame_def fs_idle_def)
  have lock: "ilock sb [] ino s0 = Done s0" using file_okD(2) [OF fo] by (simp add: ilock_def s0_def)
  have um: "length ?xs = unat n" "of_nat (length ?xs) = n" using n(2) by (simp_all add: min_def)
  have o2: "unat off + length ?xs \<le> MAX_FILE_SIZE" using off(2) um(1) by simp
  have bt: "blocks_touched (unat off) (length ?xs) \<le> 4" using batch_blocks [OF n(1)] unfolding um(1) .
  have ow: "off \<le> di_size (id_dinode ?id)" using off(1) by (simp add: length_disk_file word_le_nat_alt)
  have fo': "file_ok bf sb d (tx_area t0) (tx_cont d t0) inum ?id" using fo by (simp add: t0)
  have ok: "tx_ok d t0 {} 28" using t(3) by (simp add: t0_def)
  have b28: "6 * blocks_touched (unat off) (length ?xs) < 28" using bt by simp
  note spec = bit_crate.iwrite_spec [OF bf ok b28 fo' ow o2, unfolded um(2) t0(2)]
  have cut: "try_iwrite bf sb (kernel_src data) off n = try_iwrite bf sb (kernel_src ?xs) off n"
    by (intro ext try_iwrite_cut n(2))
  have od: "on_data ?i g s0 = kbind (g ?id t0) (\<lambda>(r, idata, t). Done (r, set_data ?i idata (s0\<lparr>ic_tx := t\<rparr>)))" for g :: "inode_data \<Rightarrow> tstate \<Rightarrow> (u32 option \<times> inode_data \<times> tstate) kres"
    by (simp add: on_data_def s0_def)
  from spec consider (full) "iwrite bf sb (kernel_src ?xs) off n ?id t0 = Panicked full_disk"
      "nfree bf sb ?D < 2 * blocks_touched (unat off) (length ?xs)"
    | (got) id1 t1 where "iwrite bf sb (kernel_src ?xs) off n ?id t0 = Done (True, id1, t1)"
      "tx_ok d t1 {} (28 - 6 * blocks_touched (unat off) (length ?xs) - 1)"
      "file_ok bf sb d (tx_area t1) (tx_cont d t1) inum id1"
      "file_contents id1 (tx_cont d t1) = overwrite (unat off) ?xs (file_contents ?id ?D)"
      "nfree bf sb ?D \<le> nfree bf sb (tx_cont d t1) + 2 * blocks_touched (unat off) (length ?xs)" by blast
  then show ?thesis
  proof cases
    case full
    then have "try_iwrite bf sb (kernel_src ?xs) off n ?id t0 = Panicked full_disk"
      by (cases "try_iwrite bf sb (kernel_src ?xs) off n ?id t0") (auto simp: iwrite_def)
    then show ?thesis using t(2) lock full(2) bt by (auto simp: s0_def [symmetric] t0_def [symmetric] od cut)
  next
    case got
    then have ti: "try_iwrite bf sb (kernel_src ?xs) off n ?id t0 = Done (Some n, id1, t1)"
      by (cases "try_iwrite bf sb (kernel_src ?xs) off n ?id t0") (auto simp: iwrite_def)
    have fr: "log_frame t1 = (1, False, log_start lg, log_size lg, d)" using frame_try_iwrite [OF ti] t0(3) by simp
    have "area_ok (log_start lg)" "LOGSIZE \<le> unat (log_size lg)" using idle by (simp_all add: t(1) fs_idle_def)
    from idle_end [OF got(2) fr this] obtain t2 where t2: "end_op (fst t1) (snd t1) = Done t2" "fs_idle d t2"
      "tx_area t2 = tx_area t1" "\<And>b. b \<notin> tx_area t1 \<Longrightarrow> tx_cont d t2 b = tx_cont d t1 b" by blast
    note fc = file_cong [OF got(3) t2(4), unfolded idle_cont [OF t2(2)]]
    have "bm_geom sb (tx_area t1)" using file_okD(1) [OF got(3)] by (simp add: meta_ok_def bm_inv_def)
    from nfree_cong [OF this t2(4), where bf = bf] have nf: "nfree bf sb (bca_disk (snd t2)) = nfree bf sb (tx_cont d t1)"
      by (simp add: idle_cont [OF t2(2)])
    define s2 where "s2 = set_data ?i id1 (s0\<lparr>ic_tx := t1\<rparr>)"
    define s3 where "s3 = s2\<lparr>ic_tx := t2\<rparr>"
    have s3: "ic_tx s3 = t2" "ic_data s3 = (ic_data s)[?i := id1]" "ic_meta s3 = ic_meta s"
      by (simp_all add: s3_def s2_def s0_def set_data_def)
    have "on_data ?i (try_iwrite bf sb (kernel_src data) off n) s0 = Done (Some n, s2)" by (simp add: od cut ti s2_def)
    moreover have "fs_end s2 = Done s3" using t2(1) by (simp add: fs_end_def s2_def s3_def set_data_def)
    moreover have "file_at bf sb d inum ?i s3" using t2(2) i fc(1) by (simp add: file_at_def s3 t2(3))
    moreover have "disk_file ?i s3 = overwrite (unat off) ?xs (disk_file ?i s)" using i fc(2) got(4) by (simp add: disk_file_def s3)
    moreover have "nfree bf sb ?D \<le> nfree bf sb (bca_disk (snd (ic_tx s3))) + 8" using got(5) bt by (simp add: s3 nf)
    ultimately show ?thesis using t(2) lock s3 by (auto simp: s0_def [symmetric] t0_def [symmetric])
  qed
qed

section \<open>All batches\<close>

lemma overwrite_overwrite:
  "off \<le> length old \<Longrightarrow> overwrite (off + length xs) ys (overwrite off xs old) = overwrite off (xs @ ys) old"
  by (simp add: overwrite_def min_def ac_simps)

lemma overwrite_nil [simp]: "overwrite off [] old = old"
  by (simp add: overwrite_def)

lemma BATCH_pos: "0 < BATCH"
  by (simp add: BATCH_def MAXOPBLOCKS_def BSIZE_def)

lemma batch_starts_rec:
  "batch_starts wc cnt = (if unat cnt \<le> wc then [] else wc # batch_starts (wc + BATCH) cnt)"
proof (cases "unat cnt \<le> wc")
  case True
  then show ?thesis using BATCH_pos by (simp add: batch_starts_def)
next
  case False
  then have "unat cnt - wc + BATCH - 1 = (unat cnt - (wc + BATCH) + BATCH - 1) + BATCH \<or> unat cnt - wc \<le> BATCH" by linarith
  then have "(unat cnt - wc + BATCH - 1) div BATCH = Suc ((unat cnt - (wc + BATCH) + BATCH - 1) div BATCH)"
  proof
    assume e: "unat cnt - wc + BATCH - 1 = (unat cnt - (wc + BATCH) + BATCH - 1) + BATCH"
    show ?thesis unfolding e using BATCH_pos by (subst div_add_self2) simp_all
  next
    assume le: "unat cnt - wc \<le> BATCH"
    have "(unat cnt - wc + BATCH - 1) div BATCH = (BATCH + (unat cnt - wc - 1)) div BATCH" using False by (simp add: add.commute)
    also have "\<dots> = Suc ((unat cnt - wc - 1) div BATCH)" using BATCH_pos by (subst div_add_self1) simp_all
    also have "(unat cnt - wc - 1) div BATCH = 0" using le BATCH_pos by simp
    finally show ?thesis using le BATCH_pos by simp
  qed
  then show ?thesis
    using False by (simp add: batch_starts_def upt_conv_Cons map_Suc_upt [symmetric] algebra_simps del: upt_Suc)
qed

lemma batches_spec:
  assumes bf: "bit_crate bf" and f: "file_at bf sb d inum (in_index ino) s" and len: "length data = unat cnt"
    and off: "unat off \<le> length (disk_file (in_index ino) s)" "unat off + (unat cnt - wc) \<le> MAX_FILE_SIZE"
  shows "fwrite_loop bf sb (\<lambda>i. kernel_src (drop i data)) cnt (batch_starts wc cnt) off (Some ino) s = Panicked full_disk \<and>
      nfree bf sb (bca_disk (snd (ic_tx s))) < 8 * length (batch_starts wc cnt) \<or>
    (\<exists>s' x. fwrite_loop bf sb (\<lambda>i. kernel_src (drop i data)) cnt (batch_starts wc cnt) off (Some ino) s =
        Done (IoOk cnt, off + of_nat (unat cnt - wc), s') \<and> file_at bf sb d inum (in_index ino) s' \<and>
      disk_file (in_index ino) s' = overwrite (unat off) (drop wc data) (disk_file (in_index ino) s) \<and>
      ic_meta s' = ic_meta s \<and> ic_data s' = (ic_data s)[in_index ino := x])"
  using f off
proof (induction "unat cnt - wc" arbitrary: wc off s rule: less_induct)
  case less
  let ?src = "\<lambda>i. kernel_src (drop i data)" and ?i = "in_index ino"
  show ?case
  proof (cases "unat cnt \<le> wc")
    case True
    have "ic_data s = (ic_data s)[?i := ic_data s ! ?i]" by simp
    then have "\<exists>x. ic_data s = (ic_data s)[?i := x]" by blast
    with True show ?thesis using less.prems(1) len by (auto simp: batch_starts_rec [of wc])
  next
    case False
    define m where "m = min BATCH (unat cnt - wc)"
    have M: "MAX_FILE_SIZE < 2 ^ 32" by (simp add: MAX_FILE_SIZE_def NDIRECT_def NINDIRECT_def BSIZE_def)
    have m: "0 < m" "m \<le> BATCH" "m \<le> unat cnt - wc" using False BATCH_pos by (simp_all add: m_def)
    have um: "unat (of_nat m :: u32) = m" using m(3) less.prems(3) M by (simp add: unat_of_nat)
    have bs: "batch_starts wc cnt = wc # batch_starts (wc + BATCH) cnt" using False by (simp add: batch_starts_rec [of wc])
    have bt: "batch_starts (wc + BATCH) cnt = batch_starts (wc + m) cnt"
      unfolding m_def batch_starts_rec [of "wc + BATCH"] batch_starts_rec [of "wc + min BATCH (unat cnt - wc)"] using False by (auto simp: min_def)
    have le: "unat off + m \<le> MAX_FILE_SIZE" using m(3) less.prems(3) by simp
    have ua: "u32_add off (of_nat m) = Done (off + of_nat m)" "unat (off + of_nat m) = unat off + m"
      using le M um by (simp_all add: u32_add_def unat_word_ariths)
    from batch_spec [OF bf less.prems(1), of "of_nat m" "drop wc data" off] um m len le less.prems(2) obtain s0 where
      s0: "fs_begin s = Some s0" "ilock sb [] ino s0 = Done s0"
      "on_data ?i (try_iwrite bf sb (?src wc) off (of_nat m)) s0 = Panicked full_disk \<and> nfree bf sb (bca_disk (snd (ic_tx s))) < 8 \<or>
       (\<exists>s2 s3 x. on_data ?i (try_iwrite bf sb (?src wc) off (of_nat m)) s0 = Done (Some (of_nat m), s2) \<and>
         fs_end s2 = Done s3 \<and> file_at bf sb d inum ?i s3 \<and>
         disk_file ?i s3 = overwrite (unat off) (take m (drop wc data)) (disk_file ?i s) \<and>
         nfree bf sb (bca_disk (snd (ic_tx s))) \<le> nfree bf sb (bca_disk (snd (ic_tx s3))) + 8 \<and>
         ic_meta s3 = ic_meta s \<and> ic_data s3 = (ic_data s)[?i := x])" by auto
    have step: "fwrite_loop bf sb ?src cnt (batch_starts wc cnt) off (Some ino) s =
        kbind (on_data ?i (try_iwrite bf sb (?src wc) off (of_nat m)) s0) (\<lambda>(ret, s2).
        kbind (case ret of None \<Rightarrow> Done off | Some n \<Rightarrow> u32_add off n) (\<lambda>off'.
        kbind (fs_end s2) (\<lambda>s3.
          case ret of
            Some n \<Rightarrow> if n \<noteq> of_nat m then kbind (u32_add (of_nat wc) n) (\<lambda>r. Done (IoOk r, off', s3))
              else fwrite_loop bf sb ?src cnt (batch_starts (wc + m) cnt) off' (Some ino) s3
          | None \<Rightarrow> Done (IoErr, off', s3))))"
      unfolding bs fwrite_loop.simps Let_def m_def [symmetric] bt s0(1) by (simp add: s0(2))
    from s0(3) consider (full) "on_data ?i (try_iwrite bf sb (?src wc) off (of_nat m)) s0 = Panicked full_disk"
        "nfree bf sb (bca_disk (snd (ic_tx s))) < 8"
      | (got) s2 s3 x where "on_data ?i (try_iwrite bf sb (?src wc) off (of_nat m)) s0 = Done (Some (of_nat m), s2)"
        "fs_end s2 = Done s3" "file_at bf sb d inum ?i s3"
        "disk_file ?i s3 = overwrite (unat off) (take m (drop wc data)) (disk_file ?i s)"
        "nfree bf sb (bca_disk (snd (ic_tx s))) \<le> nfree bf sb (bca_disk (snd (ic_tx s3))) + 8"
        "ic_meta s3 = ic_meta s" "ic_data s3 = (ic_data s)[?i := x]" by blast
    then show ?thesis
    proof cases
      case full
      then show ?thesis unfolding step by (simp add: bs)
    next
      case got
      have e: "fwrite_loop bf sb ?src cnt (batch_starts wc cnt) off (Some ino) s =
          fwrite_loop bf sb ?src cnt (batch_starts (wc + m) cnt) (off + of_nat m) (Some ino) s3"
        unfolding step by (simp add: got(1,2) ua)
      have lx: "length (take m (drop wc data)) = m" using m(3) len by simp
      have "unat (off + of_nat m) \<le> length (disk_file ?i s3)"
        using less.prems(2) unfolding got(4) ua(2) length_overwrite [OF less.prems(2)] lx by simp
      moreover have "unat (off + of_nat m) + (unat cnt - (wc + m)) \<le> MAX_FILE_SIZE" using less.prems(3) m(3) by (simp add: ua(2))
      ultimately have IH: "fwrite_loop bf sb ?src cnt (batch_starts (wc + m) cnt) (off + of_nat m) (Some ino) s3 = Panicked full_disk \<and>
          nfree bf sb (bca_disk (snd (ic_tx s3))) < 8 * length (batch_starts (wc + m) cnt) \<or>
        (\<exists>s' x. fwrite_loop bf sb ?src cnt (batch_starts (wc + m) cnt) (off + of_nat m) (Some ino) s3 =
            Done (IoOk cnt, off + of_nat m + of_nat (unat cnt - (wc + m)), s') \<and> file_at bf sb d inum ?i s' \<and>
          disk_file ?i s' = overwrite (unat (off + of_nat m)) (drop (wc + m) data) (disk_file ?i s3) \<and>
          ic_meta s' = ic_meta s3 \<and> ic_data s' = (ic_data s3)[?i := x])"
        using m False by (intro less.hyps got(3)) simp
      have sp: "take m (drop wc data) @ drop (wc + m) data = drop wc data" by (metis append_take_drop_id drop_drop add.commute)
      have "overwrite (unat (off + of_nat m)) (drop (wc + m) data) (disk_file ?i s3) = overwrite (unat off) (drop wc data) (disk_file ?i s)"
        using overwrite_overwrite [OF less.prems(2), of "take m (drop wc data)" "drop (wc + m) data"] unfolding got(4) ua(2) lx sp .
      moreover have "m + (unat cnt - (wc + m)) = unat cnt - wc" using m(3) by simp
      then have "off + of_nat m + of_nat (unat cnt - (wc + m)) = off + of_nat (unat cnt - wc)"
        by (metis add.assoc of_nat_add)
      moreover have "length (batch_starts wc cnt) = Suc (length (batch_starts (wc + m) cnt))" by (simp add: bs bt)
      ultimately show ?thesis using IH got(5-7) unfolding e by auto
    qed
  qed
qed

section \<open>An example\<close>

definition demo_ino :: inode where
  "demo_ino = \<lparr>in_dev = 1, in_inum = 1, in_index = 0\<rparr>"

definition demo_quiet :: icache where
  "demo_quiet = (icache_new (log_fresh, binit (bcache_new demo_disk)))\<lparr>ic_data := demo_file 0 0 # replicate 49 inode_data_new\<rparr>"

definition demo_fs :: fstate where
  "demo_fs = \<lparr>fs_ic = demo_quiet, fs_pipes = \<lambda>_. pipe_create, fs_console = console_init, fs_uart = uart_init_state, fs_term = []\<rparr>"

lemma demo_quiet_at: "file_at word_bits demo_sb 1 1 0 demo_quiet"
proof -
  have len: "\<forall>b. length (demo_disk b) = BSIZE" by (simp add: demo_disk_def demo_bitmap_def BSIZE_def)
  note b = boot_cache [of 1 demo_disk]
  have h: "homes (log_lh log_fresh) = []" "log_start log_fresh = 2" "log_size log_fresh = 30" "lh_len (log_lh log_fresh) = 0"
    "log_outstanding log_fresh = 0" "\<not> log_committing log_fresh" "log_dev log_fresh = 1"
    by (simp_all add: homes_def log_fresh_def log_uninit_def)
  have "header_ok 2 (log_lh log_fresh)" by (simp add: header_ok_def h) (simp add: log_fresh_def log_uninit_def LOGSIZE_def)
  then have "fs_idle 1 (log_fresh, binit (bcache_new demo_disk))"
    using b len log_one_area(1) by (simp add: fs_idle_def h LOGSIZE_def MAXOPBLOCKS_def)
  moreover have "file_ok word_bits demo_sb 1 (log_area 2) demo_disk 1 (demo_file 0 0)" by (rule demo_file_ok) simp_all
  ultimately show ?thesis using b by (simp add: file_at_def demo_quiet_def icache_new_def tx_area_def h)
qed

section \<open>Property\<close>



end
