(* ===== verification/SysCalls.thy ===== *)
theory SysCalls
  imports OpenFile UserVm Sched
begin

text \<open>
  System calls on files (\<^verbatim>\<open>kernel/src/process/proc/syscall.rs\<close> and the argument decoding and descriptor tables of
  \<^verbatim>\<open>process/proc/mod.rs\<close>) over the open files and the file system. The open files are shared by reference
  counts (\<^verbatim>\<open>Arc<File>\<close>), which the descriptors of all processes hold. Paths and results go through the
  caller's page table.
\<close>

declare split_paired_Ex [simp del] split_paired_All [simp del]

section \<open>Arguments\<close>

definition MAXPATH :: nat where "MAXPATH = 128"

record trapframe =
  tf_kernel_satp :: usize
  tf_kernel_sp :: usize
  tf_kernel_trap :: usize
  tf_epc :: usize
  tf_kernel_hartid :: usize
  tf_ra :: usize
  tf_sp :: usize
  tf_gp :: usize
  tf_tp :: usize
  tf_t0 :: usize
  tf_t1 :: usize
  tf_t2 :: usize
  tf_s0 :: usize
  tf_s1 :: usize
  tf_a0 :: usize
  tf_a1 :: usize
  tf_a2 :: usize
  tf_a3 :: usize
  tf_a4 :: usize
  tf_a5 :: usize
  tf_a6 :: usize
  tf_a7 :: usize
  tf_s2 :: usize
  tf_s3 :: usize
  tf_s4 :: usize
  tf_s5 :: usize
  tf_s6 :: usize
  tf_s7 :: usize
  tf_s8 :: usize
  tf_s9 :: usize
  tf_s10 :: usize
  tf_s11 :: usize
  tf_t3 :: usize
  tf_t4 :: usize
  tf_t5 :: usize
  tf_t6 :: usize

definition admit_ecall :: "trapframe \<Rightarrow> trapframe kres" where
  "admit_ecall tf = kbind (usize_add (tf_epc tf) 4) (\<lambda>e. Done (tf\<lparr>tf_epc := e\<rparr>))"

definition arg_raw :: "trapframe \<Rightarrow> nat \<Rightarrow> usize kres" where
  "arg_raw tf n =
     (if n = 0 then Done (tf_a0 tf) else if n = 1 then Done (tf_a1 tf) else if n = 2 then Done (tf_a2 tf)
      else if n = 3 then Done (tf_a3 tf) else if n = 4 then Done (tf_a4 tf) else if n = 5 then Done (tf_a5 tf)
      else Panicked ''n is larger than 5'')"

text \<open>The \<^verbatim>\<open>i32\<close> is a 32-bit word; \<open>sint\<close> reads its sign.\<close>

definition arg_i32 :: "trapframe \<Rightarrow> nat \<Rightarrow> u32 kres" where
  "arg_i32 tf n = kbind (arg_raw tf n) (\<lambda>a. Done (ucast a))"

definition arg_addr :: "trapframe \<Rightarrow> nat \<Rightarrow> usize kres" where
  "arg_addr tf n = arg_raw tf n"

section \<open>Descriptor tables\<close>

record sys_state =
  sy_fds :: "nat option list list"
  sy_cwd :: "inode option list"
  sy_size :: "usize list"
  sy_pt :: "usize list"
  sy_arcs :: "nat \<Rightarrow> (open_file \<times> nat) option"
  sy_next :: nat
  sy_fs :: fstate
  sy_mem :: kmem
  sy_woken :: "pipe_chan list"

definition arg_fd :: "trapframe \<Rightarrow> nat \<Rightarrow> nat option list \<Rightarrow> nat option kres" where
  "arg_fd tf n fds =
     kbind (arg_raw tf n) (\<lambda>fd. Done (if unat fd \<ge> NFILE \<or> fds ! unat fd = None then None else Some (unat fd)))"

definition alloc_fd :: "nat option list \<Rightarrow> nat option" where
  "alloc_fd fds = List.find (\<lambda>i. fds ! i = None) [0..<length fds]"

definition alloc_fd2 :: "nat option list \<Rightarrow> (nat \<times> nat) option" where
  "alloc_fd2 fds = (case filter (\<lambda>i. fds ! i = None) [0..<length fds] of fd1 # fd2 # _ \<Rightarrow> Some (fd1, fd2) | _ \<Rightarrow> None)"

definition set_fd :: "nat \<Rightarrow> nat \<Rightarrow> nat option \<Rightarrow> sys_state \<Rightarrow> sys_state" where
  "set_fd p fd a s = s\<lparr>sy_fds := (sy_fds s)[p := (sy_fds s ! p)[fd := a]]\<rparr>"

text \<open>
  \<^verbatim>\<open>Arc::new\<close>, \<^verbatim>\<open>Arc::clone\<close> and the drop of a reference; the last one drops the file (\<open>None\<close>: it sleeps in
  \<^verbatim>\<open>begin_op\<close>, before anything has changed).
\<close>

definition arc_new :: "open_file \<Rightarrow> sys_state \<Rightarrow> nat \<times> sys_state" where
  "arc_new f s = (sy_next s, s\<lparr>sy_arcs := (sy_arcs s)(sy_next s \<mapsto> (f, 1)), sy_next := Suc (sy_next s)\<rparr>)"

definition arc_clone :: "nat \<Rightarrow> sys_state \<Rightarrow> sys_state" where
  "arc_clone a s = (case sy_arcs s a of None \<Rightarrow> s | Some (f, c) \<Rightarrow> s\<lparr>sy_arcs := (sy_arcs s)(a \<mapsto> (f, Suc c))\<rparr>)"

definition arc_drop :: "bit_field \<Rightarrow> super_block \<Rightarrow> nat \<Rightarrow> sys_state \<Rightarrow> sys_state kres option" where
  "arc_drop bf sb a s =
     (case sy_arcs s a of
        None \<Rightarrow> Some (Done s)
      | Some (f, c) \<Rightarrow>
          if c > 1 then Some (Done (s\<lparr>sy_arcs := (sy_arcs s)(a \<mapsto> (f, c - 1))\<rparr>))
          else map_option (\<lambda>r. kbind r (\<lambda>(wk, fs).
                 Done (s\<lparr>sy_arcs := (sy_arcs s)(a := None), sy_fs := fs, sy_woken := sy_woken s @ wk\<rparr>)))
               (file_drop bf sb f (sy_fs s)))"

definition dangling :: string where
  "dangling = ''dangling Arc''"

definition fd_file :: "nat \<Rightarrow> nat \<Rightarrow> sys_state \<Rightarrow> (nat \<times> open_file \<times> nat) kres" where
  "fd_file p fd s =
     (case sy_fds s ! p ! fd of
        None \<Rightarrow> Panicked unwrap_none
      | Some a \<Rightarrow> (case sy_arcs s a of None \<Rightarrow> Panicked dangling | Some (f, c) \<Rightarrow> Done (a, f, c)))"

definition check_user_addr :: "nat \<Rightarrow> usize \<Rightarrow> sys_state \<Rightarrow> bool" where
  "check_user_addr p addr s = (\<not> addr > sy_size s ! p)"

text \<open>\<open>SysBlocked\<close>: the call sleeps in \<^verbatim>\<open>begin_op\<close>, and starts again; \<open>SysSleep\<close>: it resumes with what it carries.\<close>

datatype sys_result = SysOk usize | SysErr | SysBlocked | SysSleep nat "u8 option" | SysSpin

definition of_io :: "io_result \<Rightarrow> sys_result" where
  "of_io r = (case r of IoOk n \<Rightarrow> SysOk (ucast n) | IoErr \<Rightarrow> SysErr | IoSleep n c \<Rightarrow> SysSleep n c | IoSpin \<Rightarrow> SysSpin)"

text \<open>\<^verbatim>\<open>arg_str\<close> of a path: the buffer, or \<open>None\<close>.\<close>

definition arg_path :: "nat \<Rightarrow> trapframe \<Rightarrow> nat \<Rightarrow> sys_state \<Rightarrow> u8 list option kres" where
  "arg_path p tf n s =
     kbind (arg_raw tf n) (\<lambda>addr.
     kbind (copy_in_str (sy_pt s ! p) addr (replicate MAXPATH 0) (sy_mem s)) (\<lambda>(r, buf).
       Done (case r of Inl _ \<Rightarrow> None | Inr _ \<Rightarrow> Some buf)))"

section \<open>System calls\<close>

definition sys_dup :: "nat \<Rightarrow> trapframe \<Rightarrow> sys_state \<Rightarrow> (sys_result \<times> sys_state) kres" where
  "sys_dup p tf s =
     kbind (arg_fd tf 0 (sy_fds s ! p)) (\<lambda>r. case r of None \<Rightarrow> Done (SysErr, s) | Some old_fd \<Rightarrow>
       (case alloc_fd (sy_fds s ! p) of None \<Rightarrow> Done (SysErr, s) | Some new_fd \<Rightarrow>
        kbind (fd_file p old_fd s) (\<lambda>(a, _).
          Done (SysOk (of_nat new_fd), set_fd p new_fd (Some a) (arc_clone a s)))))"

definition take_fd :: "bit_field \<Rightarrow> super_block \<Rightarrow> nat \<Rightarrow> nat \<Rightarrow> sys_state \<Rightarrow> sys_state kres option" where
  "take_fd bf sb p fd s =
     (case sy_fds s ! p ! fd of None \<Rightarrow> Some (Done s) | Some a \<Rightarrow> arc_drop bf sb a (set_fd p fd None s))"

definition sys_close :: "bit_field \<Rightarrow> super_block \<Rightarrow> nat \<Rightarrow> trapframe \<Rightarrow> sys_state \<Rightarrow> (sys_result \<times> sys_state) kres" where
  "sys_close bf sb p tf s =
     kbind (arg_fd tf 0 (sy_fds s ! p)) (\<lambda>r. case r of None \<Rightarrow> Done (SysErr, s) | Some fd \<Rightarrow>
       (case take_fd bf sb p fd s of None \<Rightarrow> Done (SysBlocked, s) | Some r \<Rightarrow> kbind r (\<lambda>s1. Done (SysOk 0, s1))))"

definition sys_open :: "bit_field \<Rightarrow> super_block \<Rightarrow> nat \<Rightarrow> trapframe \<Rightarrow> sys_state \<Rightarrow> (sys_result \<times> sys_state) kres" where
  "sys_open bf sb p tf s =
     kbind (arg_path p tf 0 s) (\<lambda>r. case r of None \<Rightarrow> Done (SysErr, s) | Some path \<Rightarrow>
     kbind (arg_i32 tf 1) (\<lambda>flags.
       if sint flags < 0 then Done (SysErr, s)
       else case alloc_fd (sy_fds s ! p) of None \<Rightarrow> Done (SysErr, s) | Some fd \<Rightarrow>
         (case file_open bf sb (sy_cwd s ! p) path flags (fs_ic (sy_fs s)) of
            None \<Rightarrow> Done (SysBlocked, s)
          | Some r \<Rightarrow> kbind r (\<lambda>(file, ic).
              let s1 = s\<lparr>sy_fs := (sy_fs s)\<lparr>fs_ic := ic\<rparr>\<rparr>
              in case file of
                   None \<Rightarrow> Done (SysErr, s1)
                 | Some f \<Rightarrow> (case arc_new f s1 of (a, s2) \<Rightarrow> Done (SysOk (of_nat fd), set_fd p fd (Some a) s2))))))"

text \<open>\<open>ok\<close> is whether the memory for \<^verbatim>\<open>Pipe::create\<close> is there. Files that get no descriptor are dropped.\<close>

definition pipe_drop :: "nat \<Rightarrow> sys_state \<Rightarrow> sys_state" where
  "pipe_drop n s =
     (case pipe_close True (fs_pipes (sy_fs s) n) of (p1, wk1) \<Rightarrow>
        (case pipe_close False p1 of (p2, wk2) \<Rightarrow>
           s\<lparr>sy_fs := (sy_fs s)\<lparr>fs_pipes := (fs_pipes (sy_fs s))(n := p2)\<rparr>, sy_woken := sy_woken s @ wk1 @ wk2\<rparr>))"

definition install_pipe :: "nat \<Rightarrow> nat \<Rightarrow> nat \<Rightarrow> nat \<Rightarrow> sys_state \<Rightarrow> sys_state" where
  "install_pipe p fd_read fd_write n s =
     (case arc_new \<lparr>f_inner = FPipe n, f_readable = True, f_writable = False\<rparr> s of (a, s1) \<Rightarrow>
      case arc_new \<lparr>f_inner = FPipe n, f_readable = False, f_writable = True\<rparr> s1 of (b, s2) \<Rightarrow>
        set_fd p fd_write (Some b) (set_fd p fd_read (Some a) s2))"

definition sys_pipe :: "bool \<Rightarrow> nat \<Rightarrow> trapframe \<Rightarrow> sys_state \<Rightarrow> (sys_result \<times> sys_state) kres" where
  "sys_pipe ok p tf s =
     kbind (arg_addr tf 0) (\<lambda>addr_fdread.
     kbind (usize_add addr_fdread 4) (\<lambda>addr_fdwrite.
       case alloc_fd2 (sy_fds s ! p) of
         None \<Rightarrow> Done (SysErr, s)
       | Some (fd_read, fd_write) \<Rightarrow>
           if \<not> ok then Done (SysErr, s)
           else let n = sy_next s;
                    s1 = s\<lparr>sy_fs := (sy_fs s)\<lparr>fs_pipes := (fs_pipes (sy_fs s))(n := pipe_create)\<rparr>, sy_next := Suc n\<rparr>
                in kbind (copy_out (sy_pt s1 ! p) (le32 (of_nat fd_read)) addr_fdread (sy_mem s1)) (\<lambda>(r1, m1).
                   case r1 of Inl _ \<Rightarrow> Done (SysErr, pipe_drop n (s1\<lparr>sy_mem := m1\<rparr>)) | Inr _ \<Rightarrow>
                   kbind (copy_out (sy_pt s1 ! p) (le32 (of_nat fd_write)) addr_fdwrite m1) (\<lambda>(r2, m2).
                   let s2 = s1\<lparr>sy_mem := m2\<rparr>
                   in case r2 of Inl _ \<Rightarrow> Done (SysErr, pipe_drop n s2) | Inr _ \<Rightarrow>
                      Done (SysOk 0, install_pipe p fd_read fd_write n s2)))))"

text \<open>
  \<^verbatim>\<open>sys_read\<close> and \<^verbatim>\<open>sys_write\<close>. The copies between the file and user memory are arguments, as in \<open>OpenFile\<close>;
  \<open>rc\<close>, \<open>wc\<close> and \<open>c\<close> are 0 and \<open>None\<close>, or what the call went to sleep with.
\<close>

definition put_file :: "nat \<Rightarrow> open_file \<Rightarrow> nat \<Rightarrow> pipe_chan list \<Rightarrow> fstate \<Rightarrow> sys_state \<Rightarrow> sys_state" where
  "put_file a f c wk fs s = s\<lparr>sy_arcs := (sy_arcs s)(a \<mapsto> (f, c)), sy_fs := fs, sy_woken := sy_woken s @ wk\<rparr>"

definition sys_read ::
  "bit_field \<Rightarrow> super_block \<Rightarrow> ('m \<Rightarrow> usize \<Rightarrow> u8 \<Rightarrow> 'm option kres) \<Rightarrow> ('m \<Rightarrow> u8 list \<Rightarrow> 'm option) \<Rightarrow> bool \<Rightarrow> nat \<Rightarrow>
   nat \<Rightarrow> trapframe \<Rightarrow> sys_state \<Rightarrow> 'm \<Rightarrow> (sys_result \<times> sys_state \<times> 'm option) kres" where
  "sys_read bf sb cout sink killed rc p tf s m =
     kbind (arg_fd tf 0 (sy_fds s ! p)) (\<lambda>r. case r of None \<Rightarrow> Done (SysErr, s, Some m) | Some fd \<Rightarrow>
     kbind (arg_addr tf 1) (\<lambda>user_addr.
     kbind (arg_i32 tf 2) (\<lambda>count.
       if sint count \<le> 0 \<or> \<not> check_user_addr p user_addr s then Done (SysErr, s, Some m)
       else kbind (fd_file p fd s) (\<lambda>(a, f, c).
            kbind (fread bf sb cout sink killed user_addr count rc f (sy_fs s) m) (\<lambda>(r, wk, f', fs, m').
              Done (of_io r, put_file a f' c wk fs s, m'))))))"

definition sys_write ::
  "bit_field \<Rightarrow> super_block \<Rightarrow> (usize \<Rightarrow> u8 option kres) \<Rightarrow> (nat \<Rightarrow> nat \<Rightarrow> nat \<Rightarrow> u8 list \<times> bool) \<Rightarrow> bool \<Rightarrow> (nat \<Rightarrow> nat) \<Rightarrow> bool \<Rightarrow>
   nat \<Rightarrow> u8 option \<Rightarrow> nat \<Rightarrow> trapframe \<Rightarrow> sys_state \<Rightarrow> (sys_result \<times> sys_state) kres" where
  "sys_write bf sb cin src panicked idle killed wc ch p tf s =
     kbind (arg_fd tf 0 (sy_fds s ! p)) (\<lambda>r. case r of None \<Rightarrow> Done (SysErr, s) | Some fd \<Rightarrow>
     kbind (arg_addr tf 1) (\<lambda>user_addr.
     kbind (arg_i32 tf 2) (\<lambda>count.
       if sint count \<le> 0 \<or> \<not> check_user_addr p user_addr s then Done (SysErr, s)
       else kbind (fd_file p fd s) (\<lambda>(a, f, c).
            kbind (fwrite bf sb cin src panicked idle killed user_addr count wc ch f (sy_fs s)) (\<lambda>(r, wk, f', fs).
              Done (of_io r, put_file a f' c wk fs s))))))"

text \<open>The bytes of \<^verbatim>\<open>FileStat\<close>; the four bytes before the size are padding.\<close>

definition stat_bytes :: "file_stat \<Rightarrow> u8 list" where
  "stat_bytes st = le32 (st_dev st) @ le32 (st_inum st) @ le16 (itype_tag (st_itype st)) @ le16 (st_nlink st) @ [0, 0, 0, 0] @
     le32 (ucast (st_size st)) @ le32 (ucast (drop_bit 32 (st_size st)))"

definition sys_fstat :: "super_block \<Rightarrow> nat \<Rightarrow> trapframe \<Rightarrow> sys_state \<Rightarrow> (sys_result \<times> sys_state) kres" where
  "sys_fstat sb p tf s =
     kbind (arg_fd tf 0 (sy_fds s ! p)) (\<lambda>r. case r of None \<Rightarrow> Done (SysErr, s) | Some fd \<Rightarrow>
     kbind (arg_addr tf 1) (\<lambda>addr.
     kbind (fd_file p fd s) (\<lambda>(a, f, c).
     kbind (fstat sb f (sy_fs s)) (\<lambda>(st, fs).
       let s1 = s\<lparr>sy_fs := fs\<rparr>
       in case st of None \<Rightarrow> Done (SysErr, s1) | Some stat \<Rightarrow>
          kbind (copy_out (sy_pt s ! p) (stat_bytes stat) addr (sy_mem s1)) (\<lambda>(r, m).
            Done (case r of Inl _ \<Rightarrow> SysErr | Inr _ \<Rightarrow> SysOk 0, s1\<lparr>sy_mem := m\<rparr>))))))"

definition set_ic :: "icache \<Rightarrow> sys_state \<Rightarrow> sys_state" where
  "set_ic ic s = s\<lparr>sy_fs := (sy_fs s)\<lparr>fs_ic := ic\<rparr>\<rparr>"

text \<open>Dropping an inode, ending the operation and returning.\<close>

definition end_with :: "sys_result \<Rightarrow> sys_state \<Rightarrow> icache \<Rightarrow> (sys_result \<times> sys_state) kres" where
  "end_with r s ic = kbind (fs_end ic) (\<lambda>ic'. Done (r, set_ic ic' s))"

definition sys_chdir :: "bit_field \<Rightarrow> super_block \<Rightarrow> nat \<Rightarrow> trapframe \<Rightarrow> sys_state \<Rightarrow> (sys_result \<times> sys_state) kres" where
  "sys_chdir bf sb p tf s =
     kbind (arg_path p tf 0 s) (\<lambda>r. case r of None \<Rightarrow> Done (SysErr, s) | Some path \<Rightarrow>
     (case fs_begin (fs_ic (sy_fs s)) of None \<Rightarrow> Done (SysBlocked, s) | Some ic0 \<Rightarrow>
      kbind (namei bf sb (sy_cwd s ! p) path ic0) (\<lambda>(found, ic1).
      case found of
        None \<Rightarrow> end_with SysErr s ic1
      | Some inode \<Rightarrow>
          kbind (ilock sb [] inode ic1) (\<lambda>ic2.
            if di_itype (id_dinode (ic_data ic2 ! in_index inode)) \<noteq> Directory
            then kbind (ic_put bf sb inode ic2) (end_with SysErr s)
            else case sy_cwd s ! p of
                   None \<Rightarrow> Panicked ''assertion failed: old_cwd.is_some()''
                 | Some old_cwd \<Rightarrow>
                     kbind (ic_put bf sb old_cwd ic2) (end_with (SysOk 0) (s\<lparr>sy_cwd := (sy_cwd s)[p := Some inode]\<rparr>))))))"

text \<open>\<^verbatim>\<open>sys_mknod\<close> and \<^verbatim>\<open>sys_mkdir\<close> after their arguments.\<close>

definition make_node :: "bit_field \<Rightarrow> super_block \<Rightarrow> nat \<Rightarrow> u8 list \<Rightarrow> inode_type \<Rightarrow> u16 \<Rightarrow> u16 \<Rightarrow> bool \<Rightarrow> sys_state \<Rightarrow> (sys_result \<times> sys_state) kres" where
  "make_node bf sb p path itype major minor reuse s =
     (case fs_begin (fs_ic (sy_fs s)) of None \<Rightarrow> Done (SysBlocked, s) | Some ic0 \<Rightarrow>
      kbind (create bf sb (sy_cwd s ! p) path itype major minor reuse ic0) (\<lambda>(ret, ic1).
      case ret of
        None \<Rightarrow> end_with SysErr s ic1
      | Some inode \<Rightarrow> kbind (ic_put bf sb inode ic1) (end_with (SysOk 0) s)))"

definition sys_mknod :: "bit_field \<Rightarrow> super_block \<Rightarrow> nat \<Rightarrow> trapframe \<Rightarrow> sys_state \<Rightarrow> (sys_result \<times> sys_state) kres" where
  "sys_mknod bf sb p tf s =
     kbind (arg_path p tf 0 s) (\<lambda>r. case r of None \<Rightarrow> Done (SysErr, s) | Some path \<Rightarrow>
     kbind (arg_i32 tf 1) (\<lambda>major.
     kbind (arg_i32 tf 2) (\<lambda>minor.
       if sint major < 0 \<or> sint minor < 0 then Done (SysErr, s)
       else if unat major \<ge> 2 ^ 16 \<or> unat minor \<ge> 2 ^ 16 then Done (SysErr, s)
       else make_node bf sb p path Device (ucast major) (ucast minor) True s)))"

definition sys_mkdir :: "bit_field \<Rightarrow> super_block \<Rightarrow> nat \<Rightarrow> trapframe \<Rightarrow> sys_state \<Rightarrow> (sys_result \<times> sys_state) kres" where
  "sys_mkdir bf sb p tf s =
     kbind (arg_path p tf 0 s) (\<lambda>r. case r of None \<Rightarrow> Done (SysErr, s) | Some path \<Rightarrow>
       make_node bf sb p path Directory 0 0 False s)"

definition sys_unlink :: "bit_field \<Rightarrow> super_block \<Rightarrow> nat \<Rightarrow> trapframe \<Rightarrow> sys_state \<Rightarrow> (sys_result \<times> sys_state) kres" where
  "sys_unlink bf sb p tf s =
     kbind (arg_path p tf 0 s) (\<lambda>r. case r of None \<Rightarrow> Done (SysErr, s) | Some path \<Rightarrow>
     (case fs_begin (fs_ic (sy_fs s)) of None \<Rightarrow> Done (SysBlocked, s) | Some ic0 \<Rightarrow>
      kbind (namei_parent bf sb (sy_cwd s ! p) path (replicate MAX_DIR_SIZE 0) ic0) (\<lambda>(found, name, ic1).
      case found of
        None \<Rightarrow> end_with SysErr s ic1
      | Some dir_inode \<Rightarrow>
          kbind (ilock sb [] dir_inode ic1) (\<lambda>ic2.
          kbind (dir_unlink bf sb (in_index dir_inode) name ic2) (\<lambda>(ok, ic3).
          kbind (ic_put bf sb dir_inode ic3) (end_with (if ok then SysOk 0 else SysErr) s))))))"

text \<open>
  \<^verbatim>\<open>revert_link\<close> of \<^verbatim>\<open>sys_link\<close>, with the entries the caller has locked. Locals that are still alive at a
  return are dropped after it, so after the operation has ended.
\<close>

definition change_links :: "super_block \<Rightarrow> nat \<Rightarrow> (inode_data \<Rightarrow> inode_data kres) \<Rightarrow> icache \<Rightarrow> icache kres" where
  "change_links sb i f ic =
     kbind (f (ic_data ic ! i)) (\<lambda>idata.
     kbind (iupdate sb idata (ic_tx ic)) (\<lambda>t. Done (Icache.set_data i idata (ic\<lparr>ic_tx := t\<rparr>))))"

definition revert_link :: "bit_field \<Rightarrow> super_block \<Rightarrow> nat list \<Rightarrow> inode \<Rightarrow> icache \<Rightarrow> icache kres" where
  "revert_link bf sb held inode ic =
     kbind (ilock sb held inode ic) (\<lambda>ic1.
     kbind (change_links sb (in_index inode) idata_unlink ic1) (\<lambda>ic2.
     kbind (ic_put bf sb inode ic2) fs_end))"

definition sys_link :: "bit_field \<Rightarrow> super_block \<Rightarrow> nat \<Rightarrow> trapframe \<Rightarrow> sys_state \<Rightarrow> (sys_result \<times> sys_state) kres" where
  "sys_link bf sb p tf s =
     kbind (arg_path p tf 0 s) (\<lambda>r. case r of None \<Rightarrow> Done (SysErr, s) | Some old_path \<Rightarrow>
     kbind (arg_path p tf 1 s) (\<lambda>r. case r of None \<Rightarrow> Done (SysErr, s) | Some new_path \<Rightarrow>
     (case fs_begin (fs_ic (sy_fs s)) of None \<Rightarrow> Done (SysBlocked, s) | Some ic0 \<Rightarrow>
      kbind (namei bf sb (sy_cwd s ! p) old_path ic0) (\<lambda>(found, ic1).
      case found of
        None \<Rightarrow> end_with SysErr s ic1
      | Some old_inode \<Rightarrow>
          kbind (ilock sb [] old_inode ic1) (\<lambda>ic2.
          kbind (get_dev_inum (ic_data ic2 ! in_index old_inode)) (\<lambda>(old_dev, old_inum).
            if di_itype (id_dinode (ic_data ic2 ! in_index old_inode)) = Directory
            then kbind (fs_end ic2) (\<lambda>ic3. kbind (ic_put bf sb old_inode ic3) (\<lambda>ic4. Done (SysErr, set_ic ic4 s)))
            else
              kbind (change_links sb (in_index old_inode) idata_link ic2) (\<lambda>ic3.
              kbind (namei_parent bf sb (sy_cwd s ! p) new_path (replicate MAX_DIR_SIZE 0) ic3) (\<lambda>(parent, name, ic4).
              case parent of
                None \<Rightarrow> kbind (revert_link bf sb [] old_inode ic4) (\<lambda>ic5. Done (SysErr, set_ic ic5 s))
              | Some new_inode \<Rightarrow>
                  kbind (ilock sb [] new_inode ic4) (\<lambda>ic5.
                  kbind (get_dev_inum (ic_data ic5 ! in_index new_inode)) (\<lambda>(new_dev, _).
                  kbind (if new_dev \<noteq> old_dev then Done (False, ic5) else dir_link bf sb (in_index new_inode) name old_inum ic5) (\<lambda>(ok, ic6).
                    if \<not> ok
                    then kbind (revert_link bf sb [in_index new_inode] old_inode ic6) (\<lambda>ic7.
                         kbind (ic_put bf sb new_inode ic7) (\<lambda>ic8. Done (SysErr, set_ic ic8 s)))
                    else kbind (ic_put bf sb new_inode ic6) (\<lambda>ic7.
                         kbind (ic_put bf sb old_inode ic7) (end_with (SysOk 0) s)))))))))))))"

text \<open>\<^verbatim>\<open>sbrk\<close>.\<close>

definition sys_sbrk :: "bit_field \<Rightarrow> nat \<Rightarrow> trapframe \<Rightarrow> sys_state \<Rightarrow> (sys_result \<times> sys_state) kres" where
  "sys_sbrk bf p tf s =
     kbind (arg_i32 tf 0) (\<lambda>increment.
       let old_size = sy_size s ! p
       in if sint increment > 0
          then kbind (usize_add old_size (ucast increment)) (\<lambda>new_size.
               Done (SysOk old_size, s\<lparr>sy_size := (sy_size s)[p := new_size]\<rparr>))
          else if sint increment < 0
          then if increment = 0x80000000 then Panicked ''attempt to negate with overflow''
               else kbind (usize_sub old_size (ucast (- increment))) (\<lambda>new_size.
                    kbind (uvm_dealloc bf (sy_pt s ! p) old_size new_size (sy_mem s)) (\<lambda>(_, m).
                      Done (SysOk old_size, s\<lparr>sy_mem := m, sy_size := (sy_size s)[p := new_size]\<rparr>)))
          else Done (SysOk old_size, s))"

text \<open>Descriptors at \<^verbatim>\<open>fork\<close>: one entry of \<^verbatim>\<open>open_files.clone_from\<close>.\<close>

definition fork_fd :: "bit_field \<Rightarrow> super_block \<Rightarrow> nat \<Rightarrow> nat \<Rightarrow> nat \<Rightarrow> sys_state \<Rightarrow> sys_state kres option" where
  "fork_fd bf sb p child fd s =
     (let new = sy_fds s ! p ! fd;
          s1 = (case new of None \<Rightarrow> s | Some a \<Rightarrow> arc_clone a s)
      in case sy_fds s ! child ! fd of
           None \<Rightarrow> Some (Done (set_fd child fd new s1))
         | Some old \<Rightarrow> arc_drop bf sb old (set_fd child fd new s1))"

section \<open>Dispatch\<close>

text \<open>
  The numbers \<^verbatim>\<open>syscall\<close> knows; a later arm of the match with a number that occurred before is never reached. The
  result goes to \<^verbatim>\<open>a0\<close>.
\<close>

datatype sys_call =
    SysFork | SysExit | SysWait | SysPipe | SysRead | SysKill | SysExec | SysFstat | SysChdir | SysDup | SysGetpid | SysSbrk
  | SysSleepCall | SysUptime | SysOpen | SysWrite | SysMknod | SysUnlink | SysLink | SysMkdir | SysClose | SysSetpri | SysGetpri | SysTest

definition sys_numbers :: "sys_call list" where
  "sys_numbers = [SysFork, SysExit, SysWait, SysPipe, SysRead, SysKill, SysExec, SysFstat, SysChdir, SysDup, SysGetpid, SysSbrk,
     SysSleepCall, SysUptime, SysOpen, SysWrite, SysMknod, SysUnlink, SysLink, SysMkdir, SysClose, SysSetpri, SysGetpri]"

definition sys_dispatch :: "trapframe \<Rightarrow> (sys_call \<times> trapframe) kres" where
  "sys_dispatch tf =
     (let a7 = unat (tf_a7 tf)
      in kbind (admit_ecall tf) (\<lambda>tf1.
           if 1 \<le> a7 \<and> a7 \<le> 23 then Done (sys_numbers ! (a7 - 1), tf1)
           else if a7 = 99 then Done (SysTest, tf1)
           else Panicked ''unknown syscall num''))"

definition sys_return :: "usize option \<Rightarrow> trapframe \<Rightarrow> trapframe" where
  "sys_return r tf = tf\<lparr>tf_a0 := (case r of Some ret \<Rightarrow> ret | None \<Rightarrow> - 1)\<rparr>"

text \<open>Calls that only consult the process table.\<close>

definition sys_kill :: "trapframe \<Rightarrow> procs \<Rightarrow> (usize option \<times> procs) kres" where
  "sys_kill tf s =
     kbind (arg_i32 tf 0) (\<lambda>pid.
       if sint pid < 0 then Done (None, s)
       else case Sched.kill (unat pid) s of (ok, s') \<Rightarrow> Done (if ok then Some 0 else None, s'))"

definition sys_getpid :: "nat \<Rightarrow> procs \<Rightarrow> usize option" where
  "sys_getpid i s = Some (of_nat (pe_pid (excl s i)))"

end
