(* ===== verification/SysCallsInv.thy ===== *)
theory SysCallsInv
  imports SysCalls AddressSpace
begin

text \<open>
  The reference counts of open files in every run of the system calls of any number of processes: a file's count is the
  number of descriptors that refer to it.
\<close>

declare split_paired_Ex [simp del] split_paired_All [simp del]

section \<open>References\<close>

definition refs_to :: "nat \<Rightarrow> nat option list list \<Rightarrow> nat" where
  "refs_to a fds = sum_list (map (\<lambda>t. count_list t (Some a)) fds)"

definition arc_count :: "sys_state \<Rightarrow> nat \<Rightarrow> nat" where
  "arc_count s a = (case sy_arcs s a of None \<Rightarrow> 0 | Some (f, c) \<Rightarrow> c)"

text \<open>\<open>d\<close> counts the references that local variables hold.\<close>

definition refs_ok :: "(nat \<Rightarrow> nat) \<Rightarrow> sys_state \<Rightarrow> bool" where
  "refs_ok d s \<longleftrightarrow> length (sy_fds s) = NPROC \<and> (\<forall>t \<in> set (sy_fds s). length t = NFILE) \<and>
     (\<forall>a. arc_count s a = refs_to a (sy_fds s) + d a) \<and> (\<forall>a f c. sy_arcs s a = Some (f, c) \<longrightarrow> a < sy_next s \<and> 0 < c)"

lemma arc_count_simps [simp]:
  "arc_count (s\<lparr>sy_arcs := (sy_arcs s)(a \<mapsto> (f, c))\<rparr>) b = (if b = a then c else arc_count s b)"
  "arc_count (s\<lparr>sy_arcs := (sy_arcs s)(a := None)\<rparr>) b = (if b = a then 0 else arc_count s b)"
  "arc_count (s\<lparr>sy_next := n\<rparr>) b = arc_count s b" "arc_count (s\<lparr>sy_fds := fds\<rparr>) b = arc_count s b"
  "arc_count (s\<lparr>sy_fs := fs\<rparr>) b = arc_count s b" "arc_count (s\<lparr>sy_woken := wk\<rparr>) b = arc_count s b"
  by (simp_all add: arc_count_def)

lemma arc_count_Some: "sy_arcs s a = Some (f, c) \<Longrightarrow> arc_count s a = c"
  by (simp add: arc_count_def)

lemma count_list_upd:
  "i < length xs \<Longrightarrow> count_list (xs[i := x]) y + of_bool (xs ! i = y) = count_list xs y + of_bool (x = y)"
proof (induction xs arbitrary: i)
  case (Cons z xs)
  then show ?case by (cases i) auto
qed simp

lemma sum_list_upd:
  "i < length xs \<Longrightarrow> sum_list (map f (xs[i := x])) + f (xs ! i) = sum_list (map f xs) + (f x :: nat)"
proof (induction xs arbitrary: i)
  case (Cons z xs)
  then show ?case by (cases i) auto
qed simp

lemma refs_to_set:
  assumes "p < length fds" and "fd < length (fds ! p)"
  shows "refs_to a (fds[p := (fds ! p)[fd := x]]) + of_bool (fds ! p ! fd = Some a) = refs_to a fds + of_bool (x = Some a)"
  using sum_list_upd [OF assms(1), of "\<lambda>t. count_list t (Some a)" "(fds ! p)[fd := x]"] count_list_upd [OF assms(2), of x "Some a"]
  by (simp add: refs_to_def)

lemma refs_ok_set_fd:
  assumes "refs_ok d s" and "p < NPROC" and "fd < NFILE" and "\<And>a. d' a + of_bool (x = Some a) = d a + of_bool (sy_fds s ! p ! fd = Some a)"
  shows "refs_ok d' (set_fd p fd x s)"
proof -
  have l: "p < length (sy_fds s)" "fd < length (sy_fds s ! p)" using assms(1-3) by (simp_all add: refs_ok_def)
  have "arc_count s a = refs_to a ((sy_fds s)[p := (sy_fds s ! p)[fd := x]]) + d' a" for a
    using refs_to_set [OF l, of a x] assms(4) [of a] assms(1) by (simp add: refs_ok_def)
  moreover have "\<forall>t \<in> set ((sy_fds s)[p := (sy_fds s ! p)[fd := x]]). length t = NFILE"
    using assms(1) l set_update_subset_insert [of "sy_fds s" p] by (fastforce simp: refs_ok_def)
  ultimately show ?thesis using assms(1) by (simp add: refs_ok_def set_fd_def)
qed

lemma refs_ok_clone:
  assumes "refs_ok d s" and "sy_arcs s a = Some (f, c)"
  shows "refs_ok (d(a := Suc (d a))) (arc_clone a s)"
proof -
  have "c = refs_to a (sy_fds s) + d a" using assms arc_count_Some [OF assms(2)] by (simp add: refs_ok_def)
  then show ?thesis using assms by (simp add: refs_ok_def arc_clone_def)
qed

lemma refs_ok_new:
  assumes "refs_ok d s" and "arc_new f s = (a, s')"
  shows "refs_ok (d(a := Suc (d a))) s'" "a = sy_next s" "sy_fds s' = sy_fds s"
proof -
  have "sy_arcs s (sy_next s) = None" using assms(1) unfolding refs_ok_def by (metis not_Some_eq surj_pair less_irrefl)
  then have "arc_count s (sy_next s) = 0" by (simp add: arc_count_def)
  then have z: "refs_to (sy_next s) (sy_fds s) = 0" "d (sy_next s) = 0" using assms(1) by (simp_all add: refs_ok_def)
  show "refs_ok (d(a := Suc (d a))) s'" "a = sy_next s" "sy_fds s' = sy_fds s"
    using assms z by (auto simp: refs_ok_def arc_new_def less_Suc_eq split: if_splits)
qed

lemma refs_ok_drop:
  assumes "refs_ok d s" and "0 < d a" and "arc_drop bf sb a s = Some (Done s')"
  shows "refs_ok (d(a := d a - 1)) s'" "sy_fds s' = sy_fds s"
proof -
  have c: "arc_count s a = refs_to a (sy_fds s) + d a" using assms(1) by (simp add: refs_ok_def)
  then obtain f n where a: "sy_arcs s a = Some (f, n)" "n = refs_to a (sy_fds s) + d a" using assms(2) by (auto simp: arc_count_def split: option.splits)
  have "sy_fds s' = sy_fds s \<and> sy_next s' = sy_next s \<and>
      (1 < n \<and> sy_arcs s' = (sy_arcs s)(a \<mapsto> (f, n - 1)) \<or> \<not> 1 < n \<and> sy_arcs s' = (sy_arcs s)(a := None))"
    using assms(3) a(1) by (auto simp: arc_drop_def split: if_splits elim!: kbind_DoneE)
  moreover from this have "arc_count s' b = (if b = a then n - 1 else arc_count s b)" for b by (auto simp: arc_count_def)
  ultimately show "refs_ok (d(a := d a - 1)) s'" "sy_fds s' = sy_fds s"
    using assms a by (auto simp: refs_ok_def split: if_splits)
qed

text \<open>Changes elsewhere.\<close>

lemma refs_ok_frame:
  assumes "sy_fds s' = sy_fds s" "sy_next s \<le> sy_next s'" and a: "\<And>a. map_option snd (sy_arcs s' a) = map_option snd (sy_arcs s a)"
    and "refs_ok d s"
  shows "refs_ok d s'"
proof -
  have "arc_count s' a = arc_count s a" for a
    using a [of a] by (auto simp: arc_count_def split: option.splits)
  moreover have "\<exists>f'. sy_arcs s a = Some (f', c)" if "sy_arcs s' a = Some (f, c)" for a f c
    using a [of a] that by (cases "sy_arcs s a") auto
  ultimately show ?thesis using assms by (fastforce simp: refs_ok_def)
qed

section \<open>The calls\<close>

lemma find_free: "alloc_fd fds = Some i \<Longrightarrow> i < length fds \<and> fds ! i = None"
  by (auto simp: alloc_fd_def find_Some_iff)

lemma find_free2: "alloc_fd2 fds = Some (i, j) \<Longrightarrow> i < length fds \<and> fds ! i = None \<and> j < length fds \<and> fds ! j = None \<and> i \<noteq> j"
proof -
  assume a: "alloc_fd2 fds = Some (i, j)"
  then obtain l where l: "filter (\<lambda>i. fds ! i = None) [0..<length fds] = i # j # l"
    by (auto simp: alloc_fd2_def split: list.splits)
  have "distinct (filter (\<lambda>i. fds ! i = None) [0..<length fds])" by simp
  moreover have "set (filter (\<lambda>i. fds ! i = None) [0..<length fds]) = {i. i < length fds \<and> fds ! i = None}" by auto
  ultimately show ?thesis unfolding l by auto
qed

abbreviation no_refs :: "nat \<Rightarrow> nat" where
  "no_refs \<equiv> \<lambda>_. 0"

lemma fds_length: "refs_ok d s \<Longrightarrow> p < NPROC \<Longrightarrow> length (sy_fds s ! p) = NFILE"
  by (simp add: refs_ok_def)

lemma arg_fd_Done: "arg_fd tf n fds = Done (Some fd) \<Longrightarrow> fd < NFILE \<and> fds ! fd \<noteq> None"
  by (auto simp: arg_fd_def split: if_splits elim!: kbind_DoneE)

lemma fd_file_Done: "fd_file p fd s = Done (a, f, c) \<Longrightarrow> sy_fds s ! p ! fd = Some a \<and> sy_arcs s a = Some (f, c)"
  by (auto simp: fd_file_def split: option.splits)

lemma dup_refs:
  assumes d: "sys_dup p tf s = Done (r, s')" and p: "p < NPROC" and s: "refs_ok no_refs s"
  shows "refs_ok no_refs s'"
proof (cases "s' = s")
  case False
  then obtain old new a f c where d: "alloc_fd (sy_fds s ! p) = Some new" "fd_file p old s = Done (a, f, c)"
      "s' = set_fd p new (Some a) (arc_clone a s)"
    using d by (auto simp: sys_dup_def split: option.splits elim!: kbind_DoneE)
  have fd: "new < NFILE" "sy_fds s ! p ! new = None" using find_free [OF d(1)] fds_length [OF s p] by simp_all
  have a: "sy_arcs s a = Some (f, c)" using fd_file_Done [OF d(2)] by simp
  have "sy_fds (arc_clone a s) = sy_fds s" by (simp add: arc_clone_def a)
  then show ?thesis unfolding d(3) by (intro refs_ok_set_fd [OF refs_ok_clone [OF s a] p fd(1)]) (simp add: fd(2))
qed (use s in simp)

lemma take_refs:
  assumes "take_fd bf sb p fd s = Some (Done s')" and "p < NPROC" and "fd < NFILE" and s: "refs_ok no_refs s"
  shows "refs_ok no_refs s'"
proof (cases "sy_fds s ! p ! fd")
  case None
  then show ?thesis using assms by (simp add: take_fd_def)
next
  case (Some a)
  have "refs_ok (no_refs(a := 1)) (set_fd p fd None s)"
    using refs_ok_set_fd [OF s assms(2,3), of "no_refs(a := 1)" None] Some by simp
  from refs_ok_drop(1) [OF this, of a bf sb s'] assms(1) Some show ?thesis by (simp add: take_fd_def fun_upd_idem)
qed

lemma close_refs: "sys_close bf sb p tf s = Done (r, s') \<Longrightarrow> p < NPROC \<Longrightarrow> refs_ok no_refs s \<Longrightarrow> refs_ok no_refs s'"
  by (auto simp: sys_close_def split: option.splits elim!: kbind_DoneE dest!: arg_fd_Done intro: take_refs)

lemma set_fd_frame: "p < length (sy_fds s) \<Longrightarrow> fd' \<noteq> fd \<Longrightarrow> sy_fds (set_fd p fd x s) ! p ! fd' = sy_fds s ! p ! fd'"
  by (simp add: set_fd_def)

lemma new_refs:
  assumes "arc_new f s = (a, s1)" and s: "refs_ok d s" and "p < NPROC" and "fd < NFILE" and "sy_fds s ! p ! fd = None"
  shows "refs_ok d (set_fd p fd (Some a) s1)"
  by (intro refs_ok_set_fd [OF refs_ok_new(1) [OF s assms(1)] assms(3,4)]) (simp add: refs_ok_new(3) [OF s assms(1)] assms(5))

definition same_refs :: "sys_state \<Rightarrow> sys_state \<Rightarrow> bool" where
  "same_refs s s' \<longleftrightarrow> sy_fds s' = sy_fds s \<and> sy_arcs s' = sy_arcs s \<and> sy_next s' = sy_next s"

lemma same_refs_simps [simp]:
  "same_refs s s" "same_refs s (set_ic ic s)" "same_refs s (s\<lparr>sy_fs := fs\<rparr>)" "same_refs s (s\<lparr>sy_mem := m\<rparr>)"
  "same_refs s (s\<lparr>sy_fs := fs, sy_mem := m\<rparr>)" "same_refs s (s\<lparr>sy_mem := m, sy_size := z\<rparr>)" "same_refs s (s\<lparr>sy_size := z\<rparr>)"
  "same_refs s (set_ic ic (s\<lparr>sy_cwd := w\<rparr>))"
  by (simp_all add: same_refs_def set_ic_def)

lemma same_refs_ok: "same_refs s s' \<Longrightarrow> refs_ok d s \<Longrightarrow> refs_ok d s'"
  by (rule refs_ok_frame) (simp_all add: same_refs_def)

lemma end_with_Done: "end_with r s ic = Done (r', s') \<Longrightarrow> \<exists>ic'. s' = set_ic ic' s"
  by (auto simp: end_with_def elim!: kbind_DoneE)

lemma open_refs:
  assumes o: "sys_open bf sb p tf s = Done (r, s')" and p: "p < NPROC" and s: "refs_ok no_refs s"
  shows "refs_ok no_refs s'"
proof -
  from o have "same_refs s s' \<or> (\<exists>fd ic f a s2. alloc_fd (sy_fds s ! p) = Some fd \<and> arc_new f (s\<lparr>sy_fs := (sy_fs s)\<lparr>fs_ic := ic\<rparr>\<rparr>) = (a, s2) \<and>
      s' = set_fd p fd (Some a) s2)"
    by (fastforce simp: sys_open_def Let_def split: option.splits if_splits prod.splits elim!: kbind_DoneE)
  then show ?thesis
  proof (elim disjE exE conjE)
    fix fd ic f a s2
    assume fd: "alloc_fd (sy_fds s ! p) = Some fd" and a: "arc_new f (s\<lparr>sy_fs := (sy_fs s)\<lparr>fs_ic := ic\<rparr>\<rparr>) = (a, s2)"
      and s': "s' = set_fd p fd (Some a) s2"
    have "refs_ok no_refs (s\<lparr>sy_fs := (sy_fs s)\<lparr>fs_ic := ic\<rparr>\<rparr>)" by (rule same_refs_ok [OF _ s]) simp
    from new_refs [OF a this p] find_free [OF fd] fds_length [OF s p] show ?thesis by (simp add: s')
  qed (rule same_refs_ok [OF _ s])
qed

lemma node_same: "make_node bf sb p path ty mj mn reuse s = Done (r, s') \<Longrightarrow> same_refs s s'"
  by (auto simp: make_node_def split: option.splits elim!: kbind_DoneE dest!: end_with_Done)

lemma call_same:
  "sys_mknod bf sb p tf s = Done (r, s') \<Longrightarrow> same_refs s s'"
  "sys_mkdir bf sb p tf s = Done (r, s') \<Longrightarrow> same_refs s s'"
  "sys_unlink bf sb p tf s = Done (r, s') \<Longrightarrow> same_refs s s'"
  "sys_chdir bf sb p tf s = Done (r, s') \<Longrightarrow> same_refs s s'"
  "sys_fstat sb p tf s = Done (r, s') \<Longrightarrow> same_refs s s'"
  "sys_sbrk bf p tf s = Done (r, s') \<Longrightarrow> same_refs s s'"
  by (auto simp: sys_mknod_def sys_mkdir_def sys_unlink_def sys_chdir_def sys_fstat_def sys_sbrk_def Let_def
      split: option.splits if_splits elim!: kbind_DoneE dest!: end_with_Done node_same)

lemma link_same: "sys_link bf sb p tf s = Done (r, s') \<Longrightarrow> same_refs s s'"
  by (auto simp: sys_link_def split: option.splits if_splits prod.splits elim!: kbind_DoneE dest!: end_with_Done)

lemma put_file_refs:
  assumes "sy_arcs s a = Some (f, c)" and "refs_ok d s"
  shows "refs_ok d (put_file a f' c wk fs s)"
  by (rule refs_ok_frame [OF _ _ _ assms(2)]) (simp_all add: put_file_def assms(1))

lemma read_refs: "sys_read bf sb cout sink killed rc p tf s m = Done (r, s', m') \<Longrightarrow> refs_ok d s \<Longrightarrow> refs_ok d s'"
  by (auto simp: sys_read_def split: option.splits if_splits elim!: kbind_DoneE dest!: fd_file_Done intro!: put_file_refs)

lemma write_refs: "sys_write bf sb cin src panicked idle killed wc ch p tf s = Done (r, s') \<Longrightarrow> refs_ok d s \<Longrightarrow> refs_ok d s'"
  by (auto simp: sys_write_def split: option.splits if_splits elim!: kbind_DoneE dest!: fd_file_Done intro!: put_file_refs)

lemma pipe_drop_view [simp]:
  "sy_fds (pipe_drop n s) = sy_fds s" "sy_arcs (pipe_drop n s) = sy_arcs s" "sy_next (pipe_drop n s) = sy_next s"
  by (simp_all add: pipe_drop_def pipe_close_def)

lemma pipe_refs:
  assumes o: "sys_pipe ok p tf s = Done (r, s')" and p: "p < NPROC" and s: "refs_ok no_refs s"
  shows "refs_ok no_refs s'"
proof -
  from o have "sy_fds s' = sy_fds s \<and> sy_arcs s' = sy_arcs s \<and> sy_next s \<le> sy_next s' \<or>
    (\<exists>fr fw m. alloc_fd2 (sy_fds s ! p) = Some (fr, fw) \<and> s' = install_pipe p fr fw (sy_next s)
      (s\<lparr>sy_fs := (sy_fs s)\<lparr>fs_pipes := (fs_pipes (sy_fs s))(sy_next s := pipe_create)\<rparr>, sy_next := Suc (sy_next s), sy_mem := m\<rparr>))"
    by (auto simp: sys_pipe_def Let_def split: option.splits if_splits sum.splits prod.splits elim!: kbind_DoneE) blast+
  then show ?thesis
  proof (elim disjE exE conjE)
    fix fr fw m
    define s2 where "s2 = s\<lparr>sy_fs := (sy_fs s)\<lparr>fs_pipes := (fs_pipes (sy_fs s))(sy_next s := pipe_create)\<rparr>, sy_next := Suc (sy_next s), sy_mem := m\<rparr>"
    assume fd: "alloc_fd2 (sy_fds s ! p) = Some (fr, fw)" and i: "s' = install_pipe p fr fw (sy_next s)
      (s\<lparr>sy_fs := (sy_fs s)\<lparr>fs_pipes := (fs_pipes (sy_fs s))(sy_next s := pipe_create)\<rparr>, sy_next := Suc (sy_next s), sy_mem := m\<rparr>)"
    have s2: "sy_fds s2 = sy_fds s" "sy_arcs s2 = sy_arcs s" "sy_next s2 = Suc (sy_next s)" by (simp_all add: s2_def)
    from i obtain f g a s3 b s4 where a: "arc_new f s2 = (a, s3)" "arc_new g s3 = (b, s4)" and s': "s' = set_fd p fw (Some b) (set_fd p fr (Some a) s4)"
      by (auto simp: install_pipe_def s2_def [symmetric] split: prod.splits)
    note fr = find_free2 [OF fd]
    have r2: "refs_ok no_refs s2" by (rule refs_ok_frame [OF _ _ _ s]) (simp_all add: s2)
    note r3 = refs_ok_new [OF r2 a(1)]
    note r4 = refs_ok_new [OF r3(1) a(2)]
    have l: "fr < NFILE" "fw < NFILE" "p < length (sy_fds s)" using fr fds_length [OF s p] p s by (simp_all add: refs_ok_def)
    have ab: "a \<noteq> b" using r3(2) r4(2) a(1) by (auto simp: arc_new_def)
    have "refs_ok (no_refs(b := 1)) (set_fd p fr (Some a) s4)"
      by (rule refs_ok_set_fd [OF r4(1) p l(1)]) (use ab fr in \<open>simp add: r3(3) r4(3) s2(1)\<close>)
    then show ?thesis unfolding s'
      by (rule refs_ok_set_fd [OF _ p l(2)]) (use fr l in \<open>simp add: set_fd_frame r3(3) r4(3) s2(1)\<close>)
  qed (rule refs_ok_frame [OF _ _ _ s], simp_all)
qed

text \<open>A descriptor never refers to a file that is gone.\<close>

lemma fd_arc:
  assumes "refs_ok no_refs s" and "p < NPROC" and "fd < NFILE" and "sy_fds s ! p ! fd = Some a"
  shows "\<exists>f c. sy_arcs s a = Some (f, c)"
proof -
  have l: "p < length (sy_fds s)" "fd < length (sy_fds s ! p)" using assms(1-3) by (simp_all add: refs_ok_def)
  have "refs_to a (sy_fds s) \<noteq> 0" using refs_to_set [OF l, of a None] assms(4) by simp
  then have "arc_count s a \<noteq> 0" using assms(1) by (simp add: refs_ok_def)
  then show ?thesis by (auto simp: arc_count_def split: option.splits)
qed

lemma fork_refs:
  assumes f: "fork_fd bf sb p child fd s = Some (Done s')" and l: "child < NPROC" "fd < NFILE" "p < NPROC" and s: "refs_ok no_refs s"
  shows "refs_ok no_refs s'"
proof -
  let ?new = "sy_fds s ! p ! fd" and ?old = "sy_fds s ! child ! fd"
  define s1 where "s1 = (case ?new of None \<Rightarrow> s | Some a \<Rightarrow> arc_clone a s)"
  have has: "\<exists>f c. sy_arcs s a = Some (f, c)" if "?new = Some a" for a
    using fd_arc [OF s l(3,2) that] .
  have r1: "refs_ok (\<lambda>a. of_bool (?new = Some a)) s1 \<and> sy_fds s1 = sy_fds s"
  proof (cases ?new)
    case (Some a)
    then have "(\<lambda>x. of_bool (?new = Some x)) = no_refs(a := Suc 0)" by (auto simp: fun_eq_iff)
    with Some has [OF Some] refs_ok_clone [OF s] show ?thesis by (auto simp: s1_def arc_clone_def)
  qed (use s in \<open>simp add: s1_def\<close>)
  then have r2: "refs_ok (\<lambda>a. of_bool (?old = Some a)) (set_fd child fd ?new s1)"
    by (intro refs_ok_set_fd [of "\<lambda>a. of_bool (?new = Some a)" s1, OF _ l(1,2)]) auto
  show ?thesis
  proof (cases ?old)
    case None
    then show ?thesis using f r2 by (simp add: fork_fd_def Let_def s1_def)
  next
    case (Some a)
    then have "arc_drop bf sb a (set_fd child fd ?new s1) = Some (Done s')" using f by (simp add: fork_fd_def Let_def s1_def)
    from refs_ok_drop(1) [OF r2 _ this] Some show ?thesis by (simp add: fun_upd_def of_bool_def if_distrib cong: if_cong)
  qed
qed

section \<open>Runs\<close>

text \<open>
  A step is a call of a process, with any arguments and any outcome of the copies and allocations it depends on,
  or the copy of one descriptor at \<^verbatim>\<open>fork\<close> or the close of one at \<^verbatim>\<open>exit\<close>.
\<close>

inductive sys_step :: "bit_field \<Rightarrow> super_block \<Rightarrow> sys_state \<Rightarrow> sys_state \<Rightarrow> bool" for bf sb where
  "p < NPROC \<Longrightarrow> sys_open bf sb p tf s = Done (r, s') \<Longrightarrow> sys_step bf sb s s'"
| "p < NPROC \<Longrightarrow> sys_dup p tf s = Done (r, s') \<Longrightarrow> sys_step bf sb s s'"
| "p < NPROC \<Longrightarrow> sys_close bf sb p tf s = Done (r, s') \<Longrightarrow> sys_step bf sb s s'"
| "p < NPROC \<Longrightarrow> sys_pipe ok p tf s = Done (r, s') \<Longrightarrow> sys_step bf sb s s'"
| "p < NPROC \<Longrightarrow> sys_read bf sb cout sink killed rc p tf s (m :: usize \<times> kmem) = Done (r, s', m') \<Longrightarrow> sys_step bf sb s s'"
| "p < NPROC \<Longrightarrow> sys_write bf sb cin src panicked idle killed wc ch p tf s = Done (r, s') \<Longrightarrow> sys_step bf sb s s'"
| "p < NPROC \<Longrightarrow> sys_fstat sb p tf s = Done (r, s') \<Longrightarrow> sys_step bf sb s s'"
| "p < NPROC \<Longrightarrow> sys_chdir bf sb p tf s = Done (r, s') \<Longrightarrow> sys_step bf sb s s'"
| "p < NPROC \<Longrightarrow> sys_mknod bf sb p tf s = Done (r, s') \<Longrightarrow> sys_step bf sb s s'"
| "p < NPROC \<Longrightarrow> sys_mkdir bf sb p tf s = Done (r, s') \<Longrightarrow> sys_step bf sb s s'"
| "p < NPROC \<Longrightarrow> sys_unlink bf sb p tf s = Done (r, s') \<Longrightarrow> sys_step bf sb s s'"
| "p < NPROC \<Longrightarrow> sys_link bf sb p tf s = Done (r, s') \<Longrightarrow> sys_step bf sb s s'"
| "p < NPROC \<Longrightarrow> sys_sbrk bf p tf s = Done (r, s') \<Longrightarrow> sys_step bf sb s s'"
| "p < NPROC \<Longrightarrow> child < NPROC \<Longrightarrow> fd < NFILE \<Longrightarrow> fork_fd bf sb p child fd s = Some (Done s') \<Longrightarrow> sys_step bf sb s s'"
| "p < NPROC \<Longrightarrow> fd < NFILE \<Longrightarrow> take_fd bf sb p fd s = Some (Done s') \<Longrightarrow> sys_step bf sb s s'"

lemma sys_step_refs: "sys_step bf sb s s' \<Longrightarrow> refs_ok no_refs s \<Longrightarrow> refs_ok no_refs s'"
  by (induction rule: sys_step.induct)
    (auto dest: open_refs dup_refs close_refs pipe_refs read_refs write_refs fork_refs take_refs intro: same_refs_ok call_same link_same)

text \<open>No file is open yet.\<close>

definition no_files :: "sys_state \<Rightarrow> bool" where
  "no_files s \<longleftrightarrow> sy_fds s = replicate NPROC (replicate NFILE None) \<and> sy_arcs s = (\<lambda>_. None)"

lemma no_files_refs: "no_files s \<Longrightarrow> refs_ok no_refs s"
  by (auto simp: no_files_def refs_ok_def arc_count_def refs_to_def sum_list_triv)

lemma sys_run_refs: "(sys_step bf sb)\<^sup>*\<^sup>* s s' \<Longrightarrow> refs_ok no_refs s \<Longrightarrow> refs_ok no_refs s'"
  by (induction rule: rtranclp_induct) (simp_all add: sys_step_refs)

section \<open>Properties\<close>

text \<open>
  C29 (open files): in every run of system calls of any number of processes, including the copies of descriptors at \<^verbatim>\<open>fork\<close> and
  their release at \<^verbatim>\<open>exit\<close>, the reference count of every open file is the number of descriptors of all processes that
  refer to it. So a file stays open exactly as long as some descriptor refers to it (its inode reference or its end of a
  pipe is released with the last one), and no descriptor ever refers to a file that is gone.
\<close>

theorem file_refs_correct:
  assumes "no_files s" and "(sys_step bf sb)\<^sup>*\<^sup>* s s'"
  shows "arc_count s' a = sum_list (map (\<lambda>fds. count_list fds (Some a)) (sy_fds s')) \<and>
    (sy_arcs s' a \<noteq> None \<longleftrightarrow> (\<exists>p < NPROC. \<exists>fd < NFILE. sy_fds s' ! p ! fd = Some a)) \<and>
    (\<forall>p < NPROC. length (sy_fds s' ! p) = NFILE)"
proof -
  have r: "refs_ok no_refs s'" by (rule sys_run_refs [OF assms(2) no_files_refs [OF assms(1)]])
  then have c: "arc_count s' a = refs_to a (sy_fds s')" by (simp add: refs_ok_def)
  have l: "p < NPROC \<Longrightarrow> length (sy_fds s' ! p) = NFILE" for p by (rule fds_length [OF r])
  have "\<exists>p < NPROC. \<exists>fd < NFILE. sy_fds s' ! p ! fd = Some a" if ne: "sy_arcs s' a \<noteq> None"
  proof -
    obtain f n where n: "sy_arcs s' a = Some (f, n)" using ne by (cases "sy_arcs s' a") auto
    then have "0 < arc_count s' a" using r arc_count_Some [OF n] unfolding refs_ok_def by metis
    then have n0: "sum_list (map (\<lambda>t. count_list t (Some a)) (sy_fds s')) \<noteq> 0" unfolding c refs_to_def by (rule gr_implies_not0)
    have "\<exists>t \<in> set (sy_fds s'). Some a \<in> set t"
    proof (rule ccontr)
      assume "\<not> ?thesis"
      then have m0: "map (\<lambda>t. count_list t (Some a)) (sy_fds s') = map (\<lambda>_. 0) (sy_fds s')" by (auto simp: count_list_0_iff)
      have "sum_list (map (\<lambda>t. count_list t (Some a)) (sy_fds s')) = 0" unfolding m0 by (simp add: sum_list_triv)
      with n0 show False by contradiction
    qed
    then obtain t where "t \<in> set (sy_fds s')" "Some a \<in> set t" by blast
    then obtain p where "p < length (sy_fds s')" "Some a \<in> set (sy_fds s' ! p)" by (auto simp: in_set_conv_nth [of t])
    then show ?thesis using r l by (force simp: in_set_conv_nth refs_ok_def)
  qed
  moreover have "sy_arcs s' a \<noteq> None" if "p < NPROC" "fd < NFILE" "sy_fds s' ! p ! fd = Some a" for p fd
    using fd_arc [OF r that] by auto
  ultimately show ?thesis using c l unfolding refs_to_def by blast
qed

text \<open>A process creates a pipe and duplicates its read end.\<close>

definition demo_sys :: sys_state where
  "demo_sys = \<lparr>sy_fds = replicate NPROC (replicate NFILE None), sy_cwd = replicate NPROC None, sy_size = replicate NPROC 0x1000,
     sy_pt = replicate NPROC 0x1000, sy_arcs = \<lambda>_. None, sy_next = 0,
     sy_fs = \<lparr>fs_ic = demo_cache, fs_pipes = \<lambda>_. pipe_create, fs_console = console_init, fs_uart = uart_init_state, fs_term = []\<rparr>,
     sy_mem = demo 12, sy_woken = []\<rparr>"

definition demo_tf :: "usize \<Rightarrow> trapframe" where
  "demo_tf a0 = \<lparr>tf_kernel_satp = 0, tf_kernel_sp = 0, tf_kernel_trap = 0, tf_epc = 0, tf_kernel_hartid = 0, tf_ra = 0, tf_sp = 0, tf_gp = 0, tf_tp = 0,
     tf_t0 = 0, tf_t1 = 0, tf_t2 = 0, tf_s0 = 0, tf_s1 = 0, tf_a0 = a0, tf_a1 = 0, tf_a2 = 0, tf_a3 = 0, tf_a4 = 0, tf_a5 = 0, tf_a6 = 0, tf_a7 = 0,
     tf_s2 = 0, tf_s3 = 0, tf_s4 = 0, tf_s5 = 0, tf_s6 = 0, tf_s7 = 0, tf_s8 = 0, tf_s9 = 0, tf_s10 = 0, tf_s11 = 0, tf_t3 = 0, tf_t4 = 0, tf_t5 = 0, tf_t6 = 0\<rparr>"

lemma NPROC_NFILE: "0 < NPROC" "NFILE = 16"
  by (simp_all add: NPROC_def NFILE_def)

lemma demo_copies: "\<exists>m1 m2. copy_out 0x1000 (le32 0) 0x20 (demo 12) = Done (Inr (), m1) \<and> copy_out 0x1000 (le32 1) 0x24 m1 = Done (Inr (), m2)"
proof -
  note heap = bit_crate_heap [OF word_bits.bit_crate_axioms]
  have inv: "kmem_inv word_bits (demo 12)" by (rule demo_inv) simp_all
  have l: "length (le32 x) = 4" "le32 x \<noteq> []" for x by (simp_all add: le32_def)
  have mp: "mapped (demo 12) 0x1000 (unat (0x20 :: usize)) (length (le32 0))" by (simp add: demo_mapped l)
  have mx: "unat (0x20 :: usize) + length (le32 0) \<le> unat MAXVA" "unat (0x24 :: usize) + length (le32 1) \<le> unat MAXVA" by (simp_all add: MAXVA_def l)
  obtain m1 where m1: "copy_out 0x1000 (le32 0) 0x20 (demo 12) = Done (Inr (), m1)" "wrote word_bits (demo 12) m1 0x1000 (unat (0x20 :: usize)) (le32 0)"
    using page_heap.copy_out_spec [OF heap inv demo_pt(1) demo_user(1) mx(1) l(2)] mp by auto
  then have w: "kmem_inv word_bits m1" "pt_inv m1 0x1000" "user_inv m1 0x1000" "user_page m1 0x1000 = user_page (demo 12) 0x1000"
    using user_page_cong [of m1 "0x1000" "demo 12"] by (simp_all add: wrote_def)
  have "mapped (demo 12) 0x1000 (unat (0x24 :: usize)) (length (le32 1))" by (simp add: demo_mapped l)
  then have "mapped m1 0x1000 (unat (0x24 :: usize)) (length (le32 1))" by (simp add: mapped_def w(4))
  with page_heap.copy_out_spec [OF heap w(1-3) mx(2) l(2)] m1(1) show ?thesis by auto
qed

theorem file_refs_correct_witness:
  "\<exists>s'. (sys_step word_bits demo_sb)\<^sup>*\<^sup>* demo_sys s' \<and> sy_fds s' ! 0 ! 0 = Some 1 \<and> sy_fds s' ! 0 ! 2 = Some 1 \<and> arc_count s' 1 = 2 \<and>
     arc_count s' 1 = sum_list (map (\<lambda>fds. count_list fds (Some 1)) (sy_fds s'))"
proof -
  let ?fs = "(sy_fs demo_sys)\<lparr>fs_pipes := (fs_pipes (sy_fs demo_sys))(0 := pipe_create)\<rparr>"
  obtain m1 m2 where m: "copy_out 0x1000 (le32 0) 0x20 (demo 12) = Done (Inr (), m1)" "copy_out 0x1000 (le32 1) 0x24 m1 = Done (Inr (), m2)"
    using demo_copies by blast
  have f: "filter (\<lambda>i. replicate NFILE (None :: nat option) ! i = None) [0..<NFILE] = [0..<NFILE]" by (simp add: filter_id_conv)
  then have fd2: "alloc_fd2 (sy_fds demo_sys ! 0) = Some (0, 1)"
    using NPROC_NFILE by (simp add: alloc_fd2_def demo_sys_def upt_conv_Cons)
  have d: "sy_pt demo_sys ! 0 = 0x1000" "sy_mem demo_sys = demo 12" "sy_next demo_sys = 0" using NPROC_NFILE by (simp_all add: demo_sys_def)
  define s1 where "s1 = install_pipe 0 0 1 0 (demo_sys\<lparr>sy_fs := ?fs, sy_next := 1, sy_mem := m2\<rparr>)"
  have "sys_pipe True 0 (demo_tf 0x20) demo_sys = Done (SysOk 0, s1)"
    using m by (simp add: sys_pipe_def arg_addr_def arg_raw_def demo_tf_def usize_add_def fd2 d s1_def Let_def)
  then have st1: "sys_step word_bits demo_sb demo_sys s1" using NPROC_NFILE(1) by (rule sys_step.intros(4) [rotated])
  have s1: "sy_fds s1 ! 0 = [Some 1, Some 2] @ replicate 14 None" "length (sy_fds s1) = NPROC" "sy_arcs s1 1 = Some (\<lparr>f_inner = FPipe 0, f_readable = True, f_writable = False\<rparr>, 1)"
    using NPROC_NFILE(1)
    by (simp_all add: s1_def install_pipe_def arc_new_def set_fd_def demo_sys_def NPROC_NFILE(2)) (simp add: numeral_eq_Suc)
  define s2 where "s2 = set_fd 0 2 (Some 1) (arc_clone 1 s1)"
  have "alloc_fd (sy_fds s1 ! 0) = Some 2" by (simp add: alloc_fd_def s1(1) upt_conv_Cons)
  then have "sys_dup 0 (demo_tf 0) s1 = Done (SysOk 2, s2)"
    using s1 by (simp add: sys_dup_def arg_fd_def arg_raw_def demo_tf_def NPROC_NFILE(2) fd_file_def s2_def)
  then have st2: "sys_step word_bits demo_sb s1 s2" using NPROC_NFILE(1) by (rule sys_step.intros(2) [rotated])
  have run: "(sys_step word_bits demo_sb)\<^sup>*\<^sup>* demo_sys s2" using st1 st2 by (meson rtranclp.intros)
  have "no_files demo_sys" by (simp add: no_files_def demo_sys_def)
  from file_refs_correct [OF this run, of 1] have "arc_count s2 1 = sum_list (map (\<lambda>fds. count_list fds (Some 1)) (sy_fds s2))" by simp
  moreover have "arc_count s2 1 = 2" "sy_fds s2 ! 0 ! 0 = Some 1" "sy_fds s2 ! 0 ! 2 = Some 1"
    using s1 NPROC_NFILE(1) by (simp_all add: s2_def arc_clone_def set_fd_def arc_count_def)
  ultimately show ?thesis using run by blast
qed

lemma sint_neg_u32: "sint (w :: u32) < 0 \<Longrightarrow> int (unat (- w)) = - sint w"
proof -
  assume neg: "sint w < 0"
  have "uint w \<noteq> 0" using neg by (auto simp: uint_0_iff)
  moreover have "uint w mod 2 ^ 32 = uint w" using uint_bounded [of w] by simp
  ultimately have "uint (- w) = 2 ^ 32 - uint w" by (simp add: uint_word_ariths(4) zmod_zminus1_eq_if)
  moreover have "sint w = uint w - 2 ^ 32"
  proof -
    have s: "sint w = (uint w + 2 ^ 31) mod 2 ^ 32 - 2 ^ 31" using int_word_sint [of "uint w", where 'a = 32] by simp
    have b: "0 \<le> uint w" "uint w < 2 ^ 32" using uint_bounded [of w] by simp_all
    have "2 ^ 31 \<le> uint w" 
    proof (rule ccontr)
      assume "\<not> 2 ^ 31 \<le> uint w"
      then have "(uint w + 2 ^ 31) mod 2 ^ 32 = uint w + 2 ^ 31" using b by (intro mod_pos_pos_trivial) simp_all
      then show False using s neg b by simp
    qed
    then have "(uint w + 2 ^ 31) mod 2 ^ 32 = (uint w + 2 ^ 31 - 2 ^ 32) mod 2 ^ 32" by (intro mod_pos_geq) simp_all
    also have "\<dots> = uint w + 2 ^ 31 - 2 ^ 32" using b \<open>2 ^ 31 \<le> uint w\<close> by (intro mod_pos_pos_trivial) simp_all
    finally have "(uint w + 2 ^ 31) mod 2 ^ 32 = uint w + 2 ^ 31 - 2 ^ 32" .
    then show ?thesis using s by simp
  qed
  ultimately show ?thesis by simp
qed

text \<open>
  Shrinking below zero: \<^verbatim>\<open>sbrk\<close> does not check the new size: a process that asks to give back more
  memory than it has panics the kernel, whatever the state.
\<close>

theorem sbrk_underflow_panics:
  assumes "sint (ucast (tf_a0 tf) :: u32) < 0" and "int (unat (sy_size s ! p)) < - sint (ucast (tf_a0 tf) :: u32)"
  shows "\<exists>msg. sys_sbrk bf p tf s = Panicked msg"
proof -
  let ?n = "ucast (tf_a0 tf) :: u32"
  have "unat (sy_size s ! p) < unat (- ?n)" using assms(2) sint_neg_u32 [OF assms(1)] by linarith
  then have "sy_size s ! p < ucast (- ?n)" using unsigned_less [of "- ?n", where 'a = nat] by (simp add: word_less_nat_alt unsigned_ucast_eq take_bit_nat_eq_self)
  then have "\<exists>msg. usize_sub (sy_size s ! p) (ucast (- ?n)) = Panicked msg" by (simp add: usize_sub_def)
  then show ?thesis using assms(1) by (auto simp: sys_sbrk_def arg_i32_def arg_raw_def Let_def)
qed

theorem sbrk_underflow_panics_witness:
  "\<exists>msg. sys_sbrk word_bits 0 (demo_tf (- 5000)) demo_sys = Panicked msg"
proof -
  have a: "tf_a0 (demo_tf (- 5000)) = - 5000" "sy_size demo_sys ! 0 = 0x1000" using NPROC_NFILE by (simp_all add: demo_tf_def demo_sys_def)
  have n: "sint (ucast (- 5000 :: usize) :: u32) = - 5000" by simp
  show ?thesis by (rule sbrk_underflow_panics) (unfold a n, simp_all)
qed

end
