(* ===== verification/ProcSpace.thy ===== *)
theory ProcSpace
  imports AddressSpace
begin

text \<open>
  The address space a new process starts with (\<^verbatim>\<open>PageTable::alloc_proc_pagetable\<close>): a fresh root table with the
  trampoline, the trap frame of the process and the page it shares with the kernel. The place of the trap
  frame depends on the pid, and for pid 0 it is the place of the shared page.
\<close>

text \<open>The pages of the fixed regions.\<close>

definition tramp_page :: nat where "tramp_page = 2 ^ 26 - 1"
definition usys_page :: nat where "usys_page = 2 ^ 26 - 3"
definition frame_page :: "nat \<Rightarrow> nat" where "frame_page pid = 2 ^ 26 - 3 - 2 * pid"

lemma region_pages:
  assumes "pid * (2 * 4096) + 4096 \<le> unat TRAPFRAME"
  shows "unat TRAMPOLINE = 4096 * tramp_page" "unat USYSCALL = 4096 * usys_page"
    and "\<exists>va. trapframe_from_pid pid = Done va \<and> unat va = 4096 * frame_page pid"
proof -
  have t: "unat TRAPFRAME = 4096 * (2 ^ 26 - 2)" by (simp add: layout_defs)
  show "unat TRAMPOLINE = 4096 * tramp_page" "unat USYSCALL = 4096 * usys_page"
    by (simp_all add: layout_defs tramp_page_def usys_page_def)
  define d where "d = pid * (2 * 4096) + 4096"
  have d: "d \<le> unat TRAPFRAME" using assms by (simp add: d_def)
  then have u: "unat (of_nat d :: usize) = d" using t by (simp add: unsigned_of_nat take_bit_nat_eq_self)
  have "unat (TRAPFRAME - of_nat d) = unat TRAPFRAME - d"
    using d by (subst unat_sub) (simp_all only: u word_le_nat_alt)
  moreover have "unat TRAPFRAME - d = 4096 * frame_page pid" using assms unfolding t d_def frame_page_def by simp
  ultimately show "\<exists>va. trapframe_from_pid pid = Done va \<and> unat va = 4096 * frame_page pid"
    using assms by (simp add: trapframe_from_pid_def Let_def d_def)
qed


lemma unwrap_pa_Done: "unwrap_pa a = Done pa \<Longrightarrow> pa = PhysAddr a \<and> unat a + 3 * 4096 \<le> 2 ^ 64"
proof -
  have "unat PHYSTOP + 3 * 4096 \<le> 2 ^ 64" by (simp add: layout_defs)
  then show "unwrap_pa a = Done pa \<Longrightarrow> pa = PhysAddr a \<and> unat a + 3 * 4096 \<le> 2 ^ 64"
    by (auto simp: unwrap_pa_def phys_try_from_def word_le_nat_alt not_less split: if_splits)
qed

definition start_layout :: "usize \<Rightarrow> usize \<Rightarrow> usize \<Rightarrow> nat \<Rightarrow> nat \<Rightarrow> usize" where
  "start_layout trampoline trapframe usyspage pid n =
     (if n = tramp_page then pte_write_perm (PhysAddr trampoline) (PTE_R OR PTE_X)
      else if n = frame_page pid then pte_write_perm (PhysAddr trapframe) (PTE_R OR PTE_W)
      else if n = usys_page then pte_write_perm (PhysAddr usyspage) (PTE_R OR PTE_U) else 0)"

context page_heap
begin

text \<open>A new root table.\<close>

lemma root_table:
  assumes "kmem_inv bf m" and "page_try_new bf zero_table m = Done (Some a, m')"
  shows "kmem_inv bf m' \<and> pt_inv m' a \<and> km_store m a = None \<and> (\<forall>n. pte_pg m' a n = 0)"
proof -
  have k: "kmem_inv bf m'" "km_store m a = None" "km_store m' = (km_store m)(a \<mapsto> zero_table)"
    using new_law [OF assms(1) zero_pages_wf(1)] assms(2) by auto
  have e: "ent m' a i = 0" for i by (simp add: ent_def k(3) zero_table_def)
  have t: "tbl m' a p = Some b \<longleftrightarrow> p = [] \<and> b = a" for p b by (cases p) (auto simp: e)
  then have "pt_inv m' a" using k(3) by (auto simp: pt_inv_def is_table_def zero_table_def)
  moreover have "pte_pg m' a n = 0" for n by (simp add: pte_pg_def pte_def e)
  ultimately show ?thesis using k by blast
qed

text \<open>One page.\<close>

lemma map_page_spec:
  assumes inv: "kmem_inv bf m" "pt_inv m pt" and va: "unat va = 4096 * n" "Suc n \<le> 2 ^ 26" and pa: "unat pa + 3 * 4096 \<le> 2 ^ 64"
    and r: "map_pages bf pt (VirtAddr va) PAGE_SIZE (PhysAddr pa) perm m = Done (r, m')"
  shows "kmem_inv bf m' \<and> pt_inv m' pt \<and>
    (r = Inr () \<longrightarrow> \<not> pte_is_valid (pte_pg m pt n) \<and>
       (\<forall>k < 2 ^ 27. pte_pg m' pt k = (if k = n then pte_write_perm (PhysAddr pa) perm else pte_pg m pt k)))"
proof -
  have p: "unat PAGE_SIZE = 4096" by (simp add: PAGE_SIZE_def)
  have e: "unat va + unat PAGE_SIZE \<le> unat MAXVA" "unat pa + unat PAGE_SIZE + 2 * 4096 \<le> 2 ^ 64"
    using va pa p by (simp_all add: MAXVA_def)
  have n: "unat va div 4096 = n" "(unat va + unat PAGE_SIZE + 4095) div 4096 - n = 1"
    using va(1) p by (simp_all add: PAGE_SIZE_def)
  have s: "pt_frame bf pt m m'" "map_outcome m m' pt n 1 pa perm r"
    using map_pages_spec [OF inv e, of perm] r unfolding n(1) n(2) by auto
  then show ?thesis
    using pt_frameD(1,2) [OF s(1)] by (cases r) (auto simp: map_outcome_def range_mapped_def)
qed

lemma map_or_drop_Some:
  assumes "map_or_drop bf pt va pa perm m k = Done (Some pt', m')"
  obtains m1 where "map_pages bf pt (VirtAddr va) PAGE_SIZE pa perm m = Done (Inr (), m1)" and "k m1 = Done (Some pt', m')"
proof -
  obtain q m1 where q: "map_pages bf pt (VirtAddr va) PAGE_SIZE pa perm m = Done (q, m1)"
    "(case q of Inl e \<Rightarrow> kbind (drop_box bf pt m1) (\<lambda>m2. Done (None, m2)) | Inr u \<Rightarrow> k m1) = Done (Some pt', m')"
    using assms by (auto simp: map_or_drop_def kres_simps)
  then show ?thesis using that by (cases q) (auto simp: kres_simps)
qed

lemma proc_pagetable_spec:
  assumes inv: "kmem_inv bf m" and pid: "pid * (2 * 4096) + 4096 \<le> unat TRAPFRAME"
    and r: "alloc_proc_pagetable bf trampoline trapframe usyspage pid m = Done (Some pt, m')"
  shows "pid \<noteq> 0 \<and> kmem_inv bf m' \<and> pt_inv m' pt \<and> km_store m pt = None \<and>
    (\<forall>n < 2 ^ 27. pte_pg m' pt n = start_layout trampoline trapframe usyspage pid n)"
proof -
  note reg = region_pages [OF pid]
  obtain tfva where va: "trapframe_from_pid pid = Done tfva" "unat tfva = 4096 * frame_page pid" using reg(3) by blast
  have b: "Suc tramp_page \<le> 2 ^ 26" "Suc usys_page \<le> 2 ^ 26" "Suc (frame_page pid) \<le> 2 ^ 26"
    by (simp_all add: tramp_page_def usys_page_def frame_page_def)
  obtain a m1 where a: "page_try_new bf zero_table m = Done (Some a, m1)"
    "kbind (unwrap_pa trampoline) (\<lambda>tr.
           map_or_drop bf a TRAMPOLINE tr (PTE_R OR PTE_X) m1 (\<lambda>m2.
           kbind (trapframe_from_pid pid) (\<lambda>tfva.
           kbind (unwrap_pa trapframe) (\<lambda>tf.
           map_or_drop bf a tfva tf (PTE_R OR PTE_W) m2 (\<lambda>m3.
           kbind (unwrap_pa usyspage) (\<lambda>us.
           map_or_drop bf a USYSCALL us (PTE_R OR PTE_U) m3 (\<lambda>m4. Done (Some a, m4)))))))) = Done (Some pt, m')"
    using r by (auto simp: alloc_proc_pagetable_def kres_simps split: option.splits)
  note root = root_table [OF inv a(1)]
  obtain tr where tr: "unwrap_pa trampoline = Done tr" using a(2) by (auto simp: kres_simps)
  obtain m2 where m2: "map_pages bf a (VirtAddr TRAMPOLINE) PAGE_SIZE tr (PTE_R OR PTE_X) m1 = Done (Inr (), m2)"
    "kbind (unwrap_pa trapframe) (\<lambda>tf.
           map_or_drop bf a tfva tf (PTE_R OR PTE_W) m2 (\<lambda>m3.
           kbind (unwrap_pa usyspage) (\<lambda>us.
           map_or_drop bf a USYSCALL us (PTE_R OR PTE_U) m3 (\<lambda>m4. Done (Some a, m4))))) = Done (Some pt, m')"
    by (rule map_or_drop_Some [OF a(2) [unfolded tr kbind.simps]]) (simp add: va(1))
  obtain tf where tf: "unwrap_pa trapframe = Done tf" using m2(2) by (auto simp: kres_simps)
  obtain m3 where m3: "map_pages bf a (VirtAddr tfva) PAGE_SIZE tf (PTE_R OR PTE_W) m2 = Done (Inr (), m3)"
    "kbind (unwrap_pa usyspage) (\<lambda>us.
           map_or_drop bf a USYSCALL us (PTE_R OR PTE_U) m3 (\<lambda>m4. Done (Some a, m4))) = Done (Some pt, m')"
    by (rule map_or_drop_Some [OF m2(2) [unfolded tf kbind.simps]]) simp
  obtain us where us: "unwrap_pa usyspage = Done us" using m3(2) by (auto simp: kres_simps)
  obtain m4 where m4: "map_pages bf a (VirtAddr USYSCALL) PAGE_SIZE us (PTE_R OR PTE_U) m3 = Done (Inr (), m4)" "pt = a" "m' = m4"
    by (rule map_or_drop_Some [OF m3(2) [unfolded us kbind.simps]]) simp
  note pas = unwrap_pa_Done [OF tr] unwrap_pa_Done [OF tf] unwrap_pa_Done [OF us]
  note s1 = map_page_spec [OF _ _ reg(1) b(1), of m1 a trampoline "PTE_R OR PTE_X" "Inr ()" m2]
  have 1: "kmem_inv bf m2" "pt_inv m2 a"
    "\<forall>k < 2 ^ 27. pte_pg m2 a k = (if k = tramp_page then pte_write_perm (PhysAddr trampoline) (PTE_R OR PTE_X) else 0)"
    using s1 root pas m2(1) by simp_all
  note s2 = map_page_spec [OF 1(1,2) va(2) b(3), of trapframe "PTE_R OR PTE_W" "Inr ()" m3]
  have 2: "kmem_inv bf m3" "pt_inv m3 a" "\<not> pte_is_valid (pte_pg m2 a (frame_page pid))"
    "\<forall>k < 2 ^ 27. pte_pg m3 a k = (if k = frame_page pid then pte_write_perm (PhysAddr trapframe) (PTE_R OR PTE_W) else pte_pg m2 a k)"
    using s2 pas m3(1) by simp_all
  note s3 = map_page_spec [OF 2(1,2) reg(2) b(2), of usyspage "PTE_R OR PTE_U" "Inr ()" m4]
  have 3: "kmem_inv bf m4" "pt_inv m4 a" "\<not> pte_is_valid (pte_pg m3 a usys_page)"
    "\<forall>k < 2 ^ 27. pte_pg m4 a k = (if k = usys_page then pte_write_perm (PhysAddr usyspage) (PTE_R OR PTE_U) else pte_pg m3 a k)"
    using s3 pas m4(1) by simp_all
  have valid: "pte_is_valid (pte_write_perm (PhysAddr x) perm)" for x perm
    by (simp add: pte_bits pte_write_perm_def SV39FLAGLEN_def PTE_V_def bit_or_iff bit_push_bit_iff bit_1_iff)
  have "frame_page pid \<noteq> usys_page" using 2(4) 3(3) valid b by (auto simp: usys_page_def)
  then have nz: "pid \<noteq> 0" by (auto simp: frame_page_def usys_page_def)
  moreover have "pte_pg m4 a n = start_layout trampoline trapframe usyspage pid n" if "n < 2 ^ 27" for n
    using 1(3) 2(4) 3(4) that \<open>frame_page pid \<noteq> usys_page\<close>
    by (auto simp: start_layout_def tramp_page_def usys_page_def frame_page_def)
  ultimately show ?thesis using 3(1,2) root m4 by simp
qed

end

text \<open>
  C22 (the address space of a new process): no address space can be made for pid 0, the pid of the first process: its trap
  frame and the shared page have the same address, and the second mapping is refused. For any other pid, when
  \<^verbatim>\<open>alloc_proc_pagetable\<close> succeeds, the new table maps exactly three pages: the trampoline, readable and executable, the trap
  frame, readable and writable, and the shared page, readable by the user.
\<close>

theorem proc_pagetable_correct:
  assumes "bit_crate bf" and "kmem_inv bf m" and "pid * (2 * 4096) + 4096 \<le> unat TRAPFRAME"
  shows "(\<forall>pt m'. alloc_proc_pagetable bf trampoline trapframe usyspage 0 m \<noteq> Done (Some pt, m')) \<and>
    (case alloc_proc_pagetable bf trampoline trapframe usyspage pid m of
      Done (Some pt, m') \<Rightarrow> kmem_inv bf m' \<and> pt_inv m' pt \<and> km_store m pt = None \<and>
        (\<forall>n < 2 ^ 27. pte_pg m' pt n = start_layout trampoline trapframe usyspage pid n)
    | _ \<Rightarrow> True)"
  using page_heap.proc_pagetable_spec [OF bit_crate_heap [OF assms(1)] assms(2,3)]
    page_heap.proc_pagetable_spec [OF bit_crate_heap [OF assms(1)] assms(2), of 0]
  by (auto simp: layout_defs split: kres.splits option.splits)

theorem proc_pagetable_correct_witness:
  "kmem_inv word_bits (demo 12) \<and> (\<forall>pt m'. alloc_proc_pagetable word_bits 0x4000 0x6000 0x7000 0 (demo 12) \<noteq> Done (Some pt, m'))"
proof -
  have inv: "kmem_inv word_bits (demo 12)" by (rule demo_inv) simp_all
  show ?thesis
    using proc_pagetable_correct [OF word_bits.bit_crate_axioms inv, of 1 "0x4000" "0x6000" "0x7000"] inv by (simp add: layout_defs)
qed

end
