(* ===== verification/Threads.thy ===== *)
theory Threads
  imports Kvm IdAlloc SysCalls
begin

text \<open>
  The tasks of a process (\<^verbatim>\<open>kernel/src/process/task/task.rs\<close>): a kernel stack of four pages, mapped in the kernel's page
  table, and a trap frame page mapped in the process's page table, at addresses fixed by the task's number. A trap
  frame is kept as the record its page holds. What the code reads from control registers and the linker is in \<open>task_env\<close>.
\<close>

declare split_paired_Ex [simp del] split_paired_All [simp del]

section \<open>Definitions\<close>

datatype task_status = TaskReady | TaskRunning | TaskBlocked | TaskZombie

record task_context =
  cx_ra :: usize
  cx_sp :: usize
  cx_saved :: "usize list"

record task =
  tk_kstack :: usize
  tk_ustack_base :: usize
  tk_tid :: nat
  tk_pos :: usize
  tk_trapframe_pa :: usize
  tk_trapframe :: trapframe
  tk_context :: task_context
  tk_status :: task_status
  tk_exit_code :: "u32 option"

record task_env =
  te_satp :: usize
  te_user_trap :: usize
  te_fork_ret :: usize
  te_hartid :: usize

record task_sys =
  ts_tids :: recycle_allocator
  ts_kpt :: usize
  ts_stacks :: usize
  ts_mem :: kmem

definition trapframe_new :: trapframe where
  "trapframe_new = \<lparr>tf_kernel_satp = 0, tf_kernel_sp = 0, tf_kernel_trap = 0, tf_epc = 0, tf_kernel_hartid = 0, tf_ra = 0, tf_sp = 0,
     tf_gp = 0, tf_tp = 0, tf_t0 = 0, tf_t1 = 0, tf_t2 = 0, tf_s0 = 0, tf_s1 = 0, tf_a0 = 0, tf_a1 = 0, tf_a2 = 0, tf_a3 = 0,
     tf_a4 = 0, tf_a5 = 0, tf_a6 = 0, tf_a7 = 0, tf_s2 = 0, tf_s3 = 0, tf_s4 = 0, tf_s5 = 0, tf_s6 = 0, tf_s7 = 0, tf_s8 = 0,
     tf_s9 = 0, tf_s10 = 0, tf_s11 = 0, tf_t3 = 0, tf_t4 = 0, tf_t5 = 0, tf_t6 = 0\<rparr>"

definition task_context_new :: task_context where
  "task_context_new = \<lparr>cx_ra = 0, cx_sp = 0, cx_saved = replicate 12 0\<rparr>"

text \<open>
  Addresses by number; \<^verbatim>\<open>tid\<close> is small, so only the subtractions can overflow. \<^verbatim>\<open>kstack_by_pos\<close> is where \<^verbatim>\<open>process/mod.rs\<close>
  puts the kernel stack of a process.
\<close>

definition kstack_by_pos :: "nat \<Rightarrow> usize kres" where
  "kstack_by_pos pos =
     (let d = (pos + 1) * (5 * 4096)
      in if d \<le> unat TRAMPOLINE then Done (TRAMPOLINE - of_nat d)
         else Panicked ''attempt to subtract with overflow'')"

definition kernel_stack_position_by_tid :: "nat \<Rightarrow> (usize \<times> usize) kres" where
  "kernel_stack_position_by_tid tid =
     (let d = (tid + 4 + NPROC) * (5 * 4096)
      in if d \<le> unat TRAMPOLINE
         then let bottom = TRAMPOLINE - of_nat d in kbind (usize_add bottom KERNEL_STACK_SIZE) (\<lambda>top. Done (bottom, top))
         else Panicked ''attempt to subtract with overflow'')"

definition trapframe_from_tid :: "nat \<Rightarrow> usize kres" where
  "trapframe_from_tid tid =
     (let d = (NPROC + 1) * (2 * 4096) + tid * (2 * 4096)
      in if d \<le> unat TRAPFRAME then Done (TRAPFRAME - of_nat d)
         else Panicked ''attempt to subtract with overflow'')"

definition ustack_bottom_from_tid :: "usize \<Rightarrow> usize \<Rightarrow> usize kres" where
  "ustack_bottom_from_tid ustack_base pos =
     kbind (usize_mul pos (PAGE_SIZE + USER_STACK_SIZE)) (usize_add ustack_base)"

text \<open>
  \<^verbatim>\<open>RawQuadPage::new_zeroed\<close>: four pages of the heap, whose bytes are not tracked; a failed allocation ends in the
  allocation error handler.
\<close>

definition quad_layout :: layout where
  "quad_layout = \<lparr>lay_size = 16384, lay_align = 16384\<rparr>"

definition quad_page_new :: "bit_field \<Rightarrow> kmem \<Rightarrow> (usize \<times> kmem) kres" where
  "quad_page_new bf m =
     kbind (buddy_alloc bf quad_layout (km_heap m)) (\<lambda>(r, h).
       case r of None \<Rightarrow> Panicked ''alloc error'' | Some a \<Rightarrow> Done (of_nat a, m\<lparr>km_heap := h\<rparr>))"

definition kstack_alloc :: "bit_field \<Rightarrow> nat \<Rightarrow> task_sys \<Rightarrow> (usize \<times> task_sys) kres" where
  "kstack_alloc bf tid s =
     kbind (kernel_stack_position_by_tid tid) (\<lambda>(bottom, top).
     kbind (quad_page_new bf (ts_mem s)) (\<lambda>(page, m1).
     kbind (unwrap_va bottom) (\<lambda>va.
     kbind (unwrap_pa page) (\<lambda>pa.
     kbind (kvm_task_kstack_map bf (ts_kpt s) va pa (of_nat tid) KERNEL_STACK_SIZE (PTE_R OR PTE_W) (ts_stacks s) m1) (\<lambda>(stacks, m2).
       Done (bottom, s\<lparr>ts_stacks := stacks, ts_mem := m2\<rparr>))))))"

text \<open>\<^verbatim>\<open>proc_init\<close>: the kernel stacks of all processes, mapped at boot.\<close>

definition proc_init :: "bit_field \<Rightarrow> usize \<Rightarrow> kmem \<Rightarrow> (usize list \<times> kmem) kres" where
  "proc_init bf kpt m =
     kfold (\<lambda>(kstacks, m1) pos.
       kbind (quad_page_new bf m1) (\<lambda>(page, m2).
       kbind (kstack_by_pos pos) (\<lambda>a.
       kbind (unwrap_va a) (\<lambda>va.
       kbind (unwrap_pa page) (\<lambda>pa.
       kbind (kvm_map bf kpt va pa KERNEL_STACK_SIZE (PTE_R OR PTE_W) m2) (\<lambda>m3. Done (kstacks @ [a], m3)))))))
       ([], m) [0..<NPROC]"

text \<open>What \<^verbatim>\<open>Task::new\<close> and \<^verbatim>\<open>Task::from\<close> share: the number, the stack and the mapped trap frame page.\<close>

definition task_pages :: "bit_field \<Rightarrow> usize option \<Rightarrow> task_sys \<Rightarrow> (nat \<times> usize \<times> usize \<times> task_sys) kres" where
  "task_pages bf pagetable s =
     kbind (tid_alloc (ts_tids s)) (\<lambda>(tid, tids).
     kbind (kstack_alloc bf tid (s\<lparr>ts_tids := tids\<rparr>)) (\<lambda>(kstack, s1).
     kbind (page_try_new bf zero_bytes (ts_mem s1)) (\<lambda>(r, m2).
       case r of
         None \<Rightarrow> Panicked unwrap_none
       | Some page \<Rightarrow>
           (case pagetable of
              None \<Rightarrow> Panicked unwrap_none
            | Some pt \<Rightarrow>
                kbind (trapframe_from_tid tid) (\<lambda>va.
                kbind (unwrap_pa page) (\<lambda>pa.
                kbind (map_pages bf pt (VirtAddr va) PAGE_SIZE pa (PTE_R OR PTE_W) m2) (\<lambda>(q, m3).
                  case q of
                    Inl e \<Rightarrow> Panicked ''task trapframe error''
                  | Inr u \<Rightarrow> Done (tid, kstack, page, s1\<lparr>ts_mem := m3\<rparr>))))))))"

definition task_of :: "task_env \<Rightarrow> usize \<Rightarrow> usize \<Rightarrow> nat \<Rightarrow> usize \<Rightarrow> usize \<Rightarrow> usize \<Rightarrow> trapframe \<Rightarrow> task" where
  "task_of env pos ustack_base tid kstack page ksp tf =
     \<lparr>tk_kstack = kstack, tk_ustack_base = ustack_base, tk_tid = tid, tk_pos = pos, tk_trapframe_pa = page, tk_trapframe = tf,
      tk_context = task_context_new\<lparr>cx_ra := te_fork_ret env, cx_sp := ksp\<rparr>, tk_status = TaskReady, tk_exit_code = None\<rparr>"

definition task_new :: "bit_field \<Rightarrow> task_env \<Rightarrow> usize option \<Rightarrow> usize \<Rightarrow> usize \<Rightarrow> usize \<Rightarrow> task_sys \<Rightarrow> (task \<times> task_sys) kres" where
  "task_new bf env pagetable pos ustack_base entry s =
     kbind (task_pages bf pagetable s) (\<lambda>(tid, kstack, page, s1).
     kbind (ustack_bottom_from_tid ustack_base pos) (\<lambda>bottom.
     kbind (usize_add bottom USER_STACK_SIZE) (\<lambda>sp.
     kbind (usize_add kstack KERNEL_STACK_SIZE) (\<lambda>ksp.
       let tf = trapframe_new\<lparr>tf_epc := entry, tf_sp := sp, tf_kernel_satp := te_satp env, tf_kernel_sp := ksp,
                  tf_kernel_trap := te_user_trap env, tf_kernel_hartid := te_hartid env\<rparr>
       in Done (task_of env pos ustack_base tid kstack page ksp tf, s1)))))"

text \<open>\<^verbatim>\<open>Task::from\<close>: the task of a forked child.\<close>

definition task_from :: "bit_field \<Rightarrow> task_env \<Rightarrow> usize option \<Rightarrow> usize \<Rightarrow> usize \<Rightarrow> trapframe \<Rightarrow> task_sys \<Rightarrow> (task \<times> task_sys) kres" where
  "task_from bf env pagetable pos ustack_base ptf s =
     kbind (task_pages bf pagetable s) (\<lambda>(tid, kstack, page, s1).
     kbind (usize_add kstack KERNEL_STACK_SIZE) (\<lambda>ksp.
       Done (task_of env pos ustack_base tid kstack page ksp (ptf\<lparr>tf_a0 := 0, tf_kernel_sp := ksp\<rparr>), s1)))"

text \<open>\<^verbatim>\<open>drop\<close> of the last reference. The trap frame page and the kernel stack stay allocated.\<close>

definition task_drop :: "bit_field \<Rightarrow> usize option \<Rightarrow> task \<Rightarrow> task_sys \<Rightarrow> task_sys kres" where
  "task_drop bf pagetable t s =
     (case pagetable of
        None \<Rightarrow> Panicked unwrap_none
      | Some pt \<Rightarrow>
          kbind (trapframe_from_tid (tk_tid t)) (\<lambda>va.
          kbind (uvm_unmap bf pt va 1 False (ts_mem s)) (\<lambda>m1.
          kbind (tid_dealloc (ts_tids s) (tk_tid t)) (\<lambda>tids. Done (s\<lparr>ts_tids := tids, ts_mem := m1\<rparr>)))))"

text \<open>\<^verbatim>\<open>user_ret_prepare_task\<close>: the page table and the task the process returns to user mode with.\<close>

definition user_ret_prepare_task :: "task_env \<Rightarrow> usize option \<Rightarrow> task list \<Rightarrow> (usize \<times> nat \<times> usize \<times> task list) kres" where
  "user_ret_prepare_task env pagetable tasks =
     kbind (kassert (length tasks = 1) ''assertion failed: tasks.len() == 1'') (\<lambda>_.
     let t = tasks ! 0
     in kbind (usize_add (tk_kstack t) KERNEL_STACK_SIZE) (\<lambda>ksp.
          let tf = (tk_trapframe t)\<lparr>tf_kernel_satp := te_satp env, tf_kernel_sp := ksp, tf_kernel_trap := te_user_trap env,
                     tf_kernel_hartid := te_hartid env\<rparr>
          in case pagetable of
               None \<Rightarrow> Panicked unwrap_none
             | Some pt \<Rightarrow> Done (as_satp pt, tk_tid t, tf_epc tf, [t\<lparr>tk_trapframe := tf\<rparr>])))"

section \<open>Addresses\<close>

lemma region_sub:
  assumes "d \<le> unat (a :: usize)"
  shows "unat (a - of_nat d) = unat a - d"
proof -
  have "d < 2 ^ 64" using assms unsigned_less [of a, where 'a = nat] by simp
  then have "unat (of_nat d :: usize) = d" by (simp add: unsigned_of_nat take_bit_nat_eq_self)
  then show ?thesis using assms by (subst unat_sub) (simp_all add: word_le_nat_alt)
qed

lemma tramp_val: "unat TRAMPOLINE = 2 ^ 38 - 4096" "unat TRAPFRAME = 2 ^ 38 - 2 * 4096"
  by (simp_all add: layout_defs)

lemma task_kstack_at:
  assumes "(t + 4 + NPROC) * (5 * 4096) \<le> unat TRAMPOLINE"
  shows "\<exists>b e. kernel_stack_position_by_tid t = Done (b, e) \<and> unat b = unat TRAMPOLINE - (t + 4 + NPROC) * (5 * 4096) \<and>
     unat e = unat b + 4 * 4096"
proof -
  let ?d = "(t + 4 + NPROC) * (5 * 4096)"
  let ?b = "TRAMPOLINE - of_nat ?d :: usize"
  have b: "unat ?b = unat TRAMPOLINE - ?d" by (rule region_sub [OF assms])
  have s: "unat ?b + unat KERNEL_STACK_SIZE < 2 ^ 64" "unat KERNEL_STACK_SIZE = 4 * 4096"
    unfolding b tramp_val by (simp_all add: layout_defs)
  then have "usize_add ?b KERNEL_STACK_SIZE = Done (?b + KERNEL_STACK_SIZE)" "unat (?b + KERNEL_STACK_SIZE) = unat ?b + 4 * 4096"
    using unat_plus_no_overflow [of ?b KERNEL_STACK_SIZE] by (simp_all add: usize_add_def)
  then show ?thesis using assms b by (simp add: kernel_stack_position_by_tid_def Let_def)
qed

lemma kstack_at:
  assumes "(pos + 1) * (5 * 4096) \<le> unat TRAMPOLINE"
  shows "\<exists>k. kstack_by_pos pos = Done k \<and> unat k = unat TRAMPOLINE - (pos + 1) * (5 * 4096)"
  using region_sub [OF assms] assms by (simp add: kstack_by_pos_def Let_def)

lemma task_frame_at:
  assumes "(NPROC + 1 + t) * (2 * 4096) \<le> unat TRAPFRAME"
  shows "\<exists>f. trapframe_from_tid t = Done f \<and> unat f = unat TRAPFRAME - (NPROC + 1 + t) * (2 * 4096)"
proof -
  have "(NPROC + 1) * (2 * 4096) + t * (2 * 4096) = (NPROC + 1 + t) * (2 * 4096)" by (simp add: algebra_simps)
  then have "trapframe_from_tid t = Done (TRAPFRAME - of_nat ((NPROC + 1 + t) * (2 * 4096)))"
    using assms by (simp only: trapframe_from_tid_def Let_def if_True)
  then show ?thesis using region_sub [OF assms] by blast
qed

lemma proc_frame_at:
  assumes "pid * (2 * 4096) + 4096 \<le> unat TRAPFRAME"
  shows "\<exists>g. trapframe_from_pid pid = Done g \<and> unat g = unat TRAPFRAME - (pid * (2 * 4096) + 4096)"
  using region_sub [OF assms] assms by (simp add: trapframe_from_pid_def Let_def del: of_nat_add of_nat_mult)



end
