(* ===== verification/Elf.thy ===== *)
theory Elf
  imports Threads FileIo
begin

text \<open>
  Loading a program (\<^verbatim>\<open>kernel/src/process/proc/elf.rs\<close>) and the system call \<^verbatim>\<open>exec\<close>: the headers as the bytes of the
  file, segments read from the inode into the pages of a new address space, the user stacks and the arguments, and the
  exchange of the process's address space and task.
\<close>

declare split_paired_Ex [simp del] split_paired_All [simp del]

section \<open>Headers\<close>

definition MAXARG :: nat where "MAXARG = 16"
definition MAXARGLEN :: nat where "MAXARGLEN = 64"
definition ELF_MAGIC :: u32 where "ELF_MAGIC = 0x464C457F"
definition ELF_PROG_LOAD :: u32 where "ELF_PROG_LOAD = 1"

definition of_le64 :: "u8 list \<Rightarrow> u64" where
  "of_le64 bs = ucast (of_le32 bs) OR push_bit 32 (ucast (of_le32 (drop 4 bs)))"

definition le64 :: "u64 \<Rightarrow> u8 list" where
  "le64 w = le32 (ucast w) @ le32 (ucast (drop_bit 32 w))"

record elf_header =
  eh_magic :: u32
  eh_elf :: "u8 list"
  eh_type :: u16
  eh_machine :: u16
  eh_version :: u32
  eh_entry :: u64
  eh_phoff :: u64
  eh_shoff :: u64
  eh_flags :: u32
  eh_ehsize :: u16
  eh_phentsize :: u16
  eh_phnum :: u16
  eh_shentsize :: u16
  eh_shnum :: u16
  eh_shstrndx :: u16

record prog_header =
  ph_type :: u32
  ph_flags :: u32
  ph_off :: u64
  ph_vaddr :: u64
  ph_paddr :: u64
  ph_filesz :: u64
  ph_memsz :: u64
  ph_align :: u64

text \<open>The sizes and field offsets of the \<^verbatim>\<open>repr(C)\<close> structures.\<close>

definition EH_SIZE :: u32 where "EH_SIZE = 64"
definition PH_SIZE :: u32 where "PH_SIZE = 56"

definition get_elf :: "u8 list \<Rightarrow> elf_header" where
  "get_elf bs =
     \<lparr>eh_magic = of_le32 bs, eh_elf = take 12 (drop 4 bs), eh_type = of_le16 (drop 16 bs), eh_machine = of_le16 (drop 18 bs),
      eh_version = of_le32 (drop 20 bs), eh_entry = of_le64 (drop 24 bs), eh_phoff = of_le64 (drop 32 bs),
      eh_shoff = of_le64 (drop 40 bs), eh_flags = of_le32 (drop 48 bs), eh_ehsize = of_le16 (drop 52 bs),
      eh_phentsize = of_le16 (drop 54 bs), eh_phnum = of_le16 (drop 56 bs), eh_shentsize = of_le16 (drop 58 bs),
      eh_shnum = of_le16 (drop 60 bs), eh_shstrndx = of_le16 (drop 62 bs)\<rparr>"

definition get_ph :: "u8 list \<Rightarrow> prog_header" where
  "get_ph bs =
     \<lparr>ph_type = of_le32 bs, ph_flags = of_le32 (drop 4 bs), ph_off = of_le64 (drop 8 bs), ph_vaddr = of_le64 (drop 16 bs),
      ph_paddr = of_le64 (drop 24 bs), ph_filesz = of_le64 (drop 32 bs), ph_memsz = of_le64 (drop 40 bs),
      ph_align = of_le64 (drop 48 bs)\<rparr>"

section \<open>Segments\<close>

definition seg_steps :: "u32 \<Rightarrow> u32 list" where
  "seg_steps n = map (\<lambda>k. of_nat (4096 * k)) [0..<(unat n + 4095) div 4096]"

fun load_seg_loop :: "bit_field \<Rightarrow> super_block \<Rightarrow> usize \<Rightarrow> u32 \<Rightarrow> u32 \<Rightarrow> u32 list \<Rightarrow> usize \<Rightarrow> inode_data \<Rightarrow> tstate \<Rightarrow> kmem \<Rightarrow>
    (bool \<times> inode_data \<times> tstate \<times> kmem) kres" where
  "load_seg_loop bf sb pt offset sz [] va idata t m = Done (True, idata, t, m)"
| "load_seg_loop bf sb pt offset sz (i # is) va idata t m =
     kbind (find_pa_mut pt (VirtAddr va) m) (\<lambda>r.
       case r of
         Inl e \<Rightarrow> Panicked (''va should already be mapped, '' @ e)
       | Inr pa \<Rightarrow>
           kbind (u32_sub sz i) (\<lambda>left.
           let cnt = (if left < ucast PAGE_SIZE then left else ucast PAGE_SIZE)
           in kbind (u32_add offset i) (\<lambda>off.
              kbind (iread bf sb kernel_sink [] off cnt idata t) (\<lambda>(q, id1, t1).
                case q of
                  None \<Rightarrow> Done (False, id1, t1, m)
                | Some bs \<Rightarrow>
                    kbind (page_write (pa_raw pa) 0 bs m) (\<lambda>m1.
                    kbind (addr_add_page va) (\<lambda>va'. load_seg_loop bf sb pt offset sz is va' id1 t1 m1))))))"

text \<open>\<^verbatim>\<open>load_seg\<close>: \<open>True\<close> is \<^verbatim>\<open>Ok(())\<close>.\<close>

definition load_seg :: "bit_field \<Rightarrow> super_block \<Rightarrow> usize \<Rightarrow> usize \<Rightarrow> u32 \<Rightarrow> u32 \<Rightarrow> inode_data \<Rightarrow> tstate \<Rightarrow> kmem \<Rightarrow>
    (bool \<times> inode_data \<times> tstate \<times> kmem) kres" where
  "load_seg bf sb pt va offset sz idata t m =
     (if va mod PAGE_SIZE \<noteq> 0 then Panicked ''va is not page aligned''
      else kbind (unwrap_va va) (\<lambda>v. load_seg_loop bf sb pt offset sz (seg_steps sz) (va_raw v) idata t m))"

text \<open>
  The program headers, from the offset \<open>off\<close> on. The first component is the error the caller returns, the second the size of
  the address space built so far.
\<close>

fun load_segments :: "bit_field \<Rightarrow> super_block \<Rightarrow> usize \<Rightarrow> nat \<Rightarrow> u32 \<Rightarrow> usize \<Rightarrow> inode_data \<Rightarrow> tstate \<Rightarrow> kmem \<Rightarrow>
    (string option \<times> usize \<times> inode_data \<times> tstate \<times> kmem) kres" where
  "load_segments bf sb pt 0 off proc_size idata t m = Done (None, proc_size, idata, t, m)"
| "load_segments bf sb pt (Suc n) off proc_size idata t m =
     kbind (iread bf sb kernel_sink [] off PH_SIZE idata t) (\<lambda>(q, id1, t1).
       case q of
         None \<Rightarrow> Done (Some ''cannot read elf program header'', proc_size, id1, t1, m)
       | Some bs \<Rightarrow>
           let ph = get_ph bs
           in if ph_type ph \<noteq> ELF_PROG_LOAD
              then kbind (u32_add off PH_SIZE) (\<lambda>off'. load_segments bf sb pt n off' proc_size id1 t1 m)
              else kbind (if ph_memsz ph < ph_filesz ph then Done True
                          else kbind (usize_add (ph_vaddr ph) (ph_memsz ph)) (\<lambda>e.
                            Done (e < ph_vaddr ph \<or> ph_vaddr ph mod PAGE_SIZE \<noteq> 0))) (\<lambda>bad.
                   if bad then Done (Some ''one program header meta not correct'', proc_size, id1, t1, m)
                   else kbind (usize_add (ph_vaddr ph) (ph_memsz ph)) (\<lambda>new_size.
                        kbind (uvm_alloc bf pt proc_size new_size m) (\<lambda>(r, m1).
                          case r of
                            None \<Rightarrow> Done (Some ''not enough uvm for program header'', proc_size, id1, t1, m1)
                          | Some cur_size \<Rightarrow>
                              kbind (load_seg bf sb pt (ph_vaddr ph) (ucast (ph_off ph)) (ucast (ph_filesz ph)) id1 t1 m1)
                                (\<lambda>(ok, id2, t2, m2).
                                  if \<not> ok then Done (Some ''load program section error'', cur_size, id2, t2, m2)
                                  else kbind (u32_add off PH_SIZE) (\<lambda>off'.
                                       load_segments bf sb pt n off' cur_size id2 t2 m2))))))"

section \<open>Arguments\<close>

definition align_sp :: "usize \<Rightarrow> usize" where
  "align_sp sp = sp - sp mod 16"

definition zero_position :: "u8 list \<Rightarrow> nat option" where
  "zero_position bs = List.find (\<lambda>i. bs ! i = 0) [0..<length bs]"

definition too_much :: string where "too_much = ''cmd args too much for stack''"
definition copy_wrong :: string where "copy_wrong = ''copy cmd args to pagetable go wrong''"

text \<open>One push: room for \<open>bytes\<close> below the stack pointer, aligned, not below \<open>base\<close>.\<close>

definition push_bytes :: "usize \<Rightarrow> usize \<Rightarrow> u8 list \<Rightarrow> usize \<Rightarrow> kmem \<Rightarrow> ((string + usize) \<times> kmem) kres" where
  "push_bytes pt base bytes sp m =
     kbind (usize_sub sp (of_nat (length bytes))) (\<lambda>sp1.
     let sp2 = align_sp sp1
     in if sp2 < base then Done (Inl too_much, m)
        else kbind (copy_out pt bytes sp2 m) (\<lambda>(r, m1).
          Done (case r of Inl _ \<Rightarrow> Inl copy_wrong | Inr _ \<Rightarrow> Inr sp2, m1)))"

text \<open>The strings, with their terminating zero; \<open>ptrs\<close> are the entries of \<^verbatim>\<open>ustack\<close> filled so far.\<close>

fun push_args :: "usize \<Rightarrow> usize \<Rightarrow> u8 list list \<Rightarrow> usize list \<Rightarrow> usize \<Rightarrow> kmem \<Rightarrow> ((string + (usize \<times> usize list)) \<times> kmem) kres" where
  "push_args pt base [] ptrs sp m = Done (Inr (sp, ptrs), m)"
| "push_args pt base (arg # args) ptrs sp m =
     (case zero_position arg of
        None \<Rightarrow> Panicked unwrap_none
      | Some max_pos \<Rightarrow>
          kbind (push_bytes pt base (take (max_pos + 1) arg) sp m) (\<lambda>(r, m1).
            case r of
              Inl e \<Rightarrow> Done (Inl e, m1)
            | Inr sp' \<Rightarrow> if length ptrs \<le> MAXARG then push_args pt base args (ptrs @ [sp']) sp' m1
                         else Panicked ''index out of bounds''))"

text \<open>The strings and the array of their addresses, closed by a null pointer.\<close>

definition push_argv :: "usize \<Rightarrow> usize \<Rightarrow> u8 list list \<Rightarrow> usize \<Rightarrow> kmem \<Rightarrow> ((string + usize) \<times> kmem) kres" where
  "push_argv pt base argv sp m =
     kbind (kassert (length argv < MAXARG) ''assertion failed: argc < MAXARG'') (\<lambda>_.
     kbind (push_args pt base argv [] sp m) (\<lambda>(r, m1).
       case r of
         Inl e \<Rightarrow> Done (Inl e, m1)
       | Inr (sp1, ptrs) \<Rightarrow>
           kbind (kassert (argv = [] \<or> List.last ptrs \<noteq> 0) ''assertion failed: ustack[argc-1] != 0'') (\<lambda>_.
             push_bytes pt base (concat (map le64 (ptrs @ [0]))) sp1 m1)))"

section \<open>Loading\<close>

text \<open>
  The part of a process the loader reads and changes, and the kernel around it. \<open>ep_trapframe\<close> is the record behind
  \<^verbatim>\<open>pdata.trapframe\<close>; the tasks have trap frames of their own.
\<close>

record exec_proc =
  ep_pid :: nat
  ep_trapframe_pa :: usize
  ep_up :: usize
  ep_trapframe :: trapframe
  ep_name :: "u8 list"
  ep_size :: usize
  ep_ustack_base :: usize
  ep_pagetable :: "usize option"
  ep_cwd :: "inode option"
  ep_tasks :: "task list"

record exec_sys =
  xs_ic :: icache
  xs_tasks :: task_sys

definition xs_mem :: "exec_sys \<Rightarrow> kmem" where
  "xs_mem xs = ts_mem (xs_tasks xs)"

definition set_xs_mem :: "kmem \<Rightarrow> exec_sys \<Rightarrow> exec_sys" where
  "set_xs_mem m xs = xs\<lparr>xs_tasks := (xs_tasks xs)\<lparr>ts_mem := m\<rparr>\<rparr>"

text \<open>Every return of the first part drops the inode and ends the transaction.\<close>

definition leave_inode :: "bit_field \<Rightarrow> super_block \<Rightarrow> inode \<Rightarrow> 'r \<Rightarrow> icache \<Rightarrow> kmem \<Rightarrow> exec_sys \<Rightarrow> ('r \<times> exec_sys) kres" where
  "leave_inode bf sb ino r s m xs =
     kbind (ic_put bf sb ino s) (\<lambda>s1. kbind (fs_end s1) (\<lambda>s2. Done (r, set_xs_mem m (xs\<lparr>xs_ic := s2\<rparr>))))"

definition discard_table :: "bit_field \<Rightarrow> usize \<Rightarrow> usize \<Rightarrow> nat \<Rightarrow> kmem \<Rightarrow> kmem kres" where
  "discard_table bf pt proc_size pid m = kbind (dealloc_proc_pagetable bf pt proc_size pid m) (drop_box bf pt)"

text \<open>The first part: the file into a new address space (\<open>None\<close>: it sleeps in \<^verbatim>\<open>begin_op\<close>).\<close>

definition load_file :: "bit_field \<Rightarrow> super_block \<Rightarrow> usize \<Rightarrow> u8 list \<Rightarrow> exec_proc \<Rightarrow> exec_sys \<Rightarrow>
    ((string + (elf_header \<times> usize \<times> usize)) \<times> exec_sys) kres option" where
  "load_file bf sb trampoline path pd xs =
     map_option (\<lambda>s0.
       kbind (namei bf sb (ep_cwd pd) path s0) (\<lambda>(found, s1).
       case found of
         None \<Rightarrow> kbind (fs_end s1) (\<lambda>s2. Done (Inl ''cannot name inode'', xs\<lparr>xs_ic := s2\<rparr>))
       | Some ino \<Rightarrow>
           kbind (ilock sb [] ino s1) (\<lambda>s2.
           let i = in_index ino; m0 = xs_mem xs
           in kbind (on_data i (iread bf sb kernel_sink [] 0 EH_SIZE) s2) (\<lambda>(q, s3).
              case q of
                None \<Rightarrow> leave_inode bf sb ino (Inl ''cannot read elf inode'') s3 m0 xs
              | Some bs \<Rightarrow>
                  let elf = get_elf bs
                  in if eh_magic elf \<noteq> ELF_MAGIC then leave_inode bf sb ino (Inl ''bad elf magic number'') s3 m0 xs
                     else kbind (alloc_proc_pagetable bf trampoline (ep_trapframe_pa pd) (ep_up pd) (ep_pid pd) m0) (\<lambda>(r, m1).
                       case r of
                         None \<Rightarrow> leave_inode bf sb ino (Inl ''mem not enough'') s3 m1 xs
                       | Some pt \<Rightarrow>
                           kbind (load_segments bf sb pt (unat (eh_phnum elf)) (ucast (eh_phoff elf)) 0 (ic_data s3 ! i) (ic_tx s3) m1)
                             (\<lambda>(e, proc_size, idata, t, m2).
                               let s4 = Icache.set_data i idata (s3\<lparr>ic_tx := t\<rparr>)
                               in case e of
                                    Some msg \<Rightarrow> kbind (discard_table bf pt proc_size (ep_pid pd) m2) (\<lambda>m3. leave_inode bf sb ino (Inl msg) s4 m3 xs)
                                  | None \<Rightarrow> leave_inode bf sb ino (Inr (elf, pt, proc_size)) s4 m2 xs))))))
     (fs_begin (xs_ic xs))"

text \<open>The room for the stacks of all tasks, with a guard page below each.\<close>

definition load_stacks :: "bit_field \<Rightarrow> usize \<Rightarrow> usize \<Rightarrow> kmem \<Rightarrow> (usize option \<times> kmem) kres" where
  "load_stacks bf pt base m =
     kbind (usize_mul (of_nat MAX_TASKS_PER_PROC) (USER_STACK_SIZE + PAGE_SIZE)) (\<lambda>room.
     kbind (usize_add base room) (\<lambda>stack_end.
     kbind (uvm_alloc bf pt base stack_end m) (\<lambda>(r, m1).
       case r of
         None \<Rightarrow> Done (None, m1)
       | Some proc_size \<Rightarrow>
           kbind (kfold (\<lambda>m i. kbind (usize_mul (of_nat i) (USER_STACK_SIZE + PAGE_SIZE)) (\<lambda>d.
                    kbind (usize_sub proc_size d) (\<lambda>va. uvm_clear pt va m))) m1 [1..<Suc MAX_TASKS_PER_PROC])
             (\<lambda>m2. Done (Some proc_size, m2)))))"

text \<open>The name of the process: the path without the slashes it starts with.\<close>

definition exec_name :: "u8 list \<Rightarrow> u8 list \<Rightarrow> u8 list kres" where
  "exec_name path old =
     (case List.find (\<lambda>i. path ! i \<noteq> 0x2F) [0..<length path] of
        None \<Rightarrow> Panicked unwrap_none
      | Some off \<Rightarrow> let cnt = min (length path - off) (length old) in Done (take cnt (drop off path) @ drop cnt old))"

text \<open>The last part: the new address space, a new task, and the release of the old ones.\<close>

definition exec_commit :: "bit_field \<Rightarrow> task_env \<Rightarrow> u8 list \<Rightarrow> elf_header \<Rightarrow> usize \<Rightarrow> usize \<Rightarrow> usize \<Rightarrow> usize \<Rightarrow> exec_proc \<Rightarrow> task_sys \<Rightarrow>
    (exec_proc \<times> task_sys) kres" where
  "exec_commit bf env path elf pt base proc_size sp pd ts =
     kbind (exec_name path (ep_name pd)) (\<lambda>name.
     kbind (kfold (\<lambda>ts t. task_drop bf (ep_pagetable pd) t ts) ts (rev (ep_tasks pd))) (\<lambda>ts1.
     case ep_pagetable pd of
       None \<Rightarrow> Panicked unwrap_none
     | Some old_pgt \<Rightarrow>
         kbind (task_new bf env (Some pt) 1 base (eh_entry elf) ts1) (\<lambda>(task, ts2).
         kbind (discard_table bf old_pgt (ep_size pd) (ep_pid pd) (ts_mem ts2)) (\<lambda>m.
           Done (pd\<lparr>ep_trapframe := (ep_trapframe pd)\<lparr>tf_a1 := sp, tf_epc := eh_entry elf, tf_sp := sp\<rparr>, ep_name := name,
                   ep_pagetable := Some pt, ep_size := proc_size, ep_tasks := [task]\<rparr>, ts2\<lparr>ts_mem := m\<rparr>)))))"

text \<open>\<^verbatim>\<open>load\<close>. The base of the user stacks is stored before anything that can still fail.\<close>

definition load :: "bit_field \<Rightarrow> super_block \<Rightarrow> task_env \<Rightarrow> usize \<Rightarrow> u8 list \<Rightarrow> u8 list list \<Rightarrow> exec_proc \<Rightarrow> exec_sys \<Rightarrow>
    ((string + nat) \<times> exec_proc \<times> exec_sys) kres option" where
  "load bf sb env trampoline path argv pd xs =
     map_option (\<lambda>r. kbind r (\<lambda>(q, xs1).
       case q of
         Inl e \<Rightarrow> Done (Inl e, pd, xs1)
       | Inr (elf, pt, seg_size) \<Rightarrow>
           kbind (pg_round_up seg_size) (\<lambda>base.
           let pd1 = pd\<lparr>ep_ustack_base := base\<rparr>;
               give_up = (\<lambda>e sz m. kbind (discard_table bf pt sz (ep_pid pd) m) (\<lambda>m'. Done (Inl e, pd1, set_xs_mem m' xs1)))
           in kbind (load_stacks bf pt base (xs_mem xs1)) (\<lambda>(s, m1).
              case s of
                None \<Rightarrow> give_up ''not enough uvm for user stack'' base m1
              | Some proc_size \<Rightarrow>
                  kbind (ustack_bottom_by_pos base 1) (\<lambda>stack_base.
                  kbind (usize_add stack_base USER_STACK_SIZE) (\<lambda>sp0.
                  kbind (push_argv pt stack_base argv sp0 m1) (\<lambda>(a, m2).
                    case a of
                      Inl e \<Rightarrow> give_up e proc_size m2
                    | Inr sp \<Rightarrow>
                        kbind (exec_commit bf env path elf pt base proc_size sp pd1 (xs_tasks (set_xs_mem m2 xs1))) (\<lambda>(pd2, ts).
                          Done (Inr (length argv), pd2, xs1\<lparr>xs_tasks := ts\<rparr>)))))))))
     (load_file bf sb trampoline path pd xs)"

section \<open>The system call\<close>

definition fetch_addr :: "usize \<Rightarrow> usize \<Rightarrow> usize \<Rightarrow> kmem \<Rightarrow> (string + usize) kres" where
  "fetch_addr pt sz addr m =
     kbind (usize_add addr 8) (\<lambda>e.
       if e > sz then Done (Inl ''input addr > proc's mem size'')
       else kbind (copy_in pt addr 8 m) (\<lambda>r.
         Done (case r of Inl _ \<Rightarrow> Inl ''pagetable copy_in eror'' | Inr bs \<Rightarrow> Inr (of_le64 bs))))"

text \<open>
  The argument strings, each in a box of its own on the kernel heap; the boxes are released when the call returns. \<open>Inl\<close> is an
  error, and \<open>Inr\<close> that the null pointer was reached.
\<close>

definition arg_layout :: layout where
  "arg_layout = \<lparr>lay_size = 64, lay_align = 1\<rparr>"

fun exec_args :: "bit_field \<Rightarrow> usize \<Rightarrow> usize \<Rightarrow> usize \<Rightarrow> nat list \<Rightarrow> (nat \<times> u8 list) list \<Rightarrow> kmem \<Rightarrow>
    ((string + unit) \<times> (nat \<times> u8 list) list \<times> kmem) kres" where
  "exec_args bf pt sz uargv [] argv m = Done (Inl ''too many arguments'', argv, m)"
| "exec_args bf pt sz uargv (i # is) argv m =
     kbind (usize_add uargv (of_nat (8 * i))) (\<lambda>a.
     kbind (fetch_addr pt sz a m) (\<lambda>r.
       case r of
         Inl e \<Rightarrow> Done (Inl e, argv, m)
       | Inr uarg \<Rightarrow>
           if uarg = 0 then Done (Inr (), argv, m)
           else kbind (buddy_alloc bf arg_layout (km_heap m)) (\<lambda>(b, h).
             case b of
               None \<Rightarrow> Done (Inl ''not enough kernel memory'', argv, m\<lparr>km_heap := h\<rparr>)
             | Some box \<Rightarrow>
                 kbind (copy_in_str pt uarg (replicate MAXARGLEN 0) (m\<lparr>km_heap := h\<rparr>)) (\<lambda>(q, buf).
                   case q of
                     Inl e \<Rightarrow> Done (Inl e, argv @ [(box, buf)], m\<lparr>km_heap := h\<rparr>)
                   | Inr u \<Rightarrow> exec_args bf pt sz uargv is (argv @ [(box, buf)]) (m\<lparr>km_heap := h\<rparr>)))))"

definition drop_args :: "bit_field \<Rightarrow> (nat \<times> u8 list) list \<Rightarrow> exec_sys \<Rightarrow> exec_sys kres" where
  "drop_args bf argv xs =
     kfold (\<lambda>xs (box, buf). let m = xs_mem xs in kbind (buddy_dealloc bf box arg_layout (km_heap m)) (\<lambda>h.
       Done (set_xs_mem (m\<lparr>km_heap := h\<rparr>) xs))) xs argv"

definition sys_exec :: "bit_field \<Rightarrow> super_block \<Rightarrow> task_env \<Rightarrow> usize \<Rightarrow> trapframe \<Rightarrow> exec_proc \<Rightarrow> exec_sys \<Rightarrow>
    (nat option \<times> exec_proc \<times> exec_sys) kres option" where
  "sys_exec bf sb env trampoline tf pd xs =
     (case ep_pagetable pd of
        None \<Rightarrow> Some (Panicked unwrap_none)
      | Some pt \<Rightarrow>
          (case kbind (arg_raw tf 0) (\<lambda>a. copy_in_str pt a (replicate MAXPATH 0) (xs_mem xs)) of
             Panicked e \<Rightarrow> Some (Panicked e)
           | Done (Inl e, path) \<Rightarrow> Some (Done (None, pd, xs))
           | Done (Inr u, path) \<Rightarrow>
               (case kbind (arg_addr tf 1) (\<lambda>uargv. exec_args bf pt (ep_size pd) uargv [0..<MAXARG] [] (xs_mem xs)) of
                  Panicked e \<Rightarrow> Some (Panicked e)
                | Done (Inl e, argv, m) \<Rightarrow> Some (kbind (drop_args bf argv (set_xs_mem m xs)) (\<lambda>xs'. Done (None, pd, xs')))
                | Done (Inr u, argv, m) \<Rightarrow>
                    map_option (\<lambda>r. kbind r (\<lambda>(q, pd', xs1).
                      kbind (drop_args bf argv xs1) (\<lambda>xs2.
                        Done (case q of Inl _ \<Rightarrow> None | Inr argc \<Rightarrow> Some argc, pd', xs2))))
                    (load bf sb env trampoline path (map snd argv) pd (set_xs_mem m xs)))))"

text \<open>
  The new task enters user mode with the registers of its own trap frame. These do not hold the address of the
  arguments, and the stack pointer is one page below the end of the second stack, while the arguments are on the first.
\<close>

lemma exec_task_registers:
  assumes "exec_commit bf env path elf pt base proc_size sp pd ts = Done (pd', ts')"
  shows "\<exists>t. ep_tasks pd' = [t] \<and> tf_epc (tk_trapframe t) = eh_entry elf \<and> tf_a1 (tk_trapframe t) = 0 \<and>
     tf_sp (tk_trapframe t) = base + 9 * PAGE_SIZE \<and> tf_a1 (ep_trapframe pd') = sp \<and> tf_sp (ep_trapframe pd') = sp"
proof -
  obtain t ts1 ts2 where t: "task_new bf env (Some pt) 1 base (eh_entry elf) ts1 = Done (t, ts2)"
    "pd' = pd\<lparr>ep_trapframe := (ep_trapframe pd)\<lparr>tf_a1 := sp, tf_epc := eh_entry elf, tf_sp := sp\<rparr>, ep_name := ep_name pd',
       ep_pagetable := Some pt, ep_size := proc_size, ep_tasks := [t]\<rparr>"
    using assms by (auto simp: exec_commit_def kres_simps split: option.splits)
  have "tf_epc (tk_trapframe t) = eh_entry elf \<and> tf_a1 (tk_trapframe t) = 0 \<and> tf_sp (tk_trapframe t) = base + 9 * PAGE_SIZE"
    using t(1) by (auto simp: task_new_def task_of_def trapframe_new_def ustack_bottom_from_tid_def kres_simps layout_defs algebra_simps)
  moreover have "ep_tasks pd' = [t]" "tf_a1 (ep_trapframe pd') = sp" "tf_sp (ep_trapframe pd') = sp"
    by (subst t(2), simp)+
  ultimately show ?thesis by simp
qed

end
