(* ===== verification/ElfLoad.thy ===== *)
theory ElfLoad
  imports Elf AddressSpace
begin

text \<open>
  What the loader puts into user memory: a segment holds the bytes of the file, and the stack holds the arguments.
\<close>

declare split_paired_Ex [simp del] split_paired_All [simp del]

section \<open>Segments\<close>

lemma wrote_nothing: "kmem_inv bf m \<Longrightarrow> pt_inv m pt \<Longrightarrow> user_inv m pt \<Longrightarrow> wrote bf m m pt v []"
  unfolding wrote_def by auto

definition tx_same :: "u32 \<Rightarrow> nat \<Rightarrow> tstate \<Rightarrow> tstate \<Rightarrow> bool" where
  "tx_same d n t t' \<longleftrightarrow> tx_ok d t' {} n \<and> tx_cont d t' = tx_cont d t \<and> tx_logged t' = tx_logged t \<and> tx_area t' = tx_area t"

lemma steps_less: "k < ((S :: nat) + 4095) div 4096 \<longleftrightarrow> 4096 * k < S"
proof -
  have "k < (S + 4095) div 4096 \<longleftrightarrow> Suc k * 4096 \<le> S + 4095"
    using less_eq_div_iff_mult_less_eq [of 4096 "Suc k" "S + 4095"] by (simp add: Suc_le_eq)
  then show ?thesis by auto
qed

context page_heap
begin

lemma load_seg_loop_spec:
  assumes "bit_crate bf" "kmem_inv bf m" "pt_inv m pt" "user_inv m pt" and "tx_ok d t {} b"
    and "file_ok bf sb d (tx_area t) (tx_cont d t) inum idata"
    and "js = map (\<lambda>j. of_nat (4096 * j)) [k..<(unat sz + 4095) div 4096]" and "unat va = 4096 * n"
    and "unat va + (unat sz - 4096 * k) \<le> 2 ^ 38"
    and "\<forall>q. n \<le> q \<and> 4096 * q < unat va + (unat sz - 4096 * k) \<longrightarrow> user_page m pt q \<noteq> None"
    and "k = 0 \<or> unat offset + 4096 * k \<le> unat (di_size (id_dinode idata))"
    and "rst = drop (unat offset + 4096 * k) (file_contents idata (tx_cont d t))"
    and "ok \<longleftrightarrow> unat offset + unat sz \<le> unat (di_size (id_dinode idata)) \<or> js = []"
  shows "\<exists>t' m'. load_seg_loop bf sb pt offset sz js va idata t m = Done (ok, idata, t', m') \<and> tx_same d b t t' \<and>
      (if ok then wrote bf m m' pt (unat va) (take (unat sz - 4096 * k) rst)
       else \<exists>j. 4096 * j \<le> length rst \<and> wrote bf m m' pt (unat va) (take (4096 * j) rst))"
  using assms
proof (induction "js" arbitrary: k va n t m rst ok)
  case Nil
  then have "\<not> k < (unat sz + 4095) div 4096" by auto
  then have "unat sz \<le> 4096 * k" unfolding steps_less by simp
  then show ?case using Nil wrote_nothing by (auto simp: tx_same_def)
next
  case (Cons i js)
  let ?F = "unat (di_size (id_dinode idata))" and ?O = "unat offset" and ?S = "unat sz"
  note inv = Cons.prems(2-4)
  have k: "k < (?S + 4095) div 4096" and i: "i = of_nat (4096 * k)"
    and js': "js = map (\<lambda>j. of_nat (4096 * j)) [Suc k..<(?S + 4095) div 4096]"
    using Cons.prems(7) by (cases "k < (?S + 4095) div 4096"; simp add: upt_conv_Cons)+
  have kS: "4096 * k < ?S" using k steps_less by blast
  have S: "?S < 2 ^ 32" "?F < 2 ^ 32" "?O < 2 ^ 32"
    using unsigned_less [of sz, where 'a = nat] unsigned_less [of "di_size (id_dinode idata)", where 'a = nat]
      unsigned_less [of offset, where 'a = nat] by simp_all
  have ui: "unat i = 4096 * k" unfolding i using kS S(1) by (simp add: unsigned_of_nat take_bit_nat_eq_self del: of_nat_mult)
  have left: "u32_sub sz i = Done (sz - i)" "unat (sz - i) = ?S - 4096 * k"
    using kS ui by (simp_all add: u32_sub_def word_le_nat_alt unat_sub)
  define cnt where "cnt = (if sz - i < ucast PAGE_SIZE then sz - i else ucast PAGE_SIZE)"
  have c: "unat cnt = min (?S - 4096 * k) 4096"
    using left(2) by (simp add: cnt_def PAGE_SIZE_def word_less_nat_alt)
  have "?O + 4096 * k < 2 ^ 32" using Cons.prems(11) S by auto
  then have off: "u32_add offset i = Done (offset + i)" "unat (offset + i) = ?O + 4096 * k"
    using ui by (simp_all add: u32_add_def unat_plus_no_overflow)
  have n: "n < 2 ^ 26" "n < 2 ^ 27" using Cons.prems(8,9) kS by simp_all
  obtain a where a: "user_page m pt n = Some a" using Cons.prems(8,10) kS by fastforce
  have e: "find_pa_mut pt (VirtAddr va) m = Done (Inr (PhysAddr a))"
    using find_pa_spec [OF inv(1,2), of va] a Cons.prems(8) n by auto
  note rd = iread_spec [OF Cons.prems(1,5,6), of "offset + i" cnt, unfolded off(2)]
  show ?case
  proof (cases "?O + 4096 * k + unat cnt \<le> ?F")
    case False
    then have "iread bf sb kernel_sink [] (offset + i) cnt idata t = Done (None, idata, t)" using rd by simp
    then have "load_seg_loop bf sb pt offset sz (i # js) va idata t m = Done (False, idata, t, m)"
      using e left(1) off(1) by (simp add: cnt_def [symmetric] Let_def)
    moreover have "\<not> ok" using False c Cons.prems(13) kS by simp
    ultimately show ?thesis
      using wrote_nothing [OF inv] Cons.prems(5) by (auto simp: tx_same_def intro!: exI [of _ t] exI [of _ m] exI [of _ "0 :: nat"])
  next
    case True
    let ?bs = "take (unat cnt) rst"
    have ld: "length rst = ?F - (?O + 4096 * k)" using Cons.prems(12) by (simp add: file_contents_def)
    have lb: "length ?bs = unat cnt" using True ld by simp
    obtain t1 where t1: "iread bf sb kernel_sink [] (offset + i) cnt idata t = Done (Some ?bs, idata, t1)" "tx_same d b t t1"
      using rd True Cons.prems(12) by (auto simp: tx_same_def)
    obtain m1 where m1: "page_write a 0 ?bs m = Done m1" "wrote bf m m1 pt (unat va) ?bs"
      using page_write_spec [OF inv n(2) a, of 0 ?bs] lb c Cons.prems(8) by auto
    have i1: "kmem_inv bf m1" "pt_inv m1 pt" "user_inv m1 pt" "user_page m1 pt = user_page m pt"
      using m1(2) user_page_cong unfolding wrote_def by blast+
    have va: "addr_add_page va = Done (va + PAGE_SIZE)" "unat (va + PAGE_SIZE) = 4096 * Suc n"
      using next_page_arith [OF Cons.prems(8) _ _, of va 0] Cons.prems(8) n(1) by simp_all
    have run: "load_seg_loop bf sb pt offset sz (i # js) va idata t m = load_seg_loop bf sb pt offset sz js (va + PAGE_SIZE) idata t1 m1"
      using e left(1) off(1) t1(1) m1(1) va(1) by (simp add: cnt_def [symmetric] Let_def)
    show ?thesis
    proof (cases "js = []")
      case em: True
      then have "\<not> Suc k < (?S + 4095) div 4096" using js' by auto
      then have "?S \<le> 4096 * Suc k" unfolding steps_less by simp
      then have cS: "unat cnt = ?S - 4096 * k" using c by simp
      then have ok using True Cons.prems(13) kS by simp
      moreover have "load_seg_loop bf sb pt offset sz (i # js) va idata t m = Done (True, idata, t1, m1)" using run em by simp
      ultimately show ?thesis using t1(2) m1(2) unfolding cS by auto
    next
      case False
      then have "Suc k < (?S + 4095) div 4096" using js' by auto
      then have full: "4096 * Suc k < ?S" using steps_less by blast
      then have c4: "unat cnt = 4096" using c by simp
      have b: "unat (va + PAGE_SIZE) + (?S - 4096 * Suc k) = unat va + (?S - 4096 * k)"
        unfolding va(2) Cons.prems(8) using full by simp
      have r: "?S - 4096 * k = 4096 + (?S - 4096 * Suc k)" using full by simp
      have "\<exists>t' m'. load_seg_loop bf sb pt offset sz js (va + PAGE_SIZE) idata t1 m1 = Done (ok, idata, t', m') \<and> tx_same d b t1 t' \<and>
        (if ok then wrote bf m1 m' pt (unat (va + PAGE_SIZE)) (take (?S - 4096 * Suc k) (drop 4096 rst))
         else \<exists>j. 4096 * j \<le> length (drop 4096 rst) \<and> wrote bf m1 m' pt (unat (va + PAGE_SIZE)) (take (4096 * j) (drop 4096 rst)))"
      proof (rule Cons.IH [OF Cons.prems(1) i1(1-3)])
        show "tx_ok d t1 {} b" "file_ok bf sb d (tx_area t1) (tx_cont d t1) inum idata"
          using t1(2) Cons.prems(6) by (simp_all add: tx_same_def)
        show "unat (va + PAGE_SIZE) + (?S - 4096 * Suc k) \<le> 2 ^ 38" unfolding b by (rule Cons.prems(9))
        show "\<forall>q. Suc n \<le> q \<and> 4096 * q < unat (va + PAGE_SIZE) + (?S - 4096 * Suc k) \<longrightarrow> user_page m1 pt q \<noteq> None"
          unfolding b i1(4) using Cons.prems(10) Suc_leD by blast
        show "Suc k = 0 \<or> ?O + 4096 * Suc k \<le> ?F" using True c4 by simp
        show "drop 4096 rst = drop (?O + 4096 * Suc k) (file_contents idata (tx_cont d t1))"
          using Cons.prems(12) t1(2) by (simp add: tx_same_def add.commute add.left_commute)
        show "ok \<longleftrightarrow> ?O + ?S \<le> ?F \<or> js = []" using Cons.prems(13) False by simp
      qed (rule js' va(2))+
      then obtain t' m' where t': "load_seg_loop bf sb pt offset sz js (va + PAGE_SIZE) idata t1 m1 = Done (ok, idata, t', m')" "tx_same d b t1 t'"
        "if ok then wrote bf m1 m' pt (unat (va + PAGE_SIZE)) (take (?S - 4096 * Suc k) (drop 4096 rst))
         else \<exists>j. 4096 * j \<le> length (drop 4096 rst) \<and> wrote bf m1 m' pt (unat (va + PAGE_SIZE)) (take (4096 * j) (drop 4096 rst))"
        by blast
      have v: "unat va + length ?bs = unat (va + PAGE_SIZE)" using lb c4 va(2) Cons.prems(8) by simp
      note tr = wrote_trans [OF m1(2), unfolded v, unfolded c4]
      have tk: "take (4096 + x) rst = take 4096 rst @ take x (drop 4096 rst)" for x by (rule take_add)
      have l4: "4096 \<le> length rst" using lb c4 by simp
      have "if ok then wrote bf m m' pt (unat va) (take (?S - 4096 * k) rst)
        else \<exists>j. 4096 * j \<le> length rst \<and> wrote bf m m' pt (unat va) (take (4096 * j) rst)"
      proof (cases ok)
        case True
        then show ?thesis using t'(3) tr unfolding r tk by simp
      next
        case False
        then obtain j where j: "4096 * j \<le> length (drop 4096 rst)"
          "wrote bf m1 m' pt (unat (va + PAGE_SIZE)) (take (4096 * j) (drop 4096 rst))" using t'(3) by auto
        have "4096 * Suc j \<le> length rst" using j(1) l4 by simp
        moreover have "wrote bf m m' pt (unat va) (take (4096 * Suc j) rst)" using tr [OF j(2)] tk [of "4096 * j"] by simp
        ultimately show ?thesis by (simp only: False if_False) blast
      qed
      moreover have "tx_same d b t t'" using t1(2) t'(2) by (simp add: tx_same_def)
      ultimately show ?thesis using run t'(1) by auto
    qed
  qed
qed

lemma load_seg_spec:
  assumes "bit_crate bf" "kmem_inv bf m" "pt_inv m pt" "user_inv m pt" and "tx_ok d t {} b"
    and "file_ok bf sb d (tx_area t) (tx_cont d t) inum idata"
    and "unat va mod 4096 = 0" and "unat va + unat sz \<le> 2 ^ 38"
    and "\<forall>q. unat va \<le> 4096 * q \<and> 4096 * q < unat va + unat sz \<longrightarrow> user_page m pt q \<noteq> None"
    and "rst = drop (unat offset) (file_contents idata (tx_cont d t))"
    and "ok \<longleftrightarrow> unat offset + unat sz \<le> unat (di_size (id_dinode idata)) \<or> sz = 0"
  shows "\<exists>t' m'. load_seg bf sb pt va offset sz idata t m = Done (ok, idata, t', m') \<and> tx_same d b t t' \<and>
      (if ok then wrote bf m m' pt (unat va) (take (unat sz) rst)
       else \<exists>j. 4096 * j \<le> length rst \<and> wrote bf m m' pt (unat va) (take (4096 * j) rst))"
proof -
  have va: "unat va = 4096 * (unat va div 4096)" using assms(7) by (metis dvd_mult_div_cancel mod_eq_0_iff_dvd)
  have al: "va mod PAGE_SIZE = 0" using assms(7) by (simp add: PAGE_SIZE_def word_arith_nat_mod)
  have mx: "unwrap_va va = Done (VirtAddr va)"
    using assms(8) by (simp add: unwrap_va_def virt_try_from_def MAXVA_def word_le_nat_alt not_less)
  have e: "seg_steps sz = [] \<longleftrightarrow> sz = 0" using steps_less [of 0 "unat sz"] by (auto simp: seg_steps_def unat_eq_zero)
  have "\<exists>t' m'. load_seg_loop bf sb pt offset sz (seg_steps sz) va idata t m = Done (ok, idata, t', m') \<and> tx_same d b t t' \<and>
      (if ok then wrote bf m m' pt (unat va) (take (unat sz - 4096 * 0) rst)
       else \<exists>j. 4096 * j \<le> length rst \<and> wrote bf m m' pt (unat va) (take (4096 * j) rst))"
  proof (rule load_seg_loop_spec [OF assms(1-6) _ va])
    show "seg_steps sz = map (\<lambda>j. of_nat (4096 * j)) [0..<(unat sz + 4095) div 4096]" by (simp add: seg_steps_def)
    show "unat va + (unat sz - 4096 * 0) \<le> 2 ^ 38" using assms(8) by simp
    show "\<forall>q. unat va div 4096 \<le> q \<and> 4096 * q < unat va + (unat sz - 4096 * 0) \<longrightarrow> user_page m pt q \<noteq> None"
      using assms(9) va by fastforce
    show "(0 :: nat) = 0 \<or> unat offset + 4096 * 0 \<le> unat (di_size (id_dinode idata))" by simp
    show "rst = drop (unat offset + 4096 * 0) (file_contents idata (tx_cont d t))" using assms(10) by simp
    show "ok \<longleftrightarrow> unat offset + unat sz \<le> unat (di_size (id_dinode idata)) \<or> seg_steps sz = []" using assms(11) e by simp
  qed
  moreover have "load_seg bf sb pt va offset sz idata t m = load_seg_loop bf sb pt offset sz (seg_steps sz) va idata t m"
    by (simp add: load_seg_def al mx)
  ultimately show ?thesis by (simp only: mult_0_right minus_nat.diff_0)
qed

end

section \<open>Arguments\<close>

text \<open>An argument with its terminating zero.\<close>

definition arg_len :: "u8 list \<Rightarrow> nat" where
  "arg_len arg = the (zero_position arg) + 1"

definition arg_ok :: "u8 list \<Rightarrow> bool" where
  "arg_ok arg \<longleftrightarrow> length arg = MAXARGLEN \<and> 0 \<in> set arg"

lemma arg_zero:
  assumes "arg_ok arg"
  obtains p where "zero_position arg = Some p" "arg_len arg = p + 1" "arg_len arg \<le> 64" "length (take (p + 1) arg) = arg_len arg"
proof -
  obtain k where "k < length arg" "arg ! k = 0" using assms by (auto simp: arg_ok_def in_set_conv_nth)
  then obtain p where p: "zero_position arg = Some p" by (cases "zero_position arg") (auto simp: zero_position_def find_None_iff)
  then have "p < 64" using assms by (auto simp: zero_position_def find_Some_iff arg_ok_def MAXARGLEN_def)
  then show ?thesis using p that assms by (simp add: arg_len_def arg_ok_def MAXARGLEN_def)
qed

text \<open>Bytes written and bytes left alone.\<close>

lemma wrote_here:
  assumes "wrote bf m m' pt v src" and "v + length src \<le> 2 ^ 39"
  shows "ubytes m' pt v (length src) = src"
  using assms by (intro nth_equalityI) (simp_all add: ubytes_def wrote_def)

lemma ubytes_frame:
  assumes "\<forall>u < 2 ^ 39. u < lo \<or> hi \<le> u \<longrightarrow> ubyte m' pt u = ubyte m pt u" and "hi \<le> v" and "v + l \<le> 2 ^ 39"
  shows "ubytes m' pt v l = ubytes m pt v l"
  using assms by (simp add: ubytes_def)

lemma wrote_frame:
  assumes "wrote bf m m' pt v src" and "lo \<le> v" and "v + length src \<le> hi"
  shows "\<forall>u < 2 ^ 39. u < lo \<or> hi \<le> u \<longrightarrow> ubyte m' pt u = ubyte m pt u"
  using assms unfolding wrote_def by auto

lemma align_sp_facts: "unat (align_sp sp) = unat sp - unat sp mod 16" "unat (align_sp sp) mod 16 = 0"
proof -
  have "sp mod 16 \<le> sp" by (simp add: word_le_nat_alt word_arith_nat_mod unat_of_nat)
  then show u: "unat (align_sp sp) = unat sp - unat sp mod 16"
    by (simp add: align_sp_def unat_sub word_arith_nat_mod)
  show "unat (align_sp sp) mod 16 = 0" unfolding u by (simp add: minus_mod_eq_mult_div)
qed

context page_heap
begin

lemma push_bytes_spec:
  assumes inv: "kmem_inv bf m" "pt_inv m pt" "user_inv m pt" and n: "user_page m pt n \<noteq> None" "n < 2 ^ 26"
    and src: "src \<noteq> []" and lo: "4096 * n + length src + 15 \<le> unat sp" and hi: "unat sp \<le> 4096 * Suc n"
    and base: "unat base \<le> 4096 * n"
  defines "sp2 \<equiv> align_sp (sp - of_nat (length src))"
  shows "unat sp2 mod 16 = 0" "unat sp2 + length src \<le> unat sp" "unat sp \<le> unat sp2 + length src + 15"
    and "if unat sp2 + length src = 4096 * Suc n \<and> user_page m pt (Suc n) = None
         then push_bytes pt base src sp m = Panicked ''no map''
         else \<exists>m'. push_bytes pt base src sp m = Done (Inr sp2, m') \<and> wrote bf m m' pt (unat sp2) src"
proof -
  have l: "unat (of_nat (length src) :: usize) = length src" "length src \<le> unat sp" using lo hi n(2)
    by (simp_all add: unsigned_of_nat take_bit_nat_eq_self)
  have d: "usize_sub sp (of_nat (length src)) = Done (sp - of_nat (length src))" "unat (sp - of_nat (length src)) = unat sp - length src"
    using l by (simp_all add: usize_sub_def word_le_nat_alt unat_sub)
  have u: "unat sp2 = (unat sp - length src) - (unat sp - length src) mod 16" unfolding sp2_def by (simp add: align_sp_facts d(2))
  have md: "(unat sp - length src) mod 16 \<le> 15" by (simp add: less_Suc_eq_le [symmetric])
  show al: "unat sp2 mod 16 = 0" unfolding sp2_def by (rule align_sp_facts)
  show le: "unat sp2 + length src \<le> unat sp" "unat sp \<le> unat sp2 + length src + 15" using u md l(2) by linarith+
  have ge: "4096 * n \<le> unat sp2" using le lo by linarith
  have nb: "\<not> sp2 < base" using ge base by (simp add: word_less_nat_alt)
  have pos: "0 < length src" using src by simp
  have "unat sp2 < 4096 * n + 4096" using le(1) hi pos unfolding mult_Suc_right by linarith
  then have v: "unat sp2 = 4096 * n + (unat sp2 - 4096 * n)" "unat sp2 - 4096 * n < 4096" using ge by simp_all
  have mp: "mapped m pt (unat sp2) (length src) \<longleftrightarrow> \<not> (unat sp2 + length src = 4096 * Suc n \<and> user_page m pt (Suc n) = None)"
  proof (cases "unat sp2 + length src = 4096 * Suc n")
    case True
    have "(unat sp2) div 4096 = n" using page_off [OF v(2), of n] v(1) by simp
    moreover have "(unat sp2 + length src) div 4096 = Suc n" unfolding True by simp
    ultimately show ?thesis using True n(1) by (auto simp: mapped_def atLeastAtMostSuc_conv)
  next
    case False
    then have "length src < 4096 - (unat sp2 - 4096 * n)" using le hi ge unfolding mult_Suc_right by linarith
    from mapped_page [OF v(2) this, of m pt n] show ?thesis using v(1) n(1) False by simp
  qed
  have bd: "unat sp2 + length src \<le> unat MAXVA" using le hi n(2) by (simp add: MAXVA_def)
  show "if unat sp2 + length src = 4096 * Suc n \<and> user_page m pt (Suc n) = None
         then push_bytes pt base src sp m = Panicked ''no map''
         else \<exists>m'. push_bytes pt base src sp m = Done (Inr sp2, m') \<and> wrote bf m m' pt (unat sp2) src"
    using copy_out_spec [OF inv bd src] mp nb d(1) by (auto simp: push_bytes_def sp2_def Let_def split: if_splits)
qed

text \<open>What the loop over the arguments leaves: the strings above \<open>lo\<close>, at the addresses \<open>new\<close>, and nothing else changed.\<close>

lemma push_args_spec:
  assumes "kmem_inv bf m" "pt_inv m pt" "user_inv m pt" and "user_page m pt n \<noteq> None" "n < 2 ^ 26"
    and "\<forall>arg \<in> set args. arg_ok arg" and "4096 * n + 80 * length args \<le> unat sp" and "unat sp \<le> 4096 * Suc n"
    and "unat base \<le> 4096 * n" and "length ptrs + length args \<le> Suc MAXARG"
    and "args = [] \<or> unat sp < 4096 * Suc n \<or> arg_len (hd args) mod 16 \<noteq> 0 \<or> user_page m pt (Suc n) \<noteq> None"
  shows "\<exists>sp' new m'. push_args pt base args ptrs sp m = Done (Inr (sp', ptrs @ new), m') \<and>
     kmem_inv bf m' \<and> pt_inv m' pt \<and> user_inv m' pt \<and> user_page m' pt = user_page m pt \<and>
     length new = length args \<and> unat sp \<le> unat sp' + 80 * length args \<and> unat sp' \<le> unat sp \<and>
     (args \<noteq> [] \<longrightarrow> unat sp' < 4096 * Suc n) \<and>
     (\<forall>i < length args. ubytes m' pt (unat (new ! i)) (arg_len (args ! i)) = take (arg_len (args ! i)) (args ! i) \<and>
        unat sp' \<le> unat (new ! i) \<and> unat (new ! i) + arg_len (args ! i) \<le> unat sp) \<and>
     (\<forall>u < 2 ^ 39. u < unat sp' \<or> unat sp \<le> u \<longrightarrow> ubyte m' pt u = ubyte m pt u)"
  using assms
proof (induction args arbitrary: ptrs sp m)
  case Nil
  then show ?case by (intro exI [of _ sp] exI [of _ "[]"] exI [of _ m]) simp
next
  case (Cons arg args)
  have ok: "arg_ok arg" using Cons.prems(6) by simp
  obtain p where p: "zero_position arg = Some p" "arg_len arg = p + 1" "arg_len arg \<le> 64"
    "length (take (p + 1) arg) = arg_len arg" using arg_zero [OF ok] .
  let ?src = "take (p + 1) arg"
  let ?sp2 = "align_sp (sp - of_nat (length ?src))"
  have src: "?src \<noteq> []" using p(2,4) by auto
  have lo: "4096 * n + length ?src + 15 \<le> unat sp" using Cons.prems(7) p(3,4) by simp
  note b = push_bytes_spec [OF Cons.prems(1-5) src lo Cons.prems(8,9)]
  have "\<not> (unat ?sp2 + length ?src = 4096 * Suc n \<and> user_page m pt (Suc n) = None)"
  proof
    assume a: "unat ?sp2 + length ?src = 4096 * Suc n \<and> user_page m pt (Suc n) = None"
    then have e: "unat sp = 4096 * Suc n" using b(2) Cons.prems(8) by linarith
    then have "arg_len arg mod 16 \<noteq> 0" using a Cons.prems(11) by simp
    moreover have "4096 * Suc n = 16 * (256 * Suc n)" by simp
    then have "(unat ?sp2 + arg_len arg) mod 16 = 0" using a p(4) by (metis mod_mult_self1_is_0)
    then have "arg_len arg mod 16 = 0" using b(1) by (metis add.left_neutral mod_add_left_eq)
    ultimately show False by blast
  qed
  then obtain m1 where m1: "push_bytes pt base ?src sp m = Done (Inr ?sp2, m1)" "wrote bf m m1 pt (unat ?sp2) ?src"
    using b(4) by auto
  have i1: "kmem_inv bf m1" "pt_inv m1 pt" "user_inv m1 pt" "user_page m1 pt = user_page m pt"
    using m1(2) user_page_cong unfolding wrote_def by blast+
  have pos: "0 < length ?src" using src by simp
  have s2: "unat ?sp2 < 4096 * Suc n" "unat sp \<le> unat ?sp2 + 80" "unat ?sp2 \<le> unat sp"
    using b(2,3) Cons.prems(8) pos p(3,4) by linarith+
  have bd: "4096 * Suc n \<le> 2 ^ 39" using Cons.prems(5) by simp
  have "\<exists>sp' new m'. push_args pt base args (ptrs @ [?sp2]) ?sp2 m1 = Done (Inr (sp', (ptrs @ [?sp2]) @ new), m') \<and>
     kmem_inv bf m' \<and> pt_inv m' pt \<and> user_inv m' pt \<and> user_page m' pt = user_page m1 pt \<and>
     length new = length args \<and> unat ?sp2 \<le> unat sp' + 80 * length args \<and> unat sp' \<le> unat ?sp2 \<and>
     (args \<noteq> [] \<longrightarrow> unat sp' < 4096 * Suc n) \<and>
     (\<forall>i < length args. ubytes m' pt (unat (new ! i)) (arg_len (args ! i)) = take (arg_len (args ! i)) (args ! i) \<and>
        unat sp' \<le> unat (new ! i) \<and> unat (new ! i) + arg_len (args ! i) \<le> unat ?sp2) \<and>
     (\<forall>u < 2 ^ 39. u < unat sp' \<or> unat ?sp2 \<le> u \<longrightarrow> ubyte m' pt u = ubyte m1 pt u)"
    using Cons.prems(5-10) i1(4) s2 by (intro Cons.IH [OF i1(1-3)]) (simp_all add: Cons.prems(4))
  then obtain sp' new m' where r: "push_args pt base args (ptrs @ [?sp2]) ?sp2 m1 = Done (Inr (sp', (ptrs @ [?sp2]) @ new), m')"
     "kmem_inv bf m'" "pt_inv m' pt" "user_inv m' pt" "user_page m' pt = user_page m1 pt"
     "length new = length args" "unat ?sp2 \<le> unat sp' + 80 * length args" "unat sp' \<le> unat ?sp2"
     "\<forall>i < length args. ubytes m' pt (unat (new ! i)) (arg_len (args ! i)) = take (arg_len (args ! i)) (args ! i) \<and>
        unat sp' \<le> unat (new ! i) \<and> unat (new ! i) + arg_len (args ! i) \<le> unat ?sp2"
     "\<forall>u < 2 ^ 39. u < unat sp' \<or> unat ?sp2 \<le> u \<longrightarrow> ubyte m' pt u = ubyte m1 pt u" by blast
  have run: "push_args pt base (arg # args) ptrs sp m = Done (Inr (sp', ptrs @ ?sp2 # new), m')"
    using p(1) m1(1) r(1) Cons.prems(10) by (simp add: MAXARG_def)
  have "unat ?sp2 + length ?src \<le> 2 ^ 39" using b(2) Cons.prems(8) bd by linarith
  then have "ubytes m' pt (unat ?sp2) (arg_len arg) = take (arg_len arg) arg"
    using wrote_here [OF m1(2)] ubytes_frame [OF r(10) order_refl, of "arg_len arg"] p(2,4) by simp
  then have strs: "\<forall>i < length (arg # args). ubytes m' pt (unat ((?sp2 # new) ! i)) (arg_len ((arg # args) ! i)) =
        take (arg_len ((arg # args) ! i)) ((arg # args) ! i) \<and>
      unat sp' \<le> unat ((?sp2 # new) ! i) \<and> unat ((?sp2 # new) ! i) + arg_len ((arg # args) ! i) \<le> unat sp"
    using r(8,9) b(2) p(4) s2(3) by (auto simp: less_Suc_eq_0_disj nth_Cons')
  have fr: "\<forall>u < 2 ^ 39. u < unat sp' \<or> unat sp \<le> u \<longrightarrow> ubyte m' pt u = ubyte m pt u"
    using wrote_frame [OF m1(2) r(8) b(2)] r(10) s2(3) by auto
  have "unat sp \<le> unat sp' + 80 * length (arg # args)" "unat sp' \<le> unat sp" "unat sp' < 4096 * Suc n"
    using s2 r(7,8) by simp_all
  then show ?case using run r(2-6) strs fr i1(4) by (intro exI [of _ sp'] exI [of _ "?sp2 # new"] exI [of _ m']) simp
qed

end

text \<open>The first string starts below an aligned end, so it ends there exactly if its length is a multiple of 16.\<close>

lemma aligned_end:
  assumes "(a :: nat) mod 16 = 0" and "a + l \<le> t" and "t \<le> a + l + 15" and "t mod 16 = 0"
  shows "a + l = t \<longleftrightarrow> l mod 16 = 0"
proof
  assume "a + l = t"
  then show "l mod 16 = 0" using assms(1,4) by (metis add.left_neutral mod_add_left_eq)
next
  assume "l mod 16 = 0"
  then have "(a + l) mod 16 = 0" using assms(1) by (metis add.right_neutral mod_add_cong mod_0)
  then have "16 dvd t - (a + l)" using assms(4) by (simp add: dvd_diff_nat mod_eq_0_iff_dvd)
  moreover have "t - (a + l) < 16" using assms(3) by simp
  ultimately have "t - (a + l) = 0" by (metis nat_dvd_not_less neq0_conv)
  then show "a + l = t" using assms(2) by simp
qed

definition argv_bytes :: "usize list \<Rightarrow> u8 list" where
  "argv_bytes ptrs = concat (map le64 (ptrs @ [0]))"

lemma length_argv_bytes: "length (argv_bytes ptrs) = 8 * Suc (length ptrs)"
proof -
  have l: "length (le64 w) = 8" for w by (simp add: le64_def le32_def)
  have "length (concat (map le64 ws)) = 8 * length ws" for ws by (induction ws) (simp_all add: l)
  from this [of "ptrs @ [0]"] show ?thesis by (simp add: argv_bytes_def)
qed

definition argv_at :: "kmem \<Rightarrow> usize \<Rightarrow> nat \<Rightarrow> u8 list list \<Rightarrow> usize list \<Rightarrow> bool" where
  "argv_at m pt sp argv ptrs \<longleftrightarrow>
     length ptrs = length argv \<and> ubytes m pt sp (8 * Suc (length argv)) = argv_bytes ptrs \<and>
     (\<forall>i < length argv. ubytes m pt (unat (ptrs ! i)) (arg_len (argv ! i)) = take (arg_len (argv ! i)) (argv ! i))"

context page_heap
begin

lemma push_argv_panics:
  assumes inv: "kmem_inv bf m" "pt_inv m pt" "user_inv m pt" "user_page m pt n \<noteq> None" "n < 2 ^ 26"
    and tp: "unat tos = 4096 * Suc n" and base: "unat base \<le> 4096 * n" and argc: "length argv < MAXARG"
    and arg: "argv = arg # args" "arg_ok arg" and bad: "arg_len arg mod 16 = 0" "user_page m pt (Suc n) = None"
  shows "push_argv pt base argv tos m = Panicked ''no map''"
proof -
  obtain p where p: "zero_position arg = Some p" "arg_len arg = p + 1" "arg_len arg \<le> 64"
    "length (take (p + 1) arg) = arg_len arg" using arg_zero [OF arg(2)] .
  have src: "take (p + 1) arg \<noteq> []" using p(2,4) by auto
  have lo: "4096 * n + length (take (p + 1) arg) + 15 \<le> unat tos" using tp p(3,4) by simp
  note b = push_bytes_spec [OF inv src lo _ base, unfolded tp, OF order_refl]
  have "4096 * Suc n mod 16 = 0" by simp
  from aligned_end [OF b(1-3) this] bad(1)
  have "unat (align_sp (tos - of_nat (length (take (p + 1) arg)))) + length (take (p + 1) arg) = 4096 * Suc n"
    unfolding p(4) by blast
  then have "push_bytes pt base (take (p + 1) arg) tos m = Panicked ''no map''" using b(4) bad(2) by simp
  then show ?thesis using argc p(1) by (simp add: push_argv_def arg(1))
qed

lemma push_argv_spec:
  assumes inv: "kmem_inv bf m" "pt_inv m pt" "user_inv m pt" "user_page m pt n \<noteq> None" "n < 2 ^ 26"
    and tp: "unat tos = 4096 * Suc n" and base: "unat base \<le> 4096 * n" and argc: "length argv < MAXARG"
    and ok: "\<forall>arg \<in> set argv. arg_ok arg"
    and good: "argv = [] \<or> arg_len (hd argv) mod 16 \<noteq> 0 \<or> user_page m pt (Suc n) \<noteq> None"
  shows "\<exists>sp ptrs m'. push_argv pt base argv tos m = Done (Inr sp, m') \<and> kmem_inv bf m' \<and> pt_inv m' pt \<and> user_inv m' pt \<and>
     unat sp mod 16 = 0 \<and> unat base \<le> unat sp \<and> argv_at m' pt (unat sp) argv ptrs \<and>
     (\<forall>u < 2 ^ 39. u < unat sp \<or> unat tos \<le> u \<longrightarrow> ubyte m' pt u = ubyte m pt u)"
proof -
  have sz: "80 * length argv + 8 * Suc (length argv) + 15 \<le> 4096" using argc by (simp add: MAXARG_def)
  have r: "4096 * n + 80 * length argv \<le> unat tos" "length [] + length argv \<le> Suc MAXARG" using tp sz argc by simp_all
  have g: "argv = [] \<or> unat tos < 4096 * Suc n \<or> arg_len (hd argv) mod 16 \<noteq> 0 \<or> user_page m pt (Suc n) \<noteq> None" using good by blast
  from push_args_spec [OF inv ok r(1) eq_refl [OF tp] base r(2) g]
  obtain sp1 ptrs m1 where a: "push_args pt base argv [] tos m = Done (Inr (sp1, ptrs), m1)"
    "kmem_inv bf m1" "pt_inv m1 pt" "user_inv m1 pt" "user_page m1 pt = user_page m pt"
    "length ptrs = length argv" "unat tos \<le> unat sp1 + 80 * length argv" "unat sp1 \<le> unat tos"
    "argv \<noteq> [] \<longrightarrow> unat sp1 < 4096 * Suc n"
    "\<forall>i < length argv. ubytes m1 pt (unat (ptrs ! i)) (arg_len (argv ! i)) = take (arg_len (argv ! i)) (argv ! i) \<and>
        unat sp1 \<le> unat (ptrs ! i) \<and> unat (ptrs ! i) + arg_len (argv ! i) \<le> unat tos"
    "\<forall>u < 2 ^ 39. u < unat sp1 \<or> unat tos \<le> u \<longrightarrow> ubyte m1 pt u = ubyte m pt u"
    unfolding append_Nil by blast
  have low: "4096 * n + length (argv_bytes ptrs) + 15 \<le> unat sp1"
    using a(6,7) tp sz unfolding length_argv_bytes mult_Suc_right by linarith
  have nn: "argv = [] \<or> List.last ptrs \<noteq> 0"
  proof (cases "argv = []")
    case False
    then have "ptrs \<noteq> []" using a(6) by auto
    then have "unat sp1 \<le> unat (List.last ptrs)" using a(6,10) False by (simp add: last_conv_nth)
    then show ?thesis using low by auto
  qed simp
  have src: "argv_bytes ptrs \<noteq> []" using length_argv_bytes [of ptrs] by auto
  have u1: "user_page m1 pt n \<noteq> None" using inv(4) a(5) by simp
  have hi: "unat sp1 \<le> 4096 * Suc n" using a(8) tp by simp
  note b = push_bytes_spec [OF a(2-4) u1 inv(5) src low hi base]
  let ?sp = "align_sp (sp1 - of_nat (length (argv_bytes ptrs)))"
  have "\<not> (unat ?sp + length (argv_bytes ptrs) = 4096 * Suc n)"
  proof
    assume e: "unat ?sp + length (argv_bytes ptrs) = 4096 * Suc n"
    then have "argv = []" using a(9) b(2) by auto
    then have "length (argv_bytes ptrs) = 8" using a(6) by (simp add: length_argv_bytes)
    moreover have "4096 * Suc n mod 16 = 0" by simp
    ultimately show False using aligned_end [OF b(1), of 8 "4096 * Suc n"] e by simp
  qed
  then obtain m2 where m2: "push_bytes pt base (argv_bytes ptrs) sp1 m1 = Done (Inr ?sp, m2)" "wrote bf m1 m2 pt (unat ?sp) (argv_bytes ptrs)"
    using b(4) by auto
  have run: "push_argv pt base argv tos m = Done (Inr ?sp, m2)"
    using argc a(1) nn m2(1) by (auto simp: push_argv_def argv_bytes_def)
  have bd: "unat tos \<le> 2 ^ 39" using tp inv(5) by simp
  have fr: "\<forall>u < 2 ^ 39. u < unat ?sp \<or> unat sp1 \<le> u \<longrightarrow> ubyte m2 pt u = ubyte m1 pt u"
    by (rule wrote_frame [OF m2(2) order_refl b(2)])
  have "ubytes m2 pt (unat (ptrs ! i)) (arg_len (argv ! i)) = take (arg_len (argv ! i)) (argv ! i)" if "i < length argv" for i
    using ubytes_frame [OF fr, of "unat (ptrs ! i)" "arg_len (argv ! i)"] a(10) that bd by auto
  moreover have "ubytes m2 pt (unat ?sp) (8 * Suc (length argv)) = argv_bytes ptrs"
    using wrote_here [OF m2(2)] b(2) a(8) bd length_argv_bytes [of ptrs] a(6) by simp
  ultimately have "argv_at m2 pt (unat ?sp) argv ptrs" using a(6) by (simp add: argv_at_def)
  moreover have "\<forall>u < 2 ^ 39. u < unat ?sp \<or> unat tos \<le> u \<longrightarrow> ubyte m2 pt u = ubyte m pt u"
    using fr a(8,11) b(2) by auto
  moreover have "kmem_inv bf m2" "pt_inv m2 pt" "user_inv m2 pt" using m2(2) by (simp_all add: wrote_def)
  moreover have "unat base \<le> unat ?sp" using b(3) low base by linarith
  ultimately show ?thesis using run b(1) by (intro exI [of _ ?sp] exI [of _ ptrs] exI [of _ m2] conjI)
qed

end

section \<open>Properties\<close>

text \<open>
  C31 (loading a segment): when the pages of the segment are mapped, \<^verbatim>\<open>load_seg\<close> never panics. It succeeds exactly if the
  part lies in the file (or is empty); then the segment's addresses hold those bytes of the file and no other user byte
  changes. If it fails, nothing but whole pages of the file's bytes have been stored. The file and the disk are not changed.
\<close>

theorem load_seg_correct:
  assumes "bit_crate bf" "kmem_inv bf m" "pt_inv m pt" "user_inv m pt" and "tx_ok d t {} b"
    and "file_ok bf sb d (tx_area t) (tx_cont d t) inum idata"
    and "unat va mod 4096 = 0" and "unat va + unat sz \<le> 2 ^ 38"
    and "\<forall>q. unat va \<le> 4096 * q \<and> 4096 * q < unat va + unat sz \<longrightarrow> user_page m pt q \<noteq> None"
  shows "\<exists>t' m' j.
     load_seg bf sb pt va offset sz idata t m =
       Done (unat offset + unat sz \<le> unat (di_size (id_dinode idata)) \<or> sz = 0, idata, t', m') \<and> tx_same d b t t' \<and>
     wrote bf m m' pt (unat va) (take j (drop (unat offset) (file_contents idata (tx_cont d t)))) \<and>
     (if unat offset + unat sz \<le> unat (di_size (id_dinode idata)) \<or> sz = 0 then j = unat sz
      else j mod 4096 = 0 \<and> unat offset + j \<le> max (unat offset) (unat (di_size (id_dinode idata))))"
proof -
  define ok where "ok \<longleftrightarrow> unat offset + unat sz \<le> unat (di_size (id_dinode idata)) \<or> sz = 0"
  define rst where "rst = drop (unat offset) (file_contents idata (tx_cont d t))"
  have l: "unat offset + length rst \<le> max (unat offset) (unat (di_size (id_dinode idata)))"
    by (simp add: rst_def file_contents_def)
  obtain t' m' where r: "load_seg bf sb pt va offset sz idata t m = Done (ok, idata, t', m')" "tx_same d b t t'"
    "if ok then wrote bf m m' pt (unat va) (take (unat sz) rst)
     else \<exists>j. 4096 * j \<le> length rst \<and> wrote bf m m' pt (unat va) (take (4096 * j) rst)"
    using page_heap.load_seg_spec [OF bit_crate_heap [OF assms(1)] assms rst_def ok_def] by blast
  have "\<exists>j. wrote bf m m' pt (unat va) (take j rst) \<and>
      (if ok then j = unat sz else j mod 4096 = 0 \<and> unat offset + j \<le> max (unat offset) (unat (di_size (id_dinode idata))))"
  proof (cases ok)
    case True
    then show ?thesis using r(3) by (intro exI [of _ "unat sz"]) simp
  next
    case False
    then obtain j where j: "4096 * j \<le> length rst" "wrote bf m m' pt (unat va) (take (4096 * j) rst)" using r(3) by auto
    moreover have "4096 * j mod 4096 = 0" "unat offset + 4096 * j \<le> max (unat offset) (unat (di_size (id_dinode idata)))"
      using j(1) l by simp_all
    ultimately show ?thesis using False by (intro exI [of _ "4096 * j"]) (simp only: if_False simp_thms)
  qed
  then show ?thesis unfolding ok_def [symmetric] rst_def [symmetric] using r(1,2) by blast
qed

theorem load_seg_correct_witness:
  "\<exists>t' m'. load_seg word_bits demo_sb 0x1000 0 2 3 (demo_file 40 5) (demo_tx demo_disk) (demo 12) = Done (True, demo_file 40 5, t', m') \<and>
     load_seg word_bits demo_sb 0x1000 0 2 4 (demo_file 40 5) (demo_tx demo_disk) (demo 12) \<noteq> Done (True, demo_file 40 5, t', m')"
proof -
  have len: "\<forall>b. length (demo_disk b) = BSIZE" by (simp add: demo_disk_def demo_bitmap_def BSIZE_def)
  note ok = demo_tx_ok [OF len]
  have f: "file_ok word_bits demo_sb 1 (tx_area (demo_tx demo_disk)) (tx_cont 1 (demo_tx demo_disk)) 1 (demo_file 40 5)"
    unfolding ok(2,4) by (rule demo_file_ok) (simp_all add: BSIZE_def)
  have inv: "kmem_inv word_bits (demo 12)" by (rule demo_inv) simp_all
  have pages: "\<forall>q. unat (0 :: usize) \<le> 4096 * q \<and> 4096 * q < unat (0 :: usize) + unat sz \<longrightarrow> user_page (demo 12) 0x1000 q \<noteq> None"
    if "unat (sz :: u32) < 4096" for sz
  proof (intro allI impI; elim conjE)
    fix q assume "4096 * q < unat (0 :: usize) + unat sz"
    then have "q = 0" using that by simp
    then show "user_page (demo 12) 0x1000 q \<noteq> None" by (simp add: demo_user(2))
  qed
  note r = load_seg_correct [OF word_bits.bit_crate_axioms inv demo_pt(1) demo_user(1) ok(1) f _ _ pages, where offset = 2]
  have sz: "unat (di_size (id_dinode (demo_file 40 5))) = 5" by (simp add: demo_file_def)
  obtain t' m' where "load_seg word_bits demo_sb 0x1000 0 2 3 (demo_file 40 5) (demo_tx demo_disk) (demo 12) = Done (True, demo_file 40 5, t', m')"
    using r [of 3] unfolding sz by auto
  moreover obtain t2 m2 where "load_seg word_bits demo_sb 0x1000 0 2 4 (demo_file 40 5) (demo_tx demo_disk) (demo 12) = Done (False, demo_file 40 5, t2, m2)"
    using r [of 4] unfolding sz by auto
  ultimately show ?thesis by auto
qed

text \<open>
  C32 (arguments of a program): let the page below the top of the stack be mapped. If the first argument with its terminating
  zero is a multiple of 16 bytes long and the page above the stack, the guard page of the next one, is not mapped for the
  user, \<^verbatim>\<open>exec\<close> panics. Otherwise the arguments always fit: the stack pointer is aligned and at least the base of the stack, it
  points to the array of the addresses of the arguments, closed by a null pointer, each address holds its argument with the
  zero, and no user byte outside the used part of the stack changes.
\<close>

theorem exec_stack_correct:
  assumes "bit_crate bf" "kmem_inv bf m" "pt_inv m pt" "user_inv m pt" and "user_page m pt n \<noteq> None" "n < 2 ^ 26"
    and "unat tos = 4096 * Suc n" and "unat base \<le> 4096 * n" and "length argv < MAXARG" and "\<forall>arg \<in> set argv. arg_ok arg"
  shows "if argv \<noteq> [] \<and> arg_len (hd argv) mod 16 = 0 \<and> user_page m pt (Suc n) = None
    then push_argv pt base argv tos m = Panicked ''no map''
    else \<exists>sp ptrs m'. push_argv pt base argv tos m = Done (Inr sp, m') \<and> kmem_inv bf m' \<and> pt_inv m' pt \<and> user_inv m' pt \<and>
      unat sp mod 16 = 0 \<and> unat base \<le> unat sp \<and> argv_at m' pt (unat sp) argv ptrs \<and>
      (\<forall>u < 2 ^ 39. u < unat sp \<or> unat tos \<le> u \<longrightarrow> ubyte m' pt u = ubyte m pt u)"
proof (cases "argv \<noteq> [] \<and> arg_len (hd argv) mod 16 = 0 \<and> user_page m pt (Suc n) = None")
  case True
  then obtain arg args where a: "argv = arg # args" by (cases argv) auto
  then have "arg_ok arg" "arg_len arg mod 16 = 0" "user_page m pt (Suc n) = None" using True assms(10) by simp_all
  from page_heap.push_argv_panics [OF bit_crate_heap [OF assms(1)] assms(2-9) a this] True show ?thesis by simp
next
  case False
  then have "argv = [] \<or> arg_len (hd argv) mod 16 \<noteq> 0 \<or> user_page m pt (Suc n) \<noteq> None" by metis
  from page_heap.push_argv_spec [OF bit_crate_heap [OF assms(1)] assms(2-10) this] False show ?thesis by (simp only: if_False)
qed

definition demo_arg :: "nat \<Rightarrow> u8 list" where
  "demo_arg k = replicate k 1 @ replicate (64 - k) 0"

lemma demo_arg_facts:
  assumes "k < 64"
  shows "arg_ok (demo_arg k)" "arg_len (demo_arg k) = k + 1"
proof -
  have "zero_position (demo_arg k) = Some k"
    unfolding zero_position_def find_Some_iff using assms by (intro exI [of _ k]) (simp add: demo_arg_def nth_append)
  then show "arg_ok (demo_arg k)" "arg_len (demo_arg k) = k + 1" using assms
    by (simp_all add: arg_ok_def arg_len_def MAXARGLEN_def demo_arg_def)
qed

theorem exec_stack_correct_witness:
  "push_argv 0x1000 0 [demo_arg 15, demo_arg 4] 0x1000 (demo 12) = Panicked ''no map'' \<and>
   (\<exists>sp ptrs m'. push_argv 0x1000 0 [demo_arg 4, demo_arg 15] 0x1000 (demo 12) = Done (Inr sp, m') \<and>
      argv_at m' 0x1000 (unat sp) [demo_arg 4, demo_arg 15] ptrs)"
proof -
  have inv: "kmem_inv word_bits (demo 12)" by (rule demo_inv) simp_all
  have n: "user_page (demo 12) 0x1000 0 \<noteq> None" "(0 :: nat) < 2 ^ 26" "unat (0x1000 :: usize) = 4096 * Suc 0"
    "unat (0 :: usize) \<le> 4096 * 0" "user_page (demo 12) 0x1000 (Suc 0) = None" by (simp_all add: demo_user(2))
  have l: "length [x, y] < MAXARG" for x y :: "u8 list" by (simp add: MAXARG_def)
  have a: "\<forall>arg \<in> set [demo_arg 15, demo_arg 4]. arg_ok arg" "\<forall>arg \<in> set [demo_arg 4, demo_arg 15]. arg_ok arg"
    using demo_arg_facts(1) [of 15] demo_arg_facts(1) [of 4] by simp_all
  have "arg_len (demo_arg 15) = 16" "arg_len (demo_arg 4) = 5" using demo_arg_facts(2) [of 15] demo_arg_facts(2) [of 4] by simp_all
  then show ?thesis
    using exec_stack_correct [OF word_bits.bit_crate_axioms inv demo_pt(1) demo_user(1) n(1-4) l a(1)]
      exec_stack_correct [OF word_bits.bit_crate_axioms inv demo_pt(1) demo_user(1) n(1-4) l a(2)] n(5) by auto
qed

end
