(* ===== verification/Trap.thy ===== *)
theory Trap
  imports SchedInv Console Virtio SysCalls
begin

text \<open>
  The clock and the handling of traps (\<^verbatim>\<open>kernel/src/trap.rs\<close>, \<^verbatim>\<open>register/scause.rs\<close>): decoding the cause, device interrupts,
  the timer with the processes that sleep on it, and the system calls sleep and uptime. Registers and the claims of the
  interrupt controller are arguments. The arm \<^verbatim>\<open>ScauseType::PageFault\<close> names a variant that is not declared, so the causes
  that reach it are the argument \<open>page_fault\<close>.
\<close>

declare split_paired_Ex [simp del] split_paired_All [simp del]

section \<open>Causes\<close>

datatype interrupt =
    UserSoft | VirtualSupervisorSoft | SupervisorSoft | UserTimer | VirtualSupervisorTimer | SupervisorTimer
  | UserExternal | VirtualSupervisorExternal | SupervisorExternal | UnknownInterrupt

datatype exception =
    InstructionMisaligned | InstructionFault | IllegalInstruction | Breakpoint | LoadFault | StoreMisaligned | StoreFault
  | UserEnvCall | SupervisorEnvCall | VirtualSupervisorEnvCall | InstructionPageFault | LoadPageFault | StorePageFault
  | InstructionGuestPageFault | LoadGuestPageFault | VirtualInstruction | StoreGuestPageFault | UnknownException

datatype trap_cause = Interrupt interrupt | Exception exception

definition interrupt_from :: "usize \<Rightarrow> interrupt" where
  "interrupt_from nr =
     (if nr = 0 then UserSoft else if nr = 1 then SupervisorSoft else if nr = 2 then VirtualSupervisorSoft
      else if nr = 4 then UserTimer else if nr = 5 then SupervisorTimer else if nr = 6 then VirtualSupervisorTimer
      else if nr = 8 then UserExternal else if nr = 9 then SupervisorExternal else if nr = 10 then VirtualSupervisorExternal
      else UnknownInterrupt)"

definition exception_from :: "usize \<Rightarrow> exception" where
  "exception_from nr =
     (if nr = 0 then InstructionMisaligned else if nr = 1 then InstructionFault else if nr = 2 then IllegalInstruction
      else if nr = 3 then Breakpoint else if nr = 5 then LoadFault else if nr = 6 then StoreMisaligned
      else if nr = 7 then StoreFault else if nr = 8 then UserEnvCall else if nr = 9 then SupervisorEnvCall
      else if nr = 10 then VirtualSupervisorEnvCall else if nr = 12 then InstructionPageFault else if nr = 13 then LoadPageFault
      else if nr = 15 then StorePageFault else if nr = 20 then InstructionGuestPageFault else if nr = 21 then LoadGuestPageFault
      else if nr = 22 then VirtualInstruction else if nr = 23 then StoreGuestPageFault else UnknownException)"

definition scause_code :: "usize \<Rightarrow> usize" where
  "scause_code bits = bits AND NOT (push_bit 63 1)"

definition scause_is_interrupt :: "usize \<Rightarrow> bool" where
  "scause_is_interrupt bits = bit bits 63"

definition scause_cause :: "usize \<Rightarrow> trap_cause" where
  "scause_cause bits =
     (if scause_is_interrupt bits then Interrupt (interrupt_from (scause_code bits)) else Exception (exception_from (scause_code bits)))"

section \<open>The clock\<close>

text \<open>\<open>chan\<close> is the address of \<^verbatim>\<open>TICKS\<close>, which sleeping processes use as their channel. The counter wraps.\<close>

definition clock_intr :: "usize \<Rightarrow> usize \<times> procs \<Rightarrow> usize \<times> procs" where
  "clock_intr chan = (\<lambda>(ticks, s). (ticks + 1, wakeup chan s))"

datatype clock_result = ClockOk | ClockErr | ClockSleep

text \<open>
  \<^verbatim>\<open>clock_sleep\<close> of process \<open>i\<close> on processor \<open>c\<close> from one look at the counter to the return or the next sleep; \<open>old\<close> is the
  value at the call. It goes on with \<open>clock_wake\<close> once it runs again.
\<close>

definition clock_look :: "nat \<Rightarrow> nat \<Rightarrow> usize \<Rightarrow> usize \<Rightarrow> usize \<Rightarrow> usize \<Rightarrow> procs \<Rightarrow> (clock_result \<times> procs) kres" where
  "clock_look c i chan old cnt ticks s =
     (if ticks - old < cnt
      then if pr_killed (ps_table s ! i) then Done (ClockErr, s)
           else kbind (Sched.sleep c i chan s) (\<lambda>s'. Done (ClockSleep, s'))
      else Done (ClockOk, s))"

definition clock_sleep :: "nat \<Rightarrow> nat \<Rightarrow> usize \<Rightarrow> usize \<Rightarrow> usize \<Rightarrow> procs \<Rightarrow> (clock_result \<times> procs) kres" where
  "clock_sleep c i chan cnt ticks s = clock_look c i chan ticks cnt ticks s"

definition clock_wake :: "nat \<Rightarrow> nat \<Rightarrow> usize \<Rightarrow> usize \<Rightarrow> usize \<Rightarrow> usize \<Rightarrow> procs \<Rightarrow> (clock_result \<times> procs) kres" where
  "clock_wake c i chan old cnt ticks s = clock_look c i chan old cnt ticks (sleep_return i s)"

definition clock_read :: "usize \<Rightarrow> usize" where
  "clock_read ticks = ticks"

text \<open>The sign is checked on 32 bits, but the whole register is the number of ticks.\<close>

definition sys_sleep :: "nat \<Rightarrow> nat \<Rightarrow> usize \<Rightarrow> trapframe \<Rightarrow> usize \<Rightarrow> procs \<Rightarrow> (clock_result \<times> procs) kres" where
  "sys_sleep c i chan tf ticks s =
     kbind (arg_i32 tf 0) (\<lambda>n.
       if sint n < 0 then Done (ClockErr, s)
       else kbind (arg_raw tf 0) (\<lambda>cnt. clock_sleep c i chan cnt ticks s))"

definition sys_uptime :: "usize \<Rightarrow> usize option" where
  "sys_uptime ticks = Some (clock_read ticks)"

section \<open>Traps\<close>

definition UART0_IRQ :: u32 where "UART0_IRQ = 10"
definition VIRTIO0_IRQ :: u32 where "VIRTIO0_IRQ = 1"

text \<open>\<open>tr_output\<close> collects the bytes sent to the terminal, \<open>tr_done\<close> the interrupts completed at the controller.\<close>

record trap_state =
  tr_ticks :: usize
  tr_procs :: procs
  tr_console :: console
  tr_uart :: uart
  tr_output :: "u8 list"
  tr_disk :: disk
  tr_done :: "u32 list"

definition device_intr :: "u32 \<Rightarrow> u8 list \<Rightarrow> nat \<Rightarrow> trap_state \<Rightarrow> trap_state kres" where
  "device_intr irq rx idle t =
     kbind (if irq = UART0_IRQ
            then kbind (uart_intr rx idle (tr_console t, tr_uart t)) (\<lambda>(con, u, echo, out).
                 Done (t\<lparr>tr_console := con, tr_uart := u, tr_output := tr_output t @ echo @ out\<rparr>))
            else if irq = VIRTIO0_IRQ then kbind (disk_intr (tr_disk t)) (\<lambda>d. Done (t\<lparr>tr_disk := d\<rparr>))
            else Done t) (\<lambda>t1.
       Done (if irq > 0 then t1\<lparr>tr_done := tr_done t1 @ [irq]\<rparr> else t1))"

text \<open>Only processor 0 counts the ticks.\<close>

definition timer_intr :: "nat \<Rightarrow> usize \<Rightarrow> trap_state \<Rightarrow> trap_state" where
  "timer_intr c chan t =
     (if c = 0 then case clock_intr chan (tr_ticks t, tr_procs t) of (n, s) \<Rightarrow> t\<lparr>tr_ticks := n, tr_procs := s\<rparr> else t)"

definition kerneltrap :: "(trap_cause \<Rightarrow> bool) \<Rightarrow> nat \<Rightarrow> usize \<Rightarrow> bool \<Rightarrow> bool \<Rightarrow> usize \<Rightarrow> u32 \<Rightarrow> u8 list \<Rightarrow> nat \<Rightarrow> trap_state \<Rightarrow>
    trap_state kres" where
  "kerneltrap page_fault c chan from_supervisor intr_on scause irq rx idle t =
     (if \<not> from_supervisor then Panicked ''not from supervisor mode''
      else if intr_on then Panicked ''interrupts enabled''
      else let cause = scause_cause scause
           in if cause = Interrupt SupervisorExternal then device_intr irq rx idle t
              else if cause = Interrupt SupervisorSoft
              then let t1 = timer_intr c chan t
                   in kbind (try_yield_proc c (tr_procs t1)) (\<lambda>s. Done (t1\<lparr>tr_procs := s\<rparr>))
              else if cause = Exception SupervisorEnvCall then Panicked ''not implemented: supervisor call''
              else if cause = Exception UserEnvCall then Panicked ''ecall from supervisor mode''
              else if page_fault cause then Done t
              else Panicked ''unknown trap type'')"

text \<open>\<^verbatim>\<open>check_abondon\<close> and \<^verbatim>\<open>abondon\<close>: a killed process exits and does not come back (\<open>None\<close>).\<close>

definition check_abondon :: "(nat \<Rightarrow> usize) \<Rightarrow> nat \<Rightarrow> nat \<Rightarrow> procs \<Rightarrow> (bool \<times> procs) kres" where
  "check_abondon chans c i s =
     (if pr_killed (ps_table s ! i) then kbind (exiting chans c i (- 1) s) (\<lambda>s'. Done (True, s')) else Done (False, s))"

definition abondon :: "(nat \<Rightarrow> usize) \<Rightarrow> nat \<Rightarrow> nat \<Rightarrow> procs \<Rightarrow> procs kres" where
  "abondon chans c i s = exiting chans c i (- 1) (upd_proc i (\<lambda>p. p\<lparr>pr_killed := True\<rparr>) s)"

text \<open>One tick of the alarm of a process; the flag says that the handler is entered.\<close>

definition alarm_tick :: "proc_alarm \<Rightarrow> (bool \<times> proc_alarm) kres" where
  "alarm_tick a =
     kbind (if al_interval a > 0 then kbind (usize_add (al_past_tick a) 1) (\<lambda>n. Done (a\<lparr>al_past_tick := n\<rparr>)) else Done a) (\<lambda>a1.
       if al_past_tick a1 = al_interval a1 \<and> \<not> al_handler_called a1 \<and> al_interval a1 > 0
       then Done (True, a1\<lparr>al_past_tick := 0, al_handler_called := True\<rparr>) else Done (False, a1))"

text \<open>
  The page fault arm: a page of the heap, with whatever it holds (\<open>old_bytes\<close>), is mapped at the faulting address. The
  first component says that the process is marked as killed, for lack of memory; page 0 is mapped then. The result of the
  mapping is not looked at.
\<close>

definition user_page_fault :: "bit_field \<Rightarrow> usize \<Rightarrow> usize \<Rightarrow> u8 list \<Rightarrow> kmem \<Rightarrow> (bool \<times> kmem) kres" where
  "user_page_fault bf pt stval old_bytes m =
     kbind (page_try_new bf (Bytes old_bytes) m) (\<lambda>(r, m1).
     let ptr = (case r of None \<Rightarrow> 0 | Some a \<Rightarrow> a)
     in kbind (map_pages bf pt (VirtAddr (pg_round_down stval)) PAGE_SIZE (PhysAddr ptr) (PTE_R OR PTE_W OR PTE_U) m1) (\<lambda>(q, m2).
          Done (r = None, m2)))"

text \<open>
  \<^verbatim>\<open>user_trap\<close> of process \<open>i\<close> up to the return to user mode, the system call, the page fault arm or the switch to another process.
  \<open>started\<close> is the flag \<^verbatim>\<open>STARTED\<close>; \<open>chans\<close> are the channels of the processes. The first component says
  whether the alarm handler is entered.
\<close>

datatype user_next = BackToUser | EnterSyscall | HandlePageFault | ProcessExited | ProcessYields

definition set_tr_procs :: "procs \<Rightarrow> trap_state \<Rightarrow> trap_state" where
  "set_tr_procs s t = t\<lparr>tr_procs := s\<rparr>"

definition user_trap :: "(trap_cause \<Rightarrow> bool) \<Rightarrow> (nat \<Rightarrow> usize) \<Rightarrow> nat \<Rightarrow> nat \<Rightarrow> usize \<Rightarrow> bool \<Rightarrow> bool \<Rightarrow> usize \<Rightarrow> u32 \<Rightarrow> u8 list \<Rightarrow>
    nat \<Rightarrow> trap_state \<Rightarrow> (bool \<times> user_next \<times> trap_state) kres" where
  "user_trap page_fault chans c i chan from_user started scause irq rx idle t =
     (if \<not> from_user then Panicked ''not from user mode''
      else let cause = scause_cause scause;
               go_on = (\<lambda>fired next t1. kbind (check_abondon chans c i (tr_procs t1)) (\<lambda>(gone, s).
                 Done (fired, if gone then ProcessExited else next, set_tr_procs s t1)))
           in if cause = Interrupt SupervisorExternal then kbind (device_intr irq rx idle t) (go_on False BackToUser)
              else if cause = Interrupt SupervisorSoft
              then let t1 = timer_intr c chan t
                   in kbind (if started
                             then kbind (alarm_tick (pr_alarm (ps_table (tr_procs t1) ! i))) (\<lambda>(fired, a).
                                  Done (fired, set_tr_procs (set_alarm i (\<lambda>_. a) (tr_procs t1)) t1))
                             else Done (False, t1)) (\<lambda>(fired, t2).
                      kbind (go_on fired ProcessYields t2) (\<lambda>(f, next, t3).
                        if next = ProcessExited then Done (f, next, t3)
                        else kbind (yielding c i (tr_procs t3)) (\<lambda>s. Done (f, next, set_tr_procs s t3))))
              else if cause = Exception UserEnvCall then go_on False EnterSyscall t
              else if page_fault cause then Done (False, HandlePageFault, t)
              else kbind (abondon chans c i (tr_procs t)) (\<lambda>s. Done (False, ProcessExited, set_tr_procs s t)))"

section \<open>Sleeping for a number of ticks\<close>

lemma wakeup_one:
  assumes "i < length (ps_table s)" and "pe_state (excl s i) = SLEEPING" and "pe_channel (excl s i) = ch"
  shows "pe_state (excl (wakeup ch s) i) = RUNNABLE" "i \<in> set (ps_fifo (wakeup ch s))"
proof -
  let ?is = "[0..<length (ps_table s)]"
  have "set ?is \<subseteq> {..<length (ps_table s)}" by auto
  note v = wakeup_loop_view [OF distinct_upt this, of ch, folded wakeup_def]
  have "i \<in> set (sleepers ch s ?is)" using assms by (simp add: sleepers_def st_def)
  then show "pe_state (excl (wakeup ch s) i) = RUNNABLE" "i \<in> set (ps_fifo (wakeup ch s))"
    using v by (auto simp: st_def fun_eq_iff)
qed

lemma sleep_state:
  assumes "i < length (ps_table s)" and "ps_cpu s c = Some i"
  obtains s' where "Sched.sleep c i ch s = Done s'" "pe_state (excl s' i) = SLEEPING" "pe_channel (excl s' i) = ch" "ps_cpu s' c = None"
    "length (ps_table s') = length (ps_table s)"
  using assms by (simp add: Sched.sleep_def switch_back_def excl_def set_excl_def upd_proc_def)

lemma ticks_since: "k < 2 ^ 64 \<Longrightarrow> old + of_nat k - old < (cnt :: usize) \<longleftrightarrow> k < unat cnt"
  by (simp add: word_less_nat_alt unsigned_of_nat take_bit_nat_eq_self)


definition one_running :: procs where
  "one_running = set_excl 0 (\<lambda>e. e\<lparr>pe_state := RUNNING\<rparr>) (procs_new\<lparr>ps_cpu := (\<lambda>_. None)(0 := Some 0)\<rparr>)"


end
