(* ===== verification/Spec2Isabelle.thy ===== *)
theory Spec2Isabelle
  imports Prelude Addr IdAlloc Ring Pipe Console Buddy BuddyTree BuddyInv KernelHeap FreeList
    Bcache BcacheLru BcacheInv BlockStore Log LogCommit CrashSafety LogOps
    Txn FsLayout Bitmap Inode FileMap FileIo PathName Icache IcacheInv Directory
    PageMem PageTable PtTree PtMap UserVm UserCopy UserSpace UserFork AddressSpace Kvm
    Spinlock Sched SchedInv Sleeplock Virtio VirtioInv OpenFile WriteFile SysCalls SysCallsInv
    ProcSpace Threads Elf ElfLoad Trap
begin

text \<open>
  Verification of SEIOS, a teaching kernel for RISC-V written in Rust (\<^verbatim>\<open>src/kernel\<close>).

  \<^bold>\<open>Conventions\<close> (\<open>Prelude\<close>). Machine integers are words (\<^verbatim>\<open>usize\<close>, \<^verbatim>\<open>u32\<close>, \<^verbatim>\<open>u8\<close>). The kernel is
  built with the \<^verbatim>\<open>dev\<close> profile, so arithmetic that overflows panics: code that may panic
  returns \<open>'a kres\<close>, either \<open>Done\<close> or \<open>Panicked\<close> with a message, and \<open>usize_add\<close>,
  \<open>usize_sub\<close> and \<open>usize_mul\<close> are the checked operations. State is passed explicitly. A
  \<^verbatim>\<open>Result\<close> or \<^verbatim>\<open>Option\<close> of the code is a sum or an option. Locks are not represented: a definition
  is the code of one critical section, and where the code sleeps the section ends with an
  outcome that says so.

  \<^bold>\<open>Parts of the kernel and their theories.\<close>

  \<^item> Addresses (\<^verbatim>\<open>mm/addr.rs\<close>, \<^verbatim>\<open>mm/mod.rs\<close>, \<^verbatim>\<open>consts\<close>): \<open>Addr\<close>. Typed addresses and page
    numbers, rounding, conversions, ranges of pages. The two ways the code splits a virtual
    address into Sv39 indices agree; rounding gives the nearest page boundaries and panics
    exactly on overflow.

  \<^item> Recycling allocators (\<^verbatim>\<open>process/proc/pid.rs\<close>, \<^verbatim>\<open>process/task/tid.rs\<close>,
    \<^verbatim>\<open>mm/page_allocator.rs\<close>): \<open>IdAlloc\<close>. The locale \<open>id_allocator\<close> and its extension state the
    contract of an allocator of numbers; clients never hold a number twice.

  \<^item> Pipes (\<^verbatim>\<open>fs/file/pipe.rs\<close>), console and UART (\<^verbatim>\<open>driver/console.rs\<close>, \<^verbatim>\<open>driver/uart.rs\<close>):
    \<open>Pipe\<close>, \<open>Console\<close>, over the circular buffers of \<open>Ring\<close>. A pipe is a queue under every
    interleaving until its 32-bit counters wrap; the console refines an abstract line
    discipline. The copy between user and kernel memory is an argument of the operations.

  \<^item> Kernel heap (\<^verbatim>\<open>mm/kalloc.rs\<close>, \<^verbatim>\<open>mm/list.rs\<close>): \<open>Buddy\<close> translates the code; \<open>BuddyTree\<close> is the
    binary tree of blocks; \<open>BuddyInv\<close> the invariant; \<open>KernelHeap\<close> what callers see: blocks are
    large enough, aligned and disjoint, releasing gives them back. \<open>FreeList\<close> refines the
    intrusive linked list to plain lists. The \<^verbatim>\<open>bit_field\<close> crate is the parameter \<open>bf\<close> with
    its documented laws in the locale \<open>bit_crate\<close>, which 8-bit words satisfy.

  \<^item> Buffer cache (\<^verbatim>\<open>fs/bio.rs\<close>): \<open>Bcache\<close>, \<open>BcacheLru\<close> (the pointers form one list in LRU order),
    \<open>BcacheInv\<close>, and the interface \<open>block_store\<close> of \<open>BlockStore\<close>. The disk driver is the
    transfer of one block; the sequence of writes is kept.

  \<^item> Write-ahead log (\<^verbatim>\<open>fs/log.rs\<close>): \<open>Log\<close>, \<open>LogCommit\<close>, \<open>CrashSafety\<close>, \<open>LogOps\<close>, proved once over
    \<open>block_store\<close>. A commit is atomic whatever prefix of its writes reaches the disk, also
    when recovery is interrupted; the log never overflows its header.

  \<^item> File system (\<^verbatim>\<open>fs/superblock.rs\<close>, \<^verbatim>\<open>fs/block.rs\<close>, \<^verbatim>\<open>fs/inode.rs\<close>): \<open>Txn\<close> is the block layer inside a
    transaction, with the contract \<open>log_store\<close> that the log and the cache satisfy; \<open>FsLayout\<close> the
    bytes on the disk; \<open>Bitmap\<close> the allocation of blocks and inodes; \<open>Inode\<close> translates the
    operations on an inode; \<open>FileMap\<close> the block map of a file and its invariant \<open>file_ok\<close>;
    \<open>FileIo\<close> refines reading and writing to byte strings; \<open>Icache\<close> translates the inode cache
    and directories and \<open>IcacheInv\<close> proves the cache's invariant for every run; \<open>PathName\<close> is
    the splitting of paths; \<open>Directory\<close> refines a directory to a finite map and translates path
    resolution and creation. The room a transaction needs is bounded by six blocks for each block a
    write touches and one for the inode.

  \<^item> Open files (\<^verbatim>\<open>fs/file/mod.rs\<close>, the device table of \<^verbatim>\<open>driver/mod.rs\<close>): \<open>OpenFile\<close> translates what a
    system call does on a file descriptor, over pipes, the inode cache and the console;
    \<open>WriteFile\<close> follows a write through its batches and commits down to the blocks of the disk.

  \<^item> System calls (\<^verbatim>\<open>process/proc/syscall.rs\<close>, the argument decoding of \<^verbatim>\<open>process/proc/mod.rs\<close>): \<open>SysCalls\<close> translates the
    calls on files, with the descriptor tables and the reference counts of open files;
    \<open>SysCallsInv\<close> proves for every run that a count is the number of descriptors.

  \<^item> Disk driver (\<^verbatim>\<open>driver/virtio_disk.rs\<close>): \<open>Virtio\<close> translates the driver; \<open>VirtioInv\<close> runs it with a device
    that behaves as the virtio standard says. The driver performs every request exactly once as a
    transfer of one block, as the buffer cache assumes, as long as two requests at most are under
    way; a third one corrupts the descriptors.

  \<^item> Page tables and address spaces (\<^verbatim>\<open>mm/pagetable.rs\<close>, \<^verbatim>\<open>mm/kvm.rs\<close>): \<open>PageMem\<close> is the memory, a
    heap and a store of pages, with the interface \<open>page_heap\<close> provided by the buddy
    allocator; \<open>PageTable\<close> and \<open>UserVm\<close> translate the code; \<open>PtTree\<close> reads a page table as a
    tree; \<open>PtMap\<close>, \<open>UserSpace\<close>, \<open>UserFork\<close> and \<open>UserCopy\<close> specify mapping, growing and
    shrinking, duplicating and copying; \<open>AddressSpace\<close> states the properties on an example
    memory; \<open>Kvm\<close> is the kernel's own table; \<open>ProcSpace\<close> is the table a new process starts with, which
    cannot be made for pid 0.

  \<^item> Locks and processors (\<^verbatim>\<open>spinlock.rs\<close>, \<^verbatim>\<open>process/cpu.rs\<close>): \<open>Spinlock\<close>. The instructions of acquiring and
    releasing a lock are steps of a machine with any number of processors and locks: mutual
    exclusion, and interrupts are off exactly where they have to be.

  \<^item> Sleep locks (\<^verbatim>\<open>sleeplock.rs\<close>): \<open>Sleeplock\<close>. Locking, sleeping, unlocking and waking step by step
    between the points where a spin lock is taken or released: one holder, and no lost wake-up.

  \<^item> Processes (\<^verbatim>\<open>process/mod.rs\<close>, \<^verbatim>\<open>process/proc/mod.rs\<close>, \<^verbatim>\<open>process/proc/manager.rs\<close>): \<open>Sched\<close> translates the
    process table, the run queue and the scheduler; \<open>SchedInv\<close> runs them as steps of any number of
    processors and proves the run queue's invariant, fairness of the scheduler, and that a killed
    sleeper is lost.

  \<^item> Tasks (\<^verbatim>\<open>process/task/task.rs\<close>): \<open>Threads\<close>. The number, kernel stack and trap frame page of a task, over the
    kernel's and the process's page tables; the places of different tasks and processes are disjoint.

  \<^item> Programs (\<^verbatim>\<open>process/proc/elf.rs\<close> and the system call exec): \<open>Elf\<close> translates the loader over the inode cache,
    the heap, the page tables and the tasks; \<open>ElfLoad\<close> follows the bytes of a segment from the file to user
    memory, and the arguments onto the stack.

  \<^item> Traps and the clock (\<^verbatim>\<open>trap.rs\<close>, \<^verbatim>\<open>register/scause.rs\<close>): \<open>Trap\<close>. Causes, device and clock interrupts, the trap handlers up to
    the switch of registers, and sleeping for a number of ticks.

  \<^bold>\<open>Fuel and termination.\<close> All loops are structural recursions or have termination measures,
  except the recursive destructor of a page table, \<open>drop_table\<close>, which takes the depth as fuel;
  three levels are what Sv39 has.

  \<^bold>\<open>Not modelled.\<close> Saved registers and the switch between them; control registers, boot code and printing, which are
  machine instructions and text output; the user library.
\<close>

end
